(* ===== verification/Prelude.thy ===== *)
theory Prelude
  imports Main "HOL-Library.Word" "HOL-Library.Code_Target_Numeral"
begin

text \<open>
  Shared vocabulary of the development: the machine integer types, the outcome of a Rust
  call (a value, an error, a panic or undefined behaviour), checked slice accesses and
  in-place slice writes, little-endian integers, and the theorem collections the component
  theories use. A \<open>usize\<close> is a \<open>nat\<close>: every length, offset and index of the modelled code is
  bounded by the length of a buffer or is a widened \<open>u32\<close>, so it stays below \<open>2 ^ 64\<close>.
\<close>

section \<open>Theorem collections\<close>

named_theorems res_simps \<open>inversion of the outcome combinators\<close>
named_theorems len_simps \<open>lengths of encodings\<close>
named_theorems codec_simps \<open>one decoding step over a known encoding\<close>

section \<open>Machine integers\<close>

type_synonym u8 = "8 word"
type_synonym u32 = "32 word"
type_synonym u64 = "64 word"
type_synonym i64 = "64 word"

text \<open>Bytes of an ASCII literal; a Rust string is its UTF-8 byte list.\<close>

type_synonym rstr = "u8 list"

definition str :: "string \<Rightarrow> rstr" where
  "str s = map of_char s"

text \<open>\<open>u32::MAX\<close>.\<close>

definition u32_max :: u32 where
  "u32_max = 4294967295"

text \<open>\<open>n as u32\<close> of a \<open>usize\<close>.\<close>

definition as_u32 :: "nat \<Rightarrow> u32" where
  "as_u32 n = word_of_nat n"

lemma unat_as_u32 [simp]: "n < 2 ^ 32 \<Longrightarrow> unat (as_u32 n) = n"
  by (simp add: as_u32_def unat_of_nat)

lemma as_u32_unat [simp]: "as_u32 (unat x) = x"
  by (simp add: as_u32_def)

lemma as_u32_eq: "m < 2 ^ 32 \<Longrightarrow> n < 2 ^ 32 \<Longrightarrow> as_u32 m = as_u32 n \<longleftrightarrow> m = n"
  by (metis unat_as_u32)

lemma as_u32_less: "m < 2 ^ 32 \<Longrightarrow> n < 2 ^ 32 \<Longrightarrow> as_u32 m < as_u32 n \<longleftrightarrow> m < n"
  by (simp add: word_less_nat_alt)

lemma as_u32_Suc: "as_u32 n + 1 = as_u32 (Suc n)"
  by (simp add: as_u32_def add.commute)

lemma unat_u32_Suc:
  assumes "i \<noteq> u32_max"
  shows "unat (i + 1) = Suc (unat i)"
proof -
  have "1 + i \<noteq> 0"
  proof
    assume "1 + i = 0"
    then have "i = - 1" by (simp add: eq_neg_iff_add_eq_0 add.commute)
    then show False using assms by (simp add: u32_max_def)
  qed
  then show ?thesis using unatSuc [of i] by (simp add: add.commute)
qed

lemma unat_eq_iff: "unat i = unat j \<longleftrightarrow> i = (j :: 'a::len word)"
  by (simp add: word_unat_eq_iff)

section \<open>Outcomes\<close>

text \<open>
  \<open>Err\<close> is a returned \<open>Result::Err\<close>; \<open>Panic\<close> is an \<open>unwrap\<close>/\<open>expect\<close> on nothing, a slice
  index out of range or an arithmetic overflow (the fuzz builds enable overflow checks);
  \<open>Undef\<close> is undefined behaviour of an \<open>unsafe\<close> block.
\<close>

datatype ('e, 'a) res = Ok 'a | Err 'e | Panic | Undef

fun rbind :: "('e, 'a) res \<Rightarrow> ('a \<Rightarrow> ('e, 'b) res) \<Rightarrow> ('e, 'b) res" where
  "rbind (Ok a) f = f a"
| "rbind (Err e) f = Err e"
| "rbind Panic f = Panic"
| "rbind Undef f = Undef"

definition ok_or :: "'a option \<Rightarrow> 'e \<Rightarrow> ('e, 'a) res" where
  "ok_or x e = (case x of None \<Rightarrow> Err e | Some a \<Rightarrow> Ok a)"

definition unwrap :: "'a option \<Rightarrow> ('e, 'a) res" where
  "unwrap x = (case x of None \<Rightarrow> Panic | Some a \<Rightarrow> Ok a)"

text \<open>\<open>Result::ok\<close> and \<open>unwrap_or_default\<close> on a result; a panic or undefined behaviour stays.\<close>

fun res_ok :: "('e, 'a) res \<Rightarrow> ('f, 'a option) res" where
  "res_ok (Ok a) = Ok (Some a)"
| "res_ok (Err e) = Ok None"
| "res_ok Panic = Panic"
| "res_ok Undef = Undef"

fun ok_default :: "'a \<Rightarrow> ('e, 'a) res \<Rightarrow> ('f, 'a) res" where
  "ok_default d (Ok a) = Ok a"
| "ok_default d (Err e) = Ok d"
| "ok_default d Panic = Panic"
| "ok_default d Undef = Undef"

text \<open>
  An operation with a mutable state: its outcome and the state it leaves. The state after an
  \<open>Err\<close> is the one the code leaves behind; after a panic or undefined behaviour it has no meaning.
\<close>

type_synonym ('s, 'e, 'a) op = "'s \<Rightarrow> ('e, 'a) res \<times> 's"

definition sbind :: "('s, 'e, 'a) op \<Rightarrow> ('a \<Rightarrow> ('s, 'e, 'b) op) \<Rightarrow> ('s, 'e, 'b) op" where
  "sbind m f s = (case m s of
      (Ok a, s') \<Rightarrow> f a s' | (Err e, s') \<Rightarrow> (Err e, s')
    | (Panic, s') \<Rightarrow> (Panic, s') | (Undef, s') \<Rightarrow> (Undef, s'))"

definition sret :: "'a \<Rightarrow> ('s, 'e, 'a) op" where
  "sret a s = (Ok a, s)"

definition slift :: "('e, 'a) res \<Rightarrow> ('s, 'e, 'a) op" where
  "slift r s = (r, s)"

lemma rbind_eq_Ok [res_simps]: "rbind m f = Ok b \<longleftrightarrow> (\<exists>a. m = Ok a \<and> f a = Ok b)"
  by (cases m) auto

lemma rbind_eq_Undef [res_simps]:
  "rbind m f = Undef \<longleftrightarrow> m = Undef \<or> (\<exists>a. m = Ok a \<and> f a = Undef)"
  by (cases m) auto

lemma rbind_eq_Panic [res_simps]:
  "rbind m f = Panic \<longleftrightarrow> m = Panic \<or> (\<exists>a. m = Ok a \<and> f a = Panic)"
  by (cases m) auto

lemma rbind_Ok_right [simp]: "rbind m Ok = m"
  by (cases m) auto

lemma rbind_assoc: "rbind (rbind m f) g = rbind m (\<lambda>a. rbind (f a) g)"
  by (cases m) auto

lemma ok_or_eq_Ok [res_simps]: "ok_or x e = Ok a \<longleftrightarrow> x = Some a"
  by (simp add: ok_or_def split: option.split)

lemma ok_or_simps [simp]: "ok_or None e = Err e" "ok_or (Some a) e = Ok a"
  by (simp_all add: ok_or_def)

lemma ok_or_no_fault [simp]: "ok_or x e \<noteq> Panic" "ok_or x e \<noteq> Undef"
  by (simp_all add: ok_or_def split: option.split)

lemma unwrap_simps [simp]: "unwrap None = Panic" "unwrap (Some a) = Ok a"
  by (simp_all add: unwrap_def)

lemma unwrap_eq_Ok [res_simps]: "unwrap x = Ok a \<longleftrightarrow> x = Some a"
  by (simp add: unwrap_def split: option.split)

lemma sbind_simps:
  "m s = (Ok a, s') \<Longrightarrow> sbind m f s = f a s'"
  "m s = (Err e, s') \<Longrightarrow> sbind m f s = (Err e, s')"
  "m s = (Panic, s') \<Longrightarrow> sbind m f s = (Panic, s')"
  "m s = (Undef, s') \<Longrightarrow> sbind m f s = (Undef, s')"
  by (simp_all add: sbind_def)

lemma sbind_eq_Ok [res_simps]:
  "sbind m f s = (Ok b, t) \<longleftrightarrow> (\<exists>a s'. m s = (Ok a, s') \<and> f a s' = (Ok b, t))"
  by (simp add: sbind_def split: prod.split res.split)

lemma sret_apply [simp]: "sret a s = (Ok a, s)"
  by (simp add: sret_def)

lemma slift_apply [simp]: "slift r s = (r, s)"
  by (simp add: slift_def)

section \<open>Slices\<close>

text \<open>\<open>buf[a..b]\<close>, \<open>buf[i]\<close>, and \<open>buf[off..off + n].copy_from_slice(bs)\<close> with \<open>n\<close> the length of \<open>bs\<close>.\<close>

definition slice :: "'a list \<Rightarrow> nat \<Rightarrow> nat \<Rightarrow> ('e, 'a list) res" where
  "slice buf a b = (if a \<le> b \<and> b \<le> length buf then Ok (take (b - a) (drop a buf)) else Panic)"

definition get_range :: "'a list \<Rightarrow> nat \<Rightarrow> nat \<Rightarrow> 'a list option" where
  "get_range buf a b = (if a \<le> b \<and> b \<le> length buf then Some (take (b - a) (drop a buf)) else None)"

definition nth_opt :: "'a list \<Rightarrow> nat \<Rightarrow> 'a option" where
  "nth_opt xs i = (if i < length xs then Some (xs ! i) else None)"

definition index_at :: "'a list \<Rightarrow> nat \<Rightarrow> ('e, 'a) res" where
  "index_at xs i = (if i < length xs then Ok (xs ! i) else Panic)"

definition write_at :: "'a list \<Rightarrow> nat \<Rightarrow> 'a list \<Rightarrow> ('e, 'a list) res" where
  "write_at buf off bs = (if off + length bs \<le> length buf
     then Ok (take off buf @ bs @ drop (off + length bs) buf) else Panic)"

lemma nth_opt_Some [simp]: "nth_opt xs i = Some x \<longleftrightarrow> i < length xs \<and> x = xs ! i"
  by (auto simp: nth_opt_def)

lemma nth_opt_None [simp]: "nth_opt xs i = None \<longleftrightarrow> length xs \<le> i"
  by (auto simp: nth_opt_def)

lemma slice_no_undef [simp]: "slice buf a b \<noteq> Undef" "slice buf a b \<noteq> Err e"
  by (simp_all add: slice_def)

lemma slice_at:
  assumes "drop pos buf = xs @ post" and "pos \<le> length buf"
  shows "slice buf pos (pos + length xs) = Ok xs"
proof -
  have "length buf - pos = length xs + length post"
    using assms(1) by (metis length_append length_drop)
  then show ?thesis using assms by (simp add: slice_def)
qed

lemma drop_advance: "drop pos buf = xs @ post \<Longrightarrow> drop (pos + length xs) buf = post"
  by (metis add.commute append_eq_conv_conj drop_drop)

lemma drop_prefix_le:
  "drop pos buf = xs @ post \<Longrightarrow> xs \<noteq> [] \<Longrightarrow> pos + length xs \<le> length buf"
  by (metis add_leD1 append_is_Nil_conv drop_all length_append length_drop le_add1
      le_diff_conv2 linorder_le_cases add.commute)

lemma drop_some_less: "drop pos buf = x # post \<Longrightarrow> pos < length buf"
  by (metis drop_all linorder_not_less list.distinct(1))

lemma drop_hd_nth: "drop pos buf = x # post \<Longrightarrow> buf ! pos = x"
  by (metis drop_some_less hd_drop_conv_nth list.sel(1))

lemma drop_nth3:
  assumes "drop pos buf = x # y # z # post"
  shows "buf ! pos = x" and "buf ! Suc pos = y" and "buf ! Suc (Suc pos) = z"
  using assms nth_drop [of pos buf 0] nth_drop [of pos buf 1] nth_drop [of pos buf 2]
    drop_some_less [OF assms] by (simp_all add: numeral_2_eq_2)

lemma write_at_Ok:
  "off + length bs \<le> length buf \<Longrightarrow>
   write_at buf off bs = Ok (take off buf @ bs @ drop (off + length bs) buf)"
  by (simp add: write_at_def)

lemma write_at_length: "write_at buf off bs = Ok buf' \<Longrightarrow> length buf' = length buf"
  by (auto simp: write_at_def split: if_splits)

lemma write_at_get_same:
  "write_at buf off bs = Ok buf' \<Longrightarrow> take (length bs) (drop off buf') = bs"
  by (auto simp: write_at_def split: if_splits)

lemma write_at_get_before:
  assumes "write_at buf off bs = Ok buf'" and "a + n \<le> off"
  shows "take n (drop a buf') = take n (drop a buf)"
  using assms by (auto simp: write_at_def drop_take min_def split: if_splits)

lemma write_at_get_after:
  assumes w: "write_at buf off bs = Ok buf'" and a: "off + length bs \<le> a"
  shows "drop a buf' = drop a buf"
proof -
  from w have le: "off + length bs \<le> length buf"
    and b: "buf' = take off buf @ bs @ drop (off + length bs) buf"
    by (auto simp: write_at_def split: if_splits)
  have "drop a buf' = drop (a - (off + length bs)) (drop (off + length bs) buf)"
    using a le by (simp add: b)
  then show ?thesis using a by simp
qed

section \<open>Little-endian integers\<close>

fun le_bytes :: "nat \<Rightarrow> nat \<Rightarrow> u8 list" where
  "le_bytes 0 n = []"
| "le_bytes (Suc k) n = word_of_nat n # le_bytes k (n div 256)"

fun le_nat :: "u8 list \<Rightarrow> nat" where
  "le_nat [] = 0"
| "le_nat (b # bs) = unat b + 256 * le_nat bs"

definition u32_le :: "u32 \<Rightarrow> u8 list" where
  "u32_le x = le_bytes 4 (unat x)"

definition u64_le :: "u64 \<Rightarrow> u8 list" where
  "u64_le x = le_bytes 8 (unat x)"

definition u32_of_le :: "u8 list \<Rightarrow> u32" where
  "u32_of_le bs = word_of_nat (le_nat bs)"

definition u64_of_le :: "u8 list \<Rightarrow> u64" where
  "u64_of_le bs = word_of_nat (le_nat bs)"

text \<open>A \<open>usize\<close> written as a \<open>u32\<close>: \<open>(n as u32).to_le_bytes()\<close>.\<close>

definition len_le :: "nat \<Rightarrow> u8 list" where
  "len_le n = u32_le (as_u32 n)"

definition read_u32 :: "u8 list \<Rightarrow> nat \<Rightarrow> ('e, u32) res" where
  "read_u32 buf pos = rbind (slice buf pos (pos + 4)) (\<lambda>b. Ok (u32_of_le b))"

definition read_u64 :: "u8 list \<Rightarrow> nat \<Rightarrow> ('e, u64) res" where
  "read_u64 buf pos = rbind (slice buf pos (pos + 8)) (\<lambda>b. Ok (u64_of_le b))"

lemma unat_bounds: "unat (x :: u8) < 256" "unat (y :: u32) < 4294967296"
    "unat (z :: u64) < 18446744073709551616"
  using unsigned_less [of x, where 'a = nat] unsigned_less [of y, where 'a = nat]
    unsigned_less [of z, where 'a = nat] by simp_all

lemma le_bytes_length [simp, len_simps]: "length (le_bytes k n) = k"
  by (induction k arbitrary: n) auto

lemma le_nat_le_bytes: "le_nat (le_bytes k n) = n mod 256 ^ k"
proof (induction k arbitrary: n)
  case (Suc k)
  have "le_nat (le_bytes (Suc k) n) = n mod 256 + 256 * (n div 256 mod 256 ^ k)"
    using Suc.IH by (simp add: unat_of_nat)
  also have "\<dots> = n mod (256 * 256 ^ k)"
    by (simp add: mod_mult2_eq)
  finally show ?case by simp
qed simp

lemma le_nat_less: "le_nat bs < 256 ^ length bs"
proof (induction bs)
  case (Cons b bs)
  have "unat b < 256" by (rule unat_bounds)
  moreover have "le_nat bs + 1 \<le> 256 ^ length bs" using Cons.IH by simp
  ultimately show ?case by (simp add: algebra_simps)
qed simp

lemma le_bytes_le_nat: "le_bytes (length bs) (le_nat bs) = bs"
proof (induction bs)
  case (Cons b bs)
  have lt: "unat b < 256" by (rule unat_bounds)
  have "unat (word_of_nat (unat b + 256 * le_nat bs) :: u8) = unat b"
    using lt by (simp only: unat_of_nat) simp
  then have "word_of_nat (unat b + 256 * le_nat bs) = b" by (simp only: word_unat_eq_iff)
  moreover have "(unat b + 256 * le_nat bs) div 256 = le_nat bs" using lt by simp
  ultimately show ?case using Cons.IH by simp
qed simp

lemma u32_le_length [simp, len_simps]: "length (u32_le x) = 4"
  by (simp add: u32_le_def)

lemma u64_le_length [simp, len_simps]: "length (u64_le x) = 8"
  by (simp add: u64_le_def)

lemma len_le_length [simp, len_simps]: "length (len_le n) = 4"
  by (simp add: len_le_def)

lemma u32_of_le_le [simp, codec_simps]: "u32_of_le (u32_le x) = x"
  using unat_bounds(2) [of x] by (simp add: u32_of_le_def u32_le_def le_nat_le_bytes)

lemma u64_of_le_le [simp, codec_simps]: "u64_of_le (u64_le x) = x"
  using unat_bounds(3) [of x] by (simp add: u64_of_le_def u64_le_def le_nat_le_bytes)

lemma u32_le_of_le: "length bs = 4 \<Longrightarrow> u32_le (u32_of_le bs) = bs"
  using le_nat_less [of bs] le_bytes_le_nat [of bs]
  by (simp add: u32_of_le_def u32_le_def unat_of_nat)

lemma u64_le_of_le: "length bs = 8 \<Longrightarrow> u64_le (u64_of_le bs) = bs"
  using le_nat_less [of bs] le_bytes_le_nat [of bs]
  by (simp add: u64_of_le_def u64_le_def unat_of_nat)

lemma u32_of_le_len [simp]: "n < 2 ^ 32 \<Longrightarrow> unat (u32_of_le (len_le n)) = n"
  by (simp add: len_le_def)

lemma le_ne [simp]: "u32_le x \<noteq> []" "u64_le y \<noteq> []" "len_le n \<noteq> []"
  by (metis u32_le_length u64_le_length len_le_length list.size(3) zero_neq_numeral)+

text \<open>Reading at a position whose remaining bytes are known.\<close>

lemma slice_view:
  assumes "drop pos buf = xs @ post" and "length xs = n" and "xs \<noteq> []"
  shows "slice buf pos (pos + n) = Ok xs"
  using slice_at [OF assms(1)] drop_prefix_le [OF assms(1,3)] assms(2) by auto

lemma read_u32_view [codec_simps]: "drop pos buf = u32_le x @ post \<Longrightarrow> read_u32 buf pos = Ok x"
  by (simp add: read_u32_def slice_view)

lemma read_u64_view [codec_simps]: "drop pos buf = u64_le x @ post \<Longrightarrow> read_u64 buf pos = Ok x"
  by (simp add: read_u64_def slice_view)

lemma read_len_view [codec_simps]:
  "drop pos buf = len_le n @ post \<Longrightarrow> read_u32 buf pos = Ok (as_u32 n)"
  by (simp add: len_le_def read_u32_view)

lemma read_u32_eq: "pos + 4 \<le> length buf \<Longrightarrow>
    read_u32 buf pos = Ok (u32_of_le (take 4 (drop pos buf)))"
  by (simp add: read_u32_def slice_def)

lemma read_u64_eq: "pos + 8 \<le> length buf \<Longrightarrow>
    read_u64 buf pos = Ok (u64_of_le (take 8 (drop pos buf)))"
  by (simp add: read_u64_def slice_def)

lemma read_no_undef [simp]:
  "read_u32 buf pos \<noteq> Undef" "read_u64 buf pos \<noteq> Undef"
  "read_u32 buf pos \<noteq> Err e" "read_u64 buf pos \<noteq> Err e"
  by (simp_all add: read_u32_def read_u64_def slice_def)

lemma read_panic_iff [simp]:
  "read_u32 buf pos = Panic \<longleftrightarrow> length buf < pos + 4"
  "read_u64 buf pos = Panic \<longleftrightarrow> length buf < pos + 8"
  by (auto simp: read_u32_def read_u64_def slice_def)

end
