(* ===== verification/Errors.thy ===== *)
theory Errors
  imports Prelude
begin

text \<open>
  The error type of the engine (\<open>src/src/error.rs\<close>): one constructor per variant, the payloads
  kept. Messages are the byte strings the code formats, so \<open>{n}\<close> of an unsigned number is its
  decimal rendering.
\<close>

datatype decode_error =
    Truncated
  | BadMagic
  | UnsupportedVersion u32
  | BadChecksum u32
  | UnknownPageType u8
  | BadDirectory
  | BadSchema
  | BadEncoding
  | Oversized

datatype verify_error =
    PageCountMismatch
  | SchemaDataMismatch
  | DictRange u32
  | IndexCoverage u32
  | FsmTotal
  | ZoneMapLiveness u32
  | RowIdBounds u64
  | OrphanPage u32
  | VerifyOther rstr

datatype script_error =
    LexError rstr
  | ParseError rstr
  | UnknownStatement rstr
  | Arity rstr nat
  | BadValue rstr
  | EndOfInput

datatype error =
    Decode decode_error
  | Verify verify_error
  | Script script_error
  | NotFound rstr
  | TypeMismatch rstr rstr
  | Internal rstr

type_synonym 'a result = "(error, 'a) res"

text \<open>Decimal rendering of an unsigned number, as \<open>{}\<close> of \<open>format!\<close> prints it.\<close>

fun show_nat :: "nat \<Rightarrow> rstr" where
  "show_nat n = (if n < 10 then [word_of_nat (48 + n)]
     else show_nat (n div 10) @ [word_of_nat (48 + n mod 10)])"

declare show_nat.simps [simp del]

lemma show_nat_ne [simp]: "show_nat n \<noteq> []"
  by (subst show_nat.simps) simp

end
