(* ===== verification/Utf8.thy ===== *)
theory Utf8
  imports Prelude
begin

text \<open>
  Well-formed UTF-8 as \<open>std::str::from_utf8\<close> accepts it: no overlong forms, no surrogates,
  nothing above \<open>U+10FFFF\<close>.
\<close>

definition utf8_cont :: "u8 \<Rightarrow> bool" where
  "utf8_cont b \<longleftrightarrow> 128 \<le> b \<and> b \<le> 191"

fun utf8_valid :: "u8 list \<Rightarrow> bool" where
  "utf8_valid [] = True"
| "utf8_valid (b # bs) =
     (if b < 128 then utf8_valid bs
      else if 194 \<le> b \<and> b \<le> 223 then
        (case bs of c # r \<Rightarrow> utf8_cont c \<and> utf8_valid r | _ \<Rightarrow> False)
      else if 224 \<le> b \<and> b \<le> 239 then
        (case bs of c # d # r \<Rightarrow>
            (if b = 224 then 160 \<le> c \<and> c \<le> 191
             else if b = 237 then 128 \<le> c \<and> c \<le> 159 else utf8_cont c) \<and>
            utf8_cont d \<and> utf8_valid r
          | _ \<Rightarrow> False)
      else if 240 \<le> b \<and> b \<le> 244 then
        (case bs of c # d # e # r \<Rightarrow>
            (if b = 240 then 144 \<le> c \<and> c \<le> 191
             else if b = 244 then 128 \<le> c \<and> c \<le> 143 else utf8_cont c) \<and>
            utf8_cont d \<and> utf8_cont e \<and> utf8_valid r
          | _ \<Rightarrow> False)
      else False)"

text \<open>ASCII text is well-formed.\<close>

lemma utf8_valid_ascii: "\<forall>b \<in> set bs. b < 128 \<Longrightarrow> utf8_valid bs"
  by (induction bs) auto

end
