(* ===== verification/Lexers.thy ===== *)
theory Lexers
  imports Errors Utf8
begin

text \<open>
  Splitting and tokenising a script (\<open>src/src/script.rs\<close>): \<open>split(';')\<close>, \<open>trim\<close> and \<open>lex\<close>, on the UTF-8
  bytes of the source. Every token is cut out next to an ASCII byte, so the conversions of the code
  from bytes back to text cannot fail on a script that is valid UTF-8.
\<close>

section \<open>Pieces\<close>

text \<open>\<open>src.split(';')\<close>\<close>

fun split_semi :: "u8 list \<Rightarrow> u8 list list" where
  "split_semi [] = [[]]"
| "split_semi (b # bs) = (if b = 59 then [] # split_semi bs
     else (case split_semi bs of [] \<Rightarrow> [[b]] | p # ps \<Rightarrow> (b # p) # ps))"

text \<open>The length of the white-space character (Unicode \<open>White_Space\<close>) a text starts with, or 0.\<close>

definition ws3 :: "u8 \<Rightarrow> u8 \<Rightarrow> u8 \<Rightarrow> bool" where
  "ws3 a b c \<longleftrightarrow> a = 0xE1 \<and> b = 0x9A \<and> c = 0x80 \<or>
     a = 0xE2 \<and> b = 0x80 \<and> (0x80 \<le> c \<and> c \<le> 0x8A \<or> c = 0xA8 \<or> c = 0xA9 \<or> c = 0xAF) \<or>
     a = 0xE2 \<and> b = 0x81 \<and> c = 0x9F \<or> a = 0xE3 \<and> b = 0x80 \<and> c = 0x80"

definition ws1 :: "u8 \<Rightarrow> bool" where
  "ws1 b \<longleftrightarrow> 9 \<le> b \<and> b \<le> 13 \<or> b = 32"

definition ws2 :: "u8 \<Rightarrow> u8 \<Rightarrow> bool" where
  "ws2 a b \<longleftrightarrow> a = 0xC2 \<and> (b = 0x85 \<or> b = 0xA0)"

fun ws_len :: "u8 list \<Rightarrow> nat" where
  "ws_len (a # b # c # _) = (if ws1 a then 1 else if ws2 a b then 2 else if ws3 a b c then 3 else 0)"
| "ws_len [a, b] = (if ws1 a then 1 else if ws2 a b then 2 else 0)"
| "ws_len [a] = (if ws1 a then 1 else 0)"
| "ws_len [] = 0"

text \<open>The same at the end, on the reversed bytes.\<close>

fun ws_len_rev :: "u8 list \<Rightarrow> nat" where
  "ws_len_rev (c # b # a # _) = (if ws1 c then 1 else if ws2 b c then 2 else if ws3 a b c then 3 else 0)"
| "ws_len_rev [b, a] = (if ws1 b then 1 else if ws2 a b then 2 else 0)"
| "ws_len_rev [a] = (if ws1 a then 1 else 0)"
| "ws_len_rev [] = 0"

lemma ws_len_le: "ws_len bs \<le> length bs" "ws_len_rev bs \<le> length bs"
  by (cases bs rule: ws_len.cases, auto, cases bs rule: ws_len_rev.cases, auto)

function trim_by :: "(u8 list \<Rightarrow> nat) \<Rightarrow> u8 list \<Rightarrow> u8 list" where
  "trim_by f bs = (if f bs = 0 \<or> bs = [] then bs else trim_by f (drop (f bs) bs))"
  by pat_completeness auto
termination by (relation "measure (\<lambda>(_, bs). length bs)") auto

declare trim_by.simps [simp del]

definition trim :: "u8 list \<Rightarrow> u8 list" where
  "trim bs = rev (trim_by ws_len_rev (rev (trim_by ws_len bs)))"

section \<open>Tokens\<close>

text \<open>\<open>u8::is_ascii_whitespace\<close>, which leaves out the vertical tab.\<close>

definition ascii_ws :: "u8 \<Rightarrow> bool" where
  "ascii_ws b \<longleftrightarrow> b = 32 \<or> b = 9 \<or> b = 10 \<or> b = 12 \<or> b = 13"

definition op_byte :: "u8 \<Rightarrow> bool" where
  "op_byte b \<longleftrightarrow> b = 61 \<or> b = 60 \<or> b = 62"

definition word_byte :: "u8 \<Rightarrow> bool" where
  "word_byte b \<longleftrightarrow> \<not> (ascii_ws b \<or> b = 59 \<or> b = 34 \<or> op_byte b)"

definition two_op :: "u8 list \<Rightarrow> bool" where
  "two_op t \<longleftrightarrow> t = str ''=='' \<or> t = str ''!='' \<or> t = str ''<='' \<or> t = str ''>='' \<or> t = str ''<>''"

text \<open>
  The loop of \<open>lex\<close> over what is left of the input. A string literal runs to the next quote or to the
  end; the token keeps its quotes. A single \<open>!\<close> is part of a word.
\<close>

definition non_utf8 :: error where
  "non_utf8 = Script (LexError (str ''non-utf8 token''))"

function lex_tokens :: "u8 list \<Rightarrow> rstr list result" where
  "lex_tokens [] = Ok []"
| "lex_tokens (b # bs) =
     (if ascii_ws b \<or> b = 59 then lex_tokens bs
      else if b = 34 then
        (let body = takeWhile (\<lambda>c. c \<noteq> 34) bs; rest = dropWhile (\<lambda>c. c \<noteq> 34) bs;
             t = b # body @ take 1 rest in
         rbind (lex_tokens (drop 1 rest)) (\<lambda>ts. Ok ((if utf8_valid t then t else []) # ts)))
      else if bs \<noteq> [] \<and> two_op [b, hd bs] then rbind (lex_tokens (tl bs)) (\<lambda>ts. Ok ([b, hd bs] # ts))
      else if op_byte b then rbind (lex_tokens bs) (\<lambda>ts. Ok ([b] # ts))
      else (let t = b # takeWhile word_byte bs in
        if \<not> utf8_valid t then Err non_utf8
        else rbind (lex_tokens (dropWhile word_byte bs)) (\<lambda>ts. Ok (t # ts))))"
  by pat_completeness auto

termination
proof (relation "measure length")
  fix b :: u8 and bs body rest t :: "u8 list"
  assume "rest = dropWhile (\<lambda>c. c \<noteq> 34) bs"
  then show "(drop 1 rest, b # bs) \<in> measure length"
    using length_dropWhile_le [of "\<lambda>c. c \<noteq> 34" bs] by simp
next
  fix b :: u8 and bs t :: "u8 list"
  show "(dropWhile word_byte bs, b # bs) \<in> measure length"
    using length_dropWhile_le [of word_byte bs] by simp
qed auto

section \<open>Facts\<close>

lemma split_semi_ne [simp]: "split_semi bs \<noteq> []"
  by (induction bs) (auto split: list.split)

text \<open>Every piece is free of separators, and joining the pieces gives the script back.\<close>

lemma split_semi_pieces: "p \<in> set (split_semi bs) \<Longrightarrow> 59 \<notin> set p"
proof (induction bs arbitrary: p)
  case (Cons b bs)
  then show ?case by (cases "split_semi bs") (auto split: if_splits)
qed simp

fun join_semi :: "u8 list list \<Rightarrow> u8 list" where
  "join_semi [] = []"
| "join_semi [p] = p"
| "join_semi (p # q # ps) = p @ 59 # join_semi (q # ps)"

lemma join_split: "join_semi (split_semi bs) = bs"
proof (induction bs)
  case (Cons b bs)
  obtain p ps where s: "split_semi bs = p # ps" by (cases "split_semi bs") auto
  have "join_semi ((b # p) # ps) = b # join_semi (p # ps)" by (cases ps) simp_all
  moreover have "join_semi ([] # p # ps) = 59 # join_semi (p # ps)" by simp
  ultimately show ?case using Cons s by simp
qed simp

text \<open>Text splits in front of every byte that is not a continuation byte.\<close>

lemma low_head: "ys = [] \<or> \<not> utf8_cont (hd ys) \<Longrightarrow> ys = c # r \<Longrightarrow> \<not> utf8_cont c"
  by auto

lemma cont_ranges:
  "160 \<le> c \<and> c \<le> 191 \<Longrightarrow> utf8_cont c" "128 \<le> c \<and> c \<le> 159 \<Longrightarrow> utf8_cont c"
  "144 \<le> c \<and> c \<le> 191 \<Longrightarrow> utf8_cont c" "128 \<le> c \<and> c \<le> 143 \<Longrightarrow> utf8_cont c"
  by (auto simp: utf8_cont_def word_le_nat_alt)

lemma utf8_split:
  assumes "utf8_valid (xs @ ys)" and ys: "ys = [] \<or> \<not> utf8_cont (hd ys)"
  shows "utf8_valid xs \<and> utf8_valid ys"
  using assms(1)
proof (induction "length xs" arbitrary: xs rule: less_induct)
  case less
  show ?case
  proof (cases xs)
    case Nil
    then show ?thesis using less.prems by simp
  next
    case (Cons b bs)
    have IH: "utf8_valid (zs @ ys) \<Longrightarrow> length zs \<le> length bs \<Longrightarrow> utf8_valid zs \<and> utf8_valid ys" for zs
      using less.hyps [of zs] Cons by simp
    have v: "utf8_valid (b # bs @ ys)" using less.prems Cons by simp
    consider "b < 128" | "\<not> b < 128" "194 \<le> b \<and> b \<le> 223" | "\<not> b < 128" "\<not> (194 \<le> b \<and> b \<le> 223)" "224 \<le> b \<and> b \<le> 239"
      | "\<not> b < 128" "\<not> (194 \<le> b \<and> b \<le> 223)" "\<not> (224 \<le> b \<and> b \<le> 239)" "240 \<le> b \<and> b \<le> 244"
      using v by (auto split: if_splits)
    then show ?thesis
    proof cases
      case 1
      then show ?thesis using v IH [of bs] Cons by simp
    next
      case 2
      then obtain c r where c: "bs @ ys = c # r" "utf8_cont c" "utf8_valid r"
        using v by (cases "bs @ ys") simp_all
      then obtain zs where "bs = c # zs" "zs @ ys = r"
        using low_head [OF ys] by (cases bs) auto
      then show ?thesis using c 2 IH [of zs] Cons by simp
    next
      case 3
      then obtain c d r where c: "bs @ ys = c # d # r" "utf8_cont d" "utf8_valid r" "utf8_cont c"
        "if b = 224 then 160 \<le> c \<and> c \<le> 191 else if b = 237 then 128 \<le> c \<and> c \<le> 159 else utf8_cont c"
        using v cont_ranges by (cases "bs @ ys" rule: remdups_adj.cases) (auto split: if_splits)
      then obtain zs where "bs = c # d # zs" "zs @ ys = r"
        using low_head [OF ys] by (cases bs rule: remdups_adj.cases) auto
      moreover have "utf8_valid (b # c # d # zs) \<longleftrightarrow> (if b = 224 then 160 \<le> c \<and> c \<le> 191
          else if b = 237 then 128 \<le> c \<and> c \<le> 159 else utf8_cont c) \<and> utf8_cont d \<and> utf8_valid zs" for zs
        by (simp only: utf8_valid.simps(2) [of b] 3 if_False if_True simp_thms list.case)
      ultimately show ?thesis using c IH [of zs] Cons by simp
    next
      case 4
      then obtain c d e r where c: "bs @ ys = c # d # e # r" "utf8_cont d" "utf8_cont e" "utf8_valid r" "utf8_cont c"
        "if b = 240 then 144 \<le> c \<and> c \<le> 191 else if b = 244 then 128 \<le> c \<and> c \<le> 143 else utf8_cont c"
        using v cont_ranges by (cases "bs @ ys" rule: ws_len.cases) (auto split: if_splits)
      then obtain zs where "bs = c # d # e # zs" "zs @ ys = r"
        using low_head [OF ys] by (cases bs rule: ws_len.cases) auto
      moreover have "utf8_valid (b # c # d # e # zs) \<longleftrightarrow> (if b = 240 then 144 \<le> c \<and> c \<le> 191
          else if b = 244 then 128 \<le> c \<and> c \<le> 143 else utf8_cont c) \<and> utf8_cont d \<and> utf8_cont e \<and> utf8_valid zs" for zs
        by (simp only: utf8_valid.simps(2) [of b] 4 if_False if_True simp_thms list.case)
      ultimately show ?thesis using c IH [of zs] Cons by simp
    qed
  qed
qed

lemma utf8_append: "utf8_valid xs \<Longrightarrow> utf8_valid ys \<Longrightarrow> utf8_valid (xs @ ys)"
proof (induction "length xs" arbitrary: xs rule: less_induct)
  case less
  show ?case
  proof (cases xs)
    case Nil
    then show ?thesis using less.prems by simp
  next
    case (Cons b bs)
    have IH: "utf8_valid zs \<Longrightarrow> length zs \<le> length bs \<Longrightarrow> utf8_valid (zs @ ys)" for zs
      using less.hyps [of zs] less.prems(2) Cons by simp
    have v: "utf8_valid (b # bs)" using less.prems(1) Cons by simp
    consider "b < 128" | "\<not> b < 128" "194 \<le> b \<and> b \<le> 223" | "\<not> b < 128" "\<not> (194 \<le> b \<and> b \<le> 223)" "224 \<le> b \<and> b \<le> 239"
      | "\<not> b < 128" "\<not> (194 \<le> b \<and> b \<le> 223)" "\<not> (224 \<le> b \<and> b \<le> 239)" "240 \<le> b \<and> b \<le> 244"
      using v by (simp only: utf8_valid.simps(2) split: if_splits) blast+
    then show ?thesis
    proof cases
      case 1
      then show ?thesis using v IH [of bs] Cons by simp
    next
      case 2
      then obtain c r where "bs = c # r" using v by (cases bs) simp_all
      then show ?thesis using v 2 IH [of r] Cons by simp
    next
      case 3
      then obtain c d r where "bs = c # d # r"
        using v by (cases bs rule: remdups_adj.cases) (simp_all only: utf8_valid.simps(2) if_False if_True simp_thms list.case)
      then show ?thesis using v 3 IH [of r] Cons by (simp only: utf8_valid.simps(2) [of b] append_Cons if_False if_True simp_thms list.case) simp
    next
      case 4
      then obtain c d e r where "bs = c # d # e # r"
        using v by (cases bs rule: ws_len.cases) (simp_all only: utf8_valid.simps(2) if_False if_True simp_thms list.case)
      then show ?thesis using v 4 IH [of r] Cons by (simp only: utf8_valid.simps(2) [of b] append_Cons if_False if_True simp_thms list.case) simp
    qed
  qed
qed

lemma low_not_cont: "b < 128 \<Longrightarrow> \<not> utf8_cont b"
  by (auto simp: utf8_cont_def)

text \<open>Pieces and trimmed pieces of a valid text are valid.\<close>

lemma split_semi_utf8: "utf8_valid bs \<Longrightarrow> p \<in> set (split_semi bs) \<Longrightarrow> utf8_valid p"
proof (induction "length bs" arbitrary: bs p rule: less_induct)
  case less
  let ?q = "takeWhile (\<lambda>c. c \<noteq> 59) bs" and ?r = "dropWhile (\<lambda>c. c \<noteq> 59) bs"
  have sp: "split_semi bs = (case dropWhile (\<lambda>c. c \<noteq> 59) bs of [] \<Rightarrow> [bs] | _ # r \<Rightarrow> takeWhile (\<lambda>c. c \<noteq> 59) bs # split_semi r)" for bs
    by (induction bs) (auto split: list.splits simp del: dropWhile_eq_Nil_conv)
  show ?case
  proof (cases ?r)
    case Nil
    then show ?thesis using less.prems sp [of bs] by (simp del: dropWhile_eq_Nil_conv)
  next
    case (Cons c r)
    then have c: "c = 59" using hd_dropWhile [of "\<lambda>c. c \<noteq> 59" bs] by simp
    have bs: "bs = ?q @ 59 # r" using takeWhile_dropWhile_id [of "\<lambda>c. c \<noteq> 59" bs] Cons c by simp
    have "utf8_valid ?q \<and> utf8_valid (59 # r)"
      using less.prems(1) bs by (intro utf8_split) (simp_all add: utf8_cont_def)
    moreover have "length r < length bs" using arg_cong [OF bs, of length] by simp
    ultimately show ?thesis using less.prems(2) less.hyps [of r p] sp [of bs] Cons by auto
  qed
qed

lemma ws1_ascii: "ws1 b \<Longrightarrow> b < 128"
  by (auto simp: ws1_def word_le_nat_alt word_less_nat_alt)

lemma ws_utf8:
  "utf8_valid (a # bs) \<Longrightarrow> ws1 a \<Longrightarrow> utf8_valid bs"
  "utf8_valid (a # b # bs) \<Longrightarrow> ws2 a b \<Longrightarrow> utf8_valid bs"
  "utf8_valid (a # b # c # bs) \<Longrightarrow> ws3 a b c \<Longrightarrow> utf8_valid bs"
proof -
  show "utf8_valid (a # bs) \<Longrightarrow> ws1 a \<Longrightarrow> utf8_valid bs" using ws1_ascii [of a] by simp
  show "utf8_valid (a # b # bs) \<Longrightarrow> ws2 a b \<Longrightarrow> utf8_valid bs" by (auto simp: ws2_def)
  show "utf8_valid (a # b # c # bs) \<Longrightarrow> ws3 a b c \<Longrightarrow> utf8_valid bs"
    unfolding ws3_def by (elim disjE conjE) simp_all
qed

lemma ws_len_utf8: "utf8_valid bs \<Longrightarrow> utf8_valid (drop (ws_len bs) bs)"
  by (cases bs rule: ws_len.cases) (auto simp: numeral_eq_Suc simp del: utf8_valid.simps dest: ws_utf8)

lemma ws_lead: "ws1 a \<Longrightarrow> \<not> utf8_cont a" "ws2 a b \<Longrightarrow> \<not> utf8_cont a" "ws3 a b c \<Longrightarrow> \<not> utf8_cont a"
  using ws1_ascii [of a] low_not_cont [of a] by (auto simp: ws2_def ws3_def utf8_cont_def)

lemma ws_len_rev_utf8:
  assumes "utf8_valid (rev r)"
  shows "utf8_valid (rev (drop (ws_len_rev r) r))"
proof -
  have e: "rev r = rev (drop (ws_len_rev r) r) @ rev (take (ws_len_rev r) r)"
    by (metis append_take_drop_id rev_append)
  have "rev (take (ws_len_rev r) r) = [] \<or> \<not> utf8_cont (hd (rev (take (ws_len_rev r) r)))"
    by (cases r rule: ws_len_rev.cases) (auto simp: numeral_eq_Suc dest: ws_lead)
  from utf8_split [OF _ this] show ?thesis using assms e by metis
qed

lemma trim_by_keeps:
  assumes "\<And>bs. P bs \<Longrightarrow> P (drop (f bs) bs)" and "P bs"
  shows "P (trim_by f bs)"
  using assms(2)
proof (induction "length bs" arbitrary: bs rule: less_induct)
  case less
  show ?case
  proof (cases "f bs = 0 \<or> bs = []")
    case False
    then have "length (drop (f bs) bs) < length bs" by auto
    then have "P (trim_by f (drop (f bs) bs))" using less.hyps assms(1) [OF less.prems] by blast
    then show ?thesis using False by (subst trim_by.simps) simp
  qed (use less.prems in \<open>subst trim_by.simps, simp\<close>)
qed

lemma trim_utf8: "utf8_valid bs \<Longrightarrow> utf8_valid (trim bs)"
  unfolding trim_def
  using trim_by_keeps [of utf8_valid ws_len bs] ws_len_utf8
    trim_by_keeps [of "\<lambda>r. utf8_valid (rev r)" ws_len_rev "rev (trim_by ws_len bs)"] ws_len_rev_utf8
  by simp

text \<open>Lexing a valid text never fails, and the tokens are the text without the skipped bytes.\<close>

definition lex_skipped :: "u8 \<Rightarrow> bool" where
  "lex_skipped b \<longleftrightarrow> ascii_ws b \<or> b = 59"

inductive lexed :: "u8 list \<Rightarrow> rstr list \<Rightarrow> bool" where
  lexed_nil: "lexed [] []"
| lexed_skip: "lex_skipped b \<Longrightarrow> lexed bs ts \<Longrightarrow> lexed (b # bs) ts"
| lexed_tok: "t \<noteq> [] \<Longrightarrow> utf8_valid t \<Longrightarrow> lexed bs ts \<Longrightarrow> lexed (t @ bs) (t # ts)"

inductive_simps lexed_Nil [simp]: "lexed [] ts"

lemma lexed_tokens: "lexed bs ts \<Longrightarrow> \<forall>t \<in> set ts. t \<noteq> [] \<and> utf8_valid t"
  by (induction rule: lexed.induct) auto

lemma ascii_bytes: "ascii_ws b \<Longrightarrow> b < 128" "op_byte b \<Longrightarrow> b < 128"
  by (auto simp: ascii_ws_def op_byte_def)

text \<open>What one round of the loop does, by the first byte.\<close>

lemma lex_round:
  "ascii_ws b \<or> b = 59 \<Longrightarrow> lex_tokens (b # bs) = lex_tokens bs"
  "\<not> (ascii_ws b \<or> b = 59) \<Longrightarrow> b = 34 \<Longrightarrow> t = b # takeWhile (\<lambda>c. c \<noteq> 34) bs @ take 1 (dropWhile (\<lambda>c. c \<noteq> 34) bs) \<Longrightarrow>
     utf8_valid t \<Longrightarrow> lex_tokens (b # bs) =
       rbind (lex_tokens (drop 1 (dropWhile (\<lambda>c. c \<noteq> 34) bs))) (\<lambda>ts. Ok (t # ts))"
  "\<not> (ascii_ws b \<or> b = 59) \<Longrightarrow> b \<noteq> 34 \<Longrightarrow> bs \<noteq> [] \<and> two_op [b, hd bs] \<Longrightarrow>
     lex_tokens (b # bs) = rbind (lex_tokens (tl bs)) (\<lambda>ts. Ok ([b, hd bs] # ts))"
  "\<not> (ascii_ws b \<or> b = 59) \<Longrightarrow> b \<noteq> 34 \<Longrightarrow> \<not> (bs \<noteq> [] \<and> two_op [b, hd bs]) \<Longrightarrow> op_byte b \<Longrightarrow>
     lex_tokens (b # bs) = rbind (lex_tokens bs) (\<lambda>ts. Ok ([b] # ts))"
  "\<not> (ascii_ws b \<or> b = 59) \<Longrightarrow> b \<noteq> 34 \<Longrightarrow> \<not> (bs \<noteq> [] \<and> two_op [b, hd bs]) \<Longrightarrow> \<not> op_byte b \<Longrightarrow>
     utf8_valid (b # takeWhile word_byte bs) \<Longrightarrow> lex_tokens (b # bs) =
       rbind (lex_tokens (dropWhile word_byte bs)) (\<lambda>ts. Ok ((b # takeWhile word_byte bs) # ts))"
  by (simp_all only: lex_tokens.simps(2) Let_def if_True if_False simp_thms)

declare lex_tokens.simps(2) [simp del]

lemma lexed_cons_tok:
  assumes "\<exists>ts. lex_tokens r = Ok ts \<and> lexed r ts"
    and "lex_tokens bs = rbind (lex_tokens r) (\<lambda>ts. Ok (t # ts))"
    and "bs = t @ r" "t \<noteq> []" "utf8_valid t"
  shows "\<exists>ts. lex_tokens bs = Ok ts \<and> lexed bs ts"
  using assms lexed_tok [of t r] by auto

lemma two_op_ascii: "two_op [b, c] \<Longrightarrow> b < 128 \<and> c < 128"
  by (auto simp: two_op_def str_def)

lemma utf8_low: "b < 128 \<Longrightarrow> utf8_valid (b # bs) = utf8_valid bs"
  by simp

lemma lex_tokens_lexed:
  assumes "utf8_valid bs"
  shows "\<exists>ts. lex_tokens bs = Ok ts \<and> lexed bs ts"
  using assms
proof (induction "length bs" arbitrary: bs rule: less_induct)
  case less
  note [simp del] = utf8_valid.simps(2)
  show ?case
  proof (cases bs)
    case Nil
    then show ?thesis by (simp add: lexed_nil)
  next
    case (Cons b r)
    have IH: "utf8_valid q \<Longrightarrow> length q \<le> length r \<Longrightarrow> \<exists>ts. lex_tokens q = Ok ts \<and> lexed q ts" for q
      using less.hyps [of q] Cons by simp
    have v: "utf8_valid (b # r)" using less.prems Cons by simp
    consider "ascii_ws b \<or> b = 59" | "\<not> (ascii_ws b \<or> b = 59)" "b = 34"
      | "\<not> (ascii_ws b \<or> b = 59)" "b \<noteq> 34" "r \<noteq> [] \<and> two_op [b, hd r]"
      | "\<not> (ascii_ws b \<or> b = 59)" "b \<noteq> 34" "\<not> (r \<noteq> [] \<and> two_op [b, hd r])" "op_byte b"
      | "\<not> (ascii_ws b \<or> b = 59)" "b \<noteq> 34" "\<not> (r \<noteq> [] \<and> two_op [b, hd r])" "\<not> op_byte b" by blast
    then show ?thesis
    proof cases
      case 1
      then have "b < 128" using ascii_bytes by auto
      then obtain ts where "lex_tokens r = Ok ts" "lexed r ts" using IH [of r] v utf8_low by auto
      then show ?thesis using 1 lexed_skip [of b r ts] Cons by (simp add: lex_skipped_def lex_round(1))
    next
      case 2
      let ?body = "takeWhile (\<lambda>c. c \<noteq> 34) r" and ?rest = "dropWhile (\<lambda>c. c \<noteq> 34) r"
      have q: "?rest = [] \<or> hd ?rest = 34" using hd_dropWhile [of "\<lambda>c. c \<noteq> 34" r] by blast
      have "utf8_valid ((b # ?body) @ ?rest)" using v by simp
      then have u: "utf8_valid (b # ?body)" "utf8_valid ?rest"
        using q utf8_split [of "b # ?body" ?rest] by (auto simp: utf8_cont_def simp del: dropWhile_eq_Nil_conv)
      have d: "utf8_valid (take 1 ?rest) \<and> utf8_valid (drop 1 ?rest)"
        using q u(2) by (cases ?rest) (auto simp: utf8_low simp del: dropWhile_eq_Nil_conv)
      then have t: "utf8_valid (b # ?body @ take 1 ?rest)" using u(1) utf8_append [of "b # ?body"] by simp
      have "length (drop 1 ?rest) \<le> length r" using length_dropWhile_le [of "\<lambda>c. c \<noteq> 34" r] by simp
      then have "\<exists>ts. lex_tokens (drop 1 ?rest) = Ok ts \<and> lexed (drop 1 ?rest) ts" using IH d by blast
      from lexed_cons_tok [OF this lex_round(2) [OF 2 refl t] _ _ t] show ?thesis using Cons by simp
    next
      case 3
      then obtain c q where r: "r = c # q" by (cases r) auto
      then have "b < 128" "c < 128" using 3 two_op_ascii [of b c] by simp_all
      then have "utf8_valid (tl r)" "utf8_valid [b, hd r]" using v r by (simp_all add: utf8_low)
      moreover have "length (tl r) \<le> length r" by simp
      ultimately show ?thesis using lexed_cons_tok [OF IH lex_round(3) [OF 3]] r Cons by simp
    next
      case 4
      then have "b < 128" using ascii_bytes by blast
      then have "utf8_valid r" "utf8_valid [b]" using v by (simp_all add: utf8_low)
      then show ?thesis using lexed_cons_tok [OF IH lex_round(4) [OF 4]] Cons by simp
    next
      case 5
      let ?t = "b # takeWhile word_byte r" and ?rest = "dropWhile word_byte r"
      have "?rest = [] \<or> \<not> word_byte (hd ?rest)" using hd_dropWhile [of word_byte r] by blast
      then have "?rest = [] \<or> \<not> utf8_cont (hd ?rest)"
        using ascii_bytes low_not_cont by (auto simp: word_byte_def utf8_cont_def)
      moreover have "utf8_valid (?t @ ?rest)" using v by simp
      ultimately have u: "utf8_valid ?t" "utf8_valid ?rest" using utf8_split by blast+
      have "length ?rest \<le> length r" by (rule length_dropWhile_le)
      then show ?thesis using lexed_cons_tok [OF IH [OF u(2)] lex_round(5) [OF 5 u(1)] _ _ u(1)] Cons by simp
    qed
  qed
qed

end
