(* ===== verification/F64.thy ===== *)
theory F64
  imports Prelude
begin

text \<open>
  IEEE 754 binary64 numbers by their bit pattern, with the operations of \<open>f64\<close> the engine uses:
  \<open>==\<close>, \<open>total_cmp\<close>, \<open>i64 as f64\<close> (round to nearest, ties to even) and \<open>f64 as i64\<close> (truncate,
  saturate, NaN to 0). The type is ordered by \<open>total_cmp\<close>, which is a linear order on bit patterns.
\<close>

datatype f64 = F64 (f64_bits: u64)

definition f64_neg :: "f64 \<Rightarrow> bool" where
  "f64_neg x \<longleftrightarrow> 2 ^ 63 \<le> unat (f64_bits x)"

definition f64_mag :: "f64 \<Rightarrow> nat" where
  "f64_mag x = unat (f64_bits x) mod 2 ^ 63"

definition f64_is_nan :: "f64 \<Rightarrow> bool" where
  "f64_is_nan x \<longleftrightarrow> 2047 * 2 ^ 52 < f64_mag x"

text \<open>\<open>==\<close> on floats: NaN equals nothing, the two zeros are equal.\<close>

definition f64_eq :: "f64 \<Rightarrow> f64 \<Rightarrow> bool" where
  "f64_eq x y \<longleftrightarrow> \<not> f64_is_nan x \<and> \<not> f64_is_nan y \<and>
     (x = y \<or> f64_mag x = 0 \<and> f64_mag y = 0)"

text \<open>
  \<open>f64::total_cmp\<close> compares the bits as signed integers after flipping the low 63 bits of the
  negative ones: a non-negative pattern of magnitude \<open>m\<close> becomes \<open>m\<close>, a negative one \<open>- 1 - m\<close>.
\<close>

definition f64_key :: "f64 \<Rightarrow> int" where
  "f64_key x = (if f64_neg x then - 1 - int (f64_mag x) else int (f64_mag x))"

lemma f64_key_inj: "f64_key x = f64_key y \<longleftrightarrow> x = y"
proof
  assume eq: "f64_key x = f64_key y"
  then have sg: "f64_neg x = f64_neg y" and mg: "f64_mag x = f64_mag y"
    by (auto simp: f64_key_def split: if_splits)
  have split: "unat b = (if 2 ^ 63 \<le> unat b then 2 ^ 63 else 0) + unat b mod 2 ^ 63" for b :: u64
    using unat_bounds(3) [of b] by (auto simp: le_mod_geq)
  have "unat (f64_bits x) = unat (f64_bits y)"
    using split [of "f64_bits x"] split [of "f64_bits y"] sg mg
    by (simp add: f64_neg_def f64_mag_def)
  then show "x = y" by (cases x; cases y) (simp add: word_unat_eq_iff)
qed simp

instantiation f64 :: linorder
begin

definition less_eq_f64 :: "f64 \<Rightarrow> f64 \<Rightarrow> bool" where
  "less_eq_f64 x y \<longleftrightarrow> f64_key x \<le> f64_key y"

definition less_f64 :: "f64 \<Rightarrow> f64 \<Rightarrow> bool" where
  "less_f64 x y \<longleftrightarrow> f64_key x < f64_key y"

instance
  by intro_classes (auto simp: less_eq_f64_def less_f64_def f64_key_inj)

end

text \<open>Conversions. \<open>bit_len n\<close> is the number of binary digits of \<open>n\<close>.\<close>

fun bit_len :: "nat \<Rightarrow> nat" where
  "bit_len n = (if n = 0 then 0 else Suc (bit_len (n div 2)))"

declare bit_len.simps [simp del]

definition round_shift :: "nat \<Rightarrow> nat \<Rightarrow> nat" where
  "round_shift n s = (let q = n div 2 ^ s; r = n mod 2 ^ s in
     if 2 * r > 2 ^ s \<or> 2 * r = 2 ^ s \<and> odd q then q + 1 else q)"

text \<open>The pattern of a positive integer; a carry out of the mantissa moves into the exponent.\<close>

definition f64_nat_bits :: "nat \<Rightarrow> nat" where
  "f64_nat_bits n = (let l = bit_len n in
     if l = 0 then 0
     else (l + 1021) * 2 ^ 52 + (if l \<le> 53 then n * 2 ^ (53 - l) else round_shift n (l - 53)))"

definition f64_of_i64 :: "i64 \<Rightarrow> f64" where
  "f64_of_i64 i = (let n = sint i in
     if n < 0 then F64 (word_of_nat (2 ^ 63 + f64_nat_bits (nat (- n))))
     else F64 (word_of_nat (f64_nat_bits (nat n))))"

definition f64_to_i64 :: "f64 \<Rightarrow> i64" where
  "f64_to_i64 x = (let e = f64_mag x div 2 ^ 52; m = f64_mag x mod 2 ^ 52 + 2 ^ 52 in
     if f64_is_nan x \<or> e < 1023 then 0
     else if 1086 \<le> e then (if f64_neg x then word_of_int (- (2 ^ 63)) else word_of_int (2 ^ 63 - 1))
     else let t = (if 1075 \<le> e then m * 2 ^ (e - 1075) else m div 2 ^ (1075 - e)) in
       word_of_int (if f64_neg x then - int t else int t))"

lemma f64_eq_refl: "\<not> f64_is_nan x \<Longrightarrow> f64_eq x x"
  by (simp add: f64_eq_def)

lemma f64_eq_sym: "f64_eq x y \<longleftrightarrow> f64_eq y x"
  by (auto simp: f64_eq_def)

end
