(* ===== verification/Numerals.thy ===== *)
theory Numerals
  imports F64
begin

text \<open>
  \<open>str::parse\<close> of the standard library at \<open>usize\<close>, \<open>i64\<close> and \<open>f64\<close>, on the bytes of a token. The
  float is the correctly rounded binary64 of the decimal; a written exponent stops accumulating at
  \<open>65536\<close>, as in the library.
\<close>

definition is_digit :: "u8 \<Rightarrow> bool" where
  "is_digit b \<longleftrightarrow> 48 \<le> b \<and> b \<le> 57"

definition digit_val :: "u8 \<Rightarrow> nat" where
  "digit_val b = unat b - 48"

definition decimal :: "u8 list \<Rightarrow> nat" where
  "decimal ds = foldl (\<lambda>n d. n * 10 + digit_val d) 0 ds"

definition all_digits :: "u8 list \<Rightarrow> bool" where
  "all_digits ds \<longleftrightarrow> ds \<noteq> [] \<and> list_all is_digit ds"

text \<open>The sign in front of a number: \<open>True\<close> for minus.\<close>

definition split_sign :: "u8 list \<Rightarrow> bool \<times> u8 list" where
  "split_sign t = (case t of [] \<Rightarrow> (False, [])
     | b # r \<Rightarrow> if b = 45 then (True, r) else if b = 43 then (False, r) else (False, t))"

definition parse_usize :: "u8 list \<Rightarrow> nat option" where
  "parse_usize t = (let (neg, ds) = split_sign t in
     if \<not> neg \<and> all_digits ds \<and> decimal ds < 2 ^ 64 then Some (decimal ds) else None)"

definition parse_i64 :: "u8 list \<Rightarrow> i64 option" where
  "parse_i64 t = (let (neg, ds) = split_sign t; n = decimal ds in
     if \<not> all_digits ds then None
     else if neg then (if n \<le> 2 ^ 63 then Some (word_of_int (- int n)) else None)
     else if n < 2 ^ 63 then Some (word_of_nat n) else None)"

text \<open>The binary64 pattern nearest to \<open>n / d\<close>, ties to even, for positive \<open>n\<close> and \<open>d\<close>.\<close>

definition scaled :: "nat \<Rightarrow> nat \<Rightarrow> int \<Rightarrow> nat \<times> nat" where
  "scaled n d e = (if 0 \<le> e then (n, d * 2 ^ nat e) else (n * 2 ^ nat (- e), d))"

definition ratio_bits :: "nat \<Rightarrow> nat \<Rightarrow> nat" where
  "ratio_bits n d = (let e0 = int (bit_len n) - int (bit_len d) - 53;
     (n0, d0) = scaled n d e0;
     e = max (if 2 ^ 53 \<le> n0 div d0 then e0 + 1 else e0) (- 1074);
     (m, k) = scaled n d e;
     q = m div k; r = m mod k;
     q' = (if 2 * r > k \<or> 2 * r = k \<and> odd q then q + 1 else q) in
     min (nat (e + 1074) * 2 ^ 52 + q') (2047 * 2 ^ 52))"

text \<open>Digits, an optional point with digits, and the exponent behind \<open>e\<close>.\<close>

definition exponent_val :: "u8 list \<Rightarrow> nat" where
  "exponent_val ds = foldl (\<lambda>n d. if n < 65536 then 10 * n + digit_val d else n) 0 ds"

definition parse_exponent :: "u8 list \<Rightarrow> int option" where
  "parse_exponent t = (case t of [] \<Rightarrow> Some 0
     | b # r \<Rightarrow> if b = 101 \<or> b = 69 then (let (neg, ds) = split_sign r in
         if all_digits ds then Some (if neg then - int (exponent_val ds) else int (exponent_val ds)) else None)
       else None)"

definition parse_number :: "u8 list \<Rightarrow> nat option" where
  "parse_number t = (let ip = takeWhile is_digit t; r = dropWhile is_digit t;
     (fp, r) = (case r of b # r' \<Rightarrow> if b = 46 then (takeWhile is_digit r', dropWhile is_digit r') else ([], r) | [] \<Rightarrow> ([], []));
     m = decimal (ip @ fp) in
     if ip = [] \<and> fp = [] then None
     else map_option (\<lambda>x. let e = x - int (length fp) in
       if m = 0 then 0 else if 0 \<le> e then ratio_bits (m * 10 ^ nat e) 1 else ratio_bits m (10 ^ nat (- e)))
       (parse_exponent r))"

definition to_lower :: "u8 \<Rightarrow> u8" where
  "to_lower b = (if 65 \<le> b \<and> b \<le> 90 then b + 32 else b)"

definition parse_special :: "u8 list \<Rightarrow> nat option" where
  "parse_special t = (let l = map to_lower t in
     if l = str ''inf'' \<or> l = str ''infinity'' then Some (2047 * 2 ^ 52)
     else if l = str ''nan'' then Some (2047 * 2 ^ 52 + 2 ^ 51) else None)"

definition parse_f64 :: "u8 list \<Rightarrow> f64 option" where
  "parse_f64 t = (let (neg, s) = split_sign t in
     map_option (\<lambda>b. F64 (word_of_nat (if neg then 2 ^ 63 + b else b)))
       (case parse_number s of Some b \<Rightarrow> Some b | None \<Rightarrow> parse_special s))"

lemma decimal_snoc: "decimal (ds @ [d]) = decimal ds * 10 + digit_val d"
  by (simp add: decimal_def)

end
