(* ===== verification/Schemas.thy ===== *)
theory Schemas
  imports Errors Utf8
begin

text \<open>
  Columns, encodings and the schema record (\<open>src/src/schema.rs\<close>): the storage classes and
  encodings with their tags, the schema with its operations, its serialization and its decoder.
\<close>

datatype col_kind = KBool | KInt | KReal | KText

fun col_kind_as_u8 :: "col_kind \<Rightarrow> u8" where
  "col_kind_as_u8 KBool = 0"
| "col_kind_as_u8 KInt = 1"
| "col_kind_as_u8 KReal = 2"
| "col_kind_as_u8 KText = 3"

definition col_kind_from_u8 :: "u8 \<Rightarrow> col_kind option" where
  "col_kind_from_u8 b = (if b = 0 then Some KBool else if b = 1 then Some KInt
     else if b = 2 then Some KReal else if b = 3 then Some KText else None)"

fun col_kind_name :: "col_kind \<Rightarrow> string" where
  "col_kind_name KBool = ''bool''"
| "col_kind_name KInt = ''int''"
| "col_kind_name KReal = ''real''"
| "col_kind_name KText = ''text''"

fun plain_width :: "col_kind \<Rightarrow> nat" where
  "plain_width KBool = 1"
| "plain_width KInt = 8"
| "plain_width KReal = 8"
| "plain_width KText = 4"

datatype encoding = Plain | Dictionary | Rle

fun encoding_as_u8 :: "encoding \<Rightarrow> u8" where
  "encoding_as_u8 Plain = 0"
| "encoding_as_u8 Dictionary = 1"
| "encoding_as_u8 Rle = 2"

definition encoding_from_u8 :: "u8 \<Rightarrow> encoding option" where
  "encoding_from_u8 b = (if b = 0 then Some Plain else if b = 1 then Some Dictionary
     else if b = 2 then Some Rle else None)"

fun encoding_name :: "encoding \<Rightarrow> string" where
  "encoding_name Plain = ''plain''"
| "encoding_name Dictionary = ''dictionary''"
| "encoding_name Rle = ''rle''"

record column =
  col_name :: rstr
  ckind :: col_kind
  cencoding :: encoding
  nullable :: bool
  dict_page :: "u32 option"
  index_page :: "u32 option"

definition column_new :: "rstr \<Rightarrow> col_kind \<Rightarrow> encoding \<Rightarrow> column" where
  "column_new name k e = \<lparr>col_name = name, ckind = k, cencoding = e, nullable = True,
     dict_page = None, index_page = None\<rparr>"

definition column_row_id :: column where
  "column_row_id = \<lparr>col_name = str ''id'', ckind = KInt, cencoding = Plain, nullable = False,
     dict_page = None, index_page = None\<rparr>"

text \<open>A schema is its list of columns.\<close>

type_synonym schema = "column list"

definition schema_new :: "column list \<Rightarrow> schema" where
  "schema_new columns = (if columns = [] then [column_row_id] else columns)"

text \<open>\<open>Iterator::position\<close>.\<close>

fun position :: "('a \<Rightarrow> bool) \<Rightarrow> 'a list \<Rightarrow> nat option" where
  "position p [] = None"
| "position p (x # xs) = (if p x then Some 0 else map_option Suc (position p xs))"

definition schema_find :: "schema \<Rightarrow> rstr \<Rightarrow> nat option" where
  "schema_find s name = position (\<lambda>c. col_name c = name) s"

definition row_id_index :: nat where
  "row_id_index = 0"

definition data_columns :: "schema \<Rightarrow> (nat \<times> column) list" where
  "data_columns s = drop 1 (enumerate 0 s)"

definition arity :: "schema \<Rightarrow> nat" where
  "arity s = length s"

section \<open>Serialization\<close>

definition page_or_max :: "u32 option \<Rightarrow> u32" where
  "page_or_max p = (case p of None \<Rightarrow> u32_max | Some i \<Rightarrow> i)"

definition encode_column :: "column \<Rightarrow> u8 list" where
  "encode_column c =
     word_of_nat (length (col_name c)) # col_name c @
     [col_kind_as_u8 (ckind c), encoding_as_u8 (cencoding c), (if nullable c then 1 else 0)] @
     u32_le (page_or_max (dict_page c)) @ u32_le (page_or_max (index_page c))"

definition schema_encode :: "schema \<Rightarrow> u8 list" where
  "schema_encode s = word_of_nat (length s) # concat (map encode_column s)"

definition page_of :: "u32 \<Rightarrow> u32 option" where
  "page_of p = (if p = u32_max then None else Some p)"

text \<open>One turn of the decoder's loop: the column at \<open>pos\<close> and the position behind it.\<close>

definition decode_column :: "u8 list \<Rightarrow> nat \<Rightarrow> (column \<times> nat) result" where
  "decode_column buf pos =
     (if length buf \<le> pos then Err (Decode BadSchema)
      else let nlen = unat (buf ! pos); pos = pos + 1 in
        if length buf < pos + nlen then Err (Decode BadSchema)
        else let name = take nlen (drop pos buf) in
          if \<not> utf8_valid name then Err (Decode BadSchema)
          else let pos = pos + nlen in
            if length buf < pos + 4 then Err (Decode BadSchema)
            else rbind (ok_or (col_kind_from_u8 (buf ! pos)) (Decode BadSchema)) (\<lambda>k.
              rbind (ok_or (encoding_from_u8 (buf ! (pos + 1))) (Decode BadSchema)) (\<lambda>e.
              rbind (read_u32 buf (pos + 3)) (\<lambda>dp.
              rbind (read_u32 buf (pos + 7)) (\<lambda>ip.
                Ok (\<lparr>col_name = name, ckind = k, cencoding = e, nullable = buf ! (pos + 2) \<noteq> 0,
                     dict_page = page_of dp, index_page = page_of ip\<rparr>, pos + 11))))))"

fun decode_columns :: "nat \<Rightarrow> u8 list \<Rightarrow> nat \<Rightarrow> column list result" where
  "decode_columns 0 buf pos = Ok []"
| "decode_columns (Suc n) buf pos =
     rbind (decode_column buf pos) (\<lambda>(c, pos').
       rbind (decode_columns n buf pos') (\<lambda>cs. Ok (c # cs)))"

definition schema_decode :: "u8 list \<Rightarrow> schema result" where
  "schema_decode buf = (case buf of [] \<Rightarrow> Err (Decode BadSchema)
     | b # _ \<Rightarrow> rbind (decode_columns (unat b) buf 1) (\<lambda>columns.
         if columns = [] then Err (Decode BadSchema) else Ok columns))"

section \<open>Facts\<close>

lemma col_kind_tag [simp]: "col_kind_from_u8 (col_kind_as_u8 k) = Some k"
  by (cases k) (simp_all add: col_kind_from_u8_def)

lemma encoding_tag [simp]: "encoding_from_u8 (encoding_as_u8 e) = Some e"
  by (cases e) (simp_all add: encoding_from_u8_def)

lemma position_Some: "position p xs = Some i \<Longrightarrow> i < length xs \<and> p (xs ! i) \<and> (\<forall>j < i. \<not> p (xs ! j))"
proof (induction xs arbitrary: i)
  case (Cons x xs)
  show ?case
  proof (cases "p x")
    case False
    with Cons.prems obtain j where "i = Suc j" "position p xs = Some j" by auto
    with Cons.IH [of j] False show ?thesis by (auto simp: nth_Cons split: nat.split)
  qed (use Cons.prems in auto)
qed simp

text \<open>
  A column the record can hold: a name of at most 255 bytes of UTF-8, and page ids other than the
  marker for absence.
\<close>

definition column_ok :: "column \<Rightarrow> bool" where
  "column_ok c \<longleftrightarrow> length (col_name c) < 256 \<and> utf8_valid (col_name c) \<and>
     dict_page c \<noteq> Some u32_max \<and> index_page c \<noteq> Some u32_max"

definition schema_ok :: "schema \<Rightarrow> bool" where
  "schema_ok s \<longleftrightarrow> s \<noteq> [] \<and> length s < 256 \<and> (\<forall>c \<in> set s. column_ok c)"

lemma page_of_or_max [simp]: "p \<noteq> Some u32_max \<Longrightarrow> page_of (page_or_max p) = p"
  by (cases p) (auto simp: page_of_def page_or_max_def)

lemma unat_u8_len: "n < 256 \<Longrightarrow> unat (word_of_nat n :: u8) = n"
  by (simp add: unat_of_nat)

lemma encode_column_length [len_simps]: "length (encode_column c) = length (col_name c) + 12"
  by (simp add: encode_column_def)

lemma decode_column_view:
  assumes d: "drop pos buf = encode_column c @ post" and c: "column_ok c"
  shows "decode_column buf pos = Ok (c, pos + length (encode_column c))"
proof -
  let ?n = "length (col_name c)" and ?q = "pos + 1 + length (col_name c)"
  have len: "pos + length (encode_column c) \<le> length buf"
    using drop_prefix_le [OF d] by (simp add: encode_column_def)
  have d1: "drop (pos + 1) buf = col_name c @
      [col_kind_as_u8 (ckind c), encoding_as_u8 (cencoding c), if nullable c then 1 else 0] @
      u32_le (page_or_max (dict_page c)) @ u32_le (page_or_max (index_page c)) @ post"
    using drop_advance [of pos buf "[word_of_nat ?n]"] d by (simp add: encode_column_def)
  have d2: "drop ?q buf =
      [col_kind_as_u8 (ckind c), encoding_as_u8 (cencoding c), if nullable c then 1 else 0] @
      u32_le (page_or_max (dict_page c)) @ u32_le (page_or_max (index_page c)) @ post"
    using drop_advance [OF d1] .
  have d3: "drop (?q + 3) buf = u32_le (page_or_max (dict_page c)) @ u32_le (page_or_max (index_page c)) @ post"
    using drop_advance [OF d2] by (simp add: eval_nat_numeral)
  have d4: "drop (?q + 7) buf = u32_le (page_or_max (index_page c)) @ post"
    using drop_advance [OF d3] by (simp add: add.assoc)
  have b0: "buf ! pos = word_of_nat ?n"
    using drop_hd_nth [of pos buf] d by (simp add: encode_column_def)
  have tags: "buf ! Suc (pos + ?n) = col_kind_as_u8 (ckind c)"
    "buf ! Suc (Suc (pos + ?n)) = encoding_as_u8 (cencoding c)"
    "buf ! Suc (Suc (Suc (pos + ?n))) = (if nullable c then 1 else 0)"
    using drop_nth3 [of ?q buf] d2 by simp_all
  have name: "take ?n (drop (Suc pos) buf) = col_name c" using d1 by simp
  show ?thesis
    using len c read_u32_view [OF d3, where 'a = error] read_u32_view [OF d4, where 'a = error]
    by (simp add: decode_column_def b0 name tags unat_u8_len column_ok_def encode_column_length
        Let_def not_le not_less)
qed

lemma decode_columns_view:
  assumes "drop pos buf = concat (map encode_column cs) @ post" and "\<forall>c \<in> set cs. column_ok c"
  shows "decode_columns (length cs) buf pos = Ok cs"
  using assms
proof (induction cs arbitrary: pos)
  case (Cons c cs)
  from Cons.prems have d: "drop pos buf = encode_column c @ (concat (map encode_column cs) @ post)"
    by simp
  show ?case
    using Cons.IH [OF drop_advance [OF d]] decode_column_view [OF d] Cons.prems by simp
qed simp

lemma schema_decode_encode: "schema_ok s \<Longrightarrow> schema_decode (schema_encode s @ post) = Ok s"
  using decode_columns_view [of 1 "schema_encode s @ post" s post]
  by (simp add: schema_decode_def schema_encode_def schema_ok_def unat_u8_len)

lemma decode_column_no_undef: "decode_column buf pos \<noteq> Undef"
  by (auto simp: decode_column_def Let_def res_simps)

lemma decode_columns_no_undef: "decode_columns n buf pos \<noteq> Undef"
  by (induction n arbitrary: pos) (auto simp: res_simps decode_column_no_undef)

lemma schema_decode_no_undef: "schema_decode buf \<noteq> Undef"
  by (auto simp: schema_decode_def res_simps decode_columns_no_undef split: list.split)

end
