(* ===== verification/Values.thy ===== *)
theory Values
  imports F64 "HOL-Library.List_Lexorder" "HOL-Library.Char_ord"
begin

text \<open>
  Runtime values and their comparison (\<open>src/src/value.rs\<close>). The facts below say where
  \<open>total_cmp\<close> is a linear order (among nulls and values of one kind) and how the two equalities,
  the derived \<open>==\<close> and \<open>total_cmp\<close>'s, relate.
\<close>

datatype ordering = Less | Equal | Greater

definition cmp :: "'a::linorder \<Rightarrow> 'a \<Rightarrow> ordering" where
  "cmp a b = (if a < b then Less else if a = b then Equal else Greater)"

datatype val = VNull | VBool bool | VInt i64 | VReal f64 | VText u32

fun kind :: "val \<Rightarrow> string" where
  "kind VNull = ''null''"
| "kind (VBool b) = ''bool''"
| "kind (VInt i) = ''int''"
| "kind (VReal r) = ''real''"
| "kind (VText t) = ''text''"

fun is_null :: "val \<Rightarrow> bool" where
  "is_null VNull = True"
| "is_null v = False"

fun as_int :: "val \<Rightarrow> i64 option" where
  "as_int (VInt i) = Some i"
| "as_int (VBool True) = Some 1"
| "as_int (VBool False) = Some 0"
| "as_int (VReal r) = Some (f64_to_i64 r)"
| "as_int v = None"

fun as_real :: "val \<Rightarrow> f64 option" where
  "as_real (VReal r) = Some r"
| "as_real (VInt i) = Some (f64_of_i64 i)"
| "as_real (VBool True) = Some (f64_of_i64 1)"
| "as_real (VBool False) = Some (f64_of_i64 0)"
| "as_real v = None"

fun as_text_id :: "val \<Rightarrow> u32 option" where
  "as_text_id (VText t) = Some t"
| "as_text_id v = None"

text \<open>The arms of \<open>Value::total_cmp\<close>, in their order.\<close>

fun total_cmp :: "val \<Rightarrow> val \<Rightarrow> ordering" where
  "total_cmp VNull VNull = Equal"
| "total_cmp VNull w = Less"
| "total_cmp v VNull = Greater"
| "total_cmp (VBool a) (VBool b) = cmp a b"
| "total_cmp (VInt a) (VInt b) = cmp (sint a) (sint b)"
| "total_cmp (VReal a) (VReal b) = cmp a b"
| "total_cmp (VInt a) (VReal b) = cmp (f64_of_i64 a) b"
| "total_cmp (VReal a) (VInt b) = cmp a (f64_of_i64 b)"
| "total_cmp (VText a) (VText b) = cmp a b"
| "total_cmp v w = cmp (kind v) (kind w)"

text \<open>The derived \<open>PartialEq\<close>.\<close>

fun val_eq :: "val \<Rightarrow> val \<Rightarrow> bool" where
  "val_eq VNull VNull = True"
| "val_eq (VBool a) (VBool b) = (a = b)"
| "val_eq (VInt a) (VInt b) = (a = b)"
| "val_eq (VReal a) (VReal b) = f64_eq a b"
| "val_eq (VText a) (VText b) = (a = b)"
| "val_eq v w = False"

datatype cmp_op = OpEq | OpNe | OpLt | OpLe | OpGt | OpGe

definition cmp_op_parse :: "rstr \<Rightarrow> cmp_op option" where
  "cmp_op_parse tok =
     (if tok = str ''='' \<or> tok = str ''=='' then Some OpEq
      else if tok = str ''!='' \<or> tok = str ''<>'' then Some OpNe
      else if tok = str ''<'' then Some OpLt
      else if tok = str ''<='' then Some OpLe
      else if tok = str ''>'' then Some OpGt
      else if tok = str ''>='' then Some OpGe
      else None)"

definition cmp_apply :: "cmp_op \<Rightarrow> val \<Rightarrow> val \<Rightarrow> bool" where
  "cmp_apply op lhs rhs =
     (if is_null lhs \<or> is_null rhs then op = OpNe
      else (case op of
          OpEq \<Rightarrow> val_eq lhs rhs
        | OpNe \<Rightarrow> \<not> val_eq lhs rhs
        | OpLt \<Rightarrow> total_cmp lhs rhs = Less
        | OpLe \<Rightarrow> total_cmp lhs rhs \<noteq> Greater
        | OpGt \<Rightarrow> total_cmp lhs rhs = Greater
        | OpGe \<Rightarrow> total_cmp lhs rhs \<noteq> Less))"

section \<open>Order facts\<close>

fun flip_ord :: "ordering \<Rightarrow> ordering" where
  "flip_ord Less = Greater"
| "flip_ord Equal = Equal"
| "flip_ord Greater = Less"

lemma cmp_simps [simp]:
  "cmp a b = Less \<longleftrightarrow> a < b" "cmp a b = Equal \<longleftrightarrow> a = b" "cmp a b = Greater \<longleftrightarrow> b < a"
  by (auto simp: cmp_def)

lemma sint_eq_iff: "sint a = sint b \<longleftrightarrow> a = b"
  by (metis of_int_sint scast_id)

lemma cmp_refl [simp]: "cmp a a = Equal"
  by (simp add: cmp_def)

lemma cmp_flip: "cmp b a = flip_ord (cmp a b)"
  by (auto simp: cmp_def)

lemma total_cmp_refl [simp]: "total_cmp v v = Equal"
  by (cases v) auto

lemma total_cmp_flip: "total_cmp w v = flip_ord (total_cmp v w)"
  by (cases v; cases w) (auto intro: cmp_flip)

lemma total_cmp_Greater_iff: "total_cmp v w = Greater \<longleftrightarrow> total_cmp w v = Less"
  by (subst total_cmp_flip) (cases "total_cmp w v"; simp)

text \<open>Values of one kind, nulls included: the values a column holds.\<close>

definition same_kind :: "val \<Rightarrow> val \<Rightarrow> bool" where
  "same_kind v w \<longleftrightarrow> v = VNull \<or> w = VNull \<or> kind v = kind w"

lemma kind_eq_cases:
  assumes "kind v = kind w"
  obtains "v = VNull" "w = VNull" | a b where "v = VBool a" "w = VBool b"
    | a b where "v = VInt a" "w = VInt b" | a b where "v = VReal a" "w = VReal b"
    | a b where "v = VText a" "w = VText b"
  using assms by (cases v; cases w) auto

lemma total_cmp_trans:
  assumes "kind u = kind v" and "kind v = kind w"
    and "total_cmp u v \<noteq> Greater" and "total_cmp v w \<noteq> Greater"
  shows "total_cmp u w \<noteq> Greater"
  using assms by (cases u; cases v; cases w) auto

lemma total_cmp_eq:
  "kind v = kind w \<Longrightarrow> total_cmp v w = Equal \<longleftrightarrow> v = w"
  by (erule kind_eq_cases) (auto simp: sint_eq_iff)

lemma val_eq_total_cmp:
  assumes "val_eq v w" and "\<And>r. v \<noteq> VReal r"
  shows "total_cmp v w = Equal"
  using assms by (cases v; cases w) auto

lemma val_eq_iff_not_real: "(\<And>r. v \<noteq> VReal r) \<Longrightarrow> val_eq v w \<longleftrightarrow> v = w"
  by (cases v; cases w) auto

end
