(* ===== verification/Parsers.thy ===== *)
theory Parsers
  imports Lexers Numerals Schemas Values
begin

text \<open>
  The statement parser of \<open>src/src/script.rs\<close>. A parser is an operation on the tokens that are left;
  it reads the schema only to resolve column names. Tokens behind a complete statement are ignored,
  as in the code.
\<close>

section \<open>Statements\<close>

datatype operand = OVal val | OStr "u8 list"

datatype stmt =
    SInsert "operand list"
  | SUpdate nat operand nat cmp_op operand
  | SDelete nat cmp_op operand
  | SScan
  | SScanWhere nat cmp_op operand
  | SIndexScan nat operand
  | SJoin
  | SCompact
  | SCheckpoint
  | SAgg nat

type_synonym 'a parser = "(rstr list, error, 'a) op"

section \<open>The parser\<close>

fun next_token :: "rstr list \<Rightarrow> rstr option \<times> rstr list" where
  "next_token [] = (None, [])"
| "next_token (t # ts) = (Some t, ts)"

definition expected :: "rstr \<Rightarrow> rstr \<Rightarrow> error" where
  "expected s t = Script (ParseError (str ''expected '' @ s @ str '', got '' @ t))"

definition expect :: "rstr \<Rightarrow> unit parser" where
  "expect s ts = (case next_token ts of
       (Some t, r) \<Rightarrow> (if t = s then Ok () else Err (expected s t), r)
     | (None, r) \<Rightarrow> (Err (expected s (str ''end'')), r))"

text \<open>\<open>self.next().ok_or(EndOfInput)\<close>\<close>

definition next_or_end :: "rstr parser" where
  "next_or_end ts = (case next_token ts of
       (Some t, r) \<Rightarrow> (Ok t, r) | (None, r) \<Rightarrow> (Err (Script EndOfInput), r))"

definition no_column :: "rstr \<Rightarrow> error" where
  "no_column t = NotFound (str ''column '' @ t)"

definition parse_col :: "schema \<Rightarrow> nat parser" where
  "parse_col s = sbind next_or_end (\<lambda>t. slift (case parse_usize t of Some i \<Rightarrow> Ok i
     | None \<Rightarrow> ok_or (schema_find s t) (no_column t)))"

definition bad_op :: "rstr \<Rightarrow> error" where
  "bad_op t = Script (ParseError (str ''bad op '' @ t))"

definition parse_op :: "cmp_op parser" where
  "parse_op = sbind next_or_end (\<lambda>t. slift (ok_or (cmp_op_parse t) (bad_op t)))"

definition quoted :: "rstr \<Rightarrow> bool" where
  "quoted t \<longleftrightarrow> 2 \<le> length t \<and> hd t = 34 \<and> last t = 34"

definition operand_of :: "rstr \<Rightarrow> operand result" where
  "operand_of t =
     (if quoted t then Ok (OStr (butlast (tl t)))
      else if t = str ''null'' then Ok (OVal VNull)
      else if t = str ''true'' then Ok (OVal (VBool True))
      else if t = str ''false'' then Ok (OVal (VBool False))
      else (case parse_i64 t of Some i \<Rightarrow> Ok (OVal (VInt i)) | None \<Rightarrow>
           (case parse_f64 t of Some r \<Rightarrow> Ok (OVal (VReal r)) | None \<Rightarrow> Err (Script (BadValue t)))))"

definition parse_operand :: "operand parser" where
  "parse_operand = sbind next_or_end (\<lambda>t. slift (operand_of t))"

text \<open>The loop of \<open>parse_insert\<close>: operands to the end.\<close>

fun parse_operands :: "operand list parser" where
  "parse_operands [] = (Ok [], [])"
| "parse_operands (t # ts) = (case operand_of t of
       Ok v \<Rightarrow> (case parse_operands ts of (r, ts') \<Rightarrow> (rbind r (\<lambda>vs. Ok (v # vs)), ts'))
     | Err e \<Rightarrow> (Err e, ts) | Panic \<Rightarrow> (Panic, ts) | Undef \<Rightarrow> (Undef, ts))"

definition parse_insert :: "stmt parser" where
  "parse_insert = sbind (expect (str ''insert'')) (\<lambda>_. sbind parse_operands (\<lambda>vs. sret (SInsert vs)))"

text \<open>\<open><col> <op> <v>\<close>\<close>

definition parse_pred :: "schema \<Rightarrow> (nat \<times> cmp_op \<times> operand) parser" where
  "parse_pred s = sbind (parse_col s) (\<lambda>c. sbind parse_op (\<lambda>op. sbind parse_operand (\<lambda>v. sret (c, op, v))))"

definition parse_update :: "schema \<Rightarrow> stmt parser" where
  "parse_update s = sbind (expect (str ''update'')) (\<lambda>_. sbind (expect (str ''set'')) (\<lambda>_.
     sbind (parse_col s) (\<lambda>sc. sbind parse_operand (\<lambda>sv. sbind (expect (str ''where'')) (\<lambda>_.
     sbind (parse_pred s) (\<lambda>(c, op, v). sret (SUpdate sc sv c op v)))))))"

definition parse_delete :: "schema \<Rightarrow> stmt parser" where
  "parse_delete s = sbind (expect (str ''delete'')) (\<lambda>_. sbind (expect (str ''where'')) (\<lambda>_.
     sbind (parse_pred s) (\<lambda>(c, op, v). sret (SDelete c op v))))"

definition parse_scan :: "schema \<Rightarrow> stmt parser" where
  "parse_scan s = sbind (expect (str ''scan'')) (\<lambda>_ ts. (case ts of
       [] \<Rightarrow> sret SScan ts
     | t # r \<Rightarrow> if t = str ''where'' then sbind (parse_pred s) (\<lambda>(c, op, v). sret (SScanWhere c op v)) r
         else sret SScan ts))"

definition parse_index_scan :: "schema \<Rightarrow> stmt parser" where
  "parse_index_scan s = sbind (expect (str ''index_scan'')) (\<lambda>_. sbind (parse_col s) (\<lambda>c.
     sbind parse_operand (\<lambda>v. sret (SIndexScan c v))))"

definition parse_agg :: "schema \<Rightarrow> stmt parser" where
  "parse_agg s = sbind (expect (str ''agg'')) (\<lambda>_. sbind (parse_col s) (\<lambda>c. sret (SAgg c)))"

definition parse_tokens :: "schema \<Rightarrow> rstr \<Rightarrow> stmt parser" where
  "parse_tokens s kw =
     (if kw = str ''insert'' then parse_insert
      else if kw = str ''update'' then parse_update s
      else if kw = str ''delete'' then parse_delete s
      else if kw = str ''scan'' then parse_scan s
      else if kw = str ''index_scan'' then parse_index_scan s
      else if kw = str ''join'' then (\<lambda>ts. (Ok SJoin, snd (next_token ts)))
      else if kw = str ''compact'' then (\<lambda>ts. (Ok SCompact, snd (next_token ts)))
      else if kw = str ''checkpoint'' then (\<lambda>ts. (Ok SCheckpoint, snd (next_token ts)))
      else if kw = str ''agg'' then parse_agg s
      else slift (Err (Script (UnknownStatement kw))))"

definition parse_statement :: "schema \<Rightarrow> u8 list \<Rightarrow> stmt result" where
  "parse_statement s src = rbind (lex_tokens src) (\<lambda>toks. case toks of
       [] \<Rightarrow> Err (Script (ParseError (str ''empty'')))
     | kw # _ \<Rightarrow> fst (parse_tokens s kw toks))"

section \<open>The parser never faults\<close>

definition graceful :: "('e, 'a) res \<Rightarrow> bool" where
  "graceful r \<longleftrightarrow> r \<noteq> Panic \<and> r \<noteq> Undef"

lemma graceful_simps [simp]: "graceful (Ok a)" "graceful (Err e)" "\<not> graceful Panic" "\<not> graceful Undef"
  by (simp_all add: graceful_def)

lemma graceful_rbind: "graceful m \<Longrightarrow> (\<And>a. graceful (f a)) \<Longrightarrow> graceful (rbind m f)"
  by (cases m) auto

lemma graceful_ok_or [simp]: "graceful (ok_or x e)"
  by (cases x) (simp_all add: ok_or_def)

lemma graceful_sbind: "graceful (fst (m s)) \<Longrightarrow> (\<And>a s. graceful (fst (f a s))) \<Longrightarrow> graceful (fst (sbind m f s))"
  by (auto simp: sbind_def split: prod.split res.split)

lemma graceful_slift [simp]: "fst (slift r s) = r" "fst (sret a s) = Ok a"
  by (simp_all add: slift_def sret_def)

lemma graceful_steps [simp]:
  "graceful (fst (expect s ts))" "graceful (fst (next_or_end ts))" "graceful (operand_of t)"
  by (cases ts; auto simp: expect_def next_or_end_def operand_of_def split: option.split)+

lemma graceful_operands [simp]: "graceful (fst (parse_operands ts))"
proof (induction ts)
  case (Cons t ts)
  then show ?case using graceful_steps(3) [of t]
    by (auto split: res.split prod.split intro!: graceful_rbind simp del: graceful_steps)
qed simp

lemma graceful_parts [simp]:
  "graceful (fst (parse_col s ts))" "graceful (fst (parse_op ts))" "graceful (fst (parse_operand ts))"
  "graceful (fst (parse_pred s ts))"
proof -
  show c: "graceful (fst (parse_col s ts))" for ts unfolding parse_col_def by (rule graceful_sbind) (auto split: option.split)
  show p: "graceful (fst (parse_op ts))" for ts unfolding parse_op_def by (rule graceful_sbind) auto
  show v: "graceful (fst (parse_operand ts))" for ts unfolding parse_operand_def by (rule graceful_sbind) auto
  show "graceful (fst (parse_pred s ts))" unfolding parse_pred_def by (intro graceful_sbind c p v) auto
qed

lemma graceful_statements:
  "graceful (fst (parse_insert ts))" "graceful (fst (parse_update s ts))" "graceful (fst (parse_delete s ts))"
  "graceful (fst (parse_scan s ts))" "graceful (fst (parse_index_scan s ts))" "graceful (fst (parse_agg s ts))"
proof -
  show "graceful (fst (parse_insert ts))" unfolding parse_insert_def by (intro graceful_sbind) simp_all
  show "graceful (fst (parse_update s ts))" unfolding parse_update_def
    by (intro graceful_sbind) (simp_all split: prod.split)
  show "graceful (fst (parse_delete s ts))" unfolding parse_delete_def
    by (intro graceful_sbind) (simp_all split: prod.split)
  show "graceful (fst (parse_index_scan s ts))" unfolding parse_index_scan_def by (intro graceful_sbind) simp_all
  show "graceful (fst (parse_agg s ts))" unfolding parse_agg_def by (intro graceful_sbind) simp_all
  have "graceful (fst (sbind (parse_pred s) (\<lambda>(c, op, v). sret (SScanWhere c op v)) r))" for r
    by (intro graceful_sbind) (simp_all split: prod.split)
  then show "graceful (fst (parse_scan s ts))" unfolding parse_scan_def
    by (intro graceful_sbind) (simp_all split: list.split)
qed

lemma graceful_parse_tokens: "graceful (fst (parse_tokens s kw ts))"
  unfolding parse_tokens_def by (simp only: graceful_statements split: if_split) simp

lemma graceful_lex: "graceful (lex_tokens bs)"
proof (induction "length bs" arbitrary: bs rule: less_induct)
  case less
  show ?case
  proof (cases bs)
    case (Cons b r)
    have "length (drop 1 (dropWhile (\<lambda>c. c \<noteq> 34) r)) \<le> length r" "length (dropWhile word_byte r) \<le> length r"
      "length (tl r) \<le> length r" using length_dropWhile_le [of "\<lambda>c. c \<noteq> 34" r] by (auto intro: length_dropWhile_le)
    then have IH: "graceful (lex_tokens (drop 1 (dropWhile (\<lambda>c. c \<noteq> 34) r)))" "graceful (lex_tokens (dropWhile word_byte r))"
      "graceful (lex_tokens (tl r))" "graceful (lex_tokens r)" using less.hyps Cons by simp_all
    show ?thesis unfolding Cons lex_tokens.simps(2) Let_def
      using IH by (simp only: graceful_simps graceful_rbind split: if_split) blast
  qed simp
qed

lemma graceful_parse_statement: "graceful (parse_statement s src)"
  unfolding parse_statement_def
  by (intro graceful_rbind graceful_lex) (auto split: list.split intro: graceful_parse_tokens)

end
