(* ===== verification/Records.thy ===== *)
theory Records
  imports Errors
begin

text \<open>
  The loop every fixed-width table of the container is read with:
  \<^verbatim>\<open>
    for _ in 0..n { if pos + w > buf.len() { <short> } ...read one record at pos...; pos += w; }
  \<close>
  \<open>short\<close> is what the source does when the buffer ends early: \<open>break\<close> or return an error.
  The locale \<open>record_codec\<close> is the contract between a record's writer and its reader; a table
  written record by record is then read back in one step.
\<close>

fun scan_records ::
  "nat \<Rightarrow> (u8 list \<Rightarrow> nat \<Rightarrow> ('e, 'a) res) \<Rightarrow> ('m \<Rightarrow> 'a \<Rightarrow> 'm) \<Rightarrow> ('m \<times> nat \<Rightarrow> ('e, 'm \<times> nat) res) \<Rightarrow>
   nat \<Rightarrow> u8 list \<Rightarrow> nat \<Rightarrow> 'm \<Rightarrow> ('e, 'm \<times> nat) res" where
  "scan_records w rd ins short 0 buf pos acc = Ok (acc, pos)"
| "scan_records w rd ins short (Suc n) buf pos acc =
     (if length buf < pos + w then short (acc, pos)
      else rbind (rd buf pos) (\<lambda>x. scan_records w rd ins short n buf (pos + w) (ins acc x)))"

locale record_codec =
  fixes w :: nat
    and valid :: "'a \<Rightarrow> bool"
    and enc :: "'a \<Rightarrow> u8 list"
    and rd :: "u8 list \<Rightarrow> nat \<Rightarrow> ('e, 'a) res"
  assumes width: "length (enc x) = w"
    and positive: "0 < w"
    and read_back: "valid x \<Longrightarrow> drop pos buf = enc x @ post \<Longrightarrow> rd buf pos = Ok x"
    and in_bounds: "pos + w \<le> length buf \<Longrightarrow> \<exists>x. rd buf pos = Ok x"
begin

lemma enc_ne: "enc x \<noteq> []"
  using width [of x] positive by auto

lemma table_length: "length (concat (map enc xs)) = w * length xs"
  by (induction xs) (simp_all add: width)

lemma scan_table:
  assumes "drop pos buf = concat (map enc xs) @ post" and "\<forall>x \<in> set xs. valid x"
  shows "scan_records w rd ins short (length xs) buf pos acc =
    Ok (foldl ins acc xs, pos + w * length xs)"
  using assms
proof (induction xs arbitrary: pos acc)
  case (Cons x xs)
  from Cons.prems(1) have d: "drop pos buf = enc x @ (concat (map enc xs) @ post)" by simp
  have "pos + w \<le> length buf"
    using drop_prefix_le [OF d enc_ne] by (simp add: width)
  moreover have "drop (pos + w) buf = concat (map enc xs) @ post"
    using drop_advance [OF d] by (simp add: width)
  ultimately show ?case
    using Cons.IH [of "pos + w" "ins acc x"] read_back [OF _ d] Cons.prems(2) by (simp add: algebra_simps)
qed simp

text \<open>Whatever the bytes are, the loop that breaks on a short buffer returns.\<close>

lemma scan_break_total: "\<exists>acc' pos'. scan_records w rd ins Ok n buf pos acc = Ok (acc', pos')"
proof (induction n arbitrary: pos acc)
  case (Suc n)
  show ?case
  proof (cases "length buf < pos + w")
    case False
    then obtain x where "rd buf pos = Ok x" using in_bounds by (metis not_less)
    then show ?thesis using Suc.IH [of "pos + w" "ins acc x"] False by simp
  qed simp
qed simp

lemma scan_short_no_fault:
  assumes "\<And>a p. short (a, p) \<noteq> Panic" and "\<And>a p. short (a, p) \<noteq> Undef"
  shows "scan_records w rd ins short n buf pos acc \<notin> {Panic, Undef}"
proof (induction n arbitrary: pos acc)
  case (Suc n)
  show ?case
  proof (cases "length buf < pos + w")
    case True
    then show ?thesis using assms by auto
  next
    case False
    then obtain x where "rd buf pos = Ok x" using in_bounds by (metis not_less)
    then show ?thesis using Suc.IH [of "pos + w" "ins acc x"] False by simp
  qed
qed simp

end

text \<open>The single-integer records.\<close>

interpretation u32_rec: record_codec 4 "\<lambda>_. True" u32_le "read_u32 :: u8 list \<Rightarrow> nat \<Rightarrow> u32 result"
proof
  fix pos :: nat and buf :: "u8 list"
  assume "pos + 4 \<le> length buf"
  then show "\<exists>x. read_u32 buf pos = (Ok x :: u32 result)" by (simp add: read_u32_eq)
qed (auto intro: read_u32_view)

interpretation u64_rec: record_codec 8 "\<lambda>_. True" u64_le "read_u64 :: u8 list \<Rightarrow> nat \<Rightarrow> u64 result"
proof
  fix pos :: nat and buf :: "u8 list"
  assume "pos + 8 \<le> length buf"
  then show "\<exists>x. read_u64 buf pos = (Ok x :: u64 result)" by (simp add: read_u64_eq)
qed (auto intro: read_u64_view)

end
