(* ===== verification/Rles.thy ===== *)
theory Rles
  imports Values Schemas Records
begin

text \<open>
  Run-length encoding (\<open>src/src/rle.rs\<close>): runs, their bytes, coalescing, materializing and
  dropping a prefix. \<open>materialize\<close> is the abstraction: the other operations are stated against the
  flat list of values.
\<close>

record run =
  r_value :: val
  r_count :: u32

definition run_new :: "val \<Rightarrow> u32 \<Rightarrow> run" where
  "run_new v c = \<lparr>r_value = v, r_count = c\<rparr>"

definition run_width :: "string \<Rightarrow> nat" where
  "run_width k = (if k = ''bool'' then 1 + 4 else if k = ''int'' \<or> k = ''real'' then 8 + 4
     else if k = ''text'' then 4 + 4 else 8 + 4)"

definition encode_run :: "run \<Rightarrow> u8 list" where
  "encode_run r = (case r_value r of
       VBool b \<Rightarrow> [if b then 1 else 0] @ u32_le (r_count r)
     | VInt i \<Rightarrow> u64_le i @ u32_le (r_count r)
     | VReal x \<Rightarrow> u64_le (f64_bits x) @ u32_le (r_count r)
     | VText t \<Rightarrow> u32_le t @ u32_le (r_count r)
     | VNull \<Rightarrow> u64_le 0 @ u32_le (r_count r))"

definition encode_runs :: "run list \<Rightarrow> u8 list" where
  "encode_runs runs = concat (map encode_run runs)"

definition read_run :: "string \<Rightarrow> u8 list \<Rightarrow> nat \<Rightarrow> run result" where
  "read_run k buf pos =
     rbind (read_u32 buf (pos + run_width k - 4)) (\<lambda>count.
     rbind (if k = ''bool'' then rbind (index_at buf pos) (\<lambda>b. Ok (VBool (b \<noteq> 0)))
            else if k = ''int'' then rbind (read_u64 buf pos) (\<lambda>i. Ok (VInt i))
            else if k = ''real'' then rbind (read_u64 buf pos) (\<lambda>x. Ok (VReal (F64 x)))
            else if k = ''text'' then rbind (read_u32 buf pos) (\<lambda>t. Ok (VText t))
            else Ok VNull) (\<lambda>v. Ok (run_new v count)))"

text \<open>
  The loop \<open>while pos < buf.len()\<close> advances by the width, which divides the length: it runs
  \<open>len / w\<close> times.
\<close>

definition decode_runs :: "u8 list \<Rightarrow> string \<Rightarrow> run list result" where
  "decode_runs buf k =
     (if length buf mod run_width k \<noteq> 0 then Err (Decode BadEncoding)
      else rbind (scan_records (run_width k) (read_run k) (\<lambda>rs r. rs @ [r]) Ok
                    (length buf div run_width k) buf 0 []) (\<lambda>(rs, _). Ok rs))"

text \<open>\<open>decode_runs(..).unwrap_or_default()\<close>; \<open>decode_runs\<close> never panics (below).\<close>

definition runs_or_default :: "u8 list \<Rightarrow> string \<Rightarrow> run list" where
  "runs_or_default buf k = (case decode_runs buf k of Ok rs \<Rightarrow> rs | _ \<Rightarrow> [])"

definition run_total :: "run list \<Rightarrow> nat" where
  "run_total runs = sum_list (map (\<lambda>r. unat (r_count r)) runs)"

definition sat_add_u32 :: "u32 \<Rightarrow> u32 \<Rightarrow> u32" where
  "sat_add_u32 a b = (if 2 ^ 32 \<le> unat a + unat b then u32_max else a + b)"

definition coalesce_step :: "run list \<Rightarrow> run \<Rightarrow> run list" where
  "coalesce_step out r =
     (if out \<noteq> [] \<and> val_eq (r_value (last out)) (r_value r)
      then butlast out @ [(last out)\<lparr>r_count := sat_add_u32 (r_count (last out)) (r_count r)\<rparr>]
      else out @ [r])"

definition coalesce :: "run list \<Rightarrow> run list" where
  "coalesce runs = foldl coalesce_step [] runs"

definition materialize :: "run list \<Rightarrow> val list" where
  "materialize runs = concat (map (\<lambda>r. replicate (unat (r_count r)) (r_value r)) runs)"

fun drop_first :: "run list \<Rightarrow> nat \<Rightarrow> run list" where
  "drop_first [] remaining = []"
| "drop_first (r # rs) remaining =
     (if remaining = 0 then r # drop_first rs 0
      else let take_n = min remaining (unat (r_count r)) in
        (if take_n < unat (r_count r) then [run_new (r_value r) (r_count r - as_u32 take_n)] else []) @
        drop_first rs (remaining - take_n))"

section \<open>Decoding\<close>

lemma run_width_kind [simp]: "run_width (col_kind_name k) = plain_width k + 4"
  by (cases k) (simp_all add: run_width_def)

lemma run_width_pos: "5 \<le> run_width k"
  by (simp add: run_width_def)

text \<open>A run whose value has the kind's layout: what \<open>encode_runs\<close> can write for the column.\<close>

definition run_of_kind :: "string \<Rightarrow> run \<Rightarrow> bool" where
  "run_of_kind k r \<longleftrightarrow> k \<in> {''bool'', ''int'', ''real'', ''text''} \<and> kind (r_value r) = k"

lemma read_run_bounds:
  assumes "pos + run_width k \<le> length buf"
  shows "\<exists>r. read_run k buf pos = Ok r"
proof -
  have "pos + run_width k - 4 + 4 \<le> length buf" using assms run_width_pos [of k] by simp
  then show ?thesis using assms
    by (auto simp: read_run_def read_u32_eq read_u64_eq index_at_def run_width_def split: if_splits)
qed

text \<open>
  The run codec of a kind, on the runs of that kind with their exact width: the decoding loop of
  \<open>decode_runs\<close> reads back what \<open>encode_runs\<close> wrote.
\<close>

lemma read_run_view:
  assumes r: "run_of_kind k r" and d: "drop pos buf = encode_run r @ post"
  shows "length (encode_run r) = run_width k" and "read_run k buf pos = Ok r"
proof -
  obtain v c where rv: "r = \<lparr>r_value = v, r_count = c\<rparr>" by (cases r)
  show "length (encode_run r) = run_width k"
    using r by (cases v) (auto simp: run_of_kind_def rv encode_run_def run_width_def)
  have tail: "read_u32 buf (pos + n) = (Ok c :: u32 result)"
    if "drop pos buf = xs @ u32_le c @ post" "length xs = n" for xs n
    using drop_advance [OF that(1)] that(2) by (simp add: read_u32_view)
  show "read_run k buf pos = Ok r"
  proof (cases v)
    case (VBool b)
    have d': "drop pos buf = [if b then 1 else 0] @ u32_le c @ post"
      using d by (simp add: rv VBool encode_run_def)
    have "index_at buf pos = (Ok (if b then 1 else 0) :: u8 result)"
      using d' drop_some_less [of pos buf] drop_hd_nth [of pos buf] by (simp add: index_at_def)
    moreover have k: "k = ''bool''" using r VBool by (simp add: rv run_of_kind_def)
    moreover have "read_u32 buf (pos + 1) = (Ok c :: u32 result)" using tail [OF d'] by simp
    ultimately show ?thesis by (simp add: rv VBool read_run_def run_width_def run_new_def)
  next
    case (VInt i)
    have d': "drop pos buf = u64_le i @ u32_le c @ post" using d by (simp add: rv VInt encode_run_def)
    moreover have k: "k = ''int''" using r VInt by (simp add: rv run_of_kind_def)
    ultimately show ?thesis using tail [OF d'] read_u64_view [OF d', where 'a = error]
      by (simp add: rv VInt read_run_def run_width_def run_new_def add.commute)
  next
    case (VReal x)
    have d': "drop pos buf = u64_le (f64_bits x) @ u32_le c @ post" using d by (simp add: rv VReal encode_run_def)
    moreover have k: "k = ''real''" using r VReal by (simp add: rv run_of_kind_def)
    ultimately show ?thesis using tail [OF d'] read_u64_view [OF d', where 'a = error]
      by (simp add: rv VReal read_run_def run_width_def run_new_def add.commute)
  next
    case (VText t)
    have d': "drop pos buf = u32_le t @ u32_le c @ post" using d by (simp add: rv VText encode_run_def)
    moreover have k: "k = ''text''" using r VText by (simp add: rv run_of_kind_def)
    ultimately show ?thesis using tail [OF d'] read_u32_view [OF d', where 'a = error]
      by (simp add: rv VText read_run_def run_width_def run_new_def add.commute)
  qed (use r in \<open>auto simp: rv run_of_kind_def\<close>)
qed

lemma decode_runs_encode:
  assumes "\<forall>r \<in> set runs. run_of_kind k r"
  shows "decode_runs (encode_runs runs) k = Ok runs"
proof -
  have step: "scan_records (run_width k) (read_run k) (\<lambda>rs r. rs @ [r]) Ok (length rs) buf pos acc =
      Ok (acc @ rs, pos + run_width k * length rs)"
    if "drop pos buf = encode_runs rs" "\<forall>r \<in> set rs. run_of_kind k r" for rs buf pos acc
    using that
  proof (induction rs arbitrary: pos acc)
    case (Cons r rs)
    have d: "drop pos buf = encode_run r @ encode_runs rs" using Cons.prems(1) by (simp add: encode_runs_def)
    have w: "length (encode_run r) = run_width k" "read_run k buf pos = Ok r"
      using read_run_view [OF _ d] Cons.prems(2) by simp_all
    have "encode_run r \<noteq> []" using w(1) run_width_pos [of k] by auto
    then have "\<not> length buf < pos + run_width k" using drop_prefix_le [OF d] w(1) by simp
    moreover have "drop (pos + run_width k) buf = encode_runs rs" using drop_advance [OF d] w(1) by simp
    ultimately show ?case using Cons.IH [of "pos + run_width k" "acc @ [r]"] Cons.prems(2) w(2)
      by (simp add: algebra_simps)
  qed simp
  have len: "length (encode_runs runs) = run_width k * length runs"
    using assms read_run_view(1) [of k _ 0 _ "[]"]
    by (induction runs) (auto simp: encode_runs_def)
  have "0 < run_width k" using run_width_pos [of k] by simp
  then show ?thesis
    using step [of 0 "encode_runs runs" runs "[]"] assms by (simp add: decode_runs_def len)
qed

lemma scan_runs_total:
  "\<exists>rs pos'. scan_records (run_width k) (read_run k) (\<lambda>rs r. rs @ [r]) Ok n buf pos acc = Ok (rs, pos')"
proof (induction n arbitrary: pos acc)
  case (Suc n)
  show ?case
  proof (cases "length buf < pos + run_width k")
    case False
    then obtain r where "read_run k buf pos = Ok r" using read_run_bounds by (metis not_less)
    then show ?thesis using Suc.IH [of "pos + run_width k" "acc @ [r]"] False by simp
  qed simp
qed simp

lemma decode_runs_cases:
  "decode_runs buf k = Err (Decode BadEncoding) \<or> (\<exists>rs. decode_runs buf k = Ok rs)"
  using scan_runs_total [of k "length buf div run_width k" buf 0 "[]"] by (auto simp: decode_runs_def)

section \<open>Runs as lists of values\<close>

lemma length_materialize: "length (materialize runs) = run_total runs"
  by (simp add: materialize_def run_total_def length_concat comp_def)

lemma materialize_append: "materialize (xs @ ys) = materialize xs @ materialize ys"
  by (simp add: materialize_def)

lemma run_total_append: "run_total (xs @ ys) = run_total xs + run_total ys"
  by (simp add: run_total_def)

text \<open>
  A value for which the derived equality is identity: all but the two real zeros, which \<open>==\<close>
  identifies, so that coalescing turns the one into the other.
\<close>

fun exact_val :: "val \<Rightarrow> bool" where
  "exact_val (VReal x) = (f64_mag x \<noteq> 0)"
| "exact_val v = True"

lemma val_eq_exact: "exact_val w \<Longrightarrow> val_eq v w \<longleftrightarrow> v = w \<and> (\<forall>x. v = VReal x \<longrightarrow> \<not> f64_is_nan x)"
  by (cases v; cases w) (auto simp: f64_eq_def)

text \<open>Adding a run at the end of a coalesced list appends its values.\<close>

lemma coalesce_step_materialize:
  assumes total: "run_total (out @ [r]) < 2 ^ 32" and exact: "exact_val (r_value r)"
  shows "materialize (coalesce_step out r) = materialize (out @ [r])"
proof (cases "out \<noteq> [] \<and> val_eq (r_value (last out)) (r_value r)")
  case True
  then obtain os o1 where out: "out = os @ [o1]" by (metis append_butlast_last_id)
  have v: "r_value o1 = r_value r"
    using True exact out val_eq_exact by simp
  have s: "unat (r_count o1) + unat (r_count r) < 2 ^ 32"
    using total by (simp add: out run_total_append) (simp add: run_total_def)
  then have "unat (r_count o1 + r_count r) = unat (r_count o1) + unat (r_count r)"
    by (simp add: unat_word_ariths)
  then show ?thesis
    using True s v by (simp add: coalesce_step_def out sat_add_u32_def materialize_def replicate_add [symmetric])
next
  case False
  then show ?thesis by (auto simp: coalesce_step_def)
qed

lemma coalesce_materialize:
  assumes "run_total runs < 2 ^ 32" and "\<forall>r \<in> set runs. exact_val (r_value r)"
  shows "materialize (coalesce runs) = materialize runs"
  using assms
proof (induction runs rule: rev_induct)
  case (snoc r runs)
  have IH: "materialize (coalesce runs) = materialize runs"
    using snoc by (simp add: run_total_append)
  then have "run_total (coalesce runs @ [r]) = run_total (runs @ [r])"
    by (simp add: length_materialize [symmetric] materialize_append)
  then have "run_total (coalesce runs @ [r]) < 2 ^ 32" using snoc.prems(1) by simp
  then have "materialize (coalesce_step (coalesce runs) r) = materialize (coalesce runs @ [r])"
    using snoc.prems(2) by (intro coalesce_step_materialize) auto
  then show ?case using IH by (simp add: coalesce_def materialize_append)
qed (simp add: coalesce_def)

lemma coalesce_values:
  "\<forall>r \<in> set runs. P (r_value r) \<Longrightarrow> r \<in> set (coalesce runs) \<Longrightarrow> P (r_value r)"
proof (induction runs arbitrary: r rule: rev_induct)
  case (snoc x runs)
  have "r \<in> set (coalesce_step (coalesce runs) x)" using snoc.prems(2) by (simp add: coalesce_def)
  then show ?case
    using snoc.IH snoc.prems(1) last_in_set [of "coalesce runs"]
    by (auto simp: coalesce_step_def split: if_splits dest: in_set_butlastD)
qed (simp add: coalesce_def)

lemma coalesce_step_ne [simp]: "coalesce_step out r \<noteq> []"
  by (simp add: coalesce_step_def)

lemma run_of_kind_coalesce:
  "\<forall>r \<in> set runs. run_of_kind k r \<Longrightarrow> r \<in> set (coalesce runs) \<Longrightarrow> run_of_kind k r"
  using coalesce_values [of runs "\<lambda>v. k \<in> {''bool'', ''int'', ''real'', ''text''} \<and> kind v = k" r]
  by (simp add: run_of_kind_def)

lemma drop_first_materialize:
  "materialize (drop_first runs n) = drop n (materialize runs)"
proof (induction runs n rule: drop_first.induct)
  case (2 r rs n)
  show ?case
  proof (cases "n = 0")
    case True
    then show ?thesis using 2 by (simp add: materialize_def)
  next
    case False
    let ?c = "unat (r_count r)" and ?t = "min n (unat (r_count r))"
    have IH: "materialize (drop_first rs (n - ?t)) = drop (n - ?t) (materialize rs)"
      using 2(2) False by (simp add: Let_def)
    have t: "?t < 2 ^ 32" using unat_bounds(2) [of "r_count r"] by (simp add: min_less_iff_disj)
    have "unat (r_count r - as_u32 ?t) = ?c - ?t"
      using t by (simp add: unat_sub_if')
    then show ?thesis
      using False IH by (auto simp: Let_def materialize_def run_new_def min_def not_less)
  qed
qed (simp add: materialize_def)

text \<open>The runs of a column's region have the column's kind, whatever the bytes are.\<close>

lemma read_run_kind:
  "read_run (col_kind_name k) buf pos = Ok r \<Longrightarrow> run_of_kind (col_kind_name k) r"
  by (cases k) (auto simp: read_run_def run_of_kind_def run_new_def res_simps)

lemma scan_runs_all:
  assumes "\<And>pos r. read_run k buf pos = Ok r \<Longrightarrow> P r"
    and "scan_records w (read_run k) (\<lambda>rs r. rs @ [r]) Ok n buf pos acc = Ok (rs, pos')"
    and "\<forall>r \<in> set acc. P r"
  shows "\<forall>r \<in> set rs. P r"
  using assms(2,3)
proof (induction n arbitrary: pos acc)
  case (Suc n)
  show ?case
  proof (cases "length buf < pos + w")
    case False
    then obtain x where x: "read_run k buf pos = Ok x"
        "scan_records w (read_run k) (\<lambda>rs r. rs @ [r]) Ok n buf (pos + w) (acc @ [x]) = Ok (rs, pos')"
      using Suc.prems(1) by (auto simp: res_simps)
    moreover have "\<forall>r \<in> set (acc @ [x]). P r" using Suc.prems(2) assms(1) [OF x(1)] by simp
    ultimately show ?thesis using Suc.IH by blast
  qed (use Suc.prems in simp)
qed simp

lemma runs_or_default_kind:
  assumes "r \<in> set (runs_or_default buf (col_kind_name k))"
  shows "run_of_kind (col_kind_name k) r"
proof -
  let ?k = "col_kind_name k"
  obtain rs where rs: "decode_runs buf ?k = Ok rs" "r \<in> set rs"
    using assms decode_runs_cases [of buf ?k] by (auto simp: runs_or_default_def)
  then obtain pos' where "scan_records (run_width ?k) (read_run ?k) (\<lambda>rs r. rs @ [r]) Ok
      (length buf div run_width ?k) buf 0 [] = Ok (rs, pos')"
    by (auto simp: decode_runs_def rbind_eq_Ok split: if_splits)
  then have "\<forall>r \<in> set rs. run_of_kind ?k r"
    using scan_runs_all [of ?k buf "run_of_kind ?k", OF read_run_kind] by fastforce
  then show ?thesis using rs(2) by blast
qed

text \<open>A flat list of values as the code re-encodes it: runs of one, coalesced.\<close>

definition unit_runs :: "val list \<Rightarrow> run list" where
  "unit_runs vs = map (\<lambda>v. run_new v 1) vs"

lemma unit_runs_facts [simp]:
  "materialize (unit_runs vs) = vs" "run_total (unit_runs vs) = length vs"
  by (induction vs) (simp_all add: unit_runs_def materialize_def run_total_def run_new_def)

definition vals_of_kind :: "col_kind \<Rightarrow> val list \<Rightarrow> bool" where
  "vals_of_kind k vs \<longleftrightarrow> length vs < 2 ^ 32 \<and> (\<forall>v \<in> set vs. kind v = col_kind_name k \<and> exact_val v)"

lemma col_kind_name_mem: "col_kind_name k \<in> {''bool'', ''int'', ''real'', ''text''}"
  by (cases k) simp_all

lemma runs_encode_coalesce:
  assumes "\<forall>r \<in> set rs. kind (r_value r) = col_kind_name k"
  shows "runs_or_default (encode_runs (coalesce rs)) (col_kind_name k) = coalesce rs"
proof -
  have "\<forall>r \<in> set rs. run_of_kind (col_kind_name k) r"
    using assms col_kind_name_mem by (simp only: run_of_kind_def) simp
  then have "\<forall>r \<in> set (coalesce rs). run_of_kind (col_kind_name k) r"
    using run_of_kind_coalesce by blast
  then show ?thesis by (simp add: runs_or_default_def decode_runs_encode)
qed

lemma materialize_unit_runs:
  assumes "vals_of_kind k vs"
  shows "materialize (runs_or_default (encode_runs (coalesce (unit_runs vs))) (col_kind_name k)) = vs"
proof -
  have "\<forall>r \<in> set (unit_runs vs). kind (r_value r) = col_kind_name k \<and> exact_val (r_value r)"
    using assms by (auto simp: vals_of_kind_def unit_runs_def run_new_def)
  then show ?thesis
    using coalesce_materialize [of "unit_runs vs"] assms
    by (simp add: runs_encode_coalesce vals_of_kind_def)
qed

lemma encode_runs_length:
  "\<forall>r \<in> set runs. run_of_kind k r \<Longrightarrow> length (encode_runs runs) = run_width k * length runs"
  using read_run_view(1) [of k _ 0 _ "[]"] by (induction runs) (auto simp: encode_runs_def)

end
