(* ===== verification/Pagers.thy ===== *)
theory Pagers
  imports Errors
begin

text \<open>
  Pages, slot directories and the page buffer manager (\<open>src/src/pager.rs\<close>, without the
  \<open>Database\<close> aggregate). A raw pointer into a page's buffer is an allocation number and an
  offset: every buffer the code boxes gets a fresh number (the ghost fields \<open>pg_alloc\<close> and
  \<open>next_alloc\<close>), so a pointer dangles exactly when no live page owns its number any more.
\<close>

section \<open>Pages\<close>

datatype page_kind = PkSchema | PkData | PkDict | PkIndex | PkFsm | PkRowId | PkZoneMap | PkFree

fun page_kind_as_u8 :: "page_kind \<Rightarrow> u8" where
  "page_kind_as_u8 PkSchema = 0"
| "page_kind_as_u8 PkData = 1"
| "page_kind_as_u8 PkDict = 2"
| "page_kind_as_u8 PkIndex = 3"
| "page_kind_as_u8 PkFsm = 4"
| "page_kind_as_u8 PkRowId = 5"
| "page_kind_as_u8 PkZoneMap = 6"
| "page_kind_as_u8 PkFree = 7"

definition page_kind_from_u8 :: "u8 \<Rightarrow> page_kind option" where
  "page_kind_from_u8 b =
     (if b = 0 then Some PkSchema else if b = 1 then Some PkData else if b = 2 then Some PkDict
      else if b = 3 then Some PkIndex else if b = 4 then Some PkFsm else if b = 5 then Some PkRowId
      else if b = 6 then Some PkZoneMap else if b = 7 then Some PkFree else None)"

record slot_entry =
  slot_row :: u64
  slot_off :: u32
  slot_len :: u32
  slot_live :: bool

definition slot_new :: "u64 \<Rightarrow> u32 \<Rightarrow> u32 \<Rightarrow> slot_entry" where
  "slot_new r off len = \<lparr>slot_row = r, slot_off = off, slot_len = len, slot_live = True\<rparr>"

record page =
  pg_id :: u32
  pg_kind :: page_kind
  pg_gen :: u64
  pg_buf :: "u8 list"
  pg_slots :: "slot_entry list option"
  pg_alloc :: nat

definition page_new :: "u32 \<Rightarrow> page_kind \<Rightarrow> u8 list \<Rightarrow> nat \<Rightarrow> page" where
  "page_new i k buf a = \<lparr>pg_id = i, pg_kind = k, pg_gen = 0, pg_buf = buf, pg_slots = None, pg_alloc = a\<rparr>"

definition slot_count :: "page \<Rightarrow> nat" where
  "slot_count pg = (case pg_slots pg of None \<Rightarrow> 0 | Some d \<Rightarrow> length d)"

definition live_count :: "page \<Rightarrow> nat" where
  "live_count pg = (case pg_slots pg of None \<Rightarrow> 0 | Some d \<Rightarrow> length (filter slot_live d))"

definition slots_of :: "page \<Rightarrow> slot_entry list" where
  "slots_of pg = (case pg_slots pg of None \<Rightarrow> [] | Some d \<Rightarrow> d)"

definition read_u32_at :: "page \<Rightarrow> nat \<Rightarrow> u32 option" where
  "read_u32_at pg off = (if length (pg_buf pg) < off + 4 then None
     else Some (u32_of_le (take 4 (drop off (pg_buf pg)))))"

definition read_u64_at :: "page \<Rightarrow> nat \<Rightarrow> u64 option" where
  "read_u64_at pg off = (if length (pg_buf pg) < off + 8 then None
     else Some (u64_of_le (take 8 (drop off (pg_buf pg)))))"

definition read_u8_at :: "page \<Rightarrow> nat \<Rightarrow> u8 option" where
  "read_u8_at pg off = nth_opt (pg_buf pg) off"

definition slot_at :: "page \<Rightarrow> nat \<Rightarrow> slot_entry option" where
  "slot_at pg i = (case pg_slots pg of None \<Rightarrow> None | Some d \<Rightarrow> nth_opt d i)"

text \<open>The unchecked read: outside the directory it is undefined behaviour.\<close>

definition slot_at_unchecked :: "page \<Rightarrow> nat \<Rightarrow> slot_entry result" where
  "slot_at_unchecked pg i = (case pg_slots pg of None \<Rightarrow> Panic
     | Some d \<Rightarrow> if i < length d then Ok (d ! i) else Undef)"

text \<open>\<open>replace_buf\<close> drops the old allocation: the new buffer carries a new number.\<close>

definition replace_buf :: "nat \<Rightarrow> u8 list \<Rightarrow> page \<Rightarrow> page" where
  "replace_buf a buf pg = pg\<lparr>pg_buf := buf, pg_alloc := a, pg_gen := pg_gen pg + 1\<rparr>"

definition replace_slots :: "slot_entry list \<Rightarrow> page \<Rightarrow> page" where
  "replace_slots slots pg = pg\<lparr>pg_slots := Some slots, pg_gen := pg_gen pg + 1\<rparr>"

section \<open>The pager\<close>

record pager =
  pages :: "page option list"
  free_ids :: "u32 list"
  high_water :: u32
  next_alloc :: nat

definition pager_new :: pager where
  "pager_new = \<lparr>pages = [], free_ids = [], high_water = 0, next_alloc = 0\<rparr>"

definition pager_alloc :: "page_kind \<Rightarrow> u8 list \<Rightarrow> (pager, error, u32) op" where
  "pager_alloc k buf p =
     (if free_ids p \<noteq> [] then
        let i = last (free_ids p); pg = page_new i k buf (next_alloc p) in
        if unat i < length (pages p) then
          (Ok i, p\<lparr>free_ids := butlast (free_ids p), pages := (pages p)[unat i := Some pg],
                   next_alloc := Suc (next_alloc p)\<rparr>)
        else (Panic, p)
      else
        let i = high_water p in
        if i = u32_max then (Panic, p)
        else (Ok i, p\<lparr>high_water := i + 1, pages := pages p @ [Some (page_new i k buf (next_alloc p))],
                      next_alloc := Suc (next_alloc p)\<rparr>))"

definition pager_get :: "pager \<Rightarrow> u32 \<Rightarrow> page option" where
  "pager_get p i = (if unat i < length (pages p) then pages p ! unat i else None)"

text \<open>Writing through \<open>get_mut(id)\<close>, when it finds the page.\<close>

definition pager_modify :: "u32 \<Rightarrow> (page \<Rightarrow> page) \<Rightarrow> pager \<Rightarrow> pager" where
  "pager_modify i f p = (case pager_get p i of None \<Rightarrow> p
     | Some pg \<Rightarrow> p\<lparr>pages := (pages p)[unat i := Some (f pg)]\<rparr>)"

text \<open>The same for a write that puts a newly boxed buffer in the page.\<close>

definition pager_rebuf :: "u32 \<Rightarrow> (nat \<Rightarrow> page \<Rightarrow> page) \<Rightarrow> pager \<Rightarrow> pager" where
  "pager_rebuf i f p = pager_modify i (f (next_alloc p)) (p\<lparr>next_alloc := Suc (next_alloc p)\<rparr>)"

text \<open>\<open>page.buf = buf\<close>\<close>

definition set_buf :: "u8 list \<Rightarrow> nat \<Rightarrow> page \<Rightarrow> page" where
  "set_buf buf a pg = pg\<lparr>pg_buf := buf, pg_alloc := a\<rparr>"

definition pager_free :: "u32 \<Rightarrow> pager \<Rightarrow> pager" where
  "pager_free i p = (case pager_get p i of None \<Rightarrow> p
     | Some _ \<Rightarrow> p\<lparr>pages := (pages p)[unat i := None], free_ids := free_ids p @ [i]\<rparr>)"

definition pager_count :: "pager \<Rightarrow> nat" where
  "pager_count p = length (filter (\<lambda>x. x \<noteq> None) (pages p))"

definition pager_capacity :: "pager \<Rightarrow> nat" where
  "pager_capacity p = length (pages p)"

definition pager_ids :: "pager \<Rightarrow> u32 list" where
  "pager_ids p = map (\<lambda>(i, _). as_u32 i) (filter (\<lambda>(_, x). x \<noteq> None) (enumerate 0 (pages p)))"

definition pager_iter :: "pager \<Rightarrow> page list" where
  "pager_iter p = List.map_filter id (pages p)"

definition data_pages :: "pager \<Rightarrow> page list" where
  "data_pages p = filter (\<lambda>pg. pg_kind pg = PkData) (pager_iter p)"

definition dict_pages :: "pager \<Rightarrow> page list" where
  "dict_pages p = filter (\<lambda>pg. pg_kind pg = PkDict) (pager_iter p)"

text \<open>The memory behind raw pointers: the buffer that still owns an allocation number.\<close>

definition mem_lookup :: "pager \<Rightarrow> nat \<Rightarrow> u8 list option" where
  "mem_lookup p a = map_option pg_buf (find (\<lambda>pg. pg_alloc pg = a) (pager_iter p))"

section \<open>Invariant\<close>

text \<open>The free list holds exactly the vacant ids, once each, and the high-water mark is the next id.\<close>

definition ids_ok :: "pager \<Rightarrow> bool" where
  "ids_ok p \<longleftrightarrow> unat (high_water p) = length (pages p) \<and> distinct (free_ids p) \<and>
     (\<forall>i. i \<in> set (free_ids p) \<longleftrightarrow> unat i < length (pages p) \<and> pages p ! unat i = None)"

text \<open>Every page knows its id and owns an allocation of its own.\<close>

definition own_ok :: "pager \<Rightarrow> bool" where
  "own_ok p \<longleftrightarrow>
     (\<forall>i pg. pager_get p i = Some pg \<longrightarrow> pg_id pg = i \<and> pg_alloc pg < next_alloc p) \<and>
     (\<forall>i j pg pg'. pager_get p i = Some pg \<longrightarrow> pager_get p j = Some pg' \<longrightarrow>
        pg_alloc pg = pg_alloc pg' \<longrightarrow> i = j)"

definition pager_ok :: "pager \<Rightarrow> bool" where
  "pager_ok p \<longleftrightarrow> ids_ok p \<and> own_ok p"

lemma pager_ok_id: "pager_ok p \<Longrightarrow> pager_get p i = Some pg \<Longrightarrow> pg_id pg = i"
  by (simp add: pager_ok_def own_ok_def)

lemma pager_ok_alloc_less: "pager_ok p \<Longrightarrow> pager_get p i = Some pg \<Longrightarrow> pg_alloc pg < next_alloc p"
  by (simp add: pager_ok_def own_ok_def)

lemma pager_ok_alloc_inj:
  "pager_ok p \<Longrightarrow> pager_get p i = Some pg \<Longrightarrow> pager_get p j = Some pg' \<Longrightarrow>
   pg_alloc pg = pg_alloc pg' \<Longrightarrow> i = j"
  unfolding pager_ok_def own_ok_def by blast

lemma pager_ok_length: "pager_ok p \<Longrightarrow> length (pages p) < 4294967296"
  by (metis ids_ok_def pager_ok_def unat_bounds(2))

lemma ids_ok_free: "ids_ok p \<Longrightarrow> i \<in> set (free_ids p) \<Longrightarrow> unat i < length (pages p) \<and> pages p ! unat i = None"
  by (simp add: ids_ok_def)

lemma ids_ok_last: "ids_ok p \<Longrightarrow> free_ids p \<noteq> [] \<Longrightarrow>
    unat (last (free_ids p)) < length (pages p) \<and> pages p ! unat (last (free_ids p)) = None"
  by (rule ids_ok_free) auto

lemma pager_get_less: "pager_get p i = Some pg \<Longrightarrow> unat i < length (pages p)"
  by (simp add: pager_get_def split: if_splits)

lemma pager_ok_new: "pager_ok pager_new"
  by (simp add: pager_ok_def ids_ok_def own_ok_def pager_new_def pager_get_def)

lemma pager_get_modify:
  "pager_get (pager_modify i f p) j = (if i = j then map_option f (pager_get p i) else pager_get p j)"
  by (auto simp: pager_modify_def pager_get_def unat_eq_iff split: option.split)

lemma pager_get_rebuf:
  "pager_get (pager_rebuf i f p) j =
     (if i = j then map_option (f (next_alloc p)) (pager_get p i) else pager_get p j)"
  by (simp add: pager_rebuf_def pager_get_modify) (simp add: pager_get_def)

lemma pager_get_free:
  "pager_get (pager_free i p) j = (if i = j then None else pager_get p j)"
  by (auto simp: pager_free_def pager_get_def unat_eq_iff split: option.split)

text \<open>A live page is never handed out again; every other page is left alone.\<close>

lemma pager_alloc_cases:
  assumes "pager_alloc k buf p = (Ok i, p')"
  obtains fs where "free_ids p = fs @ [i]" "unat i < length (pages p)"
      "p' = p\<lparr>free_ids := fs, pages := (pages p)[unat i := Some (page_new i k buf (next_alloc p))],
              next_alloc := Suc (next_alloc p)\<rparr>"
    | "free_ids p = []" "i = high_water p" "i \<noteq> u32_max"
      "p' = p\<lparr>high_water := i + 1, pages := pages p @ [Some (page_new i k buf (next_alloc p))],
              next_alloc := Suc (next_alloc p)\<rparr>"
proof (cases "free_ids p = []")
  case True
  with assms show thesis by (intro that(2)) (auto simp: pager_alloc_def Let_def split: if_splits)
next
  case False
  with assms append_butlast_last_id [OF False] show thesis
    by (intro that(1) [of "butlast (free_ids p)"]) (auto simp: pager_alloc_def Let_def split: if_splits)
qed

lemma pager_alloc_get:
  assumes ok: "pager_ok p" and r: "pager_alloc k buf p = (Ok i, p')"
  shows "pager_get p i = None"
    and "pager_get p' j = (if j = i then Some (page_new i k buf (next_alloc p)) else pager_get p j)"
proof -
  have ids: "ids_ok p" using ok by (simp add: pager_ok_def)
  then have hw: "unat (high_water p) = length (pages p)" by (simp add: ids_ok_def)
  from r show "pager_get p i = None"
  proof (cases rule: pager_alloc_cases)
    case (1 fs)
    then show ?thesis using ids_ok_free [OF ids, of i] by (simp add: pager_get_def)
  qed (simp add: pager_get_def hw)
  from r show "pager_get p' j = (if j = i then Some (page_new i k buf (next_alloc p)) else pager_get p j)"
  proof (cases rule: pager_alloc_cases)
    case (1 fs)
    then show ?thesis by (simp add: pager_get_def nth_list_update unat_eq_iff)
  next
    case 2
    have "unat j < Suc (length (pages p)) \<longleftrightarrow> unat j < length (pages p) \<or> j = i"
      using hw unat_eq_iff [of j i] 2(2) by auto
    then show ?thesis using hw 2 by (auto simp: pager_get_def nth_append)
  qed
qed

lemma pager_alloc_no_panic:
  assumes "pager_ok p" and "free_ids p \<noteq> [] \<or> length (pages p) < 4294967295"
  shows "\<exists>i p'. pager_alloc k buf p = (Ok i, p')"
proof (cases "free_ids p = []")
  case True
  then have "high_water p \<noteq> u32_max" using assms by (auto simp: pager_ok_def ids_ok_def u32_max_def)
  with True show ?thesis by (simp add: pager_alloc_def Let_def)
next
  case False
  with assms(1) ids_ok_last [of p] show ?thesis by (simp add: pager_alloc_def Let_def pager_ok_def)
qed

lemma ids_ok_alloc:
  assumes ids: "ids_ok p" and r: "pager_alloc k buf p = (Ok i, p')"
  shows "ids_ok p'"
  using r
proof (cases rule: pager_alloc_cases)
  case (1 fs)
  have mem: "j \<in> set (free_ids p) \<longleftrightarrow> unat j < length (pages p) \<and> pages p ! unat j = None" for j
    using ids by (simp add: ids_ok_def)
  have "i \<notin> set fs" using ids by (simp add: ids_ok_def 1(1))
  then have "j \<in> set fs \<longleftrightarrow> unat j < length (pages p) \<and> (pages p)[unat i := Some x] ! unat j = None" for j x
    using mem [of j] 1(1,2) by (cases "j = i") (auto simp: unat_eq_iff nth_list_update)
  moreover have "distinct fs" "unat (high_water p) = length (pages p)"
    using ids by (simp_all add: ids_ok_def 1(1))
  ultimately show ?thesis by (simp add: ids_ok_def 1(3))
next
  case 2
  have none: "\<not> (unat j < length (pages p) \<and> pages p ! unat j = None)" for j :: u32
    using ids 2(1) unfolding ids_ok_def by (metis empty_iff list.set(1))
  have "\<not> (unat j < Suc (length (pages p)) \<and> (pages p @ [Some x]) ! unat j = None)" for j :: u32 and x
    using none [of j] by (cases "unat j < length (pages p)") (auto simp: nth_append)
  moreover have "unat (high_water p + 1) = Suc (length (pages p))"
    using ids 2(2,3) by (simp add: ids_ok_def unat_u32_Suc)
  ultimately show ?thesis using 2 by (simp add: ids_ok_def)
qed

lemma own_ok_put:
  assumes own: "own_ok p"
    and nx: "next_alloc q = Suc (next_alloc p)"
    and get: "\<And>j. pager_get q j = (if j = i then x else pager_get p j)"
    and x: "\<And>pg. x = Some pg \<Longrightarrow> pg_id pg = i \<and> pg_alloc pg = next_alloc p"
  shows "own_ok q"
proof -
  have a: "\<And>j pg. pager_get p j = Some pg \<Longrightarrow> pg_id pg = j \<and> pg_alloc pg < next_alloc p"
    and b: "\<And>j l pg pg'. pager_get p j = Some pg \<Longrightarrow> pager_get p l = Some pg' \<Longrightarrow>
      pg_alloc pg = pg_alloc pg' \<Longrightarrow> j = l"
    using own unfolding own_ok_def by blast+
  have "pg_id pg = j \<and> pg_alloc pg < next_alloc q" if "pager_get q j = Some pg" for j pg
    using that a [of j pg] x [of pg] by (auto simp: get nx split: if_splits)
  moreover have "j = l" if "pager_get q j = Some pg" "pager_get q l = Some pg'"
      "pg_alloc pg = pg_alloc pg'" for j l pg pg'
  proof (cases "j = i"; cases "l = i")
    assume "j \<noteq> i" "l \<noteq> i"
    with that show ?thesis by (auto simp: get intro: b)
  next
    assume "j = i" "l \<noteq> i"
    with that a [of l pg'] x [of pg] show ?thesis by (simp add: get)
  next
    assume "j \<noteq> i" "l = i"
    with that a [of j pg] x [of pg'] show ?thesis by (simp add: get)
  qed simp
  ultimately show ?thesis unfolding own_ok_def by blast
qed

lemma pager_ok_alloc:
  assumes ok: "pager_ok p" and r: "pager_alloc k buf p = (Ok i, p')"
  shows "pager_ok p'"
proof -
  have nx: "next_alloc p' = Suc (next_alloc p)"
    using r by (cases rule: pager_alloc_cases) simp_all
  have "own_ok p'"
    by (rule own_ok_put [OF _ nx pager_alloc_get(2) [OF ok r]])
      (use ok in \<open>auto simp: page_new_def pager_ok_def\<close>)
  then show ?thesis using ids_ok_alloc [OF _ r] ok by (simp add: pager_ok_def)
qed

text \<open>Rewriting a page in place keeps the invariant when its id and its allocation stay.\<close>

lemma ids_ok_update:
  assumes "ids_ok p" and "pager_get p i = Some pg"
  shows "ids_ok (p\<lparr>pages := (pages p)[unat i := Some pg']\<rparr>)"
proof -
  from assms(2) have i: "unat i < length (pages p)" "pages p ! unat i = Some pg"
    by (auto simp: pager_get_def split: if_splits)
  have "((pages p)[unat i := Some pg'] ! unat j = None) = (pages p ! unat j = None)" for j :: u32
    using i by (cases "unat j = unat i") auto
  then show ?thesis using assms(1) by (simp add: ids_ok_def)
qed

lemma pager_ok_modify:
  assumes ok: "pager_ok p" and f: "\<And>pg. pg_id (f pg) = pg_id pg" "\<And>pg. pg_alloc (f pg) = pg_alloc pg"
  shows "pager_ok (pager_modify i f p)"
proof (cases "pager_get p i")
  case (Some pg)
  have nx: "next_alloc (pager_modify i f p) = next_alloc p"
    by (simp add: pager_modify_def split: option.split)
  have "pg_id pg' = j \<and> pg_alloc pg' < next_alloc p"
    if "pager_get (pager_modify i f p) j = Some pg'" for j pg'
    using that pager_ok_id [OF ok] pager_ok_alloc_less [OF ok] Some
    by (auto simp: pager_get_modify f split: if_splits)
  moreover have "j = l" if "pager_get (pager_modify i f p) j = Some x"
      "pager_get (pager_modify i f p) l = Some y" "pg_alloc x = pg_alloc y" for j l x y
    using that pager_ok_alloc_inj [OF ok, of j _ l]
    by (fastforce simp: pager_get_modify f split: if_splits)
  ultimately have "own_ok (pager_modify i f p)" unfolding own_ok_def nx by blast
  moreover have "ids_ok (pager_modify i f p)"
    using ids_ok_update [OF _ Some] ok Some by (simp add: pager_modify_def pager_ok_def)
  ultimately show ?thesis by (simp add: pager_ok_def)
qed (use ok in \<open>simp add: pager_modify_def\<close>)

text \<open>A write that boxes a new buffer: the page moves to an allocation no page ever had.\<close>

lemma pager_ok_rebuf:
  assumes ok: "pager_ok p" and f: "\<And>a pg. pg_id (f a pg) = pg_id pg" "\<And>a pg. pg_alloc (f a pg) = a"
  shows "pager_ok (pager_rebuf i f p)"
proof -
  let ?q = "pager_rebuf i f p" and ?p = "p\<lparr>next_alloc := Suc (next_alloc p)\<rparr>"
  have nx: "next_alloc ?q = Suc (next_alloc p)"
    by (simp add: pager_rebuf_def pager_modify_def split: option.split)
  have get: "pager_get ?q j = (if j = i then map_option (f (next_alloc p)) (pager_get p i) else pager_get p j)" for j
    by (auto simp: pager_get_rebuf)
  have "own_ok ?q"
    by (rule own_ok_put [OF _ nx get]) (use ok pager_ok_id [OF ok] in \<open>auto simp: f pager_ok_def\<close>)
  moreover have "ids_ok ?p" using ok by (simp add: pager_ok_def ids_ok_def)
  then have "ids_ok ?q"
    using ids_ok_update [of ?p i] by (simp add: pager_rebuf_def pager_modify_def split: option.split)
  ultimately show ?thesis by (simp add: pager_ok_def)
qed

lemma pager_ok_free:
  assumes ok: "pager_ok p"
  shows "pager_ok (pager_free i p)"
proof (cases "pager_get p i")
  case (Some pg)
  then have i: "unat i < length (pages p)" "pages p ! unat i = Some pg"
    by (auto simp: pager_get_def split: if_splits)
  let ?q = "pager_free i p"
  have q: "?q = p\<lparr>pages := (pages p)[unat i := None], free_ids := free_ids p @ [i]\<rparr>"
    using Some by (simp add: pager_free_def)
  have ids: "ids_ok p" using ok by (simp add: pager_ok_def)
  then have mem: "j \<in> set (free_ids p) \<longleftrightarrow> unat j < length (pages p) \<and> pages p ! unat j = None" for j
    by (simp add: ids_ok_def)
  have "j \<in> set (free_ids p @ [i]) \<longleftrightarrow>
      unat j < length (pages p) \<and> (pages p)[unat i := None] ! unat j = None" for j
    using mem [of j] i by (cases "j = i") (auto simp: unat_eq_iff nth_list_update)
  moreover have "i \<notin> set (free_ids p)" using mem [of i] i by simp
  ultimately have "ids_ok ?q" using ids by (simp add: ids_ok_def q)
  moreover have "own_ok ?q"
    using ok unfolding pager_ok_def own_ok_def pager_get_free by (auto simp: q split: if_splits)
  ultimately show ?thesis by (simp add: pager_ok_def)
qed (use ok in \<open>simp add: pager_free_def\<close>)

section \<open>Pages and pointers\<close>

lemma pager_iter_mem:
  assumes "pager_ok p"
  shows "pg \<in> set (pager_iter p) \<longleftrightarrow> (\<exists>i. pager_get p i = Some pg)"
proof
  assume "pg \<in> set (pager_iter p)"
  then obtain n where n: "n < length (pages p)" "pages p ! n = Some pg"
    by (auto simp: pager_iter_def List.map_filter_def in_set_conv_nth)
  then have "pager_get p (as_u32 n) = Some pg"
    using pager_ok_length [OF assms] by (simp add: pager_get_def)
  then show "\<exists>i. pager_get p i = Some pg" ..
next
  assume "\<exists>i. pager_get p i = Some pg"
  then obtain i :: u32 where "unat i < length (pages p)" "pages p ! unat i = Some pg"
    by (auto simp: pager_get_def split: if_splits)
  then have "Some pg \<in> set (pages p)" by (metis nth_mem)
  then show "pg \<in> set (pager_iter p)" by (force simp: pager_iter_def List.map_filter_def)
qed

lemma mem_lookup_page:
  assumes ok: "pager_ok p" and g: "pager_get p i = Some pg"
  shows "mem_lookup p (pg_alloc pg) = Some (pg_buf pg)"
proof -
  have "pg \<in> set (pager_iter p)" using g pager_iter_mem [OF ok] by blast
  then obtain pg' where f: "find (\<lambda>x. pg_alloc x = pg_alloc pg) (pager_iter p) = Some pg'"
    by (metis (mono_tags, lifting) find_None_iff not_Some_eq)
  then have "pg' \<in> set (pager_iter p)" "pg_alloc pg' = pg_alloc pg"
    by (auto simp: find_Some_iff)
  then obtain j where "pager_get p j = Some pg'" using pager_iter_mem [OF ok] by blast
  then have "pg' = pg" using pager_ok_alloc_inj [OF ok _ g] g \<open>pg_alloc pg' = pg_alloc pg\<close> by fastforce
  then show ?thesis using f by (simp add: mem_lookup_def)
qed

lemma mem_lookup_None_iff:
  assumes "pager_ok p"
  shows "mem_lookup p a = None \<longleftrightarrow> (\<forall>i pg. pager_get p i = Some pg \<longrightarrow> pg_alloc pg \<noteq> a)"
proof -
  have "mem_lookup p a = None \<longleftrightarrow> (\<forall>pg \<in> set (pager_iter p). pg_alloc pg \<noteq> a)"
    by (auto simp: mem_lookup_def find_None_iff)
  then show ?thesis using pager_iter_mem [OF assms] by metis
qed

end
