(* ===== verification/Bodies.thy ===== *)
theory Bodies
  imports Rles Pagers
begin

text \<open>
  The body of a data page and its slot directory (\<open>src/src/format.rs\<close>): cells, column regions, the
  chunk, and their bytes. \<open>read_cell\<close> takes no dictionary and no pager: the code's parameters of
  these types are unused.
\<close>

record region =
  rg_kind :: col_kind
  rg_encoding :: encoding
  rg_data :: "u8 list"

record body =
  num_rows :: u32
  regions :: "region list"

definition region_new :: "col_kind \<Rightarrow> encoding \<Rightarrow> region" where
  "region_new k e = \<lparr>rg_kind = k, rg_encoding = e, rg_data = []\<rparr>"

fun cell_width :: "col_kind \<Rightarrow> nat" where
  "cell_width KBool = 1"
| "cell_width KInt = 8"
| "cell_width KReal = 8"
| "cell_width KText = 4"

fun encode_cell :: "col_kind \<Rightarrow> val \<Rightarrow> u8 list" where
  "encode_cell KBool (VBool b) = [if b then 1 else 0]"
| "encode_cell KBool VNull = [0]"
| "encode_cell KInt (VInt i) = u64_le i"
| "encode_cell KInt VNull = u64_le 0"
| "encode_cell KReal (VReal r) = u64_le (f64_bits r)"
| "encode_cell KReal (VInt i) = u64_le (f64_bits (f64_of_i64 i))"
| "encode_cell KReal VNull = u64_le 0"
| "encode_cell KText (VText t) = u32_le t"
| "encode_cell KText VNull = u32_le 0"
| "encode_cell k v = replicate (cell_width k) 0"

text \<open>The value in a cell's bytes.\<close>

fun decode_cell :: "col_kind \<Rightarrow> u8 list \<Rightarrow> val" where
  "decode_cell KBool bs = VBool (bs ! 0 \<noteq> 0)"
| "decode_cell KInt bs = VInt (u64_of_le bs)"
| "decode_cell KReal bs = VReal (F64 (u64_of_le bs))"
| "decode_cell KText bs = VText (u32_of_le bs)"

text \<open>The run that covers a slot.\<close>

fun run_at :: "run list \<Rightarrow> nat \<Rightarrow> nat \<Rightarrow> val" where
  "run_at [] i pos = VNull"
| "run_at (r # rs) i pos =
     (if i < pos + unat (r_count r) then r_value r else run_at rs i (pos + unat (r_count r)))"

text \<open>Behind the guard every slice of the source is in range.\<close>

definition read_cell :: "region \<Rightarrow> nat \<Rightarrow> val" where
  "read_cell r i = (case rg_encoding r of
       Rle \<Rightarrow> run_at (runs_or_default (rg_data r) (col_kind_name (rg_kind r))) i 0
     | _ \<Rightarrow> (let w = cell_width (rg_kind r); off = i * w in
         if length (rg_data r) < off + w then VNull
         else decode_cell (rg_kind r) (take w (drop off (rg_data r)))))"

definition encode_region :: "region \<Rightarrow> u8 list" where
  "encode_region r = [col_kind_as_u8 (rg_kind r), encoding_as_u8 (rg_encoding r)] @
     len_le (length (rg_data r)) @ rg_data r"

definition encode_body :: "body \<Rightarrow> u8 list" where
  "encode_body b = u32_le (num_rows b) @ len_le (length (regions b)) @
     concat (map encode_region (regions b))"

text \<open>One turn of the loop of \<open>decode_body\<close>: the region at \<open>pos\<close> and the position behind it.\<close>

definition decode_region :: "u8 list \<Rightarrow> nat \<Rightarrow> (region \<times> nat) result" where
  "decode_region buf pos =
     (if length buf < pos + 6 then Err (Decode Truncated)
      else rbind (ok_or (col_kind_from_u8 (buf ! pos)) (Decode BadSchema)) (\<lambda>k.
        rbind (ok_or (encoding_from_u8 (buf ! (pos + 1))) (Decode BadEncoding)) (\<lambda>e.
        rbind (read_u32 buf (pos + 2)) (\<lambda>data_len. let pos = pos + 6 in
          if length buf < pos + unat data_len then Err (Decode Truncated)
          else rbind (slice buf pos (pos + unat data_len)) (\<lambda>data.
            Ok (\<lparr>rg_kind = k, rg_encoding = e, rg_data = data\<rparr>, pos + unat data_len))))))"

fun decode_regions :: "nat \<Rightarrow> u8 list \<Rightarrow> nat \<Rightarrow> region list result" where
  "decode_regions 0 buf pos = Ok []"
| "decode_regions (Suc n) buf pos =
     rbind (decode_region buf pos) (\<lambda>(r, pos').
       rbind (decode_regions n buf pos') (\<lambda>rs. Ok (r # rs)))"

definition decode_body :: "u8 list \<Rightarrow> body result" where
  "decode_body buf =
     (if length buf < 8 then Err (Decode Truncated)
      else rbind (read_u32 buf 0) (\<lambda>n. rbind (read_u32 buf 4) (\<lambda>cols.
        rbind (decode_regions (unat cols) buf 8) (\<lambda>rs. Ok \<lparr>num_rows = n, regions = rs\<rparr>))))"

definition encode_slot :: "slot_entry \<Rightarrow> u8 list" where
  "encode_slot s = u64_le (slot_row s) @ u32_le (slot_off s) @ u32_le (slot_len s) @
     [if slot_live s then 1 else 0]"

definition encode_slots :: "slot_entry list \<Rightarrow> u8 list" where
  "encode_slots ss = len_le (length ss) @ concat (map encode_slot ss)"

definition read_slot :: "u8 list \<Rightarrow> nat \<Rightarrow> slot_entry result" where
  "read_slot buf pos = rbind (read_u64 buf pos) (\<lambda>r. rbind (read_u32 buf (pos + 8)) (\<lambda>off.
     rbind (read_u32 buf (pos + 12)) (\<lambda>len. rbind (index_at buf (pos + 16)) (\<lambda>b.
       Ok \<lparr>slot_row = r, slot_off = off, slot_len = len, slot_live = b \<noteq> 0\<rparr>))))"

definition decode_slots :: "u8 list \<Rightarrow> slot_entry list result" where
  "decode_slots buf =
     (if length buf < 4 then Err (Decode Truncated)
      else rbind (read_u32 buf 0) (\<lambda>n.
        rbind (scan_records 17 read_slot (\<lambda>ss s. ss @ [s]) (\<lambda>_. Err (Decode Truncated)) (unat n) buf 4 [])
          (\<lambda>(ss, _). Ok ss)))"

section \<open>Round trips\<close>

interpretation slot_rec: record_codec 17 "\<lambda>_. True" encode_slot read_slot
proof
  fix s :: slot_entry and pos buf post
  show "length (encode_slot s) = 17" by (simp add: encode_slot_def)
  assume d: "drop pos buf = encode_slot s @ post"
  have d0: "drop pos buf = u64_le (slot_row s) @ (u32_le (slot_off s) @ u32_le (slot_len s) @
      [if slot_live s then 1 else 0] @ post)"
    using d by (simp add: encode_slot_def)
  have d1: "drop (pos + 8) buf = u32_le (slot_off s) @ (u32_le (slot_len s) @ [if slot_live s then 1 else 0] @ post)"
    using drop_advance [OF d0] by simp
  have d2: "drop (pos + 12) buf = u32_le (slot_len s) @ ([if slot_live s then 1 else 0] @ post)"
    using drop_advance [OF d1] by (simp add: add.assoc)
  have d3: "drop (pos + 16) buf = (if slot_live s then 1 else 0) # post"
    using drop_advance [OF d2] by (simp add: add.assoc)
  have "index_at buf (pos + 16) = (Ok (if slot_live s then 1 else 0) :: u8 result)"
    using drop_some_less [OF d3] drop_hd_nth [OF d3] by (simp add: index_at_def)
  then show "read_slot buf pos = Ok s"
    using read_u64_view [OF d0, where 'a = error] read_u32_view [OF d1, where 'a = error]
      read_u32_view [OF d2, where 'a = error] by (simp add: read_slot_def)
next
  fix pos and buf :: "u8 list"
  assume "pos + 17 \<le> length buf"
  then show "\<exists>s. read_slot buf pos = Ok s"
    by (simp add: read_slot_def read_u64_eq read_u32_eq index_at_def)
qed simp

lemma foldl_snoc: "foldl (\<lambda>xs x. xs @ [x]) ys xs = ys @ xs"
  by (induction xs arbitrary: ys) auto

lemma decode_slots_encode:
  assumes "length ss < 2 ^ 32"
  shows "decode_slots (encode_slots ss @ post) = Ok ss"
proof -
  let ?buf = "encode_slots ss @ post"
  have d0: "drop 0 ?buf = len_le (length ss) @ (concat (map encode_slot ss) @ post)"
    by (simp add: encode_slots_def)
  have d4: "drop 4 ?buf = concat (map encode_slot ss) @ post"
    using drop_advance [OF d0] by simp
  have "\<not> length ?buf < 4" by (simp add: encode_slots_def)
  then show ?thesis
    using slot_rec.scan_table [OF d4, of "\<lambda>ss s. ss @ [s]" "\<lambda>_. Err (Decode Truncated)" "[]"] assms
      read_len_view [OF d0, where 'a = error]
    by (simp add: decode_slots_def foldl_snoc)
qed

lemma decode_slots_no_fault: "decode_slots buf \<notin> {Panic, Undef}"
proof (cases "length buf < 4")
  case False
  then obtain n where n: "read_u32 buf 0 = (Ok n :: u32 result)" by (simp add: read_u32_eq)
  have "scan_records 17 read_slot (\<lambda>ss s. ss @ [s]) (\<lambda>_. Err (Decode Truncated)) (unat n) buf 4 [] \<notin> {Panic, Undef}"
    by (rule slot_rec.scan_short_no_fault) auto
  then show ?thesis using False n
    by (cases "scan_records 17 read_slot (\<lambda>ss s. ss @ [s]) (\<lambda>_. Err (Decode Truncated)) (unat n) buf 4 []")
      (auto simp: decode_slots_def)
qed (simp add: decode_slots_def)

definition region_fits :: "region \<Rightarrow> bool" where
  "region_fits r \<longleftrightarrow> length (rg_data r) < 2 ^ 32"

definition body_fits :: "body \<Rightarrow> bool" where
  "body_fits b \<longleftrightarrow> length (regions b) < 2 ^ 32 \<and> (\<forall>r \<in> set (regions b). region_fits r)"

lemma decode_region_view:
  assumes d: "drop pos buf = encode_region r @ post" and r: "region_fits r"
  shows "decode_region buf pos = Ok (r, pos + length (encode_region r))"
proof -
  let ?n = "length (rg_data r)"
  have d0: "drop pos buf = [col_kind_as_u8 (rg_kind r), encoding_as_u8 (rg_encoding r)] @
      (len_le ?n @ rg_data r @ post)"
    using d by (simp add: encode_region_def)
  have d1: "drop (pos + 2) buf = len_le ?n @ (rg_data r @ post)"
    using drop_advance [OF d0] by simp
  have d2: "drop (pos + 6) buf = rg_data r @ post"
    using drop_advance [OF d1] by (simp add: add.commute)
  have len: "pos + 6 + ?n \<le> length buf"
    using drop_prefix_le [OF d] by (simp add: encode_region_def)
  have tags: "buf ! pos = col_kind_as_u8 (rg_kind r)" "buf ! Suc pos = encoding_as_u8 (rg_encoding r)"
    using d0 nth_drop [of pos buf 0] nth_drop [of pos buf 1] len by simp_all
  have "read_u32 buf (Suc (Suc pos)) = (Ok (as_u32 ?n) :: u32 result)"
    using read_len_view [OF d1, where 'a = error] by simp
  moreover have "slice buf (pos + 6) (pos + 6 + ?n) = (Ok (rg_data r) :: u8 list result)"
    using slice_at [OF d2] len by simp
  ultimately show ?thesis using len r
    by (simp add: decode_region_def tags region_fits_def Let_def encode_region_def add.assoc)
qed

lemma decode_regions_view:
  assumes "drop pos buf = concat (map encode_region rs) @ post" and "\<forall>r \<in> set rs. region_fits r"
  shows "decode_regions (length rs) buf pos = Ok rs"
  using assms
proof (induction rs arbitrary: pos)
  case (Cons r rs)
  from Cons.prems have d: "drop pos buf = encode_region r @ (concat (map encode_region rs) @ post)"
    by simp
  show ?case
    using Cons.IH [OF drop_advance [OF d]] decode_region_view [OF d] Cons.prems by simp
qed simp

lemma decode_body_encode:
  assumes "body_fits b"
  shows "decode_body (encode_body b @ post) = Ok b"
proof -
  let ?buf = "encode_body b @ post"
  have d0: "drop 0 ?buf = u32_le (num_rows b) @ (len_le (length (regions b)) @
      concat (map encode_region (regions b)) @ post)"
    by (simp add: encode_body_def)
  have d1: "drop 4 ?buf = len_le (length (regions b)) @ (concat (map encode_region (regions b)) @ post)"
    using drop_advance [OF d0] by simp
  have d2: "drop 8 ?buf = concat (map encode_region (regions b)) @ post"
    using drop_advance [OF d1] by simp
  have "\<not> length ?buf < 8" by (simp add: encode_body_def)
  then show ?thesis
    using decode_regions_view [OF d2] assms read_u32_view [OF d0, where 'a = error]
      read_len_view [OF d1, where 'a = error]
    by (simp add: decode_body_def body_fits_def)
qed

lemma decode_region_no_fault: "decode_region buf pos \<noteq> Panic" "decode_region buf pos \<noteq> Undef"
  by (auto simp: decode_region_def Let_def res_simps slice_def)

lemma decode_regions_no_fault: "decode_regions n buf pos \<noteq> Panic \<and> decode_regions n buf pos \<noteq> Undef"
  by (induction n arbitrary: pos) (auto simp: res_simps decode_region_no_fault)

lemma decode_body_no_fault: "decode_body buf \<noteq> Panic" "decode_body buf \<noteq> Undef"
  by (auto simp: decode_body_def res_simps decode_regions_no_fault)

lemma encode_body_ne [simp]: "encode_body b \<noteq> []"
  by (simp add: encode_body_def)

end
