(* ===== verification/Regions.thy ===== *)
theory Regions
  imports Bodies
begin

text \<open>
  What the mutation and compaction layers do to one column's region (\<open>append_cell\<close>,
  \<open>rewrite_cell\<close> in \<open>src/src/mutation.rs\<close>; \<open>repack_region\<close>, \<open>truncate_region\<close>, the region step of
  \<open>merge\<close> in \<open>src/src/compact.rs\<close>). \<open>cells\<close> is the abstraction: a region is the list of its values,
  in either encoding, and every operation is the list operation one expects.
\<close>

definition append_cell :: "region \<Rightarrow> val \<Rightarrow> region" where
  "append_cell r v = (case rg_encoding r of
       Rle \<Rightarrow> (let runs = runs_or_default (rg_data r) (col_kind_name (rg_kind r));
                 runs = runs @ [run_new v 1] in
               r\<lparr>rg_data := encode_runs (coalesce runs)\<rparr>)
     | _ \<Rightarrow> r\<lparr>rg_data := rg_data r @ encode_cell (rg_kind r) v\<rparr>)"

text \<open>The region part of \<open>rewrite_cell\<close>.\<close>

definition rewrite_region :: "region \<Rightarrow> nat \<Rightarrow> val \<Rightarrow> region" where
  "rewrite_region r slot v = (case rg_encoding r of
       Rle \<Rightarrow> (let flat = materialize (runs_or_default (rg_data r) (col_kind_name (rg_kind r)));
                 flat = (if slot < length flat then flat[slot := v] else flat) in
               r\<lparr>rg_data := encode_runs (coalesce (unit_runs flat))\<rparr>)
     | _ \<Rightarrow> (let w = cell_width (rg_kind r); off = slot * w in
         if off + w \<le> length (rg_data r)
         then r\<lparr>rg_data := take off (rg_data r) @ encode_cell (rg_kind r) v @ drop (off + w) (rg_data r)\<rparr>
         else r))"

definition nth_or_null :: "val list \<Rightarrow> nat \<Rightarrow> val" where
  "nth_or_null vs i = (case nth_opt vs i of None \<Rightarrow> VNull | Some v \<Rightarrow> v)"

definition repack_region :: "region \<Rightarrow> nat list \<Rightarrow> region" where
  "repack_region r live = (let new_region = region_new (rg_kind r) (rg_encoding r) in
     case rg_encoding r of
       Rle \<Rightarrow> (let flat = materialize (runs_or_default (rg_data r) (col_kind_name (rg_kind r)));
                 kept = map (nth_or_null flat) live in
               new_region\<lparr>rg_data := encode_runs (coalesce (unit_runs kept))\<rparr>)
     | _ \<Rightarrow> (let w = max (cell_width (rg_kind r)) 1 in
         new_region\<lparr>rg_data := concat (map (\<lambda>i. if i * w + w \<le> length (rg_data r)
            then take w (drop (i * w) (rg_data r)) else encode_cell (rg_kind r) VNull) live)\<rparr>))"

text \<open>
  \<open>truncate_region\<close> as \<open>split\<close> calls it, and the region step of \<open>merge\<close>: the source's cells are
  appended to the destination's. The run-length case of \<open>truncate_region\<close> overwrites instead.
\<close>

definition truncate_region :: "region \<Rightarrow> region \<Rightarrow> nat list \<Rightarrow> region" where
  "truncate_region dest src is = (case rg_encoding src of
       Rle \<Rightarrow> (let flat = materialize (runs_or_default (rg_data src) (col_kind_name (rg_kind src)));
                 kept = map (nth_or_null flat) is in
               dest\<lparr>rg_data := encode_runs (coalesce (unit_runs kept))\<rparr>)
     | _ \<Rightarrow> (let w = max (cell_width (rg_kind src)) 1 in
         dest\<lparr>rg_data := rg_data dest @ concat (map (\<lambda>i. if i * w + w \<le> length (rg_data src)
            then take w (drop (i * w) (rg_data src)) else []) is)\<rparr>))"

definition merge_region :: "region \<Rightarrow> region \<Rightarrow> nat list \<Rightarrow> region" where
  "merge_region dest src is = (case rg_encoding src of
       Rle \<Rightarrow> (let flat = materialize (runs_or_default (rg_data src) (col_kind_name (rg_kind src)));
                 existing = materialize (runs_or_default (rg_data dest) (col_kind_name (rg_kind src)));
                 existing = existing @ map (nth_or_null flat) is in
               dest\<lparr>rg_data := encode_runs (coalesce (unit_runs existing))\<rparr>)
     | _ \<Rightarrow> (let w = max (cell_width (rg_kind src)) 1 in
         dest\<lparr>rg_data := rg_data dest @ concat (map (\<lambda>i. if i * w + w \<le> length (rg_data src)
            then take w (drop (i * w) (rg_data src)) else []) is)\<rparr>))"

definition clone_region :: "region \<Rightarrow> region" where
  "clone_region r = \<lparr>rg_kind = rg_kind r, rg_encoding = rg_encoding r, rg_data = []\<rparr>"

section \<open>A region as a list of values\<close>

definition cell_at :: "nat \<Rightarrow> u8 list \<Rightarrow> nat \<Rightarrow> u8 list" where
  "cell_at w xs i = take w (drop (i * w) xs)"

definition plain_cells :: "col_kind \<Rightarrow> u8 list \<Rightarrow> val list" where
  "plain_cells k xs = map (\<lambda>i. decode_cell k (cell_at (cell_width k) xs i)) [0..<length xs div cell_width k]"

definition cells :: "region \<Rightarrow> val list" where
  "cells r = (if rg_encoding r = Rle
     then materialize (runs_or_default (rg_data r) (col_kind_name (rg_kind r)))
     else plain_cells (rg_kind r) (rg_data r))"

text \<open>What a region can take so that it keeps its values, and what it then holds.\<close>

definition storable :: "region \<Rightarrow> val \<Rightarrow> bool" where
  "storable r v \<longleftrightarrow> rg_encoding r = Rle \<longrightarrow> kind v = col_kind_name (rg_kind r) \<and> exact_val v"

definition stored :: "region \<Rightarrow> val \<Rightarrow> val" where
  "stored r v = (if rg_encoding r = Rle then v else decode_cell (rg_kind r) (encode_cell (rg_kind r) v))"

definition region_runs :: "region \<Rightarrow> run list" where
  "region_runs r = runs_or_default (rg_data r) (col_kind_name (rg_kind r))"

definition region_ok :: "region \<Rightarrow> bool" where
  "region_ok r \<longleftrightarrow> (if rg_encoding r = Rle
     then run_total (region_runs r) < 2 ^ 32 \<and> (\<forall>x \<in> set (region_runs r). exact_val (r_value x))
     else cell_width (rg_kind r) dvd length (rg_data r))"

lemma cell_width_pos [simp]: "0 < cell_width k" "cell_width k \<noteq> 0" "Suc 0 \<le> cell_width k"
  by (cases k; simp)+

lemma max_width [simp]: "max (cell_width k) (Suc 0) = cell_width k"
  by (cases k) simp_all

lemma encode_cell_length [simp]: "length (encode_cell k v) = cell_width k"
  by (cases k; cases v) simp_all

lemma length_plain_cells [simp]: "length (plain_cells k xs) = length xs div cell_width k"
  by (simp add: plain_cells_def)

lemma run_at_nth: "pos \<le> i \<Longrightarrow> run_at rs i pos = nth_or_null (materialize rs) (i - pos)"
proof (induction rs arbitrary: pos)
  case (Cons r rs)
  let ?c = "unat (r_count r)"
  show ?case
  proof (cases "i < pos + ?c")
    case True
    then show ?thesis using Cons.prems by (auto simp: nth_or_null_def nth_opt_def materialize_def nth_append)
  next
    case False
    then have "run_at (r # rs) i pos = nth_or_null (materialize rs) (i - (pos + ?c))"
      using Cons.IH [of "pos + ?c"] by simp
    moreover have "nth_or_null (materialize (r # rs)) (i - pos) = nth_or_null (materialize rs) (i - (pos + ?c))"
      using False by (auto simp: nth_or_null_def nth_opt_def materialize_def nth_append)
    ultimately show ?thesis by simp
  qed
qed (simp add: nth_or_null_def nth_opt_def materialize_def)

text \<open>Reading a cell is indexing the list, with a null outside of it.\<close>

lemma plain_index: "i * w + w \<le> n \<longleftrightarrow> i < n div (w :: nat)" if "0 < w"
  using that less_eq_div_iff_mult_less_eq [of w "Suc i" n] by (simp add: add.commute Suc_le_eq)

lemma read_cell_cells: "read_cell r i = nth_or_null (cells r) i"
proof (cases "rg_encoding r")
  case Rle
  then show ?thesis using run_at_nth [of 0 i] by (simp add: read_cell_def cells_def)
qed (use plain_index [of "cell_width (rg_kind r)" i "length (rg_data r)"] in
    \<open>auto simp: read_cell_def cells_def plain_cells_def nth_or_null_def nth_opt_def Let_def cell_at_def not_less not_le\<close>)

lemma plain_cells_append:
  assumes "cell_width k dvd length xs"
  shows "plain_cells k (xs @ ys) = plain_cells k xs @ plain_cells k ys"
proof -
  let ?w = "cell_width k"
  obtain n where n: "length xs = ?w * n" using assms by blast
  have "cell_at ?w (xs @ ys) i = cell_at ?w xs i" if "i < n" for i
  proof -
    have "i * ?w + ?w \<le> length xs" using that n mult_le_mono1 [of "Suc i" n ?w] by (simp add: algebra_simps)
    then show ?thesis by (simp add: cell_at_def)
  qed
  then have l: "map (\<lambda>i. decode_cell k (cell_at ?w (xs @ ys) i)) [0..<n] = plain_cells k xs"
    by (simp add: plain_cells_def n)
  have "cell_at ?w (xs @ ys) (i + n) = cell_at ?w ys i" for i
    by (simp add: cell_at_def n algebra_simps)
  then have r: "map (\<lambda>i. decode_cell k (cell_at ?w (xs @ ys) i)) (map (\<lambda>i. i + n) [0..<m]) =
      map (\<lambda>i. decode_cell k (cell_at ?w ys i)) [0..<m]" for m
    by simp
  have "length (xs @ ys) div ?w = n + length ys div ?w" by (simp add: n)
  moreover have "[0..<n + m] = [0..<n] @ map (\<lambda>i. i + n) [0..<m]" for m
    using upt_add_eq_append [of 0 n m] map_add_upt [of n m] by (simp only: le0 add.commute [of m n] simp_thms)
  ultimately show ?thesis
    using l r [of "length ys div ?w"] by (simp only: plain_cells_def map_append)
qed

lemma plain_cells_single: "length c = cell_width k \<Longrightarrow> plain_cells k c = [decode_cell k c]"
  by (simp add: plain_cells_def cell_at_def)

lemma plain_cells_concat:
  "\<forall>c \<in> set cs. length c = cell_width k \<Longrightarrow> plain_cells k (concat cs) = map (decode_cell k) cs"
  by (induction cs) (auto simp: plain_cells_append plain_cells_single, simp add: plain_cells_def)

lemma length_concat_cells:
  "\<forall>c \<in> set cs. length c = w \<Longrightarrow> length (concat cs) = w * length cs"
  by (induction cs) auto

lemma region_ok_Rle:
  assumes "region_ok r" and "rg_encoding r = Rle"
  shows "vals_of_kind (rg_kind r) (cells r)"
proof -
  have c: "cells r = materialize (region_runs r)" using assms(2) by (simp add: cells_def region_runs_def)
  have "length (cells r) < 2 ^ 32" using assms by (simp add: c length_materialize region_ok_def)
  moreover have "kind v = col_kind_name (rg_kind r) \<and> exact_val v" if v: "v \<in> set (cells r)" for v
  proof -
    obtain x where "x \<in> set (region_runs r)" "v = r_value x"
      using v by (auto simp: c materialize_def)
    then show ?thesis using runs_or_default_kind [of x "rg_data r" "rg_kind r"] assms
      by (auto simp: region_ok_def region_runs_def run_of_kind_def)
  qed
  ultimately show ?thesis by (simp add: vals_of_kind_def)
qed

text \<open>Re-encoding a list of storable values yields a region of these values.\<close>

lemma rle_rebuild_runs:
  assumes e: "rg_encoding r = Rle" and total: "run_total rs < 2 ^ 32"
    and vals: "\<forall>x \<in> set rs. kind (r_value x) = col_kind_name (rg_kind r) \<and> exact_val (r_value x)"
  shows "region_ok (r\<lparr>rg_data := encode_runs (coalesce rs)\<rparr>)"
    and "cells (r\<lparr>rg_data := encode_runs (coalesce rs)\<rparr>) = materialize rs"
proof -
  have runs: "runs_or_default (encode_runs (coalesce rs)) (col_kind_name (rg_kind r)) = coalesce rs"
    using vals by (intro runs_encode_coalesce) simp
  have mat: "materialize (coalesce rs) = materialize rs"
    using total vals by (intro coalesce_materialize) simp_all
  have "run_total (coalesce rs) < 2 ^ 32"
    using mat total by (simp add: length_materialize [symmetric])
  moreover have "\<forall>x \<in> set (coalesce rs). exact_val (r_value x)"
    using coalesce_values [of rs exact_val] vals by blast
  ultimately show "region_ok (r\<lparr>rg_data := encode_runs (coalesce rs)\<rparr>)"
    using e by (simp add: region_ok_def region_runs_def runs)
  show "cells (r\<lparr>rg_data := encode_runs (coalesce rs)\<rparr>) = materialize rs"
    using e by (simp add: cells_def runs mat)
qed

lemma rle_rebuild:
  assumes "rg_encoding r = Rle" and "vals_of_kind (rg_kind r) vs"
  shows "region_ok (r\<lparr>rg_data := encode_runs (coalesce (unit_runs vs))\<rparr>)"
    and "cells (r\<lparr>rg_data := encode_runs (coalesce (unit_runs vs))\<rparr>) = vs"
  using rle_rebuild_runs [OF assms(1), of "unit_runs vs"] assms(2)
  by (auto simp: vals_of_kind_def) (auto simp: unit_runs_def run_new_def)

lemma vals_of_kind_map_nth:
  "vals_of_kind k vs \<Longrightarrow> \<forall>i \<in> set is. i < length vs \<Longrightarrow> length is < 2 ^ 32 \<Longrightarrow>
   vals_of_kind k (map (nth_or_null vs) is)"
  by (auto simp: vals_of_kind_def nth_or_null_def nth_opt_def)

lemma map_nth_or_null: "\<forall>i \<in> set is. i < length vs \<Longrightarrow> map (nth_or_null vs) is = map ((!) vs) is"
  by (auto simp: nth_or_null_def nth_opt_def)

section \<open>The operations\<close>

lemma append_cell_cells:
  assumes ok: "region_ok r" and st: "storable r v" and len: "Suc (length (cells r)) < 2 ^ 32"
  shows "region_ok (append_cell r v) \<and> cells (append_cell r v) = cells r @ [stored r v]"
proof (cases "rg_encoding r = Rle")
  case True
  let ?rs = "region_runs r @ [run_new v 1]"
  have a: "append_cell r v = r\<lparr>rg_data := encode_runs (coalesce ?rs)\<rparr>"
    by (simp add: append_cell_def True region_runs_def)
  have m: "cells r = materialize (region_runs r)" by (simp add: cells_def True region_runs_def)
  have "run_total ?rs < 2 ^ 32"
    using len by (simp add: m run_total_append length_materialize) (simp add: run_total_def run_new_def)
  moreover have "\<forall>x \<in> set ?rs. kind (r_value x) = col_kind_name (rg_kind r) \<and> exact_val (r_value x)"
    using ok st True runs_or_default_kind [of _ "rg_data r" "rg_kind r"]
    by (auto simp: region_ok_def storable_def run_new_def region_runs_def run_of_kind_def)
  moreover have "materialize ?rs = cells r @ [v]"
    by (simp add: m materialize_append) (simp add: materialize_def run_new_def)
  ultimately show ?thesis
    using rle_rebuild_runs [OF True, of ?rs] by (simp add: a stored_def True)
next
  case False
  then have a: "append_cell r v = r\<lparr>rg_data := rg_data r @ encode_cell (rg_kind r) v\<rparr>"
    by (cases "rg_encoding r") (simp_all add: append_cell_def)
  have "cell_width (rg_kind r) dvd length (rg_data r)" using ok False by (simp add: region_ok_def)
  then show ?thesis using False
    by (simp add: a cells_def region_ok_def plain_cells_append plain_cells_single stored_def)
qed

lemma rewrite_region_cells:
  assumes ok: "region_ok r" and st: "storable r v"
  shows "region_ok (rewrite_region r i v) \<and> cells (rewrite_region r i v) = (cells r)[i := stored r v]"
proof (cases "rg_encoding r = Rle")
  case True
  have v: "vals_of_kind (rg_kind r) (cells r)" using ok True by (rule region_ok_Rle)
  have "vals_of_kind (rg_kind r) ((cells r)[i := v])"
    using v st True set_update_subset_insert [of "cells r" i v] by (auto simp: vals_of_kind_def storable_def)
  moreover have "rewrite_region r i v = r\<lparr>rg_data := encode_runs (coalesce (unit_runs ((cells r)[i := v])))\<rparr>"
    by (simp add: rewrite_region_def True cells_def Let_def list_update_beyond)
  ultimately show ?thesis using rle_rebuild [OF True, of "(cells r)[i := v]"] True by (simp add: stored_def)
next
  case False
  let ?w = "cell_width (rg_kind r)" and ?n = "length (cells r)" and ?xs = "rg_data r"
  have w: "?w dvd length ?xs" using ok False by (simp add: region_ok_def)
  have n: "?n = length ?xs div ?w" using False by (simp add: cells_def)
  have def: "rewrite_region r i v = (if i * ?w + ?w \<le> length ?xs
     then r\<lparr>rg_data := take (i * ?w) ?xs @ encode_cell (rg_kind r) v @ drop (i * ?w + ?w) ?xs\<rparr> else r)"
    using False by (cases "rg_encoding r") (simp_all add: rewrite_region_def Let_def)
  show ?thesis
  proof (cases "i < ?n")
    case True
    then have le: "i * ?w + ?w \<le> length ?xs" using plain_index [of ?w i "length ?xs"] n by simp
    have split: "?xs = take (i * ?w) ?xs @ cell_at ?w ?xs i @ drop (i * ?w + ?w) ?xs"
      by (metis add.commute append_take_drop_id cell_at_def drop_drop)
    have tk: "length (take (i * ?w) ?xs) = i * ?w" using le by simp
    then have dv: "?w dvd length (take (i * ?w) ?xs)" by (simp only: dvd_triv_right)
    have c: "length (cell_at ?w ?xs i) = ?w" using le by (simp add: cell_at_def)
    have pre: "length (plain_cells (rg_kind r) (take (i * ?w) ?xs)) = i" using tk by simp
    have "cells r = plain_cells (rg_kind r) (take (i * ?w) ?xs @ cell_at ?w ?xs i @ drop (i * ?w + ?w) ?xs)"
      using False split by (simp add: cells_def)
    then have "cells r = plain_cells (rg_kind r) (take (i * ?w) ?xs) @
        [decode_cell (rg_kind r) (cell_at ?w ?xs i)] @ plain_cells (rg_kind r) (drop (i * ?w + ?w) ?xs)"
      using dv c by (simp add: plain_cells_append plain_cells_single)
    moreover have "cells (rewrite_region r i v) = plain_cells (rg_kind r) (take (i * ?w) ?xs) @
        [stored r v] @ plain_cells (rg_kind r) (drop (i * ?w + ?w) ?xs)"
      using False le dv by (simp add: def cells_def plain_cells_append plain_cells_single stored_def)
    ultimately have "cells (rewrite_region r i v) = (cells r)[i := stored r v]"
      using pre by (simp add: list_update_append)
    moreover have "region_ok (rewrite_region r i v)"
      using False le w by (simp add: def region_ok_def)
    ultimately show ?thesis by simp
  next
    case out: False
    then have "\<not> i * ?w + ?w \<le> length ?xs" using plain_index [of ?w i "length ?xs"] n by simp
    then show ?thesis using out ok by (simp add: def list_update_beyond)
  qed
qed

text \<open>The bytes of the selected cells, in a plain region.\<close>

lemma plain_select:
  assumes "\<forall>i \<in> set is. i < length (plain_cells k xs)"
  shows "plain_cells k (concat (map (\<lambda>i. if i * cell_width k + cell_width k \<le> length xs
      then cell_at (cell_width k) xs i else c) is)) = map ((!) (plain_cells k xs)) is"
    and "length (concat (map (\<lambda>i. if i * cell_width k + cell_width k \<le> length xs
      then cell_at (cell_width k) xs i else c) is)) = cell_width k * length is"
proof -
  let ?f = "\<lambda>i. if i * cell_width k + cell_width k \<le> length xs then cell_at (cell_width k) xs i else c"
  have le: "i * cell_width k + cell_width k \<le> length xs" if "i \<in> set is" for i
    using assms that plain_index [of "cell_width k" i "length xs"] by simp
  then have len: "\<forall>b \<in> set (map ?f is). length b = cell_width k"
    by (auto simp: cell_at_def dest!: le)
  show "plain_cells k (concat (map ?f is)) = map ((!) (plain_cells k xs)) is"
    using plain_cells_concat [OF len] le assms by (simp add: plain_cells_def)
  show "length (concat (map ?f is)) = cell_width k * length is"
    using length_concat_cells [OF len] by simp
qed

lemma repack_region_cells:
  assumes ok: "region_ok r" and i: "\<forall>i \<in> set is. i < length (cells r)" and n: "length is < 2 ^ 32"
  shows "region_ok (repack_region r is) \<and> cells (repack_region r is) = map ((!) (cells r)) is"
proof (cases "rg_encoding r = Rle")
  case True
  let ?r = "region_new (rg_kind r) (rg_encoding r)"
  have "repack_region r is = ?r\<lparr>rg_data := encode_runs (coalesce (unit_runs (map (nth_or_null (cells r)) is)))\<rparr>"
    by (simp add: repack_region_def True cells_def Let_def)
  moreover have "vals_of_kind (rg_kind ?r) (map (nth_or_null (cells r)) is)"
    using region_ok_Rle [OF ok True] i n by (simp add: vals_of_kind_map_nth region_new_def)
  ultimately show ?thesis
    using rle_rebuild [of ?r] True map_nth_or_null [OF i] by (simp add: region_new_def)
next
  case False
  have "\<forall>i \<in> set is. i < length (plain_cells (rg_kind r) (rg_data r))" using i False by (simp add: cells_def)
  then show ?thesis
    using False plain_select [unfolded cell_at_def, of "is" "rg_kind r" "rg_data r" "encode_cell (rg_kind r) VNull"]
    by (cases "rg_encoding r")
      (simp_all add: repack_region_def region_ok_def cells_def region_new_def Let_def)
qed

lemma truncate_region_cells:
  assumes ok: "region_ok r" and d: "rg_kind d = rg_kind r" "rg_encoding d = rg_encoding r" "rg_data d = []"
    and i: "\<forall>i \<in> set is. i < length (cells r)" and n: "length is < 2 ^ 32"
  shows "region_ok (truncate_region d r is) \<and> cells (truncate_region d r is) = map ((!) (cells r)) is"
proof (cases "rg_encoding r = Rle")
  case True
  have "truncate_region d r is = d\<lparr>rg_data := encode_runs (coalesce (unit_runs (map (nth_or_null (cells r)) is)))\<rparr>"
    by (simp add: truncate_region_def True cells_def Let_def)
  moreover have "vals_of_kind (rg_kind d) (map (nth_or_null (cells r)) is)"
    using region_ok_Rle [OF ok True] i n d by (simp add: vals_of_kind_map_nth)
  ultimately show ?thesis
    using rle_rebuild [of d] True map_nth_or_null [OF i] d by simp
next
  case False
  have "\<forall>i \<in> set is. i < length (plain_cells (rg_kind r) (rg_data r))" using i False by (simp add: cells_def)
  then show ?thesis
    using False d plain_select [unfolded cell_at_def, of "is" "rg_kind r" "rg_data r" "[]"]
    by (cases "rg_encoding r")
      (simp_all add: truncate_region_def region_ok_def cells_def Let_def)
qed

lemma merge_region_cells:
  assumes ok: "region_ok r" "region_ok d" and d: "rg_kind d = rg_kind r" "rg_encoding d = rg_encoding r"
    and i: "\<forall>i \<in> set is. i < length (cells r)" and n: "length (cells d) + length is < 2 ^ 32"
  shows "region_ok (merge_region d r is) \<and> cells (merge_region d r is) = cells d @ map ((!) (cells r)) is"
proof (cases "rg_encoding r = Rle")
  case True
  have dr: "rg_encoding d = Rle" using True d by simp
  let ?vs = "cells d @ map (nth_or_null (cells r)) is"
  have "merge_region d r is = d\<lparr>rg_data := encode_runs (coalesce (unit_runs ?vs))\<rparr>"
    using d by (simp add: merge_region_def True cells_def Let_def)
  moreover have "vals_of_kind (rg_kind d) ?vs"
    using region_ok_Rle [OF ok(2) dr] vals_of_kind_map_nth [OF region_ok_Rle [OF ok(1) True] i] n d
    by (auto simp: vals_of_kind_def)
  ultimately show ?thesis
    using rle_rebuild [OF dr, of ?vs] map_nth_or_null [OF i] by simp
next
  case False
  have "\<forall>i \<in> set is. i < length (plain_cells (rg_kind r) (rg_data r))" using i False by (simp add: cells_def)
  moreover have "cell_width (rg_kind r) dvd length (rg_data d)" using ok(2) False d by (simp add: region_ok_def)
  ultimately show ?thesis
    using False d plain_select [unfolded cell_at_def, of "is" "rg_kind r" "rg_data r" "[]"]
    by (cases "rg_encoding r")
      (simp_all add: merge_region_def region_ok_def cells_def Let_def plain_cells_append)
qed

lemma region_ops_shape [simp]:
  "rg_kind (append_cell r v) = rg_kind r" "rg_encoding (append_cell r v) = rg_encoding r"
  "rg_kind (rewrite_region r i v) = rg_kind r" "rg_encoding (rewrite_region r i v) = rg_encoding r"
  "rg_kind (repack_region r is) = rg_kind r" "rg_encoding (repack_region r is) = rg_encoding r"
  "rg_kind (truncate_region d r is) = rg_kind d" "rg_encoding (truncate_region d r is) = rg_encoding d"
  "rg_kind (merge_region d r is) = rg_kind d" "rg_encoding (merge_region d r is) = rg_encoding d"
  by (auto simp: append_cell_def rewrite_region_def repack_region_def truncate_region_def merge_region_def
      region_new_def Let_def split: encoding.split)

section \<open>The contract\<close>

text \<open>
  What the page operations rely on: a column store holds a list of values, and its operations are
  the list operations. The client facts are about reads after a sequence of operations.
\<close>

locale column_store =
  fixes ok :: "'r \<Rightarrow> bool"
    and vals :: "'r \<Rightarrow> val list"
    and takes :: "'r \<Rightarrow> val \<Rightarrow> bool"
    and holds :: "'r \<Rightarrow> val \<Rightarrow> val"
    and append :: "'r \<Rightarrow> val \<Rightarrow> 'r"
    and rewrite :: "'r \<Rightarrow> nat \<Rightarrow> val \<Rightarrow> 'r"
    and select :: "'r \<Rightarrow> nat list \<Rightarrow> 'r"
    and read :: "'r \<Rightarrow> nat \<Rightarrow> val"
    and room :: nat
  assumes read_vals: "read r i = nth_or_null (vals r) i"
    and append_ok: "ok r \<Longrightarrow> takes r v \<Longrightarrow> Suc (length (vals r)) < room \<Longrightarrow>
        ok (append r v) \<and> vals (append r v) = vals r @ [holds r v]"
    and append_takes: "takes (append r v) w = takes r w" and append_holds: "holds (append r v) w = holds r w"
    and rewrite_ok: "ok r \<Longrightarrow> takes r v \<Longrightarrow>
        ok (rewrite r i v) \<and> vals (rewrite r i v) = (vals r)[i := holds r v]"
    and select_ok: "ok r \<Longrightarrow> \<forall>i \<in> set is. i < length (vals r) \<Longrightarrow> length is < room \<Longrightarrow>
        ok (select r is) \<and> vals (select r is) = map ((!) (vals r)) is"
begin

lemma read_append:
  assumes "ok r" and "takes r v" and "Suc (length (vals r)) < room"
  shows "read (append r v) i = (if i = length (vals r) then holds r v else read r i)"
  using append_ok [OF assms] by (auto simp: read_vals nth_or_null_def nth_opt_def nth_append)

lemma read_rewrite:
  assumes "ok r" and "takes r v"
  shows "read (rewrite r i v) j = (if i = j \<and> i < length (vals r) then holds r v else read r j)"
  using rewrite_ok [OF assms, of i] by (auto simp: read_vals nth_or_null_def nth_opt_def)

lemma read_select:
  assumes "ok r" and "\<forall>i \<in> set is. i < length (vals r)" and "length is < room" and "j < length is"
  shows "read (select r is) j = read r (is ! j)"
  using select_ok [OF assms(1-3)] assms(2,4) by (auto simp: read_vals nth_or_null_def nth_opt_def)

text \<open>A column filled value by value reads back what was stored, in order.\<close>

lemma append_all:
  assumes "ok r" and "\<forall>v \<in> set vs. takes r v" and "length (vals r) + length vs < room"
  shows "ok (foldl append r vs) \<and> vals (foldl append r vs) = vals r @ map (holds r) vs"
  using assms
proof (induction vs arbitrary: r)
  case (Cons v vs)
  have a: "ok (append r v)" "vals (append r v) = vals r @ [holds r v]"
    using append_ok [of r v] Cons.prems by auto
  have "holds (append r v) = holds r" by (rule ext) (rule append_holds)
  then show ?case using Cons.IH [of "append r v"] Cons.prems a by (simp add: append_takes)
qed simp

end

interpretation region: column_store region_ok cells storable stored append_cell rewrite_region repack_region
    read_cell "2 ^ 32"
proof
  fix r v w i "is"
  show "read_cell r i = nth_or_null (cells r) i" by (rule read_cell_cells)
  show "region_ok r \<Longrightarrow> storable r v \<Longrightarrow> Suc (length (cells r)) < 2 ^ 32 \<Longrightarrow>
      region_ok (append_cell r v) \<and> cells (append_cell r v) = cells r @ [stored r v]"
    by (rule append_cell_cells)
  show "storable (append_cell r v) w = storable r w" "stored (append_cell r v) w = stored r w"
    by (simp_all add: storable_def stored_def)
  show "region_ok r \<Longrightarrow> storable r v \<Longrightarrow>
      region_ok (rewrite_region r i v) \<and> cells (rewrite_region r i v) = (cells r)[i := stored r v]"
    by (rule rewrite_region_cells)
  show "region_ok r \<Longrightarrow> \<forall>i \<in> set is. i < length (cells r) \<Longrightarrow> length is < 2 ^ 32 \<Longrightarrow>
      region_ok (repack_region r is) \<and> cells (repack_region r is) = map ((!) (cells r)) is"
    by (rule repack_region_cells)
qed

section \<open>A null in a run-length region\<close>

text \<open>
  \<open>encode_runs\<close> writes a null with the width of an integer. In a region of Booleans or texts, whose runs
  are shorter, the bytes then no longer divide into runs: decoding fails, the default is no runs at
  all, and with the null every other value of the region is gone.
\<close>

lemma coalesce_null:
  assumes "\<forall>x \<in> set runs. r_value x \<noteq> VNull"
  shows "coalesce (runs @ [run_new VNull 1]) = coalesce runs @ [run_new VNull 1]"
proof -
  have "r_value (last (coalesce runs)) \<noteq> VNull" if "coalesce runs \<noteq> []"
    using that coalesce_values [of runs] assms last_in_set [OF that] by force
  then show ?thesis
    by (cases "r_value (last (coalesce runs))") (auto simp: coalesce_def coalesce_step_def run_new_def)
qed

lemma runs_or_default_cut: "length buf mod run_width k \<noteq> 0 \<Longrightarrow> runs_or_default buf k = []"
  by (simp add: runs_or_default_def decode_runs_def)

lemma append_null_runs:
  assumes "rg_encoding r = Rle" and "rg_kind r = KBool \<or> rg_kind r = KText"
  shows "runs_or_default (rg_data (append_cell r VNull)) (col_kind_name (rg_kind r)) = []"
proof -
  let ?k = "col_kind_name (rg_kind r)"
  let ?runs = "runs_or_default (rg_data r) ?k"
  have k: "\<forall>x \<in> set ?runs. run_of_kind ?k x" using runs_or_default_kind by blast
  then have "\<forall>x \<in> set ?runs. r_value x \<noteq> VNull" using assms(2) by (auto simp: run_of_kind_def)
  then have c: "coalesce (?runs @ [run_new VNull 1]) = coalesce ?runs @ [run_new VNull 1]" by (rule coalesce_null)
  have "length (encode_runs (coalesce ?runs)) = run_width ?k * length (coalesce ?runs)"
    by (rule encode_runs_length) (use k run_of_kind_coalesce in blast)
  then have "length (encode_runs (coalesce ?runs @ [run_new VNull 1])) = run_width ?k * length (coalesce ?runs) + 12"
    by (simp add: encode_runs_def encode_run_def run_new_def)
  then have "length (encode_runs (coalesce ?runs @ [run_new VNull 1])) mod run_width ?k \<noteq> 0"
    using assms(2) by (auto simp: run_width_def)
  then have d: "runs_or_default (encode_runs (coalesce ?runs @ [run_new VNull 1])) ?k = []" by (rule runs_or_default_cut)
  have "append_cell r VNull = r\<lparr>rg_data := encode_runs (coalesce ?runs @ [run_new VNull 1])\<rparr>"
    by (simp add: append_cell_def assms(1) Let_def c)
  then show ?thesis using d by simp
qed

lemma append_null_erases:
  assumes "rg_encoding r = Rle" and "rg_kind r = KBool \<or> rg_kind r = KText"
  shows "cells (append_cell r VNull) = []"
  using append_null_runs [OF assms] assms(1) by (simp add: cells_def materialize_def)

text \<open>The value appended next is taken for that of the first row.\<close>

lemma append_after_null:
  assumes r: "rg_encoding r = Rle" "rg_kind r = KBool \<or> rg_kind r = KText" and v: "kind v = col_kind_name (rg_kind r)"
  shows "cells (append_cell (append_cell r VNull) v) = [v]"
proof -
  let ?x = "append_cell r VNull"
  have x: "rg_encoding ?x = Rle" "rg_kind ?x = rg_kind r" using r(1) by simp_all
  have a: "append_cell ?x v = ?x\<lparr>rg_data := encode_runs (coalesce [run_new v 1])\<rparr>"
    unfolding append_cell_def [of ?x] by (simp add: r(1) append_null_runs [OF r])
  have "exact_val v" using r(2) v by (cases v) auto
  then have "cells (?x\<lparr>rg_data := encode_runs (coalesce [run_new v 1])\<rparr>) = materialize [run_new v 1]"
    using v by (intro rle_rebuild_runs) (simp_all add: r(1) run_total_def run_new_def)
  then show ?thesis by (simp add: a) (simp add: materialize_def run_new_def)
qed

end
