(* ===== verification/SortedMap.thy ===== *)
theory SortedMap
  imports Main
begin

text \<open>
  \<open>BTreeMap\<close> and \<open>BTreeSet\<close> of the standard library, as the code uses them: strictly sorted
  association lists and strictly sorted lists, whose order is the iteration order. The locale
  \<open>ordered_map\<close> is the contract the components rely on; the lists are shown to meet it.
\<close>

section \<open>Operations\<close>

type_synonym ('k, 'v) bmap = "('k \<times> 'v) list"

fun bm_insert :: "'k::linorder \<Rightarrow> 'v \<Rightarrow> ('k, 'v) bmap \<Rightarrow> ('k, 'v) bmap" where
  "bm_insert k v [] = [(k, v)]"
| "bm_insert k v ((k', v') # m) =
     (if k < k' then (k, v) # (k', v') # m
      else if k = k' then (k, v) # m
      else (k', v') # bm_insert k v m)"

fun bm_remove :: "'k::linorder \<Rightarrow> ('k, 'v) bmap \<Rightarrow> ('k, 'v) bmap" where
  "bm_remove k [] = []"
| "bm_remove k ((k', v') # m) = (if k = k' then m else (k', v') # bm_remove k m)"

definition bm_get :: "('k, 'v) bmap \<Rightarrow> 'k \<Rightarrow> 'v option" where
  "bm_get m k = map_of m k"

definition bm_keys :: "('k, 'v) bmap \<Rightarrow> 'k list" where
  "bm_keys m = map fst m"

definition bm_ok :: "('k::linorder, 'v) bmap \<Rightarrow> bool" where
  "bm_ok m \<longleftrightarrow> sorted_wrt (<) (map fst m)"

fun bs_insert :: "'k::linorder \<Rightarrow> 'k list \<Rightarrow> 'k list" where
  "bs_insert k [] = [k]"
| "bs_insert k (x # xs) = (if k < x then k # x # xs else if k = x then x # xs else x # bs_insert k xs)"

fun bs_remove :: "'k::linorder \<Rightarrow> 'k list \<Rightarrow> 'k list" where
  "bs_remove k [] = []"
| "bs_remove k (x # xs) = (if k = x then xs else x # bs_remove k xs)"

definition bs_ok :: "'k::linorder list \<Rightarrow> bool" where
  "bs_ok xs \<longleftrightarrow> sorted_wrt (<) xs"

section \<open>Laws of the lists\<close>

lemma bm_get_empty [simp]: "bm_get [] k = None"
  by (simp add: bm_get_def)

lemma bm_get_insert [simp]: "bm_get (bm_insert k v m) = (bm_get m)(k \<mapsto> v)"
  by (induction m) (auto simp: bm_get_def fun_eq_iff)

lemma bm_insert_keys: "fst ` set (bm_insert k v m) = insert k (fst ` set m)"
  by (induction k v m rule: bm_insert.induct) (simp_all add: insert_commute)

lemma bm_ok_Nil [simp]: "bm_ok []"
  by (simp add: bm_ok_def)

lemma bm_ok_Cons: "bm_ok ((k, v) # m) \<longleftrightarrow> (\<forall>k' \<in> fst ` set m. k < k') \<and> bm_ok m"
  by (auto simp: bm_ok_def)

lemma bm_ok_insert [simp]: "bm_ok m \<Longrightarrow> bm_ok (bm_insert k v m)"
proof (induction m)
  case (Cons a m)
  then show ?case
    using bm_insert_keys [of k v m] by (cases a) (auto simp: bm_ok_Cons)
qed (simp add: bm_ok_Cons)

lemma bm_remove_keys: "fst ` set (bm_remove k m) \<subseteq> fst ` set m"
  by (induction k m rule: bm_remove.induct) (simp_all add: subset_insertI2 subset_insertI)

lemma bm_ok_remove [simp]: "bm_ok m \<Longrightarrow> bm_ok (bm_remove k m)"
proof (induction m)
  case (Cons a m)
  obtain k' v' where a: "a = (k', v')" by (cases a)
  have "\<forall>k'' \<in> fst ` set (bm_remove k m). k' < k''"
    using Cons.prems bm_remove_keys [of k m] unfolding a bm_ok_Cons by (meson subsetD)
  then show ?case using Cons by (simp add: a bm_ok_Cons)
qed simp

lemma bm_get_None_iff: "bm_get m k = None \<longleftrightarrow> k \<notin> fst ` set m"
  by (simp add: bm_get_def map_of_eq_None_iff)

lemma bm_get_remove [simp]: "bm_ok m \<Longrightarrow> bm_get (bm_remove k m) = (bm_get m)(k := None)"
proof (induction m)
  case (Cons a m)
  obtain k' v' where a: "a = (k', v')" by (cases a)
  have "k' \<notin> fst ` set m" using Cons.prems a by (auto simp: bm_ok_Cons)
  then have "bm_get m k' = None" by (simp add: bm_get_None_iff)
  then show ?case
    using Cons a by (auto simp: bm_get_def fun_eq_iff bm_ok_Cons)
qed (simp add: bm_get_def fun_eq_iff)

lemma bm_ok_distinct: "bm_ok m \<Longrightarrow> distinct (map fst m)"
  by (simp add: bm_ok_def strict_sorted_iff)

lemma bm_get_Some_iff: "bm_ok m \<Longrightarrow> bm_get m k = Some v \<longleftrightarrow> (k, v) \<in> set m"
  by (simp add: bm_get_def bm_ok_distinct)

lemma bm_keys_set: "set (bm_keys m) = dom (bm_get m)"
  by (simp add: bm_keys_def bm_get_def [abs_def] dom_map_of_conv_image_fst)

lemma bm_keys_sorted: "bm_ok m \<Longrightarrow> sorted_wrt (<) (bm_keys m)"
  by (simp add: bm_ok_def bm_keys_def)

lemma bm_insert_append:
  "\<forall>k' \<in> fst ` set m. k' < k \<Longrightarrow> bm_insert k v m = m @ [(k, v)]"
proof (induction m)
  case (Cons a m)
  then show ?case by (cases a) (auto simp: not_less less_imp_le)
qed simp

lemma bm_insert_keys_replaced:
  "bm_ok m \<Longrightarrow> bm_get m k = Some v0 \<Longrightarrow> map fst (bm_insert k v m) = map fst m"
proof (induction m)
  case (Cons a m)
  obtain k' v' where a: "a = (k', v')" by (cases a)
  show ?case
  proof (cases "k = k'")
    case False
    with Cons.prems a have g: "bm_get m k = Some v0" by (simp add: bm_get_def)
    then have "k \<in> fst ` set m" by (metis bm_get_None_iff option.distinct(1))
    with Cons.prems a have "k' < k" by (auto simp: bm_ok_Cons)
    with Cons g a show ?thesis by (auto simp: bm_ok_Cons)
  qed (simp add: a)
qed simp

text \<open>Re-inserting the entries of a map in their own order rebuilds it.\<close>

lemma bm_rebuild_gen:
  "bm_ok (m @ xs) \<Longrightarrow> foldl (\<lambda>m (k, v). bm_insert k v m) m xs = m @ xs"
proof (induction xs arbitrary: m)
  case (Cons a xs)
  obtain k v where a: "a = (k, v)" by (cases a)
  have "\<forall>k' \<in> fst ` set m. k' < k"
    using Cons.prems by (auto simp: bm_ok_def a sorted_wrt_append)
  then have "bm_insert k v m = m @ [a]" by (simp add: bm_insert_append a)
  then show ?case using Cons.IH [of "m @ [a]"] Cons.prems a by simp
qed simp

lemma bm_rebuild: "bm_ok m \<Longrightarrow> foldl (\<lambda>m (k, v). bm_insert k v m) [] m = m"
  using bm_rebuild_gen [of "[]" m] by simp

lemma bs_insert_set [simp]: "set (bs_insert k xs) = insert k (set xs)"
  by (induction xs) auto

lemma bs_ok_insert [simp]: "bs_ok xs \<Longrightarrow> bs_ok (bs_insert k xs)"
  by (induction xs) (auto simp: bs_ok_def)

lemma bs_remove_subset: "set (bs_remove k xs) \<subseteq> set xs"
  by (induction xs) auto

lemma bs_ok_remove [simp]: "bs_ok xs \<Longrightarrow> bs_ok (bs_remove k xs)"
proof (induction xs)
  case (Cons x xs)
  then show ?case using bs_remove_subset [of k xs] by (auto simp: bs_ok_def)
qed simp

lemma bs_remove_set [simp]: "bs_ok xs \<Longrightarrow> set (bs_remove k xs) = set xs - {k}"
  by (induction xs) (auto simp: bs_ok_def)

lemma bs_insert_append: "\<forall>x \<in> set xs. x < k \<Longrightarrow> bs_insert k xs = xs @ [k]"
  by (induction xs) (auto simp: not_less less_imp_le)

lemma bs_rebuild_gen: "bs_ok (xs @ ys) \<Longrightarrow> foldl (\<lambda>m k. bs_insert k m) xs ys = xs @ ys"
proof (induction ys arbitrary: xs)
  case (Cons y ys)
  have "\<forall>x \<in> set xs. x < y" using Cons.prems by (auto simp: bs_ok_def sorted_wrt_append)
  then have "bs_insert y xs = xs @ [y]" by (rule bs_insert_append)
  then show ?case using Cons.IH [of "xs @ [y]"] Cons.prems by simp
qed simp

lemma bs_rebuild: "bs_ok xs \<Longrightarrow> foldl (\<lambda>m k. bs_insert k m) [] xs = xs"
  using bs_rebuild_gen [of "[]" xs] by simp

section \<open>The contract\<close>

text \<open>
  What a client of an ordered map relies on: lookups after an update, and keys that are listed
  once, in increasing order. The client lemmas below hold for any provider.
\<close>

locale ordered_map =
  fixes empty :: "'m"
    and insert :: "'k::linorder \<Rightarrow> 'v \<Rightarrow> 'm \<Rightarrow> 'm"
    and remove :: "'k \<Rightarrow> 'm \<Rightarrow> 'm"
    and get :: "'m \<Rightarrow> 'k \<Rightarrow> 'v option"
    and keys :: "'m \<Rightarrow> 'k list"
    and ok :: "'m \<Rightarrow> bool"
  assumes ok_empty: "ok empty"
    and ok_insert: "ok m \<Longrightarrow> ok (insert k v m)"
    and ok_remove: "ok m \<Longrightarrow> ok (remove k m)"
    and get_empty: "get empty k = None"
    and get_insert: "ok m \<Longrightarrow> get (insert k v m) = (get m)(k \<mapsto> v)"
    and get_remove: "ok m \<Longrightarrow> get (remove k m) = (get m)(k := None)"
    and keys_set: "ok m \<Longrightarrow> set (keys m) = dom (get m)"
    and keys_sorted: "ok m \<Longrightarrow> sorted_wrt (<) (keys m)"
begin

lemma keys_insert: "ok m \<Longrightarrow> set (keys (insert k v m)) = Set.insert k (set (keys m))"
  by (simp add: keys_set ok_insert get_insert)

lemma keys_remove: "ok m \<Longrightarrow> set (keys (remove k m)) = set (keys m) - {k}"
  by (auto simp: keys_set ok_remove get_remove)

lemma keys_distinct: "ok m \<Longrightarrow> distinct (keys m)"
  using keys_sorted strict_sorted_iff by blast

text \<open>Two maps with the same lookups iterate in the same order.\<close>

lemma keys_cong: "ok m \<Longrightarrow> ok m' \<Longrightarrow> get m = get m' \<Longrightarrow> keys m = keys m'"
  by (metis keys_set keys_sorted sorted_distinct_set_unique strict_sorted_iff)

lemma insert_all_ok: "ok m \<Longrightarrow> ok (foldl (\<lambda>m (k, v). insert k v m) m kvs)"
  by (induction kvs arbitrary: m) (auto simp: ok_insert)

text \<open>Inserting a list of entries: the last entry of a key wins.\<close>

lemma get_insert_all:
  "ok m \<Longrightarrow> get (foldl (\<lambda>m (k, v). insert k v m) m kvs) = get m ++ map_of (rev kvs)"
proof (induction kvs arbitrary: m)
  case (Cons a kvs)
  obtain k v where a: "a = (k, v)" by (cases a)
  have "get (foldl (\<lambda>m (k, v). insert k v m) (insert k v m) kvs) =
      (get m)(k \<mapsto> v) ++ map_of (rev kvs)"
    by (simp only: Cons.IH [OF ok_insert [OF Cons.prems]] get_insert [OF Cons.prems])
  then show ?case by (simp add: a map_add_def fun_eq_iff split: option.split)
qed simp

lemma remove_absent_keys: "ok m \<Longrightarrow> get m k = None \<Longrightarrow> keys (remove k m) = keys m"
  by (rule keys_cong) (auto simp: ok_remove get_remove fun_upd_idem)

end

interpretation bm: ordered_map "[]" bm_insert bm_remove bm_get bm_keys bm_ok
  by unfold_locales (simp_all add: bm_keys_set bm_keys_sorted)

end
