(* ===== verification/Dicts.thy ===== *)
theory Dicts
  imports Pagers SortedMap "HOL-Library.List_Lexorder"
begin

text \<open>
  Dictionary pages (\<open>src/src/dict.rs\<close>): the mirror of a page, interning with the page rewrite it
  may cause, and the mirror's reconstruction from a page's bytes. \<open>dict_rep d p bs\<close> says that the
  mirror \<open>d\<close> and its page represent the list \<open>bs\<close> of distinct strings, the id of a string being its
  place in the list; interning, resolving and decoding are proved against it.
\<close>

definition dict_page_capacity :: nat where
  "dict_page_capacity = 64"

record dict =
  dct_page :: u32
  dct_gen :: u64
  entries :: "(u32, u32 \<times> u32) bmap"
  by_bytes :: "(u8 list, u32) bmap"
  next_id :: u32
  capacity :: nat

definition dict_new :: "u32 \<Rightarrow> dict" where
  "dict_new pid = \<lparr>dct_page = pid, dct_gen = 0, entries = [], by_bytes = [], next_id = 0,
     capacity = dict_page_capacity\<rparr>"

definition dict_len :: "dict \<Rightarrow> nat" where
  "dict_len d = length (entries d)"

definition id_of :: "dict \<Rightarrow> u8 list \<Rightarrow> u32 option" where
  "id_of d bytes = bm_get (by_bytes d) bytes"

definition bytes_of :: "dict \<Rightarrow> pager \<Rightarrow> u32 \<Rightarrow> u8 list option" where
  "bytes_of d p i = (case bm_get (entries d) i of None \<Rightarrow> None
     | Some (off, len) \<Rightarrow> (case pager_get p (dct_page d) of None \<Rightarrow> None
         | Some pg \<Rightarrow> get_range (pg_buf pg) (unat off) (unat off + unat len)))"

definition location_of :: "dict \<Rightarrow> u32 \<Rightarrow> (u32 \<times> u32) option" where
  "location_of d i = bm_get (entries d) i"

definition used_bytes :: "dict \<Rightarrow> nat" where
  "used_bytes d = 4 + sum_list (map (\<lambda>(_, _, len). 8 + unat len) (entries d))"

text \<open>\<open>[id][len][bytes]\<close> written at \<open>off\<close>.\<close>

definition write_entry :: "u8 list \<Rightarrow> nat \<Rightarrow> u32 \<Rightarrow> u32 \<Rightarrow> u8 list \<Rightarrow> u8 list result" where
  "write_entry buf off i len bytes =
     rbind (write_at buf off (u32_le i)) (\<lambda>buf.
     rbind (write_at buf (off + 4) (u32_le len)) (\<lambda>buf. write_at buf (off + 8) bytes))"

fun grow_entries :: "dict \<Rightarrow> pager \<Rightarrow> (u32, u32 \<times> u32) bmap \<Rightarrow> u8 list \<Rightarrow> (u32, u32 \<times> u32) bmap \<Rightarrow> nat \<Rightarrow>
    (u8 list \<times> (u32, u32 \<times> u32) bmap) result" where
  "grow_entries d p [] buf new_entries off = Ok (buf, new_entries)"
| "grow_entries d p ((i, _, len) # es) buf new_entries off =
     (let bytes = (case bytes_of d p i of None \<Rightarrow> [] | Some b \<Rightarrow> b) in
      rbind (write_entry buf off i len bytes) (\<lambda>buf.
        grow_entries d p es buf (bm_insert i (as_u32 (off + 8), len) new_entries)
          (off + (8 + length bytes))))"

definition dict_grow :: "(dict \<times> pager, error, unit) op" where
  "dict_grow = (\<lambda>(d, p).
     let d = d\<lparr>capacity := min (capacity d * 2) (2 ^ 64 - 1)\<rparr>; buf = replicate (capacity d) 0 in
     case rbind (write_at buf 0 (len_le (length (entries d)))) (\<lambda>buf.
            grow_entries d p (entries d) buf [] 4) of
       Ok (buf, new_entries) \<Rightarrow>
         (let p' = pager_rebuf (dct_page d) (\<lambda>a. replace_buf a buf) p in
          case pager_get p' (dct_page d) of
            None \<Rightarrow> (Panic, (d, p))
          | Some pg \<Rightarrow> (Ok (), (d\<lparr>dct_gen := pg_gen pg, entries := new_entries\<rparr>, p')))
     | Err e \<Rightarrow> (Err e, (d, p)) | Panic \<Rightarrow> (Panic, (d, p)) | Undef \<Rightarrow> (Undef, (d, p)))"

text \<open>The second half of \<open>intern\<close>: the new entry goes to offset \<open>off\<close> of the page, in place.\<close>

definition intern_append :: "u8 list \<Rightarrow> nat \<Rightarrow> (dict \<times> pager, error, u32) op" where
  "intern_append bytes off = (\<lambda>(d, p).
     let i = next_id d in
     if i = u32_max then (Panic, (d, p))
     else let d = d\<lparr>next_id := i + 1\<rparr> in
       (case pager_get p (dct_page d) of None \<Rightarrow> (Panic, (d, p))
        | Some pg \<Rightarrow>
          (case rbind (write_entry (pg_buf pg) off i (as_u32 (length bytes)) bytes) (\<lambda>buf.
                  write_at buf 0 (u32_le (as_u32 (length (entries d)) + 1))) of
             Ok buf \<Rightarrow>
               (Ok i, (d\<lparr>entries := bm_insert i (as_u32 (off + 8), as_u32 (length bytes)) (entries d),
                         by_bytes := bm_insert bytes i (by_bytes d)\<rparr>,
                       pager_modify (dct_page d) (\<lambda>pg. pg\<lparr>pg_buf := buf\<rparr>) p))
           | Err e \<Rightarrow> (Err e, (d, p)) | Panic \<Rightarrow> (Panic, (d, p)) | Undef \<Rightarrow> (Undef, (d, p)))))"

definition dict_intern :: "u8 list \<Rightarrow> (dict \<times> pager, error, u32) op" where
  "dict_intern bytes = (\<lambda>(d, p).
     case id_of d bytes of Some i \<Rightarrow> (Ok i, (d, p))
     | None \<Rightarrow>
        let needed = 8 + length bytes; used = used_bytes d in
        sbind (if capacity d < used + needed then dict_grow else sret ())
          (\<lambda>_. intern_append bytes used) (d, p))"

fun from_page_loop :: "nat \<Rightarrow> u8 list \<Rightarrow> nat \<Rightarrow> dict \<Rightarrow> dict result" where
  "from_page_loop 0 buf pos d = Ok d"
| "from_page_loop (Suc n) buf pos d =
     (if length buf < pos + 8 then Ok d
      else rbind (read_u32 buf pos) (\<lambda>i. rbind (read_u32 buf (pos + 4)) (\<lambda>len.
        let pos = pos + 8 in
        if length buf < pos + unat len then Ok d
        else rbind (slice buf pos (pos + unat len)) (\<lambda>bytes.
          let d = d\<lparr>entries := bm_insert i (as_u32 pos, len) (entries d),
                    by_bytes := bm_insert bytes i (by_bytes d)\<rparr> in
          if next_id d \<le> i then
            (if i = u32_max then Panic
             else from_page_loop n buf (pos + unat len) (d\<lparr>next_id := i + 1\<rparr>))
          else from_page_loop n buf (pos + unat len) d))))"

definition dict_from_page :: "u32 \<Rightarrow> u8 list \<Rightarrow> u64 \<Rightarrow> dict result" where
  "dict_from_page pid buf g =
     (let d = (dict_new pid)\<lparr>dct_gen := g, capacity := max (length buf) dict_page_capacity\<rparr> in
      if length buf < 4 then Ok d
      else rbind (read_u32 buf 0) (\<lambda>count. from_page_loop (unat count) buf 4 d))"

definition dict_allocate :: "(pager, error, u32) op" where
  "dict_allocate = pager_alloc PkDict (replicate dict_page_capacity 0)"

definition entry_count :: "u8 list \<Rightarrow> u32 result" where
  "entry_count buf = (if length buf < 4 then Ok 0 else read_u32 buf 0)"

section \<open>The layout of a page\<close>

text \<open>The entries of the strings \<open>bs\<close>, numbered from \<open>i\<close>, and where they are when they start at \<open>off\<close>.\<close>

fun enc_from :: "nat \<Rightarrow> u8 list list \<Rightarrow> u8 list" where
  "enc_from i [] = []"
| "enc_from i (b # bs) = u32_le (as_u32 i) @ len_le (length b) @ b @ enc_from (Suc i) bs"

fun ent_from :: "nat \<Rightarrow> nat \<Rightarrow> u8 list list \<Rightarrow> (u32, u32 \<times> u32) bmap" where
  "ent_from i off [] = []"
| "ent_from i off (b # bs) =
     (as_u32 i, as_u32 (off + 8), as_u32 (length b)) # ent_from (Suc i) (off + 8 + length b) bs"

definition dict_size :: "u8 list list \<Rightarrow> nat" where
  "dict_size bs = 4 + sum_list (map (\<lambda>b. 8 + length b) bs)"

definition dict_layout :: "u8 list list \<Rightarrow> u8 list" where
  "dict_layout bs = len_le (length bs) @ enc_from 0 bs"

definition dict_rep :: "dict \<Rightarrow> pager \<Rightarrow> u8 list list \<Rightarrow> bool" where
  "dict_rep d p bs \<longleftrightarrow>
     (\<exists>pg pad. pager_get p (dct_page d) = Some pg \<and> pg_buf pg = dict_layout bs @ pad \<and>
        capacity d = length (pg_buf pg)) \<and>
     entries d = ent_from 0 4 bs \<and> next_id d = as_u32 (length bs) \<and>
     distinct bs \<and> (\<forall>b. bm_get (by_bytes d) b = map_of (zip bs (map as_u32 [0..<length bs])) b) \<and>
     dict_size bs < 2 ^ 32"

lemma enc_from_length: "length (enc_from i bs) = sum_list (map (\<lambda>b. 8 + length b) bs)"
  by (induction bs arbitrary: i) auto

lemma dict_layout_length: "length (dict_layout bs) = dict_size bs"
  by (simp add: dict_layout_def dict_size_def enc_from_length)

lemma enc_from_append: "enc_from i (bs @ cs) = enc_from i bs @ enc_from (i + length bs) cs"
  by (induction bs arbitrary: i) auto

lemma ent_from_append:
  "ent_from i off (bs @ cs) = ent_from i off bs @ ent_from (i + length bs) (off + length (enc_from i bs)) cs"
  by (induction bs arbitrary: i off) (auto simp: algebra_simps)

lemma ent_from_length [simp]: "length (ent_from i off bs) = length bs"
  by (induction bs arbitrary: i off) auto

lemma ent_from_keys: "map fst (ent_from i off bs) = map as_u32 [i..<i + length bs]"
  by (induction bs arbitrary: i off) (auto simp: upt_conv_Cons simp del: upt_Suc)

lemma dict_size_ge: "8 * length bs + 4 \<le> dict_size bs"
  by (induction bs) (auto simp: dict_size_def)

lemma dict_size_append [simp]: "dict_size (bs @ [b]) = dict_size bs + 8 + length b"
  by (simp add: dict_size_def)

lemma dict_size_member: "b \<in> set bs \<Longrightarrow> length b < dict_size bs"
  by (induction bs) (auto simp: dict_size_def)

lemma used_bytes_ent:
  "\<forall>b \<in> set bs. length b < 2 ^ 32 \<Longrightarrow>
   sum_list (map (\<lambda>(_, _, len). 8 + unat len) (ent_from i off bs)) = sum_list (map (\<lambda>b. 8 + length b) bs)"
  by (induction bs arbitrary: i off) auto

text \<open>What the mirror records of the string at place \<open>k\<close> is where the page holds it.\<close>

lemma ent_lookup:
  assumes "drop off buf = enc_from i bs @ post"
    and "off + length (enc_from i bs) < 2 ^ 32" and "i + length bs < 2 ^ 32" and "k < length bs"
  shows "\<exists>l len. map_of (ent_from i off bs) (as_u32 (i + k)) = Some (l, len) \<and>
      get_range buf (unat l) (unat l + unat len) = Some (bs ! k) \<and>
      4 \<le> unat l \<and> unat (u32_of_le (take 4 (drop (unat l - 4) buf))) = unat len"
  using assms
proof (induction bs arbitrary: i off k)
  case (Cons b bs)
  let ?h = "u32_le (as_u32 i) @ len_le (length b)"
  have d1: "drop off buf = (?h @ b) @ (enc_from (Suc i) bs @ post)" using Cons.prems(1) by simp
  have d2: "drop (off + 8) buf = b @ enc_from (Suc i) bs @ post"
    using drop_advance [of off buf ?h] d1 by simp
  have d3: "drop (off + 4) buf = len_le (length b) @ b @ enc_from (Suc i) bs @ post"
    using drop_advance [of off buf "u32_le (as_u32 i)"] d1 by simp
  show ?case
  proof (cases k)
    case 0
    have "off + length (?h @ b) \<le> length buf" using drop_prefix_le [OF d1] by simp
    moreover have "unat (as_u32 (off + 8)) = off + 8" "length b < 2 ^ 32"
      using Cons.prems(2) by simp_all
    ultimately show ?thesis using 0 d2 d3
      by (simp add: get_range_def add.commute)
  next
    case (Suc k')
    have "drop (off + 8 + length b) buf = enc_from (Suc i) bs @ post"
      using drop_advance [OF d2] by simp
    moreover have "off + 8 + length b + length (enc_from (Suc i) bs) < 2 ^ 32"
      using Cons.prems(2) by simp
    ultimately obtain l len where
      "map_of (ent_from (Suc i) (off + 8 + length b) bs) (as_u32 (Suc i + k')) = Some (l, len) \<and>
       get_range buf (unat l) (unat l + unat len) = Some (bs ! k') \<and>
       4 \<le> unat l \<and> unat (u32_of_le (take 4 (drop (unat l - 4) buf))) = unat len"
      using Cons.IH [of "off + 8 + length b" "Suc i" k'] Cons.prems Suc by auto
    moreover have "(as_u32 (i + k)) \<noteq> as_u32 i"
      using as_u32_eq [of i "i + k"] Cons.prems Suc by auto
    ultimately show ?thesis using Suc by simp
  qed
qed simp

lemma write_entry_at:
  assumes "off + (8 + length b) \<le> length buf"
  shows "write_entry buf off i len b =
    Ok (take off buf @ (u32_le i @ u32_le len @ b) @ drop (off + (8 + length b)) buf)"
  using assms by (simp add: write_entry_def write_at_def min_def ac_simps)

lemma dict_rep_page:
  assumes "dict_rep d p bs"
  obtains pg pad where "pager_get p (dct_page d) = Some pg" "pg_buf pg = dict_layout bs @ pad"
    "capacity d = length (pg_buf pg)"
  using assms unfolding dict_rep_def by blast

lemma dict_rep_len: "dict_rep d p bs \<Longrightarrow> length bs < 2 ^ 29"
  using dict_size_ge [of bs] by (simp add: dict_rep_def)

lemma dict_rep_location:
  assumes rep: "dict_rep d p bs" and k: "k < length bs"
  shows "\<exists>pg l len. pager_get p (dct_page d) = Some pg \<and> bm_get (entries d) (as_u32 k) = Some (l, len) \<and>
      get_range (pg_buf pg) (unat l) (unat l + unat len) = Some (bs ! k) \<and>
      4 \<le> unat l \<and> unat (u32_of_le (take 4 (drop (unat l - 4) (pg_buf pg)))) = unat len"
proof -
  obtain pg pad where pg: "pager_get p (dct_page d) = Some pg" "pg_buf pg = dict_layout bs @ pad"
    using rep by (rule dict_rep_page)
  have "drop 4 (pg_buf pg) = enc_from 0 bs @ pad" by (simp add: pg dict_layout_def)
  moreover have "4 + length (enc_from 0 bs) < 2 ^ 32" "0 + length bs < 2 ^ 32"
    using rep dict_rep_len [OF rep] by (simp_all add: dict_rep_def dict_size_def enc_from_length)
  ultimately show ?thesis
    using ent_lookup [of 4 "pg_buf pg" 0 bs pad k] k rep pg(1)
    by (simp add: dict_rep_def bm_get_def)
qed

text \<open>Resolving an id is indexing the list.\<close>

lemma dict_rep_bytes_of:
  assumes rep: "dict_rep d p bs"
  shows "bytes_of d p i = nth_opt bs (unat i)"
proof (cases "unat i < length bs")
  case True
  obtain pg l len where "pager_get p (dct_page d) = Some pg" "bm_get (entries d) i = Some (l, len)"
      "get_range (pg_buf pg) (unat l) (unat l + unat len) = Some (bs ! unat i)"
    using dict_rep_location [OF rep True] by auto
  then show ?thesis using True by (simp add: bytes_of_def nth_opt_def)
next
  case False
  have "i \<notin> as_u32 ` {0..<length bs}"
  proof
    assume "i \<in> as_u32 ` {0..<length bs}"
    then obtain k where "k < length bs" "i = as_u32 k" by auto
    with False dict_rep_len [OF rep] show False by simp
  qed
  moreover have "map fst (entries d) = map as_u32 [0..<length bs]"
    using rep ent_from_keys [of 0 4 bs] by (simp add: dict_rep_def)
  then have "fst ` set (entries d) = as_u32 ` {0..<length bs}"
    by (metis list.set_map set_upt)
  ultimately have "bm_get (entries d) i = None" by (simp add: bm_get_None_iff)
  then show ?thesis using False by (simp add: bytes_of_def nth_opt_def)
qed

lemma bytes_of_capacity [simp]: "bytes_of (d\<lparr>capacity := c\<rparr>) p i = bytes_of d p i"
  by (simp add: bytes_of_def split: option.split)

lemma grow_entries_view:
  assumes "\<forall>k < length cs. bytes_of d p (as_u32 (i + k)) = Some (cs ! k)"
    and "off + length (enc_from i cs) \<le> length buf" and "i + length cs < 2 ^ 32"
    and "\<forall>c \<in> set cs. length c < 2 ^ 32"
    and "\<forall>k \<in> fst ` set ne. k < as_u32 i"
  shows "grow_entries d p (ent_from i off' cs) buf ne off =
    Ok (take off buf @ enc_from i cs @ drop (off + length (enc_from i cs)) buf, ne @ ent_from i off cs)"
  using assms
proof (induction cs arbitrary: i off off' buf ne)
  case (Cons c cs)
  let ?e = "u32_le (as_u32 i) @ len_le (length c) @ c"
  let ?buf = "take off buf @ ?e @ drop (off + (8 + length c)) buf"
  let ?ne = "ne @ [(as_u32 i :: u32, as_u32 (off + 8), as_u32 (length c))]"
  have le: "off + (8 + length c) + length (enc_from (Suc i) cs) \<le> length buf"
    using Cons.prems(2) by simp
  have b: "bytes_of d p (as_u32 i) = Some c" using Cons.prems(1) by auto
  have bs: "\<forall>k < length cs. bytes_of d p (as_u32 (Suc i + k)) = Some (cs ! k)"
    using Cons.prems(1) by (metis Suc_less_eq add_Suc_shift length_Cons nth_Cons_Suc)
  have w: "write_entry buf off (as_u32 i) (as_u32 (length c)) c = Ok ?buf"
    using write_entry_at [of off c buf] le by (simp add: len_le_def)
  have ins: "bm_insert (as_u32 i) (as_u32 (off + 8), as_u32 (length c)) ne = ?ne"
    using Cons.prems(5) by (rule bm_insert_append)
  have keys: "\<forall>k \<in> fst ` set ?ne. k < as_u32 (Suc i)"
    using Cons.prems(3,5) as_u32_less [of i "Suc i"]
    by (auto intro: order.strict_trans)
  have "grow_entries d p (ent_from (Suc i) (off' + 8 + length c) cs) ?buf ?ne (off + (8 + length c)) =
      Ok (take (off + (8 + length c)) ?buf @ enc_from (Suc i) cs @
          drop (off + (8 + length c) + length (enc_from (Suc i) cs)) ?buf,
        ?ne @ ent_from (Suc i) (off + (8 + length c)) cs)"
    by (rule Cons.IH) (use bs le Cons.prems keys in auto)
  moreover have "take (off + (8 + length c)) ?buf = take off buf @ ?e"
    using le by simp
  moreover have "drop (off + (8 + length c) + length (enc_from (Suc i) cs)) ?buf =
      drop (off + length (enc_from i (c # cs))) buf"
    using le by (simp add: algebra_simps)
  ultimately show ?case
    by (simp add: b w ins algebra_simps)
qed simp

section \<open>Interning\<close>

lemma dict_rep_used: "dict_rep d p bs \<Longrightarrow> used_bytes d = dict_size bs"
proof -
  assume rep: "dict_rep d p bs"
  then have "\<forall>b \<in> set bs. length b < 2 ^ 32"
    using dict_size_member by (fastforce simp: dict_rep_def)
  then show ?thesis using rep used_bytes_ent [of bs 0 4]
    by (simp add: used_bytes_def dict_rep_def dict_size_def)
qed

text \<open>Doubling the page: the same strings at the same places, in a new buffer of a later generation.\<close>

lemma dict_grow_rep:
  assumes rep: "dict_rep d p bs" and cap: "capacity d * 2 < 2 ^ 64"
  obtains d' p' where "dict_grow (d, p) = (Ok (), (d', p'))" "dict_rep d' p' bs"
    "capacity d' = capacity d * 2" "dct_page d' = dct_page d" "by_bytes d' = by_bytes d"
    "\<exists>buf. p' = pager_rebuf (dct_page d) (\<lambda>a. replace_buf a buf) p"
    "\<exists>pg. pager_get p (dct_page d) = Some pg \<and> dct_gen d' = pg_gen pg + 1"
proof -
  obtain pg pad where pg: "pager_get p (dct_page d) = Some pg" "pg_buf pg = dict_layout bs @ pad"
    and c: "capacity d = length (pg_buf pg)"
    using rep by (rule dict_rep_page)
  let ?e = "enc_from 0 bs" and ?cap = "capacity d * 2"
  let ?d = "d\<lparr>capacity := ?cap\<rparr>" and ?b0 = "len_le (length bs) @ replicate (?cap - 4) 0"
  let ?buf = "dict_layout bs @ replicate (?cap - dict_size bs) 0"
  have size: "dict_size bs \<le> capacity d" by (simp add: c pg dict_layout_length)
  have len: "length ?e = dict_size bs - 4" "4 \<le> dict_size bs"
    by (simp_all add: enc_from_length dict_size_def)
  have ent: "entries ?d = ent_from 0 4 bs" using rep by (simp add: dict_rep_def)
  have w: "write_at (replicate ?cap 0) 0 (len_le (length (entries ?d))) = (Ok ?b0 :: u8 list result)"
    using size len(2) ent by (simp add: write_at_def)
  have "grow_entries ?d p (ent_from 0 4 bs) ?b0 [] 4 =
      Ok (take 4 ?b0 @ ?e @ drop (4 + length ?e) ?b0, [] @ ent_from 0 4 bs)"
  proof (rule grow_entries_view)
    show "\<forall>k < length bs. bytes_of ?d p (as_u32 (0 + k)) = Some (bs ! k)"
      using dict_rep_bytes_of [OF rep] dict_rep_len [OF rep] by simp
    show "\<forall>c \<in> set bs. length c < 2 ^ 32"
      using rep dict_size_member by (fastforce simp: dict_rep_def)
  qed (use size len dict_rep_len [OF rep] in auto)
  then have g: "grow_entries ?d p (entries ?d) ?b0 [] 4 = Ok (?buf, ent_from 0 4 bs)"
    using len by (simp add: ent dict_layout_def)
  let ?p = "pager_rebuf (dct_page d) (\<lambda>a. replace_buf a ?buf) p"
  let ?d' = "d\<lparr>capacity := ?cap, dct_gen := pg_gen pg + 1, entries := ent_from 0 4 bs\<rparr>"
  have get: "pager_get ?p (dct_page d) = Some (replace_buf (next_alloc p) ?buf pg)"
    by (simp add: pager_get_rebuf pg)
  have "dict_grow (d, p) = (Ok (), (?d', ?p))"
    using cap w g get ent by (simp add: dict_grow_def Let_def replace_buf_def)
  moreover have "dict_rep ?d' ?p bs"
    using rep get size by (simp add: dict_rep_def replace_buf_def dict_layout_length)
  ultimately show thesis using pg(1) by (intro that [of ?d' ?p]) auto
qed

lemma map_of_zip_snoc:
  "length xs = length ys \<Longrightarrow> x \<notin> set xs \<Longrightarrow>
   map_of (zip (xs @ [x]) (ys @ [y])) = (map_of (zip xs ys))(x \<mapsto> y)"
  by (induction xs ys rule: list_induct2) (auto simp: fun_upd_twist)

lemma intern_append_rep:
  assumes rep: "dict_rep d p bs" and new: "b \<notin> set bs"
    and fits: "dict_size (bs @ [b]) \<le> capacity d" and bound: "dict_size (bs @ [b]) < 2 ^ 32"
  obtains d' buf where "intern_append b (dict_size bs) (d, p) =
      (Ok (as_u32 (length bs)), (d', pager_modify (dct_page d) (\<lambda>pg. pg\<lparr>pg_buf := buf\<rparr>) p))"
    "dict_rep d' (pager_modify (dct_page d) (\<lambda>pg. pg\<lparr>pg_buf := buf\<rparr>) p) (bs @ [b])"
    "capacity d' = capacity d" "dct_page d' = dct_page d" "dct_gen d' = dct_gen d"
    "\<exists>pg. pager_get p (dct_page d) = Some pg \<and> length buf = length (pg_buf pg) \<and>
       take (dict_size bs - 4) (drop 4 buf) = take (dict_size bs - 4) (drop 4 (pg_buf pg))"
proof -
  obtain pg pad where pg: "pager_get p (dct_page d) = Some pg" "pg_buf pg = dict_layout bs @ pad"
    and c: "capacity d = length (pg_buf pg)"
    using rep by (rule dict_rep_page)
  let ?n = "length bs" and ?l = "as_u32 (length b)" and ?e = "enc_from 0 bs"
  let ?new = "u32_le (as_u32 ?n) @ u32_le ?l @ b"
  let ?buf1 = "dict_layout bs @ u32_le (as_u32 ?n) @ u32_le ?l @ b @ drop (8 + length b) pad"
  let ?buf = "dict_layout (bs @ [b]) @ drop (8 + length b) pad"
  have n: "?n < 2 ^ 29" by (rule dict_rep_len [OF rep])
  have nid: "next_id d = as_u32 ?n" and ent: "entries d = ent_from 0 4 bs"
    using rep by (simp_all add: dict_rep_def)
  have ne: "as_u32 ?n \<noteq> u32_max"
  proof
    assume "as_u32 ?n = u32_max"
    then have "unat (as_u32 ?n) = unat u32_max" by simp
    then show False using n by (simp add: u32_max_def)
  qed
  have room: "dict_size bs + (8 + length b) \<le> length (pg_buf pg)" using fits c by simp
  have w1: "write_entry (pg_buf pg) (dict_size bs) (as_u32 ?n) ?l b = Ok ?buf1"
    using write_entry_at [OF room] by (simp add: pg dict_layout_length)
  have "dict_layout (bs @ [b]) = len_le (Suc ?n) @ ?e @ ?new"
    by (simp add: dict_layout_def enc_from_append len_le_def)
  then have w2: "write_at ?buf1 0 (u32_le (as_u32 (Suc (length (entries d))))) = (Ok ?buf :: u8 list result)"
    by (simp add: write_at_def ent as_u32_Suc dict_layout_def len_le_def)
  have ins: "bm_insert (as_u32 ?n) (as_u32 (dict_size bs + 8), ?l) (entries d) = ent_from 0 4 (bs @ [b])"
  proof -
    have "\<forall>k \<in> fst ` set (entries d). k < as_u32 ?n"
    proof
      fix k assume "k \<in> fst ` set (entries d)"
      then have "k \<in> set (map as_u32 [0..<?n])"
        using ent_from_keys [of 0 4 bs] ent by (metis add_0 list.set_map)
      then show "k < as_u32 ?n" using n as_u32_less by auto
    qed
    then show ?thesis by (simp add: bm_insert_append ent ent_from_append enc_from_length dict_size_def)
  qed
  let ?d' = "d\<lparr>next_id := as_u32 (Suc ?n), entries := ent_from 0 4 (bs @ [b]),
      by_bytes := bm_insert b (as_u32 ?n) (by_bytes d)\<rparr>"
  let ?p' = "pager_modify (dct_page d) (\<lambda>pg. pg\<lparr>pg_buf := ?buf\<rparr>) p"
  have "intern_append b (dict_size bs) (d, p) = (Ok (as_u32 ?n), (?d', ?p'))"
    using ne by (simp add: intern_append_def Let_def nid pg(1) w1 w2 ins as_u32_Suc)
  moreover have "dict_rep ?d' ?p' (bs @ [b])"
  proof -
    have "pager_get ?p' (dct_page d) = Some (pg\<lparr>pg_buf := ?buf\<rparr>)" by (simp add: pager_get_modify pg)
    moreover have "length ?buf = length (pg_buf pg)"
      using room by (simp add: pg dict_layout_length)
    moreover have "map_of (zip (bs @ [b]) (map as_u32 [0..<Suc ?n])) =
        (map_of (zip bs (map as_u32 [0..<?n])))(b \<mapsto> as_u32 ?n)"
      using map_of_zip_snoc [of bs "map as_u32 [0..<?n]" b] new by simp
    ultimately show ?thesis using rep new bound c unfolding dict_rep_def by simp
  qed
  moreover have "length ?buf = length (pg_buf pg)"
    using room by (simp add: pg dict_layout_length)
  ultimately show thesis
    using pg by (intro that [of ?d' ?buf]) (auto simp: dict_layout_def enc_from_append enc_from_length dict_size_def)
qed

lemma dict_rep_id_of:
  assumes rep: "dict_rep d p bs" and k: "k < length bs"
  shows "id_of d (bs ! k) = Some (as_u32 k)"
proof -
  have "distinct bs" and get: "bm_get (by_bytes d) (bs ! k) = map_of (zip bs (map as_u32 [0..<length bs])) (bs ! k)"
    using rep by (simp_all add: dict_rep_def)
  then show ?thesis using k by (simp add: id_of_def map_of_zip_nth)
qed

lemma dict_rep_id_of_None:
  assumes rep: "dict_rep d p bs" and "b \<notin> set bs"
  shows "id_of d b = None"
proof -
  have "bm_get (by_bytes d) b = map_of (zip bs (map as_u32 [0..<length bs])) b"
    using rep by (simp add: dict_rep_def)
  then show ?thesis using assms(2) by (simp add: id_of_def map_of_zip_is_None)
qed

lemma dict_intern_known:
  "dict_rep d p bs \<Longrightarrow> k < length bs \<Longrightarrow> dict_intern (bs ! k) (d, p) = (Ok (as_u32 k), (d, p))"
  by (simp add: dict_intern_def dict_rep_id_of)

text \<open>A new string that fits: no rewrite, the page keeps its allocation and its generation.\<close>

lemma dict_intern_in_place:
  assumes rep: "dict_rep d p bs" and new: "b \<notin> set bs"
    and fits: "dict_size (bs @ [b]) \<le> capacity d" and bound: "dict_size (bs @ [b]) < 2 ^ 32"
  shows "dict_intern b (d, p) = intern_append b (dict_size bs) (d, p)"
proof -
  have "\<not> capacity d < dict_size bs + (8 + length b)" using fits by simp
  then show ?thesis
    using dict_rep_id_of_None [OF rep new] dict_rep_used [OF rep]
    by (simp add: dict_intern_def Let_def sbind_def)
qed

text \<open>A new string that does not fit: the page is rewritten once, then the entry is appended.\<close>

lemma dict_intern_grow:
  assumes rep: "dict_rep d p bs" and new: "b \<notin> set bs"
    and full: "capacity d < dict_size (bs @ [b])"
    and g: "dict_grow (d, p) = (Ok (), (d', p'))"
  shows "dict_intern b (d, p) = intern_append b (dict_size bs) (d', p')"
  using full dict_rep_id_of_None [OF rep new] dict_rep_used [OF rep] g
  by (simp add: dict_intern_def Let_def sbind_def)

text \<open>The only growth is one doubling: a string that needs more panics on the slice write.\<close>

lemma intern_append_panic:
  assumes rep: "dict_rep d p bs" and full: "capacity d < dict_size (bs @ [b])"
  shows "fst (intern_append b (dict_size bs) (d, p)) = Panic"
proof (cases "next_id d = u32_max")
  case True
  then show ?thesis by (simp add: intern_append_def Let_def)
next
  case False
  obtain pg pad where pg: "pager_get p (dct_page d) = Some pg" "capacity d = length (pg_buf pg)"
    using rep by (rule dict_rep_page)
  have "write_entry (pg_buf pg) (dict_size bs) i l b = Panic" for i l
    using full pg(2) by (auto simp: write_entry_def write_at_def)
  then show ?thesis using False pg(1) by (simp add: intern_append_def Let_def)
qed

lemma dict_intern_panic:
  assumes rep: "dict_rep d p bs" and new: "b \<notin> set bs"
    and cap: "capacity d * 2 < 2 ^ 64" and full: "capacity d * 2 < dict_size (bs @ [b])"
  shows "fst (dict_intern b (d, p)) = Panic"
proof -
  obtain d' p' where g: "dict_grow (d, p) = (Ok (), (d', p'))" "dict_rep d' p' bs"
    "capacity d' = capacity d * 2"
    using dict_grow_rep [OF rep cap] by blast
  have "capacity d < dict_size (bs @ [b])" using full by linarith
  then show ?thesis
    using dict_intern_grow [OF rep new _ g(1)] intern_append_panic [OF g(2)] full g(3) by simp
qed

text \<open>Whether a page can take a string: it is known, or one doubling makes room.\<close>

definition dict_fits :: "dict \<times> pager \<Rightarrow> u8 list \<Rightarrow> bool" where
  "dict_fits s b = (case s of (d, p) \<Rightarrow>
     capacity d * 2 < 2 ^ 64 \<and>
     (id_of d b \<noteq> None \<or> used_bytes d + (8 + length b) \<le> capacity d * 2 \<and>
        used_bytes d + (8 + length b) < 2 ^ 32))"

lemma dict_intern_new:
  assumes rep: "dict_rep d p bs" and new: "b \<notin> set bs" and fits: "dict_fits (d, p) b"
  shows "\<exists>d' p'. dict_intern b (d, p) = (Ok (as_u32 (length bs)), (d', p')) \<and>
     dict_rep d' p' (bs @ [b]) \<and> dct_page d' = dct_page d \<and>
     (\<forall>j. j \<noteq> dct_page d \<longrightarrow> pager_get p' j = pager_get p j)"
proof -
  have f: "dict_size (bs @ [b]) \<le> capacity d * 2" "dict_size (bs @ [b]) < 2 ^ 32" "capacity d * 2 < 2 ^ 64"
    using fits dict_rep_id_of_None [OF rep new] dict_rep_used [OF rep]
    by (simp_all add: dict_fits_def add.assoc)
  show ?thesis
  proof (cases "dict_size (bs @ [b]) \<le> capacity d")
    case True
    obtain d' buf where i: "intern_append b (dict_size bs) (d, p) =
        (Ok (as_u32 (length bs)), (d', pager_modify (dct_page d) (\<lambda>pg. pg\<lparr>pg_buf := buf\<rparr>) p))"
      "dict_rep d' (pager_modify (dct_page d) (\<lambda>pg. pg\<lparr>pg_buf := buf\<rparr>) p) (bs @ [b])"
      "dct_page d' = dct_page d"
      using intern_append_rep [OF rep new True f(2)] by blast
    then show ?thesis
      using dict_intern_in_place [OF rep new True f(2)] by (auto simp: pager_get_modify)
  next
    case False
    then have full: "capacity d < dict_size (bs @ [b])" by simp
    obtain d1 p1 where g: "dict_grow (d, p) = (Ok (), (d1, p1))" "dict_rep d1 p1 bs"
      "capacity d1 = capacity d * 2" "dct_page d1 = dct_page d"
      "\<exists>buf. p1 = pager_rebuf (dct_page d) (\<lambda>a. replace_buf a buf) p"
      using dict_grow_rep [OF rep f(3)] by blast
    have fit1: "dict_size (bs @ [b]) \<le> capacity d1" using f(1) g(3) by simp
    obtain d' buf where i: "intern_append b (dict_size bs) (d1, p1) =
        (Ok (as_u32 (length bs)), (d', pager_modify (dct_page d1) (\<lambda>pg. pg\<lparr>pg_buf := buf\<rparr>) p1))"
      "dict_rep d' (pager_modify (dct_page d1) (\<lambda>pg. pg\<lparr>pg_buf := buf\<rparr>) p1) (bs @ [b])"
      "dct_page d' = dct_page d1"
      using intern_append_rep [OF g(2) new fit1 f(2)] by blast
    then show ?thesis
      using dict_intern_grow [OF rep new full g(1)] g(4,5) by (auto simp: pager_get_modify pager_get_rebuf)
  qed
qed

section \<open>The interner contract\<close>

text \<open>
  What the columns, the index and the script rely on: ids are places in a list of distinct
  strings, interning a known string changes nothing, and a new one is appended.
\<close>

locale interner =
  fixes rep :: "'s \<Rightarrow> u8 list list \<Rightarrow> bool"
    and intern :: "u8 list \<Rightarrow> ('s, 'e, u32) op"
    and resolve :: "'s \<Rightarrow> u32 \<Rightarrow> u8 list option"
    and fits :: "'s \<Rightarrow> u8 list \<Rightarrow> bool"
  assumes strings_distinct: "rep s bs \<Longrightarrow> distinct bs"
    and strings_bound: "rep s bs \<Longrightarrow> length bs < 2 ^ 32"
    and resolve_nth: "rep s bs \<Longrightarrow> resolve s i = nth_opt bs (unat i)"
    and intern_known: "rep s bs \<Longrightarrow> k < length bs \<Longrightarrow> intern (bs ! k) s = (Ok (as_u32 k), s)"
    and intern_new: "rep s bs \<Longrightarrow> b \<notin> set bs \<Longrightarrow> fits s b \<Longrightarrow>
      \<exists>s'. intern b s = (Ok (as_u32 (length bs)), s') \<and> rep s' (bs @ [b])"
begin

definition insert_string :: "u8 list \<Rightarrow> u8 list list \<Rightarrow> u8 list list" where
  "insert_string b bs = (if b \<in> set bs then bs else bs @ [b])"

lemma intern_total:
  assumes "rep s bs" and "fits s b"
  obtains i s' where "intern b s = (Ok i, s')" "rep s' (insert_string b bs)"
    "unat i < length (insert_string b bs)" "insert_string b bs ! unat i = b"
proof (cases "b \<in> set bs")
  case True
  then obtain k where "k < length bs" "bs ! k = b" by (auto simp: in_set_conv_nth)
  then show thesis
    using that [of "as_u32 k" s] intern_known [OF assms(1)] strings_bound [OF assms(1)] assms(1) True
    by (auto simp: insert_string_def)
next
  case False
  then show thesis
    using that [of "as_u32 (length bs)"] intern_new [OF assms(1) False assms(2)] strings_bound [OF assms(1)]
    by (auto simp: insert_string_def)
qed

text \<open>Interning resolves, is stable, and keeps every other id.\<close>

lemma intern_resolve:
  assumes "rep s bs" and "fits s b" and "intern b s = (Ok i, s')"
  shows "resolve s' i = Some b"
    and "resolve s j = Some c \<Longrightarrow> resolve s' j = Some c"
    and "intern b s' = (Ok i, s')"
proof -
  obtain bs' where bs': "bs' = insert_string b bs" and rep': "rep s' bs'"
    and i: "unat i < length bs'" "bs' ! unat i = b"
    using intern_total [OF assms(1,2)] assms(3) by (metis fst_conv res.inject(1) snd_conv)
  show "resolve s' i = Some b" using i resolve_nth [OF rep'] by simp
  show "resolve s j = Some c \<Longrightarrow> resolve s' j = Some c"
    using resolve_nth [OF assms(1)] resolve_nth [OF rep']
    by (auto simp: bs' insert_string_def nth_append)
  show "intern b s' = (Ok i, s')" using intern_known [OF rep' i(1)] i(2) by simp
qed

text \<open>Two ids are equal exactly when they stand for the same string.\<close>

lemma resolve_inj:
  assumes "rep s bs" and "resolve s i = Some b" and "resolve s j = Some c"
  shows "i = j \<longleftrightarrow> b = c"
  using assms strings_distinct [OF assms(1)] resolve_nth [OF assms(1)]
  by (auto simp: nth_eq_iff_index_eq unat_eq_iff)

end

interpretation dict: interner "\<lambda>(d, p). dict_rep d p" dict_intern "\<lambda>(d, p). bytes_of d p" dict_fits
proof
  fix s :: "dict \<times> pager" and bs
  assume rep: "(case s of (d, p) \<Rightarrow> dict_rep d p) bs"
  obtain d p where s: "s = (d, p)" by (cases s)
  have r: "dict_rep d p bs" using rep s by simp
  show "distinct bs" using r by (simp add: dict_rep_def)
  show "length bs < 2 ^ 32" using dict_rep_len [OF r] by simp
  show "(case s of (d, p) \<Rightarrow> bytes_of d p) i = nth_opt bs (unat i)" for i
    using dict_rep_bytes_of [OF r] s by simp
  show "dict_intern (bs ! k) s = (Ok (as_u32 k), s)" if "k < length bs" for k
    using dict_intern_known [OF r that] s by simp
  show "\<exists>s'. dict_intern b s = (Ok (as_u32 (length bs)), s') \<and> (case s' of (d, p) \<Rightarrow> dict_rep d p) (bs @ [b])"
    if "b \<notin> set bs" "dict_fits s b" for b
    using dict_intern_new [OF r that(1)] that(2) s by fastforce
qed

section \<open>Rebuilding the mirror from a page\<close>

lemma from_page_loop_view:
  assumes "drop pos buf = enc_from i cs @ post" and "pos + length (enc_from i cs) < 2 ^ 32"
    and "i + length cs < 2 ^ 29" and "\<forall>k \<in> fst ` set (entries d). k < as_u32 i"
    and "next_id d = as_u32 i"
  shows "from_page_loop (length cs) buf pos d = Ok (d\<lparr>entries := entries d @ ent_from i pos cs,
     by_bytes := foldl (\<lambda>m (b, k). bm_insert b k m) (by_bytes d) (zip cs (map as_u32 [i..<i + length cs])),
     next_id := as_u32 (i + length cs)\<rparr>)"
  using assms
proof (induction cs arbitrary: i pos d)
  case (Cons c cs)
  let ?h = "u32_le (as_u32 i) @ len_le (length c)"
  let ?d = "d\<lparr>entries := entries d @ [(as_u32 i, as_u32 (pos + 8), as_u32 (length c))],
      by_bytes := bm_insert c (as_u32 i) (by_bytes d), next_id := as_u32 (Suc i)\<rparr>"
  have d0: "drop pos buf = u32_le (as_u32 i) @ (len_le (length c) @ c @ enc_from (Suc i) cs @ post)"
    using Cons.prems(1) by simp
  have d1: "drop (pos + 4) buf = len_le (length c) @ (c @ enc_from (Suc i) cs @ post)"
    using drop_advance [OF d0] by simp
  have d2: "drop (pos + 8) buf = c @ (enc_from (Suc i) cs @ post)"
    using drop_advance [OF d1] by (simp add: add.assoc)
  have d3: "drop (pos + 8 + length c) buf = enc_from (Suc i) cs @ post"
    using drop_advance [OF d2] .
  have le: "pos + 8 + length c \<le> length buf"
    using drop_prefix_le [of pos buf "?h @ c"] Cons.prems(1) by simp
  have c: "length c < 2 ^ 32" using Cons.prems(2) by simp
  have reads: "read_u32 buf pos = (Ok (as_u32 i) :: u32 result)"
    "read_u32 buf (pos + 4) = (Ok (as_u32 (length c)) :: u32 result)"
    "slice buf (pos + 8) (pos + 8 + length c) = (Ok c :: u8 list result)"
    using read_u32_view [OF d0] read_len_view [OF d1] slice_at [OF d2] le by simp_all
  have ins: "bm_insert (as_u32 i) (as_u32 (pos + 8), as_u32 (length c)) (entries d) =
      entries d @ [(as_u32 i, as_u32 (pos + 8), as_u32 (length c))]"
    using Cons.prems(4) by (rule bm_insert_append)
  have i: "as_u32 i \<noteq> u32_max"
  proof
    assume "as_u32 i = u32_max"
    then have "unat (as_u32 i) = unat u32_max" by simp
    then show False using Cons.prems(3) by (simp add: u32_max_def)
  qed
  have step: "from_page_loop (Suc (length cs)) buf pos d = from_page_loop (length cs) buf (pos + 8 + length c) ?d"
    using le c i Cons.prems(5) by (simp add: reads Let_def ins as_u32_Suc not_less)
  have "\<forall>k \<in> fst ` set (entries ?d). k < as_u32 (Suc i)"
    using Cons.prems(3,4) as_u32_less [of i "Suc i"] by (auto intro: order.strict_trans)
  then show ?case
    using Cons.IH [OF d3, of ?d] Cons.prems(2,3) step
    by (simp add: upt_conv_Cons add.assoc del: upt_Suc)
qed simp

text \<open>The mirror rebuilt from a page's bytes represents the same strings.\<close>

lemma dict_from_page_rep:
  assumes rep: "dict_rep d p bs" and pg: "pager_get p (dct_page d) = Some pg"
    and len: "dict_page_capacity \<le> length (pg_buf pg)"
  obtains d' where "dict_from_page (dct_page d) (pg_buf pg) g = Ok d'" "dict_rep d' p bs" "dct_gen d' = g"
proof -
  obtain pad where buf: "pg_buf pg = dict_layout bs @ pad" and c: "capacity d = length (pg_buf pg)"
    using rep pg by (auto elim: dict_rep_page)
  let ?d0 = "(dict_new (dct_page d))\<lparr>dct_gen := g, capacity := max (length (pg_buf pg)) dict_page_capacity\<rparr>"
  let ?d' = "?d0\<lparr>entries := ent_from 0 4 bs,
     by_bytes := foldl (\<lambda>m (b, k). bm_insert b k m) [] (zip bs (map as_u32 [0..<length bs])),
     next_id := as_u32 (length bs)\<rparr>"
  have size: "dict_size bs < 2 ^ 32" and dist: "distinct bs" using rep by (simp_all add: dict_rep_def)
  have n: "length bs < 2 ^ 29" by (rule dict_rep_len [OF rep])
  have d0: "drop 0 (pg_buf pg) = len_le (length bs) @ (enc_from 0 bs @ pad)"
    by (simp add: buf dict_layout_def)
  have d4: "drop 4 (pg_buf pg) = enc_from 0 bs @ pad"
    using drop_advance [OF d0] by simp
  have "from_page_loop (length bs) (pg_buf pg) 4 ?d0 = Ok ?d'"
    using from_page_loop_view [OF d4, of ?d0] size n
    by (simp add: enc_from_length dict_size_def dict_new_def as_u32_def)
  moreover have "read_u32 (pg_buf pg) 0 = (Ok (as_u32 (length bs)) :: u32 result)"
    by (rule read_len_view [OF d0])
  moreover have "4 \<le> length (pg_buf pg)" using len by (simp add: dict_page_capacity_def)
  ultimately have "dict_from_page (dct_page d) (pg_buf pg) g = Ok ?d'"
    using n by (simp add: dict_from_page_def Let_def)
  moreover have "dict_rep ?d' p bs"
  proof -
    have "bm_get (foldl (\<lambda>m (b, k). bm_insert b k m) [] (zip bs (map as_u32 [0..<length bs]))) =
        map_of (rev (zip bs (map as_u32 [0..<length bs])))"
      using bm.get_insert_all [of "[] :: (u8 list, u32) bmap" "zip bs (map as_u32 [0..<length bs])"]
      by (simp add: fun_eq_iff map_add_def split: option.split)
    also have "\<dots> = map_of (zip bs (map as_u32 [0..<length bs]))"
      using dist by (subst map_of_inject_set) (auto simp: rev_map [symmetric])
    finally show ?thesis using size dist pg buf len by (auto simp: dict_rep_def dict_new_def max_def)
  qed
  ultimately show thesis by (intro that [of ?d']) simp_all
qed

lemma dict_allocate_rep:
  assumes ok: "pager_ok p" and a: "dict_allocate p = (Ok pid, p')"
  shows "dict_rep (dict_new pid) p' []"
proof -
  have "pager_get p' pid = Some (page_new pid PkDict (replicate dict_page_capacity 0) (next_alloc p))"
    using pager_alloc_get(2) [OF ok] a by (simp add: dict_allocate_def)
  moreover have "dict_layout [] = replicate 4 0"
    by code_simp
  then have "replicate dict_page_capacity 0 = dict_layout [] @ replicate 60 0"
    by (simp add: dict_page_capacity_def replicate_add [symmetric])
  ultimately show ?thesis
    by (simp add: dict_rep_def dict_new_def page_new_def dict_page_capacity_def dict_layout_length
        dict_size_def as_u32_def)
qed

end
