(* ===== verification/Fsms.thy ===== *)
theory Fsms
  imports Errors SortedMap Records
begin

text \<open>
  The free-space map (\<open>src/src/fsm.rs\<close>): the free-page list and the free bytes of each page, the
  choice of a page for an insert, and the container form.
\<close>

record fsm =
  free_pages :: "u32 list"
  space :: "(u32, u32) bmap"

definition fsm_new :: fsm where
  "fsm_new = \<lparr>free_pages = [], space = []\<rparr>"

definition return_page :: "u32 \<Rightarrow> fsm \<Rightarrow> fsm" where
  "return_page i f = f\<lparr>free_pages := bs_insert i (free_pages f), space := bm_remove i (space f)\<rparr>"

definition take_free_page :: "fsm \<Rightarrow> u32 option \<times> fsm" where
  "take_free_page f = (case free_pages f of [] \<Rightarrow> (None, f)
     | i # _ \<Rightarrow> (Some i, f\<lparr>free_pages := bs_remove i (free_pages f)\<rparr>))"

definition has_free_page :: "fsm \<Rightarrow> bool" where
  "has_free_page f \<longleftrightarrow> free_pages f \<noteq> []"

definition free_page_count :: "fsm \<Rightarrow> nat" where
  "free_page_count f = length (free_pages f)"

definition set_space :: "u32 \<Rightarrow> u32 \<Rightarrow> fsm \<Rightarrow> fsm" where
  "set_space i free f = f\<lparr>space := bm_insert i free (space f)\<rparr>"

definition space_of :: "fsm \<Rightarrow> u32 \<Rightarrow> u32" where
  "space_of f i = (case bm_get (space f) i of None \<Rightarrow> 0 | Some v \<Rightarrow> v)"

text \<open>\<open>(cur + delta).max(0) as u32\<close>, computed in \<open>i64\<close>; the callers' deltas are row widths.\<close>

definition adjust_space :: "u32 \<Rightarrow> int \<Rightarrow> fsm \<Rightarrow> fsm" where
  "adjust_space i delta f =
     f\<lparr>space := bm_insert i (word_of_int (max (int (unat (space_of f i)) + delta) 0)) (space f)\<rparr>"

fun better :: "u32 \<Rightarrow> (u32 \<times> u32) option \<Rightarrow> u32 \<times> u32 \<Rightarrow> (u32 \<times> u32) option" where
  "better need best (i, free) =
     (if need \<le> free then
        (case best of Some (_, bf) \<Rightarrow> if free \<le> bf then best else Some (i, free)
         | None \<Rightarrow> Some (i, free))
      else best)"

definition page_with_space :: "fsm \<Rightarrow> u32 \<Rightarrow> u32 option" where
  "page_with_space f need = map_option fst (foldl (better need) None (space f))"

definition forget :: "u32 \<Rightarrow> fsm \<Rightarrow> fsm" where
  "forget i f = f\<lparr>free_pages := bs_remove i (free_pages f), space := bm_remove i (space f)\<rparr>"

definition total_free_space :: "fsm \<Rightarrow> nat" where
  "total_free_space f = sum_list (map (\<lambda>(_, v). unat v) (space f))"

section \<open>The container form\<close>

definition encode_space :: "u32 \<times> u32 \<Rightarrow> u8 list" where
  "encode_space e = u32_le (fst e) @ u32_le (snd e)"

definition fsm_encode :: "fsm \<Rightarrow> u8 list" where
  "fsm_encode f = len_le (length (free_pages f)) @ concat (map u32_le (free_pages f)) @
     len_le (length (space f)) @ concat (map encode_space (space f))"

definition read_space :: "u8 list \<Rightarrow> nat \<Rightarrow> (u32 \<times> u32) result" where
  "read_space buf pos = rbind (read_u32 buf pos) (\<lambda>i. rbind (read_u32 buf (pos + 4)) (\<lambda>v. Ok (i, v)))"

definition fsm_decode :: "u8 list \<Rightarrow> fsm result" where
  "fsm_decode buf =
     (if length buf < 4 then Ok fsm_new
      else rbind (read_u32 buf 0) (\<lambda>n.
        rbind (scan_records 4 read_u32 (\<lambda>f i. f\<lparr>free_pages := bs_insert i (free_pages f)\<rparr>) Ok
                 (unat n) buf 4 fsm_new) (\<lambda>(f, pos).
          if length buf < pos + 4 then Ok f
          else rbind (read_u32 buf pos) (\<lambda>m.
            rbind (scan_records 8 read_space (\<lambda>f (i, v). f\<lparr>space := bm_insert i v (space f)\<rparr>) Ok
                     (unat m) buf (pos + 4) f) (\<lambda>(f, _). Ok f)))))"

section \<open>Facts\<close>

definition fsm_ok :: "fsm \<Rightarrow> bool" where
  "fsm_ok f \<longleftrightarrow> bs_ok (free_pages f) \<and> bm_ok (space f)"

lemma fsm_ok_new [simp]: "fsm_ok fsm_new"
  by (simp add: fsm_ok_def fsm_new_def bs_ok_def)

lemma fsm_ok_ops [simp]:
  assumes "fsm_ok f"
  shows "fsm_ok (return_page i f)" "fsm_ok (set_space i v f)" "fsm_ok (adjust_space i d f)"
    "fsm_ok (forget i f)" "fsm_ok (snd (take_free_page f))"
  using assms by (simp_all add: fsm_ok_def return_page_def set_space_def adjust_space_def forget_def)
    (auto simp: take_free_page_def bs_ok_def split: list.split)

text \<open>\<open>forget\<close> after \<open>return_page\<close> would lose the page; the code calls them the other way round.\<close>

lemma return_after_forget:
  "fsm_ok f \<Longrightarrow> i \<in> set (free_pages (return_page i (forget i f))) \<and>
     bm_get (space (return_page i (forget i f))) i = None"
  by (simp add: return_page_def forget_def fsm_ok_def)

lemma take_free_page_least:
  assumes "fsm_ok f" and "take_free_page f = (Some i, f')"
  shows "i \<in> set (free_pages f)" and "j \<in> set (free_pages f) \<Longrightarrow> i \<le> j"
    and "set (free_pages f') = set (free_pages f) - {i}" and "space f' = space f"
proof -
  obtain js where f: "free_pages f = i # js" and f': "f' = f\<lparr>free_pages := bs_remove i (free_pages f)\<rparr>"
    using assms(2) by (auto simp: take_free_page_def split: list.splits)
  show "i \<in> set (free_pages f)" "space f' = space f" using f f' by simp_all
  show "j \<in> set (free_pages f) \<Longrightarrow> i \<le> j"
    using assms(1) f by (auto simp: fsm_ok_def bs_ok_def)
  show "set (free_pages f') = set (free_pages f) - {i}"
    using assms(1) f' bs_remove_set [of "free_pages f" i] by (simp add: fsm_ok_def)
qed

text \<open>
  The scan keeps the best page so far: one with room, at least as much as any page seen, and
  more than any page seen before it.
\<close>

definition best_of :: "u32 \<Rightarrow> (u32 \<times> u32) list \<Rightarrow> (u32 \<times> u32) option \<Rightarrow> bool" where
  "best_of need es b = (case b of
       None \<Rightarrow> \<forall>(i, v) \<in> set es. v < need
     | Some (i, v) \<Rightarrow> need \<le> v \<and> (\<exists>xs ys. es = xs @ (i, v) # ys \<and> (\<forall>(j, w) \<in> set xs. w < v) \<and>
         (\<forall>(j, w) \<in> set ys. w \<le> v)))"

lemma best_of_snoc:
  assumes "need \<le> v" and "\<forall>(j, w) \<in> set es. w < v"
  shows "best_of need (es @ [(i, v)]) (Some (i, v))"
proof -
  have "\<exists>xs ys. es @ [(i, v)] = xs @ (i, v) # ys \<and> (\<forall>(j, w) \<in> set xs. w < v) \<and>
      (\<forall>(j, w) \<in> set ys. w \<le> v)"
    using assms(2) by (intro exI [of _ es] exI [of _ "[]"]) simp
  with assms(1) show ?thesis by (simp add: best_of_def)
qed

lemma best_of_scan: "best_of need es (foldl (better need) None es)"
proof (induction es rule: rev_induct)
  case (snoc e es)
  obtain i v where e: "e = (i, v)" by (cases e)
  show ?case
  proof (cases "foldl (better need) None es")
    case None
    with snoc have low: "\<forall>(j, w) \<in> set es. w < need" by (simp add: best_of_def)
    show ?thesis
    proof (cases "need \<le> v")
      case True
      with low have "\<forall>(j, w) \<in> set es. w < v" by auto
      with True best_of_snoc show ?thesis by (simp add: None e)
    qed (use low in \<open>auto simp: None e best_of_def\<close>)
  next
    case (Some b)
    obtain k u where b: "b = (k, u)" by (cases b)
    from snoc Some b obtain xs ys where es: "es = xs @ (k, u) # ys" "need \<le> u"
      "\<forall>(j, w) \<in> set xs. w < u" "\<forall>(j, w) \<in> set ys. w \<le> u"
      by (auto simp: best_of_def)
    show ?thesis
    proof (cases "need \<le> v \<and> u < v")
      case True
      then have "\<forall>(j, w) \<in> set es. w < v" using es by auto
      with True best_of_snoc [of need v es i] show ?thesis by (auto simp: Some b e)
    next
      case False
      then have keep: "foldl (better need) None (es @ [e]) = Some (k, u)" and v: "v \<le> u"
        using es(2) by (auto simp: Some b e)
      have "es @ [e] = xs @ (k, u) # (ys @ [e])" "\<forall>(j, w) \<in> set (ys @ [e]). w \<le> u"
        using es v e by auto
      then have "\<exists>xs' ys'. es @ [e] = xs' @ (k, u) # ys' \<and> (\<forall>(j, w) \<in> set xs'. w < u) \<and>
          (\<forall>(j, w) \<in> set ys'. w \<le> u)"
        using es(3) by (intro exI [of _ xs] exI [of _ "ys @ [e]"]) simp
      then show ?thesis using es(2) unfolding keep best_of_def by simp
    qed
  qed
qed (simp add: best_of_def)

lemma page_with_space_None:
  assumes "fsm_ok f"
  shows "page_with_space f need = None \<longleftrightarrow> (\<forall>i v. bm_get (space f) i = Some v \<longrightarrow> v < need)"
proof -
  have get: "bm_get (space f) i = Some v \<longleftrightarrow> (i, v) \<in> set (space f)" for i v
    using assms by (simp add: fsm_ok_def bm_get_Some_iff)
  show ?thesis
  proof (cases "foldl (better need) None (space f)")
    case None
    then show ?thesis using best_of_scan [of need "space f"]
      by (auto simp: page_with_space_def best_of_def get)
  next
    case (Some b)
    obtain i v where b: "b = (i, v)" by (cases b)
    have "(i, v) \<in> set (space f)" "need \<le> v"
      using best_of_scan [of need "space f"] unfolding Some b best_of_def by auto
    then show ?thesis by (force simp: page_with_space_def Some get not_less [symmetric])
  qed
qed

lemma page_with_space_Some:
  assumes "fsm_ok f" and "page_with_space f need = Some i"
  obtains v where "bm_get (space f) i = Some v" "need \<le> v"
    "\<And>j w. bm_get (space f) j = Some w \<Longrightarrow> w < v \<or> w = v \<and> i \<le> j"
proof -
  obtain v where b: "foldl (better need) None (space f) = Some (i, v)"
    using assms(2) by (auto simp: page_with_space_def)
  then obtain xs ys where es: "space f = xs @ (i, v) # ys" "need \<le> v"
    "\<forall>(j, w) \<in> set xs. w < v" "\<forall>(j, w) \<in> set ys. w \<le> v"
    using best_of_scan [of need "space f"] by (auto simp: best_of_def)
  have ok: "bm_ok (space f)" using assms(1) by (simp add: fsm_ok_def)
  have later: "i < j" if "(j, w) \<in> set ys" for j w
    using ok that by (auto simp: es(1) bm_ok_def sorted_wrt_append)
  show thesis
  proof (rule that [of v])
    show "bm_get (space f) i = Some v" by (subst bm_get_Some_iff [OF ok]) (simp add: es(1))
    show "w < v \<or> w = v \<and> i \<le> j" if "bm_get (space f) j = Some w" for j w
    proof -
      have "(j, w) \<in> set (space f)" using that bm_get_Some_iff [OF ok] by blast
      then show ?thesis using es later by (auto simp: less_imp_le order.order_iff_strict)
    qed
  qed (rule es(2))
qed

interpretation space_rec: record_codec 8 "\<lambda>_. True" encode_space read_space
proof
  fix e :: "u32 \<times> u32" and pos buf post
  assume d: "drop pos buf = encode_space e @ post"
  then have d0: "drop pos buf = u32_le (fst e) @ (u32_le (snd e) @ post)" by (simp add: encode_space_def)
  have "drop (pos + 4) buf = u32_le (snd e) @ post" using drop_advance [OF d0] by simp
  then show "read_space buf pos = Ok e" by (simp add: read_space_def read_u32_view [OF d0] read_u32_view)
next
  fix pos and buf :: "u8 list"
  assume "pos + 8 \<le> length buf"
  then show "\<exists>e. read_space buf pos = Ok e" by (simp add: read_space_def read_u32_eq)
qed (simp_all add: encode_space_def)

lemma fold_free: "foldl (\<lambda>f i. f\<lparr>free_pages := bs_insert i (free_pages f)\<rparr>) f is =
    f\<lparr>free_pages := foldl (\<lambda>m k. bs_insert k m) (free_pages f) is\<rparr>"
  by (induction "is" arbitrary: f) auto

lemma fold_space: "foldl (\<lambda>f (i, v). f\<lparr>space := bm_insert i v (space f)\<rparr>) f es =
    f\<lparr>space := foldl (\<lambda>m (k, v). bm_insert k v m) (space f) es\<rparr>"
  by (induction es arbitrary: f) auto

lemma fsm_decode_encode:
  assumes ok: "fsm_ok f" and "length (free_pages f) < 2 ^ 32" and "length (space f) < 2 ^ 32"
  shows "fsm_decode (fsm_encode f @ post) = Ok f"
proof -
  let ?buf = "fsm_encode f @ post" and ?p = "4 + 4 * length (free_pages f)"
  have d0: "drop 0 ?buf = len_le (length (free_pages f)) @ (concat (map u32_le (free_pages f)) @
      len_le (length (space f)) @ concat (map encode_space (space f)) @ post)"
    by (simp add: fsm_encode_def)
  have d1: "drop 4 ?buf = concat (map u32_le (free_pages f)) @
      (len_le (length (space f)) @ concat (map encode_space (space f)) @ post)"
    using drop_advance [OF d0] by simp
  have d2: "drop ?p ?buf = len_le (length (space f)) @ (concat (map encode_space (space f)) @ post)"
    using drop_advance [OF d1] by (simp add: u32_rec.table_length)
  have d3: "drop (?p + 4) ?buf = concat (map encode_space (space f)) @ post"
    using drop_advance [OF d2] by simp
  have le: "?p + 4 \<le> length ?buf" using drop_prefix_le [OF d2] by simp
  let ?f1 = "fsm_new\<lparr>free_pages := free_pages f\<rparr>"
  have s1: "scan_records 4 read_u32 (\<lambda>f i. f\<lparr>free_pages := bs_insert i (free_pages f)\<rparr>) Ok
      (length (free_pages f)) ?buf 4 fsm_new = (Ok (?f1, ?p) :: (fsm \<times> nat) result)"
    using bs_rebuild [of "free_pages f"] ok
    by (simp add: u32_rec.scan_table [OF d1] fold_free fsm_new_def fsm_ok_def)
  have s2': "scan_records 8 read_space (\<lambda>f (i, v). f\<lparr>space := bm_insert i v (space f)\<rparr>) Ok
      (length (space f)) ?buf (?p + 4) ?f1 =
      Ok (foldl (\<lambda>f (i, v). f\<lparr>space := bm_insert i v (space f)\<rparr>) ?f1 (space f),
        ?p + 4 + 8 * length (space f))"
    by (rule space_rec.scan_table [OF d3]) simp
  have s2: "scan_records 8 read_space (\<lambda>f (i, v). f\<lparr>space := bm_insert i v (space f)\<rparr>) Ok
      (length (space f)) ?buf (?p + 4) ?f1 = Ok (f, ?p + 4 + 8 * length (space f))"
    unfolding s2' using bm_rebuild [of "space f"] ok
    by (simp add: fold_space fsm_new_def fsm_ok_def)
  have r: "read_u32 ?buf 0 = (Ok (as_u32 (length (free_pages f))) :: u32 result)"
    "read_u32 ?buf ?p = (Ok (as_u32 (length (space f))) :: u32 result)"
    by (rule read_len_view [OF d0], rule read_len_view [OF d2])
  have "4 \<le> length ?buf" using le by simp
  then show ?thesis
    using assms(2,3) le s1 s2 r by (simp add: fsm_decode_def not_less del: length_append)
qed

lemma fsm_decode_total: "\<exists>f. fsm_decode buf = Ok f"
proof (cases "length buf < 4")
  case False
  then obtain n where n: "read_u32 buf 0 = (Ok n :: u32 result)" by (simp add: read_u32_eq)
  obtain f1 p1 where s: "scan_records 4 read_u32 (\<lambda>f i. f\<lparr>free_pages := bs_insert i (free_pages f)\<rparr>) Ok
      (unat n) buf 4 fsm_new = (Ok (f1, p1) :: (fsm \<times> nat) result)"
    using u32_rec.scan_break_total [of "\<lambda>f i. f\<lparr>free_pages := bs_insert i (free_pages f)\<rparr>" "unat n" buf 4 fsm_new]
    by blast
  show ?thesis
  proof (cases "length buf < p1 + 4")
    case False': False
    then obtain m where m: "read_u32 buf p1 = (Ok m :: u32 result)" by (simp add: read_u32_eq)
    show ?thesis
      using False False' n s m space_rec.scan_break_total
        [of "\<lambda>f (i, v). f\<lparr>space := bm_insert i v (space f)\<rparr>" "unat m" buf "p1 + 4" f1]
      by (auto simp: fsm_decode_def)
  qed (use False n s in \<open>simp add: fsm_decode_def\<close>)
qed (simp add: fsm_decode_def)

end
