(* ===== verification/RowIds.thy ===== *)
theory RowIds
  imports Pagers SortedMap Records
begin

text \<open>
  The row-id map (\<open>src/src/rowid.rs\<close>): where each live row is, with the table form it has in the
  container.
\<close>

type_synonym rowid_map = "(u64, u32 \<times> nat) bmap"

definition rid_insert :: "u64 \<Rightarrow> u32 \<Rightarrow> nat \<Rightarrow> rowid_map \<Rightarrow> rowid_map" where
  "rid_insert r pg slot m = bm_insert r (pg, slot) m"

definition rid_get :: "rowid_map \<Rightarrow> u64 \<Rightarrow> (u32 \<times> nat) option" where
  "rid_get m r = bm_get m r"

definition rid_remove :: "u64 \<Rightarrow> rowid_map \<Rightarrow> (u32 \<times> nat) option \<times> rowid_map" where
  "rid_remove r m = (bm_get m r, bm_remove r m)"

definition rid_contains :: "rowid_map \<Rightarrow> u64 \<Rightarrow> bool" where
  "rid_contains m r \<longleftrightarrow> bm_get m r \<noteq> None"

definition rid_len :: "rowid_map \<Rightarrow> nat" where
  "rid_len m = length m"

definition row_ids :: "rowid_map \<Rightarrow> u64 list" where
  "row_ids m = bm_keys m"

definition rows_in_page :: "rowid_map \<Rightarrow> u32 \<Rightarrow> (u64 \<times> nat) list" where
  "rows_in_page m pg = map (\<lambda>(r, (_, s)). (r, s)) (filter (\<lambda>(_, (p, _)). p = pg) m)"

definition set_slot :: "u64 \<Rightarrow> nat \<Rightarrow> rowid_map \<Rightarrow> bool \<times> rowid_map" where
  "set_slot r slot m = (case bm_get m r of None \<Rightarrow> (False, m)
     | Some (p, _) \<Rightarrow> (True, bm_insert r (p, slot) m))"

definition relocate :: "u64 \<Rightarrow> u32 \<Rightarrow> nat \<Rightarrow> rowid_map \<Rightarrow> bool \<times> rowid_map" where
  "relocate r pg slot m = (case bm_get m r of None \<Rightarrow> (False, m)
     | Some _ \<Rightarrow> (True, bm_insert r (pg, slot) m))"

section \<open>The container form\<close>

definition encode_rowid :: "u64 \<times> u32 \<times> nat \<Rightarrow> u8 list" where
  "encode_rowid e = (case e of (r, p, s) \<Rightarrow> u64_le r @ u32_le p @ len_le s)"

definition rowid_encode :: "rowid_map \<Rightarrow> u8 list" where
  "rowid_encode m = len_le (length m) @ concat (map encode_rowid m)"

definition read_rowid :: "u8 list \<Rightarrow> nat \<Rightarrow> (u64 \<times> u32 \<times> nat) result" where
  "read_rowid buf pos = rbind (read_u64 buf pos) (\<lambda>r. rbind (read_u32 buf (pos + 8)) (\<lambda>p.
     rbind (read_u32 buf (pos + 12)) (\<lambda>s. Ok (r, p, unat s))))"

definition rowid_decode :: "u8 list \<Rightarrow> rowid_map result" where
  "rowid_decode buf =
     (if length buf < 4 then Ok []
      else rbind (read_u32 buf 0) (\<lambda>n.
        rbind (scan_records 16 read_rowid (\<lambda>m (r, p, s). rid_insert r p s m) Ok (unat n) buf 4 [])
          (\<lambda>(m, _). Ok m)))"

section \<open>Facts\<close>

text \<open>A slot is stored in four bytes, so it survives when it is below \<open>2 ^ 32\<close>.\<close>

definition row_entry_ok :: "u64 \<times> u32 \<times> nat \<Rightarrow> bool" where
  "row_entry_ok e = (case e of (_, _, s) \<Rightarrow> s < 2 ^ 32)"

interpretation rowid_rec: record_codec 16 row_entry_ok encode_rowid read_rowid
proof
  fix e :: "u64 \<times> u32 \<times> nat" and pos buf post
  obtain r p s where e: "e = (r, p, s)" by (metis prod.exhaust)
  show "length (encode_rowid e) = 16" by (simp add: encode_rowid_def e)
  assume ok: "row_entry_ok e" and d: "drop pos buf = encode_rowid e @ post"
  have d0: "drop pos buf = u64_le r @ (u32_le p @ len_le s @ post)"
    using d by (simp add: encode_rowid_def e)
  have d1: "drop (pos + 8) buf = u32_le p @ (len_le s @ post)"
    using drop_advance [OF d0] by simp
  have d2: "drop (pos + 12) buf = len_le s @ post"
    using drop_advance [OF d1] by (simp add: add.assoc)
  show "read_rowid buf pos = Ok e"
    using ok by (simp add: read_rowid_def read_u64_view [OF d0] read_u32_view [OF d1]
        read_len_view [OF d2] row_entry_ok_def e)
next
  fix pos and buf :: "u8 list"
  assume "pos + 16 \<le> length buf"
  then show "\<exists>e. read_rowid buf pos = Ok e"
    by (simp add: read_rowid_def read_u64_eq read_u32_eq)
qed simp

definition rowid_map_ok :: "rowid_map \<Rightarrow> bool" where
  "rowid_map_ok m \<longleftrightarrow> bm_ok m \<and> length m < 2 ^ 32 \<and> (\<forall>e \<in> set m. row_entry_ok e)"

lemma rowid_decode_encode:
  assumes "rowid_map_ok m"
  shows "rowid_decode (rowid_encode m @ post) = Ok m"
proof -
  let ?buf = "rowid_encode m @ post"
  have d0: "drop 0 ?buf = len_le (length m) @ (concat (map encode_rowid m) @ post)"
    by (simp add: rowid_encode_def)
  have d4: "drop 4 ?buf = concat (map encode_rowid m) @ post"
    using drop_advance [OF d0] by simp
  have "foldl (\<lambda>m (r, p, s). rid_insert r p s m) [] m = m"
    using bm_rebuild [of m] assms by (simp add: rowid_map_ok_def rid_insert_def case_prod_unfold)
  then show ?thesis
    using rowid_rec.scan_table [OF d4, of "\<lambda>m (r, p, s). rid_insert r p s m" Ok "[]"] assms
      read_len_view [OF d0, where 'a = error]
    by (simp add: rowid_decode_def rowid_map_ok_def) (simp add: rowid_encode_def)
qed

text \<open>Whatever the bytes are, a decoded map is a proper ordered map.\<close>

lemma rowid_decode_total: "\<exists>m. rowid_decode buf = Ok m"
proof (cases "length buf < 4")
  case False
  then obtain n where "read_u32 buf 0 = (Ok n :: u32 result)" by (simp add: read_u32_eq)
  then show ?thesis
    using False rowid_rec.scan_break_total [of "\<lambda>m (r, p, s). rid_insert r p s m" "unat n" buf 4 "[]"]
    by (auto simp: rowid_decode_def)
qed (simp add: rowid_decode_def)

lemma rid_get_insert [simp]: "rid_get (rid_insert r p s m) = (rid_get m)(r \<mapsto> (p, s))"
  by (simp add: rid_get_def [abs_def] rid_insert_def)

lemma rid_get_remove [simp]: "bm_ok m \<Longrightarrow> rid_get (snd (rid_remove r m)) = (rid_get m)(r := None)"
  by (simp add: rid_get_def [abs_def] rid_remove_def)

lemma rid_ok_insert [simp]: "bm_ok m \<Longrightarrow> bm_ok (rid_insert r p s m)"
  by (simp add: rid_insert_def)

lemma rid_ok_remove [simp]: "bm_ok m \<Longrightarrow> bm_ok (snd (rid_remove r m))"
  by (simp add: rid_remove_def)

lemma row_ids_set: "set (row_ids m) = dom (rid_get m)"
  by (simp add: row_ids_def bm_keys_set rid_get_def [abs_def])

lemma relocate_get:
  "rid_get (snd (relocate r p s m)) =
     (if rid_get m r = None then rid_get m else (rid_get m)(r \<mapsto> (p, s)))"
  by (simp add: relocate_def rid_get_def [abs_def] split: option.split)

lemma set_slot_get:
  "rid_get (snd (set_slot r s m)) =
     (case rid_get m r of None \<Rightarrow> rid_get m | Some (p, _) \<Rightarrow> (rid_get m)(r \<mapsto> (p, s)))"
  by (simp add: set_slot_def rid_get_def [abs_def] split: option.split)

lemma relocate_ok [simp]: "bm_ok m \<Longrightarrow> bm_ok (snd (relocate r p s m))"
  by (simp add: relocate_def split: option.split)

lemma rows_in_page_mem:
  "bm_ok m \<Longrightarrow> (r, s) \<in> set (rows_in_page m pg) \<longleftrightarrow> rid_get m r = Some (pg, s)"
  by (force simp: rows_in_page_def rid_get_def bm_get_Some_iff)

end
