(* ===== verification/Indexes.thy ===== *)
theory Indexes
  imports Dicts
begin

text \<open>
  The secondary index cache (\<open>src/src/index.rs\<close>). An entry caches a raw pointer into the
  dictionary page; a probe dereferences it. \<open>index_bound\<close> is the condition under which every cached
  pointer still points at its value; under it a probe is defined and exact, and when the page has
  been rewritten since the capture it is undefined behaviour.

  The pointer is modelled as the code uses it: \<open>ptr::add\<close> beyond one past the end of the buffer,
  a read through a dangling or null pointer, and a read outside the buffer are undefined. The length
  is read by \<open>ptr::read\<close> as a \<open>u32\<close>, which is undefined at an address that is not a multiple of four;
  the buffer itself is taken to start at such a multiple, as the system allocators return it.
\<close>

datatype ptr = NullPtr | Ptr nat nat

record index_entry =
  ie_value :: u32
  ie_ptr :: ptr
  ie_gen :: u64
  ie_rows :: "u64 list"

record index_cache =
  ic_column :: rstr
  ic_dict :: u32
  ic_entries :: "index_entry list"

definition index_empty :: "rstr \<Rightarrow> index_cache" where
  "index_empty c = \<lparr>ic_column = c, ic_dict = 0, ic_entries = []\<rparr>"

definition index_with_dict :: "rstr \<Rightarrow> u32 \<Rightarrow> index_cache" where
  "index_with_dict c pid = \<lparr>ic_column = c, ic_dict = pid, ic_entries = []\<rparr>"

text \<open>\<open>page.raw_ptr().add(off)\<close>\<close>

definition capture_ptr :: "page \<Rightarrow> nat \<Rightarrow> ptr result" where
  "capture_ptr pg off = (if off \<le> length (pg_buf pg) then Ok (Ptr (pg_alloc pg) off) else Undef)"

fun add_to_entries :: "u32 \<Rightarrow> ptr \<Rightarrow> u64 \<Rightarrow> u64 \<Rightarrow> index_entry list \<Rightarrow> index_entry list" where
  "add_to_entries v ptr g r [] = [\<lparr>ie_value = v, ie_ptr = ptr, ie_gen = g, ie_rows = [r]\<rparr>]"
| "add_to_entries v ptr g r (e # es) =
     (if ie_value e = v then
        (if r \<in> set (ie_rows e) then e else e\<lparr>ie_rows := ie_rows e @ [r]\<rparr>) # es
      else e # add_to_entries v ptr g r es)"

definition add_or_append :: "u32 \<Rightarrow> ptr \<Rightarrow> u64 \<Rightarrow> u64 \<Rightarrow> index_cache \<Rightarrow> index_cache" where
  "add_or_append v ptr g r idx = idx\<lparr>ic_entries := add_to_entries v ptr g r (ic_entries idx)\<rparr>"

definition entry_bytes :: "pager \<Rightarrow> index_entry \<Rightarrow> u8 list result" where
  "entry_bytes p e = (case ie_ptr e of NullPtr \<Rightarrow> Undef
     | Ptr a off \<Rightarrow> (case mem_lookup p a of None \<Rightarrow> Undef
         | Some buf \<Rightarrow>
             if off < 4 \<or> length buf < off \<or> \<not> 4 dvd off then Undef
             else let len = unat (u32_of_le (take 4 (drop (off - 4) buf))) in
               if length buf < off + len then Undef else Ok (take len (drop off buf))))"

fun probe_entries :: "pager \<Rightarrow> u8 list \<Rightarrow> index_entry list \<Rightarrow> u64 list result" where
  "probe_entries p q [] = Ok []"
| "probe_entries p q (e # es) =
     rbind (entry_bytes p e) (\<lambda>bytes.
       rbind (probe_entries p q es) (\<lambda>out. Ok (if bytes = q then ie_rows e @ out else out)))"

definition probe :: "index_cache \<Rightarrow> pager \<Rightarrow> u8 list \<Rightarrow> u64 list result" where
  "probe idx p q = probe_entries p q (ic_entries idx)"

definition all_rows :: "index_cache \<Rightarrow> u64 list" where
  "all_rows idx = concat (map ie_rows (ic_entries idx))"

fun rebind_entries :: "pager \<Rightarrow> u32 \<Rightarrow> (u32 \<times> u32) list \<Rightarrow> u64 \<Rightarrow> index_entry list \<Rightarrow> index_entry list result" where
  "rebind_entries p pid offsets g [] = Ok []"
| "rebind_entries p pid offsets g (e # es) =
     rbind (case nth_opt offsets (unat (ie_value e)) of None \<Rightarrow> Ok e
        | Some (off, _) \<Rightarrow> (case pager_get p pid of None \<Rightarrow> Ok e
            | Some pg \<Rightarrow> rbind (capture_ptr pg (unat off)) (\<lambda>ptr. Ok (e\<lparr>ie_ptr := ptr, ie_gen := g\<rparr>))))
       (\<lambda>e. rbind (rebind_entries p pid offsets g es) (\<lambda>es. Ok (e # es)))"

definition rebind :: "pager \<Rightarrow> (u32 \<times> u32) list \<Rightarrow> u64 \<Rightarrow> index_cache \<Rightarrow> index_cache result" where
  "rebind p offsets g idx =
     rbind (rebind_entries p (ic_dict idx) offsets g (ic_entries idx)) (\<lambda>es. Ok (idx\<lparr>ic_entries := es\<rparr>))"

definition bound_gen :: "index_cache \<Rightarrow> u64" where
  "bound_gen idx = foldl max 0 (map ie_gen (ic_entries idx))"

section \<open>When a probe is defined\<close>

text \<open>An entry points at its value in the current buffer of the dictionary's page.\<close>

definition entry_bound :: "dict \<Rightarrow> pager \<Rightarrow> index_entry \<Rightarrow> bool" where
  "entry_bound d p e \<longleftrightarrow> (\<exists>pg off len. pager_get p (dct_page d) = Some pg \<and>
     location_of d (ie_value e) = Some (off, len) \<and> ie_ptr e = Ptr (pg_alloc pg) (unat off))"

definition index_bound :: "dict \<Rightarrow> pager \<Rightarrow> index_cache \<Rightarrow> bool" where
  "index_bound d p idx \<longleftrightarrow> (\<forall>e \<in> set (ic_entries idx). entry_bound d p e)"

lemma dict_rep_location_id:
  assumes rep: "dict_rep d p bs" and loc: "location_of d i = Some (off, len)"
  shows "unat i < length bs"
proof -
  obtain pg pad where pg: "pager_get p (dct_page d) = Some pg" "pg_buf pg = dict_layout bs @ pad"
    "capacity d = length (pg_buf pg)"
    using rep by (rule dict_rep_page)
  have "map fst (entries d) = map as_u32 [0..<length bs]"
    using rep ent_from_keys [of 0 4 bs] by (simp add: dict_rep_def)
  then have "fst ` set (entries d) = as_u32 ` {0..<length bs}" by (metis list.set_map set_upt)
  moreover have "i \<in> fst ` set (entries d)"
    using loc bm_get_None_iff [of "entries d" i] by (auto simp: location_of_def)
  ultimately obtain k where "k < length bs" "i = as_u32 k" by auto
  then show ?thesis using dict_rep_len [OF rep] by simp
qed

text \<open>
  The length word of a string stands at a multiple of four exactly when the strings before it take a
  multiple of four bytes together: every string is preceded by eight bytes, the first one by four more.
\<close>

definition aligned :: "u8 list list \<Rightarrow> u32 \<Rightarrow> bool" where
  "aligned bs i \<longleftrightarrow> 4 dvd sum_list (map length (take (unat i) bs))"

lemma ent_offset:
  "k < length bs \<Longrightarrow> i + length bs < 2 ^ 32 \<Longrightarrow> map_of (ent_from i off bs) (as_u32 (i + k)) =
     Some (as_u32 (off + 8 * Suc k + sum_list (map length (take k bs))), as_u32 (length (bs ! k)))"
proof (induction bs arbitrary: i off k)
  case (Cons b bs)
  show ?case
  proof (cases k)
    case (Suc j)
    have "as_u32 (i + k) \<noteq> as_u32 i" using Cons.prems Suc as_u32_eq [of "i + k" i] by simp
    moreover have "map_of (ent_from (Suc i) (off + 8 + length b) bs) (as_u32 (Suc i + j)) =
        Some (as_u32 (off + 8 + length b + 8 * Suc j + sum_list (map length (take j bs))), as_u32 (length (bs ! j)))"
      by (rule Cons.IH) (use Cons.prems Suc in simp_all)
    ultimately show ?thesis by (simp add: Suc algebra_simps)
  qed simp
qed simp

lemma location_offset:
  assumes rep: "dict_rep d p bs" and loc: "location_of d i = Some (off, len)"
  shows "4 dvd unat off \<longleftrightarrow> aligned bs i"
proof -
  have k: "unat i < length bs" by (rule dict_rep_location_id [OF rep loc])
  have size: "dict_size bs < 2 ^ 32" and ent: "entries d = ent_from 0 4 bs" using rep by (auto simp: dict_rep_def)
  let ?s = "sum_list (map length (take (unat i) bs))"
  have "map_of (ent_from 0 4 bs) (as_u32 (0 + unat i)) =
      Some (as_u32 (4 + 8 * Suc (unat i) + ?s), as_u32 (length (bs ! unat i)))"
    by (rule ent_offset [OF k]) (use dict_rep_len [OF rep] in simp)
  then have off: "off = as_u32 (4 + 8 * Suc (unat i) + ?s)"
    using loc by (simp add: location_of_def bm_get_def ent)
  have "bs = take (unat i) bs @ bs ! unat i # drop (Suc (unat i)) bs" using k by (rule id_take_nth_drop)
  then have "dict_size bs = dict_size (take (unat i) bs @ bs ! unat i # drop (Suc (unat i)) bs)" by simp
  also have "\<dots> \<ge> 4 + 8 * Suc (unat i) + ?s" using k by (simp add: dict_size_def sum_list_addf comp_def min_def sum_list_triv)
  finally have "unat off = 4 + 8 * Suc (unat i) + ?s" using size off by simp
  then show ?thesis by (simp add: aligned_def) presburger
qed

lemma entry_bytes_bound:
  assumes rep: "dict_rep d p bs" and ok: "pager_ok p" and e: "entry_bound d p e"
  shows "unat (ie_value e) < length bs"
    and "entry_bytes p e = (if aligned bs (ie_value e) then Ok (bs ! unat (ie_value e)) else Undef)"
proof -
  obtain pg off len where pg: "pager_get p (dct_page d) = Some pg"
    and loc: "location_of d (ie_value e) = Some (off, len)"
    and ptr: "ie_ptr e = Ptr (pg_alloc pg) (unat off)"
    using e by (auto simp: entry_bound_def)
  show k: "unat (ie_value e) < length bs" by (rule dict_rep_location_id [OF rep loc])
  have "bm_get (entries d) (as_u32 (unat (ie_value e))) = Some (off, len)"
    using loc by (simp add: location_of_def)
  then have "get_range (pg_buf pg) (unat off) (unat off + unat len) = Some (bs ! unat (ie_value e)) \<and>
      4 \<le> unat off \<and> unat (u32_of_le (take 4 (drop (unat off - 4) (pg_buf pg)))) = unat len"
    using dict_rep_location [OF rep k] pg by auto
  then show "entry_bytes p e = (if aligned bs (ie_value e) then Ok (bs ! unat (ie_value e)) else Undef)"
    using mem_lookup_page [OF ok pg] ptr location_offset [OF rep loc]
    by (auto simp: entry_bytes_def get_range_def Let_def split: if_splits)
qed

text \<open>
  A probe of a bound index returns exactly the rows of the entries that hold the queried string, if the
  length words it reads are aligned; one that is not makes it undefined.
\<close>

lemma probe_entries_bound:
  assumes rep: "dict_rep d p bs" and ok: "pager_ok p" and b: "\<forall>e \<in> set es. entry_bound d p e"
  shows "probe_entries p q es = (if \<forall>e \<in> set es. aligned bs (ie_value e)
    then Ok (concat (map ie_rows (filter (\<lambda>e. bs ! unat (ie_value e) = q) es))) else Undef)"
  using b by (induction es) (auto simp: entry_bytes_bound [OF rep ok])

lemma probe_bound:
  assumes "dict_rep d p bs" and "pager_ok p" and "index_bound d p idx"
  shows "probe idx p q = (if \<forall>e \<in> set (ic_entries idx). aligned bs (ie_value e)
    then Ok (concat (map ie_rows (filter (\<lambda>e. bs ! unat (ie_value e) = q) (ic_entries idx)))) else Undef)"
  using probe_entries_bound [OF assms(1,2)] assms(3) by (simp add: probe_def index_bound_def)

text \<open>One dangling pointer is enough to make the probe undefined.\<close>

lemma entry_bytes_cases: "entry_bytes p e = Undef \<or> (\<exists>b. entry_bytes p e = Ok b)"
  by (auto simp: entry_bytes_def Let_def split: ptr.split option.split)

lemma probe_entries_cases: "probe_entries p q es = Undef \<or> (\<exists>out. probe_entries p q es = Ok out)"
proof (induction es)
  case (Cons e es)
  then show ?case using entry_bytes_cases [of p e] by auto
qed simp

lemma probe_entries_dangling:
  assumes "e \<in> set es" and "entry_bytes p e = Undef"
  shows "probe_entries p q es = Undef"
  using assms
proof (induction es)
  case (Cons x es)
  then show ?case using entry_bytes_cases [of p x] by auto
qed simp

lemma entry_bytes_dangling:
  "ie_ptr e = Ptr a off \<Longrightarrow> mem_lookup p a = None \<Longrightarrow> entry_bytes p e = Undef"
  by (simp add: entry_bytes_def)

section \<open>Maintenance\<close>

lemma add_to_entries_mem:
  "e \<in> set (add_to_entries v ptr g r es) \<Longrightarrow>
     (\<exists>e' \<in> set es. ie_value e = ie_value e' \<and> ie_ptr e = ie_ptr e') \<or> ie_value e = v \<and> ie_ptr e = ptr"
  by (induction es) (auto split: if_splits)

lemma add_or_append_bound:
  assumes "index_bound d p idx" and "pager_get p (dct_page d) = Some pg"
    and "location_of d v = Some (off, len)" and "capture_ptr pg (unat off) = Ok ptr"
  shows "index_bound d p (add_or_append v ptr g r idx)"
proof -
  have new: "entry_bound d p e" if "ie_value e = v" "ie_ptr e = ptr" for e
    using that assms(2-4) by (auto simp: entry_bound_def capture_ptr_def split: if_splits)
  have cong: "entry_bound d p e" if "entry_bound d p e'" "ie_value e = ie_value e'" "ie_ptr e = ie_ptr e'" for e e'
    using that by (simp add: entry_bound_def)
  show ?thesis
    using assms(1) add_to_entries_mem [of _ v ptr g r "ic_entries idx"] new cong
    unfolding index_bound_def add_or_append_def by fastforce
qed

lemma add_to_entries_rows:
  "distinct (map ie_value es) \<Longrightarrow>
   set (concat (map ie_rows (filter (\<lambda>e. ie_value e = w) (add_to_entries v ptr g r es)))) =
     set (concat (map ie_rows (filter (\<lambda>e. ie_value e = w) es))) \<union> (if w = v then {r} else {})"
  by (induction es) (auto split: if_splits)

lemma add_to_entries_distinct:
  "distinct (map ie_value es) \<Longrightarrow> distinct (map ie_value (add_to_entries v ptr g r es)) \<and>
   set (map ie_value (add_to_entries v ptr g r es)) = insert v (set (map ie_value es))"
  by (induction es) (auto split: if_splits)

text \<open>Rebinding against the mirror's offsets makes every entry point into the current buffer.\<close>

definition dict_offsets :: "dict \<Rightarrow> u8 list list \<Rightarrow> (u32 \<times> u32) list" where
  "dict_offsets d bs = map (\<lambda>k. the (location_of d (as_u32 k))) [0..<length bs]"

lemma rebind_entries_bound:
  assumes rep: "dict_rep d p bs" and v: "\<forall>e \<in> set es. unat (ie_value e) < length bs"
  shows "\<exists>es'. rebind_entries p (dct_page d) (dict_offsets d bs) g es = Ok es' \<and>
    (\<forall>e \<in> set es'. entry_bound d p e) \<and> map ie_value es' = map ie_value es \<and> map ie_rows es' = map ie_rows es"
  using v
proof (induction es)
  case (Cons e es)
  then have k: "unat (ie_value e) < length bs" by simp
  obtain pg off len where pg: "pager_get p (dct_page d) = Some pg"
    and loc: "location_of d (ie_value e) = Some (off, len)"
    and r: "get_range (pg_buf pg) (unat off) (unat off + unat len) = Some (bs ! unat (ie_value e))"
    using dict_rep_location [OF rep k] by (auto simp: location_of_def)
  have nth: "nth_opt (dict_offsets d bs) (unat (ie_value e)) = Some (off, len)"
    using k loc by (simp add: dict_offsets_def nth_opt_def)
  have le: "unat off \<le> length (pg_buf pg)" using r by (simp add: get_range_def split: if_splits)
  obtain es' where es': "rebind_entries p (dct_page d) (dict_offsets d bs) g es = Ok es'"
    "\<forall>e \<in> set es'. entry_bound d p e" "map ie_value es' = map ie_value es" "map ie_rows es' = map ie_rows es"
    using Cons by auto
  have "entry_bound d p (e\<lparr>ie_ptr := Ptr (pg_alloc pg) (unat off), ie_gen := g\<rparr>)"
    using pg loc by (simp add: entry_bound_def)
  moreover have "rebind_entries p (dct_page d) (dict_offsets d bs) g (e # es) =
      Ok (e\<lparr>ie_ptr := Ptr (pg_alloc pg) (unat off), ie_gen := g\<rparr> # es')"
    using pg le es'(1) by (simp add: nth capture_ptr_def del: nth_opt_Some)
  ultimately show ?case using es' by simp
qed simp

end
