(* ===== verification/ZoneMaps.thy ===== *)
theory ZoneMaps
  imports Values Errors SortedMap
begin

text \<open>
  Zone maps (\<open>src/src/zonemap.rs\<close>): the per-page summary, the pages a predicate may match, the
  recomputation of a summary and the container form. \<open>zone_covers\<close> is the promise a summary makes
  about a value of its page; pruning is sound for the values it covers.
\<close>

record zone =
  z_page :: u32
  z_min :: val
  z_max :: val
  z_live :: u32

type_synonym zone_map = "(u32, zone) bmap"

definition zm_set :: "u32 \<Rightarrow> zone \<Rightarrow> zone_map \<Rightarrow> zone_map" where
  "zm_set pg z m = bm_insert pg z m"

definition zm_get :: "zone_map \<Rightarrow> u32 \<Rightarrow> zone option" where
  "zm_get m pg = bm_get m pg"

definition zm_remove :: "u32 \<Rightarrow> zone_map \<Rightarrow> zone option \<times> zone_map" where
  "zm_remove pg m = (bm_get m pg, bm_remove pg m)"

definition zm_pages :: "zone_map \<Rightarrow> u32 list" where
  "zm_pages m = bm_keys m"

definition zm_iter :: "zone_map \<Rightarrow> zone list" where
  "zm_iter m = map snd m"

definition zone_overlaps :: "zone \<Rightarrow> cmp_op \<Rightarrow> val \<Rightarrow> bool" where
  "zone_overlaps z op v =
     (if is_null (z_min z) \<and> is_null (z_max z) then True
      else (case op of
          OpEq \<Rightarrow> total_cmp v (z_min z) \<noteq> Less \<and> total_cmp v (z_max z) \<noteq> Greater
        | OpNe \<Rightarrow> True
        | OpLt \<Rightarrow> total_cmp (z_min z) v = Less
        | OpLe \<Rightarrow> total_cmp (z_min z) v \<noteq> Greater
        | OpGt \<Rightarrow> total_cmp (z_max z) v = Greater
        | OpGe \<Rightarrow> total_cmp (z_max z) v \<noteq> Less))"

definition candidate_pages :: "zone_map \<Rightarrow> cmp_op \<Rightarrow> val \<Rightarrow> u32 list" where
  "candidate_pages m op v = map fst (filter (\<lambda>(_, z). z_live z \<noteq> 0 \<and> zone_overlaps z op v) m)"

text \<open>The running minimum and maximum; \<open>None\<close> on an empty iterator.\<close>

definition minmax_step :: "val \<times> val \<Rightarrow> val \<Rightarrow> val \<times> val" where
  "minmax_step mm v = (case mm of (mn, mx) \<Rightarrow>
     (if total_cmp v mn = Less then v else mn, if total_cmp v mx = Greater then v else mx))"

definition minmax :: "val list \<Rightarrow> (val \<times> val) option" where
  "minmax vs = (case vs of [] \<Rightarrow> None | v # vs \<Rightarrow> Some (foldl minmax_step (v, v) vs))"

definition recompute :: "u32 \<Rightarrow> val list \<Rightarrow> zone_map \<Rightarrow> zone_map" where
  "recompute pg values m =
     (let vs = filter (\<lambda>v. \<not> is_null v) values;
          (mn, mx) = (case minmax vs of Some mm \<Rightarrow> mm | None \<Rightarrow> (VNull, VNull)) in
      zm_set pg \<lparr>z_page = pg, z_min = mn, z_max = mx, z_live = as_u32 (length vs)\<rparr> m)"

section \<open>The container form\<close>

fun encode_value :: "val \<Rightarrow> u8 list" where
  "encode_value VNull = [0]"
| "encode_value (VBool b) = [1, if b then 1 else 0]"
| "encode_value (VInt i) = 2 # u64_le i"
| "encode_value (VReal r) = 3 # u64_le (f64_bits r)"
| "encode_value (VText t) = 4 # u32_le t"

definition decode_value :: "u8 list \<Rightarrow> val \<times> nat" where
  "decode_value buf = (case buf of [] \<Rightarrow> (VNull, 0) | t # r \<Rightarrow>
     if t = 0 then (VNull, 1)
     else if t = 1 then (VBool ((case nth_opt buf 1 of None \<Rightarrow> 0 | Some b \<Rightarrow> b) \<noteq> 0), 2)
     else if t = 2 then
       (if length buf < 9 then (VNull, 1) else (VInt (u64_of_le (take 8 r)), 9))
     else if t = 3 then
       (if length buf < 9 then (VNull, 1) else (VReal (F64 (u64_of_le (take 8 r))), 9))
     else if t = 4 then
       (if length buf < 5 then (VNull, 1) else (VText (u32_of_le (take 4 r)), 5))
     else (VNull, 1))"

definition encode_zone :: "zone \<Rightarrow> u8 list" where
  "encode_zone z = u32_le (z_page z) @ encode_value (z_min z) @ encode_value (z_max z) @ u32_le (z_live z)"

definition zonemap_encode :: "zone_map \<Rightarrow> u8 list" where
  "zonemap_encode m = len_le (length m) @ concat (map encode_zone (map snd m))"

text \<open>\<open>&buf[pos..]\<close>\<close>

definition slice_from :: "'a list \<Rightarrow> nat \<Rightarrow> ('e, 'a list) res" where
  "slice_from buf pos = (if pos \<le> length buf then Ok (drop pos buf) else Panic)"

fun zonemap_loop :: "nat \<Rightarrow> u8 list \<Rightarrow> nat \<Rightarrow> zone_map \<Rightarrow> zone_map result" where
  "zonemap_loop 0 buf pos m = Ok m"
| "zonemap_loop (Suc n) buf pos m =
     (if length buf < pos + 4 then Ok m
      else rbind (read_u32 buf pos) (\<lambda>pg.
        rbind (slice_from buf (pos + 4)) (\<lambda>b1. let (mn, a) = decode_value b1; pos = pos + 4 + a in
        rbind (slice_from buf pos) (\<lambda>b2. let (mx, b) = decode_value b2; pos = pos + b in
          if length buf < pos + 4 then Ok m
          else rbind (read_u32 buf pos) (\<lambda>live.
            zonemap_loop n buf (pos + 4)
              (zm_set pg \<lparr>z_page = pg, z_min = mn, z_max = mx, z_live = live\<rparr> m))))))"

definition zonemap_decode :: "u8 list \<Rightarrow> zone_map result" where
  "zonemap_decode buf = (if length buf < 4 then Ok []
     else rbind (read_u32 buf 0) (\<lambda>n. zonemap_loop (unat n) buf 4 []))"

section \<open>Pruning\<close>

text \<open>The bounds bracket the value, and value and bounds are of one kind.\<close>

definition zone_covers :: "zone \<Rightarrow> val \<Rightarrow> bool" where
  "zone_covers z v \<longleftrightarrow> z_live z \<noteq> 0 \<and> \<not> is_null v \<and> kind (z_min z) = kind v \<and> kind (z_max z) = kind v \<and>
     total_cmp (z_min z) v \<noteq> Greater \<and> total_cmp v (z_max z) \<noteq> Greater"

lemma total_cmp_less_trans:
  assumes "kind u = kind v" "kind v = kind w" "total_cmp u v \<noteq> Greater" "total_cmp v w = Less"
  shows "total_cmp u w = Less"
  using assms by (cases u; cases v; cases w) auto

lemma total_cmp_trans_less:
  assumes "kind u = kind v" "kind v = kind w" "total_cmp u v = Less" "total_cmp v w \<noteq> Greater"
  shows "total_cmp u w = Less"
  using assms by (cases u; cases v; cases w) auto

lemma recompute_bm: "bm_ok m \<Longrightarrow> bm_ok (recompute pg values m)"
  by (auto simp: recompute_def zm_set_def Let_def split: option.split prod.split)

text \<open>
  A value that satisfies the predicate keeps its page. The equality of reals needs the extra
  hypothesis: \<open>==\<close> identifies the two zeros, the order does not.
\<close>

lemma zone_overlaps_sound:
  assumes cov: "zone_covers z v" and k: "kind t = kind v" and sat: "cmp_apply op v t"
    and eq: "op = OpEq \<Longrightarrow> total_cmp v t = Equal"
  shows "zone_overlaps z op t"
proof -
  have nn: "\<not> is_null v" "\<not> is_null t" using cov k by (cases v; cases t; auto simp: zone_covers_def)+
  have lo: "kind (z_min z) = kind v" "total_cmp (z_min z) v \<noteq> Greater"
    and hi: "kind (z_max z) = kind v" "total_cmp v (z_max z) \<noteq> Greater"
    using cov by (auto simp: zone_covers_def)
  show ?thesis
  proof (cases op)
    case OpEq
    then have "v = t" using eq total_cmp_eq k by metis
    then show ?thesis using OpEq lo hi total_cmp_Greater_iff [of "z_min z" t]
      by (simp add: zone_overlaps_def)
  next
    case OpLt
    then have "total_cmp v t = Less" using sat nn by (simp add: cmp_apply_def)
    then show ?thesis using OpLt total_cmp_less_trans [OF lo(1) k [symmetric] lo(2)]
      by (simp add: zone_overlaps_def)
  next
    case OpLe
    then have "total_cmp v t \<noteq> Greater" using sat nn by (simp add: cmp_apply_def)
    then show ?thesis using OpLe total_cmp_trans [OF lo(1) k [symmetric] lo(2)]
      by (simp add: zone_overlaps_def)
  next
    case OpGt
    then have "total_cmp t v = Less" using sat nn by (simp add: cmp_apply_def total_cmp_Greater_iff)
    then have "total_cmp t (z_max z) = Less" using total_cmp_trans_less [OF k hi(1) [symmetric] _ hi(2)] by simp
    then show ?thesis using OpGt by (simp add: zone_overlaps_def total_cmp_Greater_iff)
  next
    case OpGe
    then have "total_cmp t v \<noteq> Greater" using sat nn by (simp add: cmp_apply_def total_cmp_Greater_iff)
    then have "total_cmp t (z_max z) \<noteq> Greater" using total_cmp_trans [OF k hi(1) [symmetric] _ hi(2)] by simp
    then show ?thesis using OpGe by (simp add: zone_overlaps_def total_cmp_Greater_iff)
  qed (simp add: zone_overlaps_def)
qed

lemma candidate_pages_mem:
  "bm_ok m \<Longrightarrow> pg \<in> set (candidate_pages m op v) \<longleftrightarrow>
     (\<exists>z. zm_get m pg = Some z \<and> z_live z \<noteq> 0 \<and> zone_overlaps z op v)"
  by (force simp: candidate_pages_def zm_get_def bm_get_Some_iff)

lemma minmax_step_kind:
  assumes "kind mn = k" "kind mx = k" "kind v = k" "minmax_step (mn, mx) v = (mn', mx')"
  shows "kind mn' = k" "kind mx' = k"
    "total_cmp mn' mn \<noteq> Greater" "total_cmp mx mx' \<noteq> Greater"
    "total_cmp mn' v \<noteq> Greater" "total_cmp v mx' \<noteq> Greater"
  using assms total_cmp_Greater_iff [of mn v] total_cmp_Greater_iff [of v mx]
    total_cmp_Greater_iff [of mx v] total_cmp_Greater_iff [of v mn]
  by (auto simp: minmax_step_def split: if_splits)

lemma minmax_fold:
  assumes "kind mn = k" "kind mx = k" "\<forall>v \<in> set vs. kind v = k" "foldl minmax_step (mn, mx) vs = (mn', mx')"
  shows "kind mn' = k \<and> kind mx' = k \<and> total_cmp mn' mn \<noteq> Greater \<and> total_cmp mx mx' \<noteq> Greater \<and>
    (\<forall>v \<in> set vs. total_cmp mn' v \<noteq> Greater \<and> total_cmp v mx' \<noteq> Greater)"
  using assms
proof (induction vs arbitrary: mn mx)
  case (Cons v vs)
  obtain mn1 mx1 where s: "minmax_step (mn, mx) v = (mn1, mx1)" by fastforce
  have st: "kind mn1 = k" "kind mx1 = k" "total_cmp mn1 mn \<noteq> Greater" "total_cmp mx mx1 \<noteq> Greater"
    "total_cmp mn1 v \<noteq> Greater" "total_cmp v mx1 \<noteq> Greater"
    using minmax_step_kind [OF Cons.prems(1,2) _ s] Cons.prems(3) by simp_all
  have IH: "kind mn' = k \<and> kind mx' = k \<and> total_cmp mn' mn1 \<noteq> Greater \<and> total_cmp mx1 mx' \<noteq> Greater \<and>
    (\<forall>v \<in> set vs. total_cmp mn' v \<noteq> Greater \<and> total_cmp v mx' \<noteq> Greater)"
    using Cons.IH [OF st(1,2)] Cons.prems(3,4) s by simp
  then show ?case
    using st Cons.prems(1-3) total_cmp_trans [of mn' mn1 mn] total_cmp_trans [of mn' mn1 v]
      total_cmp_trans [of mx mx1 mx'] total_cmp_trans [of v mx1 mx'] by simp
qed simp

text \<open>A recomputed summary covers every non-null value of its column page.\<close>

lemma recompute_covers:
  assumes v: "v \<in> set values" "\<not> is_null v"
    and k: "\<forall>w \<in> set values. is_null w \<or> kind w = kind v" and len: "length values < 2 ^ 32"
  obtains z where "zm_get (recompute pg values m) pg = Some z" "zone_covers z v" "z_page z = pg"
proof -
  let ?vs = "filter (\<lambda>v. \<not> is_null v) values"
  obtain w ws where vs: "?vs = w # ws" using v by (cases ?vs) (auto simp: filter_empty_conv)
  obtain mn mx where f: "foldl minmax_step (w, w) ws = (mn, mx)" by fastforce
  have kw: "kind w = kind v" "\<forall>x \<in> set ws. kind x = kind v"
  proof -
    have "set (w # ws) = {x \<in> set values. \<not> is_null x}" using vs set_filter by metis
    then have "x \<in> set values \<and> \<not> is_null x" if "x \<in> set (w # ws)" for x using that by blast
    then show "kind w = kind v" "\<forall>x \<in> set ws. kind x = kind v" using k by auto
  qed
  have mm: "kind mn = kind v \<and> kind mx = kind v \<and> total_cmp mn w \<noteq> Greater \<and> total_cmp w mx \<noteq> Greater \<and>
    (\<forall>x \<in> set ws. total_cmp mn x \<noteq> Greater \<and> total_cmp x mx \<noteq> Greater)"
    by (rule minmax_fold [OF kw(1) kw(1) kw(2) f])
  have "v \<in> set ?vs" using v by simp
  then have "v \<in> set (w # ws)" by (simp only: vs)
  then have cov: "total_cmp mn v \<noteq> Greater" "total_cmp v mx \<noteq> Greater" using mm by auto
  have "length ?vs \<noteq> 0" "length ?vs < 2 ^ 32"
    using vs length_filter_le [of "\<lambda>v. \<not> is_null v" "values"] len by (auto intro: le_less_trans)
  then have "unat (as_u32 (length ?vs)) \<noteq> 0" by simp
  then have "as_u32 (length ?vs) \<noteq> 0" by auto
  then show thesis
    using that [of "\<lparr>z_page = pg, z_min = mn, z_max = mx, z_live = as_u32 (length ?vs)\<rparr>"] mm cov v(2)
    by (simp add: recompute_def minmax_def vs f zm_get_def zm_set_def zone_covers_def)
qed

section \<open>Round trip\<close>

lemma decode_value_encode: "decode_value (encode_value v @ post) = (v, length (encode_value v))"
  by (cases v) (auto simp: decode_value_def nth_opt_def)

lemma zonemap_loop_view:
  assumes "drop pos buf = concat (map encode_zone zs) @ post" and "pos \<le> length buf"
  shows "zonemap_loop (length zs) buf pos m = Ok (foldl (\<lambda>m z. zm_set (z_page z) z m) m zs)"
  using assms
proof (induction zs arbitrary: pos m)
  case (Cons z zs)
  let ?a = "length (encode_value (z_min z))" and ?b = "length (encode_value (z_max z))"
  let ?rest = "concat (map encode_zone zs) @ post"
  have d0: "drop pos buf = u32_le (z_page z) @ (encode_value (z_min z) @ encode_value (z_max z) @
      u32_le (z_live z) @ ?rest)"
    using Cons.prems encode_zone_def [of z] by simp
  have d1: "drop (pos + 4) buf = encode_value (z_min z) @ (encode_value (z_max z) @ u32_le (z_live z) @ ?rest)"
    using drop_advance [OF d0] by simp
  have d2: "drop (pos + 4 + ?a) buf = encode_value (z_max z) @ (u32_le (z_live z) @ ?rest)"
    using drop_advance [OF d1] .
  have d3: "drop (pos + 4 + ?a + ?b) buf = u32_le (z_live z) @ ?rest"
    using drop_advance [OF d2] .
  have d4: "drop (pos + 4 + ?a + ?b + 4) buf = ?rest"
    using drop_advance [OF d3] by simp
  have le: "pos + 4 + ?a + ?b + 4 \<le> length buf" using drop_prefix_le [OF d3] by simp
  have r: "read_u32 buf pos = (Ok (z_page z) :: u32 result)"
    "read_u32 buf (pos + 4 + ?a + ?b) = (Ok (z_live z) :: u32 result)"
    by (rule read_u32_view [OF d0], rule read_u32_view [OF d3])
  have "zonemap_loop (Suc (length zs)) buf pos m =
      zonemap_loop (length zs) buf (pos + 4 + ?a + ?b + 4) (zm_set (z_page z)
        \<lparr>z_page = z_page z, z_min = z_min z, z_max = z_max z, z_live = z_live z\<rparr> m)"
    using le by (simp add: slice_from_def d1 d2 r decode_value_encode Let_def)
  then show ?case
    by (cases z) (use Cons.IH [OF d4 le] in simp)
qed simp

definition zone_map_ok :: "zone_map \<Rightarrow> bool" where
  "zone_map_ok m \<longleftrightarrow> bm_ok m \<and> length m < 2 ^ 32 \<and> (\<forall>(pg, z) \<in> set m. z_page z = pg)"

lemma zone_fold:
  "\<forall>(pg, z) \<in> set es. z_page z = pg \<Longrightarrow>
   foldl (\<lambda>m z. zm_set (z_page z) z m) m (map snd es) = foldl (\<lambda>m (k, v). bm_insert k v m) m es"
  by (induction es arbitrary: m) (auto simp: zm_set_def)

lemma zonemap_decode_encode:
  assumes "zone_map_ok m"
  shows "zonemap_decode (zonemap_encode m @ post) = Ok m"
proof -
  let ?buf = "zonemap_encode m @ post"
  have d0: "drop 0 ?buf = len_le (length m) @ (concat (map encode_zone (map snd m)) @ post)"
    by (simp add: zonemap_encode_def)
  have d4: "drop 4 ?buf = concat (map encode_zone (map snd m)) @ post"
    using drop_advance [OF d0] by simp
  have le: "4 \<le> length ?buf" by (simp add: zonemap_encode_def)
  have r: "read_u32 ?buf 0 = (Ok (as_u32 (length m)) :: u32 result)" by (rule read_len_view [OF d0])
  show ?thesis
    using zonemap_loop_view [OF d4 le, of "[]"] assms le r
    by (simp add: zonemap_decode_def zone_map_ok_def zone_fold bm_rebuild)
qed

end
