(* ===== verification/Databases.thy ===== *)
theory Databases
  imports Schemas Regions Dicts Fsms RowIds Indexes ZoneMaps
begin

text \<open>
  The aggregate database (\<open>Database\<close> in \<open>src/src/pager.rs\<close>) and its invariant. The table the
  database stores is the abstraction \<open>table\<close>: the row-id map followed into the data pages. A
  \<open>HashMap\<close> is a partial function; the counters of \<open>DbStats\<close> wrap at \<open>2 ^ 64\<close>.
\<close>

record db_stats =
  st_inserts :: u64
  st_updates :: u64
  st_deletes :: u64
  st_compactions :: u64
  st_checkpoints :: u64
  st_scans :: u64
  st_index_scans :: u64

definition stats_new :: db_stats where
  "stats_new = \<lparr>st_inserts = 0, st_updates = 0, st_deletes = 0, st_compactions = 0,
     st_checkpoints = 0, st_scans = 0, st_index_scans = 0\<rparr>"

record db =
  schema :: schema
  pager :: pager
  fsm :: fsm
  rowids :: rowid_map
  indexes :: "index_cache option list"
  dicts :: "dict option list"
  zone_maps :: "zone_map list"
  next_row_id :: u64
  stats :: db_stats
  page_rows :: "u32 \<Rightarrow> u64 list option"

definition database_new :: "schema \<Rightarrow> db" where
  "database_new s = \<lparr>schema = s, pager = pager_new, fsm = fsm_new, rowids = [],
     indexes = map (\<lambda>c. map_option (\<lambda>_. index_empty (col_name c)) (index_page c)) s,
     dicts = map (\<lambda>c. map_option dict_new (dict_page c)) s,
     zone_maps = map (\<lambda>_. []) s, next_row_id = 1, stats = stats_new, page_rows = Map.empty\<rparr>"

text \<open>\<open>v.get(i).and_then(|o| o.as_ref())\<close>\<close>

definition get_some :: "'a option list \<Rightarrow> nat \<Rightarrow> 'a option" where
  "get_some xs i = (case nth_opt xs i of None \<Rightarrow> None | Some x \<Rightarrow> x)"

definition index_of :: "db \<Rightarrow> nat \<Rightarrow> index_cache option" where
  "index_of db col = get_some (indexes db) col"

definition locate :: "db \<Rightarrow> u64 \<Rightarrow> (u32 \<times> nat) option" where
  "locate db r = rid_get (rowids db) r"

text \<open>\<open>page_rows.entry(p).or_default().push(r)\<close>\<close>

definition push_page_row :: "u32 \<Rightarrow> u64 \<Rightarrow> (u32 \<Rightarrow> u64 list option) \<Rightarrow> (u32 \<Rightarrow> u64 list option)" where
  "push_page_row p r m = m(p \<mapsto> (case m p of None \<Rightarrow> [] | Some rs \<Rightarrow> rs) @ [r])"

text \<open>A write through the pager of a database.\<close>

definition db_rebuf :: "u32 \<Rightarrow> (nat \<Rightarrow> page \<Rightarrow> page) \<Rightarrow> db \<Rightarrow> db" where
  "db_rebuf p f db = db\<lparr>pager := pager_rebuf p f (pager db)\<rparr>"

section \<open>Well-formed pages\<close>

text \<open>A region of the right storage class with \<open>n\<close> cells, and a chunk of \<open>n\<close> rows of a schema.\<close>

definition region_for :: "nat \<Rightarrow> column \<Rightarrow> region \<Rightarrow> bool" where
  "region_for n c r \<longleftrightarrow> rg_kind r = ckind c \<and> rg_encoding r = cencoding c \<and> region_ok r \<and>
     length (cells r) = n"

definition body_for :: "schema \<Rightarrow> nat \<Rightarrow> body \<Rightarrow> bool" where
  "body_for s n b \<longleftrightarrow> list_all2 (region_for n) s (regions b)"

text \<open>Row \<open>i\<close> of a chunk.\<close>

definition body_row :: "body \<Rightarrow> nat \<Rightarrow> val list" where
  "body_row b i = map (\<lambda>r. read_cell r i) (regions b)"

text \<open>
  A data page: its buffer decodes to a chunk with one row per slot, the chunk declares that many
  rows, and a slot's offset is its index.
\<close>

definition slots_ok :: "slot_entry list \<Rightarrow> bool" where
  "slots_ok ss \<longleftrightarrow> length ss < 2 ^ 32 \<and> (\<forall>i < length ss. slot_off (ss ! i) = as_u32 i)"

definition data_page_ok :: "schema \<Rightarrow> page \<Rightarrow> bool" where
  "data_page_ok s pg \<longleftrightarrow> (\<exists>b. decode_body (pg_buf pg) = Ok b \<and> body_for s (slot_count pg) b \<and>
     num_rows b = as_u32 (slot_count pg)) \<and> slots_ok (slots_of pg) \<and> pg_slots pg \<noteq> None"

definition page_row :: "page \<Rightarrow> nat \<Rightarrow> val list option" where
  "page_row pg i = (case decode_body (pg_buf pg) of Ok b \<Rightarrow> Some (body_row b i) | _ \<Rightarrow> None)"

section \<open>The invariant and the table\<close>

definition shape_ok :: "db \<Rightarrow> bool" where
  "shape_ok db \<longleftrightarrow> schema db \<noteq> [] \<and> length (indexes db) = length (schema db) \<and>
     length (dicts db) = length (schema db) \<and> length (schema db) \<le> length (zone_maps db)"

definition pages_ok :: "db \<Rightarrow> bool" where
  "pages_ok db \<longleftrightarrow> pager_ok (pager db) \<and>
     (\<forall>p pg. pager_get (pager db) p = Some pg \<longrightarrow> pg_kind pg = PkData \<longrightarrow> data_page_ok (schema db) pg)"

text \<open>The live slots of the data pages, as a relation between rows and places.\<close>

definition live_slot :: "pager \<Rightarrow> u64 \<Rightarrow> u32 \<times> nat \<Rightarrow> bool" where
  "live_slot p r at \<longleftrightarrow> (\<exists>pg. pager_get p (fst at) = Some pg \<and> pg_kind pg = PkData \<and>
     snd at < slot_count pg \<and> slot_row (slots_of pg ! snd at) = r \<and> slot_live (slots_of pg ! snd at))"

text \<open>The row-id map is exactly the live slots.\<close>

definition rows_ok :: "db \<Rightarrow> bool" where
  "rows_ok db \<longleftrightarrow> bm_ok (rowids db) \<and> (\<forall>r at. rid_get (rowids db) r = Some at \<longleftrightarrow> live_slot (pager db) r at)"

text \<open>The free-space map only names data pages.\<close>

definition space_ok :: "db \<Rightarrow> bool" where
  "space_ok db \<longleftrightarrow> fsm_ok (fsm db) \<and> (\<forall>p v. bm_get (space (fsm db)) p = Some v \<longrightarrow>
     (\<exists>pg. pager_get (pager db) p = Some pg \<and> pg_kind pg = PkData))"

text \<open>
  Every mirror represents its column's dictionary page, and no two columns share one.
\<close>

definition dicts_ok :: "db \<Rightarrow> bool" where
  "dicts_ok db \<longleftrightarrow>
     (\<forall>ci d. get_some (dicts db) ci = Some d \<longrightarrow>
        ci < length (schema db) \<and> dict_page (schema db ! ci) = Some (dct_page d) \<and>
        (\<exists>bs. dict_rep d (pager db) bs) \<and>
        (\<forall>pg. pager_get (pager db) (dct_page d) = Some pg \<longrightarrow> pg_kind pg = PkDict)) \<and>
     (\<forall>ci cj d d'. get_some (dicts db) ci = Some d \<longrightarrow> get_some (dicts db) cj = Some d' \<longrightarrow>
        dct_page d = dct_page d' \<longrightarrow> ci = cj)"

definition db_ok :: "db \<Rightarrow> bool" where
  "db_ok db \<longleftrightarrow> shape_ok db \<and> pages_ok db \<and> rows_ok db \<and> space_ok db \<and> dicts_ok db"

definition table :: "db \<Rightarrow> u64 \<Rightarrow> val list option" where
  "table db r = (case rid_get (rowids db) r of None \<Rightarrow> None
     | Some (p, i) \<Rightarrow> (case pager_get (pager db) p of None \<Rightarrow> None | Some pg \<Rightarrow> page_row pg i))"

lemma db_ok_parts [dest]:
  "db_ok db \<Longrightarrow> shape_ok db" "db_ok db \<Longrightarrow> pages_ok db" "db_ok db \<Longrightarrow> rows_ok db" "db_ok db \<Longrightarrow> space_ok db"
  "db_ok db \<Longrightarrow> dicts_ok db"
  by (simp_all add: db_ok_def)

lemma slots_of_Some: "slot_count pg = length (slots_of pg)"
  by (simp add: slot_count_def slots_of_def split: option.split)

lemma data_page_okE:
  assumes "data_page_ok s pg"
  obtains b where "decode_body (pg_buf pg) = Ok b" "body_for s (slot_count pg) b"
    "num_rows b = as_u32 (slot_count pg)" "slots_ok (slots_of pg)" "pg_slots pg = Some (slots_of pg)"
proof -
  obtain ss where ss: "pg_slots pg = Some ss" using assms by (auto simp: data_page_ok_def)
  then have "pg_slots pg = Some (slots_of pg)" by (simp add: slots_of_def)
  moreover obtain b where "decode_body (pg_buf pg) = Ok b" "body_for s (slot_count pg) b"
    "num_rows b = as_u32 (slot_count pg)" "slots_ok (slots_of pg)"
    using assms unfolding data_page_ok_def by blast
  ultimately show thesis using that by blast
qed

lemma rows_okD:
  assumes "rows_ok db" and "rid_get (rowids db) r = Some (p, i)"
  obtains pg where "pager_get (pager db) p = Some pg" "pg_kind pg = PkData" "i < slot_count pg"
    "slot_row (slots_of pg ! i) = r" "slot_live (slots_of pg ! i)"
proof -
  have "live_slot (pager db) r (p, i)" using assms by (simp add: rows_ok_def)
  then show thesis by (auto simp: live_slot_def intro: that)
qed

text \<open>In a well-formed database every row of the map has its values.\<close>

lemma db_ok_table_dom:
  assumes "db_ok db"
  shows "dom (table db) = dom (rid_get (rowids db))"
proof -
  have "table db r \<noteq> None" if g: "rid_get (rowids db) r = Some (p, i)" for r p i
  proof -
    obtain pg where pg: "pager_get (pager db) p = Some pg" "pg_kind pg = PkData"
      using rows_okD [OF _ g] assms by blast
    then have "data_page_ok (schema db) pg" using assms by (auto simp: db_ok_def pages_ok_def)
    then show ?thesis by (elim data_page_okE) (simp add: table_def g pg page_row_def)
  qed
  then show ?thesis by (auto simp: table_def split: option.splits)
qed

lemma shape_ok_new: "s \<noteq> [] \<Longrightarrow> shape_ok (database_new s)"
  by (simp add: shape_ok_def database_new_def)

text \<open>A new database is well-formed when no column claims a dictionary page yet.\<close>

lemma db_ok_new:
  assumes "s \<noteq> []" and "\<forall>c \<in> set s. dict_page c = None"
  shows "db_ok (database_new s)"
proof -
  have none: "get_some (dicts (database_new s)) ci = None" for ci
    using assms(2) by (auto simp: database_new_def get_some_def nth_opt_def)
  have "pager_get pager_new i = None" for i by (simp add: pager_new_def pager_get_def)
  then have "pages_ok (database_new s)" "rows_ok (database_new s)" "space_ok (database_new s)"
    by (simp_all add: database_new_def pages_ok_def pager_ok_new rows_ok_def space_ok_def rid_get_def live_slot_def)
      (simp add: fsm_new_def)
  then show ?thesis using shape_ok_new [OF assms(1)] none by (simp add: db_ok_def dicts_ok_def)
qed

lemma dict_rep_cong:
  "pager_get p (dct_page d) = pager_get p' (dct_page d) \<Longrightarrow> dict_rep d p bs = dict_rep d p' bs"
  by (simp add: dict_rep_def)

text \<open>The dictionaries survive every change that leaves their pages, the mirrors and the schema alone.\<close>

lemma dicts_ok_frame:
  assumes "dicts_ok db" and "dicts db' = dicts db" and "schema db' = schema db"
    and "\<And>ci d. get_some (dicts db) ci = Some d \<Longrightarrow>
      pager_get (pager db') (dct_page d) = pager_get (pager db) (dct_page d)"
  shows "dicts_ok db'"
proof -
  have "dict_rep d (pager db') bs" if "get_some (dicts db) ci = Some d" "dict_rep d (pager db) bs" for ci d bs
    using that dict_rep_cong [OF assms(4) [OF that(1)], of bs] by simp
  then show ?thesis using assms unfolding dicts_ok_def by metis
qed

lemma dicts_ok_page:
  assumes "dicts_ok db" and "get_some (dicts db) ci = Some d"
  obtains pg bs where "pager_get (pager db) (dct_page d) = Some pg" "pg_kind pg = PkDict" "dict_rep d (pager db) bs"
proof -
  obtain bs where bs: "dict_rep d (pager db) bs" using assms unfolding dicts_ok_def by blast
  then obtain pg pad where pg: "pager_get (pager db) (dct_page d) = Some pg" by (rule dict_rep_page)
  then have "pg_kind pg = PkDict" using assms unfolding dicts_ok_def by blast
  then show thesis using that pg bs by blast
qed

lemma table_new: "table (database_new s) = Map.empty"
  by (simp add: fun_eq_iff table_def database_new_def rid_get_def)

text \<open>Two states with the same pages and the same row-id map store the same table.\<close>

lemma table_cong:
  assumes "rid_get (rowids db) = rid_get (rowids db')"
    and "\<And>p i. (\<exists>r. rid_get (rowids db) r = Some (p, i)) \<Longrightarrow>
      map_option (\<lambda>pg. page_row pg i) (pager_get (pager db) p) =
      map_option (\<lambda>pg. page_row pg i) (pager_get (pager db') p)"
  shows "table db = table db'"
proof
  fix r
  show "table db r = table db' r"
  proof (cases "rid_get (rowids db) r")
    case (Some at)
    obtain p i where "at = (p, i)" by (cases at)
    then have "map_option (\<lambda>pg. page_row pg i) (pager_get (pager db) p) =
        map_option (\<lambda>pg. page_row pg i) (pager_get (pager db') p)"
      using Some by (intro assms(2)) blast
    then show ?thesis using Some assms(1) \<open>at = (p, i)\<close>
      by (simp add: table_def) (auto split: option.splits)
  qed (simp add: table_def assms(1) [symmetric])
qed

end
