(* ===== verification/Mutations.thy ===== *)
theory Mutations
  imports Databases
begin

text \<open>
  Insert, update and delete (\<open>src/src/mutation.rs\<close>). An operation maps a database to its outcome and
  the database it leaves; after an error that is the partly changed one, as in the code. The later
  sections show what the operations do to the stored table and that they keep the invariant.
\<close>

definition page_data_capacity :: nat where
  "page_data_capacity = 256"

section \<open>Interning\<close>

definition column_missing :: "nat \<Rightarrow> error" where
  "column_missing col = NotFound (str ''column '' @ show_nat col)"

text \<open>The allocation of a column's dictionary page on first use.\<close>

definition intern_alloc :: "nat \<Rightarrow> (db, error, unit) op" where
  "intern_alloc col db = (case dict_allocate (pager db) of
       (Ok pid, p) \<Rightarrow>
         (if col < length (dicts db) then
            (Ok (), db\<lparr>pager := p, schema := (schema db)[col := (schema db ! col)\<lparr>dict_page := Some pid\<rparr>],
                       dicts := (dicts db)[col := Some (dict_new pid)]\<rparr>)
          else (Panic, db))
     | (Err e, p) \<Rightarrow> (Err e, db) | (Panic, p) \<Rightarrow> (Panic, db) | (Undef, p) \<Rightarrow> (Undef, db))"

definition intern_mirror :: "nat \<Rightarrow> u8 list \<Rightarrow> (db, error, u32) op" where
  "intern_mirror col bytes db = (case get_some (dicts db) col of
       None \<Rightarrow> (Err (Internal (str ''missing dict mirror'')), db)
     | Some d \<Rightarrow> (case dict_intern bytes (d, pager db) of
         (r, (d', p)) \<Rightarrow> (r, db\<lparr>dicts := (dicts db)[col := Some d'], pager := p\<rparr>)))"

definition intern_text :: "nat \<Rightarrow> u8 list \<Rightarrow> (db, error, u32) op" where
  "intern_text col bytes db = (case nth_opt (schema db) col of
       None \<Rightarrow> (Err (column_missing col), db)
     | Some c \<Rightarrow>
         if ckind c \<noteq> KText then (Err (TypeMismatch (col_name c) (str ''text'')), db)
         else sbind (if dict_page c = None then intern_alloc col else sret ())
                (\<lambda>_. intern_mirror col bytes) db)"

section \<open>Insert\<close>

definition fresh_body :: "schema \<Rightarrow> body" where
  "fresh_body s = \<lparr>num_rows = 0, regions = map (\<lambda>c. region_new (ckind c) (cencoding c)) s\<rparr>"

definition row_width :: "schema \<Rightarrow> nat" where
  "row_width s = sum_list (map (\<lambda>c. cell_width (ckind c)) s)"

text \<open>\<open>body.num_rows\<close> as \<open>append_row\<close> recomputes it from the first region.\<close>

definition rows_of_regions :: "region list \<Rightarrow> u32" where
  "rows_of_regions rs = (case rs of [] \<Rightarrow> 0 | r # _ \<Rightarrow>
     if rg_encoding r = Rle
     then as_u32 (run_total (runs_or_default (rg_data r) (col_kind_name (rg_kind r))))
     else as_u32 (length (rg_data r) div max (cell_width (rg_kind r)) 1))"

definition append_regions :: "region list \<Rightarrow> val list \<Rightarrow> region list" where
  "append_regions rs vs = map (\<lambda>(ci, r). append_cell r (nth_or_null vs ci)) (enumerate 0 rs)"

definition page_vanished :: error where
  "page_vanished = Internal (str ''page vanished'')"

text \<open>The page's chunk and slots before the append.\<close>

definition open_page :: "db \<Rightarrow> u32 \<Rightarrow> (body \<times> slot_entry list) result" where
  "open_page db p = (case pager_get (pager db) p of
       None \<Rightarrow> Ok (fresh_body (schema db), [])
     | Some pg \<Rightarrow> rbind (if pg_buf pg = [] then Ok (fresh_body (schema db)) else decode_body (pg_buf pg))
         (\<lambda>b. Ok (b, slots_of pg)))"

definition put_page :: "u32 \<Rightarrow> u8 list \<Rightarrow> slot_entry list \<Rightarrow> db \<Rightarrow> db" where
  "put_page p buf slots = db_rebuf p (\<lambda>a pg. replace_slots slots (set_buf buf a pg))"

definition append_row :: "u32 \<Rightarrow> u64 \<Rightarrow> val list \<Rightarrow> (db, error, unit) op" where
  "append_row p r vs db = sbind (slift (open_page db p)) (\<lambda>(b, slots) db.
     let slot_index = length slots;
         regions' = append_regions (regions b) vs;
         b' = \<lparr>num_rows = rows_of_regions regions', regions = regions'\<rparr>;
         slots' = slots @ [slot_new r (as_u32 slot_index) (as_u32 (row_width (schema db)))] in
     case pager_get (pager db) p of None \<Rightarrow> (Err page_vanished, db)
     | Some _ \<Rightarrow> (let db = put_page p (encode_body b') slots' db in
         (Ok (), db\<lparr>rowids := rid_insert r p slot_index (rowids db),
                    page_rows := push_page_row p r (page_rows db)\<rparr>))) db"

text \<open>The \<open>(column, value id, dictionary page)\<close> triples of \<open>update_indexes_for_row\<close> and its second loop.\<close>

definition index_work :: "schema \<Rightarrow> val list \<Rightarrow> (nat \<times> u32 \<times> u32) list" where
  "index_work s vs = List.map_filter (\<lambda>(ci, c).
     if index_page c = None then None
     else (case nth_or_null vs ci of
         VText i \<Rightarrow> map_option (\<lambda>p. (ci, i, p)) (dict_page c)
       | _ \<Rightarrow> None)) (enumerate 0 s)"

definition index_row :: "u64 \<Rightarrow> nat \<times> u32 \<times> u32 \<Rightarrow> (db, error, unit) op" where
  "index_row r w db = (case w of (ci, v, pid) \<Rightarrow>
     (case get_some (dicts db) ci of None \<Rightarrow> (Ok (), db)
      | Some d \<Rightarrow> (case location_of d v of None \<Rightarrow> (Ok (), db)
      | Some (off, _) \<Rightarrow> (case pager_get (pager db) pid of None \<Rightarrow> (Ok (), db)
      | Some pg \<Rightarrow> sbind (slift (capture_ptr pg (unat off))) (\<lambda>ptr db.
          case index_of db ci of None \<Rightarrow> (Ok (), db)
          | Some idx \<Rightarrow> (Ok (), db\<lparr>indexes :=
              (indexes db)[ci := Some (add_or_append v ptr (pg_gen pg) r idx)]\<rparr>)) db))))"

fun for_each :: "('a \<Rightarrow> ('s, 'e, unit) op) \<Rightarrow> 'a list \<Rightarrow> ('s, 'e, unit) op" where
  "for_each f [] = sret ()"
| "for_each f (x # xs) = sbind (f x) (\<lambda>_. for_each f xs)"

definition update_indexes_for_row :: "u64 \<Rightarrow> val list \<Rightarrow> (db, error, unit) op" where
  "update_indexes_for_row r vs db = for_each (index_row r) (index_work (schema db) vs) db"

text \<open>One column's zone map.\<close>

definition zone_add :: "u32 \<Rightarrow> val \<Rightarrow> zone_map \<Rightarrow> zone_map result" where
  "zone_add p v zm = (let existing = zm_get zm p;
     (mn, mx) = (case existing of
         Some z \<Rightarrow> if \<not> is_null (z_min z)
           then (if total_cmp v (z_min z) = Less then v else z_min z,
                 if total_cmp v (z_max z) = Greater then v else z_max z)
           else (v, v)
       | None \<Rightarrow> (v, v)) in
     rbind (case existing of None \<Rightarrow> Ok 1
        | Some z \<Rightarrow> if z_live z = u32_max then Panic else Ok (z_live z + 1))
       (\<lambda>live. Ok (zm_set p \<lparr>z_page = p, z_min = mn, z_max = mx, z_live = live\<rparr> zm)))"

definition zone_row :: "u32 \<Rightarrow> val list \<Rightarrow> nat \<Rightarrow> (db, error, unit) op" where
  "zone_row p vs ci db = (case nth_opt (zone_maps db) ci of None \<Rightarrow> (Panic, db)
     | Some zm \<Rightarrow> sbind (slift (zone_add p (nth_or_null vs ci) zm)) (\<lambda>zm db.
         (Ok (), db\<lparr>zone_maps := (zone_maps db)[ci := zm]\<rparr>)) db)"

definition update_zone_maps_for_row :: "u32 \<Rightarrow> val list \<Rightarrow> (db, error, unit) op" where
  "update_zone_maps_for_row p vs db = for_each (zone_row p vs) [0..<length (schema db)] db"

definition choose_row_id :: "val list \<Rightarrow> db \<Rightarrow> u64" where
  "choose_row_id vs db = (case vs of VInt i # _ \<Rightarrow> (if 0 < sint i then i else next_row_id db)
     | _ \<Rightarrow> next_row_id db)"

text \<open>The page with room for one more row, allocated when the map knows none.\<close>

definition page_for_row :: "nat \<Rightarrow> (db, error, u32) op" where
  "page_for_row need db = (case page_with_space (fsm db) (as_u32 need) of Some p \<Rightarrow> (Ok p, db)
     | None \<Rightarrow> (case pager_alloc PkData [] (pager db) of
         (Ok p, pgr) \<Rightarrow> (Ok p, db\<lparr>pager := pgr, fsm := set_space p (as_u32 page_data_capacity) (fsm db)\<rparr>)
       | (Err e, pgr) \<Rightarrow> (Err e, db) | (Panic, pgr) \<Rightarrow> (Panic, db) | (Undef, pgr) \<Rightarrow> (Undef, db)))"

definition insert :: "val list \<Rightarrow> (db, error, u64) op" where
  "insert vs db =
     (if length vs \<noteq> arity (schema db) then (Err (Script (Arity (str ''insert'') (length vs))), db)
      else let r = choose_row_id vs db in
        if r = - 1 then (Panic, db)
        else let db = db\<lparr>next_row_id := max (next_row_id db) (r + 1),
                         stats := (stats db)\<lparr>st_inserts := st_inserts (stats db) + 1\<rparr>\<rparr> in
          if vs = [] then (Panic, db)
          else let cells = vs[0 := VInt r]; need = max (row_width (schema db)) 1 in
            sbind (page_for_row need) (\<lambda>p.
            sbind (append_row p r cells) (\<lambda>_ db.
              let db = db\<lparr>fsm := adjust_space p (- int need) (fsm db)\<rparr> in
              sbind (update_indexes_for_row r cells) (\<lambda>_.
              sbind (update_zone_maps_for_row p cells) (\<lambda>_. sret r)) db)) db)"

section \<open>Reading one cell\<close>

definition read_row_cell :: "db \<Rightarrow> u64 \<Rightarrow> nat \<Rightarrow> val option" where
  "read_row_cell db r col = (case rid_get (rowids db) r of None \<Rightarrow> None
     | Some (p, slot) \<Rightarrow> (case pager_get (pager db) p of None \<Rightarrow> None
     | Some pg \<Rightarrow> (case decode_body (pg_buf pg) of
         Ok b \<Rightarrow> map_option (\<lambda>rg. read_cell rg slot) (nth_opt (regions b) col)
       | _ \<Rightarrow> None)))"

text \<open>The fast path: the slot directory is read without a check.\<close>

definition read_row_cell_fast :: "db \<Rightarrow> u64 \<Rightarrow> nat \<Rightarrow> val option result" where
  "read_row_cell_fast db r col = (case rid_get (rowids db) r of None \<Rightarrow> Ok None
     | Some (p, slot) \<Rightarrow> (case pager_get (pager db) p of None \<Rightarrow> Ok None
     | Some pg \<Rightarrow> rbind (slot_at_unchecked pg slot) (\<lambda>e.
         case decode_body (pg_buf pg) of
           Ok b \<Rightarrow> Ok (map_option (\<lambda>rg. read_cell rg (unat (slot_off e))) (nth_opt (regions b) col))
         | _ \<Rightarrow> Ok None)))"

definition live_rows :: "db \<Rightarrow> nat" where
  "live_rows db = rid_len (rowids db)"

section \<open>Delete and update\<close>

definition scan_matching :: "db \<Rightarrow> nat \<Rightarrow> cmp_op \<Rightarrow> val \<Rightarrow> u64 list" where
  "scan_matching db col op target = filter (\<lambda>r. case read_row_cell db r col of
       None \<Rightarrow> False | Some v \<Rightarrow> cmp_apply op v target) (row_ids (rowids db))"

text \<open>\<open>Some\<close> when the equality can use the index: the cache and the bytes to probe with.\<close>

definition index_path :: "db \<Rightarrow> nat \<Rightarrow> cmp_op \<Rightarrow> val \<Rightarrow> (index_cache \<times> u8 list) option" where
  "index_path db col op target =
     (case nth_opt (schema db) col of None \<Rightarrow> None | Some c \<Rightarrow>
        if op = OpEq \<and> index_page c \<noteq> None then
          (case index_of db col of None \<Rightarrow> None | Some idx \<Rightarrow>
          (case get_some (dicts db) col of None \<Rightarrow> None | Some d \<Rightarrow>
          (case target of VText i \<Rightarrow> map_option (\<lambda>b. (idx, b)) (bytes_of d (pager db) i)
           | _ \<Rightarrow> None)))
        else None)"

definition collect_matching :: "db \<Rightarrow> nat \<Rightarrow> cmp_op \<Rightarrow> val \<Rightarrow> u64 list result" where
  "collect_matching db col op target = (case nth_opt (schema db) col of
       None \<Rightarrow> Err (column_missing col)
     | Some _ \<Rightarrow> (case index_path db col op target of
         Some (idx, bytes) \<Rightarrow> rbind (probe idx (pager db) bytes) (\<lambda>rows.
           if rows \<noteq> [] then Ok rows else probe idx (pager db) bytes)
       | None \<Rightarrow> Ok (scan_matching db col op target)))"

definition kill_slot :: "nat \<Rightarrow> page \<Rightarrow> page" where
  "kill_slot i pg = (case pg_slots pg of None \<Rightarrow> pg
     | Some d \<Rightarrow> if i < length d then pg\<lparr>pg_slots := Some (d[i := (d ! i)\<lparr>slot_live := False\<rparr>])\<rparr> else pg)"

definition unindex_row :: "u64 \<Rightarrow> index_cache \<Rightarrow> index_cache" where
  "unindex_row r idx = idx\<lparr>ic_entries :=
     map (\<lambda>e. e\<lparr>ie_rows := filter (\<lambda>x. x \<noteq> r) (ie_rows e)\<rparr>) (ic_entries idx)\<rparr>"

definition retain_page_row :: "u32 \<Rightarrow> u64 \<Rightarrow> (u32 \<Rightarrow> u64 list option) \<Rightarrow> (u32 \<Rightarrow> u64 list option)" where
  "retain_page_row p r m = (case m p of None \<Rightarrow> m | Some rs \<Rightarrow> m(p \<mapsto> filter (\<lambda>x. x \<noteq> r) rs))"

text \<open>One turn of the deletion loop, with the number of rows it removed.\<close>

definition delete_row :: "u64 \<Rightarrow> db \<Rightarrow> nat \<times> db" where
  "delete_row r db = (case rid_remove r (rowids db) of
       (None, m) \<Rightarrow> (0, db\<lparr>rowids := m\<rparr>)
     | (Some (p, slot), m) \<Rightarrow> (1, db\<lparr>rowids := m, pager := pager_modify p (kill_slot slot) (pager db),
          indexes := map (map_option (unindex_row r)) (indexes db),
          page_rows := retain_page_row p r (page_rows db)\<rparr>))"

fun delete_rows :: "u64 list \<Rightarrow> db \<Rightarrow> nat \<times> db" where
  "delete_rows [] db = (0, db)"
| "delete_rows (r # rs) db = (let (n, db) = delete_row r db; (m, db) = delete_rows rs db in (n + m, db))"

definition delete_where :: "nat \<Rightarrow> cmp_op \<Rightarrow> val \<Rightarrow> (db, error, nat) op" where
  "delete_where col op target db =
     (let db = db\<lparr>stats := (stats db)\<lparr>st_deletes := st_deletes (stats db) + 1\<rparr>\<rparr> in
      sbind (slift (collect_matching db col op target))
        (\<lambda>rs db. let (n, db) = delete_rows rs db in (Ok n, db)) db)"

definition rewrite_cell :: "u32 \<Rightarrow> nat \<Rightarrow> nat \<Rightarrow> val \<Rightarrow> (db, error, unit) op" where
  "rewrite_cell p slot col v db = (case pager_get (pager db) p of None \<Rightarrow> (Err page_vanished, db)
     | Some pg \<Rightarrow> sbind (slift (decode_body (pg_buf pg))) (\<lambda>b db.
         if length (regions b) \<le> col then (Ok (), db)
         else let rs = (regions b)[col := rewrite_region (regions b ! col) slot v] in
           (Ok (), db_rebuf p (set_buf (encode_body (b\<lparr>regions := rs\<rparr>))) db)) db)"

definition update_row :: "nat \<Rightarrow> val \<Rightarrow> u64 \<Rightarrow> (db, error, unit) op" where
  "update_row col v r db = (case rid_get (rowids db) r of None \<Rightarrow> (Ok (), db)
     | Some (p, slot) \<Rightarrow> rewrite_cell p slot col v db)"

definition update_where :: "nat \<Rightarrow> val \<Rightarrow> nat \<Rightarrow> cmp_op \<Rightarrow> val \<Rightarrow> (db, error, nat) op" where
  "update_where set_col v col op target db =
     (let db = db\<lparr>stats := (stats db)\<lparr>st_updates := st_updates (stats db) + 1\<rparr>\<rparr> in
      sbind (slift (collect_matching db col op target)) (\<lambda>rs.
      sbind (for_each (update_row set_col v) rs) (\<lambda>_. sret (length rs))) db)"

end
