(* ===== verification/Tables.thy ===== *)
theory Tables
  imports Mutations
begin

text \<open>
  What \<open>insert\<close>, \<open>delete_where\<close> and \<open>update_where\<close> do to the stored table, and that they keep the
  invariant of the database. The pages are treated through the contract of the column regions.
\<close>

section \<open>Rows and columns\<close>

definition storable_in :: "column \<Rightarrow> val \<Rightarrow> bool" where
  "storable_in c v \<longleftrightarrow> (cencoding c = Rle \<longrightarrow> kind v = col_kind_name (ckind c) \<and> exact_val v)"

definition stored_in :: "column \<Rightarrow> val \<Rightarrow> val" where
  "stored_in c v = (if cencoding c = Rle then v else decode_cell (ckind c) (encode_cell (ckind c) v))"

definition row_storable :: "schema \<Rightarrow> val list \<Rightarrow> bool" where
  "row_storable s vs \<longleftrightarrow> list_all2 storable_in s vs"

definition stored_row :: "schema \<Rightarrow> val list \<Rightarrow> val list" where
  "stored_row s vs = map2 stored_in s vs"

text \<open>A value of the column's own kind comes back as it went in.\<close>

lemma stored_in_same_kind: "kind v = col_kind_name (ckind c) \<Longrightarrow> stored_in c v = v"
  by (cases "ckind c"; cases v) (auto simp: stored_in_def split: f64.split)

text \<open>
  What a fixed-width cell of a storage class holds of a value, spelled out: a value of another kind is
  lost, and a null becomes the zero of the class.
\<close>

fun cast :: "col_kind \<Rightarrow> val \<Rightarrow> val" where
  "cast KBool (VBool b) = VBool b"
| "cast KBool v = VBool False"
| "cast KInt (VInt i) = VInt i"
| "cast KInt v = VInt 0"
| "cast KReal (VReal r) = VReal r"
| "cast KReal (VInt i) = VReal (f64_of_i64 i)"
| "cast KReal v = VReal (F64 0)"
| "cast KText (VText t) = VText t"
| "cast KText v = VText 0"

lemma decode_encode_cast: "decode_cell k (encode_cell k v) = cast k v"
proof -
  have z: "replicate 8 0 = u64_le 0" "replicate 4 0 = u32_le 0" by code_simp+
  show ?thesis by (cases k; cases v) (auto simp: z split: f64.split)
qed

lemma stored_in_cast: "stored_in c v = (if cencoding c = Rle then v else cast (ckind c) v)"
  by (simp add: stored_in_def decode_encode_cast)

text \<open>No column holds a null afterwards: what it stores of one is a zero.\<close>

lemma stored_in_not_null: "storable_in c v \<Longrightarrow> stored_in c v \<noteq> VNull"
  by (cases "ckind c"; cases v) (auto simp: stored_in_cast storable_in_def)

lemma stored_row_not_null: "row_storable s vs \<Longrightarrow> VNull \<notin> set (stored_row s vs)"
  unfolding row_storable_def
  by (induction rule: list_all2_induct) (auto simp: stored_row_def dest: stored_in_not_null)

lemma stored_row_same_kind:
  "list_all2 (\<lambda>c v. kind v = col_kind_name (ckind c)) s vs \<Longrightarrow> stored_row s vs = vs"
  by (induction rule: list_all2_induct) (simp_all add: stored_row_def stored_in_same_kind)

lemma region_for_column:
  "region_for n c r \<Longrightarrow> storable r v = storable_in c v \<and> stored r v = stored_in c v"
  by (simp add: region_for_def storable_def storable_in_def stored_def stored_in_def)

section \<open>One chunk\<close>

lemma append_regions_nth:
  "i < length rs \<Longrightarrow> append_regions rs vs ! i = append_cell (rs ! i) (nth_or_null vs i)"
  by (simp add: append_regions_def nth_enumerate_eq)

lemma append_regions_length [simp]: "length (append_regions rs vs) = length rs"
  by (simp add: append_regions_def)

lemma nth_or_null_nth [simp]: "i < length vs \<Longrightarrow> nth_or_null vs i = vs ! i"
  by (simp add: nth_or_null_def nth_opt_def)

lemma body_for_length: "body_for s n b \<Longrightarrow> length (regions b) = length s"
  by (simp add: body_for_def list_all2_lengthD)

lemma body_for_region: "body_for s n b \<Longrightarrow> i < length s \<Longrightarrow> region_for n (s ! i) (regions b ! i)"
  by (simp add: body_for_def list_all2_conv_all_nth)

lemma body_for_fresh: "body_for s 0 (fresh_body s)"
  by (auto simp: body_for_def fresh_body_def list_all2_conv_all_nth region_for_def region_new_def
      region_ok_def region_runs_def cells_def plain_cells_def runs_or_default_def decode_runs_def
      run_total_def materialize_def)

lemma body_for_append:
  assumes b: "body_for s n b" and st: "row_storable s vs" and n: "Suc n < 2 ^ 32"
    and b': "regions b' = append_regions (regions b) vs"
  shows "body_for s (Suc n) b'"
    and "body_row b' i = (if i = n then stored_row s vs else body_row b i)"
proof -
  have l: "length (regions b) = length s" "length vs = length s"
    using body_for_length [OF b] st by (simp_all add: row_storable_def list_all2_lengthD)
  have r: "region_for n (s ! j) (regions b ! j)" "storable (regions b ! j) (vs ! j)"
    "stored (regions b ! j) (vs ! j) = stored_in (s ! j) (vs ! j)" if "j < length s" for j
    using body_for_region [OF b that] st that region_for_column
    by (auto simp: row_storable_def list_all2_conv_all_nth)
  have a: "region_ok (append_cell (regions b ! j) (vs ! j)) \<and>
      cells (append_cell (regions b ! j) (vs ! j)) = cells (regions b ! j) @ [stored_in (s ! j) (vs ! j)]"
    if "j < length s" for j
    using region.append_ok [of "regions b ! j" "vs ! j"] r [OF that] n by (simp add: region_for_def)
  have "region_for (Suc n) (s ! j) (regions b' ! j)" if "j < length s" for j
    using a [OF that] r [OF that] that l by (simp add: b' append_regions_nth region_for_def)
  then show "body_for s (Suc n) b'" using l b' by (simp add: body_for_def list_all2_conv_all_nth)
  have "read_cell (regions b' ! j) i = (if i = n then stored_in (s ! j) (vs ! j) else read_cell (regions b ! j) i)"
    if "j < length s" for j
    using region.read_append [of "regions b ! j" "vs ! j" i] r [OF that] n that l
    by (simp add: b' append_regions_nth region_for_def)
  then show "body_row b' i = (if i = n then stored_row s vs else body_row b i)"
    using l b' by (auto simp: body_row_def stored_row_def intro!: nth_equalityI)
qed

lemma rows_of_regions_eq:
  assumes "body_for s n b" and "s \<noteq> []"
  shows "rows_of_regions (regions b) = as_u32 n"
proof -
  obtain c cs r rs where "s = c # cs" "regions b = r # rs" "region_for n c r"
    using assms by (cases s; cases "regions b") (auto simp: body_for_def)
  then show ?thesis
    by (auto simp: rows_of_regions_def region_for_def cells_def length_materialize)
qed

section \<open>Room\<close>

text \<open>
  Every length of a chunk is written as a \<open>u32\<close>; the facts below hold while the chunk stays under
  that limit by the size of one more row.
\<close>

definition body_room :: "nat \<Rightarrow> body \<Rightarrow> bool" where
  "body_room n b \<longleftrightarrow> 12 * (n + 1) < 2 ^ 32 \<and> length (regions b) < 2 ^ 32 \<and>
     (\<forall>r \<in> set (regions b). length (rg_data r) + 12 < 2 ^ 32)"

definition page_room :: "page \<Rightarrow> bool" where
  "page_room pg \<longleftrightarrow> (case decode_body (pg_buf pg) of Ok b \<Rightarrow> body_room (slot_count pg) b | _ \<Rightarrow> True)"

lemma coalesce_length: "length (coalesce rs) \<le> length rs"
proof (induction rs rule: rev_induct)
  case (snoc r rs)
  have "length (coalesce_step out r) \<le> Suc (length out)" for out
    by (auto simp: coalesce_step_def)
  then show ?case using snoc by (simp add: coalesce_def) (meson Suc_le_mono le_trans)
qed (simp add: coalesce_def)

lemma scan_runs_length:
  "scan_records w rd (\<lambda>rs r. rs @ [r]) Ok n buf pos acc = Ok (rs, pos') \<Longrightarrow> length rs \<le> length acc + n"
proof (induction n arbitrary: pos acc)
  case (Suc n)
  then show ?case
    by (cases "length buf < pos + w") (fastforce simp: res_simps)+
qed simp

lemma runs_or_default_length: "run_width k * length (runs_or_default buf k) \<le> length buf"
proof (cases "decode_runs buf k")
  case (Ok rs)
  then have "length rs \<le> length buf div run_width k"
    using scan_runs_length [of "run_width k" "read_run k"] by (fastforce simp: decode_runs_def res_simps split: if_splits)
  then have "run_width k * length rs \<le> run_width k * (length buf div run_width k)" by simp
  also have "\<dots> \<le> length buf" by simp
  finally show ?thesis by (simp add: runs_or_default_def Ok)
qed (simp_all add: runs_or_default_def)

lemma encode_coalesce_length:
  assumes "\<forall>x \<in> set rs. kind (r_value x) = col_kind_name k"
  shows "length (encode_runs (coalesce rs)) \<le> run_width (col_kind_name k) * length rs"
proof -
  have "\<forall>x \<in> set rs. run_of_kind (col_kind_name k) x"
    using assms col_kind_name_mem by (simp only: run_of_kind_def) simp
  then have "\<forall>x \<in> set (coalesce rs). run_of_kind (col_kind_name k) x"
    using run_of_kind_coalesce by blast
  then show ?thesis using encode_runs_length [of "coalesce rs"] coalesce_length [of rs] by simp
qed

lemma plain_width_le: "plain_width k \<le> 8" "cell_width k \<le> 8"
  by (cases k; simp)+

lemma append_cell_length:
  assumes "storable r v"
  shows "length (rg_data (append_cell r v)) \<le> length (rg_data r) + 12"
proof (cases "rg_encoding r = Rle")
  case True
  let ?k = "rg_kind r"
  let ?rs = "runs_or_default (rg_data r) (col_kind_name ?k) @ [run_new v 1]"
  have "\<forall>x \<in> set ?rs. kind (r_value x) = col_kind_name ?k"
    using runs_or_default_kind [of _ "rg_data r" ?k] assms True
    by (auto simp: run_of_kind_def run_new_def storable_def)
  from encode_coalesce_length [OF this] show ?thesis
    using runs_or_default_length [of "col_kind_name ?k" "rg_data r"] plain_width_le(1) [of ?k] True
    by (simp add: append_cell_def)
next
  case False
  then show ?thesis using plain_width_le(2) [of "rg_kind r"]
    by (cases "rg_encoding r") (simp_all add: append_cell_def)
qed

lemma body_fits_append:
  assumes "body_for s n b" and "row_storable s vs" and "body_room n b" and "regions b' = append_regions (regions b) vs"
  shows "body_fits b'"
proof -
  have "region_fits (regions b' ! j)" if j: "j < length (regions b')" for j
  proof -
    have js: "j < length s" using j body_for_length [OF assms(1)] assms(4) by simp
    then have "storable (regions b ! j) (vs ! j)" "j < length vs"
      using body_for_region [OF assms(1) js] region_for_column assms(2)
      by (auto simp: row_storable_def list_all2_conv_all_nth)
    then have "length (rg_data (regions b' ! j)) \<le> length (rg_data (regions b ! j)) + 12"
      using append_cell_length j assms(4) by (simp add: append_regions_nth)
    moreover have "regions b ! j \<in> set (regions b)" using j assms(4) by simp
    ultimately show ?thesis using assms(3) by (auto simp: body_room_def region_fits_def)
  qed
  then show ?thesis using assms(3,4) by (auto simp: body_fits_def body_room_def in_set_conv_nth)
qed

section \<open>One page\<close>

text \<open>The page that holds a chunk and a slot directory, after \<open>put_page\<close>.\<close>

definition filled_page :: "body \<Rightarrow> slot_entry list \<Rightarrow> nat \<Rightarrow> page \<Rightarrow> page" where
  "filled_page b ss a pg = replace_slots ss (set_buf (encode_body b) a pg)"

lemma filled_page_fields [simp]:
  "pg_id (filled_page b ss a pg) = pg_id pg" "pg_kind (filled_page b ss a pg) = pg_kind pg"
  "pg_alloc (filled_page b ss a pg) = a" "pg_slots (filled_page b ss a pg) = Some ss"
  "pg_buf (filled_page b ss a pg) = encode_body b"
  "slots_of (filled_page b ss a pg) = ss" "slot_count (filled_page b ss a pg) = length ss"
  by (simp_all add: filled_page_def replace_slots_def set_buf_def slots_of_def slot_count_def)

lemma filled_page_ok:
  assumes "body_for s (length ss) b" and "num_rows b = as_u32 (length ss)" and "body_fits b" and "slots_ok ss"
  shows "data_page_ok s (filled_page b ss a pg)"
    and "page_row (filled_page b ss a pg) i = Some (body_row b i)"
  using decode_body_encode [OF assms(3), of "[]"] assms by (simp_all add: data_page_ok_def page_row_def)

lemma put_page_filled:
  "put_page p (encode_body b) ss db = db\<lparr>pager := pager_rebuf p (filled_page b ss) (pager db)\<rparr>"
  by (simp add: put_page_def db_rebuf_def filled_page_def [abs_def])

lemma pager_ok_filled: "pager_ok q \<Longrightarrow> pager_ok (pager_rebuf p (filled_page b ss) q)"
  by (rule pager_ok_rebuf) simp_all

text \<open>The page an append finds: a data page with \<open>n\<close> rows, or one that has no chunk yet.\<close>

definition open_as :: "schema \<Rightarrow> page \<Rightarrow> nat \<Rightarrow> body \<Rightarrow> bool" where
  "open_as s pg n b \<longleftrightarrow> slot_count pg = n \<and> slots_ok (slots_of pg) \<and> body_for s n b \<and>
     (if pg_buf pg = [] then b = fresh_body s else decode_body (pg_buf pg) = Ok b)"

lemma open_as_page:
  assumes "data_page_ok s pg"
  obtains b where "open_as s pg (slot_count pg) b" "decode_body (pg_buf pg) = Ok b" "pg_buf pg \<noteq> []"
proof -
  obtain b where b: "decode_body (pg_buf pg) = Ok b" "body_for s (slot_count pg) b" "slots_ok (slots_of pg)"
    using assms by (rule data_page_okE)
  moreover from this have "pg_buf pg \<noteq> []" by (auto simp: decode_body_def)
  ultimately show thesis using that by (simp add: open_as_def)
qed

lemma open_as_fresh: "open_as s (page_new i k [] a) 0 (fresh_body s)"
  by (simp add: open_as_def page_new_def slot_count_def slots_of_def slots_ok_def body_for_fresh)

lemma slots_ok_append: "slots_ok ss \<Longrightarrow> Suc (length ss) < 2 ^ 32 \<Longrightarrow> slots_ok (ss @ [slot_new r (as_u32 (length ss)) w])"
  by (auto simp: slots_ok_def nth_append slot_new_def less_Suc_eq)

text \<open>Appending a row puts it behind the others and leaves the others and every other page alone.\<close>

definition row_appended :: "schema \<Rightarrow> body \<Rightarrow> nat \<Rightarrow> val list \<Rightarrow> body \<Rightarrow> slot_entry list \<Rightarrow> bool" where
  "row_appended s b n vs b' ss \<longleftrightarrow> body_for s (Suc n) b' \<and> num_rows b' = as_u32 (Suc n) \<and> body_fits b' \<and>
     slots_ok ss \<and> length ss = Suc n \<and> (\<forall>i. body_row b' i = (if i = n then stored_row s vs else body_row b i))"

lemma append_row_ok:
  assumes pg: "pager_get (pager db) p = Some pg" and op: "open_as (schema db) pg n b"
    and room: "body_room n b" and st: "row_storable (schema db) vs" and s: "schema db \<noteq> []"
  shows "\<exists>b' w. append_row p r vs db = (Ok (), db\<lparr>
       pager := pager_rebuf p (filled_page b' (slots_of pg @ [slot_new r (as_u32 n) w])) (pager db),
       rowids := rid_insert r p n (rowids db), page_rows := push_page_row p r (page_rows db)\<rparr>) \<and>
     row_appended (schema db) b n vs b' (slots_of pg @ [slot_new r (as_u32 n) w])"
proof -
  let ?s = "schema db" and ?rs = "append_regions (regions b) vs"
  let ?b' = "\<lparr>num_rows = rows_of_regions ?rs, regions = ?rs\<rparr>" and ?w = "as_u32 (row_width (schema db))"
  have n: "length (slots_of pg) = n" "slots_ok (slots_of pg)" and b: "body_for ?s n b"
    using op by (simp_all add: open_as_def slots_of_Some)
  have n32: "Suc n < 2 ^ 32" using room by (simp add: body_room_def)
  have b': "body_for ?s (Suc n) ?b'" "\<And>i. body_row ?b' i = (if i = n then stored_row ?s vs else body_row b i)"
    using body_for_append [OF b st n32, of ?b'] by simp_all
  have "open_page db p = Ok (b, slots_of pg)"
    using op pg by (auto simp: open_page_def open_as_def split: if_splits)
  then have "append_row p r vs db = (Ok (), db\<lparr>
       pager := pager_rebuf p (filled_page ?b' (slots_of pg @ [slot_new r (as_u32 n) ?w])) (pager db),
       rowids := rid_insert r p n (rowids db), page_rows := push_page_row p r (page_rows db)\<rparr>)"
    using pg n by (simp add: append_row_def sbind_def Let_def put_page_filled)
  moreover have "num_rows ?b' = as_u32 (Suc n)"
    using rows_of_regions_eq [OF b'(1) s] by simp
  moreover have "body_fits ?b'" by (rule body_fits_append [OF b st room]) simp
  moreover have "slots_ok (slots_of pg @ [slot_new r (as_u32 n) ?w])"
    using slots_ok_append [of "slots_of pg" r ?w] n n32 by simp
  ultimately show ?thesis using b' n unfolding row_appended_def by (metis length_append_singleton)
qed

section \<open>Insert\<close>

text \<open>The index and zone-map steps touch nothing but their own tables.\<close>

lemma dict_rep_off:
  assumes rep: "dict_rep d p bs" and loc: "location_of d v = Some (off, len)"
    and pg: "pager_get p (dct_page d) = Some pg"
  shows "unat off \<le> length (pg_buf pg)"
proof -
  have "unat v < length bs" by (rule dict_rep_location_id [OF rep loc])
  then show ?thesis using dict_rep_location [OF rep, of "unat v"] loc pg
    by (auto simp: location_of_def get_range_def split: if_splits)
qed

definition index_item_ok :: "db \<Rightarrow> nat \<times> u32 \<times> u32 \<Rightarrow> bool" where
  "index_item_ok db w \<longleftrightarrow> (case w of (ci, v, pid) \<Rightarrow> ci < length (schema db) \<and> dict_page (schema db ! ci) = Some pid)"

lemma index_work_items: "w \<in> set (index_work (schema db) vs) \<Longrightarrow> index_item_ok db w"
  by (auto simp: index_work_def List.map_filter_def index_item_ok_def in_set_enumerate_eq
      split: val.splits if_splits)

lemma same_tables:
  "\<exists>xs. db = db\<lparr>indexes := xs\<rparr> \<and> length xs = length (indexes db)"
  "\<exists>zs. db = db\<lparr>zone_maps := zs\<rparr> \<and> length zs = length (zone_maps db)"
  by (rule exI [of _ "indexes db"], simp, rule exI [of _ "zone_maps db"], simp)

lemma index_row_ok:
  assumes ok: "dicts_ok db" and w: "index_item_ok db w"
  shows "\<exists>xs. index_row r w db = (Ok (), db\<lparr>indexes := xs\<rparr>) \<and> length xs = length (indexes db)"
proof -
  obtain ci v pid where w3: "w = (ci, v, pid)" by (cases w)
  show ?thesis
  proof (cases "get_some (dicts db) ci")
    case None
    then show ?thesis using same_tables(1) by (simp add: index_row_def w3)
  next
    case (Some d)
    have pid: "dct_page d = pid" using ok Some w by (auto simp: dicts_ok_def index_item_ok_def w3)
    obtain pg bs where pg: "pager_get (pager db) pid = Some pg" and rep: "dict_rep d (pager db) bs"
      using dicts_ok_page [OF ok Some] pid by metis
    show ?thesis
    proof (cases "location_of d v")
      case None
      then show ?thesis using same_tables(1) Some by (simp add: index_row_def w3)
    next
      case loc: (Some ol)
      obtain off len where ol: "ol = (off, len)" by (cases ol)
      have "capture_ptr pg (unat off) = Ok (Ptr (pg_alloc pg) (unat off))"
        using dict_rep_off [OF rep] loc pg pid by (simp add: capture_ptr_def ol)
      then show ?thesis using same_tables(1) [of db] Some loc pg
        by (cases "index_of db ci") (auto simp: index_row_def w3 ol sbind_def)
    qed
  qed
qed

lemma dicts_ok_indexes [simp]: "dicts_ok (db\<lparr>indexes := xs\<rparr>) = dicts_ok db"
  by (simp add: dicts_ok_def)

lemma index_item_ok_indexes [simp]: "index_item_ok (db\<lparr>indexes := xs\<rparr>) w = index_item_ok db w"
  by (simp add: index_item_ok_def)

lemma index_rows_ok:
  assumes "dicts_ok db" and "\<forall>w \<in> set ws. index_item_ok db w"
  shows "\<exists>xs. for_each (index_row r) ws db = (Ok (), db\<lparr>indexes := xs\<rparr>) \<and> length xs = length (indexes db)"
  using assms
proof (induction ws arbitrary: db)
  case Nil
  then show ?case using same_tables(1) by simp
next
  case (Cons w ws)
  obtain xs where xs: "index_row r w db = (Ok (), db\<lparr>indexes := xs\<rparr>)" "length xs = length (indexes db)"
    using index_row_ok [of db w r] Cons.prems by auto
  then show ?case using Cons.IH [of "db\<lparr>indexes := xs\<rparr>"] Cons.prems by (auto simp: sbind_def)
qed

lemma update_indexes_ok:
  assumes "dicts_ok db"
  shows "\<exists>xs. update_indexes_for_row r vs db = (Ok (), db\<lparr>indexes := xs\<rparr>) \<and> length xs = length (indexes db)"
  unfolding update_indexes_for_row_def by (intro index_rows_ok assms) (simp add: index_work_items)

definition zones_room :: "u32 \<Rightarrow> db \<Rightarrow> bool" where
  "zones_room p db \<longleftrightarrow> (\<forall>zm \<in> set (zone_maps db). \<forall>z. zm_get zm p = Some z \<longrightarrow> z_live z \<noteq> u32_max)"

lemma zone_add_ok:
  "\<forall>z. zm_get zm p = Some z \<longrightarrow> z_live z \<noteq> u32_max \<Longrightarrow> \<exists>zm'. zone_add p v zm = Ok zm'"
  by (simp add: zone_add_def Let_def case_prod_unfold split: option.split)

lemma zone_rows_ok:
  assumes "\<forall>ci \<in> set cis. ci < length (zone_maps db)" and "distinct cis"
    and "\<forall>ci \<in> set cis. \<forall>z. zm_get (zone_maps db ! ci) p = Some z \<longrightarrow> z_live z \<noteq> u32_max"
  shows "\<exists>zs. for_each (zone_row p vs) cis db = (Ok (), db\<lparr>zone_maps := zs\<rparr>) \<and> length zs = length (zone_maps db)"
  using assms
proof (induction cis arbitrary: db)
  case Nil
  then show ?case using same_tables(2) by simp
next
  case (Cons ci cis)
  have ci: "ci < length (zone_maps db)" using Cons.prems(1) by simp
  obtain zm where zm: "zone_add p (nth_or_null vs ci) (zone_maps db ! ci) = Ok zm"
    using zone_add_ok [of "zone_maps db ! ci" p "nth_or_null vs ci"] Cons.prems(3) by auto
  let ?db = "db\<lparr>zone_maps := (zone_maps db)[ci := zm]\<rparr>"
  have "zone_row p vs ci db = (Ok (), ?db)"
    using ci zm nth_opt_Some [of "zone_maps db" ci "zone_maps db ! ci"] by (simp add: zone_row_def sbind_def del: nth_opt_Some)
  moreover have "\<exists>zs. for_each (zone_row p vs) cis ?db = (Ok (), ?db\<lparr>zone_maps := zs\<rparr>) \<and>
      length zs = length (zone_maps ?db)"
    using Cons.prems by (intro Cons.IH) (auto simp: nth_list_update)
  ultimately show ?case by (auto simp: sbind_def)
qed

lemma update_zone_maps_ok:
  assumes "zones_room p db" and "length (schema db) \<le> length (zone_maps db)"
  shows "\<exists>zs. update_zone_maps_for_row p vs db = (Ok (), db\<lparr>zone_maps := zs\<rparr>) \<and> length zs = length (zone_maps db)"
  unfolding update_zone_maps_for_row_def
  by (rule zone_rows_ok) (use assms in \<open>auto simp: zones_room_def\<close>)

text \<open>The page an insert works on, and what its choice leaves of the rest.\<close>

definition slots_at :: "pager \<Rightarrow> u32 \<Rightarrow> slot_entry list" where
  "slots_at q p = (case pager_get q p of None \<Rightarrow> [] | Some pg \<Rightarrow> slots_of pg)"

definition db_room :: "db \<Rightarrow> bool" where
  "db_room db \<longleftrightarrow> length (schema db) < 2 ^ 32 \<and>
     (free_ids (pager db) \<noteq> [] \<or> length (pages (pager db)) < 4294967295) \<and>
     (\<forall>p pg. pager_get (pager db) p = Some pg \<longrightarrow> pg_kind pg = PkData \<longrightarrow> page_room pg) \<and>
     (\<forall>p. zones_room p db)"

lemma pages_okD: "pages_ok db \<Longrightarrow> pager_get (pager db) p = Some pg \<Longrightarrow> pg_kind pg = PkData \<Longrightarrow> data_page_ok (schema db) pg"
  by (simp add: pages_ok_def)

definition page_chosen :: "db \<Rightarrow> u32 \<Rightarrow> pager \<Rightarrow> fsm \<Rightarrow> page \<Rightarrow> nat \<Rightarrow> body \<Rightarrow> bool" where
  "page_chosen db p q f pg n b \<longleftrightarrow> pager_ok q \<and>
     (\<forall>i. i \<noteq> p \<longrightarrow> pager_get q i = pager_get (pager db) i) \<and>
     pager_get q p = Some pg \<and> pg_kind pg = PkData \<and> open_as (schema db) pg n b \<and> body_room n b \<and>
     slots_of pg = slots_at (pager db) p \<and>
     (pager_get (pager db) p = None \<or> pager_get (pager db) p = Some pg \<and> decode_body (pg_buf pg) = Ok b) \<and>
     fsm_ok f \<and> (\<forall>i v. bm_get (space f) i = Some v \<longrightarrow> i = p \<or> bm_get (space (fsm db)) i \<noteq> None)"

lemma page_for_row_ok:
  assumes ok: "db_ok db" and room: "db_room db"
  shows "\<exists>p q f pg n b. page_for_row need db = (Ok p, db\<lparr>pager := q, fsm := f\<rparr>) \<and> page_chosen db p q f pg n b"
proof (cases "page_with_space (fsm db) (as_u32 need)")
  case (Some p)
  have f: "fsm_ok (fsm db)" using ok by (auto simp: db_ok_def space_ok_def)
  obtain v where "bm_get (space (fsm db)) p = Some v" using page_with_space_Some [OF f Some] by blast
  then obtain pg where pg: "pager_get (pager db) p = Some pg" "pg_kind pg = PkData"
    using ok by (auto simp: db_ok_def space_ok_def)
  have "data_page_ok (schema db) pg" using ok pg by (auto simp: db_ok_def intro: pages_okD)
  then obtain b where b: "open_as (schema db) pg (slot_count pg) b" "decode_body (pg_buf pg) = Ok b"
    by (rule open_as_page)
  have "body_room (slot_count pg) b" using room pg b by (force simp: db_room_def page_room_def)
  moreover have "pager_ok (pager db)" using ok by (auto simp: db_ok_def pages_ok_def)
  ultimately have "page_chosen db p (pager db) (fsm db) pg (slot_count pg) b"
    using pg b f by (simp add: page_chosen_def slots_at_def)
  moreover have "page_for_row need db = (Ok p, db\<lparr>pager := pager db, fsm := fsm db\<rparr>)"
    by (simp add: page_for_row_def Some)
  ultimately show ?thesis by blast
next
  case None
  have pok: "pager_ok (pager db)" using ok by (auto simp: db_ok_def pages_ok_def)
  obtain p q where a: "pager_alloc PkData [] (pager db) = (Ok p, q)"
    using pager_alloc_no_panic [OF pok] room by (metis db_room_def)
  let ?pg = "page_new p PkData [] (next_alloc (pager db))"
    and ?f = "set_space p (as_u32 page_data_capacity) (fsm db)"
  note get = pager_alloc_get [OF pok a]
  have "body_room 0 (fresh_body (schema db))"
    using room by (auto simp: body_room_def fresh_body_def db_room_def region_new_def)
  moreover have "fsm_ok ?f" using ok by (auto simp: db_ok_def space_ok_def)
  moreover have "slots_of ?pg = slots_at (pager db) p"
    by (simp add: slots_at_def get(1)) (simp add: page_new_def slots_of_def)
  moreover have "bm_get (space ?f) i = Some v \<Longrightarrow> i = p \<or> bm_get (space (fsm db)) i \<noteq> None" for i v
    by (auto simp: set_space_def split: if_splits)
  moreover have "pg_kind ?pg = PkData" by (simp add: page_new_def)
  ultimately have "page_chosen db p q ?f ?pg 0 (fresh_body (schema db))"
    using pager_ok_alloc [OF pok a] get open_as_fresh unfolding page_chosen_def by metis
  moreover have "page_for_row need db = (Ok p, db\<lparr>pager := q, fsm := ?f\<rparr>)"
    by (simp add: page_for_row_def None a)
  ultimately show ?thesis by blast
qed

lemma dict_page_not_data:
  assumes "dicts_ok db" and "get_some (dicts db) ci = Some d"
    and "pager_get (pager db) p = None \<or> pager_get (pager db) p = Some pg \<and> pg_kind pg = PkData"
  shows "dct_page d \<noteq> p"
proof -
  obtain pg' where "pager_get (pager db) (dct_page d) = Some pg'" "pg_kind pg' = PkDict"
    using assms(1,2) by (rule dicts_ok_page)
  then show ?thesis using assms(3) by auto
qed

text \<open>Adding one live slot for a new row adds the row to the table.\<close>

lemma db_ok_add_row:
  assumes ok: "db_ok db" and fresh: "rid_get (rowids db) r = None"
    and same: "schema db' = schema db" "dicts db' = dicts db" and sh: "shape_ok db'"
    and pok: "pager_ok (pager db')"
    and others: "\<And>i. i \<noteq> p \<Longrightarrow> pager_get (pager db') i = pager_get (pager db) i"
    and old: "pager_get (pager db) p = None \<or> pager_get (pager db) p = Some pg \<and> pg_kind pg = PkData"
    and new: "pager_get (pager db') p = Some pg'" "pg_kind pg' = PkData" "data_page_ok (schema db) pg'"
    and slots: "slots_of pg' = slots_at (pager db) p @ [e]" "slot_row e = r" "slot_live e"
    and rows: "\<And>i. page_row pg' i = (if i = length (slots_at (pager db) p) then Some row
       else if pager_get (pager db) p = None then page_row pg' i else page_row pg i)"
    and rids: "bm_ok (rowids db')"
      "rid_get (rowids db') = (rid_get (rowids db))(r \<mapsto> (p, length (slots_at (pager db) p)))"
    and sp: "fsm_ok (fsm db')" "\<And>i v. bm_get (space (fsm db')) i = Some v \<Longrightarrow> i = p \<or> bm_get (space (fsm db)) i \<noteq> None"
  shows "db_ok db'" and "table db' = (table db)(r \<mapsto> row)"
proof -
  let ?n = "length (slots_at (pager db) p)"
  have po: "pages_ok db'" unfolding pages_ok_def
  proof (intro conjI allI impI)
    show "pager_ok (pager db')" by fact
    show "data_page_ok (schema db') x" if "pager_get (pager db') i = Some x" "pg_kind x = PkData" for i x
      using that others [of i] new ok pages_okD [of db i x] same by (cases "i = p") auto
  qed
  have live: "live_slot (pager db') x (q, i) \<longleftrightarrow> live_slot (pager db) x (q, i) \<or> x = r \<and> (q, i) = (p, ?n)" for x q i
  proof (cases "q = p")
    case True
    have "live_slot (pager db') x (p, i) \<longleftrightarrow> i < Suc ?n \<and> slot_row ((slots_at (pager db) p @ [e]) ! i) = x \<and>
        slot_live ((slots_at (pager db) p @ [e]) ! i)"
      using new slots by (simp add: live_slot_def slots_of_Some)
    moreover have "live_slot (pager db) x (p, i) \<longleftrightarrow> i < ?n \<and> slot_row (slots_at (pager db) p ! i) = x \<and>
        slot_live (slots_at (pager db) p ! i)"
      using old by (auto simp: live_slot_def slots_at_def slots_of_Some)
    ultimately show ?thesis using True slots by (auto simp: nth_append less_Suc_eq)
  qed (use others in \<open>simp add: live_slot_def\<close>)
  have ro: "rows_ok db" using ok by auto
  have map: "rid_get (rowids db) x = Some at \<longleftrightarrow> live_slot (pager db) x at" for x at
    using ro unfolding rows_ok_def by blast
  then have "\<not> live_slot (pager db) r at" for at using fresh by (metis option.distinct(1))
  then have "rid_get (rowids db') x = Some (q, i) \<longleftrightarrow> live_slot (pager db') x (q, i)" for x q i
    using live [of x q i] map [of x "(q, i)"] by (cases "x = r") (auto simp: rids(2))
  then have r': "rows_ok db'" using rids(1) by (simp add: rows_ok_def)
  have "\<exists>x. pager_get (pager db') i = Some x \<and> pg_kind x = PkData" if "bm_get (space (fsm db')) i = Some v" for i v
    using sp(2) [OF that] new others [of i] ok by (cases "i = p") (auto simp: db_ok_def space_ok_def)
  then have so: "space_ok db'" using sp(1) by (simp add: space_ok_def)
  have "dct_page d \<noteq> p" if "get_some (dicts db) ci = Some d" for ci d
    using dict_page_not_data [OF _ that] ok old by blast
  then have "dicts_ok db'" using dicts_ok_frame [of db db'] ok same others by auto
  with sh po r' so show "db_ok db'" by (simp add: db_ok_def)
  show "table db' = (table db)(r \<mapsto> row)"
  proof
    fix x
    show "table db' x = ((table db)(r \<mapsto> row)) x"
    proof (cases "x = r")
      case True
      then show ?thesis using new rows [of ?n] by (simp add: table_def rids(2))
    next
      case False
      show ?thesis
      proof (cases "rid_get (rowids db) x")
        case None
        then show ?thesis using False by (simp add: table_def rids(2))
      next
        case (Some at)
        obtain q i where at: "at = (q, i)" by (cases at)
        obtain pq where pq: "pager_get (pager db) q = Some pq" "i < slot_count pq"
          using rows_okD [OF ro] Some at by metis
        then show ?thesis using False Some at others [of q] new old rows [of i]
          by (cases "q = p") (auto simp: table_def rids(2) slots_at_def slots_of_Some)
      qed
    qed
  qed
qed

lemma db_ok_counters [simp]:
  "db_ok (db\<lparr>next_row_id := x\<rparr>) = db_ok db" "db_ok (db\<lparr>stats := y\<rparr>) = db_ok db"
  "db_room (db\<lparr>next_row_id := x\<rparr>) = db_room db" "db_room (db\<lparr>stats := y\<rparr>) = db_room db"
  by (simp_all add: db_ok_def shape_ok_def pages_ok_def rows_ok_def space_ok_def dicts_ok_def db_room_def
      zones_room_def)

lemma table_counters [simp]:
  "table (db\<lparr>next_row_id := x\<rparr>) = table db" "table (db\<lparr>stats := y\<rparr>) = table db"
  by (rule table_cong; simp)+

text \<open>A new row is added to the table, and the invariant is kept.\<close>

lemma insert_ok:
  assumes ok: "db_ok db" and room: "db_room db" and len: "length vs = length (schema db)"
    and r: "r = choose_row_id vs db" "r \<noteq> - 1" and fresh: "rid_get (rowids db) r = None"
    and st: "row_storable (schema db) (vs[0 := VInt r])"
  obtains db' where "insert vs db = (Ok r, db')" "db_ok db'" "schema db' = schema db"
    "table db' = (table db)(r \<mapsto> stored_row (schema db) (vs[0 := VInt r]))"
    "next_row_id db' = max (next_row_id db) (r + 1)"
proof -
  let ?s = "schema db" and ?vs = "vs[0 := VInt r]" and ?need = "max (row_width (schema db)) 1"
  let ?db0 = "db\<lparr>next_row_id := max (next_row_id db) (r + 1),
      stats := (stats db)\<lparr>st_inserts := st_inserts (stats db) + 1\<rparr>\<rparr>"
  have s: "?s \<noteq> []" using ok by (auto simp: db_ok_def shape_ok_def)
  then have vs: "vs \<noteq> []" using len by auto
  have ok0: "db_ok ?db0" and room0: "db_room ?db0" using ok room by simp_all
  obtain p q f pg n b where ch:
    "page_for_row ?need ?db0 = (Ok p, ?db0\<lparr>pager := q, fsm := f\<rparr>)" "page_chosen ?db0 p q f pg n b"
    using page_for_row_ok [OF ok0 room0] by blast
  then have pf: "pager_ok q" "\<And>i. i \<noteq> p \<Longrightarrow> pager_get q i = pager_get (pager db) i"
    "pager_get q p = Some pg" "pg_kind pg = PkData" "open_as ?s pg n b" "body_room n b"
    "slots_of pg = slots_at (pager db) p"
    "pager_get (pager db) p = None \<or> pager_get (pager db) p = Some pg \<and> decode_body (pg_buf pg) = Ok b"
    "fsm_ok f" "\<And>i v. bm_get (space f) i = Some v \<Longrightarrow> i = p \<or> bm_get (space (fsm db)) i \<noteq> None"
    by (simp_all add: page_chosen_def)
  let ?db1 = "?db0\<lparr>pager := q, fsm := f\<rparr>"
  obtain b' w where ap0: "append_row p r ?vs ?db1 = (Ok (), ?db1\<lparr>
       pager := pager_rebuf p (filled_page b' (slots_of pg @ [slot_new r (as_u32 n) w])) q,
       rowids := rid_insert r p n (rowids db), page_rows := push_page_row p r (page_rows db)\<rparr>)"
    "row_appended ?s b n ?vs b' (slots_of pg @ [slot_new r (as_u32 n) w])"
    using append_row_ok [of ?db1 p pg n b ?vs r] pf(3,5,6) st s by simp blast
  note ap = ap0(2) [unfolded row_appended_def]
  let ?db2 = "?db1\<lparr>
       pager := pager_rebuf p (filled_page b' (slots_of pg @ [slot_new r (as_u32 n) w])) q,
       rowids := rid_insert r p n (rowids db), page_rows := push_page_row p r (page_rows db)\<rparr>"
  let ?db3 = "?db2\<lparr>fsm := adjust_space p (- int ?need) f\<rparr>"
  let ?pg' = "filled_page b' (slots_of pg @ [slot_new r (as_u32 n) w]) (next_alloc q) pg"
  have n: "length (slots_at (pager db) p) = n"
    using pf(5,7) by (simp add: open_as_def slots_of_Some)
  have get: "pager_get (pager ?db3) i = (if i = p then Some ?pg' else pager_get (pager db) i)" for i
    using pf(2) [of i] pf(3) by (auto simp: pager_get_rebuf)
  have dd: "dct_page d \<noteq> p" if "get_some (dicts db) ci = Some d" for ci d
    using dict_page_not_data [OF _ that] ok pf(4,8) by blast
  have "dicts_ok ?db3"
  proof (rule dicts_ok_frame [of db])
    show "dicts_ok db" by (rule db_ok_parts(5) [OF ok])
    show "pager_get (pager ?db3) (dct_page d) = pager_get (pager db) (dct_page d)"
      if "get_some (dicts db) ci = Some d" for ci d
      by (subst get) (simp add: dd [OF that])
  qed simp_all
  then obtain xs where xs: "update_indexes_for_row r ?vs ?db3 = (Ok (), ?db3\<lparr>indexes := xs\<rparr>)"
    "length xs = length (indexes db)" using update_indexes_ok [of ?db3 r ?vs] by auto
  have "zones_room p (?db3\<lparr>indexes := xs\<rparr>)" using room by (simp add: zones_room_def db_room_def)
  then obtain zs where zs: "update_zone_maps_for_row p ?vs (?db3\<lparr>indexes := xs\<rparr>) =
      (Ok (), ?db3\<lparr>indexes := xs, zone_maps := zs\<rparr>)" "length zs = length (zone_maps db)"
    using update_zone_maps_ok [of p "?db3\<lparr>indexes := xs\<rparr>" ?vs] ok by (auto simp: db_ok_def shape_ok_def)
  let ?db4 = "?db3\<lparr>indexes := xs, zone_maps := zs\<rparr>"
  have ins: "insert vs db = (Ok r, ?db4)"
    using len r(2) vs ch(1) xs(1) zs(1) ap0(1) by (simp add: insert_def arity_def r(1) [symmetric] Let_def sbind_def)
  have rows: "page_row ?pg' i = (if i = n then Some (stored_row ?s ?vs)
      else if pager_get (pager db) p = None then page_row ?pg' i else page_row pg i)" for i
    using filled_page_ok(2) [of ?s "slots_of pg @ [slot_new r (as_u32 n) w]" b'] ap pf(7,8) n
    by (auto simp: page_row_def)
  have sh: "shape_ok ?db4" using ok xs zs by (simp add: db_ok_def shape_ok_def)
  have pok: "pager_ok (pager ?db4)" using pf(1) by (simp add: pager_ok_filled)
  have others: "pager_get (pager ?db4) i = pager_get (pager db) i" if "i \<noteq> p" for i
    using get [of i] that by simp
  have old: "pager_get (pager db) p = None \<or> pager_get (pager db) p = Some pg \<and> pg_kind pg = PkData"
    using pf(4,8) by blast
  have new: "pager_get (pager ?db4) p = Some ?pg'" "pg_kind ?pg' = PkData" "data_page_ok ?s ?pg'"
    using get [of p] pf(4,7) n ap filled_page_ok(1) [of ?s "slots_of pg @ [slot_new r (as_u32 n) w]" b']
    by simp_all
  have slots: "slots_of ?pg' = slots_at (pager db) p @ [slot_new r (as_u32 n) w]"
    "slot_row (slot_new r (as_u32 n) w) = r" "slot_live (slot_new r (as_u32 n) w)"
    using pf(7) by (simp_all add: slot_new_def)
  have rids: "bm_ok (rowids ?db4)"
    "rid_get (rowids ?db4) = (rid_get (rowids db))(r \<mapsto> (p, length (slots_at (pager db) p)))"
    using ok n by (simp_all add: db_ok_def rows_ok_def)
  have sp: "fsm_ok (fsm ?db4)" using pf(9) by simp
  have sp2: "i = p \<or> bm_get (space (fsm db)) i \<noteq> None" if "bm_get (space (fsm ?db4)) i = Some v" for i v
    using that pf(10) [of i] by (auto simp: adjust_space_def split: if_splits)
  have rows': "page_row ?pg' i = (if i = length (slots_at (pager db) p) then Some (stored_row ?s ?vs)
      else if pager_get (pager db) p = None then page_row ?pg' i else page_row pg i)" for i
    unfolding n by (rule rows)
  have same: "schema ?db4 = schema db" "dicts ?db4 = dicts db" by simp_all
  note res = db_ok_add_row [OF ok fresh same sh pok others old new slots rows' rids sp sp2]
  show thesis by (rule that [of ?db4]) (use ins res in auto)
qed

section \<open>Reads\<close>

lemma page_row_length: "data_page_ok s pg \<Longrightarrow> page_row pg i = Some row \<Longrightarrow> length row = length s"
  by (elim data_page_okE) (auto simp: page_row_def body_row_def body_for_length)

text \<open>In a well-formed database both read paths return the table's value; the fast one is defined.\<close>

lemma table_at:
  assumes ok: "db_ok db" and g: "rid_get (rowids db) r = Some (p, i)"
  obtains pg b where "pager_get (pager db) p = Some pg" "pg_kind pg = PkData" "data_page_ok (schema db) pg"
    "i < slot_count pg" "decode_body (pg_buf pg) = Ok b" "body_for (schema db) (slot_count pg) b"
    "table db r = Some (body_row b i)" "pg_slots pg = Some (slots_of pg)" "slot_off (slots_of pg ! i) = as_u32 i"
    "slot_count pg < 2 ^ 32"
proof -
  obtain pg where pg: "pager_get (pager db) p = Some pg" "pg_kind pg = PkData" "i < slot_count pg"
    using rows_okD [OF db_ok_parts(3) [OF ok] g] by metis
  have d: "data_page_ok (schema db) pg" using pages_okD [OF db_ok_parts(2) [OF ok] pg(1,2)] .
  obtain b where b: "decode_body (pg_buf pg) = Ok b" "body_for (schema db) (slot_count pg) b"
    "slots_ok (slots_of pg)" "pg_slots pg = Some (slots_of pg)" using d by (rule data_page_okE)
  have "table db r = Some (body_row b i)" by (simp add: table_def g pg page_row_def b)
  moreover have "slot_off (slots_of pg ! i) = as_u32 i" "slot_count pg < 2 ^ 32"
    using b(3) pg(3) by (simp_all add: slots_ok_def slots_of_Some)
  ultimately show thesis using that pg d b by blast
qed

lemma read_row_cell_table:
  assumes ok: "db_ok db"
  shows "read_row_cell db r col = (case table db r of None \<Rightarrow> None | Some row \<Rightarrow> nth_opt row col)"
proof (cases "rid_get (rowids db) r")
  case None
  then show ?thesis by (simp add: read_row_cell_def table_def)
next
  case (Some at)
  obtain p i where "at = (p, i)" by (cases at)
  with Some have g: "rid_get (rowids db) r = Some (p, i)" by simp
  show ?thesis
    using ok g by (rule table_at) (auto simp: read_row_cell_def g body_row_def nth_opt_def)
qed

lemma read_row_cell_fast_table:
  assumes ok: "db_ok db"
  shows "read_row_cell_fast db r col = Ok (read_row_cell db r col)"
proof (cases "rid_get (rowids db) r")
  case None
  then show ?thesis by (simp add: read_row_cell_def read_row_cell_fast_def)
next
  case (Some at)
  obtain p i where "at = (p, i)" by (cases at)
  with Some have g: "rid_get (rowids db) r = Some (p, i)" by simp
  show ?thesis
    using ok g by (rule table_at)
      (auto simp: read_row_cell_def read_row_cell_fast_def g slot_at_unchecked_def slots_of_Some)
qed

lemma table_row_length: "db_ok db \<Longrightarrow> table db r = Some row \<Longrightarrow> length row = length (schema db)"
proof -
  assume ok: "db_ok db" and row: "table db r = Some row"
  then obtain p i where g: "rid_get (rowids db) r = Some (p, i)"
    by (auto simp: table_def split: option.splits)
  show ?thesis using ok g by (rule table_at) (use row in \<open>auto simp: body_row_def body_for_length\<close>)
qed

lemma scan_matching_table:
  assumes "db_ok db" and "col < length (schema db)"
  shows "set (scan_matching db col op t) = {r. \<exists>row. table db r = Some row \<and> cmp_apply op (row ! col) t}"
proof -
  have "r \<in> set (row_ids (rowids db)) \<longleftrightarrow> table db r \<noteq> None" for r
    unfolding row_ids_set db_ok_table_dom [OF assms(1), symmetric] by (simp add: dom_def)
  moreover have "nth_opt row col = Some (row ! col)" if "table db r = Some row" for r row
    using table_row_length [OF assms(1) that] assms(2) by simp
  ultimately show ?thesis
    by (auto simp: scan_matching_def read_row_cell_table [OF assms(1)] simp del: nth_opt_Some split: option.splits)
qed

section \<open>Delete\<close>

lemma kill_slot_fields [simp]:
  "pg_id (kill_slot i pg) = pg_id pg" "pg_kind (kill_slot i pg) = pg_kind pg" "pg_buf (kill_slot i pg) = pg_buf pg"
  "pg_alloc (kill_slot i pg) = pg_alloc pg" "slot_count (kill_slot i pg) = slot_count pg"
  "page_row (kill_slot i pg) j = page_row pg j" "pg_slots (kill_slot i pg) = None \<longleftrightarrow> pg_slots pg = None"
  by (simp_all add: kill_slot_def slot_count_def page_row_def split: option.split)

lemma kill_slot_slots:
  "slots_of (kill_slot i pg) = (slots_of pg)[i := (slots_of pg ! i)\<lparr>slot_live := False\<rparr>]"
  by (simp add: kill_slot_def slots_of_def list_update_beyond split: option.split)

lemma kill_slot_off [simp]:
  "slot_off (ss[i := (ss ! i)\<lparr>slot_live := False\<rparr>] ! j) = slot_off (ss ! j)"
  by (cases "i < length ss"; cases "i = j") (simp_all add: list_update_beyond)

lemma kill_slot_ok: "data_page_ok s pg \<Longrightarrow> data_page_ok s (kill_slot i pg)"
  by (simp add: data_page_ok_def kill_slot_slots slots_ok_def)

lemma delete_row_ok:
  assumes ok: "db_ok db"
  shows "db_ok (snd (delete_row r db))" and "table (snd (delete_row r db)) = (table db)(r := None)"
    and "fst (delete_row r db) = (if table db r = None then 0 else 1)"
    and "schema (snd (delete_row r db)) = schema db"
proof -
  have dom: "table db r = None \<longleftrightarrow> rid_get (rowids db) r = None"
    using db_ok_table_dom [OF ok] by blast
  have bm: "bm_ok (rowids db)" using ok by (simp add: db_ok_def rows_ok_def)
  have rem: "rid_get (bm_remove r (rowids db)) = (rid_get (rowids db))(r := None)"
    using rid_get_remove [OF bm] by (simp add: rid_remove_def)
  have live: "rid_get (rowids db) x = Some at \<longleftrightarrow> live_slot (pager db) x at" for x at
    using ok unfolding db_ok_def rows_ok_def by blast
  have "db_ok (snd (delete_row r db)) \<and> table (snd (delete_row r db)) = (table db)(r := None) \<and>
      fst (delete_row r db) = (if table db r = None then 0 else 1) \<and> schema (snd (delete_row r db)) = schema db"
  proof (cases "rid_get (rowids db) r")
    case None
    let ?db' = "db\<lparr>rowids := bm_remove r (rowids db)\<rparr>"
    have d: "delete_row r db = (0, ?db')"
      using None by (simp add: delete_row_def rid_remove_def rid_get_def)
    have same: "rid_get (rowids ?db') = rid_get (rowids db)" using None rem by (simp add: fun_upd_idem)
    then have "rows_ok ?db'" using ok bm by (simp add: db_ok_def rows_ok_def)
    then have "db_ok ?db'" using ok
      by (simp add: db_ok_def shape_ok_def pages_ok_def space_ok_def dicts_ok_def)
    moreover have "table ?db' = table db" using same by (intro table_cong) simp_all
    ultimately show ?thesis using d dom None by (simp add: fun_upd_idem)
  next
    case (Some at)
    obtain p i where at: "rid_get (rowids db) r = Some (p, i)" using Some by (cases at) simp
    let ?db' = "db\<lparr>rowids := bm_remove r (rowids db), pager := pager_modify p (kill_slot i) (pager db),
       indexes := map (map_option (unindex_row r)) (indexes db), page_rows := retain_page_row p r (page_rows db)\<rparr>"
    have d: "delete_row r db = (1, ?db')"
      using at by (simp add: delete_row_def rid_remove_def rid_get_def)
    obtain pg where pg: "pager_get (pager db) p = Some pg" "pg_kind pg = PkData" "i < slot_count pg"
      "slot_row (slots_of pg ! i) = r" "slot_live (slots_of pg ! i)"
      using rows_okD [OF db_ok_parts(3) [OF ok] at] by metis
    have get: "pager_get (pager ?db') q = (if p = q then Some (kill_slot i pg) else pager_get (pager db) q)" for q
      using pg(1) by (auto simp: pager_get_modify)
    have po: "pages_ok ?db'" unfolding pages_ok_def
    proof (intro conjI allI impI)
      show "pager_ok (pager ?db')" using ok by (simp add: pager_ok_modify db_ok_def pages_ok_def)
      show "data_page_ok (schema ?db') x" if "pager_get (pager ?db') q = Some x" "pg_kind x = PkData" for q x
        using that get [of q] pages_okD [OF db_ok_parts(2) [OF ok]] pg(1,2) kill_slot_ok
        by (cases "p = q") auto
    qed
    have "live_slot (pager ?db') x (q, j) \<longleftrightarrow> live_slot (pager db) x (q, j) \<and> x \<noteq> r" for x q j
    proof (cases "q = p")
      case True
      have "live_slot (pager ?db') x (p, j) \<longleftrightarrow> live_slot (pager db) x (p, j) \<and> j \<noteq> i"
        using get [of p] pg by (auto simp: live_slot_def kill_slot_slots slots_of_Some nth_list_update)
      moreover have "live_slot (pager db) r (p, j) \<longleftrightarrow> j = i"
        using live [of r "(p, j)"] at by auto
      ultimately show ?thesis using True pg live [of x "(p, i)"] at
        by (auto simp: live_slot_def)
    next
      case False
      then show ?thesis using get [of q] live [of r "(q, j)"] at by (auto simp: live_slot_def)
    qed
    then have "rid_get (rowids ?db') x = Some (q, j) \<longleftrightarrow> live_slot (pager ?db') x (q, j)" for x q j
      using live [of x "(q, j)"] rem by auto
    then have ro: "rows_ok ?db'" using bm by (simp add: rows_ok_def)
    have "space_ok ?db'" using ok pg get by (auto simp: db_ok_def space_ok_def)
    moreover have "dicts_ok ?db'"
    proof (rule dicts_ok_frame [of db])
      show "pager_get (pager ?db') (dct_page e) = pager_get (pager db) (dct_page e)"
        if "get_some (dicts db) ci = Some e" for ci e
        using get [of "dct_page e"] dict_page_not_data [OF db_ok_parts(5) [OF ok] that, of p pg] pg by simp
    qed (use ok in \<open>simp_all add: db_ok_def\<close>)
    moreover have "shape_ok ?db'" using ok by (simp add: db_ok_def shape_ok_def)
    ultimately have "db_ok ?db'" using po ro by (simp add: db_ok_def)
    moreover have "table ?db' = (table db)(r := None)"
      using rem get pg(1) by (auto simp: fun_eq_iff table_def split: option.splits)
    ultimately show ?thesis using d dom at by simp
  qed
  then show "db_ok (snd (delete_row r db))" "table (snd (delete_row r db)) = (table db)(r := None)"
    "fst (delete_row r db) = (if table db r = None then 0 else 1)"
    "schema (snd (delete_row r db)) = schema db" by simp_all
qed

lemma delete_rows_ok:
  assumes "db_ok db"
  shows "db_ok (snd (delete_rows rs db))" and "table (snd (delete_rows rs db)) = (table db) |` (- set rs)"
    and "fst (delete_rows rs db) = card (dom (table db) \<inter> set rs)"
    and "schema (snd (delete_rows rs db)) = schema db"
proof -
  have "db_ok (snd (delete_rows rs db)) \<and> table (snd (delete_rows rs db)) = (table db) |` (- set rs) \<and>
      fst (delete_rows rs db) = card (dom (table db) \<inter> set rs) \<and> schema (snd (delete_rows rs db)) = schema db"
    using assms
  proof (induction rs arbitrary: db)
    case (Cons r rs)
    obtain n db1 where d: "delete_row r db = (n, db1)" by (cases "delete_row r db")
    note one = delete_row_ok [OF Cons.prems, of r, unfolded d, simplified]
    obtain m db2 where d2: "delete_rows rs db1 = (m, db2)" by (cases "delete_rows rs db1")
    note rest = Cons.IH [OF one(1), unfolded d2, simplified]
    have "dom (table db) \<inter> set (r # rs) =
        (if table db r = None then {} else {r}) \<union> dom (table db1) \<inter> set rs"
      by (auto simp: one(2))
    moreover have "r \<notin> dom (table db1) \<inter> set rs" by (simp add: one(2))
    ultimately have "card (dom (table db) \<inter> set (r # rs)) = n + m"
      using one(3) rest by simp
    moreover have "table db2 = (table db) |` (- set (r # rs))"
      using rest one(2) by (auto simp: fun_eq_iff restrict_map_def)
    ultimately show ?case using d d2 rest one by simp
  qed (simp add: restrict_map_def)
  then show "db_ok (snd (delete_rows rs db))" "table (snd (delete_rows rs db)) = (table db) |` (- set rs)"
    "fst (delete_rows rs db) = card (dom (table db) \<inter> set rs)"
    "schema (snd (delete_rows rs db)) = schema db" by simp_all
qed

lemma reads_stats [simp]:
  "index_path (db\<lparr>stats := y\<rparr>) = index_path db" "scan_matching (db\<lparr>stats := y\<rparr>) = scan_matching db"
  "collect_matching (db\<lparr>stats := y\<rparr>) = collect_matching db"
proof -
  have c: "read_row_cell (db\<lparr>stats := y\<rparr>) = read_row_cell db"
    by (simp add: fun_eq_iff read_row_cell_def split: option.split)
  show i: "index_path (db\<lparr>stats := y\<rparr>) = index_path db"
    by (intro ext) (simp add: index_path_def index_of_def cong: option.case_cong val.case_cong if_cong)
  show s: "scan_matching (db\<lparr>stats := y\<rparr>) = scan_matching db"
    by (simp add: fun_eq_iff scan_matching_def c)
  show "collect_matching (db\<lparr>stats := y\<rparr>) = collect_matching db"
    by (simp add: fun_eq_iff collect_matching_def i s cong: if_cong split: option.split)
qed

text \<open>The rows of the table that satisfy a predicate.\<close>

definition matching :: "db \<Rightarrow> nat \<Rightarrow> cmp_op \<Rightarrow> val \<Rightarrow> u64 set" where
  "matching db col op t = {r. \<exists>row. table db r = Some row \<and> cmp_apply op (row ! col) t}"

text \<open>Without an index on the path, deleting removes exactly the matching rows and counts them.\<close>

lemma delete_where_ok:
  assumes ok: "db_ok db" and col: "col < length (schema db)" and path: "index_path db col op t = None"
  obtains db' where "delete_where col op t db = (Ok (card (matching db col op t)), db')" "db_ok db'"
    "table db' = (table db) |` (- matching db col op t)" "schema db' = schema db"
proof -
  let ?db = "db\<lparr>stats := (stats db)\<lparr>st_deletes := st_deletes (stats db) + 1\<rparr>\<rparr>"
  let ?rs = "scan_matching db col op t"
  have ok': "db_ok ?db" using ok by simp
  have m: "set ?rs = matching db col op t" using scan_matching_table [OF ok col] by (simp add: matching_def)
  have "nth_opt (schema db) col = Some (schema db ! col)" using col by simp
  then have c: "collect_matching db col op t = Ok ?rs" using path by (simp add: collect_matching_def del: nth_opt_Some)
  obtain n db' where d: "delete_rows ?rs ?db = (n, db')" by (cases "delete_rows ?rs ?db")
  note facts = delete_rows_ok [OF ok', of ?rs, unfolded d, simplified]
  have "dom (table db) \<inter> matching db col op t = matching db col op t" by (auto simp: matching_def)
  then have "delete_where col op t db = (Ok (card (matching db col op t)), db')"
    using c d facts(3) by (simp add: delete_where_def sbind_def m)
  then show thesis using that facts by (simp add: m)
qed

section \<open>Update\<close>

lemma body_for_rewrite:
  assumes b: "body_for s n b" and col: "col < length s" and st: "storable_in (s ! col) v" and slot: "slot < n"
  shows "body_for s n (b\<lparr>regions := (regions b)[col := rewrite_region (regions b ! col) slot v]\<rparr>)"
    and "body_row (b\<lparr>regions := (regions b)[col := rewrite_region (regions b ! col) slot v]\<rparr>) i =
      (if i = slot then (body_row b i)[col := stored_in (s ! col) v] else body_row b i)"
proof -
  let ?r = "regions b ! col" and ?r' = "rewrite_region (regions b ! col) slot v"
  have l: "length (regions b) = length s" by (rule body_for_length [OF b])
  have r: "region_for n (s ! col) ?r" "storable ?r v" "stored ?r v = stored_in (s ! col) v"
    using body_for_region [OF b col] region_for_column st by blast+
  then have rok: "region_ok ?r" "length (cells ?r) = n" by (simp_all add: region_for_def)
  have "region_for n (s ! col) ?r'"
    using region.rewrite_ok [OF rok(1) r(2), of slot] r(1) by (simp add: region_for_def)
  then show "body_for s n (b\<lparr>regions := (regions b)[col := ?r']\<rparr>)"
    using b l col unfolding body_for_def list_all2_conv_all_nth by (simp add: nth_list_update)
  have "read_cell ?r' i = (if i = slot then stored_in (s ! col) v else read_cell ?r i)"
    using region.read_rewrite [OF rok(1) r(2), of slot i] rok(2) r(3) slot by simp
  then show "body_row (b\<lparr>regions := (regions b)[col := ?r']\<rparr>) i =
      (if i = slot then (body_row b i)[col := stored_in (s ! col) v] else body_row b i)"
    by (simp add: body_row_def map_update) (metis list_update_id nth_map l col map_update)
qed

lemma rewrite_region_length:
  assumes "region_ok r" and "storable r v" and "length (cells r) = n" and "12 * (n + 1) < 2 ^ 32"
    and "length (rg_data r) + 12 < 2 ^ 32"
  shows "length (rg_data (rewrite_region r slot v)) + 12 < 2 ^ 32"
proof (cases "rg_encoding r = Rle")
  case True
  let ?vs = "(cells r)[slot := v]"
  have "vals_of_kind (rg_kind r) (cells r)" using region_ok_Rle [OF assms(1) True] .
  then have "\<forall>w \<in> set ?vs. kind w = col_kind_name (rg_kind r)"
    using assms(2) True set_update_subset_insert [of "cells r" slot v]
    by (auto simp: vals_of_kind_def storable_def)
  then have "\<forall>x \<in> set (unit_runs ?vs). kind (r_value x) = col_kind_name (rg_kind r)"
    by (auto simp: unit_runs_def run_new_def)
  from encode_coalesce_length [OF this]
  have "length (encode_runs (coalesce (unit_runs ?vs))) \<le> (plain_width (rg_kind r) + 4) * n"
    using assms(3) by (simp add: unit_runs_def)
  also have "\<dots> \<le> 12 * n"
    using plain_width_le(1) [of "rg_kind r"] by (intro mult_le_mono1) simp
  finally have "length (encode_runs (coalesce (unit_runs ?vs))) \<le> 12 * n" .
  moreover have "rewrite_region r slot v = r\<lparr>rg_data := encode_runs (coalesce (unit_runs ?vs))\<rparr>"
    by (simp add: rewrite_region_def True cells_def Let_def list_update_beyond)
  ultimately show ?thesis using assms(4) by simp
next
  case False
  then show ?thesis using assms(5)
    by (cases "rg_encoding r") (auto simp: rewrite_region_def Let_def)
qed

text \<open>No two rows share a place.\<close>

lemma rows_ok_inj:
  assumes ok: "rows_ok db" and x: "rid_get (rowids db) x = Some (p, i)" and y: "rid_get (rowids db) y = Some (p, i)"
  shows "x = y"
proof -
  obtain pg where "pager_get (pager db) p = Some pg" "slot_row (slots_of pg ! i) = x"
    using ok x by (rule rows_okD)
  moreover obtain pg' where "pager_get (pager db) p = Some pg'" "slot_row (slots_of pg' ! i) = y"
    using ok y by (rule rows_okD)
  ultimately show ?thesis by simp
qed

lemma pager_rebuf_fields [simp]:
  "free_ids (pager_rebuf p f q) = free_ids q" "length (pages (pager_rebuf p f q)) = length (pages q)"
  "free_ids (pager (db_rebuf p f db)) = free_ids (pager db)"
  "length (pages (pager (db_rebuf p f db))) = length (pages (pager db))"
  by (simp_all add: db_rebuf_def pager_rebuf_def pager_modify_def split: option.split)

text \<open>Rewriting one cell changes that value of that row and nothing else.\<close>

lemma update_row_ok:
  assumes ok: "db_ok db" and room: "db_room db" and col: "col < length (schema db)"
    and st: "storable_in (schema db ! col) v"
  obtains db' where "update_row col v r db = (Ok (), db')" "db_ok db'" "db_room db'" "schema db' = schema db"
    "table db' = (case table db r of None \<Rightarrow> table db
       | Some row \<Rightarrow> (table db)(r \<mapsto> row[col := stored_in (schema db ! col) v]))"
proof (cases "rid_get (rowids db) r")
  case None
  then have "table db r = None" by (simp add: table_def)
  then show thesis using that [of db] None ok room by (simp add: update_row_def)
next
  case (Some at)
  obtain p i where "at = (p, i)" by (cases at)
  with Some have g: "rid_get (rowids db) r = Some (p, i)" by simp
  let ?s = "schema db"
  obtain pg b where pg: "pager_get (pager db) p = Some pg" "pg_kind pg = PkData" "data_page_ok ?s pg"
    "i < slot_count pg" "decode_body (pg_buf pg) = Ok b" "body_for ?s (slot_count pg) b"
    "table db r = Some (body_row b i)" "pg_slots pg = Some (slots_of pg)"
    using ok g by (rule table_at)
  let ?b' = "b\<lparr>regions := (regions b)[col := rewrite_region (regions b ! col) i v]\<rparr>"
  let ?pg' = "set_buf (encode_body ?b') (next_alloc (pager db)) pg"
  let ?db' = "db_rebuf p (set_buf (encode_body ?b')) db"
  note b' = body_for_rewrite [OF pg(6) col st pg(4)]
  have l: "length (regions b) = length ?s" by (rule body_for_length [OF pg(6)])
  have br: "body_room (slot_count pg) b" using room pg by (force simp: db_room_def page_room_def)
  have "length (rg_data (rewrite_region (regions b ! col) i v)) + 12 < 2 ^ 32"
    using body_for_region [OF pg(6) col] region_for_column [of _ _ _ v] st br col l
    by (intro rewrite_region_length [where n = "slot_count pg"])
      (auto simp: region_for_def body_room_def)
  then have br': "body_room (slot_count pg) ?b'"
    using br set_update_subset_insert [of "regions b" col "rewrite_region (regions b ! col) i v"]
    by (auto simp: body_room_def)
  then have dec: "decode_body (encode_body ?b') = Ok ?b'"
    using decode_body_encode [of ?b' "[]"] by (force simp: body_fits_def region_fits_def body_room_def)
  have u: "update_row col v r db = (Ok (), ?db')"
    using g pg l col by (simp add: update_row_def rewrite_cell_def sbind_def)
  have fields: "slot_count ?pg' = slot_count pg" "slots_of ?pg' = slots_of pg" "pg_kind ?pg' = pg_kind pg"
    "pg_buf ?pg' = encode_body ?b'" "pg_slots ?pg' = pg_slots pg"
    by (simp_all add: set_buf_def slot_count_def slots_of_def)
  have get: "pager_get (pager ?db') q = (if q = p then Some ?pg' else pager_get (pager db) q)" for q
    using pg(1) by (auto simp: db_rebuf_def pager_get_rebuf)
  have dok: "data_page_ok ?s ?pg'"
    using pg(3) pg(5) b'(1) dec by (auto simp: data_page_ok_def fields)
  have po: "pages_ok ?db'" unfolding pages_ok_def
  proof (intro conjI allI impI)
    show "pager_ok (pager ?db')" using ok
      by (auto simp: db_rebuf_def db_ok_def pages_ok_def set_buf_def intro!: pager_ok_rebuf)
    show "data_page_ok (schema ?db') x" if "pager_get (pager ?db') q = Some x" "pg_kind x = PkData" for q x
      using that get [of q] pages_okD [OF db_ok_parts(2) [OF ok]] dok
      by (cases "q = p") (auto simp: db_rebuf_def)
  qed
  have "live_slot (pager ?db') x (q, j) = live_slot (pager db) x (q, j)" for x q j
    using get [of q] pg(1) fields by (cases "q = p") (auto simp: live_slot_def)
  then have ro: "rows_ok ?db'" using ok by (simp add: db_ok_def rows_ok_def) (simp add: db_rebuf_def)
  have "space_ok ?db'" using ok pg get fields by (auto simp: db_ok_def space_ok_def) (auto simp: db_rebuf_def)
  moreover have "dicts_ok ?db'"
  proof (rule dicts_ok_frame [of db])
    show "pager_get (pager ?db') (dct_page e) = pager_get (pager db) (dct_page e)"
      if "get_some (dicts db) ci = Some e" for ci e
      using get [of "dct_page e"] dict_page_not_data [OF db_ok_parts(5) [OF ok] that, of p pg] pg by simp
  qed (use ok in \<open>simp_all add: db_ok_def db_rebuf_def\<close>)
  moreover have "shape_ok ?db'" using ok by (simp add: db_ok_def shape_ok_def db_rebuf_def)
  ultimately have "db_ok ?db'" using po ro by (simp add: db_ok_def)


  moreover have "db_room ?db'"
  proof -
    have "page_room ?pg'" using br' by (simp add: page_room_def fields dec)
    then have "page_room x" if "pager_get (pager ?db') q = Some x" "pg_kind x = PkData" for q x
      using that get [of q] room by (cases "q = p") (auto simp: db_room_def)
    then show ?thesis using room
      by (simp add: db_room_def zones_room_def) (simp add: db_rebuf_def)
  qed
  moreover have "table ?db' = (table db)(r \<mapsto> (body_row b i)[col := stored_in (?s ! col) v])"
  proof
    fix x
    have rids: "rid_get (rowids ?db') = rid_get (rowids db)" by (simp add: db_rebuf_def)
    have row: "page_row ?pg' j = Some (if j = i then (body_row b j)[col := stored_in (?s ! col) v] else body_row b j)" for j
      using b'(2) by (simp add: page_row_def fields dec)
    show "table ?db' x = ((table db)(r \<mapsto> (body_row b i)[col := stored_in (?s ! col) v])) x"
    proof (cases "rid_get (rowids db) x")
      case (Some y)
      obtain q j where y: "rid_get (rowids db) x = Some (q, j)" using Some by (cases y) simp
      have "x = r" if "q = p" "j = i"
        using rows_ok_inj [OF db_ok_parts(3) [OF ok] y] g that by simp
      moreover have "q = p \<and> j = i" if "x = r" using that y g by simp
      ultimately show ?thesis using y get [of q] row [of j] pg(1,5)
        by (cases "q = p") (auto simp: table_def rids page_row_def)
    next
      case None
      then show ?thesis using g by (auto simp: table_def rids)
    qed
  qed
  ultimately show thesis using that u pg(7) by (simp add: db_rebuf_def)
qed

text \<open>The loop over the matching rows.\<close>

lemma update_rows_ok:
  assumes "db_ok db" and "db_room db" and "col < length (schema db)" and "storable_in (schema db ! col) v"
  obtains db' where "for_each (update_row col v) rs db = (Ok (), db')" "db_ok db'" "schema db' = schema db"
    "\<And>r. table db' r = (if r \<in> set rs then map_option (\<lambda>row. row[col := stored_in (schema db ! col) v]) (table db r)
       else table db r)"
  using assms
proof (induction rs arbitrary: db thesis)
  case (Cons r rs)
  obtain db1 where one: "update_row col v r db = (Ok (), db1)" "db_ok db1" "db_room db1" "schema db1 = schema db"
    "table db1 = (case table db r of None \<Rightarrow> table db
       | Some row \<Rightarrow> (table db)(r \<mapsto> row[col := stored_in (schema db ! col) v]))"
    using Cons.prems(2-5) by (rule update_row_ok)
  obtain db' where rest: "for_each (update_row col v) rs db1 = (Ok (), db')" "db_ok db'" "schema db' = schema db1"
    "\<And>x. table db' x = (if x \<in> set rs then map_option (\<lambda>row. row[col := stored_in (schema db1 ! col) v]) (table db1 x)
       else table db1 x)"
    by (rule Cons.IH [of db1]) (use one Cons.prems(4,5) in auto)
  have "for_each (update_row col v) (r # rs) db = (Ok (), db')"
    using one(1) rest(1) by (simp add: sbind_def)
  moreover have "schema db' = schema db" using rest(3) one(4) by simp
  moreover have "table db' x = (if x \<in> set (r # rs)
      then map_option (\<lambda>row. row[col := stored_in (schema db ! col) v]) (table db x) else table db x)" for x
    using rest(4) [of x] one(4,5) by (cases "table db r") (auto simp: option.map_comp comp_def)
  ultimately show ?case using Cons.prems(1) rest(2) by blast
qed auto

text \<open>Without an index on the path, updating rewrites the column in exactly the matching rows.\<close>

lemma update_where_ok:
  assumes ok: "db_ok db" and room: "db_room db" and set: "set_col < length (schema db)"
    and st: "storable_in (schema db ! set_col) v"
    and col: "col < length (schema db)" and path: "index_path db col op t = None"
  obtains n db' where "update_where set_col v col op t db = (Ok n, db')" "db_ok db'" "schema db' = schema db"
    "\<And>r. table db' r = (if r \<in> matching db col op t
       then map_option (\<lambda>row. row[set_col := stored_in (schema db ! set_col) v]) (table db r) else table db r)"
proof -
  let ?db = "db\<lparr>stats := (stats db)\<lparr>st_updates := st_updates (stats db) + 1\<rparr>\<rparr>"
  let ?rs = "scan_matching db col op t"
  have m: "set ?rs = matching db col op t" using scan_matching_table [OF ok col] by (simp add: matching_def)
  have "nth_opt (schema db) col = Some (schema db ! col)" using col by simp
  then have c: "collect_matching db col op t = Ok ?rs" using path by (simp add: collect_matching_def del: nth_opt_Some)
  obtain db' where u: "for_each (update_row set_col v) ?rs ?db = (Ok (), db')" "db_ok db'" "schema db' = schema ?db"
    "\<And>r. table db' r = (if r \<in> set ?rs then map_option (\<lambda>row. row[set_col := stored_in (schema ?db ! set_col) v]) (table ?db r)
       else table ?db r)"
    by (rule update_rows_ok [of ?db set_col v ?rs]) (use ok room set st in auto)
  have "update_where set_col v col op t db = (Ok (length ?rs), db')"
    using c u(1) by (simp add: update_where_def sbind_def)
  then show thesis using that u by (simp add: m)
qed

end
