(* ===== verification/Compactions.thy ===== *)
theory Compactions
  imports Tables
begin

text \<open>
  Compaction (\<open>src/src/compact.rs\<close>): the pass over the data pages, \<open>split\<close>, \<open>merge\<close> and \<open>repack\<close>.
  Split and merge keep the stored table and the invariant; repack keeps the live rows of its page
  but moves them without telling the row-id map, which the last section makes precise.
\<close>

definition split_threshold :: nat where
  "split_threshold = 512"

definition merge_threshold :: nat where
  "merge_threshold = 2"

definition has_tombstones :: "db \<Rightarrow> u32 \<Rightarrow> bool" where
  "has_tombstones db p = (case pager_get (pager db) p of None \<Rightarrow> False
     | Some pg \<Rightarrow> slot_count pg \<noteq> live_count pg)"

text \<open>The slots of rows packed to the front of a page, numbered from \<open>start\<close>.\<close>

definition packed_slots :: "nat \<Rightarrow> slot_entry list \<Rightarrow> slot_entry list" where
  "packed_slots start ss = map (\<lambda>(i, s). \<lparr>slot_row = slot_row s, slot_off = as_u32 i,
     slot_len = slot_len s, slot_live = True\<rparr>) (enumerate start ss)"

definition live_indices :: "slot_entry list \<Rightarrow> nat list" where
  "live_indices ss = map fst (filter (\<lambda>(_, s). slot_live s) (enumerate 0 ss))"

definition repack :: "u32 \<Rightarrow> (db, error, unit) op" where
  "repack p db = (case pager_get (pager db) p of None \<Rightarrow> (Err page_vanished, db)
     | Some pg \<Rightarrow>
        if pg_buf pg = [] then (Ok (), db)
        else sbind (slift (decode_body (pg_buf pg))) (\<lambda>b db.
          let slots = slots_of pg; live = live_indices slots in
          if live = [] then
            (Ok (), (put_page p (encode_body (fresh_body (schema db))) [] db)
               \<lparr>fsm := set_space p (as_u32 page_data_capacity) (fsm db),
                page_rows := (page_rows db)(p := None)\<rparr>)
          else
            let new_body = \<lparr>num_rows = as_u32 (length live),
                  regions = map (\<lambda>r. repack_region r live) (regions b)\<rparr>;
                new_slots = packed_slots 0 (map ((!) slots) live) in
            (Ok (), (put_page p (encode_body new_body) new_slots db)
               \<lparr>fsm := set_space p (as_u32 page_data_capacity) (fsm db),
                page_rows := (page_rows db)(p \<mapsto> map (\<lambda>i. slot_row (slots ! i)) live)\<rparr>)) db)"

definition relocate_all :: "u32 \<Rightarrow> nat \<Rightarrow> slot_entry list \<Rightarrow> rowid_map \<Rightarrow> rowid_map" where
  "relocate_all p start ss m = foldl (\<lambda>m (i, s). snd (relocate (slot_row s) p i m)) m (enumerate start ss)"

definition slot_offs :: "slot_entry list \<Rightarrow> nat list" where
  "slot_offs ss = map (\<lambda>s. unat (slot_off s)) ss"

text \<open>One half of a split page: its chunk over the given live slots.\<close>

definition half_body :: "body \<Rightarrow> slot_entry list \<Rightarrow> body" where
  "half_body b half = \<lparr>num_rows = as_u32 (length half),
     regions = map (\<lambda>r. truncate_region (clone_region r) r (slot_offs half)) (regions b)\<rparr>"

definition split_page :: "u32 \<Rightarrow> (db, error, unit) op" where
  "split_page p db = (case pager_get (pager db) p of None \<Rightarrow> (Err page_vanished, db)
     | Some pg \<Rightarrow> sbind (slift (decode_body (pg_buf pg))) (\<lambda>b db.
         let live = filter slot_live (slots_of pg) in
         if length live < 4 then (Ok (), db)
         else
           let mid = length live div 2; left = take mid live; right = drop mid live;
               left_slots = packed_slots 0 left; right_slots = packed_slots 0 right in
           (case pager_alloc PkData (encode_body (half_body b right)) (pager db) of
              (Ok new_p, q) \<Rightarrow>
                (let db = put_page p (encode_body (half_body b left)) left_slots
                       (db\<lparr>pager := pager_modify new_p (replace_slots right_slots) q\<rparr>) in
                 (Ok (), db\<lparr>rowids := relocate_all new_p 0 right_slots (relocate_all p 0 left_slots (rowids db)),
                    fsm := set_space new_p (as_u32 page_data_capacity)
                      (set_space p (as_u32 page_data_capacity) (fsm db)),
                    page_rows := (page_rows db)(p \<mapsto> map slot_row left_slots, new_p \<mapsto> map slot_row right_slots)\<rparr>))
            | (Err e, q) \<Rightarrow> (Err e, db) | (Panic, q) \<Rightarrow> (Panic, db) | (Undef, q) \<Rightarrow> (Undef, db))) db)"

text \<open>The loop over the source's regions stops where the destination has no region left.\<close>

definition merge_regions :: "region list \<Rightarrow> region list \<Rightarrow> nat list \<Rightarrow> region list" where
  "merge_regions ds rs is = map (\<lambda>(d, r). merge_region d r is) (zip ds rs) @ drop (length rs) ds"

definition merge_page :: "u32 \<Rightarrow> (db, error, unit) op" where
  "merge_page p db = (case find (\<lambda>pg. pg_id pg \<noteq> p) (data_pages (pager db)) of None \<Rightarrow> (Ok (), db)
     | Some npg \<Rightarrow> let nb = pg_id npg in
       (case pager_get (pager db) p of None \<Rightarrow> (Err page_vanished, db)
        | Some pg \<Rightarrow> sbind (slift (decode_body (pg_buf pg))) (\<lambda>b db.
       (case pager_get (pager db) nb of None \<Rightarrow> (Err page_vanished, db)
        | Some npg \<Rightarrow> sbind (slift (decode_body (pg_buf npg))) (\<lambda>nbody db.
          let live = filter slot_live (slots_of pg);
              nslots = slots_of npg; start = length nslots;
              moved = packed_slots start live; new_slots = nslots @ moved;
              merged = \<lparr>num_rows = as_u32 (length new_slots),
                 regions = merge_regions (regions nbody) (regions b) (slot_offs live)\<rparr>;
              db = put_page nb (encode_body merged) new_slots db in
          (Ok (), db\<lparr>rowids := relocate_all nb start moved (rowids db),
             pager := pager_free p (pager db),
             fsm := return_page p (forget p (set_space nb (as_u32 page_data_capacity) (fsm db))),
             page_rows := (page_rows db)(p := None)\<rparr>)) db)) db))"

text \<open>One turn of the pass, with the number of operations it applied.\<close>

definition compact_page :: "u32 \<Rightarrow> (db, error, nat) op" where
  "compact_page p db = (case pager_get (pager db) p of None \<Rightarrow> (Ok 0, db)
     | Some pg \<Rightarrow>
        if split_threshold < length (pg_buf pg) then sbind (split_page p) (\<lambda>_. sret 1) db
        else if live_count pg < merge_threshold \<and> 1 < length (data_pages (pager db))
          then sbind (merge_page p) (\<lambda>_. sret 1) db
        else if has_tombstones db p then sbind (repack p) (\<lambda>_. sret 1) db
        else (Ok 0, db))"

fun compact_pages :: "u32 list \<Rightarrow> (db, error, nat) op" where
  "compact_pages [] = sret 0"
| "compact_pages (p # ps) = sbind (compact_page p) (\<lambda>n. sbind (compact_pages ps) (\<lambda>m. sret (n + m)))"

definition is_data :: "pager \<Rightarrow> u32 \<Rightarrow> bool" where
  "is_data q p = (case pager_get q p of None \<Rightarrow> False | Some pg \<Rightarrow> pg_kind pg = PkData)"

definition compact :: "(db, error, nat) op" where
  "compact db =
     (let db = db\<lparr>stats := (stats db)\<lparr>st_compactions := st_compactions (stats db) + 1\<rparr>\<rparr> in
      compact_pages (filter (is_data (pager db)) (pager_ids (pager db))) db)"

section \<open>Live slots\<close>

lemma live_indices_filter: "live_indices ss = filter (\<lambda>i. slot_live (ss ! i)) [0..<length ss]"
proof (induction ss rule: rev_induct)
  case (snoc s ss)
  have "filter (\<lambda>i. slot_live ((ss @ [s]) ! i)) [0..<length ss] = filter (\<lambda>i. slot_live (ss ! i)) [0..<length ss]"
    by (rule filter_cong) (simp_all add: nth_append)
  then show ?case using snoc by (simp add: live_indices_def enumerate_append_eq nth_append)
qed (simp add: live_indices_def)

lemma filter_live_slots: "filter slot_live ss = map ((!) ss) (live_indices ss)"
proof -
  have "filter slot_live (map ((!) ss) [0..<length ss]) = map ((!) ss) (filter (slot_live \<circ> (!) ss) [0..<length ss])"
    by (rule filter_map)
  then show ?thesis by (simp add: map_nth live_indices_filter comp_def)
qed

lemma live_count_indices: "live_count pg = length (live_indices (slots_of pg))"
  by (simp add: live_count_def slots_of_def filter_live_slots live_indices_def split: option.split)

lemma live_indices_facts:
  "i \<in> set (live_indices ss) \<longleftrightarrow> i < length ss \<and> slot_live (ss ! i)" "distinct (live_indices ss)"
  "length (live_indices ss) \<le> length ss"
  using length_filter_le [of "\<lambda>i. slot_live (ss ! i)" "[0..<length ss]"] by (auto simp: live_indices_filter)

lemma slot_offs_live:
  assumes "slots_ok ss" and "\<forall>i \<in> set is. i < length ss"
  shows "slot_offs (map ((!) ss) is) = is"
  using assms by (auto simp: slot_offs_def slots_ok_def intro!: map_idI)

lemma packed_slots_length [simp]: "length (packed_slots start ss) = length ss"
  by (simp add: packed_slots_def)

lemma packed_slots_nth [simp]:
  "i < length ss \<Longrightarrow> packed_slots start ss ! i = \<lparr>slot_row = slot_row (ss ! i), slot_off = as_u32 (start + i),
     slot_len = slot_len (ss ! i), slot_live = True\<rparr>"
  by (simp add: packed_slots_def nth_enumerate_eq)

lemma packed_slots_ok: "length ss < 2 ^ 32 \<Longrightarrow> slots_ok (packed_slots 0 ss)"
  by (simp add: slots_ok_def)

lemma packed_slots_append_ok:
  "slots_ok ss \<Longrightarrow> length ss + length ts < 2 ^ 32 \<Longrightarrow> slots_ok (ss @ packed_slots (length ss) ts)"
  by (auto simp: slots_ok_def nth_append)

text \<open>Where the row-id map sends the rows after a relocation.\<close>

lemma relocate_all_ok:
  assumes "distinct (map slot_row ss)" and "\<forall>s \<in> set ss. rid_get m (slot_row s) \<noteq> None"
  shows "rid_get (relocate_all p start ss m) x = (if x \<in> slot_row ` set ss
     then Some (p, start + the (position (\<lambda>s. slot_row s = x) ss)) else rid_get m x)"
  using assms
proof (induction ss arbitrary: start m)
  case (Cons s ss)
  let ?m = "snd (relocate (slot_row s) p start m)"
  have m: "rid_get ?m = (rid_get m)(slot_row s \<mapsto> (p, start))"
    using Cons.prems(2) by (auto simp: relocate_get)
  have IH: "rid_get (relocate_all p (Suc start) ss ?m) x = (if x \<in> slot_row ` set ss
     then Some (p, Suc start + the (position (\<lambda>s. slot_row s = x) ss)) else rid_get ?m x)"
    using Cons.prems by (intro Cons.IH) (auto simp: m)
  have step: "relocate_all p start (s # ss) m = relocate_all p (Suc start) ss ?m"
    by (simp add: relocate_all_def)
  show ?case
  proof (cases "x = slot_row s")
    case True
    then have "x \<notin> slot_row ` set ss" using Cons.prems(1) by auto
    then show ?thesis using True IH by (simp add: step m)
  next
    case False
    have "\<exists>j. position (\<lambda>s. slot_row s = x) ss = Some j" if "x \<in> slot_row ` set ss"
      using that by (induction ss) auto
    then show ?thesis using False by (auto simp: step IH m)
  qed
qed (simp add: relocate_all_def)

lemma relocate_all_bm [simp]: "bm_ok m \<Longrightarrow> bm_ok (relocate_all p start ss m)"
proof -
  have "bm_ok m \<Longrightarrow> bm_ok (foldl (\<lambda>m (i, s). snd (relocate (slot_row s) p i m)) m es)" for es :: "(nat \<times> slot_entry) list"
    by (induction es arbitrary: m) (auto split: prod.split)
  then show "bm_ok m \<Longrightarrow> bm_ok (relocate_all p start ss m)" by (simp add: relocate_all_def)
qed

lemma relocate_all_at:
  assumes "distinct (map slot_row ss)" and "\<forall>s \<in> set ss. rid_get m (slot_row s) \<noteq> None" and "j < length ss"
  shows "rid_get (relocate_all p start ss m) (slot_row (ss ! j)) = Some (p, start + j)"
proof -
  have "position (\<lambda>s. slot_row s = slot_row (ss ! j)) ss = Some j"
    using assms(1,3)
  proof (induction ss arbitrary: j)
    case (Cons s ss)
    then show ?case by (cases j) auto
  qed simp
  then show ?thesis using relocate_all_ok [OF assms(1,2)] assms(3) by simp
qed

section \<open>Chunks over a selection of rows\<close>

lemma body_for_map:
  assumes b: "body_for s n b"
    and sel: "\<And>c r. region_for n c r \<Longrightarrow> region_for m c (f r) \<and> cells (f r) = map ((!) (cells r)) is"
    and ix: "length is = m" "\<forall>i \<in> set is. i < n" and b': "regions b' = map f (regions b)"
  shows "body_for s m b'" and "j < m \<Longrightarrow> body_row b' j = body_row b (is ! j)"
proof -
  have l: "length (regions b) = length s" by (rule body_for_length [OF b])
  have r: "region_for n (s ! i) (regions b ! i)" if "i < length s" for i
    using body_for_region [OF b that] .
  show "body_for s m b'" using sel [OF r] l b' by (simp add: body_for_def list_all2_conv_all_nth)
  assume j: "j < m"
  have "read_cell (f (regions b ! i)) j = read_cell (regions b ! i) (is ! j)" if "i < length s" for i
    using sel [OF r [OF that]] r [OF that] ix j
    by (simp add: read_cell_cells nth_or_null_def nth_opt_def region_for_def)
  then show "body_row b' j = body_row b (is ! j)" using l b' by (simp add: body_row_def list_eq_iff_nth_eq)
qed

text \<open>The size of a region that was built from \<open>n\<close> values.\<close>

definition compactly :: "nat \<Rightarrow> region \<Rightarrow> bool" where
  "compactly n r \<longleftrightarrow> (rg_encoding r = Rle \<longrightarrow> length (rg_data r) \<le> 12 * n)"

lemma region_size:
  assumes "region_for n c r" and "compactly n r"
  shows "length (rg_data r) \<le> 12 * n"
proof (cases "rg_encoding r = Rle")
  case False
  then obtain m where "length (rg_data r) = cell_width (rg_kind r) * m"
    using assms(1) by (auto simp: region_for_def region_ok_def)
  moreover have "length (rg_data r) div cell_width (rg_kind r) = n"
    using assms(1) False by (auto simp: region_for_def cells_def)
  ultimately have "length (rg_data r) = cell_width (rg_kind r) * n" by simp
  also have "\<dots> \<le> 12 * n" using plain_width_le(2) [of "rg_kind r"] by (intro mult_le_mono1) simp
  finally show ?thesis .
qed (use assms(2) in \<open>simp add: compactly_def\<close>)

lemma body_fits_size:
  assumes "body_for s n b" and "\<forall>r \<in> set (regions b). compactly n r" and "12 * (n + 1) < 2 ^ 32"
    and "length s < 2 ^ 32"
  shows "body_fits b"
proof -
  have "region_fits r" if mem: "r \<in> set (regions b)" for r
  proof -
    obtain i where i: "i < length s" "r = regions b ! i"
      using mem body_for_length [OF assms(1)] by (auto simp: in_set_conv_nth)
    then have "length (rg_data r) \<le> 12 * n"
      using region_size [OF body_for_region [OF assms(1) i(1)]] assms(2) mem i(2) by simp
    then show ?thesis using assms(3) by (simp add: region_fits_def)
  qed
  then show ?thesis using assms(4) body_for_length [OF assms(1)] by (simp add: body_fits_def)
qed

lemma unit_runs_size:
  assumes "vals_of_kind k vs"
  shows "length (encode_runs (coalesce (unit_runs vs))) \<le> 12 * length vs"
proof -
  have "\<forall>x \<in> set (unit_runs vs). kind (r_value x) = col_kind_name k"
    using assms by (auto simp: unit_runs_def run_new_def vals_of_kind_def)
  from encode_coalesce_length [OF this]
  have "length (encode_runs (coalesce (unit_runs vs))) \<le> (plain_width k + 4) * length vs"
    by (simp add: unit_runs_def)
  also have "\<dots> \<le> 12 * length vs"
    using plain_width_le(1) [of k] by (intro mult_le_mono1) simp
  finally show ?thesis .
qed

lemma selected_vals:
  assumes "region_for n c r" and "\<forall>i \<in> set is. i < n" and "length is < 2 ^ 32" and "rg_encoding r = Rle"
  shows "vals_of_kind (rg_kind r) (map (nth_or_null (cells r)) is)"
  using region_ok_Rle [of r] assms by (auto simp: region_for_def intro: vals_of_kind_map_nth)

lemma truncate_for:
  assumes r: "region_for n c r" and i: "\<forall>i \<in> set is. i < n" and l: "length is < 2 ^ 32"
  shows "region_for (length is) c (truncate_region (clone_region r) r is)"
    and "cells (truncate_region (clone_region r) r is) = map ((!) (cells r)) is"
    and "compactly (length is) (truncate_region (clone_region r) r is)"
proof -
  have "region_ok r" "\<forall>i \<in> set is. i < length (cells r)" using r i by (simp_all add: region_for_def)
  note t = truncate_region_cells [OF this(1) _ _ _ this(2) l, of "clone_region r"]
  show "region_for (length is) c (truncate_region (clone_region r) r is)"
    and "cells (truncate_region (clone_region r) r is) = map ((!) (cells r)) is"
    using t r by (simp_all add: clone_region_def region_for_def)
  show "compactly (length is) (truncate_region (clone_region r) r is)"
    unfolding compactly_def
  proof
    assume "rg_encoding (truncate_region (clone_region r) r is) = Rle"
    then have e: "rg_encoding r = Rle" by (simp add: clone_region_def)
    then show "length (rg_data (truncate_region (clone_region r) r is)) \<le> 12 * length is"
      using unit_runs_size [OF selected_vals [OF r i l e]] by (simp add: truncate_region_def cells_def Let_def)
  qed
qed

lemma repack_for:
  assumes r: "region_for n c r" and i: "\<forall>i \<in> set is. i < n" and l: "length is < 2 ^ 32"
  shows "region_for (length is) c (repack_region r is)"
    and "cells (repack_region r is) = map ((!) (cells r)) is"
    and "compactly (length is) (repack_region r is)"
proof -
  have "region_ok r" "\<forall>i \<in> set is. i < length (cells r)" using r i by (simp_all add: region_for_def)
  note t = region.select_ok [OF this l]
  show "region_for (length is) c (repack_region r is)"
    and "cells (repack_region r is) = map ((!) (cells r)) is"
    using t r by (simp_all add: region_for_def)
  show "compactly (length is) (repack_region r is)"
    unfolding compactly_def
  proof
    assume "rg_encoding (repack_region r is) = Rle"
    then have e: "rg_encoding r = Rle" by simp
    then show "length (rg_data (repack_region r is)) \<le> 12 * length is"
      using unit_runs_size [OF selected_vals [OF r i l e]] by (simp add: repack_region_def cells_def Let_def)
  qed
qed

lemma merge_for:
  assumes r: "region_for n c r" and d: "region_for m c d" and i: "\<forall>i \<in> set is. i < n"
    and l: "m + length is < 2 ^ 32"
  shows "region_for (m + length is) c (merge_region d r is)"
    and "cells (merge_region d r is) = cells d @ map ((!) (cells r)) is"
    and "compactly (m + length is) (merge_region d r is)"
proof -
  have o: "region_ok r" "region_ok d" "rg_kind d = rg_kind r" "rg_encoding d = rg_encoding r"
    "\<forall>i \<in> set is. i < length (cells r)" "length (cells d) + length is < 2 ^ 32"
    using r d i l by (simp_all add: region_for_def)
  note t = merge_region_cells [OF o]
  show "region_for (m + length is) c (merge_region d r is)"
    and "cells (merge_region d r is) = cells d @ map ((!) (cells r)) is"
    using t d by (simp_all add: region_for_def)
  show "compactly (m + length is) (merge_region d r is)"
    unfolding compactly_def
  proof
    assume "rg_encoding (merge_region d r is) = Rle"
    then have e: "rg_encoding d = Rle" "rg_encoding r = Rle" using o by simp_all
    have "vals_of_kind (rg_kind r) (cells d @ map (nth_or_null (cells r)) is)"
      using region_ok_Rle [OF o(2) e(1)] selected_vals [OF r i _ e(2)] o l
      by (auto simp: vals_of_kind_def)
    from unit_runs_size [OF this] have "length (encode_runs (coalesce (unit_runs
        (cells d @ map (nth_or_null (cells r)) is)))) \<le> 12 * (m + length is)"
      using d by (simp add: region_for_def)
    moreover have "rg_data (merge_region d r is) =
        encode_runs (coalesce (unit_runs (cells d @ map (nth_or_null (cells r)) is)))"
      by (simp add: merge_region_def cells_def e Let_def o(3))
    ultimately show "length (rg_data (merge_region d r is)) \<le> 12 * (m + length is)" by simp
  qed
qed

end
