(* ===== verification/Compacted.thy ===== *)
theory Compacted
  imports Compactions
begin

text \<open>
  Split and merge move live rows between pages and send the row-id map after them: the stored table
  and the invariant of the database are kept. Repack compacts a page without telling the map.
\<close>

section \<open>Moving rows\<close>

definition row_at :: "db \<Rightarrow> u64 \<Rightarrow> u32 \<times> nat \<Rightarrow> val list option \<Rightarrow> bool" where
  "row_at db r at row \<longleftrightarrow> rid_get (rowids db) r = Some at \<and> live_slot (pager db) r at \<and>
     (\<exists>pg. pager_get (pager db) (fst at) = Some pg \<and> page_row pg (snd at) = row)"

lemma row_at_table: "row_at db r at row \<Longrightarrow> table db r = row"
  by (cases at) (auto simp: row_at_def table_def)

lemma map_live: "db_ok db \<Longrightarrow> rid_get (rowids db) r = Some at \<longleftrightarrow> live_slot (pager db) r at"
  unfolding db_ok_def rows_ok_def by blast

lemma row_at_exists:
  assumes "db_ok db" and "rid_get (rowids db) r = Some at"
  shows "\<exists>row. row_at db r at row"
proof -
  have "live_slot (pager db) r at" using assms map_live by blast
  then show ?thesis using assms(2) by (auto simp: row_at_def live_slot_def)
qed

text \<open>
  What a move has to provide: well-formed pages, untouched dictionary pages, every row of the map
  carried along with its values, and no live slot beyond those.
\<close>

lemma moved_ok:
  assumes ok: "db_ok db" and same: "schema db' = schema db" "dicts db' = dicts db" "shape_ok db'"
    and pok: "pager_ok (pager db')"
    and pages: "\<And>i x. pager_get (pager db') i = Some x \<Longrightarrow> pg_kind x = PkData \<Longrightarrow> data_page_ok (schema db) x"
    and dict: "\<And>i x. pager_get (pager db) i = Some x \<Longrightarrow> pg_kind x \<noteq> PkData \<Longrightarrow> pager_get (pager db') i = Some x"
    and fo: "fsm_ok (fsm db')" and sp: "\<And>i v. bm_get (space (fsm db')) i = Some v \<Longrightarrow>
      \<exists>x. pager_get (pager db') i = Some x \<and> pg_kind x = PkData"
    and bm: "bm_ok (rowids db')" and none: "\<And>r. rid_get (rowids db) r = None \<Longrightarrow> rid_get (rowids db') r = None"
    and carried: "\<And>r at row. row_at db r at row \<Longrightarrow> \<exists>at'. row_at db' r at' row"
    and only: "\<And>r at. live_slot (pager db') r at \<Longrightarrow> rid_get (rowids db') r = Some at"
  shows "db_ok db'" and "table db' = table db"
proof -
  have kept: "\<exists>row. row_at db' r at row" if g: "rid_get (rowids db') r = Some at" for r at
  proof -
    obtain at0 where "rid_get (rowids db) r = Some at0" using none [of r] g by (cases "rid_get (rowids db) r") auto
    then obtain row at' where "row_at db' r at' row" using row_at_exists [OF ok] carried by blast
    moreover from this have "at' = at" using g by (simp add: row_at_def)
    ultimately show ?thesis by blast
  qed
  have "live_slot (pager db') r at" if "rid_get (rowids db') r = Some at" for r at
    using kept [OF that] unfolding row_at_def by blast
  then have "rid_get (rowids db') r = Some at \<longleftrightarrow> live_slot (pager db') r at" for r at using only by blast
  then have "rows_ok db'" using bm by (simp add: rows_ok_def)
  moreover have "pages_ok db'" using pok pages same(1) by (simp add: pages_ok_def)
  moreover have "space_ok db'" using fo sp by (simp add: space_ok_def)
  moreover have "dicts_ok db'"
  proof (rule dicts_ok_frame [OF _ same(2,1)])
    show d: "dicts_ok db" using ok by auto
    fix ci d assume "get_some (dicts db) ci = Some d"
    then obtain pg where "pager_get (pager db) (dct_page d) = Some pg" "pg_kind pg = PkDict"
      using dicts_ok_page [OF d] by metis
    then show "pager_get (pager db') (dct_page d) = pager_get (pager db) (dct_page d)" using dict by simp
  qed
  ultimately show "db_ok db'" using same(3) by (simp add: db_ok_def)
  show "table db' = table db"
  proof
    fix r
    show "table db' r = table db r"
    proof (cases "rid_get (rowids db) r")
      case None
      then show ?thesis using none by (simp add: table_def)
    next
      case (Some at)
      then obtain row where "row_at db r at row" using row_at_exists [OF ok] by blast
      then show ?thesis using carried row_at_table by metis
    qed
  qed
qed

text \<open>The live rows of a page and where the map has them.\<close>

lemma page_rows_map:
  assumes ok: "db_ok db" and pg: "pager_get (pager db) p = Some pg" "pg_kind pg = PkData"
    and i: "i < slot_count pg" "slot_live (slots_of pg ! i)"
  shows "rid_get (rowids db) (slot_row (slots_of pg ! i)) = Some (p, i)"
proof -
  have "live_slot (pager db) (slot_row (slots_of pg ! i)) (p, i)" using pg i by (auto simp: live_slot_def)
  then show ?thesis using map_live [OF ok] by blast
qed

lemma live_rows_distinct:
  assumes ok: "db_ok db" and pg: "pager_get (pager db) p = Some pg" "pg_kind pg = PkData"
  shows "distinct (map slot_row (filter slot_live (slots_of pg)))"
proof -
  have at: "rid_get (rowids db) (slot_row (slots_of pg ! i)) = Some (p, i)" if "i \<in> set (live_indices (slots_of pg))" for i
    using page_rows_map [OF ok pg] that by (simp add: live_indices_facts(1) slots_of_Some)
  have "inj_on (\<lambda>i. slot_row (slots_of pg ! i)) (set (live_indices (slots_of pg)))"
  proof (rule inj_onI)
    fix i j assume m: "i \<in> set (live_indices (slots_of pg))" "j \<in> set (live_indices (slots_of pg))"
      and eq: "slot_row (slots_of pg ! i) = slot_row (slots_of pg ! j)"
    show "i = j" using at [OF m(1), unfolded eq] at [OF m(2)] by simp
  qed
  then have "distinct (map (\<lambda>i. slot_row (slots_of pg ! i)) (live_indices (slots_of pg)))"
    using live_indices_facts(2) by (simp only: distinct_map simp_thms)
  then show ?thesis by (simp only: filter_live_slots map_map comp_def)
qed

section \<open>Split\<close>

lemma half_body_ok:
  assumes b: "body_for s n b" and ss: "slots_ok ss" "length ss = n" and ix: "\<forall>i \<in> set ix. i < n" "length ix \<le> n"
    and room: "12 * (n + 1) < 2 ^ 32" "length s < 2 ^ 32" and h: "h = half_body b (map ((!) ss) ix)"
  shows "body_for s (length ix) h" and "j < length ix \<Longrightarrow> body_row h j = body_row b (ix ! j)"
    and "body_fits h" and "num_rows h = as_u32 (length ix)"
proof -
  have regs: "regions h = map (\<lambda>r. truncate_region (clone_region r) r ix) (regions b)"
    using slot_offs_live [OF ss(1)] ix(1) ss(2) by (simp add: h half_body_def)
  have ix32: "length ix < 2 ^ 32" "12 * (length ix + 1) < 2 ^ 32" using ix(2) room(1) by simp_all
  note t = truncate_for [OF _ ix(1) ix32(1)]
  show "num_rows h = as_u32 (length ix)" by (simp add: h half_body_def)
  show bf: "body_for s (length ix) h" and "j < length ix \<Longrightarrow> body_row h j = body_row b (ix ! j)"
    using body_for_map [OF b _ refl ix(1) regs] t(1,2) by blast+
  have "compactly (length ix) r" if r: "r \<in> set (regions h)" for r
  proof -
    obtain i where i: "i < length s" "r = truncate_region (clone_region (regions b ! i)) (regions b ! i) ix"
      using r body_for_length [OF b] by (auto simp: regs in_set_conv_nth)
    then show ?thesis using t(3) [OF body_for_region [OF b i(1)]] by simp
  qed
  then show "body_fits h" using body_fits_size [OF bf _ ix32(2) room(2)] by blast
qed

text \<open>A page filled with packed slots.\<close>

lemma packed_page_ok:
  assumes "body_for s (length ss) b" and "num_rows b = as_u32 (length ss)" and "body_fits b" and "slots_ok ss"
    and "pg_buf pg = encode_body b" and "slots_of pg = ss" and "pg_slots pg \<noteq> None"
  shows "data_page_ok s pg" and "page_row pg i = Some (body_row b i)"
  using decode_body_encode [OF assms(3), of "[]"] assms by (simp_all add: data_page_ok_def page_row_def slots_of_Some)

text \<open>The row-id map after the rows at two disjoint lists of slots moved.\<close>

lemma packed_rows [simp]: "map slot_row (packed_slots start ss) = map slot_row ss"
  by (simp add: list_eq_iff_nth_eq)

lemma packed_rows_set: "slot_row ` set (packed_slots start ss) = slot_row ` set ss"
  by (simp only: list.set_map [symmetric] packed_rows)

lemma relocate_packed:
  assumes d: "distinct (map slot_row ss)" and m: "\<forall>s \<in> set ss. rid_get m (slot_row s) \<noteq> None"
  shows "j < length ss \<Longrightarrow> rid_get (relocate_all p start (packed_slots k ss) m) (slot_row (ss ! j)) = Some (p, start + j)"
    and "x \<notin> slot_row ` set ss \<Longrightarrow> rid_get (relocate_all p start (packed_slots k ss) m) x = rid_get m x"
proof -
  have d': "distinct (map slot_row (packed_slots k ss))" using d by simp
  have m': "\<forall>s \<in> set (packed_slots k ss). rid_get m (slot_row s) \<noteq> None"
    using m packed_rows_set [of k ss] by (metis (no_types, lifting) image_iff)
  show "rid_get (relocate_all p start (packed_slots k ss) m) (slot_row (ss ! j)) = Some (p, start + j)"
    if "j < length ss" using relocate_all_at [OF d' m', of j p start] that by simp
  show "rid_get (relocate_all p start (packed_slots k ss) m) x = rid_get m x" if "x \<notin> slot_row ` set ss"
    using relocate_all_ok [OF d' m', of p start x] that packed_rows_set [of k ss] by simp
qed

text \<open>Rows packed at a place: the map and the page agree on them.\<close>

definition packed_at :: "db \<Rightarrow> page \<Rightarrow> nat list \<Rightarrow> u32 \<Rightarrow> nat \<Rightarrow> bool" where
  "packed_at db pg ix p start \<longleftrightarrow> (\<forall>j < length ix.
     row_at db (slot_row (slots_of pg ! (ix ! j))) (p, start + j) (page_row pg (ix ! j)))"

lemma packed_at_in:
  assumes "packed_at db pg ix p start" and "k \<in> set ix"
  shows "\<exists>at. row_at db (slot_row (slots_of pg ! k)) at (page_row pg k)"
proof -
  obtain j where "j < length ix" "ix ! j = k" using assms(2) by (auto simp: in_set_conv_nth)
  then show ?thesis using assms(1) unfolding packed_at_def by metis
qed

text \<open>
  The pages behind a split: the left half stays, the right half is in the new page, every other page
  is as it was.
\<close>

definition split_pager :: "schema \<Rightarrow> body \<Rightarrow> page \<Rightarrow> nat list \<Rightarrow> nat list \<Rightarrow> u32 \<Rightarrow> u32 \<Rightarrow> pager \<Rightarrow> pager \<Rightarrow> bool" where
  "split_pager s b pg lx rx p np q q' \<longleftrightarrow> pager_ok q' \<and> pager_get q np = None \<and> p \<noteq> np \<and>
     (\<forall>i. i \<noteq> p \<longrightarrow> i \<noteq> np \<longrightarrow> pager_get q' i = pager_get q i) \<and>
     (\<forall>(i, ix) \<in> {(p, lx), (np, rx)}. \<exists>y. pager_get q' i = Some y \<and> pg_kind y = PkData \<and> data_page_ok s y \<and>
        slots_of y = packed_slots 0 (map ((!) (slots_of pg)) ix) \<and>
        (\<forall>j < length ix. page_row y j = Some (body_row b (ix ! j))))"

lemma split_pager_ok:
  assumes ok: "pager_ok q" and pg: "pager_get q p = Some pg" "pg_kind pg = PkData"
    and b: "body_for s (slot_count pg) b" and ss: "slots_ok (slots_of pg)"
    and room: "12 * (slot_count pg + 1) < 2 ^ 32" "length s < 2 ^ 32"
    and lx: "\<forall>i \<in> set lx. i < slot_count pg" "length lx \<le> slot_count pg"
    and rx: "\<forall>i \<in> set rx. i < slot_count pg" "length rx \<le> slot_count pg"
    and al: "pager_alloc PkData (encode_body (half_body b (map ((!) (slots_of pg)) rx))) q = (Ok np, q1)"
  shows "split_pager s b pg lx rx p np q (pager_rebuf p
     (filled_page (half_body b (map ((!) (slots_of pg)) lx)) (packed_slots 0 (map ((!) (slots_of pg)) lx)))
     (pager_modify np (replace_slots (packed_slots 0 (map ((!) (slots_of pg)) rx))) q1))"
proof -
  let ?ls = "map ((!) (slots_of pg)) lx" and ?rs = "map ((!) (slots_of pg)) rx"
  let ?lb = "half_body b ?ls" and ?rb = "half_body b ?rs"
  let ?q2 = "pager_modify np (replace_slots (packed_slots 0 ?rs)) q1"
  let ?l = "filled_page ?lb (packed_slots 0 ?ls) (next_alloc ?q2) pg"
  let ?r = "replace_slots (packed_slots 0 ?rs) (page_new np PkData (encode_body ?rb) (next_alloc q))"
  note get = pager_alloc_get [OF ok al]
  have np: "p \<noteq> np" using get(1) pg(1) by auto
  have "pager_ok ?q2" by (rule pager_ok_modify [OF pager_ok_alloc [OF ok al]]) (simp_all add: replace_slots_def)
  then have po: "pager_ok (pager_rebuf p (filled_page ?lb (packed_slots 0 ?ls)) ?q2)" by (rule pager_ok_filled)
  have g: "pager_get (pager_rebuf p (filled_page ?lb (packed_slots 0 ?ls)) ?q2) i =
      (if i = p then Some ?l else if i = np then Some ?r else pager_get q i)" for i
    using get(2) pg np by (simp add: pager_get_rebuf pager_get_modify)
  have l: "length (slots_of pg) = slot_count pg" by (simp add: slots_of_Some)
  note L = half_body_ok [OF b ss l lx room refl] and R = half_body_ok [OF b ss l rx room refl]
  have small: "length ?ls < 2 ^ 32" "length ?rs < 2 ^ 32" using lx rx room by simp_all
  have rp: "slots_of ?r = packed_slots 0 ?rs" "pg_slots ?r \<noteq> None" "pg_buf ?r = encode_body ?rb" "pg_kind ?r = PkData"
    by (simp_all add: replace_slots_def slots_of_def page_new_def)
  have "data_page_ok s ?l \<and> (\<forall>j < length lx. page_row ?l j = Some (body_row b (lx ! j)))"
    using packed_page_ok [of s "packed_slots 0 ?ls" ?lb ?l] L packed_slots_ok [OF small(1)] by simp
  moreover have "data_page_ok s ?r \<and> (\<forall>j < length rx. page_row ?r j = Some (body_row b (rx ! j)))"
    using packed_page_ok [of s "packed_slots 0 ?rs" ?rb ?r] R packed_slots_ok [OF small(2)] rp by simp
  ultimately show ?thesis using g np get(1) po rp pg(2) unfolding split_pager_def by simp
qed

lemma packed_at_page:
  assumes "pager_get (pager db) i = Some y" and "pg_kind y = PkData"
    and "slots_of y = packed_slots 0 (map ((!) (slots_of pg)) ix)"
    and "\<And>j. j < length ix \<Longrightarrow> page_row y j = page_row pg (ix ! j)"
    and "\<And>j. j < length ix \<Longrightarrow> rid_get (rowids db) (slot_row (slots_of pg ! (ix ! j))) = Some (i, j)"
  shows "packed_at db pg ix i 0"
  using assms by (simp add: packed_at_def row_at_def live_slot_def slots_of_Some)

lemma live_slot_packed:
  assumes "live_slot q r (i, k)" and "pager_get q i = Some y"
    and "slots_of y = packed_slots 0 (map ((!) ss) ix)"
  shows "k < length ix \<and> r = slot_row (ss ! (ix ! k))"
  using assms by (auto simp: live_slot_def slots_of_Some)

text \<open>
  One page gives up its rows. Its rows are packed elsewhere, every other row stays where it was, and
  a live slot is either one of the packed ones or an old one of another page.
\<close>

definition rows_moved :: "db \<Rightarrow> db \<Rightarrow> u32 \<Rightarrow> page \<Rightarrow> bool" where
  "rows_moved db db' p pg \<longleftrightarrow>
     (\<forall>r. (\<forall>i. rid_get (rowids db) r \<noteq> Some (p, i)) \<longrightarrow> rid_get (rowids db') r = rid_get (rowids db) r) \<and>
     (\<forall>k \<in> set (live_indices (slots_of pg)). \<exists>at. row_at db' (slot_row (slots_of pg ! k)) at (page_row pg k)) \<and>
     (\<forall>r i k row. i \<noteq> p \<longrightarrow> row_at db r (i, k) row \<longrightarrow> rid_get (rowids db') r = Some (i, k) \<longrightarrow> row_at db' r (i, k) row) \<and>
     (\<forall>r i k. live_slot (pager db') r (i, k) \<longrightarrow>
        rid_get (rowids db') r = Some (i, k) \<or> i \<noteq> p \<and> live_slot (pager db) r (i, k))"

lemma rows_moved_map:
  assumes ok: "db_ok db" and pg: "pager_get (pager db) p = Some pg" and mv: "rows_moved db db' p pg"
  shows "rid_get (rowids db) r = None \<Longrightarrow> rid_get (rowids db') r = None"
    and "row_at db r at row \<Longrightarrow> \<exists>at'. row_at db' r at' row"
    and "live_slot (pager db') r at \<Longrightarrow> rid_get (rowids db') r = Some at"
proof -
  have other: "rid_get (rowids db') r = rid_get (rowids db) r" if "\<And>i. rid_get (rowids db) r \<noteq> Some (p, i)" for r
    using mv that unfolding rows_moved_def by blast
  show "rid_get (rowids db') r = None" if "rid_get (rowids db) r = None" using other [of r] that by simp
  obtain i k where ik: "at = (i, k)" by (cases at)
  show "\<exists>at'. row_at db' r at' row" if ra: "row_at db r at row"
  proof (cases "i = p")
    case True
    then have "k \<in> set (live_indices (slots_of pg))" "r = slot_row (slots_of pg ! k)" "row = page_row pg k"
      using ra pg by (auto simp: live_slot_def live_indices_facts slots_of_Some row_at_def ik)
    then show ?thesis using mv unfolding rows_moved_def by blast
  next
    case False
    then have "rid_get (rowids db') r = Some (i, k)" using other [of r] ra by (simp add: row_at_def ik)
    then show ?thesis using mv False ra ik unfolding rows_moved_def by blast
  qed
  show "rid_get (rowids db') r = Some at" if lv: "live_slot (pager db') r at"
  proof (cases "rid_get (rowids db') r = Some (i, k)")
    case False
    then have "i \<noteq> p" "live_slot (pager db) r (i, k)" using mv lv ik unfolding rows_moved_def by blast+
    then have "rid_get (rowids db) r = Some (i, k)" using map_live [OF ok] by blast
    then show ?thesis using other [of r] \<open>i \<noteq> p\<close> ik by simp
  qed (simp add: ik)
qed

lemma split_rids:
  assumes ok: "db_ok db" and pg: "pager_get (pager db) p = Some pg" "pg_kind pg = PkData"
    and ix: "live_indices (slots_of pg) = lx @ rx"
    and m: "m = relocate_all np 0 (packed_slots 0 (map ((!) (slots_of pg)) rx))
      (relocate_all p 0 (packed_slots 0 (map ((!) (slots_of pg)) lx)) (rowids db))"
  shows "j < length lx \<Longrightarrow> rid_get m (slot_row (slots_of pg ! (lx ! j))) = Some (p, j)"
    and "j < length rx \<Longrightarrow> rid_get m (slot_row (slots_of pg ! (rx ! j))) = Some (np, j)"
    and "(\<And>i. rid_get (rowids db) r \<noteq> Some (p, i)) \<Longrightarrow> rid_get m r = rid_get (rowids db) r"
proof -
  let ?ss = "slots_of pg" and ?ls = "map ((!) (slots_of pg)) lx" and ?rs = "map ((!) (slots_of pg)) rx"
  let ?m1 = "relocate_all p 0 (packed_slots 0 ?ls) (rowids db)"
  have "distinct (map slot_row (?ls @ ?rs))"
    using live_rows_distinct [OF ok pg] by (simp only: filter_live_slots ix map_append)
  then have d: "distinct (map slot_row ?ls)" "distinct (map slot_row ?rs)" "slot_row ` set ?ls \<inter> slot_row ` set ?rs = {}"
    by (simp_all only: map_append distinct_append list.set_map)
  have at: "rid_get (rowids db) (slot_row (?ss ! i)) = Some (p, i)" if "i \<in> set lx \<union> set rx" for i
  proof -
    have "i \<in> set (live_indices ?ss)" using that by (simp add: ix)
    then show ?thesis using page_rows_map [OF ok pg] by (simp add: live_indices_facts(1) slots_of_Some)
  qed
  have m0: "\<forall>s \<in> set ?ls. rid_get (rowids db) (slot_row s) \<noteq> None" using at by auto
  note one = relocate_packed [OF d(1) m0, where p = p and start = 0 and k = 0]
  have m1: "\<forall>s \<in> set ?rs. rid_get ?m1 (slot_row s) \<noteq> None"
  proof
    fix s assume s: "s \<in> set ?rs"
    then have "slot_row s \<notin> slot_row ` set ?ls" using d(3) by blast
    then show "rid_get ?m1 (slot_row s) \<noteq> None" using one(2) at s by auto
  qed
  note two = relocate_packed [OF d(2) m1, where p = np and start = 0 and k = 0, folded m]
  show "rid_get m (slot_row (?ss ! (rx ! j))) = Some (np, j)" if "j < length rx" using two(1) [of j] that by simp
  show "rid_get m (slot_row (?ss ! (lx ! j))) = Some (p, j)" if j: "j < length lx"
  proof -
    have "slot_row (?ss ! (lx ! j)) \<in> slot_row ` set ?ls" using j by simp
    then have "slot_row (?ss ! (lx ! j)) \<notin> slot_row ` set ?rs" using d(3) by blast
    then show ?thesis using two(2) one(1) [of j] j by simp
  qed
  show "rid_get m r = rid_get (rowids db) r" if r: "\<And>i. rid_get (rowids db) r \<noteq> Some (p, i)"
  proof -
    have "r \<notin> slot_row ` set ?ls" "r \<notin> slot_row ` set ?rs" using at r by fastforce+
    then show ?thesis using one(2) two(2) by simp
  qed
qed

lemma split_pagerE:
  assumes "split_pager s b pg lx rx p np q q'"
  obtains l y where "pager_get q' p = Some l" "pg_kind l = PkData" "data_page_ok s l"
    "slots_of l = packed_slots 0 (map ((!) (slots_of pg)) lx)" "\<forall>j < length lx. page_row l j = Some (body_row b (lx ! j))"
    "pager_get q' np = Some y" "pg_kind y = PkData" "data_page_ok s y"
    "slots_of y = packed_slots 0 (map ((!) (slots_of pg)) rx)" "\<forall>j < length rx. page_row y j = Some (body_row b (rx ! j))"
  using assms unfolding split_pager_def by auto

lemma split_moved:
  assumes ok: "db_ok db" and pg: "pager_get (pager db) p = Some pg" "pg_kind pg = PkData"
    and dec: "decode_body (pg_buf pg) = Ok b" and ix: "live_indices (slots_of pg) = lx @ rx"
    and sp: "split_pager (schema db) b pg lx rx p np (pager db) (pager db')"
    and m: "rowids db' = relocate_all np 0 (packed_slots 0 (map ((!) (slots_of pg)) rx))
      (relocate_all p 0 (packed_slots 0 (map ((!) (slots_of pg)) lx)) (rowids db))"
  shows "rows_moved db db' p pg"
proof -
  obtain l y where l: "pager_get (pager db') p = Some l" "pg_kind l = PkData"
      "slots_of l = packed_slots 0 (map ((!) (slots_of pg)) lx)" "\<forall>j < length lx. page_row l j = Some (body_row b (lx ! j))"
    and y: "pager_get (pager db') np = Some y" "pg_kind y = PkData"
      "slots_of y = packed_slots 0 (map ((!) (slots_of pg)) rx)" "\<forall>j < length rx. page_row y j = Some (body_row b (rx ! j))"
    using sp by (rule split_pagerE)
  have q: "pager_get (pager db) np = None" "p \<noteq> np"
    and rest: "\<And>i. i \<noteq> p \<Longrightarrow> i \<noteq> np \<Longrightarrow> pager_get (pager db') i = pager_get (pager db) i"
    using sp unfolding split_pager_def by auto
  note rids = split_rids [OF ok pg ix m]
  have rows: "page_row pg i = Some (body_row b i)" for i by (simp add: page_row_def dec)
  have packed: "packed_at db' pg lx p 0" "packed_at db' pg rx np 0"
    by (rule packed_at_page [OF l(1-3)], simp add: l(4) rows, erule rids(1),
        rule packed_at_page [OF y(1-3)], simp add: y(4) rows, erule rids(2))
  have "\<exists>at. row_at db' (slot_row (slots_of pg ! k)) at (page_row pg k)" if "k \<in> set (live_indices (slots_of pg))" for k
    using that packed packed_at_in by (auto simp: ix)
  moreover have "row_at db' r (i, k) row" if "i \<noteq> p" "row_at db r (i, k) row" "rid_get (rowids db') r = Some (i, k)" for r i k row
    using that q(1) rest [of i] by (cases "i = np") (auto simp: row_at_def live_slot_def)
  moreover have "rid_get (rowids db') r = Some (i, k) \<or> i \<noteq> p \<and> live_slot (pager db) r (i, k)"
    if lv: "live_slot (pager db') r (i, k)" for r i k
  proof -
    consider "i = p" | "i = np" | "i \<noteq> p" "i \<noteq> np" by blast
    then show ?thesis
    proof cases
      case 1
      then show ?thesis using live_slot_packed [OF lv _ l(3)] l(1) rids(1) by auto
    next
      case 2
      then show ?thesis using live_slot_packed [OF lv _ y(3)] y(1) rids(2) by auto
    next
      case 3
      then show ?thesis using lv rest [OF 3] by (simp add: live_slot_def)
    qed
  qed
  ultimately show ?thesis using rids(3) unfolding rows_moved_def by blast
qed

lemma split_moves:
  assumes ok: "db_ok db" and pg: "pager_get (pager db) p = Some pg" "pg_kind pg = PkData"
    and dec: "decode_body (pg_buf pg) = Ok b" and ix: "live_indices (slots_of pg) = lx @ rx"
    and sp: "split_pager (schema db) b pg lx rx p np (pager db) (pager db')"
    and same: "schema db' = schema db" "dicts db' = dicts db" "shape_ok db'"
    and m: "rowids db' = relocate_all np 0 (packed_slots 0 (map ((!) (slots_of pg)) rx))
      (relocate_all p 0 (packed_slots 0 (map ((!) (slots_of pg)) lx)) (rowids db))"
    and f: "fsm_ok (fsm db')" "\<And>i v. bm_get (space (fsm db')) i = Some v \<Longrightarrow> i \<in> {p, np} \<or> bm_get (space (fsm db)) i \<noteq> None"
  shows "db_ok db'" and "table db' = table db"
proof -
  obtain l y where l: "pager_get (pager db') p = Some l" "pg_kind l = PkData" "data_page_ok (schema db) l"
    and y: "pager_get (pager db') np = Some y" "pg_kind y = PkData" "data_page_ok (schema db) y"
    using sp by (rule split_pagerE)
  have q: "pager_ok (pager db')" "pager_get (pager db) np = None"
    and rest: "\<And>i. i \<noteq> p \<Longrightarrow> i \<noteq> np \<Longrightarrow> pager_get (pager db') i = pager_get (pager db) i"
    using sp unfolding split_pager_def by auto
  note mv = rows_moved_map [OF ok pg(1) split_moved [OF ok pg dec ix sp m]]
  have pages: "data_page_ok (schema db) x" if "pager_get (pager db') i = Some x" "pg_kind x = PkData" for i x
    using that l y rest [of i] ok pages_okD [of db i x] by (cases "i = p"; cases "i = np") auto
  have dict: "pager_get (pager db') i = Some x" if "pager_get (pager db) i = Some x" "pg_kind x \<noteq> PkData" for i x
    using that rest [of i] q(2) pg by (cases "i = p"; cases "i = np") auto
  have space: "\<exists>x. pager_get (pager db') i = Some x \<and> pg_kind x = PkData" if "bm_get (space (fsm db')) i = Some v" for i v
    using f(2) [OF that] l y rest [of i] ok by (cases "i = p"; cases "i = np") (auto simp: db_ok_def space_ok_def)
  have bm: "bm_ok (rowids db')" using ok m by (simp add: db_ok_def rows_ok_def)
  show "db_ok db'" by (rule moved_ok [OF ok same q(1) pages dict f(1) space bm mv])
  show "table db' = table db" by (rule moved_ok [OF ok same q(1) pages dict f(1) space bm mv])
qed

text \<open>A split succeeds, keeps the table and keeps the invariant.\<close>

definition page_small :: "db \<Rightarrow> page \<Rightarrow> bool" where
  "page_small db pg \<longleftrightarrow> 12 * (slot_count pg + 1) < 2 ^ 32 \<and> length (schema db) < 2 ^ 32"

lemma split_page_ok:
  assumes ok: "db_ok db" and pg: "pager_get (pager db) p = Some pg" "pg_kind pg = PkData"
    and room: "page_small db pg" "free_ids (pager db) \<noteq> [] \<or> length (pages (pager db)) < 4294967295"
  shows "\<exists>db'. split_page p db = (Ok (), db') \<and> db_ok db' \<and> table db' = table db \<and> schema db' = schema db"
proof -
  have "data_page_ok (schema db) pg" using ok pg by (auto simp: db_ok_def intro: pages_okD)
  then obtain b where dec: "decode_body (pg_buf pg) = Ok b" and b: "body_for (schema db) (slot_count pg) b"
    and ss: "slots_ok (slots_of pg)" by (rule data_page_okE)
  let ?ss = "slots_of pg" and ?live = "live_indices (slots_of pg)"
  let ?mid = "length ?live div 2"
  let ?lx = "take ?mid ?live" and ?rx = "drop ?mid ?live"
  have live: "filter slot_live ?ss = map ((!) ?ss) ?live" by (rule filter_live_slots)
  have po: "pager_ok (pager db)" using ok by (auto simp: db_ok_def pages_ok_def)
  show ?thesis
  proof (cases "length ?live < 4")
    case True
    then show ?thesis using ok pg dec by (simp add: split_page_def live sbind_def)
  next
    case False
    obtain np q where al: "pager_alloc PkData (encode_body (half_body b (map ((!) ?ss) ?rx))) (pager db) = (Ok np, q)"
      using pager_alloc_no_panic [OF po room(2)] by metis
    have bound: "\<forall>i \<in> set ?lx. i < slot_count pg" "\<forall>i \<in> set ?rx. i < slot_count pg"
      "length ?lx \<le> slot_count pg" "length ?rx \<le> slot_count pg"
      using live_indices_facts(1) [of _ ?ss] live_indices_facts(3) [of ?ss]
      by (auto simp: slots_of_Some dest!: in_set_takeD in_set_dropD)
    note sp = split_pager_ok [OF po pg b ss room(1) [unfolded page_small_def, THEN conjunct1]
        room(1) [unfolded page_small_def, THEN conjunct2] bound(1,3,2,4) al]
    let ?ls = "packed_slots 0 (map ((!) ?ss) ?lx)" and ?rs = "packed_slots 0 (map ((!) ?ss) ?rx)"
    let ?db = "db\<lparr>pager := pager_rebuf p (filled_page (half_body b (map ((!) ?ss) ?lx)) ?ls)
          (pager_modify np (replace_slots ?rs) q),
        rowids := relocate_all np 0 ?rs (relocate_all p 0 ?ls (rowids db)),
        fsm := set_space np (as_u32 page_data_capacity) (set_space p (as_u32 page_data_capacity) (fsm db)),
        page_rows := (page_rows db)(p \<mapsto> map slot_row ?ls, np \<mapsto> map slot_row ?rs)\<rparr>"
    have "split_page p db = (Ok (), ?db)"
      using False pg dec al by (simp add: split_page_def live sbind_def Let_def put_page_filled take_map drop_map)
    moreover have sh: "shape_ok ?db" using ok by (simp add: db_ok_def shape_ok_def)
    have fo: "fsm_ok (fsm ?db)" using ok by (simp add: db_ok_def space_ok_def)
    have sv: "i \<in> {p, np} \<or> bm_get (space (fsm db)) i \<noteq> None" if "bm_get (space (fsm ?db)) i = Some v" for i v
      using that by (auto simp: set_space_def split: if_splits)
    have lr: "?live = ?lx @ ?rx" by simp
    have sp': "split_pager (schema db) b pg ?lx ?rx p np (pager db) (pager ?db)" using sp by simp
    have "db_ok ?db" by (rule split_moves(1) [OF ok pg dec lr sp' _ _ sh _ fo sv]) simp_all
    moreover have "table ?db = table db" by (rule split_moves(2) [OF ok pg dec lr sp' _ _ sh _ fo sv]) simp_all
    ultimately show ?thesis by auto
  qed
qed

section \<open>Merge\<close>

lemma merged_body_ok:
  assumes nb: "body_for s m nb" and b: "body_for s n b" and ix: "\<forall>i \<in> set ix. i < n"
    and room: "12 * (m + length ix + 1) < 2 ^ 32" "length s < 2 ^ 32"
    and h: "regions h = merge_regions (regions nb) (regions b) ix"
  shows "body_for s (m + length ix) h"
    and "i < m + length ix \<Longrightarrow> body_row h i = (if i < m then body_row nb i else body_row b (ix ! (i - m)))"
    and "body_fits h"
proof -
  have l: "length (regions nb) = length s" "length (regions b) = length s"
    using nb b by (simp_all add: body_for_length)
  have hl: "length (regions h) = length s" and hn: "\<And>j. j < length s \<Longrightarrow> regions h ! j = merge_region (regions nb ! j) (regions b ! j) ix"
    using l by (simp_all add: h merge_regions_def)
  have small: "m + length ix < 2 ^ 32" using room(1) by simp
  note t = merge_for [OF body_for_region [OF b] body_for_region [OF nb] ix small]
  show bf: "body_for s (m + length ix) h"
    using t(1) hl hn by (simp add: body_for_def list_all2_conv_all_nth)
  have "compactly (m + length ix) r" if r: "r \<in> set (regions h)" for r
  proof -
    obtain j where "j < length s" "r = merge_region (regions nb ! j) (regions b ! j) ix"
      using r hl hn by (auto simp: in_set_conv_nth)
    then show ?thesis using t(3) by simp
  qed
  then show "body_fits h" using body_fits_size [OF bf _ _ room(2)] room(1) by (simp add: add.assoc)
  assume i: "i < m + length ix"
  have "read_cell (regions h ! j) i = (if i < m then read_cell (regions nb ! j) i else read_cell (regions b ! j) (ix ! (i - m)))"
    if j: "j < length s" for j
  proof -
    have c: "cells (merge_region (regions nb ! j) (regions b ! j) ix) = cells (regions nb ! j) @ map ((!) (cells (regions b ! j))) ix"
      and r: "region_ok (merge_region (regions nb ! j) (regions b ! j) ix)"
      using t(1,2) [OF j j] by (simp_all add: region_for_def)
    have m: "length (cells (regions nb ! j)) = m" "region_ok (regions nb ! j)"
      and n: "length (cells (regions b ! j)) = n" "region_ok (regions b ! j)"
      using body_for_region [OF nb j] body_for_region [OF b j] by (simp_all add: region_for_def)
    show ?thesis
    proof (cases "i < m")
      case True
      then show ?thesis using hn [OF j] r m c by (simp add: read_cell_cells nth_or_null_def nth_opt_def nth_append)
    next
      case False
      then have "ix ! (i - m) < n" using ix i by simp
      then show ?thesis using False hn [OF j] r m n c i
        by (simp add: read_cell_cells nth_or_null_def nth_opt_def nth_append)
    qed
  qed
  then show "body_row h i = (if i < m then body_row nb i else body_row b (ix ! (i - m)))"
    using hl l by (simp add: body_row_def list_eq_iff_nth_eq)
qed

text \<open>
  The pages behind a merge: the neighbour has its own rows and behind them the packed ones, the
  emptied page is gone, and every other page is as it was.
\<close>

definition merge_pager :: "schema \<Rightarrow> page \<Rightarrow> page \<Rightarrow> u32 \<Rightarrow> u32 \<Rightarrow> pager \<Rightarrow> pager \<Rightarrow> bool" where
  "merge_pager s pg npg p nb q q' \<longleftrightarrow> pager_ok q' \<and> pager_get q' p = None \<and>
     (\<forall>i. i \<noteq> p \<longrightarrow> i \<noteq> nb \<longrightarrow> pager_get q' i = pager_get q i) \<and>
     (\<exists>y. pager_get q' nb = Some y \<and> pg_kind y = PkData \<and> data_page_ok s y \<and>
        slots_of y = slots_of npg @ packed_slots (slot_count npg) (filter slot_live (slots_of pg)) \<and>
        (\<forall>i < slot_count npg. page_row y i = page_row npg i) \<and>
        (\<forall>j < length (live_indices (slots_of pg)).
           page_row y (slot_count npg + j) = page_row pg (live_indices (slots_of pg) ! j)))"

lemma merge_pager_ok:
  assumes ok: "pager_ok q" and pg: "pager_get q p = Some pg" and npg: "pager_get q nb = Some npg" "pg_kind npg = PkData"
    and ne: "nb \<noteq> p" and dec: "decode_body (pg_buf pg) = Ok b" "decode_body (pg_buf npg) = Ok nbody"
    and b: "body_for s (slot_count pg) b" "slots_ok (slots_of pg)"
    and nbf: "body_for s (slot_count npg) nbody" "slots_ok (slots_of npg)"
    and room: "12 * (slot_count npg + slot_count pg + 1) < 2 ^ 32" "length s < 2 ^ 32"
    and ss: "ss = slots_of npg @ packed_slots (slot_count npg) (filter slot_live (slots_of pg))"
    and h: "h = \<lparr>num_rows = as_u32 (length ss),
      regions = merge_regions (regions nbody) (regions b) (slot_offs (filter slot_live (slots_of pg)))\<rparr>"
  shows "merge_pager s pg npg p nb q (pager_free p (pager_rebuf nb (filled_page h ss) q))"
proof -
  let ?ix = "live_indices (slots_of pg)" and ?m = "slot_count npg"
  have ix: "\<forall>i \<in> set ?ix. i < slot_count pg" "length ?ix \<le> slot_count pg"
    using live_indices_facts(1) [of _ "slots_of pg"] live_indices_facts(3) [of "slots_of pg"]
    by (auto simp: slots_of_Some)
  have offs: "slot_offs (filter slot_live (slots_of pg)) = ?ix"
    using slot_offs_live [OF b(2)] ix(1) by (simp add: filter_live_slots slots_of_Some)
  have len: "length (filter slot_live (slots_of pg)) = length ?ix" by (simp add: filter_live_slots)
  then have sl: "length ss = ?m + length ?ix" by (simp add: ss slots_of_Some)
  have room': "12 * (?m + length ?ix + 1) < 2 ^ 32" using ix(2) room(1) by simp
  note M = merged_body_ok [OF nbf(1) b(1) ix(1) room' room(2), of h]
  have regs: "regions h = merge_regions (regions nbody) (regions b) ?ix" by (simp add: h offs)
  have sso: "slots_ok ss"
    using packed_slots_append_ok [OF nbf(2), of "filter slot_live (slots_of pg)"] room' len by (simp add: ss slots_of_Some)
  let ?y = "filled_page h ss (next_alloc q) npg" and ?q = "pager_free p (pager_rebuf nb (filled_page h ss) q)"
  have bf: "body_for s (length ss) h" using M(1) [OF regs] by (simp add: sl)
  have g: "pager_get ?q i = (if i = p then None else if i = nb then Some ?y else pager_get q i)" for i
    using npg ne by (auto simp: pager_get_free pager_get_rebuf)
  have y: "data_page_ok s ?y" "page_row ?y i = Some (body_row h i)" for i
    using filled_page_ok [OF bf _ M(3) [OF regs] sso, of "next_alloc q" npg] by (simp_all add: h)
  have "page_row ?y i = page_row npg i" if "i < ?m" for i
    using M(2) [OF regs, of i] that y(2) by (simp add: page_row_def dec)
  moreover have "page_row ?y (?m + j) = page_row pg (?ix ! j)" if "j < length ?ix" for j
    using M(2) [OF regs, of "?m + j"] that y(2) [of "?m + j"] by (simp add: page_row_def dec)
  moreover have "pager_ok ?q" by (rule pager_ok_free [OF pager_ok_filled [OF ok]])
  ultimately show ?thesis using g ne y(1) npg(2) unfolding merge_pager_def by (simp add: ss)
qed

lemma merge_moved:
  assumes ok: "db_ok db" and pg: "pager_get (pager db) p = Some pg" "pg_kind pg = PkData"
    and npg: "pager_get (pager db) nb = Some npg" "pg_kind npg = PkData"
    and mp: "merge_pager (schema db) pg npg p nb (pager db) (pager db')"
    and m: "rowids db' = relocate_all nb (slot_count npg)
      (packed_slots (slot_count npg) (filter slot_live (slots_of pg))) (rowids db)"
  shows "rows_moved db db' p pg"
proof -
  let ?live = "filter slot_live (slots_of pg)" and ?ix = "live_indices (slots_of pg)" and ?m = "slot_count npg"
  obtain y where y: "pager_get (pager db') nb = Some y" "pg_kind y = PkData"
    and ys: "slots_of y = slots_of npg @ packed_slots ?m ?live"
    and yr: "\<forall>i < ?m. page_row y i = page_row npg i" "\<forall>j < length ?ix. page_row y (?m + j) = page_row pg (?ix ! j)"
    using mp unfolding merge_pager_def by blast
  have gone: "pager_get (pager db') p = None"
    and rest: "\<And>i. i \<noteq> p \<Longrightarrow> i \<noteq> nb \<Longrightarrow> pager_get (pager db') i = pager_get (pager db) i"
    using mp unfolding merge_pager_def by blast+
  have nth: "?live ! j = slots_of pg ! (?ix ! j)" if "j < length ?ix" for j using that by (simp add: filter_live_slots)
  have len: "length ?live = length ?ix" by (simp add: filter_live_slots)
  have at: "rid_get (rowids db) (slot_row s) \<noteq> None \<and> (\<exists>i. rid_get (rowids db) (slot_row s) = Some (p, i))"
    if "s \<in> set ?live" for s
  proof -
    have "s \<in> set (slots_of pg)" "slot_live s" using that by simp_all
    then obtain i where "i < slot_count pg" "s = slots_of pg ! i" "slot_live s"
      by (metis in_set_conv_nth slots_of_Some)
    then show ?thesis using page_rows_map [OF ok pg] by auto
  qed
  note rids = relocate_packed [OF live_rows_distinct [OF ok pg], of "rowids db", where p = nb and start = ?m and k = ?m, folded m]
  have there: "rid_get (rowids db') (slot_row (slots_of pg ! (?ix ! j))) = Some (nb, ?m + j)" if "j < length ?ix" for j
    using rids(1) [of j] at that nth len by simp
  have packed: "packed_at db' pg ?ix nb ?m"
    using there y yr ys nth len
    by (simp add: packed_at_def row_at_def live_slot_def slots_of_Some nth_append)
  have "\<exists>at. row_at db' (slot_row (slots_of pg ! k)) at (page_row pg k)" if "k \<in> set ?ix" for k
    using packed_at_in [OF packed that] .
  moreover have "rid_get (rowids db') r = rid_get (rowids db) r" if "\<forall>i. rid_get (rowids db) r \<noteq> Some (p, i)" for r
  proof -
    have "r \<notin> slot_row ` set ?live" using at that by blast
    then show ?thesis using rids(2) at by blast
  qed
  moreover have "row_at db' r (i, k) row" if ne: "i \<noteq> p" and ra: "row_at db r (i, k) row" "rid_get (rowids db') r = Some (i, k)" for r i k row
  proof (cases "i = nb")
    case True
    then have "k < ?m" "row = page_row npg k" "slot_row (slots_of npg ! k) = r" "slot_live (slots_of npg ! k)"
      using ra npg by (auto simp: row_at_def live_slot_def)
    then show ?thesis using True ra(2) y yr(1) ys
      by (auto simp: row_at_def live_slot_def slots_of_Some nth_append)
  qed (use ne ra rest [of i] in \<open>auto simp: row_at_def live_slot_def\<close>)
  moreover have "rid_get (rowids db') r = Some (i, k) \<or> i \<noteq> p \<and> live_slot (pager db) r (i, k)"
    if lv: "live_slot (pager db') r (i, k)" for r i k
  proof -
    have ip: "i \<noteq> p" using lv gone by (auto simp: live_slot_def)
    show ?thesis
    proof (cases "i = nb")
      case True
      have k: "k < length (slots_of y)" "slot_row (slots_of y ! k) = r" "slot_live (slots_of y ! k)"
        using lv y True by (auto simp: live_slot_def slots_of_Some)
      show ?thesis
      proof (cases "k < ?m")
        case True
        then show ?thesis using k ys npg \<open>i = nb\<close> ip by (auto simp: live_slot_def slots_of_Some nth_append)
      next
        case False
        then have "k - ?m < length ?ix" "r = slot_row (slots_of pg ! (?ix ! (k - ?m)))"
          using k ys len nth by (auto simp: slots_of_Some nth_append)
        then show ?thesis using there [of "k - ?m"] False \<open>i = nb\<close> by simp
      qed
    qed (use lv ip rest [of i] in \<open>simp add: live_slot_def\<close>)
  qed
  ultimately show ?thesis unfolding rows_moved_def by blast
qed

lemma merge_moves:
  assumes ok: "db_ok db" and pg: "pager_get (pager db) p = Some pg" "pg_kind pg = PkData"
    and npg: "pager_get (pager db) nb = Some npg" "pg_kind npg = PkData"
    and mp: "merge_pager (schema db) pg npg p nb (pager db) (pager db')"
    and same: "schema db' = schema db" "dicts db' = dicts db" "shape_ok db'"
    and m: "rowids db' = relocate_all nb (slot_count npg)
      (packed_slots (slot_count npg) (filter slot_live (slots_of pg))) (rowids db)"
    and f: "fsm_ok (fsm db')" "\<And>i v. bm_get (space (fsm db')) i = Some v \<Longrightarrow> i \<noteq> p \<and> (i = nb \<or> bm_get (space (fsm db)) i \<noteq> None)"
  shows "db_ok db'" and "table db' = table db"
proof -
  obtain y where y: "pager_get (pager db') nb = Some y" "pg_kind y = PkData" "data_page_ok (schema db) y"
    using mp unfolding merge_pager_def by blast
  have q: "pager_ok (pager db')" "pager_get (pager db') p = None"
    and rest: "\<And>i. i \<noteq> p \<Longrightarrow> i \<noteq> nb \<Longrightarrow> pager_get (pager db') i = pager_get (pager db) i"
    using mp unfolding merge_pager_def by blast+
  note mv = rows_moved_map [OF ok pg(1) merge_moved [OF ok pg npg mp m]]
  have pages: "data_page_ok (schema db) x" if "pager_get (pager db') i = Some x" "pg_kind x = PkData" for i x
    using that y q(2) rest [of i] ok pages_okD [of db i x] by (cases "i = p"; cases "i = nb") auto
  have dict: "pager_get (pager db') i = Some x" if "pager_get (pager db) i = Some x" "pg_kind x \<noteq> PkData" for i x
    using that rest [of i] npg pg by (cases "i = p"; cases "i = nb") auto
  have space: "\<exists>x. pager_get (pager db') i = Some x \<and> pg_kind x = PkData" if "bm_get (space (fsm db')) i = Some v" for i v
    using f(2) [OF that] y rest [of i] ok by (cases "i = nb") (auto simp: db_ok_def space_ok_def)
  have bm: "bm_ok (rowids db')" using ok m by (simp add: db_ok_def rows_ok_def)
  show "db_ok db'" by (rule moved_ok [OF ok same q(1) pages dict f(1) space bm mv])
  show "table db' = table db" by (rule moved_ok [OF ok same q(1) pages dict f(1) space bm mv])
qed

text \<open>The neighbour is the first other data page of the pager.\<close>

lemma neighbour_page:
  assumes ok: "pager_ok q" and f: "find (\<lambda>pg. pg_id pg \<noteq> p) (data_pages q) = Some npg"
  shows "pager_get q (pg_id npg) = Some npg" and "pg_kind npg = PkData" and "pg_id npg \<noteq> p"
proof -
  have n: "npg \<in> set (pager_iter q)" "pg_kind npg = PkData" "pg_id npg \<noteq> p"
    using f by (auto simp: find_Some_iff data_pages_def dest: nth_mem)
  then obtain i where i: "pager_get q i = Some npg" using pager_iter_mem [OF ok] by blast
  then have "pg_id npg = i" using ok unfolding pager_ok_def own_ok_def by blast
  then show "pager_get q (pg_id npg) = Some npg" "pg_kind npg = PkData" "pg_id npg \<noteq> p" using i n by simp_all
qed

lemma merge_page_ok:
  assumes ok: "db_ok db" and pg: "pager_get (pager db) p = Some pg" "pg_kind pg = PkData"
    and room: "length (schema db) < 2 ^ 32"
      "\<forall>npg \<in> set (data_pages (pager db)). 12 * (slot_count npg + slot_count pg + 1) < 2 ^ 32"
  shows "\<exists>db'. merge_page p db = (Ok (), db') \<and> db_ok db' \<and> table db' = table db \<and> schema db' = schema db"
proof (cases "find (\<lambda>pg. pg_id pg \<noteq> p) (data_pages (pager db))")
  case None
  then show ?thesis using ok by (simp add: merge_page_def)
next
  case (Some npg)
  have po: "pager_ok (pager db)" using ok by (auto simp: db_ok_def pages_ok_def)
  let ?nb = "pg_id npg"
  have npg: "pager_get (pager db) ?nb = Some npg" "pg_kind npg = PkData" and ne: "?nb \<noteq> p"
    using neighbour_page [OF po Some] .
  have "data_page_ok (schema db) pg" using ok pg by (auto simp: db_ok_def intro: pages_okD)
  then obtain b where b: "decode_body (pg_buf pg) = Ok b" "body_for (schema db) (slot_count pg) b" "slots_ok (slots_of pg)"
    by (rule data_page_okE)
  have "data_page_ok (schema db) npg" using ok npg by (auto simp: db_ok_def intro: pages_okD)
  then obtain c where c: "decode_body (pg_buf npg) = Ok c" "body_for (schema db) (slot_count npg) c" "slots_ok (slots_of npg)"
    by (rule data_page_okE)
  have "npg \<in> set (data_pages (pager db))" using Some by (auto simp: find_Some_iff)
  then have r: "12 * (slot_count npg + slot_count pg + 1) < 2 ^ 32" using room(2) by blast
  let ?live = "filter slot_live (slots_of pg)"
  let ?mv = "packed_slots (slot_count npg) ?live"
  let ?ss = "slots_of npg @ ?mv"
  let ?h = "\<lparr>num_rows = as_u32 (length ?ss), regions = merge_regions (regions c) (regions b) (slot_offs ?live)\<rparr>"
  note mp = merge_pager_ok [OF po pg(1) npg ne b(1) c(1) b(2,3) c(2,3) r room(1) refl refl]
  let ?db = "db\<lparr>pager := pager_free p (pager_rebuf ?nb (filled_page ?h ?ss) (pager db)),
      rowids := relocate_all ?nb (slot_count npg) ?mv (rowids db),
      fsm := return_page p (forget p (set_space ?nb (as_u32 page_data_capacity) (fsm db))),
      page_rows := (page_rows db)(p := None)\<rparr>"
  have "merge_page p db = (Ok (), ?db)"
    using pg(1) b(1) npg c(1) by (simp add: merge_page_def Some Let_def sbind_def put_page_filled slots_of_Some)
  moreover have sh: "shape_ok ?db" using ok by (simp add: db_ok_def shape_ok_def)
  have fs: "fsm_ok (fsm db)" using ok by (simp add: db_ok_def space_ok_def)
  then have fo: "fsm_ok (fsm ?db)" by simp
  have sv: "i \<noteq> p \<and> (i = ?nb \<or> bm_get (space (fsm db)) i \<noteq> None)" if "bm_get (space (fsm ?db)) i = Some v" for i v
    using that fs by (auto simp: return_page_def forget_def set_space_def fsm_ok_def split: if_splits)
  have mp': "merge_pager (schema db) pg npg p ?nb (pager db) (pager ?db)" using mp by simp
  have "db_ok ?db" by (rule merge_moves(1) [OF ok pg npg mp' _ _ sh _ fo sv]) simp_all
  moreover have "table ?db = table db" by (rule merge_moves(2) [OF ok pg npg mp' _ _ sh _ fo sv]) simp_all
  ultimately show ?thesis by auto
qed

section \<open>Repack\<close>

text \<open>
  Repack packs the live rows of its page to the front, in order and with their values, and touches
  no other page; the row-id map is left as it was.
\<close>

definition repacked :: "schema \<Rightarrow> page \<Rightarrow> page \<Rightarrow> bool" where
  "repacked s pg y \<longleftrightarrow> pg_kind y = PkData \<and> data_page_ok s y \<and>
     slots_of y = packed_slots 0 (filter slot_live (slots_of pg)) \<and>
     (\<forall>j < length (live_indices (slots_of pg)). page_row y j = page_row pg (live_indices (slots_of pg) ! j))"

lemma repacked_body_ok:
  assumes b: "body_for s n b" and ix: "\<forall>i \<in> set ix. i < n" "length ix \<le> n"
    and room: "12 * (n + 1) < 2 ^ 32" "length s < 2 ^ 32"
    and h: "regions h = map (\<lambda>r. repack_region r ix) (regions b)"
  shows "body_for s (length ix) h" and "j < length ix \<Longrightarrow> body_row h j = body_row b (ix ! j)" and "body_fits h"
proof -
  have ix32: "length ix < 2 ^ 32" "12 * (length ix + 1) < 2 ^ 32" using ix(2) room(1) by simp_all
  note t = repack_for [OF _ ix(1) ix32(1)]
  show bf: "body_for s (length ix) h" and "j < length ix \<Longrightarrow> body_row h j = body_row b (ix ! j)"
    using body_for_map [OF b _ refl ix(1) h] t(1,2) by blast+
  have "compactly (length ix) r" if r: "r \<in> set (regions h)" for r
  proof -
    obtain i where i: "i < length s" "r = repack_region (regions b ! i) ix"
      using r body_for_length [OF b] by (auto simp: h in_set_conv_nth)
    then show ?thesis using t(3) [OF body_for_region [OF b i(1)]] by simp
  qed
  then show "body_fits h" using body_fits_size [OF bf _ ix32(2) room(2)] by blast
qed

lemma repack_ok:
  assumes ok: "db_ok db" and pg: "pager_get (pager db) p = Some pg" "pg_kind pg = PkData"
    and room: "page_small db pg" and ne: "live_indices (slots_of pg) \<noteq> []"
  shows "\<exists>db' y. repack p db = (Ok (), db') \<and> rowids db' = rowids db \<and> pager_get (pager db') p = Some y \<and>
    repacked (schema db) pg y \<and> (\<forall>i. i \<noteq> p \<longrightarrow> pager_get (pager db') i = pager_get (pager db) i)"
proof -
  have "data_page_ok (schema db) pg" using ok pg by (auto simp: db_ok_def intro: pages_okD)
  then obtain b where dec: "decode_body (pg_buf pg) = Ok b" and b: "body_for (schema db) (slot_count pg) b"
    by (rule data_page_okE)
  let ?ix = "live_indices (slots_of pg)"
  let ?ss = "packed_slots 0 (map ((!) (slots_of pg)) ?ix)"
  let ?h = "\<lparr>num_rows = as_u32 (length ?ix), regions = map (\<lambda>r. repack_region r ?ix) (regions b)\<rparr>"
  let ?db = "db\<lparr>pager := pager_rebuf p (filled_page ?h ?ss) (pager db),
      fsm := set_space p (as_u32 page_data_capacity) (fsm db),
      page_rows := (page_rows db)(p \<mapsto> map (\<lambda>i. slot_row (slots_of pg ! i)) ?ix)\<rparr>"
  let ?y = "filled_page ?h ?ss (next_alloc (pager db)) pg"
  have "pg_buf pg \<noteq> []" using dec by (auto simp: decode_body_def)
  then have r: "repack p db = (Ok (), ?db)"
    using pg dec ne by (simp add: repack_def Let_def sbind_def put_page_filled)
  have ix: "\<forall>i \<in> set ?ix. i < slot_count pg" "length ?ix \<le> slot_count pg"
    using live_indices_facts(1) [of _ "slots_of pg"] live_indices_facts(3) [of "slots_of pg"]
    by (auto simp: slots_of_Some)
  note R = repacked_body_ok [OF b ix room [unfolded page_small_def, THEN conjunct1]
      room [unfolded page_small_def, THEN conjunct2], of ?h]
  have small: "length (map ((!) (slots_of pg)) ?ix) < 2 ^ 32" using ix(2) room by (simp add: page_small_def)
  have y: "data_page_ok (schema db) ?y" "page_row ?y i = Some (body_row ?h i)" for i
    using filled_page_ok [of "schema db" ?ss ?h] R packed_slots_ok [OF small] by simp_all
  have "repacked (schema db) pg ?y"
    using y R(2) pg(2) by (simp add: repacked_def filter_live_slots page_row_def [of pg] dec)
  moreover have "pager_get (pager ?db) p = Some ?y" "\<forall>i. i \<noteq> p \<longrightarrow> pager_get (pager ?db) i = pager_get (pager db) i"
    using pg by (simp_all add: pager_get_rebuf)
  ultimately show ?thesis using r by (intro exI [of _ ?db] exI [of _ ?y]) simp
qed

text \<open>
  A row whose slot lies behind the packed ones is still mapped to its old slot: the fast read then
  indexes the slot directory out of range.
\<close>

lemma repack_strands:
  assumes ok: "db_ok db" and pg: "pager_get (pager db) p = Some pg" "pg_kind pg = PkData"
    and room: "page_small db pg" and r: "rid_get (rowids db) r = Some (p, i)" and i: "live_count pg \<le> i"
  shows "\<exists>db'. repack p db = (Ok (), db') \<and> read_row_cell_fast db' r c = Undef"
proof -
  have "live_slot (pager db) r (p, i)" using map_live [OF ok] r by blast
  then have "i \<in> set (live_indices (slots_of pg))" using pg by (auto simp: live_slot_def live_indices_facts slots_of_Some)
  then have ne: "live_indices (slots_of pg) \<noteq> []" by auto
  obtain db' y where d: "repack p db = (Ok (), db')" "rowids db' = rowids db" "pager_get (pager db') p = Some y"
    and y: "repacked (schema db) pg y" using repack_ok [OF ok pg room ne] by blast
  have "slots_of y = packed_slots 0 (filter slot_live (slots_of pg))" using y unfolding repacked_def by blast
  moreover have "live_count pg = length (filter slot_live (slots_of pg))"
    by (simp add: live_count_def slots_of_def split: option.split)
  ultimately have "length (slots_of y) \<le> i" using i by simp
  moreover have "pg_slots y = Some (slots_of y)"
    using y unfolding repacked_def by (metis data_page_okE)
  ultimately have "slot_at_unchecked y i = Undef" by (simp add: slot_at_unchecked_def)
  then show ?thesis using d r by (simp add: read_row_cell_fast_def)
qed

section \<open>One turn of the pass\<close>

text \<open>Every turn that does not repack keeps the table.\<close>

definition repacks :: "db \<Rightarrow> u32 \<Rightarrow> page \<Rightarrow> bool" where
  "repacks db p pg \<longleftrightarrow> length (pg_buf pg) \<le> split_threshold \<and>
     \<not> (live_count pg < merge_threshold \<and> 1 < length (data_pages (pager db))) \<and> slot_count pg \<noteq> live_count pg"

lemma compact_page_ok:
  assumes ok: "db_ok db" and pg: "pager_get (pager db) p = Some pg" "pg_kind pg = PkData"
    and room: "page_small db pg" "free_ids (pager db) \<noteq> [] \<or> length (pages (pager db)) < 4294967295"
      "\<forall>npg \<in> set (data_pages (pager db)). 12 * (slot_count npg + slot_count pg + 1) < 2 ^ 32"
    and no: "\<not> repacks db p pg"
  shows "\<exists>n db'. compact_page p db = (Ok n, db') \<and> db_ok db' \<and> table db' = table db \<and> schema db' = schema db"
proof -
  obtain ds where s: "split_page p db = (Ok (), ds) \<and> db_ok ds \<and> table ds = table db \<and> schema ds = schema db"
    using split_page_ok [OF ok pg room(1,2)] by blast
  have "length (schema db) < 2 ^ 32" using room(1) by (simp add: page_small_def)
  then obtain dm where m: "merge_page p db = (Ok (), dm) \<and> db_ok dm \<and> table dm = table db \<and> schema dm = schema db"
    using merge_page_ok [OF ok pg _ room(3)] by blast
  show ?thesis
    using s m ok no pg(1) by (auto simp: compact_page_def repacks_def has_tombstones_def sbind_def sret_def)
qed

end
