(* ===== verification/Queries.thy ===== *)
theory Queries
  imports Compacted
begin

text \<open>
  Reading rows back (\<open>src/src/query.rs\<close>): row materialisation on the checked and the unchecked path,
  scans, index scans, the self join and the aggregate. A scan of a well-formed database returns the
  stored table.
\<close>

record row =
  row_id :: u64
  row_vals :: "val list"

text \<open>The loop over the columns stops at the first cell that is not there.\<close>

fun cells_fast :: "db \<Rightarrow> u64 \<Rightarrow> nat list \<Rightarrow> val list option result" where
  "cells_fast db r [] = Ok (Some [])"
| "cells_fast db r (c # cs) = rbind (read_row_cell_fast db r c) (\<lambda>x. case x of None \<Rightarrow> Ok None
     | Some v \<Rightarrow> rbind (cells_fast db r cs) (\<lambda>vs. Ok (map_option ((#) v) vs)))"

definition materialize_row_fast :: "db \<Rightarrow> u64 \<Rightarrow> row option result" where
  "materialize_row_fast db r = rbind (cells_fast db r [0..<arity (schema db)])
     (\<lambda>vs. Ok (map_option (\<lambda>vs. \<lparr>row_id = r, row_vals = vs\<rparr>) vs))"

fun cells_safe :: "db \<Rightarrow> u64 \<Rightarrow> nat list \<Rightarrow> val list option" where
  "cells_safe db r [] = Some []"
| "cells_safe db r (c # cs) = (case read_row_cell db r c of None \<Rightarrow> None
     | Some v \<Rightarrow> map_option ((#) v) (cells_safe db r cs))"

definition materialize_row_safe :: "db \<Rightarrow> u64 \<Rightarrow> row option" where
  "materialize_row_safe db r = map_option (\<lambda>vs. \<lparr>row_id = r, row_vals = vs\<rparr>) (cells_safe db r [0..<arity (schema db)])"

definition count_scan :: "db \<Rightarrow> db" where
  "count_scan db = db\<lparr>stats := (stats db)\<lparr>st_scans := st_scans (stats db) + 1\<rparr>\<rparr>"

definition scan_page :: "db \<Rightarrow> u32 \<Rightarrow> row list" where
  "scan_page db p = (case pager_get (pager db) p of None \<Rightarrow> []
     | Some pg \<Rightarrow> (case decode_body (pg_buf pg) of
         Ok b \<Rightarrow> (case pg_slots pg of None \<Rightarrow> []
           | Some d \<Rightarrow> map (\<lambda>(i, e). \<lparr>row_id = slot_row e, row_vals = map (\<lambda>r. read_cell r i) (regions b)\<rparr>)
               (filter (\<lambda>(i, e). slot_live e) (enumerate 0 d)))
       | _ \<Rightarrow> []))"

definition scan_all :: "db \<Rightarrow> row list \<times> db" where
  "scan_all db = (let db = count_scan db in
     (concat (map (scan_page db) (map pg_id (data_pages (pager db)))), db))"

definition no_index :: "nat \<Rightarrow> error" where
  "no_index col = NotFound (str ''no index on column '' @ show_nat col)"

definition no_dict :: "nat \<Rightarrow> error" where
  "no_dict col = NotFound (str ''no dict for column '' @ show_nat col)"

definition no_dict_id :: "u32 \<Rightarrow> error" where
  "no_dict_id i = NotFound (str ''dict id '' @ show_nat (unat i))"

text \<open>The bytes an index is probed with.\<close>

definition query_bytes :: "db \<Rightarrow> nat \<Rightarrow> dict \<Rightarrow> val \<Rightarrow> u8 list result" where
  "query_bytes db col d target = (case target of
       VText i \<Rightarrow> ok_or (bytes_of d (pager db) i) (no_dict_id i)
     | other \<Rightarrow> rbind (index_at (schema db) col) (\<lambda>c. Ok (encode_cell (ckind c) other)))"

fun rows_fast :: "db \<Rightarrow> u64 list \<Rightarrow> row list result" where
  "rows_fast db [] = Ok []"
| "rows_fast db (r # rs) = rbind (materialize_row_fast db r) (\<lambda>x. rbind (rows_fast db rs) (\<lambda>out.
     Ok (case x of None \<Rightarrow> out | Some row \<Rightarrow> row # out)))"

definition index_scan :: "nat \<Rightarrow> val \<Rightarrow> (db, error, row list) op" where
  "index_scan col target db =
     (let db = db\<lparr>stats := (stats db)\<lparr>st_index_scans := st_index_scans (stats db) + 1\<rparr>\<rparr> in
      slift (rbind (ok_or (index_of db col) (no_index col)) (\<lambda>idx.
        rbind (ok_or (get_some (dicts db) col) (no_dict col)) (\<lambda>d.
        rbind (query_bytes db col d target) (\<lambda>bytes.
        rbind (probe idx (pager db) bytes) (rows_fast db))))) db)"

definition point_lookup :: "db \<Rightarrow> u64 \<Rightarrow> row list result" where
  "point_lookup db r = (if rid_contains (rowids db) r
     then rbind (materialize_row_fast db r) (\<lambda>x. Ok (case x of None \<Rightarrow> [] | Some row \<Rightarrow> [row])) else Ok [])"

definition has_index :: "db \<Rightarrow> nat \<Rightarrow> bool" where
  "has_index db col = (case nth_opt (schema db) col of None \<Rightarrow> False | Some c \<Rightarrow> index_page c \<noteq> None)"

definition scan_where :: "nat \<Rightarrow> cmp_op \<Rightarrow> val \<Rightarrow> (db, error, row list) op" where
  "scan_where col op target db =
     (let db = count_scan db in
      if col = row_id_index \<and> op = OpEq \<and> as_int target \<noteq> None
        then slift (point_lookup db (the (as_int target))) db
      else if op = OpEq \<and> has_index db col then index_scan col target db
      else slift (rbind (collect_matching db col op target) (\<lambda>rs.
        Ok (List.map_filter (materialize_row_safe db) rs))) db)"

text \<open>Two optional cells under the derived equality.\<close>

fun opt_val_eq :: "val option \<Rightarrow> val option \<Rightarrow> bool" where
  "opt_val_eq None None = True"
| "opt_val_eq (Some a) (Some b) = val_eq a b"
| "opt_val_eq _ _ = False"

fun windows2 :: "'a list \<Rightarrow> ('a \<times> 'a) list" where
  "windows2 (x # y # r) = (x, y) # windows2 (y # r)"
| "windows2 _ = []"

definition merge_join :: "db \<Rightarrow> (row \<times> row) list \<times> db" where
  "merge_join db = (let (rows, db) = scan_all db in
     (filter (\<lambda>(a, b). opt_val_eq (nth_opt (row_vals a) 1) (nth_opt (row_vals b) 1))
        (windows2 (sort_key row_id rows)), db))"

record agg =
  agg_count :: u64
  agg_sum :: int
  agg_min :: "val option"
  agg_max :: "val option"

definition agg_new :: agg where
  "agg_new = \<lparr>agg_count = 0, agg_sum = 0, agg_min = None, agg_max = None\<rparr>"

definition keep_min :: "val option \<Rightarrow> val \<Rightarrow> val" where
  "keep_min m v = (case m of None \<Rightarrow> v | Some m \<Rightarrow> if total_cmp v m = Less then v else m)"

definition keep_max :: "val option \<Rightarrow> val \<Rightarrow> val" where
  "keep_max m v = (case m of None \<Rightarrow> v | Some m \<Rightarrow> if total_cmp v m = Greater then v else m)"

definition agg_step :: "nat \<Rightarrow> agg \<Rightarrow> row \<Rightarrow> agg" where
  "agg_step col a r = (let v = nth_or_null (row_vals r) col in
     if is_null v then a
     else \<lparr>agg_count = agg_count a + 1,
       agg_sum = agg_sum a + (case as_int v of None \<Rightarrow> 0 | Some i \<Rightarrow> sint i),
       agg_min = Some (keep_min (agg_min a) v), agg_max = Some (keep_max (agg_max a) v)\<rparr>)"

definition aggregate :: "nat \<Rightarrow> db \<Rightarrow> agg \<times> db" where
  "aggregate col db = (let (rows, db) = scan_all db in (foldl (agg_step col) agg_new rows, db))"

section \<open>Materialised rows\<close>

definition table_row :: "db \<Rightarrow> u64 \<Rightarrow> row option" where
  "table_row db r = map_option (\<lambda>vs. \<lparr>row_id = r, row_vals = vs\<rparr>) (table db r)"

lemma cells_safe_table:
  assumes ok: "db_ok db" and c: "\<forall>c \<in> set cs. c < length (schema db)"
  shows "cells_safe db r cs = (if cs = [] then Some [] else map_option (\<lambda>vs. map ((!) vs) cs) (table db r))"
  using c
proof (induction cs)
  case (Cons c cs)
  have "read_row_cell db r c = map_option (\<lambda>vs. vs ! c) (table db r)"
    using Cons.prems table_row_length [OF ok]
    by (cases "table db r") (auto simp: read_row_cell_table [OF ok] nth_opt_def)
  then show ?case using Cons by (cases "table db r") auto
qed simp

lemma cells_fast_safe: "db_ok db \<Longrightarrow> cells_fast db r cs = Ok (cells_safe db r cs)"
  by (induction cs) (simp_all add: read_row_cell_fast_table split: option.split)

lemma materialize_table:
  assumes ok: "db_ok db"
  shows "materialize_row_safe db r = table_row db r" and "materialize_row_fast db r = Ok (table_row db r)"
proof -
  have s: "schema db \<noteq> []" using ok by (auto simp: db_ok_def shape_ok_def)
  have "map ((!) vs) [0..<length (schema db)] = vs" if "table db r = Some vs" for vs
    using table_row_length [OF ok that] by (metis map_nth)
  then show safe: "materialize_row_safe db r = table_row db r"
    using s by (cases "table db r") (simp_all add: materialize_row_safe_def table_row_def arity_def cells_safe_table [OF ok])
  show "materialize_row_fast db r = Ok (table_row db r)"
    by (simp add: materialize_row_fast_def cells_fast_safe [OF ok] materialize_row_safe_def [symmetric] safe)
qed

lemma count_scan_facts [simp]:
  "db_ok (count_scan db) = db_ok db" "table (count_scan db) = table db" "schema (count_scan db) = schema db"
  "pager (count_scan db) = pager db" "rowids (count_scan db) = rowids db" "table_row (count_scan db) = table_row db"
  by (simp_all add: count_scan_def table_row_def [abs_def])

section \<open>The full scan\<close>

lemma scan_page_rows:
  assumes ok: "db_ok db" and pg: "pager_get (pager db) p = Some pg" "pg_kind pg = PkData"
  shows "scan_page db p = map (\<lambda>i. \<lparr>row_id = slot_row (slots_of pg ! i), row_vals = the (page_row pg i)\<rparr>) (live_indices (slots_of pg))"
proof -
  have "data_page_ok (schema db) pg" using ok pg by (auto simp: db_ok_def intro: pages_okD)
  then obtain b where b: "decode_body (pg_buf pg) = Ok b" "pg_slots pg = Some (slots_of pg)" by (rule data_page_okE)
  have "map (\<lambda>(i, e). \<lparr>row_id = slot_row e, row_vals = map (\<lambda>r. read_cell r i) (regions b)\<rparr>)
      (filter (\<lambda>(i, e). slot_live e) (enumerate 0 (slots_of pg))) =
    map (\<lambda>i. \<lparr>row_id = slot_row (slots_of pg ! i), row_vals = the (page_row pg i)\<rparr>)
      (map fst (filter (\<lambda>(i, e). slot_live e) (enumerate 0 (slots_of pg))))"
    using b(1) by (auto simp: page_row_def body_row_def in_set_enumerate_eq)
  then show ?thesis using pg b by (simp add: scan_page_def live_indices_def)
qed

lemma map_filter_append: "List.map_filter f (xs @ ys) = List.map_filter f xs @ List.map_filter f ys"
  by (simp add: List.map_filter_def)

lemma pager_iter_ids:
  assumes "pager_ok p"
  shows "map pg_id (pager_iter p) = map as_u32 (filter (\<lambda>n. pages p ! n \<noteq> None) [0..<length (pages p)])"
proof -
  have "map pg_id (List.map_filter id ps) = map (\<lambda>n. as_u32 (k + n)) (filter (\<lambda>n. ps ! n \<noteq> None) [0..<length ps])"
    if "\<And>n pg. n < length ps \<Longrightarrow> ps ! n = Some pg \<Longrightarrow> pg_id pg = as_u32 (k + n)" for ps k
    using that
  proof (induction ps rule: rev_induct)
    case (snoc x ps)
    have "map pg_id (List.map_filter id ps) = map (\<lambda>n. as_u32 (k + n)) (filter (\<lambda>n. ps ! n \<noteq> None) [0..<length ps])"
    proof (rule snoc.IH)
      fix n pg assume "n < length ps" "ps ! n = Some pg"
      then show "pg_id pg = as_u32 (k + n)" using snoc.prems [of n pg] by (simp add: nth_append)
    qed
    moreover have "filter (\<lambda>n. (ps @ [x]) ! n \<noteq> None) [0..<length ps] = filter (\<lambda>n. ps ! n \<noteq> None) [0..<length ps]"
      by (rule filter_cong) (simp_all add: nth_append)
    moreover have "(ps @ [x]) ! length ps = x" by simp
    ultimately show ?case using snoc.prems [of "length ps"]
      by (cases x) (simp_all add: map_filter_append map_filter_simps id_def del: not_None_eq nth_append_length)
  qed (simp add: map_filter_simps)
  from this [of "pages p" 0] show ?thesis
    using assms pager_ok_length [OF assms]
    by (simp add: pager_iter_def pager_ok_def own_ok_def pager_get_def)
qed

lemma data_page_ids_distinct:
  assumes "pager_ok p"
  shows "distinct (map pg_id (data_pages p))"
proof -
  have "inj_on as_u32 {..<length (pages p)}"
    using pager_ok_length [OF assms] by (auto simp: inj_on_def as_u32_eq)
  then have "distinct (map pg_id (pager_iter p))"
    unfolding pager_iter_ids [OF assms] distinct_map by (auto intro: inj_on_subset)
  then show ?thesis by (simp add: data_pages_def distinct_map_filter)
qed

lemma data_pages_get:
  assumes "pager_ok q"
  shows "p \<in> set (map pg_id (data_pages q)) \<longleftrightarrow> (\<exists>pg. pager_get q p = Some pg \<and> pg_kind pg = PkData)"
proof -
  have get: "pg \<in> set (pager_iter q) \<longleftrightarrow> pager_get q (pg_id pg) = Some pg" for pg
    unfolding pager_iter_mem [OF assms] using pager_ok_id [OF assms] by blast
  have "p \<in> set (map pg_id (data_pages q)) \<longleftrightarrow> (\<exists>pg. pager_get q (pg_id pg) = Some pg \<and> pg_kind pg = PkData \<and> pg_id pg = p)"
    by (auto simp: data_pages_def get)
  then show ?thesis using pager_ok_id [OF assms] by blast
qed

lemma scan_page_mem:
  assumes ok: "db_ok db"
  shows "x \<in> set (scan_page db p) \<and> p \<in> set (map pg_id (data_pages (pager db))) \<longleftrightarrow>
    (\<exists>i. rid_get (rowids db) (row_id x) = Some (p, i)) \<and> table db (row_id x) = Some (row_vals x)"
proof -
  have po: "pager_ok (pager db)" using ok by (auto simp: db_ok_def pages_ok_def)
  show ?thesis
  proof (cases "\<exists>pg. pager_get (pager db) p = Some pg \<and> pg_kind pg = PkData")
    case True
    then obtain pg where pg: "pager_get (pager db) p = Some pg" "pg_kind pg = PkData" by blast
    have "data_page_ok (schema db) pg" using ok pg by (auto simp: db_ok_def intro: pages_okD)
    then obtain b where b: "decode_body (pg_buf pg) = Ok b" by (rule data_page_okE)
    then have row: "page_row pg i = Some (the (page_row pg i))" for i by (simp add: page_row_def)
    have slot: "i \<in> set (live_indices (slots_of pg)) \<and> slot_row (slots_of pg ! i) = r \<longleftrightarrow> rid_get (rowids db) r = Some (p, i)" for i r
      using pg by (auto simp: map_live [OF ok] live_slot_def live_indices_facts slots_of_Some)
    have "x \<in> set (scan_page db p) \<longleftrightarrow> (\<exists>i. rid_get (rowids db) (row_id x) = Some (p, i) \<and> row_vals x = the (page_row pg i))"
    proof -
      have "x \<in> set (scan_page db p) \<longleftrightarrow> (\<exists>i. (i \<in> set (live_indices (slots_of pg)) \<and> slot_row (slots_of pg ! i) = row_id x) \<and>
          row_vals x = the (page_row pg i))"
        unfolding scan_page_rows [OF ok pg] by (cases x) auto
      then show ?thesis unfolding slot .
    qed
    moreover have "p \<in> set (map pg_id (data_pages (pager db)))" using data_pages_get [OF po] True by blast
    moreover have "table db r = Some (the (page_row pg i))" if "rid_get (rowids db) r = Some (p, i)" for r i
      using that pg row by (simp add: table_def)
    ultimately show ?thesis by (metis option.inject)
  next
    case False
    then have "p \<notin> set (map pg_id (data_pages (pager db)))" using data_pages_get [OF po] by blast
    moreover have "rid_get (rowids db) r \<noteq> Some (p, i)" for r i
      using False by (auto simp: map_live [OF ok] live_slot_def)
    ultimately show ?thesis by blast
  qed
qed

definition scan_rows :: "db \<Rightarrow> row list" where
  "scan_rows db = concat (map (scan_page db) (map pg_id (data_pages (pager db))))"

lemma scan_rows_table:
  assumes ok: "db_ok db"
  shows "x \<in> set (scan_rows db) \<longleftrightarrow> table db (row_id x) = Some (row_vals x)"
proof -
  have "x \<in> set (scan_rows db) \<longleftrightarrow> (\<exists>p. x \<in> set (scan_page db p) \<and> p \<in> set (map pg_id (data_pages (pager db))))"
    by (auto simp: scan_rows_def)
  also have "\<dots> \<longleftrightarrow> (\<exists>p i. rid_get (rowids db) (row_id x) = Some (p, i)) \<and> table db (row_id x) = Some (row_vals x)"
    unfolding scan_page_mem [OF ok] by blast
  also have "\<dots> \<longleftrightarrow> table db (row_id x) = Some (row_vals x)"
    by (auto simp: table_def split: option.splits)
  finally show ?thesis .
qed

lemma scan_rows_distinct:
  assumes ok: "db_ok db"
  shows "distinct (map row_id (scan_rows db))"
proof -
  have po: "pager_ok (pager db)" using ok by (auto simp: db_ok_def pages_ok_def)
  have one: "distinct (map row_id (scan_page db p))" if p: "p \<in> set (map pg_id (data_pages (pager db)))" for p
  proof -
    obtain pg where pg: "pager_get (pager db) p = Some pg" "pg_kind pg = PkData" using p data_pages_get [OF po] by blast
    have "map row_id (scan_page db p) = map slot_row (filter slot_live (slots_of pg))"
      by (simp add: scan_page_rows [OF ok pg] filter_live_slots)
    then show ?thesis using live_rows_distinct [OF ok pg] by simp
  qed
  have at: "\<exists>i. rid_get (rowids db) r = Some (p, i)"
    if "r \<in> row_id ` set (scan_page db p)" "p \<in> set (map pg_id (data_pages (pager db)))" for r p
    using that scan_page_mem [OF ok] by blast
  have "distinct (concat (map (map row_id) (map (scan_page db) ps)))"
    if "distinct ps" "set ps \<subseteq> set (map pg_id (data_pages (pager db)))" for ps
    using that
  proof (induction ps)
    case (Cons p ps)
    have "row_id ` set (scan_page db p) \<inter> row_id ` set (scan_page db p') = {}" if "p' \<in> set ps" for p'
    proof (rule ccontr)
      assume "row_id ` set (scan_page db p) \<inter> row_id ` set (scan_page db p') \<noteq> {}"
      then obtain r where "r \<in> row_id ` set (scan_page db p)" "r \<in> row_id ` set (scan_page db p')" by blast
      moreover have "p \<in> set (map pg_id (data_pages (pager db)))" "p' \<in> set (map pg_id (data_pages (pager db)))"
        using Cons.prems(2) that by auto
      ultimately obtain i j where "rid_get (rowids db) r = Some (p, i)" "rid_get (rowids db) r = Some (p', j)"
        using at by blast
      then show False using Cons.prems(1) that by simp
    qed
    then have "set (map row_id (scan_page db p)) \<inter> set (concat (map (map row_id) (map (scan_page db) ps))) = {}"
      by (auto simp del: Int_iff simp: Int_UN_distrib)
    moreover have "distinct (map row_id (scan_page db p))" using one [of p] Cons.prems(2) by simp
    moreover have "distinct (concat (map (map row_id) (map (scan_page db) ps)))" using Cons.IH Cons.prems by simp
    ultimately show ?case by (simp only: list.map concat.simps distinct_append simp_thms)
  qed simp
  from this [OF data_page_ids_distinct [OF po] subset_refl] show ?thesis by (simp add: scan_rows_def map_concat)
qed

lemma scan_all_rows: "scan_all db = (scan_rows db, count_scan db)"
proof -
  have "scan_page (count_scan db) p = scan_page db p" for p by (simp add: scan_page_def count_scan_def cong: option.case_cong)
  then have "scan_page (count_scan db) = scan_page db" by (rule ext)
  then show ?thesis by (simp add: scan_all_def scan_rows_def Let_def)
qed

section \<open>Filtered scans\<close>

lemma point_lookup_table:
  assumes ok: "db_ok db"
  shows "point_lookup db r = Ok (case table_row db r of None \<Rightarrow> [] | Some x \<Rightarrow> [x])"
proof (cases "rid_contains (rowids db) r")
  case False
  then have "rid_get (rowids db) r = None" by (cases "rid_get (rowids db) r") (auto simp: rid_contains_def rid_get_def)
  then have "table_row db r = None" by (simp add: table_row_def table_def)
  then show ?thesis using False by (simp add: point_lookup_def)
qed (simp add: point_lookup_def materialize_table [OF ok])

lemma scan_where_point:
  "db_ok db \<Longrightarrow> scan_where 0 OpEq (VInt r) db = (Ok (case table_row db r of None \<Rightarrow> [] | Some x \<Rightarrow> [x]), count_scan db)"
  using point_lookup_table [of "count_scan db" r] by (simp add: scan_where_def row_id_index_def Let_def)

lemma collect_matching_scan:
  assumes "col < length (schema db)" and "index_path db col op t = None"
  shows "collect_matching db col op t = Ok (scan_matching db col op t)"
  using assms nth_opt_Some [of "schema db" col "schema db ! col"]
  by (simp add: collect_matching_def del: nth_opt_Some)

lemma scan_where_scan:
  assumes ok: "db_ok db" and col: "col < length (schema db)" and no: "\<not> has_index db col"
    and pt: "col \<noteq> 0 \<or> op \<noteq> OpEq \<or> as_int t = None"
  shows "\<exists>rows. scan_where col op t db = (Ok rows, count_scan db) \<and>
    (\<forall>x. x \<in> set rows \<longleftrightarrow> table db (row_id x) = Some (row_vals x) \<and> cmp_apply op (row_vals x ! col) t)"
proof -
  let ?db = "count_scan db"
  let ?rows = "List.map_filter (materialize_row_safe ?db) (scan_matching ?db col op t)"
  have nc: "nth_opt (schema ?db) col = Some (schema db ! col)" using col by simp
  then have "index_page (schema db ! col) = None" using no by (simp add: has_index_def del: nth_opt_Some)
  then have "index_path ?db col op t = None" using nc by (simp add: index_path_def del: nth_opt_Some)
  then have c: "collect_matching ?db col op t = Ok (scan_matching ?db col op t)"
    using col by (intro collect_matching_scan) simp_all
  have "has_index ?db col = has_index db col" by (simp add: has_index_def)
  then have "scan_where col op t db = (Ok ?rows, ?db)" using no pt c by (auto simp: scan_where_def row_id_index_def Let_def)
  moreover have "x \<in> set ?rows \<longleftrightarrow> table db (row_id x) = Some (row_vals x) \<and> cmp_apply op (row_vals x ! col) t" for x
  proof -
    have "x \<in> set ?rows \<longleftrightarrow> (\<exists>r \<in> set (scan_matching ?db col op t). table_row db r = Some x)"
      using materialize_table(1) [of ?db] ok by (auto simp: List.map_filter_def image_iff)
    also have "\<dots> \<longleftrightarrow> (\<exists>r. (\<exists>row. table db r = Some row \<and> cmp_apply op (row ! col) t) \<and> table_row db r = Some x)"
      using scan_matching_table [of ?db col op t] ok col by auto
    also have "\<dots> \<longleftrightarrow> table db (row_id x) = Some (row_vals x) \<and> cmp_apply op (row_vals x ! col) t"
      by (cases x) (auto simp: table_row_def)
    finally show ?thesis .
  qed
  ultimately show ?thesis by blast
qed

section \<open>Join and aggregate\<close>

lemma windows2_nth: "(a, b) \<in> set (windows2 xs) \<longleftrightarrow> (\<exists>i. Suc i < length xs \<and> a = xs ! i \<and> b = xs ! Suc i)"
proof (induction xs rule: windows2.induct)
  case (1 x y r)
  show ?case
  proof
    assume "(a, b) \<in> set (windows2 (x # y # r))"
    then consider "a = x" "b = y" | "(a, b) \<in> set (windows2 (y # r))" by auto
    then show "\<exists>i. Suc i < length (x # y # r) \<and> a = (x # y # r) ! i \<and> b = (x # y # r) ! Suc i"
    proof cases
      case 1
      then show ?thesis by (intro exI [of _ 0]) simp
    next
      case 2
      then obtain i where "Suc i < length (y # r)" "a = (y # r) ! i" "b = (y # r) ! Suc i" using "1.IH" by blast
      then show ?thesis by (intro exI [of _ "Suc i"]) simp
    qed
  next
    assume "\<exists>i. Suc i < length (x # y # r) \<and> a = (x # y # r) ! i \<and> b = (x # y # r) ! Suc i"
    then obtain i where i: "Suc i < length (x # y # r)" "a = (x # y # r) ! i" "b = (x # y # r) ! Suc i" by blast
    show "(a, b) \<in> set (windows2 (x # y # r))"
    proof (cases i)
      case (Suc j)
      then have "Suc j < length (y # r) \<and> a = (y # r) ! j \<and> b = (y # r) ! Suc j" using i by simp
      then show ?thesis using "1.IH" by auto
    qed (use i in simp)
  qed
qed simp_all

text \<open>Neighbours in a strictly sorted list are the pairs with nothing in between.\<close>

lemma sorted_neighbours:
  fixes f :: "'a \<Rightarrow> 'k::linorder"
  assumes s: "sorted (map f xs)" and d: "distinct (map f xs)"
  shows "(a, b) \<in> set (windows2 xs) \<longleftrightarrow> a \<in> set xs \<and> b \<in> set xs \<and> f a < f b \<and> \<not> (\<exists>c \<in> set xs. f a < f c \<and> f c < f b)"
proof -
  have less: "f (xs ! i) < f (xs ! j) \<longleftrightarrow> i < j" if "i < length xs" "j < length xs" for i j
  proof -
    have "f (xs ! i) < f (xs ! j)" if "i < j" "j < length xs" for i j
      using sorted_nth_mono [OF s, of i j] nth_eq_iff_index_eq [OF d, of i j] that by (simp add: less_le)
    then show ?thesis using that by (metis not_less_iff_gr_or_eq)
  qed
  show ?thesis
  proof
    assume "(a, b) \<in> set (windows2 xs)"
    then obtain i where i: "Suc i < length xs" "a = xs ! i" "b = xs ! Suc i" unfolding windows2_nth by blast
    have "\<not> (f a < f c \<and> f c < f b)" if c: "c \<in> set xs" for c
    proof -
      obtain k where "k < length xs" "c = xs ! k" using c by (auto simp: in_set_conv_nth)
      then show ?thesis using less [of i k] less [of k "Suc i"] i by auto
    qed
    then show "a \<in> set xs \<and> b \<in> set xs \<and> f a < f b \<and> \<not> (\<exists>c \<in> set xs. f a < f c \<and> f c < f b)"
      using i less [of i "Suc i"] by auto
  next
    assume ab: "a \<in> set xs \<and> b \<in> set xs \<and> f a < f b \<and> \<not> (\<exists>c \<in> set xs. f a < f c \<and> f c < f b)"
    then obtain i j where ij: "i < length xs" "a = xs ! i" "j < length xs" "b = xs ! j" by (auto simp: in_set_conv_nth)
    then have "i < j" using ab less by auto
    moreover have "\<not> Suc i < j"
    proof
      assume "Suc i < j"
      then have "f a < f (xs ! Suc i) \<and> f (xs ! Suc i) < f b" "xs ! Suc i \<in> set xs"
        using less [of i "Suc i"] less [of "Suc i" j] ij by auto
      then show False using ab by blast
    qed
    ultimately have "j = Suc i" by simp
    then show "(a, b) \<in> set (windows2 xs)" unfolding windows2_nth using ij by (intro exI [of _ i]) simp
  qed
qed

lemma merge_join_pairs:
  assumes ok: "db_ok db"
  shows "(a, b) \<in> set (fst (merge_join db)) \<longleftrightarrow>
    table db (row_id a) = Some (row_vals a) \<and> table db (row_id b) = Some (row_vals b) \<and> row_id a < row_id b \<and>
    \<not> (\<exists>r. r \<in> dom (table db) \<and> row_id a < r \<and> r < row_id b) \<and>
    opt_val_eq (nth_opt (row_vals a) 1) (nth_opt (row_vals b) 1)"
proof -
  let ?xs = "sort_key row_id (scan_rows db)"
  have "distinct (map row_id ?xs)"
    using scan_rows_distinct [OF ok] by (metis distinct_map distinct_sort set_sort)
  then have n: "(a, b) \<in> set (windows2 ?xs) \<longleftrightarrow> a \<in> set (scan_rows db) \<and> b \<in> set (scan_rows db) \<and> row_id a < row_id b \<and>
      \<not> (\<exists>c \<in> set (scan_rows db). row_id a < row_id c \<and> row_id c < row_id b)"
    using sorted_neighbours [of row_id ?xs a b] by simp
  have "(\<exists>c \<in> set (scan_rows db). row_id a < row_id c \<and> row_id c < row_id b) \<longleftrightarrow>
      (\<exists>r. r \<in> dom (table db) \<and> row_id a < r \<and> r < row_id b)"
  proof
    assume "\<exists>r. r \<in> dom (table db) \<and> row_id a < r \<and> r < row_id b"
    then obtain r vs where "table db r = Some vs" "row_id a < r" "r < row_id b" by auto
    then show "\<exists>c \<in> set (scan_rows db). row_id a < row_id c \<and> row_id c < row_id b"
      using scan_rows_table [OF ok, of "\<lparr>row_id = r, row_vals = vs\<rparr>"] by (intro bexI [of _ "\<lparr>row_id = r, row_vals = vs\<rparr>"]) simp_all
  next
    assume "\<exists>c \<in> set (scan_rows db). row_id a < row_id c \<and> row_id c < row_id b"
    then obtain c where "c \<in> set (scan_rows db)" "row_id a < row_id c" "row_id c < row_id b" by blast
    moreover from this have "table db (row_id c) = Some (row_vals c)" using scan_rows_table [OF ok] by blast
    ultimately show "\<exists>r. r \<in> dom (table db) \<and> row_id a < r \<and> r < row_id b" by (intro exI [of _ "row_id c"]) auto
  qed
  then show ?thesis using n scan_rows_table [OF ok]
    by (auto simp: merge_join_def scan_all_rows)
qed

text \<open>The non-null values of a column, in scan order.\<close>

definition column_vals :: "nat \<Rightarrow> row list \<Rightarrow> val list" where
  "column_vals col rows = filter (\<lambda>v. \<not> is_null v) (map (\<lambda>r. nth_or_null (row_vals r) col) rows)"

definition int_part :: "val \<Rightarrow> int" where
  "int_part v = (case as_int v of None \<Rightarrow> 0 | Some i \<Rightarrow> sint i)"

definition agg_of :: "val list \<Rightarrow> agg \<Rightarrow> bool" where
  "agg_of vs a \<longleftrightarrow> agg_count a = of_nat (length vs) \<and> agg_sum a = sum_list (map int_part vs) \<and>
     (case agg_min a of None \<Rightarrow> vs = [] | Some m \<Rightarrow> m \<in> set vs \<and> (\<forall>v \<in> set vs. total_cmp m v \<noteq> Greater)) \<and>
     (case agg_max a of None \<Rightarrow> vs = [] | Some m \<Rightarrow> m \<in> set vs \<and> (\<forall>v \<in> set vs. total_cmp v m \<noteq> Greater))"

lemma keep_min_least:
  assumes "m \<in> set vs" "\<forall>v \<in> set vs. total_cmp m v \<noteq> Greater" "\<forall>v \<in> set vs. kind v = kind w"
  shows "total_cmp (keep_min (Some m) w) w \<noteq> Greater \<and> (\<forall>v \<in> set vs. total_cmp (keep_min (Some m) w) v \<noteq> Greater)"
proof (cases "total_cmp w m = Less")
  case True
  then have "\<forall>v \<in> set vs. total_cmp w v \<noteq> Greater"
    using assms total_cmp_trans [of w m] by (metis ordering.distinct(3))
  then show ?thesis using True by (simp add: keep_min_def)
next
  case False
  then have "total_cmp m w \<noteq> Greater" by (simp add: total_cmp_Greater_iff)
  then show ?thesis using False assms by (simp add: keep_min_def)
qed

lemma keep_max_greatest:
  assumes "m \<in> set vs" "\<forall>v \<in> set vs. total_cmp v m \<noteq> Greater" "\<forall>v \<in> set vs. kind v = kind w"
  shows "total_cmp w (keep_max (Some m) w) \<noteq> Greater \<and> (\<forall>v \<in> set vs. total_cmp v (keep_max (Some m) w) \<noteq> Greater)"
proof (cases "total_cmp w m = Greater")
  case True
  then have "total_cmp m w \<noteq> Greater" by (subst total_cmp_flip) simp
  then have "\<forall>v \<in> set vs. total_cmp v w \<noteq> Greater" using assms total_cmp_trans by metis
  then show ?thesis using True by (simp add: keep_max_def)
next
  case False
  then show ?thesis using assms by (simp add: keep_max_def)
qed

lemma agg_of_rows:
  assumes "\<forall>v \<in> set (column_vals col rows). kind v = k"
  shows "agg_of (column_vals col rows) (foldl (agg_step col) agg_new rows)"
  using assms
proof (induction rows rule: rev_induct)
  case Nil
  then show ?case by (simp add: agg_of_def agg_new_def column_vals_def)
next
  case (snoc r rows)
  let ?v = "nth_or_null (row_vals r) col" and ?a = "foldl (agg_step col) agg_new rows" and ?vs = "column_vals col rows"
  have IH: "agg_of ?vs ?a" using snoc by (simp add: column_vals_def)
  show ?case
  proof (cases "is_null ?v")
    case True
    then have "agg_step col ?a r = ?a" "column_vals col (rows @ [r]) = ?vs"
      by (simp_all add: column_vals_def agg_step_def Let_def)
    then show ?thesis using IH by simp
  next
    case False
    have vs: "column_vals col (rows @ [r]) = ?vs @ [?v]" using False by (simp add: column_vals_def)
    have k: "\<forall>v \<in> set ?vs. kind v = kind ?v" using snoc.prems by (simp add: vs)
    have a: "foldl (agg_step col) agg_new (rows @ [r]) = \<lparr>agg_count = agg_count ?a + 1, agg_sum = agg_sum ?a + int_part ?v,
        agg_min = Some (keep_min (agg_min ?a) ?v), agg_max = Some (keep_max (agg_max ?a) ?v)\<rparr>"
      using False by (simp add: agg_step_def Let_def int_part_def)
    have mn: "keep_min (agg_min ?a) ?v \<in> set (?vs @ [?v]) \<and> (\<forall>v \<in> set (?vs @ [?v]). total_cmp (keep_min (agg_min ?a) ?v) v \<noteq> Greater)"
    proof (cases "agg_min ?a")
      case None
      then show ?thesis using IH by (simp add: keep_min_def agg_of_def)
    next
      case (Some m)
      then have "m \<in> set ?vs" "\<forall>v \<in> set ?vs. total_cmp m v \<noteq> Greater" using IH by (simp_all add: agg_of_def)
      then show ?thesis using keep_min_least [OF _ _ k] Some by (auto simp: keep_min_def)
    qed
    have mx: "keep_max (agg_max ?a) ?v \<in> set (?vs @ [?v]) \<and> (\<forall>v \<in> set (?vs @ [?v]). total_cmp v (keep_max (agg_max ?a) ?v) \<noteq> Greater)"
    proof (cases "agg_max ?a")
      case None
      then show ?thesis using IH by (simp add: keep_max_def agg_of_def)
    next
      case (Some m)
      then have "m \<in> set ?vs" "\<forall>v \<in> set ?vs. total_cmp v m \<noteq> Greater" using IH by (simp_all add: agg_of_def)
      then show ?thesis using keep_max_greatest [OF _ _ k] Some by (auto simp: keep_max_def)
    qed
    show ?thesis using IH mn mx unfolding a vs by (simp add: agg_of_def)
  qed
qed

end
