(* ===== verification/Containers.thy ===== *)
theory Containers
  imports Databases
begin

text \<open>
  The \<open>.sht\<close> container (\<open>src/src/format.rs\<close>): the directory and its checksums, the records of a
  database and their decoding. The address at which an allocation lives is a parameter of the
  encoder, because an index record stores pointer differences. The capacity a decoder reserves for
  a declared count is not modelled.
\<close>

definition magic :: "u8 list" where
  "magic = str ''SCHIST1'' @ [1]"

definition version :: u32 where
  "version = 1"

record dir_entry =
  dir_kind :: u8
  dir_id :: u32
  dir_off :: u32
  dir_len :: u32
  dir_sum :: u32

definition checksum :: "u8 list \<Rightarrow> u32" where
  "checksum = foldl (\<lambda>s b. s * 0x01000193 + ucast b) 0x811c9dc5"

section \<open>Encoding\<close>

text \<open>A record before layout: its kind, its id and its body.\<close>

type_synonym rec_entry = "u8 \<times> u32 \<times> u8 list"

text \<open>The directory of the records; the running offset is a \<open>u32\<close>.\<close>

fun dir_of :: "u32 \<Rightarrow> rec_entry list \<Rightarrow> dir_entry list result" where
  "dir_of off [] = Ok []"
| "dir_of off ((k, i, body) # es) =
     (let len = as_u32 (length body) in
      if 2 ^ 32 \<le> unat off + unat len then Panic
      else rbind (dir_of (off + len) es) (\<lambda>ds.
        Ok (\<lparr>dir_kind = k, dir_id = i, dir_off = off, dir_len = len, dir_sum = checksum body\<rparr> # ds)))"

definition encode_dir :: "dir_entry \<Rightarrow> u8 list" where
  "encode_dir e = [dir_kind e] @ u32_le (dir_id e) @ u32_le (dir_off e) @ u32_le (dir_len e) @ u32_le (dir_sum e)"

definition layout :: "rec_entry list \<Rightarrow> u8 list result" where
  "layout es = rbind (dir_of 0 es) (\<lambda>ds.
     Ok (magic @ u32_le version @ len_le (length es) @ concat (map encode_dir ds) @
       concat (map (\<lambda>(_, _, body). body) es)))"

text \<open>The stored offset of a cached pointer: its address less that of the page, saturating.\<close>

definition ptr_addr :: "(nat \<Rightarrow> nat) \<Rightarrow> ptr \<Rightarrow> nat" where
  "ptr_addr addr p = (case p of NullPtr \<Rightarrow> 0 | Ptr a off \<Rightarrow> addr a + off)"

definition encode_index_entry :: "(nat \<Rightarrow> nat) \<Rightarrow> pager \<Rightarrow> u32 \<Rightarrow> index_entry \<Rightarrow> u8 list" where
  "encode_index_entry addr p pid e = u32_le (ie_value e) @ u64_le (ie_gen e) @
     (case pager_get p pid of Some pg \<Rightarrow> len_le (ptr_addr addr (ie_ptr e) - addr (pg_alloc pg)) | None \<Rightarrow> u32_le 0) @
     len_le (length (ie_rows e)) @ concat (map u64_le (ie_rows e))"

definition encode_index :: "(nat \<Rightarrow> nat) \<Rightarrow> index_cache \<Rightarrow> pager \<Rightarrow> u8 list" where
  "encode_index addr idx p = u32_le (ic_dict idx) @ len_le (length (ic_entries idx)) @
     concat (map (encode_index_entry addr p (ic_dict idx)) (ic_entries idx))"

definition dict_records :: "db \<Rightarrow> rec_entry list" where
  "dict_records db = List.map_filter (\<lambda>c. case dict_page c of None \<Rightarrow> None
     | Some pid \<Rightarrow> map_option (\<lambda>pg. (2, pid, pg_buf pg)) (pager_get (pager db) pid)) (schema db)"

definition data_record :: "page \<Rightarrow> rec_entry" where
  "data_record pg = (1, pg_id pg, len_le (length (pg_buf pg)) @ pg_buf pg @
     (case pg_slots pg of None \<Rightarrow> [] | Some d \<Rightarrow> encode_slots d))"

definition index_records :: "(nat \<Rightarrow> nat) \<Rightarrow> db \<Rightarrow> rec_entry list" where
  "index_records addr db = List.map_filter (\<lambda>(ci, idx). map_option (\<lambda>idx.
     (3, as_u32 ci, encode_index addr idx (pager db))) idx) (enumerate 0 (indexes db))"

definition encode_zones :: "zone_map list \<Rightarrow> u8 list" where
  "encode_zones zms = len_le (length zms) @
     concat (map (\<lambda>zm. len_le (length (zonemap_encode zm)) @ zonemap_encode zm) zms)"

definition records_of :: "(nat \<Rightarrow> nat) \<Rightarrow> db \<Rightarrow> rec_entry list" where
  "records_of addr db = [(0, 0, schema_encode (schema db))] @ dict_records db @
     map data_record (data_pages (pager db)) @ index_records addr db @
     [(4, 0, fsm_encode (fsm db)), (5, 0, rowid_encode (rowids db)), (6, 0, encode_zones (zone_maps db)),
      (0xfe, 0, u64_le (next_row_id db))]"

definition encode_database :: "(nat \<Rightarrow> nat) \<Rightarrow> db \<Rightarrow> u8 list result" where
  "encode_database addr db = layout (records_of addr db)"

section \<open>Decoding the directory\<close>

definition read_dir :: "u8 list \<Rightarrow> nat \<Rightarrow> dir_entry result" where
  "read_dir buf base = rbind (index_at buf base) (\<lambda>k. rbind (read_u32 buf (base + 1)) (\<lambda>i.
     rbind (read_u32 buf (base + 5)) (\<lambda>off. rbind (read_u32 buf (base + 9)) (\<lambda>len.
     rbind (read_u32 buf (base + 13)) (\<lambda>cs.
       Ok \<lparr>dir_kind = k, dir_id = i, dir_off = off, dir_len = len, dir_sum = cs\<rparr>)))))"

text \<open>The first pass: every body with its checksum verified.\<close>

definition body_of :: "u8 list \<Rightarrow> nat \<Rightarrow> dir_entry \<Rightarrow> u8 list result" where
  "body_of data start e = (let a = start + unat (dir_off e); b = a + unat (dir_len e) in
     if length data < b then Err (Decode Truncated)
     else rbind (slice data a b) (\<lambda>body.
       if checksum body \<noteq> dir_sum e then Err (Decode (BadChecksum (dir_id e))) else Ok body))"

fun bodies_of :: "u8 list \<Rightarrow> nat \<Rightarrow> dir_entry list \<Rightarrow> rec_entry list result" where
  "bodies_of data start [] = Ok []"
| "bodies_of data start (e # es) = rbind (body_of data start e) (\<lambda>body.
     rbind (bodies_of data start es) (\<lambda>bs. Ok ((dir_kind e, dir_id e, body) # bs)))"

definition read_container :: "u8 list \<Rightarrow> rec_entry list result" where
  "read_container data =
     (if length data < 8 + 4 + 4 then Err (Decode Truncated)
      else if take 8 data \<noteq> magic then Err (Decode BadMagic)
      else rbind (read_u32 data 8) (\<lambda>v.
        if v \<noteq> version then Err (Decode (UnsupportedVersion v))
        else rbind (read_u32 data 12) (\<lambda>n.
          if length data < 16 + unat n * 17 then Err (Decode Truncated)
          else rbind (scan_records 17 read_dir (\<lambda>ds d. ds @ [d]) (\<lambda>_. Panic) (unat n) data 16 [])
            (\<lambda>(ds, start). bodies_of data start ds))))"

section \<open>Decoding the records\<close>

record decoded =
  dc_schema :: "schema option"
  dc_next :: u64
  dc_fsm :: fsm
  dc_rowids :: rowid_map
  dc_zones :: "zone_map list"
  dc_pager :: pager
  dc_index :: "(nat \<times> u8 list) list"

definition decoded_new :: decoded where
  "decoded_new = \<lparr>dc_schema = None, dc_next = 1, dc_fsm = fsm_new, dc_rowids = [], dc_zones = [],
     dc_pager = pager_new, dc_index = []\<rparr>"

fun zones_loop :: "nat \<Rightarrow> u8 list \<Rightarrow> nat \<Rightarrow> zone_map list \<Rightarrow> zone_map list result" where
  "zones_loop 0 body pos zs = Ok zs"
| "zones_loop (Suc n) body pos zs =
     (if length body < pos + 4 then Ok zs
      else rbind (read_u32 body pos) (\<lambda>l. let pos = pos + 4 in
        if length body < pos + unat l then Ok zs
        else rbind (slice body pos (pos + unat l)) (\<lambda>z.
          rbind (zonemap_decode z) (\<lambda>m. zones_loop n body (pos + unat l) (zs @ [m])))))"

definition alloc_page :: "page_kind \<Rightarrow> u8 list \<Rightarrow> slot_entry list option \<Rightarrow> decoded \<Rightarrow> decoded result" where
  "alloc_page k buf slots d = (case pager_alloc k buf (dc_pager d) of
       (Ok pid, p) \<Rightarrow> Ok (d\<lparr>dc_pager := (case slots of None \<Rightarrow> p
          | Some ss \<Rightarrow> pager_modify pid (\<lambda>pg. pg\<lparr>pg_slots := Some ss\<rparr>) p)\<rparr>)
     | (Err e, p) \<Rightarrow> Err e | (Panic, p) \<Rightarrow> Panic | (Undef, p) \<Rightarrow> Undef)"

definition decode_data_record :: "u8 list \<Rightarrow> decoded \<Rightarrow> decoded result" where
  "decode_data_record body d =
     (if length body < 4 then Err (Decode Truncated)
      else rbind (read_u32 body 0) (\<lambda>n.
        if length body < 4 + unat n then Err (Decode Truncated)
        else rbind (slice body 4 (4 + unat n)) (\<lambda>chunk.
          rbind (decode_slots (drop (4 + unat n) body)) (\<lambda>slots. alloc_page PkData chunk (Some slots) d))))"

definition decode_zone_record :: "u8 list \<Rightarrow> decoded \<Rightarrow> decoded result" where
  "decode_zone_record body d =
     (if dc_schema d = None \<or> length body < 4 then Ok d
      else rbind (read_u32 body 0) (\<lambda>n. rbind (zones_loop (unat n) body 4 (dc_zones d)) (\<lambda>zs.
        Ok (d\<lparr>dc_zones := zs\<rparr>))))"

definition decode_record :: "rec_entry \<Rightarrow> decoded \<Rightarrow> decoded result" where
  "decode_record e d = (case e of (k, i, body) \<Rightarrow>
     if k = 0 then rbind (schema_decode body) (\<lambda>s. Ok (d\<lparr>dc_schema := Some s\<rparr>))
     else if k = 0xfe then
       (if length body < 8 then Ok d else rbind (read_u64 body 0) (\<lambda>n. Ok (d\<lparr>dc_next := n\<rparr>)))
     else if k = 2 then alloc_page PkDict body None d
     else if k = 1 then decode_data_record body d
     else if k = 3 then Ok (d\<lparr>dc_index := dc_index d @ [(unat i, body)]\<rparr>)
     else if k = 4 then rbind (fsm_decode body) (\<lambda>f. Ok (d\<lparr>dc_fsm := f\<rparr>))
     else if k = 5 then rbind (rowid_decode body) (\<lambda>m. Ok (d\<lparr>dc_rowids := m\<rparr>))
     else if k = 6 then decode_zone_record body d
     else Ok d)"

fun decode_records :: "rec_entry list \<Rightarrow> decoded \<Rightarrow> decoded result" where
  "decode_records [] d = Ok d"
| "decode_records (e # es) d = rbind (decode_record e d) (decode_records es)"

section \<open>The caches\<close>

fun index_loop :: "pager \<Rightarrow> u32 \<Rightarrow> nat \<Rightarrow> u8 list \<Rightarrow> nat \<Rightarrow> index_entry list \<Rightarrow> index_entry list result" where
  "index_loop p pid 0 body pos acc = Ok acc"
| "index_loop p pid (Suc n) body pos acc =
     (if length body < pos + 20 then Ok acc
      else rbind (read_u32 body pos) (\<lambda>v. rbind (read_u64 body (pos + 4)) (\<lambda>g.
        rbind (read_u32 body (pos + 12)) (\<lambda>off. rbind (read_u32 body (pos + 16)) (\<lambda>rc.
        rbind (scan_records 8 read_u64 (\<lambda>rs r. rs @ [r]) Ok (unat rc) body (pos + 20) []) (\<lambda>(rows, pos).
        rbind (case pager_get p pid of None \<Rightarrow> Ok NullPtr | Some pg \<Rightarrow> capture_ptr pg (unat off)) (\<lambda>ptr.
          index_loop p pid n body pos
            (acc @ [\<lparr>ie_value = v, ie_ptr = ptr, ie_gen = g, ie_rows = rows\<rparr>]))))))))"

text \<open>Every decoded cache is given the name of the first column.\<close>

definition decode_index :: "u8 list \<Rightarrow> db \<Rightarrow> index_cache result" where
  "decode_index body db =
     (if length body < 8 then Ok (index_empty [])
      else rbind (read_u32 body 0) (\<lambda>pid. rbind (read_u32 body 4) (\<lambda>n.
        let column = (case schema db of [] \<Rightarrow> [] | c # _ \<Rightarrow> col_name c) in
        rbind (index_loop (pager db) pid (unat n) body 8 []) (\<lambda>es.
          Ok ((index_with_dict column pid)\<lparr>ic_entries := es\<rparr>)))))"

fun build_indexes :: "(nat \<times> u8 list) list \<Rightarrow> db \<Rightarrow> db result" where
  "build_indexes [] db = Ok db"
| "build_indexes ((ci, body) # rest) db = rbind (decode_index body db) (\<lambda>idx.
     build_indexes rest (if ci < length (indexes db) then db\<lparr>indexes := (indexes db)[ci := Some idx]\<rparr> else db))"

definition build_dict :: "nat \<Rightarrow> column \<Rightarrow> db \<Rightarrow> db result" where
  "build_dict ci c db = (case dict_page c of None \<Rightarrow> Ok db
     | Some pid \<Rightarrow> (case pager_get (pager db) pid of None \<Rightarrow> Ok db
     | Some pg \<Rightarrow> rbind (res_ok (dict_from_page pid (pg_buf pg) (pg_gen pg))) (\<lambda>d. case d of
         None \<Rightarrow> Ok db
       | Some d \<Rightarrow> if ci < length (dicts db) then Ok (db\<lparr>dicts := (dicts db)[ci := Some d]\<rparr>) else Panic)))"

fun build_dicts :: "nat \<Rightarrow> column list \<Rightarrow> db \<Rightarrow> db result" where
  "build_dicts ci [] db = Ok db"
| "build_dicts ci (c # cs) db = rbind (build_dict ci c db) (build_dicts (Suc ci) cs)"

definition assemble :: "decoded \<Rightarrow> db result" where
  "assemble d = rbind (ok_or (dc_schema d) (Decode BadSchema)) (\<lambda>s.
     let zs = dc_zones d @ replicate (arity s - length (dc_zones d)) [];
         db = (database_new s)\<lparr>pager := dc_pager d, fsm := dc_fsm d, rowids := dc_rowids d,
            zone_maps := zs, next_row_id := dc_next d\<rparr> in
     rbind (build_indexes (dc_index d) db) (\<lambda>db. build_dicts 0 (schema db) db))"

definition decode :: "u8 list \<Rightarrow> db result" where
  "decode data = rbind (read_container data) (\<lambda>es. rbind (decode_records es decoded_new) assemble)"

section \<open>The layout round trip\<close>

interpretation dir_rec: record_codec 17 "\<lambda>_. True" encode_dir read_dir
proof
  fix e :: dir_entry and pos buf post
  show "length (encode_dir e) = 17" by (simp add: encode_dir_def)
  assume d: "drop pos buf = encode_dir e @ post"
  have d0: "drop pos buf = [dir_kind e] @ (u32_le (dir_id e) @ u32_le (dir_off e) @ u32_le (dir_len e) @
      u32_le (dir_sum e) @ post)"
    using d by (simp add: encode_dir_def)
  have d1: "drop (pos + 1) buf = u32_le (dir_id e) @ (u32_le (dir_off e) @ u32_le (dir_len e) @ u32_le (dir_sum e) @ post)"
    using drop_advance [OF d0] by simp
  have d2: "drop (pos + 5) buf = u32_le (dir_off e) @ (u32_le (dir_len e) @ u32_le (dir_sum e) @ post)"
    using drop_advance [OF d1] by (simp add: add.commute)
  have d3: "drop (pos + 9) buf = u32_le (dir_len e) @ (u32_le (dir_sum e) @ post)"
    using drop_advance [OF d2] by (simp add: add.assoc)
  have d4: "drop (pos + 13) buf = u32_le (dir_sum e) @ post"
    using drop_advance [OF d3] by (simp add: add.assoc)
  have k: "index_at buf pos = (Ok (dir_kind e) :: u8 result)"
    using d0 drop_some_less [of pos buf] drop_hd_nth [of pos buf] by (simp add: index_at_def)
  show "read_dir buf pos = Ok e"
    using k read_u32_view [OF d1, where 'a = error] read_u32_view [OF d2, where 'a = error]
      read_u32_view [OF d3, where 'a = error] read_u32_view [OF d4, where 'a = error]
    by (simp add: read_dir_def)
next
  fix pos and buf :: "u8 list"
  assume "pos + 17 \<le> length buf"
  then show "\<exists>e. read_dir buf pos = Ok e"
    by (simp add: read_dir_def read_u32_eq index_at_def)
qed simp

definition rec_body :: "rec_entry \<Rightarrow> u8 list" where
  "rec_body e = snd (snd e)"

lemma rec_body_simp [simp]: "rec_body (k, i, body) = body"
  by (simp add: rec_body_def)

definition total_len :: "rec_entry list \<Rightarrow> nat" where
  "total_len es = sum_list (map (\<lambda>e. length (rec_body e)) es)"

lemma total_len_simps [simp]: "total_len [] = 0" "total_len (e # es) = length (rec_body e) + total_len es"
  by (simp_all add: total_len_def)

lemma total_len_concat: "length (concat (map rec_body es)) = total_len es"
  by (induction es) simp_all

lemma dir_of_ok:
  assumes "unat off + total_len es < 2 ^ 32"
  shows "\<exists>ds. dir_of off es = Ok ds \<and> length ds = length es"
  using assms
proof (induction es arbitrary: off)
  case (Cons e es)
  obtain k i body where e: "e = (k, i, body)" by (cases e)
  have l: "length body < 2 ^ 32" "unat off + length body < 2 ^ 32" using Cons.prems by (simp_all add: e)
  have "unat (off + as_u32 (length body)) = unat off + length body"
    using l by (simp add: unat_add_lem [THEN iffD1])
  then show ?case using Cons.IH [of "off + as_u32 (length body)"] Cons.prems l
    by (auto simp: e add.assoc Let_def)
qed simp

lemma bodies_of_layout:
  assumes "dir_of off es = Ok ds" and "drop (start + unat off) data = concat (map rec_body es)"
    and "start + unat off + total_len es = length data" and "unat off + total_len es < 2 ^ 32"
  shows "bodies_of data start ds = Ok es"
  using assms
proof (induction es arbitrary: off ds)
  case (Cons e es)
  obtain k i body where e: "e = (k, i, body)" by (cases e)
  have l: "length body < 2 ^ 32" "unat off + length body < 2 ^ 32" using Cons.prems(4) by (simp_all add: e)
  let ?off = "off + as_u32 (length body)"
  have o: "unat ?off = unat off + length body" using l by (simp add: unat_add_lem [THEN iffD1])
  obtain ds' where ds: "ds = \<lparr>dir_kind = k, dir_id = i, dir_off = off, dir_len = as_u32 (length body),
      dir_sum = checksum body\<rparr> # ds'" "dir_of ?off es = Ok ds'"
    using Cons.prems(1) l by (auto simp: e Let_def res_simps)
  have d: "drop (start + unat off) data = body @ concat (map rec_body es)"
    using Cons.prems(2) by (simp add: e)
  have "slice data (start + unat off) (start + unat off + length body) = (Ok body :: u8 list result)"
    using slice_at [OF d] Cons.prems(3) by (simp add: e)
  moreover have "drop (start + unat ?off) data = concat (map rec_body es)"
    using drop_advance [OF d] by (simp add: o add.assoc)
  moreover have "start + unat ?off + total_len es = length data" "unat ?off + total_len es < 2 ^ 32"
    using Cons.prems(3,4) o by (simp_all add: e add.assoc)
  ultimately show ?case
    using Cons.IH [OF ds(2)] Cons.prems(3) l by (simp add: ds(1) body_of_def e Let_def)
qed simp

lemma magic_length [simp]: "length magic = 8"
  by (simp add: magic_def str_def)

lemma read_container_layout:
  assumes n: "length es < 2 ^ 32" and t: "total_len es < 2 ^ 32"
  shows "\<exists>data. layout es = Ok data \<and> read_container data = Ok es"
proof -
  obtain ds where ds: "dir_of 0 es = Ok ds" "length ds = length es" using dir_of_ok [of 0 es] t by auto
  let ?bodies = "concat (map (\<lambda>(_, _, body). body) es)" and ?dir = "concat (map encode_dir ds)"
  let ?data = "magic @ u32_le version @ len_le (length es) @ ?dir @ ?bodies"
  have b: "?bodies = concat (map rec_body es)"
    by (rule arg_cong [where f = concat], rule map_cong) auto
  have dl: "length ?dir = 17 * length es" using dir_rec.table_length [of ds] ds(2) by simp
  have len: "length ?data = 16 + 17 * length es + total_len es"
    by (simp add: b dl total_len_concat)
  have d0: "drop 0 ?data = magic @ (u32_le version @ len_le (length es) @ ?dir @ ?bodies)" by simp
  have d8: "drop 8 ?data = u32_le version @ (len_le (length es) @ ?dir @ ?bodies)"
    using drop_advance [OF d0] by simp
  have d12: "drop 12 ?data = len_le (length es) @ (?dir @ ?bodies)"
    using drop_advance [OF d8] by simp
  have d16: "drop 16 ?data = ?dir @ ?bodies" using drop_advance [OF d12] by simp
  have dB: "drop (16 + 17 * length es + unat (0 :: u32)) ?data = concat (map rec_body es)"
    using drop_advance [OF d16] dl b by simp
  have scan: "scan_records 17 read_dir (\<lambda>ds d. ds @ [d]) (\<lambda>_. Panic) (length es) ?data 16 [] =
      (Ok (ds, 16 + 17 * length es) :: (dir_entry list \<times> nat) result)"
    using dir_rec.scan_table [OF d16, of "\<lambda>ds d. ds @ [d]" "\<lambda>_. Panic" "[]"] ds(2) foldl_snoc [of "[]" ds] by simp
  have bodies: "bodies_of ?data (16 + 17 * length es) ds = Ok es"
    by (rule bodies_of_layout [OF ds(1) dB]) (use len t in simp_all)
  have "take 8 ?data = magic" by simp
  then have "read_container ?data = Ok es"
    using read_u32_view [OF d8, where 'a = error] read_len_view [OF d12, where 'a = error] n scan bodies len
    by (simp add: read_container_def)
  moreover have "layout es = Ok ?data" by (simp add: layout_def ds(1))
  ultimately show ?thesis by blast
qed

end
