(* ===== verification/Verifier.thy ===== *)
theory Verifier
  imports Databases
begin

text \<open>
  The consistency check between decode and the first statement (\<open>src/src/verify.rs\<close>), in the order
  of the code with its first error, and the exact condition under which it passes.
\<close>

text \<open>A loop of checks that stops at the first error.\<close>

fun check_all :: "('a \<Rightarrow> unit result) \<Rightarrow> 'a list \<Rightarrow> unit result" where
  "check_all f [] = Ok ()"
| "check_all f (x # xs) = rbind (f x) (\<lambda>_. check_all f xs)"

definition verify_other :: "rstr list \<Rightarrow> error" where
  "verify_other parts = Verify (VerifyOther (concat parts))"

definition check_column :: "db \<Rightarrow> column \<Rightarrow> unit result" where
  "check_column db c = (case dict_page c of None \<Rightarrow> Ok ()
     | Some pid \<Rightarrow> (case pager_get (pager db) pid of
         Some pg \<Rightarrow> if pg_kind pg = PkDict then Ok ()
           else Err (verify_other [str ''column '', col_name c, str '' dict_page '', show_nat (unat pid),
             str '' is not a dict page''])
       | None \<Rightarrow> Err (Verify (OrphanPage pid))))"

definition check_schema_pages :: "db \<Rightarrow> unit result" where
  "check_schema_pages db = check_all (check_column db) (schema db)"

definition check_slot :: "db \<Rightarrow> u32 \<Rightarrow> nat \<times> slot_entry \<Rightarrow> unit result" where
  "check_slot db pid e = (case e of (i, s) \<Rightarrow>
     if \<not> slot_live s then Ok ()
     else if rid_get (rowids db) (slot_row s) = Some (pid, i) then Ok ()
     else Err (Verify (RowIdBounds (slot_row s))))"

definition check_body :: "page \<Rightarrow> unit result" where
  "check_body pg = (case decode_body (pg_buf pg) of
       Ok b \<Rightarrow> if unat (num_rows b) \<noteq> slot_count pg
         then Err (verify_other [str ''data page '', show_nat (unat (pg_id pg)), str '' has '',
           show_nat (slot_count pg), str '' slots but body declares '', show_nat (unat (num_rows b)), str '' rows''])
         else Ok ()
     | _ \<Rightarrow> Ok ())"

definition check_data_page :: "db \<Rightarrow> page \<Rightarrow> unit result" where
  "check_data_page db pg = rbind (check_body pg) (\<lambda>_. case pg_slots pg of None \<Rightarrow> Ok ()
     | Some d \<Rightarrow> check_all (check_slot db (pg_id pg)) (enumerate 0 d))"

definition check_data_pages :: "db \<Rightarrow> unit result" where
  "check_data_pages db = check_all (check_data_page db) (data_pages (pager db))"

definition check_row :: "db \<Rightarrow> u64 \<Rightarrow> unit result" where
  "check_row db r = (case rid_get (rowids db) r of None \<Rightarrow> Err (Verify (RowIdBounds r))
     | Some (pid, slot) \<Rightarrow> (case pager_get (pager db) pid of None \<Rightarrow> Err (Verify (OrphanPage pid))
     | Some pg \<Rightarrow> if pg_kind pg \<noteq> PkData then Err (Verify (OrphanPage pid))
         else if slot_count pg \<le> slot then Err (Verify (RowIdBounds r)) else Ok ()))"

definition check_rowid_map :: "db \<Rightarrow> unit result" where
  "check_rowid_map db = check_all (check_row db) (row_ids (rowids db))"

definition check_fsm_pages :: "db \<Rightarrow> unit result" where
  "check_fsm_pages db = check_all (\<lambda>(pid, _). if pager_get (pager db) pid = None
     then Err (Verify (OrphanPage pid)) else Ok ()) (space (fsm db))"

definition check_zone :: "db \<Rightarrow> zone \<Rightarrow> unit result" where
  "check_zone db z = (case pager_get (pager db) (z_page z) of
       Some pg \<Rightarrow> if pg_kind pg = PkData then Ok () else Err (Verify (ZoneMapLiveness (z_page z)))
     | None \<Rightarrow> Err (Verify (ZoneMapLiveness (z_page z))))"

definition check_zone_maps :: "db \<Rightarrow> unit result" where
  "check_zone_maps db = check_all (\<lambda>zm. check_all (check_zone db) (zm_iter zm)) (zone_maps db)"

definition check_index_gen :: "index_cache \<Rightarrow> page \<Rightarrow> index_entry \<Rightarrow> unit result" where
  "check_index_gen idx pg e = (if ie_gen e \<noteq> pg_gen pg
     then Err (verify_other [str ''index for '', ic_column idx, str '' has stale generation '', show_nat (unat (ie_gen e)),
       str '' vs dict page gen '', show_nat (unat (pg_gen pg))]) else Ok ())"

definition check_index_gens :: "db \<Rightarrow> unit result" where
  "check_index_gens db = check_all (\<lambda>idx. case idx of None \<Rightarrow> Ok ()
     | Some idx \<Rightarrow> (case pager_get (pager db) (ic_dict idx) of None \<Rightarrow> Ok ()
         | Some pg \<Rightarrow> check_all (check_index_gen idx pg) (ic_entries idx))) (indexes db)"

definition verify :: "db \<Rightarrow> unit result" where
  "verify db = rbind (check_schema_pages db) (\<lambda>_. rbind (check_data_pages db) (\<lambda>_.
     rbind (check_rowid_map db) (\<lambda>_. rbind (check_fsm_pages db) (\<lambda>_.
     rbind (check_zone_maps db) (\<lambda>_. check_index_gens db)))))"

section \<open>What passing means\<close>

definition slots_mapped :: "db \<Rightarrow> page \<Rightarrow> bool" where
  "slots_mapped db pg \<longleftrightarrow> (\<forall>i < slot_count pg. slot_live (slots_of pg ! i) \<longrightarrow>
     rid_get (rowids db) (slot_row (slots_of pg ! i)) = Some (pg_id pg, i))"

definition body_agrees :: "page \<Rightarrow> bool" where
  "body_agrees pg \<longleftrightarrow> (\<forall>b. decode_body (pg_buf pg) = Ok b \<longrightarrow> unat (num_rows b) = slot_count pg)"

definition on_data_page :: "db \<Rightarrow> u32 \<Rightarrow> nat \<Rightarrow> bool" where
  "on_data_page db p i \<longleftrightarrow> (\<exists>pg. pager_get (pager db) p = Some pg \<and> pg_kind pg = PkData \<and> i < slot_count pg)"

definition verified :: "db \<Rightarrow> bool" where
  "verified db \<longleftrightarrow>
     (\<forall>c \<in> set (schema db). \<forall>pid. dict_page c = Some pid \<longrightarrow>
        (\<exists>pg. pager_get (pager db) pid = Some pg \<and> pg_kind pg = PkDict)) \<and>
     (\<forall>pg \<in> set (data_pages (pager db)). body_agrees pg \<and> slots_mapped db pg) \<and>
     (\<forall>r p i. rid_get (rowids db) r = Some (p, i) \<longrightarrow> on_data_page db p i) \<and>
     (\<forall>(p, v) \<in> set (space (fsm db)). pager_get (pager db) p \<noteq> None) \<and>
     (\<forall>zm \<in> set (zone_maps db). \<forall>z \<in> set (zm_iter zm).
        \<exists>pg. pager_get (pager db) (z_page z) = Some pg \<and> pg_kind pg = PkData) \<and>
     (\<forall>idx pg. Some idx \<in> set (indexes db) \<longrightarrow> pager_get (pager db) (ic_dict idx) = Some pg \<longrightarrow>
        (\<forall>e \<in> set (ic_entries idx). ie_gen e = pg_gen pg))"

lemma check_all_Ok: "check_all f xs = Ok () \<longleftrightarrow> (\<forall>x \<in> set xs. f x = Ok ())"
  by (induction xs) (auto simp: res_simps)

lemma check_all_no_fault: "(\<And>x. f x \<noteq> Panic \<and> f x \<noteq> Undef) \<Longrightarrow> check_all f xs \<noteq> Panic \<and> check_all f xs \<noteq> Undef"
  by (induction xs) (auto simp: res_simps)

lemma check_column_Ok: "check_column db c = Ok () \<longleftrightarrow> (\<forall>pid. dict_page c = Some pid \<longrightarrow>
    (\<exists>pg. pager_get (pager db) pid = Some pg \<and> pg_kind pg = PkDict))"
  by (simp add: check_column_def split: option.split)

lemma check_body_Ok: "check_body pg = Ok () \<longleftrightarrow> body_agrees pg"
  by (simp add: check_body_def body_agrees_def split: res.split)

lemma check_data_page_Ok: "check_data_page db pg = Ok () \<longleftrightarrow> body_agrees pg \<and> slots_mapped db pg"
proof -
  have one: "check_slot db p (i, s) = Ok () \<longleftrightarrow> (slot_live s \<longrightarrow> rid_get (rowids db) (slot_row s) = Some (p, i))" for p i s
    by (simp add: check_slot_def)
  have ball: "(\<forall>x \<in> set (enumerate 0 d). Q x) \<longleftrightarrow> (\<forall>i < length d. Q (i, d ! i))" for d :: "slot_entry list" and Q
    by (auto simp: in_set_enumerate_eq)
  have "(case pg_slots pg of None \<Rightarrow> Ok () | Some d \<Rightarrow> check_all (check_slot db (pg_id pg)) (enumerate 0 d)) = Ok () \<longleftrightarrow>
      slots_mapped db pg"
    by (cases "pg_slots pg") (simp_all add: check_all_Ok slots_mapped_def slots_of_Some slots_of_def ball one)
  then show ?thesis by (auto simp: check_data_page_def res_simps check_body_Ok)
qed

lemma check_row_Ok: "check_row db r = Ok () \<longleftrightarrow> (\<exists>p i. rid_get (rowids db) r = Some (p, i) \<and> on_data_page db p i)"
  by (auto simp: check_row_def on_data_page_def split: option.splits if_splits)

lemma check_zone_Ok: "check_zone db z = Ok () \<longleftrightarrow> (\<exists>pg. pager_get (pager db) (z_page z) = Some pg \<and> pg_kind pg = PkData)"
  by (simp add: check_zone_def split: option.split)

lemma check_rowid_map_Ok:
  "check_rowid_map db = Ok () \<longleftrightarrow> (\<forall>r p i. rid_get (rowids db) r = Some (p, i) \<longrightarrow> on_data_page db p i)"
proof -
  have mem: "r \<in> set (row_ids (rowids db)) \<longleftrightarrow> rid_get (rowids db) r \<noteq> None" for r
    using bm_get_None_iff [of "rowids db" r] by (simp add: row_ids_def rid_get_def bm_keys_def)
  then show ?thesis by (auto simp: check_rowid_map_def check_all_Ok check_row_Ok) (metis option.inject prod.inject)
qed

lemma check_index_gens_Ok:
  "check_index_gens db = Ok () \<longleftrightarrow> (\<forall>idx pg. Some idx \<in> set (indexes db) \<longrightarrow>
     pager_get (pager db) (ic_dict idx) = Some pg \<longrightarrow> (\<forall>e \<in> set (ic_entries idx). ie_gen e = pg_gen pg))"
proof -
  have "(case x of None \<Rightarrow> Ok () | Some idx \<Rightarrow> (case pager_get (pager db) (ic_dict idx) of None \<Rightarrow> Ok ()
         | Some pg \<Rightarrow> check_all (check_index_gen idx pg) (ic_entries idx))) = Ok () \<longleftrightarrow>
      (\<forall>idx pg. x = Some idx \<longrightarrow> pager_get (pager db) (ic_dict idx) = Some pg \<longrightarrow> (\<forall>e \<in> set (ic_entries idx). ie_gen e = pg_gen pg))"
    for x by (auto simp: check_all_Ok check_index_gen_def split: option.splits if_splits)
  then show ?thesis by (auto simp: check_index_gens_def check_all_Ok)
qed

lemma verify_Ok: "verify db = Ok () \<longleftrightarrow> verified db"
proof -
  have "verify db = Ok () \<longleftrightarrow> check_schema_pages db = Ok () \<and> check_data_pages db = Ok () \<and> check_rowid_map db = Ok () \<and>
      check_fsm_pages db = Ok () \<and> check_zone_maps db = Ok () \<and> check_index_gens db = Ok ()"
    by (auto simp: verify_def res_simps)
  moreover have "check_fsm_pages db = Ok () \<longleftrightarrow> (\<forall>(p, v) \<in> set (space (fsm db)). pager_get (pager db) p \<noteq> None)"
    by (auto simp: check_fsm_pages_def check_all_Ok split: if_splits)
  ultimately show ?thesis
    by (simp add: verified_def check_schema_pages_def check_data_pages_def check_zone_maps_def check_all_Ok
        check_column_Ok check_data_page_Ok check_rowid_map_Ok check_zone_Ok check_index_gens_Ok)
qed

text \<open>A verified database has no unchecked slot access out of range.\<close>

lemma verified_slot:
  assumes "verified db" and "rid_get (rowids db) r = Some (p, i)" and "pager_get (pager db) p = Some pg"
  shows "\<exists>e. slot_at_unchecked pg i = Ok e"
proof -
  have "on_data_page db p i" using assms(1,2) unfolding verified_def by blast
  then have "i < slot_count pg" using assms(3) by (simp add: on_data_page_def)
  then show ?thesis by (cases "pg_slots pg") (simp_all add: slot_at_unchecked_def slot_count_def)
qed

text \<open>The check rejects nothing the invariant of the database allows, given live zones and fresh entries.\<close>

definition zones_live :: "db \<Rightarrow> bool" where
  "zones_live db \<longleftrightarrow> (\<forall>zm \<in> set (zone_maps db). \<forall>z \<in> set (zm_iter zm).
     \<exists>pg. pager_get (pager db) (z_page z) = Some pg \<and> pg_kind pg = PkData)"

definition gens_fresh :: "db \<Rightarrow> bool" where
  "gens_fresh db \<longleftrightarrow> (\<forall>idx pg. Some idx \<in> set (indexes db) \<longrightarrow> pager_get (pager db) (ic_dict idx) = Some pg \<longrightarrow>
     (\<forall>e \<in> set (ic_entries idx). ie_gen e = pg_gen pg))"

definition dict_pages_exist :: "db \<Rightarrow> bool" where
  "dict_pages_exist db \<longleftrightarrow> (\<forall>c \<in> set (schema db). \<forall>pid. dict_page c = Some pid \<longrightarrow>
     (\<exists>pg. pager_get (pager db) pid = Some pg \<and> pg_kind pg = PkDict))"

lemma db_ok_verified:
  assumes ok: "db_ok db" and more: "zones_live db" "gens_fresh db" "dict_pages_exist db"
  shows "verified db"
proof -
  have po: "pager_ok (pager db)" and ro: "rows_ok db" and so: "space_ok db"
    using ok by (auto simp: db_ok_def pages_ok_def)
  have "body_agrees pg \<and> slots_mapped db pg" if "pg \<in> set (data_pages (pager db))" for pg
  proof -
    have k: "pg_kind pg = PkData" and "pg \<in> set (pager_iter (pager db))" using that by (simp_all add: data_pages_def)
    then obtain i where i: "pager_get (pager db) i = Some pg" using pager_iter_mem [OF po] by blast
    have id: "pg_id pg = i" by (rule pager_ok_id [OF po i])
    have "data_page_ok (schema db) pg" using ok i k by (auto simp: db_ok_def pages_ok_def)
    then have "body_agrees pg" by (elim data_page_okE) (auto simp: body_agrees_def slots_ok_def slots_of_Some)
    moreover have "slots_mapped db pg" unfolding slots_mapped_def
    proof (intro allI impI)
      fix j assume "j < slot_count pg" "slot_live (slots_of pg ! j)"
      then have "live_slot (pager db) (slot_row (slots_of pg ! j)) (i, j)" using i k by (auto simp: live_slot_def)
      then show "rid_get (rowids db) (slot_row (slots_of pg ! j)) = Some (pg_id pg, j)"
        using ro id unfolding rows_ok_def by blast
    qed
    ultimately show ?thesis by blast
  qed
  moreover have "on_data_page db p i" if "rid_get (rowids db) r = Some (p, i)" for r p i
    using rows_okD [OF ro that] unfolding on_data_page_def by metis
  moreover have "pager_get (pager db) p \<noteq> None" if "(p, v) \<in> set (space (fsm db))" for p v
  proof -
    have "bm_get (space (fsm db)) p = Some v" using that so by (simp add: space_ok_def fsm_ok_def bm_get_Some_iff)
    then show ?thesis using so unfolding space_ok_def by force
  qed
  ultimately show ?thesis
    using more unfolding verified_def zones_live_def gens_fresh_def dict_pages_exist_def by blast
qed

end
