(* ===== verification/Scripts.thy ===== *)
theory Scripts
  imports Parsers Queries Containers Verifier
begin

text \<open>
  Execution of scripts (\<open>src/src/script.rs\<close>) and the library's entry points (\<open>src/src/lib.rs\<close>).
  A checkpoint encodes the database and drops the bytes; the encoder's addresses are a parameter, as
  in the container theory. The counters of a report are \<open>usize\<close>, bounded by the length of the
  script; the sum of the scanned rows is a \<open>u64\<close> whose overflow panics.
\<close>

section \<open>Operands\<close>

definition coerce :: "val \<Rightarrow> col_kind \<Rightarrow> val" where
  "coerce v k = (case (k, v) of
       (KInt, VBool b) \<Rightarrow> VInt (if b then 1 else 0)
     | (KInt, VReal r) \<Rightarrow> VInt (f64_to_i64 r)
     | (KReal, VInt i) \<Rightarrow> VReal (f64_of_i64 i)
     | (KBool, VInt i) \<Rightarrow> VBool (i \<noteq> 0)
     | _ \<Rightarrow> v)"

definition no_literal :: "column \<Rightarrow> error" where
  "no_literal c = Script (BadValue (str ''string literal not valid for '' @ col_name c @ str '' column''))"

definition resolve_operand :: "nat \<Rightarrow> operand \<Rightarrow> (db, error, val) op" where
  "resolve_operand col x db = (case nth_opt (schema db) col of
       None \<Rightarrow> (Err (column_missing col), db)
     | Some c \<Rightarrow> (case x of
         OVal v \<Rightarrow> (Ok (coerce v (ckind c)), db)
       | OStr bytes \<Rightarrow> if ckind c = KText then sbind (intern_text col bytes) (\<lambda>i. sret (VText i)) db
           else (Err (no_literal c), db)))"

fun resolve_operands :: "nat \<Rightarrow> operand list \<Rightarrow> (db, error, val list) op" where
  "resolve_operands ci [] = sret []"
| "resolve_operands ci (x # xs) = sbind (resolve_operand ci x) (\<lambda>v.
     sbind (resolve_operands (Suc ci) xs) (\<lambda>vs. sret (v # vs)))"

section \<open>Execution\<close>

text \<open>The number of scanned rows a statement reports.\<close>

definition checkpoint :: "(nat \<Rightarrow> nat) \<Rightarrow> (db, error, nat) op" where
  "checkpoint addr db =
     (let db = db\<lparr>stats := (stats db)\<lparr>st_checkpoints := st_checkpoints (stats db) + 1\<rparr>\<rparr> in
      case encode_database addr db of Panic \<Rightarrow> (Panic, db) | Undef \<Rightarrow> (Undef, db) | _ \<Rightarrow> (Ok 0, db))"

definition execute :: "(nat \<Rightarrow> nat) \<Rightarrow> stmt \<Rightarrow> (db, error, nat) op" where
  "execute addr st = (case st of
       SInsert xs \<Rightarrow> sbind (resolve_operands 0 xs) (\<lambda>vs. sbind (insert vs) (\<lambda>_. sret 0))
     | SUpdate sc sv pc op t \<Rightarrow> sbind (resolve_operand sc sv) (\<lambda>v. sbind (resolve_operand pc t) (\<lambda>t.
         sbind (update_where sc v pc op t) (\<lambda>_. sret 0)))
     | SDelete pc op t \<Rightarrow> sbind (resolve_operand pc t) (\<lambda>t. sbind (delete_where pc op t) (\<lambda>_. sret 0))
     | SScan \<Rightarrow> (\<lambda>db. let (rows, db) = scan_all db in (Ok (length rows), db))
     | SScanWhere c op t \<Rightarrow> sbind (resolve_operand c t) (\<lambda>t. sbind (scan_where c op t) (\<lambda>rows. sret (length rows)))
     | SIndexScan c t \<Rightarrow> sbind (resolve_operand c t) (\<lambda>t. sbind (index_scan c t) (\<lambda>rows. sret (length rows)))
     | SJoin \<Rightarrow> (\<lambda>db. let (pairs, db) = merge_join db in (Ok (length pairs), db))
     | SCompact \<Rightarrow> sbind compact (\<lambda>_. sret 0)
     | SCheckpoint \<Rightarrow> checkpoint addr
     | SAgg c \<Rightarrow> (\<lambda>db. let (a, db) = aggregate c db in (Ok (unat (agg_count a)), db)))"

record report =
  rep_statements :: nat
  rep_executed :: nat
  rep_errors :: nat
  rep_rows :: nat

definition report_new :: report where
  "report_new = \<lparr>rep_statements = 0, rep_executed = 0, rep_errors = 0, rep_rows = 0\<rparr>"

definition count_error :: "report \<Rightarrow> report" where
  "count_error rep = rep\<lparr>rep_errors := rep_errors rep + 1\<rparr>"

text \<open>One turn of the loop of \<open>run_script\<close>.\<close>

definition run_statement :: "(nat \<Rightarrow> nat) \<Rightarrow> u8 list \<Rightarrow> report \<Rightarrow> (db, error, report) op" where
  "run_statement addr raw rep db = (let src = trim raw in
     if src = [] then (Ok rep, db)
     else let rep = rep\<lparr>rep_statements := rep_statements rep + 1\<rparr> in
       case parse_statement (schema db) src of
         Err _ \<Rightarrow> (Ok (count_error rep), db) | Panic \<Rightarrow> (Panic, db) | Undef \<Rightarrow> (Undef, db)
       | Ok st \<Rightarrow> (case execute addr st db of
           (Ok n, db) \<Rightarrow> (if rep_rows rep + n < 2 ^ 64
             then (Ok (rep\<lparr>rep_executed := rep_executed rep + 1, rep_rows := rep_rows rep + n\<rparr>), db) else (Panic, db))
         | (Err _, db) \<Rightarrow> (Ok (count_error rep), db)
         | (Panic, db) \<Rightarrow> (Panic, db) | (Undef, db) \<Rightarrow> (Undef, db)))"

fun run_statements :: "(nat \<Rightarrow> nat) \<Rightarrow> u8 list list \<Rightarrow> report \<Rightarrow> (db, error, report) op" where
  "run_statements addr [] rep = sret rep"
| "run_statements addr (raw # rest) rep = sbind (run_statement addr raw rep) (run_statements addr rest)"

definition run_script :: "(nat \<Rightarrow> nat) \<Rightarrow> u8 list \<Rightarrow> (db, error, report) op" where
  "run_script addr src = run_statements addr (split_semi src) report_new"

section \<open>Entry points\<close>

definition split_combined :: "u8 list \<Rightarrow> u8 list \<times> u8 list" where
  "split_combined data =
     (if length data < 4 then ([], data)
      else let n = unat (u32_of_le (take 4 data)) in
        if length data - 4 < n then ([], data)
        else (take n (drop 4 data), drop (4 + n) data))"

text \<open>
  What a run did: \<open>None\<close> when it stopped before the script, otherwise the report and the final
  database, which the code drops.
\<close>

definition run_combined :: "(nat \<Rightarrow> nat) \<Rightarrow> u8 list \<Rightarrow> (report \<times> db) option result" where
  "run_combined addr data = (let (script, bytes) = split_combined data in
     case decode bytes of Err _ \<Rightarrow> Ok None | Panic \<Rightarrow> Panic | Undef \<Rightarrow> Undef
     | Ok db \<Rightarrow> (case verify db of Err _ \<Rightarrow> Ok None | Panic \<Rightarrow> Panic | Undef \<Rightarrow> Undef
     | Ok _ \<Rightarrow> if \<not> utf8_valid script then Ok None
       else (case run_script addr script db of
           (Ok rep, db) \<Rightarrow> Ok (Some (rep, db)) | (Err _, _) \<Rightarrow> Ok None
         | (Panic, _) \<Rightarrow> Panic | (Undef, _) \<Rightarrow> Undef)))"

end
