(* ===== verification/IndexLife.thy ===== *)
theory IndexLife
  imports Indexes
begin

text \<open>
  The life of a cached index pointer across interning (\<open>src/src/dict.rs\<close> and \<open>src/src/index.rs\<close>
  together): an append in place keeps every pointer, a rewrite of the page leaves all of them
  dangling, and rebinding against the mirror repairs them.
\<close>

text \<open>Interning leaves the pager well-formed and every other page alone.\<close>

lemma intern_append_pager:
  assumes rep: "dict_rep d p bs" and ok: "pager_ok p" and new: "b \<notin> set bs"
    and fits: "dict_size (bs @ [b]) \<le> capacity d" and bound: "dict_size (bs @ [b]) < 2 ^ 32"
    and r: "intern_append b (dict_size bs) (d, p) = (Ok i, (d', p'))"
  shows "pager_ok p'" and "dct_page d' = dct_page d" and "dict_rep d' p' (bs @ [b])"
    and "map_option pg_alloc (pager_get p' (dct_page d)) = map_option pg_alloc (pager_get p (dct_page d))"
    and "map_option pg_kind (pager_get p' j) = map_option pg_kind (pager_get p j)"
    and "j \<noteq> dct_page d \<Longrightarrow> pager_get p' j = pager_get p j"
proof -
  obtain d1 buf where i: "intern_append b (dict_size bs) (d, p) =
      (Ok (as_u32 (length bs)), (d1, pager_modify (dct_page d) (\<lambda>pg. pg\<lparr>pg_buf := buf\<rparr>) p))"
    "dict_rep d1 (pager_modify (dct_page d) (\<lambda>pg. pg\<lparr>pg_buf := buf\<rparr>) p) (bs @ [b])"
    "dct_page d1 = dct_page d"
    using intern_append_rep [OF rep new fits bound] by metis
  then have p': "p' = pager_modify (dct_page d) (\<lambda>pg. pg\<lparr>pg_buf := buf\<rparr>) p" and d': "d' = d1"
    using r by simp_all
  show "pager_ok p'" using ok by (simp add: p' pager_ok_modify)
  show "dct_page d' = dct_page d" "dict_rep d' p' (bs @ [b])" using i by (simp_all add: p' d')
  show "map_option pg_alloc (pager_get p' (dct_page d)) = map_option pg_alloc (pager_get p (dct_page d))"
    and "map_option pg_kind (pager_get p' j) = map_option pg_kind (pager_get p j)"
    by (simp_all add: p' pager_get_modify option.map_comp comp_def)
  show "j \<noteq> dct_page d \<Longrightarrow> pager_get p' j = pager_get p j" by (simp add: p' pager_get_modify)
qed

lemma dict_grow_pager:
  assumes rep: "dict_rep d p bs" and ok: "pager_ok p" and cap: "capacity d * 2 < 2 ^ 64"
    and r: "dict_grow (d, p) = (Ok (), (d', p'))"
  shows "pager_ok p'" and "dict_rep d' p' bs" and "dct_page d' = dct_page d" and "capacity d' = capacity d * 2"
    and "pager_get p (dct_page d) = Some pg \<Longrightarrow> mem_lookup p' (pg_alloc pg) = None"
    and "map_option pg_kind (pager_get p' j) = map_option pg_kind (pager_get p j)"
    and "j \<noteq> dct_page d \<Longrightarrow> pager_get p' j = pager_get p j"
    and "map_option pg_alloc (pager_get p' (dct_page d)) = Some (next_alloc p)"
proof -
  obtain buf where buf: "p' = pager_rebuf (dct_page d) (\<lambda>a. replace_buf a buf) p" and rep': "dict_rep d' p' bs"
    "dct_page d' = dct_page d" "capacity d' = capacity d * 2"
    using dict_grow_rep [OF rep cap] r by (metis prod.inject)
  show pok: "pager_ok p'" unfolding buf
    by (rule pager_ok_rebuf [OF ok]) (simp_all add: replace_buf_def)
  show "dict_rep d' p' bs" "dct_page d' = dct_page d" "capacity d' = capacity d * 2" by fact+
  show "j \<noteq> dct_page d \<Longrightarrow> pager_get p' j = pager_get p j" by (simp add: buf pager_get_rebuf)
  show "map_option pg_kind (pager_get p' j) = map_option pg_kind (pager_get p j)"
    by (simp add: buf pager_get_rebuf option.map_comp comp_def replace_buf_def)
  obtain pg0 pad where "pager_get p (dct_page d) = Some pg0" using rep by (rule dict_rep_page)
  then show "map_option pg_alloc (pager_get p' (dct_page d)) = Some (next_alloc p)"
    by (simp add: buf pager_get_rebuf replace_buf_def)
  assume pg: "pager_get p (dct_page d) = Some pg"
  have "pg_alloc x \<noteq> pg_alloc pg" if "pager_get p' i = Some x" for i x
    using that pager_ok_alloc_less [OF ok pg] pager_ok_alloc_inj [OF ok pg, of i x] pg
    by (auto simp: buf pager_get_rebuf replace_buf_def split: if_splits)
  then show "mem_lookup p' (pg_alloc pg) = None" using mem_lookup_None_iff [OF pok] by blast
qed

text \<open>Entries are never moved by an append in place, so the pointers stay bound.\<close>

lemma intern_append_keeps_bound:
  assumes rep: "dict_rep d p bs" and ok: "pager_ok p" and new: "b \<notin> set bs"
    and fits: "dict_size (bs @ [b]) \<le> capacity d" and bound: "dict_size (bs @ [b]) < 2 ^ 32"
    and r: "intern_append b (dict_size bs) (d, p) = (Ok i, (d', p'))" and idx: "index_bound d p idx"
  shows "index_bound d' p' idx"
proof -
  note app = intern_append_pager [OF rep ok new fits bound r]
  have ents: "entries d = ent_from 0 4 bs" "entries d' = ent_from 0 4 (bs @ [b])"
    using rep app(3) by (simp_all add: dict_rep_def)
  have "entry_bound d' p' e" if e: "entry_bound d p e" for e
  proof -
    obtain pg off len where pg: "pager_get p (dct_page d) = Some pg"
      "location_of d (ie_value e) = Some (off, len)" "ie_ptr e = Ptr (pg_alloc pg) (unat off)"
      using e by (auto simp: entry_bound_def)
    obtain pg' where pg': "pager_get p' (dct_page d) = Some pg'" "pg_alloc pg' = pg_alloc pg"
      using app(4) pg(1) by (cases "pager_get p' (dct_page d)") auto
    have "location_of d' (ie_value e) = Some (off, len)"
      using pg(2) by (simp add: location_of_def ents ent_from_append bm_get_def map_add_Some_iff)
    then show ?thesis using pg pg' app(2) by (simp add: entry_bound_def)
  qed
  then show ?thesis using idx by (simp add: index_bound_def)
qed

text \<open>A rewrite leaves every bound pointer dangling: any probe of a non-empty index is undefined.\<close>

lemma probe_after_growth:
  assumes rep: "dict_rep d p bs" and ok: "pager_ok p" and idx: "index_bound d p idx" "ic_entries idx \<noteq> []"
    and new: "b \<notin> set bs" and fits: "dict_fits (d, p) b" and full: "capacity d < dict_size (bs @ [b])"
  obtains i d' p' where "dict_intern b (d, p) = (Ok i, (d', p'))" "dict_rep d' p' (bs @ [b])" "pager_ok p'"
    "probe idx p' q = Undef"
proof -
  have f: "dict_size (bs @ [b]) \<le> capacity d * 2" "dict_size (bs @ [b]) < 2 ^ 32" "capacity d * 2 < 2 ^ 64"
    using fits dict_rep_id_of_None [OF rep new] dict_rep_used [OF rep]
    by (simp_all add: dict_fits_def add.assoc)
  obtain d1 p1 where g: "dict_grow (d, p) = (Ok (), (d1, p1))"
    using dict_grow_rep [OF rep f(3)] by metis
  note gr = dict_grow_pager [OF rep ok f(3) g]
  have fit1: "dict_size (bs @ [b]) \<le> capacity d1" using f(1) gr(4) by simp
  obtain i d' p' where i: "intern_append b (dict_size bs) (d1, p1) = (Ok i, (d', p'))"
    using intern_append_rep [OF gr(2) new fit1 f(2)] by metis
  note app = intern_append_pager [OF gr(2,1) new fit1 f(2) i]
  have "dict_intern b (d, p) = (Ok i, (d', p'))" using dict_intern_grow [OF rep new full g] i by simp
  moreover have "probe idx p' q = Undef"
  proof -
    obtain e es where e: "ic_entries idx = e # es" using idx(2) by (cases "ic_entries idx") auto
    then have "entry_bound d p e" using idx(1) by (simp add: index_bound_def)
    then obtain pg off len where pg: "pager_get p (dct_page d) = Some pg" "ie_ptr e = Ptr (pg_alloc pg) (unat (off :: u32))"
      unfolding entry_bound_def by blast
    have d1: "dct_page d1 = dct_page d" by (rule gr(3))
    have "pg_alloc x \<noteq> pg_alloc pg" if x: "pager_get p' j = Some x" for j x
    proof (cases "j = dct_page d")
      case True
      then have "pg_alloc x = next_alloc p" using app(4) gr(8) d1 x by simp
      then show ?thesis using pager_ok_alloc_less [OF ok pg(1)] by simp
    next
      case False
      then have "pager_get p j = Some x" using app(6) [of j] gr(7) [of j] d1 x by simp
      then show ?thesis using pager_ok_alloc_inj [OF ok pg(1), of j x] False by auto
    qed
    then have "mem_lookup p' (pg_alloc pg) = None" using mem_lookup_None_iff [OF app(1)] by blast
    then have "entry_bytes p' e = Undef" using entry_bytes_dangling [OF pg(2)] by simp
    then show ?thesis using probe_entries_dangling [of e "ic_entries idx"] e by (simp add: probe_def)
  qed
  ultimately show thesis using that [of i d' p'] app(1,3) by blast
qed

text \<open>Rebinding against the mirror's own locations makes the probe exact again.\<close>

lemma rebind_restores:
  assumes rep: "dict_rep d p bs" and ok: "pager_ok p" and dp: "ic_dict idx = dct_page d"
    and v: "\<forall>e \<in> set (ic_entries idx). unat (ie_value e) < length bs"
  obtains idx' where "rebind p (dict_offsets d bs) g idx = Ok idx'" "index_bound d p idx'"
    "map ie_value (ic_entries idx') = map ie_value (ic_entries idx)"
    "map ie_rows (ic_entries idx') = map ie_rows (ic_entries idx)"
proof -
  obtain es where es: "rebind_entries p (dct_page d) (dict_offsets d bs) g (ic_entries idx) = Ok es"
    "\<forall>e \<in> set es. entry_bound d p e" "map ie_value es = map ie_value (ic_entries idx)"
    "map ie_rows es = map ie_rows (ic_entries idx)"
    using rebind_entries_bound [OF rep v] by metis
  then show thesis by (intro that [of "idx\<lparr>ic_entries := es\<rparr>"]) (simp_all add: rebind_def dp index_bound_def)
qed

end
