(* ===== verification/Interning.thy ===== *)
theory Interning
  imports IndexLife Tables
begin

text \<open>
  Interning a string for a column (\<open>intern_text\<close> of \<open>src/src/mutation.rs\<close>): the dictionary page
  is allocated on first use, and neither the invariant nor the stored table is disturbed.
\<close>

section \<open>Dictionaries and the rest of the pager\<close>

definition with_string :: "u8 list \<Rightarrow> u8 list list \<Rightarrow> u8 list list" where
  "with_string b bs = (if b \<in> set bs then bs else bs @ [b])"

definition interned :: "dict \<Rightarrow> pager \<Rightarrow> u8 list list \<Rightarrow> u8 list \<Rightarrow> u32 \<Rightarrow> dict \<Rightarrow> pager \<Rightarrow> bool" where
  "interned d p bs b i d' p' \<longleftrightarrow> dict_rep d' p' (with_string b bs) \<and> bytes_of d' p' i = Some b \<and>
     pager_ok p' \<and> dct_page d' = dct_page d \<and>
     (\<forall>j. map_option pg_kind (pager_get p' j) = map_option pg_kind (pager_get p j)) \<and>
     (\<forall>j. j \<noteq> dct_page d \<longrightarrow> pager_get p' j = pager_get p j)"

lemma dict_intern_interned:
  assumes rep: "dict_rep d p bs" and ok: "pager_ok p" and fits: "dict_fits (d, p) b"
  shows "\<exists>i d' p'. dict_intern b (d, p) = (Ok i, (d', p')) \<and> interned d p bs b i d' p'"
proof (cases "b \<in> set bs")
  case True
  then obtain k where k: "k < length bs" "bs ! k = b" by (auto simp: in_set_conv_nth)
  then have i: "dict_intern b (d, p) = (Ok (as_u32 k), (d, p))" using dict_intern_known [OF rep k(1)] by simp
  have "unat (as_u32 k) = k" using k(1) dict_rep_len [OF rep] by simp
  then have "bytes_of d p (as_u32 k) = Some b" using k dict_rep_bytes_of [OF rep] by (simp add: nth_opt_def)
  then show ?thesis using i rep ok True by (auto simp: interned_def with_string_def)
next
  case new: False
  have f: "dict_size (bs @ [b]) \<le> capacity d * 2" "dict_size (bs @ [b]) < 2 ^ 32" "capacity d * 2 < 2 ^ 64"
    using fits dict_rep_id_of_None [OF rep new] dict_rep_used [OF rep]
    by (simp_all add: dict_fits_def add.assoc)
  have last: "bytes_of d' p' (as_u32 (length bs)) = Some b" if "dict_rep d' p' (bs @ [b])" for d' p'
    using dict_rep_bytes_of [OF that] dict_rep_len [OF rep] by (simp add: nth_opt_def nth_append)
  show ?thesis
  proof (cases "dict_size (bs @ [b]) \<le> capacity d")
    case True
    obtain d' buf where i: "intern_append b (dict_size bs) (d, p) =
        (Ok (as_u32 (length bs)), (d', pager_modify (dct_page d) (\<lambda>pg. pg\<lparr>pg_buf := buf\<rparr>) p))"
      using intern_append_rep [OF rep new True f(2)] by metis
    note app = intern_append_pager [OF rep ok new True f(2) i]
    show ?thesis using dict_intern_in_place [OF rep new True f(2)] i app last [OF app(3)] new
      by (auto simp: interned_def with_string_def)
  next
    case False
    obtain d1 p1 where g: "dict_grow (d, p) = (Ok (), (d1, p1))"
      using dict_grow_rep [OF rep f(3)] by metis
    note gr = dict_grow_pager [OF rep ok f(3) g]
    have fit1: "dict_size (bs @ [b]) \<le> capacity d1" using f(1) gr(4) by simp
    obtain d' buf where i: "intern_append b (dict_size bs) (d1, p1) =
        (Ok (as_u32 (length bs)), (d', pager_modify (dct_page d1) (\<lambda>pg. pg\<lparr>pg_buf := buf\<rparr>) p1))"
      using intern_append_rep [OF gr(2) new fit1 f(2)] by metis
    note app = intern_append_pager [OF gr(2,1) new fit1 f(2) i]
    have "dict_intern b (d, p) = intern_append b (dict_size bs) (d1, p1)"
      using dict_intern_grow [OF rep new _ g] False by simp
    moreover have "interned d p bs b (as_u32 (length bs)) d' (pager_modify (dct_page d1) (\<lambda>pg. pg\<lparr>pg_buf := buf\<rparr>) p1)"
      unfolding interned_def with_string_def
      using app(1-3,5,6) gr(3,6,7) last [OF app(3)] new by simp
    ultimately show ?thesis using i by metis
  qed
qed

section \<open>Changes that leave the data pages alone\<close>

definition same_data :: "pager \<Rightarrow> pager \<Rightarrow> bool" where
  "same_data p p' \<longleftrightarrow> (\<forall>j pg. pg_kind pg = PkData \<longrightarrow> (pager_get p' j = Some pg \<longleftrightarrow> pager_get p j = Some pg))"

definition storage :: "schema \<Rightarrow> (col_kind \<times> encoding) list" where
  "storage s = map (\<lambda>c. (ckind c, cencoding c)) s"

lemma data_page_ok_storage:
  assumes "storage s = storage s'"
  shows "data_page_ok s pg = data_page_ok s' pg"
proof -
  have "body_for s n b = list_all2 (\<lambda>(k, e) r. rg_kind r = k \<and> rg_encoding r = e \<and> region_ok r \<and> length (cells r) = n)
      (storage s) (regions b)" for s n b
    by (simp add: body_for_def storage_def list_all2_map1 region_for_def [abs_def])
  then show ?thesis using assms by (simp add: data_page_ok_def)
qed

lemma same_data_ok:
  assumes ok: "db_ok db" and sd: "same_data (pager db) (pager db')" and pok: "pager_ok (pager db')"
    and s: "storage (schema db') = storage (schema db)" and eq: "rowids db' = rowids db" "fsm db' = fsm db"
  shows "pages_ok db'" and "rows_ok db'" and "space_ok db'" and "table db' = table db"
proof -
  have parts: "pages_ok db" "rows_ok db" "space_ok db" using ok by auto
  show "pages_ok db'" using parts(1) sd pok data_page_ok_storage [OF s] unfolding pages_ok_def same_data_def by blast
  have "live_slot (pager db') = live_slot (pager db)"
    using sd unfolding live_slot_def [abs_def] same_data_def by (intro ext) blast
  then show "rows_ok db'" using parts(2) by (simp add: rows_ok_def eq)
  show "space_ok db'" using parts(3) sd unfolding space_ok_def same_data_def eq by blast
  show "table db' = table db"
  proof (rule table_cong)
    fix p i assume "\<exists>r. rid_get (rowids db') r = Some (p, i)"
    then obtain r where "rid_get (rowids db) r = Some (p, i)" using eq by auto
    then obtain pg where "pager_get (pager db) p = Some pg" "pg_kind pg = PkData" using rows_okD [OF parts(2)] by metis
    then have "pager_get (pager db') p = pager_get (pager db) p" using sd by (simp add: same_data_def)
    then show "map_option (\<lambda>pg. page_row pg i) (pager_get (pager db') p) =
      map_option (\<lambda>pg. page_row pg i) (pager_get (pager db) p)" by simp
  qed (simp add: eq)
qed

section \<open>One column\<close>

text \<open>A string fits a column when its dictionary has room, or can be allocated and has room then.\<close>

definition text_fits :: "db \<Rightarrow> nat \<Rightarrow> u8 list \<Rightarrow> bool" where
  "text_fits db col b \<longleftrightarrow> (case nth_opt (schema db) col of None \<Rightarrow> False
     | Some c \<Rightarrow> ckind c = KText \<and> (if dict_page c = None
         then (free_ids (pager db) \<noteq> [] \<or> length (pages (pager db)) < 4294967295) \<and> length b \<le> 116
         else (case get_some (dicts db) col of None \<Rightarrow> False | Some d \<Rightarrow> dict_fits (d, pager db) b)))"

definition text_stored :: "db \<Rightarrow> nat \<Rightarrow> u32 \<Rightarrow> u8 list \<Rightarrow> bool" where
  "text_stored db col i b \<longleftrightarrow> (case get_some (dicts db) col of None \<Rightarrow> False
     | Some d \<Rightarrow> bytes_of d (pager db) i = Some b)"

definition frame :: "db \<Rightarrow> db \<Rightarrow> bool" where
  "frame db db' \<longleftrightarrow> db_ok db' \<and> table db' = table db \<and> storage (schema db') = storage (schema db) \<and>
     rowids db' = rowids db \<and> fsm db' = fsm db \<and> zone_maps db' = zone_maps db \<and>
     next_row_id db' = next_row_id db \<and> page_rows db' = page_rows db \<and>
     length (dicts db') = length (dicts db) \<and> same_data (pager db) (pager db')"

lemma get_some_nth: "get_some xs i = Some x \<longleftrightarrow> i < length xs \<and> xs ! i = Some x"
  by (auto simp: get_some_def nth_opt_def split: option.splits)

lemma get_some_update: "get_some (xs[i := y]) j = (if j = i \<and> i < length xs then y else get_some xs j)"
  by (auto simp: get_some_def nth_opt_def nth_list_update split: option.splits)

lemma dicts_okD:
  assumes "dicts_ok db" and "get_some (dicts db) ci = Some d"
  shows "ci < length (schema db)" and "dict_page (schema db ! ci) = Some (dct_page d)"
    and "\<exists>bs. dict_rep d (pager db) bs"
    and "pager_get (pager db) (dct_page d) = Some pg \<Longrightarrow> pg_kind pg = PkDict"
    and "get_some (dicts db) cj = Some d' \<Longrightarrow> dct_page d = dct_page d' \<Longrightarrow> ci = cj"
  using assms unfolding dicts_ok_def by blast+

lemma intern_mirror_ok:
  assumes ok: "db_ok db" and d: "get_some (dicts db) col = Some d" and fits: "dict_fits (d, pager db) b"
  shows "\<exists>i db'. intern_mirror col b db = (Ok i, db') \<and> frame db db' \<and> text_stored db' col i b"
proof -
  have dok: "dicts_ok db" using ok by auto
  obtain bs where rep: "dict_rep d (pager db) bs" using dicts_okD(3) [OF dok d] by blast
  have pok: "pager_ok (pager db)" using ok by (auto simp: db_ok_def pages_ok_def)
  obtain i d' p' where i: "dict_intern b (d, pager db) = (Ok i, (d', p'))" "interned d (pager db) bs b i d' p'"
    using dict_intern_interned [OF rep pok fits] by blast
  then have facts: "dict_rep d' p' (with_string b bs)" "bytes_of d' p' i = Some b" "pager_ok p'"
    "dct_page d' = dct_page d" "\<And>j. map_option pg_kind (pager_get p' j) = map_option pg_kind (pager_get (pager db) j)"
    "\<And>j. j \<noteq> dct_page d \<Longrightarrow> pager_get p' j = pager_get (pager db) j"
    unfolding interned_def by blast+
  let ?db = "db\<lparr>dicts := (dicts db)[col := Some d'], pager := p'\<rparr>"
  have col: "col < length (dicts db)" using d by (simp add: get_some_nth)
  have sd: "same_data (pager db) p'"
    unfolding same_data_def
  proof (intro allI impI)
    fix j and pg :: page assume k: "pg_kind pg = PkData"
    show "pager_get p' j = Some pg \<longleftrightarrow> pager_get (pager db) j = Some pg"
    proof (cases "j = dct_page d")
      case True
      have "map_option pg_kind (pager_get (pager db) j) = Some PkDict"
        using dicts_ok_page [OF dok d] True by (metis option.simps(9))
      then have "map_option pg_kind (pager_get p' j) = Some PkDict" using facts(5) by simp
      then show ?thesis using k \<open>map_option pg_kind (pager_get (pager db) j) = Some PkDict\<close> by auto
    qed (simp add: facts(6))
  qed
  have dk: "dicts_ok ?db"
    unfolding dicts_ok_def
  proof (intro conjI allI impI)
    fix ci x assume x: "get_some (dicts ?db) ci = Some x"
    show "ci < length (schema ?db)" using x dicts_okD(1) [OF dok] d by (auto simp: get_some_update split: if_splits)
    show "dict_page (schema ?db ! ci) = Some (dct_page x)"
      using x dicts_okD(2) [OF dok] d facts(4) by (auto simp: get_some_update split: if_splits)
    show "\<exists>bs. dict_rep x (pager ?db) bs"
    proof (cases "ci = col")
      case True
      then show ?thesis using x facts(1) col by (auto simp: get_some_update)
    next
      case False
      then have x': "get_some (dicts db) ci = Some x" using x by (simp add: get_some_update)
      then have "dct_page x \<noteq> dct_page d" using dicts_okD(5) [OF dok x' d] False by blast
      then have "dict_rep x p' cs = dict_rep x (pager db) cs" for cs
        by (intro dict_rep_cong facts(6))
      then show ?thesis using dicts_okD(3) [OF dok x'] by simp
    qed
    fix pg assume "pager_get (pager ?db) (dct_page x) = Some pg"
    moreover obtain y where "get_some (dicts db) ci = Some y" "dct_page y = dct_page x"
      using x d facts(4) by (auto simp: get_some_update split: if_splits)
    ultimately show "pg_kind pg = PkDict" using dicts_okD(4) [OF dok, of ci y] facts(5) [of "dct_page x"]
      by (cases "pager_get (pager db) (dct_page x)") auto
  next
    fix ci cj x y assume "get_some (dicts ?db) ci = Some x" "get_some (dicts ?db) cj = Some y" "dct_page x = dct_page y"
    then show "ci = cj" using dicts_okD(5) [OF dok] d facts(4)
      by (auto simp: get_some_update split: if_splits)
  qed
  have "shape_ok ?db" using ok by (auto simp: db_ok_def shape_ok_def)
  moreover have "pages_ok ?db" "rows_ok ?db" "space_ok ?db" "table ?db = table db"
    using same_data_ok [OF ok, of ?db] sd facts(3) by simp_all
  ultimately have "frame db ?db" using dk sd by (simp add: frame_def db_ok_def)
  moreover have "text_stored ?db col i b" using facts(2) col by (simp add: text_stored_def get_some_update)
  ultimately show ?thesis using i(1) d by (auto simp: intern_mirror_def)
qed

lemma intern_alloc_ok:
  assumes ok: "db_ok db" and col: "col < length (schema db)" "dict_page (schema db ! col) = None"
    and room: "free_ids (pager db) \<noteq> [] \<or> length (pages (pager db)) < 4294967295"
  shows "\<exists>db' pid. intern_alloc col db = (Ok (), db') \<and> frame db db' \<and>
    get_some (dicts db') col = Some (dict_new pid) \<and> dict_rep (dict_new pid) (pager db') [] \<and>
    dict_page (schema db' ! col) = Some pid"
proof -
  have dok: "dicts_ok db" and pok: "pager_ok (pager db)" using ok by (auto simp: db_ok_def pages_ok_def)
  have len: "length (dicts db) = length (schema db)" using ok by (auto simp: db_ok_def shape_ok_def)
  obtain pid p' where a: "dict_allocate (pager db) = (Ok pid, p')"
    using pager_alloc_no_panic [OF pok room] unfolding dict_allocate_def by metis
  note get = pager_alloc_get [OF pok a [unfolded dict_allocate_def]]
  let ?db = "db\<lparr>pager := p', schema := (schema db)[col := (schema db ! col)\<lparr>dict_page := Some pid\<rparr>],
                dicts := (dicts db)[col := Some (dict_new pid)]\<rparr>"
  have alloc: "intern_alloc col db = (Ok (), ?db)" using a col len by (simp add: intern_alloc_def)
  have rep: "dict_rep (dict_new pid) p' []" by (rule dict_allocate_rep [OF pok a])
  have pok': "pager_ok p'" by (rule pager_ok_alloc [OF pok a [unfolded dict_allocate_def]])
  have st: "storage (schema ?db) = storage (schema db)"
    using col(1) by (intro nth_equalityI) (simp_all add: storage_def nth_list_update)
  have sd: "same_data (pager db) p'"
    using get by (auto simp: same_data_def page_new_def)
  have other: "pager_get p' (dct_page x) = pager_get (pager db) (dct_page x)" "dct_page x \<noteq> pid"
    if x: "get_some (dicts db) ci = Some x" for ci x
  proof -
    obtain pg where "pager_get (pager db) (dct_page x) = Some pg" by (rule dicts_ok_page [OF dok x])
    then show "dct_page x \<noteq> pid" using get(1) by auto
    then show "pager_get p' (dct_page x) = pager_get (pager db) (dct_page x)" using get(2) by simp
  qed
  have dp: "dct_page (dict_new pid) = pid" by (simp add: dict_new_def)
  have dk: "dicts_ok ?db"
    unfolding dicts_ok_def
  proof (intro conjI allI impI)
    fix ci x assume x: "get_some (dicts ?db) ci = Some x"
    consider "ci = col" "x = dict_new pid" | "ci \<noteq> col" "get_some (dicts db) ci = Some x"
      using x col len by (auto simp: get_some_update split: if_splits)
    then have "ci < length (schema ?db) \<and> dict_page (schema ?db ! ci) = Some (dct_page x) \<and>
        (\<exists>bs. dict_rep x (pager ?db) bs) \<and> (\<forall>pg. pager_get (pager ?db) (dct_page x) = Some pg \<longrightarrow> pg_kind pg = PkDict)"
    proof cases
      case 1
      then show ?thesis using col rep dp get(2) by (auto simp: page_new_def)
    next
      case 2
      have "dict_rep x p' cs = dict_rep x (pager db) cs" for cs using other(1) [OF 2(2)] by (rule dict_rep_cong)
      moreover have "schema ?db ! ci = schema db ! ci" using 2(1) by simp
      ultimately show ?thesis using dicts_okD(1-3) [OF dok 2(2)] dicts_okD(4) [OF dok 2(2)] other(1) [OF 2(2)] by simp
    qed
    then show "ci < length (schema ?db)" "dict_page (schema ?db ! ci) = Some (dct_page x)"
      "\<exists>bs. dict_rep x (pager ?db) bs"
      "\<And>pg. pager_get (pager ?db) (dct_page x) = Some pg \<Longrightarrow> pg_kind pg = PkDict" by blast+
  next
    fix ci cj x y assume "get_some (dicts ?db) ci = Some x" "get_some (dicts ?db) cj = Some y" "dct_page x = dct_page y"
    then show "ci = cj" using dicts_okD(5) [OF dok] other(2) dp by (auto simp: get_some_update split: if_splits)
  qed
  have "shape_ok ?db" using ok by (auto simp: db_ok_def shape_ok_def)
  moreover have "pages_ok ?db" "rows_ok ?db" "space_ok ?db" "table ?db = table db"
    using same_data_ok [OF ok, of ?db] sd pok' st by simp_all
  ultimately have "frame db ?db" using dk sd st by (simp add: frame_def db_ok_def)
  then show ?thesis using alloc rep col len by (intro exI [of _ ?db] exI [of _ pid]) (simp add: get_some_update)
qed

lemma frame_trans: "frame db db' \<Longrightarrow> frame db' db'' \<Longrightarrow> frame db db''"
  by (simp add: frame_def same_data_def)

text \<open>Interning never changes the table, keeps the invariant, and the id resolves to the string.\<close>

lemma intern_text_ok:
  assumes ok: "db_ok db" and fits: "text_fits db col b"
  shows "\<exists>i db'. intern_text col b db = (Ok i, db') \<and> frame db db' \<and> text_stored db' col i b"
proof -
  obtain c where c: "nth_opt (schema db) col = Some c" "ckind c = KText"
    using fits by (auto simp: text_fits_def split: option.splits)
  then have col: "col < length (schema db)" "schema db ! col = c" by (auto simp: nth_opt_def split: if_splits)
  show ?thesis
  proof (cases "dict_page c")
    case None
    have room: "free_ids (pager db) \<noteq> [] \<or> length (pages (pager db)) < 4294967295" and short: "length b \<le> 116"
      using fits c None by (simp_all add: text_fits_def)
    obtain db1 pid where a: "intern_alloc col db = (Ok (), db1)" "frame db db1"
      "get_some (dicts db1) col = Some (dict_new pid)" "dict_rep (dict_new pid) (pager db1) []"
      using intern_alloc_ok [OF ok col(1) _ room] col(2) None by auto
    have "dict_fits (dict_new pid, pager db1) b"
      using short by (simp add: dict_fits_def dict_new_def dict_page_capacity_def used_bytes_def)
    moreover have "db_ok db1" using a(2) by (simp add: frame_def)
    ultimately obtain i db' where "intern_mirror col b db1 = (Ok i, db')" "frame db1 db'" "text_stored db' col i b"
      using intern_mirror_ok [of db1 col "dict_new pid" b] a(3) by blast
    moreover have "intern_text col b db = intern_mirror col b db1"
      using c None a(1) by (simp add: intern_text_def sbind_def del: nth_opt_Some)
    ultimately show ?thesis using frame_trans [OF a(2)] by metis
  next
    case (Some pid)
    then obtain d where d: "get_some (dicts db) col = Some d" "dict_fits (d, pager db) b"
      using fits c by (auto simp: text_fits_def split: option.splits)
    have "intern_text col b db = intern_mirror col b db"
      using c Some by (simp add: intern_text_def sbind_def sret_def del: nth_opt_Some)
    then show ?thesis using intern_mirror_ok [OF ok d] by simp
  qed
qed

end
