(* ===== verification/Reachable.thy ===== *)
theory Reachable
  imports Interning Compacted
begin

text \<open>
  The engine as a state machine: a step is one completed call of an operation of
  \<open>src/src/mutation.rs\<close> or \<open>src/src/compact.rs\<close> within its bounds, labelled with the call. Not among the
  steps: the in-place repack, which breaks the invariant, and an insert under an id in use, which
  leaves two live slots for that id. Every state the steps reach is well-formed, ids handed out by
  the counter are new, and the table and the counter are those of an abstract machine that runs the
  same calls on a map from ids to rows.
\<close>

section \<open>The step relation\<close>

text \<open>
  The calls. The last argument of a delete or update is \<open>None\<close> where the rows are found by a scan; where
  the index is on the path, the ids it gave.
\<close>

datatype db_call =
    DoIntern nat rstr
  | DoInsert "val list"
  | DoDelete nat cmp_op val "u64 list option"
  | DoUpdate nat val nat cmp_op val "u64 list option"
  | DoSplit u32
  | DoMerge u32
  | DoRead db_stats

definition found_by :: "db \<Rightarrow> nat \<Rightarrow> cmp_op \<Rightarrow> val \<Rightarrow> u64 list option \<Rightarrow> bool" where
  "found_by db col op t x \<longleftrightarrow> (case x of None \<Rightarrow> index_path db col op t = None
     | Some ids \<Rightarrow> index_path db col op t \<noteq> None \<and> collect_matching db col op t = Ok ids)"

inductive db_step :: "db_call \<Rightarrow> db \<Rightarrow> db \<Rightarrow> bool" where
  step_intern: "text_fits db col b \<Longrightarrow> intern_text col b db = (Ok i, db') \<Longrightarrow> db_step (DoIntern col b) db db'"
| step_insert: "db_room db \<Longrightarrow> rid_get (rowids db) (choose_row_id vs db) = None \<Longrightarrow>
    row_storable (schema db) (vs[0 := VInt (choose_row_id vs db)]) \<Longrightarrow>
    insert vs db = (Ok r, db') \<Longrightarrow> db_step (DoInsert vs) db db'"
| step_delete: "col < length (schema db) \<Longrightarrow> found_by db col op t x \<Longrightarrow>
    delete_where col op t db = (Ok n, db') \<Longrightarrow> db_step (DoDelete col op t x) db db'"
| step_update: "db_room db \<Longrightarrow> sc < length (schema db) \<Longrightarrow> storable_in (schema db ! sc) v \<Longrightarrow>
    col < length (schema db) \<Longrightarrow> found_by db col op t x \<Longrightarrow>
    update_where sc v col op t db = (Ok n, db') \<Longrightarrow> db_step (DoUpdate sc v col op t x) db db'"
| step_split: "pager_get (pager db) p = Some pg \<Longrightarrow> pg_kind pg = PkData \<Longrightarrow> page_small db pg \<Longrightarrow>
    free_ids (pager db) \<noteq> [] \<or> length (pages (pager db)) < 4294967295 \<Longrightarrow>
    split_page p db = (Ok (), db') \<Longrightarrow> db_step (DoSplit p) db db'"
| step_merge: "pager_get (pager db) p = Some pg \<Longrightarrow> pg_kind pg = PkData \<Longrightarrow> length (schema db) < 2 ^ 32 \<Longrightarrow>
    \<forall>npg \<in> set (data_pages (pager db)). 12 * (slot_count npg + slot_count pg + 1) < 2 ^ 32 \<Longrightarrow>
    merge_page p db = (Ok (), db') \<Longrightarrow> db_step (DoMerge p) db db'"
| step_count: "db_step (DoRead y) db (db\<lparr>stats := y\<rparr>)"

inductive db_runs :: "db_call list \<Rightarrow> db \<Rightarrow> db \<Rightarrow> bool" where
  runs_Nil: "db_runs [] db db"
| runs_Cons: "db_step c db db1 \<Longrightarrow> db_runs cs db1 db2 \<Longrightarrow> db_runs (c # cs) db db2"

inductive_simps db_runs_simps [simp]: "db_runs [] db db'" "db_runs (c # cs) db db'"

lemma db_runs_append: "db_runs cs db db1 \<Longrightarrow> db_runs ds db1 db2 \<Longrightarrow> db_runs (cs @ ds) db db2"
  by (induction rule: db_runs.induct) auto

section \<open>The abstract machine\<close>

text \<open>
  Its state is a map from ids to rows with the id counter, and what it takes from the schema are the
  storage class and the encoding of each column. It knows nothing of pages, slots, the row-id map,
  free space or encodings.
\<close>

type_synonym tbl = "u64 \<Rightarrow> val list option"

definition kept :: "col_kind \<times> encoding \<Rightarrow> val \<Rightarrow> val" where
  "kept ke v = (if snd ke = Rle then v else cast (fst ke) v)"

definition pick_id :: "val list \<Rightarrow> u64 \<Rightarrow> u64" where
  "pick_id vs n = (case vs of VInt i # _ \<Rightarrow> if 0 < sint i then i else n | _ \<Rightarrow> n)"

definition hits :: "nat \<Rightarrow> cmp_op \<Rightarrow> val \<Rightarrow> u64 list option \<Rightarrow> u64 \<Rightarrow> val list \<Rightarrow> bool" where
  "hits col op t x r row \<longleftrightarrow> (case x of None \<Rightarrow> cmp_apply op (row ! col) t | Some ids \<Rightarrow> r \<in> set ids)"

fun abs_call :: "(col_kind \<times> encoding) list \<Rightarrow> db_call \<Rightarrow> tbl \<times> u64 \<Rightarrow> tbl \<times> u64" where
  "abs_call st (DoInsert vs) (T, n) = (let r = pick_id vs n in
     (T(r \<mapsto> map2 kept st (vs[0 := VInt r])), max n (r + 1)))"
| "abs_call st (DoDelete col op t x) (T, n) =
     (\<lambda>r. case T r of None \<Rightarrow> None | Some row \<Rightarrow> if hits col op t x r row then None else Some row, n)"
| "abs_call st (DoUpdate sc v col op t x) (T, n) =
     (\<lambda>r. case T r of None \<Rightarrow> None | Some row \<Rightarrow> Some (if hits col op t x r row then row[sc := kept (st ! sc) v] else row), n)"
| "abs_call st c (T, n) = (T, n)"

definition abs_state :: "db \<Rightarrow> tbl \<times> u64" where
  "abs_state db = (table db, next_row_id db)"

lemma choose_pick: "choose_row_id vs db = pick_id vs (next_row_id db)"
  by (simp add: choose_row_id_def pick_id_def)

lemma stored_in_kept: "stored_in c v = kept (ckind c, cencoding c) v"
  by (simp add: stored_in_cast kept_def)

lemma stored_row_kept: "stored_row s vs = map2 kept (storage s) vs"
  by (simp add: stored_row_def storage_def map_zip_map) (simp add: stored_in_kept case_prod_beta)

section \<open>What every step keeps\<close>

definition ids_below :: "db \<Rightarrow> bool" where
  "ids_below db \<longleftrightarrow> (\<forall>r \<in> dom (table db). r < next_row_id db)"

definition sound :: "db \<Rightarrow> bool" where
  "sound db \<longleftrightarrow> db_ok db \<and> ids_below db"

lemma ids_below_table:
  "ids_below db \<Longrightarrow> dom (table db') \<subseteq> dom (table db) \<Longrightarrow> next_row_id db' = next_row_id db \<Longrightarrow> ids_below db'"
  by (simp only: ids_below_def) blast

lemma next_put_page [simp]: "next_row_id (put_page p buf ss db) = next_row_id db"
  by (simp add: put_page_def db_rebuf_def)

lemma next_delete_rows: "next_row_id (snd (delete_rows rs db)) = next_row_id db"
proof (induction rs arbitrary: db)
  case (Cons r rs)
  have "next_row_id (snd (delete_row r db)) = next_row_id db"
    by (simp add: delete_row_def split: prod.split option.split)
  then show ?case using Cons [of "snd (delete_row r db)"] by (auto simp: Let_def split: prod.splits)
qed simp

lemma next_delete_where: "next_row_id (snd (delete_where col op t db)) = next_row_id db"
proof -
  have "next_row_id (snd (sbind (slift x) (\<lambda>rs db. let (n, db) = delete_rows rs db in (Ok n, db)) d)) = next_row_id d"
    for x :: "u64 list result" and d
  proof (cases x)
    case (Ok rs)
    then show ?thesis using next_delete_rows [of rs d]
      by (cases "delete_rows rs d") (simp add: sbind_def slift_def)
  qed (simp_all add: sbind_def slift_def)
  then show ?thesis by (simp add: delete_where_def Let_def)
qed

lemma next_update_row: "next_row_id (snd (update_row col v r db)) = next_row_id db"
proof -
  have "next_row_id (snd (rewrite_cell p slot col v db)) = next_row_id db" for p slot
  proof (cases "pager_get (pager db) p")
    case (Some pg)
    then show ?thesis
      by (cases "decode_body (pg_buf pg)") (simp_all add: rewrite_cell_def sbind_def slift_def db_rebuf_def Let_def)
  qed (simp add: rewrite_cell_def)
  then show ?thesis by (simp add: update_row_def split: option.split prod.split)
qed

lemma next_for_each:
  assumes "\<And>x db. next_row_id (snd (f x db)) = next_row_id db"
  shows "next_row_id (snd (for_each f xs db)) = next_row_id db"
proof (induction xs arbitrary: db)
  case (Cons x xs)
  obtain r d where fx: "f x db = (r, d)" by (cases "f x db")
  then have "next_row_id d = next_row_id db" using assms [of x db] by simp
  then show ?case using Cons [of d] fx by (cases r) (simp_all add: sbind_def)
qed (simp add: sret_def)

lemma next_update_where: "next_row_id (snd (update_where sc v col op t db)) = next_row_id db"
proof -
  have "next_row_id (snd (sbind (slift x) (\<lambda>rs. sbind (for_each (update_row sc v) rs) (\<lambda>_. sret (length rs))) d)) = next_row_id d"
    for x :: "u64 list result" and d
  proof (cases x)
    case (Ok rs)
    obtain r e where "for_each (update_row sc v) rs d = (r, e)" by (cases "for_each (update_row sc v) rs d")
    moreover have "next_row_id (snd (for_each (update_row sc v) rs d)) = next_row_id d"
      by (rule next_for_each) (rule next_update_row)
    ultimately show ?thesis using Ok by (cases r) (simp_all add: sbind_def slift_def sret_def)
  qed (simp_all add: sbind_def slift_def)
  then show ?thesis by (simp add: update_where_def Let_def)
qed

lemma next_sbind_slift:
  "(\<And>a. next_row_id (snd (f a db)) = next_row_id db) \<Longrightarrow> next_row_id (snd (sbind (slift x) f db)) = next_row_id db"
  by (cases x) (simp_all add: sbind_def slift_def)

lemma next_split_page: "next_row_id (snd (split_page p db)) = next_row_id db"
proof (cases "pager_get (pager db) p")
  case (Some pg)
  then show ?thesis unfolding split_page_def
    by (simp, intro next_sbind_slift) (auto simp: Let_def split: prod.split res.split)
qed (simp add: split_page_def)

lemma next_merge_page: "next_row_id (snd (merge_page p db)) = next_row_id db"
proof (cases "find (\<lambda>pg. pg_id pg \<noteq> p) (data_pages (pager db))")
  case (Some npg)
  show ?thesis
  proof (cases "pager_get (pager db) p")
    case s: (Some pg)
    have "next_row_id (snd ((case pager_get (pager db) (pg_id npg) of None \<Rightarrow> (Err page_vanished, db)
        | Some npg \<Rightarrow> sbind (slift (decode_body (pg_buf npg))) (f npg) db))) = next_row_id db"
      if "\<And>npg b. next_row_id (snd (f npg b db)) = next_row_id db" for f :: "page \<Rightarrow> body \<Rightarrow> (db, error, unit) op"
      using that by (auto intro: next_sbind_slift split: option.split)
    then show ?thesis unfolding merge_page_def using Some s
      by (simp add: Let_def, intro next_sbind_slift) (auto simp: Let_def split: option.split intro!: next_sbind_slift)
  qed (simp add: merge_page_def Some)
qed (simp add: merge_page_def)

section \<open>One step at a time\<close>

lemma insert_step:
  assumes "sound db" and "db_room db" and "rid_get (rowids db) (choose_row_id vs db) = None"
    and "row_storable (schema db) (vs[0 := VInt (choose_row_id vs db)])" and ins: "insert vs db = (Ok r, db')"
  shows "sound db' \<and> schema db' = schema db \<and> abs_state db' = abs_call (storage (schema db)) (DoInsert vs) (abs_state db)"
proof -
  let ?r = "choose_row_id vs db"
  have ok: "db_ok db" and below: "ids_below db" using assms(1) by (simp_all add: sound_def)
  have s: "schema db \<noteq> []" using ok by (auto simp: db_ok_def shape_ok_def)
  have "length vs = arity (schema db)" using ins by (simp add: insert_def split: if_splits)
  then have len: "length vs = length (schema db)" using s by (simp add: arity_def)
  have ne: "?r \<noteq> - 1" using ins len s by (auto simp: insert_def arity_def Let_def)
  obtain db1 where d: "insert vs db = (Ok ?r, db1)" "db_ok db1" "schema db1 = schema db"
    "table db1 = (table db)(?r \<mapsto> stored_row (schema db) (vs[0 := VInt ?r]))" "next_row_id db1 = max (next_row_id db) (?r + 1)"
    by (rule insert_ok [OF ok assms(2) len refl ne assms(3,4)])
  have db': "db' = db1" using d(1) ins by simp
  have up: "?r < ?r + 1" 
  proof -
    have "1 + ?r \<noteq> 0" using ne by (metis add.commute eq_neg_iff_add_eq_0)
    then show ?thesis using unatSuc [of ?r] by (simp add: word_less_nat_alt add.commute)
  qed
  have "ids_below db1" unfolding ids_below_def
  proof
    fix x assume "x \<in> dom (table db1)"
    then have "x = ?r \<or> x < next_row_id db" using d(4) below by (auto simp: ids_below_def split: if_splits)
    then show "x < next_row_id db1" using up by (auto simp: d(5) less_max_iff_disj)
  qed
  moreover have "abs_state db1 = abs_call (storage (schema db)) (DoInsert vs) (abs_state db)"
    by (simp add: abs_state_def d(4,5) choose_pick stored_row_kept Let_def)
  ultimately show ?thesis using d(2,3) by (simp add: db' sound_def)
qed

text \<open>The ids a delete or an update works on, with the rows they hit.\<close>

lemma found_rows:
  assumes ok: "db_ok db" and col: "col < length (schema db)" and f: "found_by db col op t x" and c: "collect_matching db col op t = Ok ids"
  shows "table db r = Some row \<Longrightarrow> r \<in> set ids \<longleftrightarrow> hits col op t x r row"
proof (cases x)
  case None
  have "nth_opt (schema db) col = Some (schema db ! col)" using col by simp
  then have "ids = scan_matching db col op t"
    using c f None by (simp add: found_by_def collect_matching_def del: nth_opt_Some)
  then show "table db r = Some row \<Longrightarrow> ?thesis" using scan_matching_table [OF ok col] by (simp add: hits_def None)
next
  case (Some js)
  then show "table db r = Some row \<Longrightarrow> ?thesis" using c f by (simp add: found_by_def hits_def)
qed

lemma delete_step:
  assumes "sound db" and col: "col < length (schema db)" and f: "found_by db col op t x"
    and del: "delete_where col op t db = (Ok n, db')"
  shows "sound db' \<and> schema db' = schema db \<and>
    abs_state db' = abs_call (storage (schema db)) (DoDelete col op t x) (abs_state db)"
proof -
  let ?db = "db\<lparr>stats := (stats db)\<lparr>st_deletes := st_deletes (stats db) + 1\<rparr>\<rparr>"
  have ok: "db_ok db" using assms(1) by (simp add: sound_def)
  then have ok': "db_ok ?db" by simp
  obtain ids where c: "collect_matching db col op t = Ok ids"
    using del by (cases "collect_matching db col op t") (simp_all add: delete_where_def sbind_def)
  obtain m d1 where d1: "delete_rows ids ?db = (m, d1)" by (cases "delete_rows ids ?db")
  then have d: "delete_rows ids ?db = (m, db')" using del c by (simp add: delete_where_def sbind_def)
  note facts = delete_rows_ok [OF ok', of ids, unfolded d, simplified]
  have nx: "next_row_id db' = next_row_id db" using next_delete_where [of col op t db] del by simp
  have t: "table db' = (\<lambda>r. case table db r of None \<Rightarrow> None | Some row \<Rightarrow> if hits col op t x r row then None else Some row)"
    using facts(2) found_rows [OF ok col f c] by (auto simp: fun_eq_iff restrict_map_def split: option.split)
  then have "dom (table db') \<subseteq> dom (table db)" by (auto simp: dom_def split: option.splits)
  then have "ids_below db'" using ids_below_table assms(1) nx unfolding sound_def by blast
  then show ?thesis using facts by (simp add: sound_def abs_state_def t nx)
qed

lemma update_step:
  assumes "sound db" and room: "db_room db" and sc: "sc < length (schema db)" "storable_in (schema db ! sc) v"
    and col: "col < length (schema db)" and f: "found_by db col op t x"
    and upd: "update_where sc v col op t db = (Ok n, db')"
  shows "sound db' \<and> schema db' = schema db \<and>
    abs_state db' = abs_call (storage (schema db)) (DoUpdate sc v col op t x) (abs_state db)"
proof -
  let ?db = "db\<lparr>stats := (stats db)\<lparr>st_updates := st_updates (stats db) + 1\<rparr>\<rparr>"
  have ok: "db_ok db" using assms(1) by (simp add: sound_def)
  obtain ids where c: "collect_matching db col op t = Ok ids" and u: "for_each (update_row sc v) ids ?db = (Ok (), db')"
    using upd by (auto simp: update_where_def sbind_eq_Ok sret_def)
  let ?w = "stored_in (schema db ! sc) v"
  obtain db1 where d: "for_each (update_row sc v) ids ?db = (Ok (), db1)" "db_ok db1" "schema db1 = schema ?db"
    "\<And>r. table db1 r = (if r \<in> set ids then map_option (\<lambda>row. row[sc := stored_in (schema ?db ! sc) v]) (table ?db r) else table ?db r)"
    by (rule update_rows_ok [of ?db sc v ids]) (use ok room sc in auto)
  have db': "db' = db1" using d(1) u by simp
  have nx: "next_row_id db' = next_row_id db" using next_update_where [of sc v col op t db] upd by simp
  have w: "?w = kept (storage (schema db) ! sc) v" using sc(1) by (simp add: stored_in_kept storage_def)
  have t: "table db' = (\<lambda>r. case table db r of None \<Rightarrow> None
      | Some row \<Rightarrow> Some (if hits col op t x r row then row[sc := kept (storage (schema db) ! sc) v] else row))"
    using d(4) found_rows [OF ok col f c] by (auto simp: fun_eq_iff db' w [symmetric] split: option.split)
  then have "dom (table db') \<subseteq> dom (table db)" by (auto simp: dom_def split: option.splits)
  then have "ids_below db'" using ids_below_table assms(1) nx unfolding sound_def by blast
  moreover have "db_ok db'" "schema db' = schema db" using d(2,3) by (simp_all add: db')
  ultimately show ?thesis by (simp add: sound_def abs_state_def t nx)
qed

lemma same_table_step:
  assumes "sound db" and "db_ok db'" and "table db' = table db" and "next_row_id db' = next_row_id db"
  shows "sound db' \<and> abs_state db' = abs_state db"
  using assms ids_below_table [of db db'] by (auto simp: sound_def abs_state_def)

lemma db_step_sound:
  assumes "db_step c db db'" and s: "sound db"
  shows "sound db' \<and> storage (schema db') = storage (schema db) \<and>
    abs_state db' = abs_call (storage (schema db)) c (abs_state db)"
  using assms(1)
proof cases
  case (step_intern col b i)
  have "db_ok db" using s by (simp add: sound_def)
  from intern_text_ok [OF this step_intern(2)] step_intern(3) have "frame db db'" by auto
  then show ?thesis using same_table_step [OF s, of db'] step_intern(1) unfolding frame_def by (auto simp: abs_state_def)
next
  case (step_insert vs r)
  from insert_step [OF s step_insert(2-5)] show ?thesis unfolding step_insert(1) by (simp del: abs_call.simps)
next
  case (step_delete col op t x n)
  from delete_step [OF s step_delete(2-4)] show ?thesis unfolding step_delete(1) by (simp del: abs_call.simps)
next
  case (step_update sc v col op t x n)
  from update_step [OF s step_update(2-7)] show ?thesis unfolding step_update(1) by (simp del: abs_call.simps)
next
  case (step_split p pg)
  have "db_ok db" using s by (simp add: sound_def)
  from split_page_ok [OF this step_split(2-5)] step_split(6) have "db_ok db'" "table db' = table db" "schema db' = schema db" by auto
  then show ?thesis using same_table_step [OF s] next_split_page [of p db] step_split(1,6) by (simp add: abs_state_def)
next
  case (step_merge p pg)
  have "db_ok db" using s by (simp add: sound_def)
  from merge_page_ok [OF this step_merge(2-5)] step_merge(6) have "db_ok db'" "table db' = table db" "schema db' = schema db" by auto
  then show ?thesis using same_table_step [OF s] next_merge_page [of p db] step_merge(1,6) by (simp add: abs_state_def)
next
  case (step_count y)
  then show ?thesis using s same_table_step [OF s, of db'] by (simp add: sound_def abs_state_def)
qed

text \<open>A run of calls refines the run of the abstract machine.\<close>

lemma db_runs_abs:
  "db_runs cs db db' \<Longrightarrow> sound db \<Longrightarrow> sound db' \<and> storage (schema db') = storage (schema db) \<and>
     abs_state db' = fold (abs_call (storage (schema db))) cs (abs_state db)"
proof (induction rule: db_runs.induct)
  case (runs_Cons c db db1 cs db2)
  then show ?case using db_step_sound [of c db db1] by simp
qed simp

text \<open>The id the counter offers is never in use.\<close>

lemma sound_next_fresh: "sound db \<Longrightarrow> rid_get (rowids db) (next_row_id db) = None"
  using db_ok_table_dom [of db] by (auto simp: sound_def ids_below_def)

end
