(* ===== verification/ScriptRuns.thy ===== *)
theory ScriptRuns
  imports Scripts Reachable
begin

text \<open>
  What a script run (\<open>run_script\<close> of \<open>src/src/script.rs\<close>) guarantees: its report adds up, reading
  statements change nothing but the counters, and a statement within its bounds does to the table what
  the abstract machine of Reachable does for its call.
\<close>

section \<open>The report\<close>

lemma run_statement_cases:
  assumes "run_statement addr raw rep db = (Ok rep', db')"
  obtains "trim raw = []" "rep' = rep" "db' = db"
    | e where "trim raw \<noteq> []" "parse_statement (schema db) (trim raw) = Err e" "db' = db"
        "rep' = count_error (rep\<lparr>rep_statements := rep_statements rep + 1\<rparr>)"
    | st e where "trim raw \<noteq> []" "parse_statement (schema db) (trim raw) = Ok st" "execute addr st db = (Err e, db')"
        "rep' = count_error (rep\<lparr>rep_statements := rep_statements rep + 1\<rparr>)"
    | st n where "trim raw \<noteq> []" "parse_statement (schema db) (trim raw) = Ok st" "execute addr st db = (Ok n, db')"
        "rep' = rep\<lparr>rep_statements := rep_statements rep + 1, rep_executed := rep_executed rep + 1, rep_rows := rep_rows rep + n\<rparr>"
proof (cases "trim raw = []")
  case True
  then show thesis using assms that(1) by (simp add: run_statement_def Let_def)
next
  case ne: False
  show thesis
  proof (cases "parse_statement (schema db) (trim raw)")
    case (Ok st)
    obtain r d where x: "execute addr st db = (r, d)" by (cases "execute addr st db")
    show thesis
    proof (cases r)
      case r: (Ok n)
      then show thesis using assms that(4) [OF ne Ok] x ne Ok by (simp add: run_statement_def Let_def split: if_splits)
    next
      case r: (Err e)
      then show thesis using assms x ne Ok by (intro that(3) [OF ne Ok]) (simp_all add: run_statement_def Let_def)
    qed (use assms x ne Ok in \<open>simp_all add: run_statement_def Let_def\<close>)
  next
    case (Err e)
    then show thesis using assms ne by (intro that(2) [OF ne Err]) (simp_all add: run_statement_def Let_def)
  qed (use assms ne in \<open>simp_all add: run_statement_def Let_def\<close>)
qed

definition statements :: "u8 list list \<Rightarrow> nat" where
  "statements raws = length (filter (\<lambda>raw. trim raw \<noteq> []) raws)"

definition adds_up :: "report \<Rightarrow> bool" where
  "adds_up rep \<longleftrightarrow> rep_executed rep + rep_errors rep = rep_statements rep"

lemma run_statements_report:
  assumes "run_statements addr raws rep db = (Ok rep', db')" and "adds_up rep"
  shows "adds_up rep' \<and> rep_statements rep' = rep_statements rep + statements raws"
  using assms
proof (induction raws arbitrary: rep db)
  case (Cons raw raws)
  obtain rep1 db1 where one: "run_statement addr raw rep db = (Ok rep1, db1)"
    and rest: "run_statements addr raws rep1 db1 = (Ok rep', db')"
    using Cons.prems(1) by (auto simp: sbind_eq_Ok)
  have "adds_up rep1 \<and> rep_statements rep1 = rep_statements rep + statements [raw]"
    using one by (cases rule: run_statement_cases)
      (use Cons.prems(2) in \<open>auto simp: adds_up_def statements_def count_error_def\<close>)
  then show ?case using Cons.IH [OF rest] by (auto simp: statements_def)
qed (simp add: sret_def statements_def)

text \<open>A run returns a report unless an operation faults: errors are counted, not returned.\<close>

lemma run_statements_no_error: "fst (run_statements addr raws rep db) \<noteq> Err e"
proof (induction raws arbitrary: rep db)
  case (Cons raw raws)
  have "fst (run_statement addr raw rep db) \<noteq> Err x" for x
    by (auto simp: run_statement_def Let_def split: res.split prod.split)
  then show ?case using Cons
    by (cases "run_statement addr raw rep db") (auto simp: sbind_def split: res.split)
qed (simp add: sret_def)

section \<open>Reading statements\<close>

definition literal :: "operand \<Rightarrow> bool" where
  "literal x \<longleftrightarrow> (case x of OVal _ \<Rightarrow> True | OStr _ \<Rightarrow> False)"

fun reading :: "stmt \<Rightarrow> bool" where
  "reading SScan = True"
| "reading (SScanWhere c op t) = literal t"
| "reading (SIndexScan c t) = literal t"
| "reading SJoin = True"
| "reading SCheckpoint = True"
| "reading (SAgg c) = True"
| "reading st = False"

definition same_but_stats :: "db \<Rightarrow> db \<Rightarrow> bool" where
  "same_but_stats db db' \<longleftrightarrow> (\<exists>y. db' = db\<lparr>stats := y\<rparr>)"

lemma same_but_stats_intros [intro]: "same_but_stats db db" "same_but_stats db (db\<lparr>stats := y\<rparr>)" "same_but_stats db (count_scan db)"
proof -
  have "db = db\<lparr>stats := stats db\<rparr>" by simp
  then show "same_but_stats db db" unfolding same_but_stats_def by blast
qed (auto simp: same_but_stats_def count_scan_def)

lemma resolve_literal: "literal t \<Longrightarrow> \<exists>r. resolve_operand c t db = (r, db)"
  by (cases t) (auto simp: literal_def resolve_operand_def split: option.split)

lemma slift_state: "snd (slift r db) = db"
  by (simp add: slift_def)

lemma index_scan_state: "same_but_stats db (snd (index_scan col t db))"
  by (auto simp: index_scan_def Let_def slift_def)

lemma scan_where_state: "same_but_stats db (snd (scan_where col op t db))"
proof -
  have "same_but_stats db (snd (index_scan col t (count_scan db)))"
    using index_scan_state [of "count_scan db"] by (auto simp: same_but_stats_def count_scan_def)
  then show ?thesis by (auto simp: scan_where_def Let_def slift_def)
qed

lemma sbind_state:
  assumes "\<And>a s'. m s = (Ok a, s') \<Longrightarrow> P (snd (f a s'))" and "P (snd (m s))"
  shows "P (snd (sbind m f s))"
  using assms by (cases "m s"; cases "fst (m s)") (auto simp: sbind_def)

lemma reading_same:
  assumes "reading st"
  shows "same_but_stats db (snd (execute addr st db))"
proof (cases st)
  case (SScanWhere c op t)
  obtain r where r: "resolve_operand c t db = (r, db)" using resolve_literal assms SScanWhere by (metis reading.simps(2))
  have "same_but_stats db (snd (sbind (scan_where c op v) (\<lambda>rows. sret (length rows)) db))" for v
    using scan_where_state [of db c op v] by (cases "scan_where c op v db"; cases "fst (scan_where c op v db)") (auto simp: sbind_def sret_def)
  then show ?thesis using r by (cases r) (auto simp: SScanWhere execute_def sbind_def [of "resolve_operand c t"])
next
  case (SIndexScan c t)
  obtain r where r: "resolve_operand c t db = (r, db)" using resolve_literal assms SIndexScan by (metis reading.simps(3))
  have "same_but_stats db (snd (sbind (index_scan c v) (\<lambda>rows. sret (length rows)) db))" for v
    using index_scan_state [of db c v] by (cases "index_scan c v db"; cases "fst (index_scan c v db)") (auto simp: sbind_def sret_def)
  then show ?thesis using r by (cases r) (auto simp: SIndexScan execute_def sbind_def [of "resolve_operand c t"])
qed (use assms in \<open>auto simp: execute_def scan_all_rows merge_join_def aggregate_def checkpoint_def Let_def split: res.split\<close>)

section \<open>Counting\<close>

lemma scan_rows_card:
  assumes "db_ok db"
  shows "length (scan_rows db) = card (dom (table db))"
proof -
  have "row_id ` set (scan_rows db) = dom (table db)"
  proof
    show "row_id ` set (scan_rows db) \<subseteq> dom (table db)" using scan_rows_table [OF assms] by force
    show "dom (table db) \<subseteq> row_id ` set (scan_rows db)"
    proof
      fix r assume "r \<in> dom (table db)"
      then obtain vs where "table db r = Some vs" by blast
      then have "\<lparr>row_id = r, row_vals = vs\<rparr> \<in> set (scan_rows db)" by (simp add: scan_rows_table [OF assms])
      then show "r \<in> row_id ` set (scan_rows db)" by force
    qed
  qed
  then show ?thesis using distinct_card [OF scan_rows_distinct [OF assms]] by simp
qed

lemma execute_scan_count: "db_ok db \<Longrightarrow> execute addr SScan db = (Ok (card (dom (table db))), count_scan db)"
  by (simp add: execute_def scan_all_rows scan_rows_card)

section \<open>Statements and the abstract machine\<close>

definition operand_fits :: "nat \<Rightarrow> operand \<Rightarrow> db \<Rightarrow> bool" where
  "operand_fits ci x db \<longleftrightarrow> (case x of OVal _ \<Rightarrow> True | OStr b \<Rightarrow> text_fits db ci b)"

fun operands_fit :: "nat \<Rightarrow> operand list \<Rightarrow> db \<Rightarrow> bool" where
  "operands_fit ci [] db = True"
| "operands_fit ci (x # xs) db = (operand_fits ci x db \<and> operands_fit (Suc ci) xs (snd (resolve_operand ci x db)))"

text \<open>Resolving the operands may intern strings, which the abstract machine does not see.\<close>

definition quiet_step :: "db \<Rightarrow> db \<Rightarrow> bool" where
  "quiet_step db db' \<longleftrightarrow> (sound db \<longrightarrow> sound db') \<and>
     (sound db \<longrightarrow> storage (schema db') = storage (schema db) \<and> abs_state db' = abs_state db)"

lemma quiet_step_trans: "quiet_step db d \<Longrightarrow> quiet_step d db' \<Longrightarrow> quiet_step db db'"
  by (simp add: quiet_step_def)

lemma quiet_step_intern: "db_step (DoIntern col b) db db' \<Longrightarrow> quiet_step db db'"
  using db_step_sound [of "DoIntern col b" db db'] by (simp add: quiet_step_def abs_state_def)

lemma resolve_operand_quiet:
  assumes "resolve_operand ci x db = (Ok v, db')" and "operand_fits ci x db"
  shows "quiet_step db db'"
proof (cases x)
  case (OVal w)
  then show ?thesis using assms(1) by (auto simp: resolve_operand_def quiet_step_def split: option.splits)
next
  case (OStr b)
  then have fits: "text_fits db ci b" using assms(2) by (simp add: operand_fits_def)
  obtain c where c: "nth_opt (schema db) ci = Some c" "ckind c = KText"
    using fits by (auto simp: text_fits_def split: option.splits)
  then have "db_step (DoIntern ci b) db db'" using assms(1) OStr c
    by (auto simp: resolve_operand_def sbind_eq_Ok sret_def simp del: nth_opt_Some intro: step_intern [OF fits])
  then show ?thesis by (rule quiet_step_intern)
qed

lemma resolve_operands_quiet:
  "resolve_operands ci xs db = (Ok vs, db') \<Longrightarrow> operands_fit ci xs db \<Longrightarrow> quiet_step db db'"
proof (induction xs arbitrary: ci db vs)
  case (Cons x xs)
  obtain v db1 ws where "resolve_operand ci x db = (Ok v, db1)" "resolve_operands (Suc ci) xs db1 = (Ok ws, db')"
    using Cons.prems(1) by (auto simp: sbind_eq_Ok sret_def)
  then have "quiet_step db db1" "quiet_step db1 db'"
    using Cons.IH [of "Suc ci" db1 ws] Cons.prems(2) resolve_operand_quiet [of ci x db v db1] by simp_all
  then show ?case by (rule quiet_step_trans)
qed (auto simp: sret_def quiet_step_def)

text \<open>The call a statement makes once its operands are resolved, and the ids an index gave it.\<close>

definition found :: "db \<Rightarrow> nat \<Rightarrow> cmp_op \<Rightarrow> val \<Rightarrow> u64 list option" where
  "found db col op t = (if index_path db col op t = None then None
     else (case collect_matching db col op t of Ok ids \<Rightarrow> Some ids | _ \<Rightarrow> None))"

lemma found_by_found: "collect_matching db col op t = Ok ids \<Longrightarrow> found_by db col op t (found db col op t)"
  by (simp add: found_by_def found_def)

fun stmt_call :: "stmt \<Rightarrow> db \<Rightarrow> db_call option" where
  "stmt_call (SInsert xs) db = (case resolve_operands 0 xs db of (Ok vs, d) \<Rightarrow> Some (DoInsert vs) | _ \<Rightarrow> None)"
| "stmt_call (SDelete c op t) db = (case resolve_operand c t db of
     (Ok v, d) \<Rightarrow> Some (DoDelete c op v (found d c op v)) | _ \<Rightarrow> None)"
| "stmt_call (SUpdate sc sv c op t) db = (case resolve_operand sc sv db of
     (Ok v, d) \<Rightarrow> (case resolve_operand c t d of
       (Ok w, d) \<Rightarrow> Some (DoUpdate sc v c op w (found d c op w)) | _ \<Rightarrow> None) | _ \<Rightarrow> None)"
| "stmt_call st db = None"

text \<open>The bounds within which a statement runs, checked where the code uses them.\<close>

fun ready :: "stmt \<Rightarrow> db \<Rightarrow> bool" where
  "ready (SInsert xs) db = (operands_fit 0 xs db \<and> (case resolve_operands 0 xs db of (Ok vs, d) \<Rightarrow>
      db_room d \<and> rid_get (rowids d) (choose_row_id vs d) = None \<and>
      row_storable (schema d) (vs[0 := VInt (choose_row_id vs d)]) | _ \<Rightarrow> True))"
| "ready (SDelete c op t) db = (operand_fits c t db \<and> c < length (schema db))"
| "ready (SUpdate sc sv c op t) db = (operand_fits sc sv db \<and> (case resolve_operand sc sv db of (Ok v, d) \<Rightarrow>
      operand_fits c t d \<and> (case resolve_operand c t d of (Ok w, d) \<Rightarrow>
        db_room d \<and> sc < length (schema d) \<and> storable_in (schema d ! sc) v \<and> c < length (schema d)
      | _ \<Rightarrow> True) | _ \<Rightarrow> True))"
| "ready SCompact db = False"
| "ready st db = reading st"

lemma delete_where_collects: "delete_where col op t db = (Ok n, db') \<Longrightarrow> \<exists>ids. collect_matching db col op t = Ok ids"
  by (cases "collect_matching db col op t") (simp_all add: delete_where_def sbind_def)

lemma update_where_collects: "update_where sc v col op t db = (Ok n, db') \<Longrightarrow> \<exists>ids. collect_matching db col op t = Ok ids"
  by (cases "collect_matching db col op t") (simp_all add: update_where_def sbind_def)

text \<open>After the quiet steps that resolve the operands, one step of the call.\<close>

lemma step_after_quiet:
  assumes "quiet_step db d" and "sound db" and "db_step c d db'"
  shows "sound db' \<and> abs_state db' = abs_call (storage (schema db)) c (abs_state db)"
  using assms db_step_sound [of c d db'] by (simp add: quiet_step_def)

lemma quiet_storage: "quiet_step db d \<Longrightarrow> sound db \<Longrightarrow> length (schema d) = length (schema db)"
  by (metis quiet_step_def storage_def length_map)

lemma execute_refines:
  assumes x: "execute addr st db = (Ok n, db')" and r: "ready st db" and s: "sound db"
  shows "sound db' \<and> abs_state db' = (case stmt_call st db of None \<Rightarrow> abs_state db
    | Some c \<Rightarrow> abs_call (storage (schema db)) c (abs_state db))"
proof -
  have read: "sound db' \<and> abs_state db' = abs_state db" if "reading st"
  proof -
    have "same_but_stats db db'" using reading_same [OF that, of db addr] x by simp
    then show ?thesis using s by (auto simp: same_but_stats_def sound_def abs_state_def ids_below_def)
  qed
  show ?thesis
  proof (cases st)
    case (SInsert xs)
    obtain vs d i where d: "resolve_operands 0 xs db = (Ok vs, d)" "insert vs d = (Ok i, db')"
      using x by (auto simp: SInsert execute_def sbind_eq_Ok sret_def)
    then have q: "quiet_step db d" using resolve_operands_quiet r SInsert by auto
    have "db_step (DoInsert vs) d db'" using r SInsert d by (auto intro: step_insert)
    from step_after_quiet [OF q s this] show ?thesis using d(1) by (simp add: SInsert del: abs_call.simps)
  next
    case (SDelete c op t)
    obtain v d i where d: "resolve_operand c t db = (Ok v, d)" "delete_where c op v d = (Ok i, db')"
      using x by (auto simp: SDelete execute_def sbind_eq_Ok sret_def)
    then have q: "quiet_step db d" using resolve_operand_quiet r SDelete by auto
    have "c < length (schema d)" using r SDelete quiet_storage [OF q s] by simp
    then have "db_step (DoDelete c op v (found d c op v)) d db'"
      using d(2) delete_where_collects [OF d(2)] by (auto intro: step_delete found_by_found)
    from step_after_quiet [OF q s this] show ?thesis using d(1) by (simp add: SDelete del: abs_call.simps)
  next
    case (SUpdate sc sv c op t)
    obtain v d w e i where d: "resolve_operand sc sv db = (Ok v, d)" "resolve_operand c t d = (Ok w, e)"
      "update_where sc v c op w e = (Ok i, db')"
      using x by (auto simp: SUpdate execute_def sbind_eq_Ok sret_def)
    have f: "operand_fits sc sv db" "operand_fits c t d" "db_room e" "sc < length (schema e)"
      "storable_in (schema e ! sc) v" "c < length (schema e)" using r d by (simp_all add: SUpdate)
    have q: "quiet_step db e"
      by (rule quiet_step_trans [OF resolve_operand_quiet [OF d(1) f(1)] resolve_operand_quiet [OF d(2) f(2)]])
    have "db_step (DoUpdate sc v c op w (found e c op w)) e db'"
      using d(3) f(3-6) update_where_collects [OF d(3)] by (auto intro: step_update found_by_found)
    from step_after_quiet [OF q s this] show ?thesis using d(1,2) by (simp add: SUpdate del: abs_call.simps)
  qed (use r read in auto)
qed

end
