(* ===== verification/ScriptText.thy ===== *)
theory ScriptText
  imports Parsers
begin

text \<open>
  Writing a statement and parsing it back: every statement whose literals are null, booleans,
  integers or quoted text is the parse of its own text (\<open>parse_statement\<close> of \<open>src/src/script.rs\<close>).
\<close>

section \<open>Writing statements\<close>

fun print_op :: "cmp_op \<Rightarrow> rstr" where
  "print_op OpEq = str ''=''"
| "print_op OpNe = str ''!=''"
| "print_op OpLt = str ''<''"
| "print_op OpLe = str ''<=''"
| "print_op OpGt = str ''>''"
| "print_op OpGe = str ''>=''"

definition print_int :: "i64 \<Rightarrow> rstr" where
  "print_int i = (if sint i < 0 then 45 # show_nat (nat (- sint i)) else show_nat (nat (sint i)))"

fun print_operand :: "operand \<Rightarrow> rstr" where
  "print_operand (OVal VNull) = str ''null''"
| "print_operand (OVal (VBool b)) = (if b then str ''true'' else str ''false'')"
| "print_operand (OVal (VInt i)) = print_int i"
| "print_operand (OStr b) = 34 # b @ [34]"
| "print_operand (OVal v) = []"

fun printable :: "operand \<Rightarrow> bool" where
  "printable (OVal (VReal r)) = False"
| "printable (OVal (VText i)) = False"
| "printable (OStr b) = (utf8_valid b \<and> 34 \<notin> set b)"
| "printable (OVal v) = True"

fun stmt_tokens :: "stmt \<Rightarrow> rstr list" where
  "stmt_tokens (SInsert xs) = str ''insert'' # map print_operand xs"
| "stmt_tokens (SUpdate sc sv c op t) = [str ''update'', str ''set'', show_nat sc, print_operand sv,
     str ''where'', show_nat c, print_op op, print_operand t]"
| "stmt_tokens (SDelete c op t) = [str ''delete'', str ''where'', show_nat c, print_op op, print_operand t]"
| "stmt_tokens SScan = [str ''scan'']"
| "stmt_tokens (SScanWhere c op t) = [str ''scan'', str ''where'', show_nat c, print_op op, print_operand t]"
| "stmt_tokens (SIndexScan c t) = [str ''index_scan'', show_nat c, print_operand t]"
| "stmt_tokens SJoin = [str ''join'']"
| "stmt_tokens SCompact = [str ''compact'']"
| "stmt_tokens SCheckpoint = [str ''checkpoint'']"
| "stmt_tokens (SAgg c) = [str ''agg'', show_nat c]"

fun stmt_printable :: "stmt \<Rightarrow> bool" where
  "stmt_printable (SInsert xs) = list_all printable xs"
| "stmt_printable (SUpdate sc sv c op t) = (sc < 2 ^ 64 \<and> printable sv \<and> c < 2 ^ 64 \<and> printable t)"
| "stmt_printable (SDelete c op t) = (c < 2 ^ 64 \<and> printable t)"
| "stmt_printable (SScanWhere c op t) = (c < 2 ^ 64 \<and> printable t)"
| "stmt_printable (SIndexScan c t) = (c < 2 ^ 64 \<and> printable t)"
| "stmt_printable (SAgg c) = (c < 2 ^ 64)"
| "stmt_printable st = True"

definition spaced :: "rstr list \<Rightarrow> u8 list" where
  "spaced ts = concat (map (\<lambda>t. t @ [32]) ts)"

definition print_stmt :: "stmt \<Rightarrow> u8 list" where
  "print_stmt st = spaced (stmt_tokens st)"

section \<open>Numbers\<close>

lemma digit_bounds: "n < 10 \<Longrightarrow> unat (word_of_nat (48 + n) :: u8) = 48 + n"
  by (simp add: unat_of_nat del: of_nat_add of_nat_numeral)

lemma digit_ok: "n < 10 \<Longrightarrow> is_digit (word_of_nat (48 + n)) \<and> digit_val (word_of_nat (48 + n)) = n"
  using digit_bounds [of n] by (simp add: is_digit_def digit_val_def word_le_nat_alt del: of_nat_add of_nat_numeral)

lemma show_nat_digits: "list_all is_digit (show_nat n)"
proof (induction n rule: show_nat.induct)
  case (1 n)
  show ?case by (subst show_nat.simps) (use 1 digit_ok [of n] digit_ok [of "n mod 10"] in auto)
qed

lemma decimal_show: "decimal (show_nat n) = n"
proof (induction n rule: show_nat.induct)
  case (1 n)
  show ?case
  proof (cases "n < 10")
    case True
    then show ?thesis using digit_ok [of n] by (subst show_nat.simps) (simp add: decimal_def)
  next
    case False
    then show ?thesis using 1 digit_ok [of "n mod 10"] by (subst show_nat.simps) (simp add: decimal_snoc)
  qed
qed

lemma digit_hd: "is_digit b \<Longrightarrow> b \<noteq> 45 \<and> b \<noteq> 43 \<and> b \<noteq> 34 \<and> b < 128"
  by (auto simp: is_digit_def word_le_nat_alt word_less_nat_alt)

lemma show_nat_split: "split_sign (show_nat n) = (False, show_nat n)"
proof -
  obtain b r where s: "show_nat n = b # r" using show_nat_ne [of n] by (cases "show_nat n") auto
  then show ?thesis using show_nat_digits [of n] digit_hd [of b] by (simp add: split_sign_def)
qed

lemma all_digits_show: "all_digits (show_nat n)"
  using show_nat_digits by (simp add: all_digits_def)

lemma parse_usize_show: "n < 2 ^ 64 \<Longrightarrow> parse_usize (show_nat n) = Some n"
  by (simp add: parse_usize_def show_nat_split all_digits_show decimal_show)

lemma parse_i64_print: "parse_i64 (print_int i) = Some i"
proof (cases "sint i < 0")
  case True
  have "- sint i \<le> 2 ^ 63" using sint_range_size [of i] by (simp add: word_size)
  then show ?thesis using True
    by (simp add: parse_i64_def print_int_def split_sign_def all_digits_show decimal_show nat_le_iff)
next
  case False
  have "sint i < 2 ^ 63" using sint_range_size [of i] by (simp add: word_size)
  then have "nat (sint i) < 2 ^ 63" by (simp add: nat_less_iff)
  moreover have "word_of_nat (nat (sint i)) = i" using False by simp
  ultimately show ?thesis using False
    by (simp add: parse_i64_def print_int_def show_nat_split all_digits_show decimal_show)
qed

section \<open>Words\<close>

text \<open>A token the lexer cuts out whole in front of a space.\<close>

definition one_token :: "rstr \<Rightarrow> bool" where
  "one_token t \<longleftrightarrow> (\<forall>r. lex_tokens (t @ 32 # r) = rbind (lex_tokens r) (\<lambda>ts. Ok (t # ts)))"

lemma lex_space: "lex_tokens (32 # r) = lex_tokens r"
  by (rule lex_round) (simp add: ascii_ws_def)

lemma word_byteD: "word_byte b \<Longrightarrow> \<not> (ascii_ws b \<or> b = 59) \<and> b \<noteq> 34 \<and> \<not> op_byte b"
  by (auto simp: word_byte_def)

lemma not_two_op: "\<not> op_byte c \<Longrightarrow> \<not> two_op [b, c]"
  by (auto simp: two_op_def str_def op_byte_def)

lemma one_token_word:
  assumes "t \<noteq> []" and "list_all word_byte t" and "\<forall>b \<in> set t. b < 128"
  shows "one_token t"
  unfolding one_token_def
proof
  fix r
  obtain b w where t: "t = b # w" using assms(1) by (cases t) auto
  have b: "\<not> (ascii_ws b \<or> b = 59)" "b \<noteq> 34" "\<not> op_byte b" and w: "list_all word_byte w"
    using assms(2) word_byteD [of b] by (auto simp: t)
  have sp: "\<not> word_byte 32" "\<not> op_byte (32 :: u8)" by (simp_all add: word_byte_def ascii_ws_def op_byte_def)
  have tw: "takeWhile word_byte (w @ 32 # r) = w" "dropWhile word_byte (w @ 32 # r) = 32 # r"
    using w sp by (simp_all add: takeWhile_append2 dropWhile_append2 list_all_iff)
  have "\<not> op_byte (hd (w @ 32 # r))" using w sp word_byteD by (cases w) auto
  then have no: "\<not> (w @ 32 # r \<noteq> [] \<and> two_op [b, hd (w @ 32 # r)])" using not_two_op by blast
  have "utf8_valid t" using assms(3) by (rule utf8_valid_ascii)
  then show "lex_tokens (t @ 32 # r) = rbind (lex_tokens r) (\<lambda>ts. Ok (t # ts))"
    using lex_round(5) [OF b(1,2) no b(3)] by (simp add: t tw lex_space)
qed

lemma one_token_op: "one_token (print_op op)"
proof -
  have one: "one_token [c]" if "op_byte c" for c
  proof -
    have "\<not> (ascii_ws c \<or> c = 59)" "c \<noteq> 34" "\<not> two_op [c, 32]"
      using that not_two_op [of 32 c] by (auto simp: ascii_ws_def op_byte_def)
    then show ?thesis using lex_round(4) [of c "32 # _"] that by (simp add: one_token_def lex_space)
  qed
  have two: "one_token [b, c]" if "two_op [b, c]" "\<not> (ascii_ws b \<or> b = 59)" "b \<noteq> 34" for b c
    using lex_round(3) [OF that(2,3), of "c # 32 # _"] that(1) by (simp add: one_token_def lex_space)
  show ?thesis
    by (cases op) (simp_all add: str_def one op_byte_def, (rule two; simp add: two_op_def str_def ascii_ws_def)+)
qed

lemma one_token_quoted:
  assumes "utf8_valid b" and "34 \<notin> set b"
  shows "one_token (34 # b @ [34])"
  unfolding one_token_def
proof
  fix r
  have tw: "takeWhile (\<lambda>c. c \<noteq> 34) (b @ 34 # 32 # r) = b" "dropWhile (\<lambda>c. c \<noteq> 34) (b @ 34 # 32 # r) = 34 # 32 # r"
    using assms(2) by (induction b) auto
  have v: "utf8_valid (34 # b @ [34])" using utf8_append [OF assms(1), of "[34]"] by (simp add: utf8_low)
  show "lex_tokens ((34 # b @ [34]) @ 32 # r) = rbind (lex_tokens r) (\<lambda>ts. Ok ((34 # b @ [34]) # ts))"
    using lex_round(2) [of 34 "34 # b @ [34]" "b @ 34 # 32 # r"] v by (simp add: tw ascii_ws_def lex_space)
qed

lemma digits_word: "list_all is_digit t \<Longrightarrow> list_all word_byte t \<and> (\<forall>b \<in> set t. b < 128)"
proof (induction t)
  case (Cons b t)
  have "word_byte b" using Cons.prems
    by (auto simp: is_digit_def word_byte_def ascii_ws_def op_byte_def word_le_nat_alt)
  then show ?case using Cons digit_hd by simp
qed simp

lemma one_token_number: "one_token (show_nat n)"
  using digits_word [OF show_nat_digits] by (intro one_token_word) simp_all

lemma one_token_int: "one_token (print_int i)"
proof -
  have "word_byte 45" by (simp add: word_byte_def ascii_ws_def op_byte_def)
  then have "one_token (45 # show_nat n)" for n
    using digits_word [OF show_nat_digits] by (intro one_token_word) simp_all
  then show ?thesis using one_token_number by (simp add: print_int_def)
qed

lemma one_token_keyword:
  "one_token (str ''insert'')" "one_token (str ''update'')" "one_token (str ''set'')" "one_token (str ''where'')"
  "one_token (str ''delete'')" "one_token (str ''scan'')" "one_token (str ''index_scan'')" "one_token (str ''join'')"
  "one_token (str ''compact'')" "one_token (str ''checkpoint'')" "one_token (str ''agg'')" "one_token (str ''null'')"
  "one_token (str ''true'')" "one_token (str ''false'')"
  by (rule one_token_word; simp add: str_def word_byte_def ascii_ws_def op_byte_def)+

lemma one_token_operand: "printable x \<Longrightarrow> one_token (print_operand x)"
  by (cases x rule: print_operand.cases) (simp_all add: one_token_keyword one_token_int one_token_quoted)

lemma lex_spaced: "list_all one_token ts \<Longrightarrow> lex_tokens (spaced ts) = Ok ts"
  by (induction ts) (simp_all add: spaced_def one_token_def)

section \<open>Parsing back\<close>

lemma operand_of_print:
  assumes "printable x"
  shows "operand_of (print_operand x) = Ok x"
proof (cases x rule: print_operand.cases)
  case 1
  then show ?thesis by (simp add: operand_of_def quoted_def str_def)
next
  case (2 b)
  then show ?thesis by (simp add: operand_of_def quoted_def str_def)
next
  case (3 i)
  have h: "\<exists>b r. print_int i = b # r \<and> (is_digit b \<or> b = 45)"
  proof -
    obtain b r where "show_nat (nat (sint i)) = b # r" using show_nat_ne by (cases "show_nat (nat (sint i))") auto
    moreover from this have "is_digit b" using show_nat_digits [of "nat (sint i)"] by simp
    ultimately show ?thesis by (simp add: print_int_def)
  qed
  then obtain b r where b: "print_int i = b # r" "is_digit b \<or> b = 45" by blast
  have "b \<noteq> 34" "b \<noteq> 110" "b \<noteq> 116" "b \<noteq> 102" using b(2) by (auto simp: is_digit_def word_le_nat_alt)
  then show ?thesis using b(1) parse_i64_print [of i] by (simp add: 3 operand_of_def quoted_def str_def)
next
  case (4 b)
  then show ?thesis by (simp add: operand_of_def quoted_def)
qed (use assms in auto)

lemma expect_hd [simp]: "expect s (s # ts) = (Ok (), ts)"
  by (simp add: expect_def)

lemma parse_col_show [simp]: "n < 2 ^ 64 \<Longrightarrow> parse_col s (show_nat n # ts) = (Ok n, ts)"
  by (simp add: parse_col_def next_or_end_def sbind_def slift_def parse_usize_show)

lemma parse_op_print [simp]: "parse_op (print_op op # ts) = (Ok op, ts)"
  by (cases op) (simp_all add: parse_op_def next_or_end_def sbind_def slift_def cmp_op_parse_def str_def ok_or_def)

lemma parse_operand_print [simp]: "printable x \<Longrightarrow> parse_operand (print_operand x # ts) = (Ok x, ts)"
  by (simp add: parse_operand_def next_or_end_def sbind_def slift_def operand_of_print)

lemma parse_operands_print: "list_all printable xs \<Longrightarrow> parse_operands (map print_operand xs) = (Ok xs, [])"
  by (induction xs) (simp_all add: operand_of_print)

lemma parse_pred_print [simp]:
  "c < 2 ^ 64 \<Longrightarrow> printable t \<Longrightarrow> parse_pred s [show_nat c, print_op op, print_operand t] = (Ok (c, op, t), [])"
  by (simp add: parse_pred_def sbind_def sret_def)

lemma parse_tokens_print:
  assumes "stmt_printable st"
  shows "\<exists>kw ts. stmt_tokens st = kw # ts \<and> fst (parse_tokens s kw (kw # ts)) = Ok st"
proof (cases st)
  case (SInsert xs)
  then show ?thesis using assms
    by (simp add: parse_tokens_def parse_insert_def sbind_def sret_def parse_operands_print)
next
  case (SUpdate sc sv c op t)
  have k: "str ''update'' \<noteq> str ''insert''" by (simp add: str_def)
  have "parse_pred s [show_nat c, print_op op, print_operand t] = (Ok (c, op, t), [])" using assms SUpdate by simp
  then show ?thesis using assms k by (simp add: SUpdate parse_tokens_def parse_update_def sbind_def sret_def)
next
  case (SDelete c op t)
  have k: "str ''delete'' \<noteq> str ''insert''" "str ''delete'' \<noteq> str ''update''" by (simp_all add: str_def)
  show ?thesis using assms k by (simp add: SDelete parse_tokens_def parse_delete_def sbind_def sret_def)
next
  case (SScanWhere c op t)
  have k: "str ''scan'' \<noteq> str ''insert''" "str ''scan'' \<noteq> str ''update''" "str ''scan'' \<noteq> str ''delete''"
    by (simp_all add: str_def)
  show ?thesis using assms k by (simp add: SScanWhere parse_tokens_def parse_scan_def sbind_def sret_def)
next
  case (SIndexScan c t)
  then show ?thesis using assms
    by (simp add: parse_tokens_def parse_index_scan_def sbind_def sret_def) (simp add: str_def)
next
  case (SAgg c)
  then show ?thesis using assms
    by (simp add: parse_tokens_def parse_agg_def sbind_def sret_def) (simp add: str_def)
qed (simp_all add: parse_tokens_def parse_scan_def sbind_def sret_def str_def)

lemma stmt_tokens_ok: "stmt_printable st \<Longrightarrow> list_all one_token (stmt_tokens st)"
  by (cases st) (auto simp: list_all_iff one_token_keyword one_token_number one_token_op one_token_operand)

lemma parse_print: "stmt_printable st \<Longrightarrow> parse_statement s (print_stmt st) = Ok st"
  using parse_tokens_print [of st s] lex_spaced [OF stmt_tokens_ok]
  by (auto simp: parse_statement_def print_stmt_def)

end
