(* ===== verification/Checkpoints.thy ===== *)
theory Checkpoints
  imports Containers Tables
begin

text \<open>
  Writing a database to a container and reading it back (\<open>encode_database\<close> and \<open>decode\<close> of
  \<open>src/src/format.rs\<close>). The decoder hands out page ids in the order of the records, so the stored
  table comes back when the pages of the database are in that order, its dictionary pages first.
\<close>

section \<open>Records in sequence\<close>

lemma map_filter_mem: "y \<in> set (List.map_filter f xs) \<longleftrightarrow> (\<exists>x \<in> set xs. f x = Some y)"
  by (induction xs) (auto simp: List.map_filter_def)

lemma map_filter_map:
  "(\<And>x. x \<in> set xs \<Longrightarrow> f x = map_option g (h x)) \<Longrightarrow> List.map_filter f xs = map g (List.map_filter h xs)"
  by (induction xs) (auto simp: List.map_filter_def)

lemma decode_records_append:
  "decode_records (xs @ ys) d = rbind (decode_records xs d) (decode_records ys)"
proof (induction xs arbitrary: d)
  case (Cons x xs)
  then show ?case by (cases "decode_record x d") simp_all
qed simp

text \<open>The pages a run of page records has loaded so far.\<close>

definition same_page :: "page \<Rightarrow> page \<Rightarrow> bool" where
  "same_page x y \<longleftrightarrow> pg_kind y = pg_kind x \<and> pg_buf y = pg_buf x \<and> (pg_kind x = PkData \<longrightarrow> pg_slots y = pg_slots x)"

definition loads :: "pager \<Rightarrow> page list \<Rightarrow> bool" where
  "loads q xs \<longleftrightarrow> pager_ok q \<and> free_ids q = [] \<and> list_all2 (\<lambda>x y. \<exists>pg. y = Some pg \<and> same_page x pg) xs (pages q)"

lemma loads_new: "loads pager_new []"
  by (simp add: loads_def pager_ok_new) (simp add: pager_new_def)

lemma loads_alloc:
  assumes l: "loads (dc_pager d) xs" and n: "length xs < 4294967295"
    and x: "pg_kind x = k" "pg_buf x = buf" "k = PkData \<Longrightarrow> slots = pg_slots x"
  shows "\<exists>q. alloc_page k buf slots d = Ok (d\<lparr>dc_pager := q\<rparr>) \<and> loads q (xs @ [x])"
proof -
  let ?p = "dc_pager d"
  have po: "pager_ok ?p" and fr: "free_ids ?p = []"
    and ps: "list_all2 (\<lambda>x y. \<exists>pg. y = Some pg \<and> same_page x pg) xs (pages ?p)"
    using l by (simp_all add: loads_def)
  have len: "length (pages ?p) = length xs" using ps by (simp add: list_all2_lengthD)
  let ?pg = "page_new (high_water ?p) k buf (next_alloc ?p)"
  let ?q = "?p\<lparr>high_water := high_water ?p + 1, pages := pages ?p @ [Some ?pg], next_alloc := Suc (next_alloc ?p)\<rparr>"
  have hw: "unat (high_water ?p) = length (pages ?p)" using po by (simp add: pager_ok_def ids_ok_def)
  then have "high_water ?p \<noteq> u32_max" using n len by (auto simp: u32_max_def)
  then have a: "pager_alloc k buf ?p = (Ok (high_water ?p), ?q)"
    using fr by (simp add: pager_alloc_def Let_def)
  have qo: "pager_ok ?q" by (rule pager_ok_alloc [OF po a])
  show ?thesis
  proof (cases slots)
    case None
    then have "k \<noteq> PkData \<or> pg_slots x = None" using x(3) by auto
    then have "same_page x ?pg" using x by (auto simp: same_page_def page_new_def)
    then have "loads ?q (xs @ [x])" using qo fr ps by (simp add: loads_def list_all2_appendI)
    then show ?thesis using a None by (intro exI [of _ ?q]) (simp add: alloc_page_def)
  next
    case (Some ss)
    let ?f = "\<lambda>pg. pg\<lparr>pg_slots := Some ss\<rparr>"
    have g: "pager_get ?q (high_water ?p) = Some ?pg" using hw by (simp add: pager_get_def)
    have m: "pager_modify (high_water ?p) ?f ?q = ?q\<lparr>pages := pages ?p @ [Some (?f ?pg)]\<rparr>"
      using hw by (simp add: pager_modify_def g list_update_append)
    have "pager_ok (pager_modify (high_water ?p) ?f ?q)" by (rule pager_ok_modify [OF qo]) simp_all
    moreover have "same_page x (?f ?pg)" using x Some by (auto simp: same_page_def page_new_def)
    ultimately have "loads (pager_modify (high_water ?p) ?f ?q) (xs @ [x])"
      using fr ps by (simp add: loads_def m list_all2_appendI)
    then show ?thesis using a Some by (intro exI [of _ "pager_modify (high_water ?p) ?f ?q"]) (simp add: alloc_page_def)
  qed
qed

text \<open>The record of a page, and when it can be read back.\<close>

definition page_record :: "page \<Rightarrow> rec_entry" where
  "page_record pg = (if pg_kind pg = PkDict then (2, pg_id pg, pg_buf pg) else data_record pg)"

definition page_storable :: "page \<Rightarrow> bool" where
  "page_storable pg \<longleftrightarrow> (pg_kind pg = PkDict \<or> pg_kind pg = PkData \<and> length (pg_buf pg) < 2 ^ 32 \<and>
     (\<exists>ss. pg_slots pg = Some ss \<and> length ss < 2 ^ 32))"

lemma decode_data_view:
  assumes "length buf < 2 ^ 32" and "length ss < 2 ^ 32"
  shows "decode_data_record (len_le (length buf) @ buf @ encode_slots ss) d = alloc_page PkData buf (Some ss) d"
proof -
  let ?body = "len_le (length buf) @ buf @ encode_slots ss"
  have d0: "drop 0 ?body = len_le (length buf) @ (buf @ encode_slots ss)" by simp
  have d4: "drop 4 ?body = buf @ encode_slots ss" using drop_advance [OF d0] by simp
  have sl: "slice ?body 4 (4 + length buf) = (Ok buf :: u8 list result)" using slice_at [OF d4] by simp
  have dr: "drop (4 + length buf) ?body = encode_slots ss" using drop_advance [OF d4] by simp
  have "decode_slots (encode_slots ss) = Ok ss" using decode_slots_encode [OF assms(2), of "[]"] by simp
  then show ?thesis
    using read_len_view [OF d0, where 'a = error] assms(1) sl dr by (simp add: decode_data_record_def)
qed

lemma decode_page_record:
  assumes l: "loads (dc_pager d) xs" and n: "length xs < 4294967295" and x: "page_storable x"
  shows "\<exists>q. decode_record (page_record x) d = Ok (d\<lparr>dc_pager := q\<rparr>) \<and> loads q (xs @ [x])"
proof (cases "pg_kind x = PkDict")
  case True
  then show ?thesis using loads_alloc [OF l n True refl, of None] by (simp add: page_record_def decode_record_def)
next
  case False
  then obtain ss where ss: "pg_kind x = PkData" "pg_slots x = Some ss" "length ss < 2 ^ 32" "length (pg_buf x) < 2 ^ 32"
    using x by (auto simp: page_storable_def)
  then show ?thesis
    using loads_alloc [OF l n ss(1) refl, of "Some ss"] False decode_data_view [OF ss(4,3)]
    by (simp add: page_record_def data_record_def decode_record_def)
qed

lemma decode_page_records:
  assumes "loads (dc_pager d) xs" and "length xs + length ys < 4294967296" and "\<forall>y \<in> set ys. page_storable y"
  shows "\<exists>q. decode_records (map page_record ys) d = Ok (d\<lparr>dc_pager := q\<rparr>) \<and> loads q (xs @ ys)"
  using assms
proof (induction ys arbitrary: d xs)
  case Nil
  then show ?case by (intro exI [of _ "dc_pager d"]) simp
next
  case (Cons y ys)
  have "length xs < 4294967295" using Cons.prems(2) by simp
  then obtain q where q: "decode_record (page_record y) d = Ok (d\<lparr>dc_pager := q\<rparr>)" "loads q (xs @ [y])"
    using decode_page_record [OF Cons.prems(1)] Cons.prems(3) by auto
  then show ?case using Cons.IH [of "d\<lparr>dc_pager := q\<rparr>" "xs @ [y]"] Cons.prems by auto
qed

section \<open>Zone maps and index records\<close>

lemma zones_loop_view:
  assumes "drop pos body = concat (map (\<lambda>zm. len_le (length (zonemap_encode zm)) @ zonemap_encode zm) zms) @ post"
    and "\<forall>zm \<in> set zms. zone_map_ok zm \<and> length (zonemap_encode zm) < 2 ^ 32"
  shows "zones_loop (length zms) body pos acc = Ok (acc @ zms)"
  using assms
proof (induction zms arbitrary: pos acc)
  case (Cons zm zms)
  let ?z = "zonemap_encode zm" and ?rest = "concat (map (\<lambda>zm. len_le (length (zonemap_encode zm)) @ zonemap_encode zm) zms) @ post"
  have d0: "drop pos body = len_le (length ?z) @ (?z @ ?rest)" using Cons.prems(1) by simp
  have d1: "drop (pos + 4) body = ?z @ ?rest" using drop_advance [OF d0] by simp
  have d2: "drop (pos + 4 + length ?z) body = ?rest" using drop_advance [OF d1] by simp
  have len: "pos + 4 \<le> length body" using drop_prefix_le [OF d0] by simp
  then have len': "pos + 4 + length ?z \<le> length body"
    using arg_cong [OF d1, of length] by simp
  have "slice body (pos + 4) (pos + 4 + length ?z) = (Ok ?z :: u8 list result)"
    using slice_at [OF d1] len by simp
  moreover have "zonemap_decode ?z = Ok zm" using zonemap_decode_encode [of zm "[]"] Cons.prems(2) by simp
  ultimately show ?case
    using Cons.IH [OF d2, of "acc @ [zm]"] Cons.prems(2) read_len_view [OF d0, where 'a = error] len len'
    by (simp add: Let_def)
qed simp

definition zones_storable :: "zone_map list \<Rightarrow> bool" where
  "zones_storable zms \<longleftrightarrow> length zms < 2 ^ 32 \<and> (\<forall>zm \<in> set zms. zone_map_ok zm \<and> length (zonemap_encode zm) < 2 ^ 32)"

lemma decode_zone_view:
  assumes "zones_storable zms" and "dc_schema d \<noteq> None" and "dc_zones d = []"
  shows "decode_zone_record (encode_zones zms) d = Ok (d\<lparr>dc_zones := zms\<rparr>)"
proof -
  let ?c = "concat (map (\<lambda>zm. len_le (length (zonemap_encode zm)) @ zonemap_encode zm) zms)"
  have d0: "drop 0 (encode_zones zms) = len_le (length zms) @ ?c" by (simp add: encode_zones_def)
  have d4: "drop 4 (encode_zones zms) = ?c @ []" using drop_advance [OF d0] by simp
  have "\<not> length (encode_zones zms) < 4" by (simp add: encode_zones_def)
  then show ?thesis
    using zones_loop_view [OF d4] assms read_len_view [OF d0, where 'a = error]
    by (auto simp: decode_zone_record_def zones_storable_def)
qed

lemma decode_index_records:
  "decode_records (map (\<lambda>(ci, body). (3, as_u32 ci, body)) is) d =
     Ok (d\<lparr>dc_index := dc_index d @ map (\<lambda>(ci, body). (unat (as_u32 ci), body)) is\<rparr>)"
  by (induction "is" arbitrary: d) (auto simp: decode_record_def)

section \<open>Index pointers\<close>

text \<open>An index whose pointers are inside the current buffer of its dictionary page.\<close>

definition entry_live :: "pager \<Rightarrow> u32 \<Rightarrow> index_entry \<Rightarrow> bool" where
  "entry_live p pid e \<longleftrightarrow> length (ie_rows e) < 2 ^ 32 \<and> (\<exists>pg off. pager_get p pid = Some pg \<and>
     ie_ptr e = Ptr (pg_alloc pg) off \<and> off \<le> length (pg_buf pg) \<and> off < 2 ^ 32)"

definition index_live :: "pager \<Rightarrow> index_cache \<Rightarrow> bool" where
  "index_live p idx \<longleftrightarrow> length (ic_entries idx) < 2 ^ 32 \<and> (\<forall>e \<in> set (ic_entries idx). entry_live p (ic_dict idx) e)"

text \<open>The entry a decoder captures anew into the page with the same bytes.\<close>

definition entry_moved :: "pager \<Rightarrow> pager \<Rightarrow> u32 \<Rightarrow> index_entry \<Rightarrow> index_entry \<Rightarrow> bool" where
  "entry_moved p p' pid e e' \<longleftrightarrow> ie_value e' = ie_value e \<and> ie_rows e' = ie_rows e \<and> ie_gen e' = ie_gen e \<and>
     (\<exists>pg pg' off. pager_get p pid = Some pg \<and> pager_get p' pid = Some pg' \<and> pg_buf pg' = pg_buf pg \<and>
        ie_ptr e = Ptr (pg_alloc pg) off \<and> ie_ptr e' = Ptr (pg_alloc pg') off)"

lemma entry_moved_bytes:
  assumes "pager_ok p" and "pager_ok p'" and "entry_moved p p' pid e e'"
  shows "entry_bytes p' e' = entry_bytes p e"
proof -
  obtain pg pg' off where g: "pager_get p pid = Some pg" "pager_get p' pid = Some pg'" "pg_buf pg' = pg_buf pg"
    "ie_ptr e = Ptr (pg_alloc pg) off" "ie_ptr e' = Ptr (pg_alloc pg') off"
    using assms(3) unfolding entry_moved_def by blast
  have "mem_lookup p (pg_alloc pg) = Some (pg_buf pg)" "mem_lookup p' (pg_alloc pg') = Some (pg_buf pg)"
    using mem_lookup_page [OF assms(1) g(1)] mem_lookup_page [OF assms(2) g(2)] g(3) by simp_all
  then show ?thesis using g by (simp add: entry_bytes_def)
qed

lemma probe_moved:
  assumes "pager_ok p" and "pager_ok p'" and "list_all2 (entry_moved p p' pid) es es'"
  shows "probe_entries p' q es' = probe_entries p q es"
  using assms(3)
proof (induction rule: list_all2_induct)
  case (Cons e es e' es')
  have "ie_rows e' = ie_rows e" using Cons.hyps(1) unfolding entry_moved_def by blast
  then show ?case using Cons.IH entry_moved_bytes [OF assms(1,2) Cons.hyps(1)] by (simp cong: if_cong)
qed simp

text \<open>Two pagers with the same bytes under the same ids.\<close>

definition same_bufs :: "pager \<Rightarrow> pager \<Rightarrow> bool" where
  "same_bufs p p' \<longleftrightarrow> (\<forall>i. map_option (\<lambda>pg. (pg_kind pg, pg_buf pg)) (pager_get p' i) =
     map_option (\<lambda>pg. (pg_kind pg, pg_buf pg)) (pager_get p i))"

lemma same_bufs_get:
  assumes "same_bufs p p'" and "pager_get p i = Some pg"
  obtains pg' where "pager_get p' i = Some pg'" "pg_kind pg' = pg_kind pg" "pg_buf pg' = pg_buf pg"
proof -
  have "map_option (\<lambda>pg. (pg_kind pg, pg_buf pg)) (pager_get p' i) = Some (pg_kind pg, pg_buf pg)"
    using assms unfolding same_bufs_def by (metis option.map(2))
  then show thesis using that by auto
qed

lemma index_loop_view:
  assumes "drop pos body = concat (map (encode_index_entry addr p pid) es)"
    and "\<forall>e \<in> set es. entry_live p pid e" and b: "same_bufs p p'"
  shows "\<exists>es'. index_loop p' pid (length es) body pos acc = Ok (acc @ es') \<and> list_all2 (entry_moved p p' pid) es es'"
  using assms(1,2)
proof (induction es arbitrary: pos acc)
  case (Cons e es)
  obtain pg off where pg: "pager_get p pid = Some pg" "ie_ptr e = Ptr (pg_alloc pg) off" "off \<le> length (pg_buf pg)"
    "off < 2 ^ 32" and rows: "length (ie_rows e) < 2 ^ 32" using Cons.prems(2) by (auto simp: entry_live_def)
  obtain pg' where pg': "pager_get p' pid = Some pg'" "pg_buf pg' = pg_buf pg" by (rule same_bufs_get [OF b pg(1)])
  let ?rest = "concat (map (encode_index_entry addr p pid) es)"
  have "encode_index_entry addr p pid e = u32_le (ie_value e) @ u64_le (ie_gen e) @ len_le off @
      len_le (length (ie_rows e)) @ concat (map u64_le (ie_rows e))"
    using pg by (simp add: encode_index_entry_def ptr_addr_def)
  then have d0: "drop pos body = u32_le (ie_value e) @ (u64_le (ie_gen e) @ len_le off @
      len_le (length (ie_rows e)) @ concat (map u64_le (ie_rows e)) @ ?rest)" using Cons.prems(1) by simp
  have d1: "drop (pos + 4) body = u64_le (ie_gen e) @ (len_le off @
      len_le (length (ie_rows e)) @ concat (map u64_le (ie_rows e)) @ ?rest)" using drop_advance [OF d0] by simp
  have d2: "drop (pos + 12) body = len_le off @ (len_le (length (ie_rows e)) @ concat (map u64_le (ie_rows e)) @ ?rest)"
    using drop_advance [OF d1] by (simp add: add.commute)
  have d3: "drop (pos + 16) body = len_le (length (ie_rows e)) @ (concat (map u64_le (ie_rows e)) @ ?rest)"
    using drop_advance [OF d2] by (simp add: add.commute)
  have d4: "drop (pos + 20) body = concat (map u64_le (ie_rows e)) @ ?rest"
    using drop_advance [OF d3] by (simp add: add.commute)
  have d5: "drop (pos + 20 + 8 * length (ie_rows e)) body = ?rest"
    using drop_advance [OF d4] u64_rec.table_length [of "ie_rows e"] by simp
  have len: "pos + 20 \<le> length body" using drop_prefix_le [OF d3] by simp
  have scan: "scan_records 8 read_u64 (\<lambda>rs r. rs @ [r]) Ok (length (ie_rows e)) body (pos + 20) [] =
      (Ok (ie_rows e, pos + 20 + 8 * length (ie_rows e)) :: (u64 list \<times> nat) result)"
    using u64_rec.scan_table [OF d4, of "\<lambda>rs r. rs @ [r]" Ok "[]"] foldl_snoc [of "[]" "ie_rows e"] by simp
  let ?e' = "\<lparr>ie_value = ie_value e, ie_ptr = Ptr (pg_alloc pg') off, ie_gen = ie_gen e, ie_rows = ie_rows e\<rparr>"
  obtain es' where es': "index_loop p' pid (length es) body (pos + 20 + 8 * length (ie_rows e)) (acc @ [?e']) = Ok ((acc @ [?e']) @ es')"
    "list_all2 (entry_moved p p' pid) es es'"
    using Cons.IH [OF d5, of "acc @ [?e']"] Cons.prems(2) by auto
  have "capture_ptr pg' off = Ok (Ptr (pg_alloc pg') off)" using pg(3) pg'(2) by (simp add: capture_ptr_def)
  then have "index_loop p' pid (length (e # es)) body pos acc = Ok ((acc @ [?e']) @ es')"
    using len read_u32_view [OF d0, where 'a = error] read_u64_view [OF d1, where 'a = error]
      read_len_view [OF d2, where 'a = error] read_len_view [OF d3, where 'a = error] scan rows pg(4) pg' es'(1)
    by simp
  moreover have "entry_moved p p' pid e ?e'" using pg pg' by (auto simp: entry_moved_def)
  ultimately show ?case using es'(2) by (intro exI [of _ "?e' # es'"]) simp
qed simp

lemma decode_index_encode:
  assumes l: "index_live p idx" and b: "same_bufs p (pager db)" and po: "pager_ok p" "pager_ok (pager db)"
  shows "\<exists>idx'. decode_index (encode_index addr idx p) db = Ok idx' \<and> (\<forall>q. probe idx' (pager db) q = probe idx p q)"
proof -
  let ?body = "encode_index addr idx p"
  have d0: "drop 0 ?body = u32_le (ic_dict idx) @ (len_le (length (ic_entries idx)) @
      concat (map (encode_index_entry addr p (ic_dict idx)) (ic_entries idx)))" by (simp add: encode_index_def)
  have d4: "drop 4 ?body = len_le (length (ic_entries idx)) @
      concat (map (encode_index_entry addr p (ic_dict idx)) (ic_entries idx))" using drop_advance [OF d0] by simp
  have d8: "drop 8 ?body = concat (map (encode_index_entry addr p (ic_dict idx)) (ic_entries idx))"
    using drop_advance [OF d4] by simp
  have live: "\<forall>e \<in> set (ic_entries idx). entry_live p (ic_dict idx) e" "length (ic_entries idx) < 2 ^ 32"
    using l by (simp_all add: index_live_def)
  obtain es' where es': "index_loop (pager db) (ic_dict idx) (length (ic_entries idx)) ?body 8 [] = Ok es'"
    "list_all2 (entry_moved p (pager db) (ic_dict idx)) (ic_entries idx) es'"
    using index_loop_view [OF d8 live(1) b, of "[]"] by auto
  have "\<not> length ?body < 8" by (simp add: encode_index_def)
  then obtain idx' where "decode_index ?body db = Ok idx'" "ic_entries idx' = es'"
    using read_u32_view [OF d0, where 'a = error] read_len_view [OF d4, where 'a = error] es'(1) live(2)
    by (simp add: decode_index_def)
  then show ?thesis using probe_moved [OF po es'(2)] by (auto simp: probe_def)
qed

section \<open>The caches of a decoded database\<close>

lemma build_indexes_ok:
  assumes "list_all2 (\<lambda>(ci, idx) (cj, body). cj = ci \<and> ci < length (indexes db) \<and>
      (\<forall>xs. \<exists>idx'. decode_index body (db\<lparr>indexes := xs\<rparr>) = Ok idx' \<and> P idx idx')) is bs"
    and "distinct (map fst is)"
  shows "\<exists>xs. build_indexes bs db = Ok (db\<lparr>indexes := xs\<rparr>) \<and> length xs = length (indexes db) \<and>
    (\<forall>(ci, idx) \<in> set is. \<exists>idx'. xs ! ci = Some idx' \<and> P idx idx') \<and>
    (\<forall>j < length (indexes db). j \<notin> fst ` set is \<longrightarrow> xs ! j = indexes db ! j)"
  using assms
proof (induction "is" arbitrary: bs db)
  case Nil
  then show ?case by (intro exI [of _ "indexes db"]) simp
next
  case (Cons i "is")
  obtain ci idx where i: "i = (ci, idx)" by (cases i)
  obtain body rest where bs: "bs = (ci, body) # rest" and ci: "ci < length (indexes db)"
    and dec: "\<forall>xs. \<exists>idx'. decode_index body (db\<lparr>indexes := xs\<rparr>) = Ok idx' \<and> P idx idx'"
    and all: "list_all2 (\<lambda>(ci, idx) (cj, body). cj = ci \<and> ci < length (indexes db) \<and>
      (\<forall>xs. \<exists>idx'. decode_index body (db\<lparr>indexes := xs\<rparr>) = Ok idx' \<and> P idx idx')) is rest"
    using Cons.prems(1) by (cases bs) (auto simp: i)
  obtain idx' where idx': "decode_index body db = Ok idx'" "P idx idx'"
    using dec [rule_format, of "indexes db"] by auto
  let ?db = "db\<lparr>indexes := (indexes db)[ci := Some idx']\<rparr>"
  obtain xs where xs: "build_indexes rest ?db = Ok (?db\<lparr>indexes := xs\<rparr>)" "length xs = length (indexes db)"
    "\<forall>(ci, idx) \<in> set is. \<exists>idx'. xs ! ci = Some idx' \<and> P idx idx'"
    "\<forall>j < length (indexes db). j \<notin> fst ` set is \<longrightarrow> xs ! j = (indexes db)[ci := Some idx'] ! j"
    using Cons.IH [of ?db rest] Cons.prems(2) all by (auto simp: i)
  have "ci \<notin> fst ` set is" using Cons.prems(2) by (simp add: i)
  then have "xs ! ci = Some idx'" using xs(4) ci by simp
  then show ?case using xs idx' ci by (intro exI [of _ xs]) (auto simp: i bs)
qed

text \<open>Every column that claims a dictionary page gets the mirror its page represents.\<close>

definition dict_cell :: "pager \<Rightarrow> column \<Rightarrow> bool" where
  "dict_cell p c \<longleftrightarrow> (\<forall>pid. dict_page c = Some pid \<longrightarrow> (\<exists>d pg bs. pager_get p pid = Some pg \<and> dct_page d = pid \<and>
     dict_rep d p bs \<and> dict_page_capacity \<le> length (pg_buf pg)))"

definition dict_slot :: "pager \<Rightarrow> column \<Rightarrow> dict option \<Rightarrow> dict option \<Rightarrow> bool" where
  "dict_slot p c old x \<longleftrightarrow> (case dict_page c of None \<Rightarrow> x = old
     | Some pid \<Rightarrow> \<exists>d bs. x = Some d \<and> dct_page d = pid \<and> dict_rep d p bs)"

lemma from_page_loop_page: "from_page_loop n buf pos y = Ok x \<Longrightarrow> dct_page x = dct_page y"
proof (induction n arbitrary: pos y)
  case (Suc n)
  then show ?case by (fastforce simp: Let_def res_simps split: if_splits)
qed simp

lemma dict_from_page_page: "dict_from_page pid buf g = Ok d \<Longrightarrow> dct_page d = pid"
  by (auto simp: dict_from_page_def dict_new_def Let_def res_simps split: if_splits dest!: from_page_loop_page)

lemma build_dict_ok:
  assumes "dict_cell (pager db) c" and "ci < length (dicts db)"
  shows "\<exists>x. build_dict ci c db = Ok (db\<lparr>dicts := (dicts db)[ci := x]\<rparr>) \<and> dict_slot (pager db) c (dicts db ! ci) x"
proof (cases "dict_page c")
  case None
  then show ?thesis by (intro exI [of _ "dicts db ! ci"]) (simp add: build_dict_def dict_slot_def)
next
  case (Some pid)
  then obtain d pg bs where pg: "pager_get (pager db) pid = Some pg" and d: "dct_page d = pid" "dict_rep d (pager db) bs"
    "dict_page_capacity \<le> length (pg_buf pg)" using assms(1) unfolding dict_cell_def by blast
  obtain d' where d': "dict_from_page (dct_page d) (pg_buf pg) (pg_gen pg) = Ok d'" "dict_rep d' (pager db) bs"
    by (rule dict_from_page_rep [OF d(2) _ d(3), of "pg_gen pg"]) (simp_all add: d(1) pg)
  then have "dct_page d' = pid" using dict_from_page_page d(1) by blast
  then show ?thesis using Some pg d d' assms(2)
    by (intro exI [of _ "Some d'"]) (auto simp: build_dict_def dict_slot_def)
qed

lemma build_dicts_ok:
  assumes "\<forall>c \<in> set cs. dict_cell (pager db) c" and "ci + length cs \<le> length (dicts db)"
  shows "\<exists>xs. build_dicts ci cs db = Ok (db\<lparr>dicts := xs\<rparr>) \<and> length xs = length (dicts db) \<and>
    (\<forall>j < length (dicts db). if ci \<le> j \<and> j < ci + length cs
      then dict_slot (pager db) (cs ! (j - ci)) (dicts db ! j) (xs ! j) else xs ! j = dicts db ! j)"
  using assms
proof (induction cs arbitrary: ci db)
  case Nil
  then show ?case by (intro exI [of _ "dicts db"]) auto
next
  case (Cons c cs)
  obtain x where x: "build_dict ci c db = Ok (db\<lparr>dicts := (dicts db)[ci := x]\<rparr>)"
    "dict_slot (pager db) c (dicts db ! ci) x"
    using build_dict_ok [of db c ci] Cons.prems by auto
  let ?db = "db\<lparr>dicts := (dicts db)[ci := x]\<rparr>"
  have "\<exists>xs. build_dicts (Suc ci) cs ?db = Ok (?db\<lparr>dicts := xs\<rparr>) \<and> length xs = length (dicts ?db) \<and>
    (\<forall>j < length (dicts ?db). if Suc ci \<le> j \<and> j < Suc ci + length cs
      then dict_slot (pager ?db) (cs ! (j - Suc ci)) (dicts ?db ! j) (xs ! j) else xs ! j = dicts ?db ! j)"
    using Cons.prems by (intro Cons.IH) auto
  then obtain xs where xs: "build_dicts (Suc ci) cs ?db = Ok (db\<lparr>dicts := xs\<rparr>)" "length xs = length (dicts db)"
    "\<forall>j < length (dicts db). if Suc ci \<le> j \<and> j < Suc ci + length cs
      then dict_slot (pager db) (cs ! (j - Suc ci)) ((dicts db)[ci := x] ! j) (xs ! j) else xs ! j = (dicts db)[ci := x] ! j"
    by (auto cong: if_cong)
  have "if ci \<le> j \<and> j < ci + length (c # cs)
      then dict_slot (pager db) ((c # cs) ! (j - ci)) (dicts db ! j) (xs ! j) else xs ! j = dicts db ! j"
    if j: "j < length (dicts db)" for j
  proof (cases "j = ci")
    case True
    have "xs ! ci = x" using xs(3) [rule_format, OF j] j True by simp
    then show ?thesis using x(2) True by simp
  next
    case False
    then have "(c # cs) ! (j - ci) = cs ! (j - Suc ci)" if "Suc ci \<le> j" using that by (simp add: nth_Cons')
    then show ?thesis using xs(3) [rule_format, OF j] False
      by (cases "Suc ci \<le> j \<and> j < Suc ci + length cs") (auto split: if_splits)
  qed
  then show ?case using x(1) xs by (intro exI [of _ xs]) simp
qed

section \<open>The checkpoint round trip\<close>

definition dict_list :: "db \<Rightarrow> page list" where
  "dict_list db = List.map_filter (\<lambda>c. Option.bind (dict_page c) (pager_get (pager db))) (schema db)"

text \<open>The pages are in the order the container lists them.\<close>

definition container_order :: "db \<Rightarrow> bool" where
  "container_order db \<longleftrightarrow> pages (pager db) = map Some (dict_list db @ data_pages (pager db))"

text \<open>Every length fits its \<open>u32\<close>, every dictionary page has its mirror, and every index pointer is live.\<close>

definition storable_db :: "db \<Rightarrow> bool" where
  "storable_db db \<longleftrightarrow> schema_ok (schema db) \<and> length (free_pages (fsm db)) < 2 ^ 32 \<and> length (space (fsm db)) < 2 ^ 32 \<and>
     rowid_map_ok (rowids db) \<and> zones_storable (zone_maps db) \<and>
     (\<forall>pg \<in> set (data_pages (pager db)). length (pg_buf pg) < 2 ^ 32) \<and>
     (\<forall>ci < length (schema db). dict_page (schema db ! ci) \<noteq> None \<longrightarrow> get_some (dicts db) ci \<noteq> None) \<and>
     (\<forall>pg \<in> set (dict_list db). dict_page_capacity \<le> length (pg_buf pg)) \<and>
     (\<forall>idx. Some idx \<in> set (indexes db) \<longrightarrow> index_live (pager db) idx)"

definition same_pages :: "pager \<Rightarrow> pager \<Rightarrow> bool" where
  "same_pages p q \<longleftrightarrow> (\<forall>i. rel_option same_page (pager_get p i) (pager_get q i))"

lemma loads_same_pages:
  assumes "loads q xs" and "pages p = map Some xs"
  shows "same_pages p q"
proof -
  have l: "list_all2 (\<lambda>x y. \<exists>pg. y = Some pg \<and> same_page x pg) xs (pages q)" using assms(1) by (simp add: loads_def)
  then have len: "length (pages q) = length (pages p)" using assms(2) by (simp add: list_all2_lengthD)
  have "rel_option same_page (pager_get p i) (pager_get q i)" for i
  proof (cases "unat i < length xs")
    case True
    then obtain pg where "pages q ! unat i = Some pg" "same_page (xs ! unat i) pg"
      using list_all2_nthD [OF l True] by blast
    then show ?thesis using True assms(2) len by (simp add: pager_get_def)
  qed (use assms(2) len in \<open>simp add: pager_get_def\<close>)
  then show ?thesis by (simp add: same_pages_def)
qed

lemma same_pages_bufs: "same_pages p q \<Longrightarrow> same_bufs p q"
  unfolding same_pages_def same_bufs_def
proof (intro allI)
  fix i assume "\<forall>i. rel_option same_page (pager_get p i) (pager_get q i)"
  then have "rel_option same_page (pager_get p i) (pager_get q i)" by blast
  then show "map_option (\<lambda>pg. (pg_kind pg, pg_buf pg)) (pager_get q i) =
      map_option (\<lambda>pg. (pg_kind pg, pg_buf pg)) (pager_get p i)"
    by (cases rule: option.rel_cases) (simp_all add: same_page_def)
qed

lemma same_pages_data:
  assumes "same_pages p q"
  shows "(\<exists>pg. pager_get q i = Some pg \<and> pg_kind pg = PkData \<and> P (pg_buf pg) (pg_slots pg)) \<longleftrightarrow>
    (\<exists>pg. pager_get p i = Some pg \<and> pg_kind pg = PkData \<and> P (pg_buf pg) (pg_slots pg))"
proof -
  have "rel_option same_page (pager_get p i) (pager_get q i)" using assms by (simp add: same_pages_def)
  then show ?thesis by (cases rule: option.rel_cases) (auto simp: same_page_def)
qed

lemma live_slot_same:
  assumes "same_pages p q"
  shows "live_slot q r at \<longleftrightarrow> live_slot p r at"
  using same_pages_data [OF assms, of "fst at" "\<lambda>_ ss. snd at < length (case ss of None \<Rightarrow> [] | Some d \<Rightarrow> d) \<and>
      slot_row ((case ss of None \<Rightarrow> [] | Some d \<Rightarrow> d) ! snd at) = r \<and> slot_live ((case ss of None \<Rightarrow> [] | Some d \<Rightarrow> d) ! snd at)"]
  unfolding live_slot_def slots_of_Some slots_of_def .

lemma data_page_ok_same:
  assumes "same_pages p q" and "\<forall>i pg. pager_get p i = Some pg \<longrightarrow> pg_kind pg = PkData \<longrightarrow> data_page_ok s pg"
    and "pager_get q i = Some y" and "pg_kind y = PkData"
  shows "data_page_ok s y"
proof -
  obtain x where x: "pager_get p i = Some x" "same_page x y"
    using assms(1,3) unfolding same_pages_def by (metis option.rel_cases option.distinct(1) option.inject)
  then have "pg_kind x = PkData" "pg_buf x = pg_buf y" "pg_slots x = pg_slots y" using assms(4) by (auto simp: same_page_def)
  moreover have "data_page_ok s x" using assms(2) x(1) calculation(1) by blast
  ultimately show ?thesis by (simp add: data_page_ok_def slots_of_def slot_count_def)
qed

lemma dict_rep_bufs:
  assumes "same_bufs p q" and "dict_rep d p bs"
  shows "dict_rep d q bs"
proof -
  obtain pg pad where pg: "pager_get p (dct_page d) = Some pg" "pg_buf pg = dict_layout bs @ pad" "capacity d = length (pg_buf pg)"
    using assms(2) by (rule dict_rep_page)
  obtain y where "pager_get q (dct_page d) = Some y" "pg_buf y = pg_buf pg" by (rule same_bufs_get [OF assms(1) pg(1)])
  then show ?thesis using assms(2) pg unfolding dict_rep_def by metis
qed

text \<open>The records of a well-formed database, page by page.\<close>

lemma dict_list_page:
  assumes ok: "db_ok db" and st: "storable_db db" and c: "ci < length (schema db)" "dict_page (schema db ! ci) = Some pid"
  obtains d pg bs where "get_some (dicts db) ci = Some d" "dct_page d = pid" "pager_get (pager db) pid = Some pg"
    "pg_kind pg = PkDict" "dict_rep d (pager db) bs" "dict_page_capacity \<le> length (pg_buf pg)"
proof -
  have "get_some (dicts db) ci \<noteq> None" using st c unfolding storable_db_def by blast
  then obtain d where d: "get_some (dicts db) ci = Some d" by blast
  have dk: "dicts_ok db" using ok by auto
  then have pid: "dct_page d = pid" using d c by (auto simp: dicts_ok_def)
  obtain pg bs where pg: "pager_get (pager db) pid = Some pg" "pg_kind pg = PkDict" "dict_rep d (pager db) bs"
    using dicts_ok_page [OF dk d] pid by metis
  have "schema db ! ci \<in> set (schema db)" using c by simp
  then have "pg \<in> set (dict_list db)" using c(2) pg(1) by (force simp: dict_list_def map_filter_mem)
  then have "dict_page_capacity \<le> length (pg_buf pg)" using st unfolding storable_db_def by blast
  then show thesis using that d pid pg by blast
qed

lemma dict_list_facts:
  assumes ok: "db_ok db" and st: "storable_db db" and x: "x \<in> set (dict_list db)"
  shows "pg_kind x = PkDict" and "pager_get (pager db) (pg_id x) = Some x"
proof -
  obtain c pid where c: "c \<in> set (schema db)" "dict_page c = Some pid" "pager_get (pager db) pid = Some x"
    using x by (auto simp: dict_list_def map_filter_mem bind_eq_Some_conv)
  obtain ci where ci: "ci < length (schema db)" "schema db ! ci = c" using c(1) by (auto simp: in_set_conv_nth)
  then show "pg_kind x = PkDict" using dict_list_page [OF ok st ci(1), of pid] c by auto
  show "pager_get (pager db) (pg_id x) = Some x"
    using c(3) pager_ok_id [of "pager db" pid x] ok by (auto simp: db_ok_def pages_ok_def)
qed

lemma dict_records_pages:
  assumes ok: "db_ok db" and st: "storable_db db"
  shows "dict_records db = map page_record (dict_list db)"
proof -
  have "(case dict_page c of None \<Rightarrow> None | Some pid \<Rightarrow> map_option (\<lambda>pg. (2, pid, pg_buf pg)) (pager_get (pager db) pid)) =
      map_option page_record (Option.bind (dict_page c) (pager_get (pager db)))" if c: "c \<in> set (schema db)" for c
  proof (cases "dict_page c")
    case (Some pid)
    obtain ci where ci: "ci < length (schema db)" "schema db ! ci = c" using c by (auto simp: in_set_conv_nth)
    obtain pg where pg: "pager_get (pager db) pid = Some pg" "pg_kind pg = PkDict"
      using dict_list_page [OF ok st ci(1), of pid] ci(2) Some by blast
    have "pg_id pg = pid" using pager_ok_id [of "pager db" pid pg] pg ok by (auto simp: db_ok_def pages_ok_def)
    then show ?thesis using Some pg by (simp add: page_record_def)
  qed simp
  then show ?thesis unfolding dict_records_def dict_list_def by (intro map_filter_map) blast
qed

text \<open>The state the record loop leaves behind.\<close>

definition index_items :: "db \<Rightarrow> (nat \<times> index_cache) list" where
  "index_items db = List.map_filter (\<lambda>(ci, idx). map_option (Pair ci) idx) (enumerate 0 (indexes db))"

lemma index_records_items:
  "index_records addr db = map (\<lambda>(ci, body). (3, as_u32 ci, body))
     (map (\<lambda>(ci, idx). (ci, encode_index addr idx (pager db))) (index_items db))"
  unfolding index_records_def index_items_def map_map
  by (intro map_filter_map) (auto simp: option.map_comp comp_def)

lemma index_items_mem: "(ci, idx) \<in> set (index_items db) \<longleftrightarrow> ci < length (indexes db) \<and> indexes db ! ci = Some idx"
proof
  assume "ci < length (indexes db) \<and> indexes db ! ci = Some idx"
  then have "(ci, Some idx) \<in> set (enumerate 0 (indexes db))" by (simp add: in_set_enumerate_eq)
  then show "(ci, idx) \<in> set (index_items db)" unfolding index_items_def map_filter_mem by force
qed (auto simp: index_items_def map_filter_mem in_set_enumerate_eq)

lemma index_items_distinct: "distinct (map fst (index_items db))"
proof -
  have "distinct (map fst (List.map_filter (\<lambda>(ci, idx). map_option (Pair ci) idx) (enumerate n xs)))" for n and xs :: "index_cache option list"
  proof (induction xs arbitrary: n)
    case (Cons x xs)
    have "n \<notin> fst ` set (List.map_filter (\<lambda>(ci, idx). map_option (Pair ci) idx) (enumerate (Suc n) xs))"
      by (auto simp: map_filter_mem in_set_enumerate_eq)
    then show ?case using Cons.IH [of "Suc n"] by (cases x) (simp_all add: map_filter_simps)
  qed (simp add: map_filter_simps)
  then show ?thesis by (simp add: index_items_def)
qed

definition loaded :: "(nat \<Rightarrow> nat) \<Rightarrow> db \<Rightarrow> pager \<Rightarrow> decoded" where
  "loaded addr db q = \<lparr>dc_schema = Some (schema db), dc_next = next_row_id db, dc_fsm = fsm db,
     dc_rowids = rowids db, dc_zones = zone_maps db, dc_pager = q,
     dc_index = map (\<lambda>(ci, idx). (ci, encode_index addr idx (pager db))) (index_items db)\<rparr>"

lemma page_records_storable:
  assumes ok: "db_ok db" and st: "storable_db db" and x: "x \<in> set (dict_list db @ data_pages (pager db))"
  shows "page_storable x"
proof (cases "x \<in> set (dict_list db)")
  case True
  then show ?thesis using dict_list_facts [OF ok st] by (simp add: page_storable_def)
next
  case False
  then have d: "x \<in> set (data_pages (pager db))" using x by simp
  have po: "pager_ok (pager db)" using ok by (auto simp: db_ok_def pages_ok_def)
  have k: "pg_kind x = PkData" "x \<in> set (pager_iter (pager db))" using d by (auto simp: data_pages_def)
  then obtain i where "pager_get (pager db) i = Some x" using pager_iter_mem [OF po] by blast
  then have "data_page_ok (schema db) x" using k(1) ok by (auto simp: db_ok_def intro: pages_okD)
  then have "slots_ok (slots_of x)" "pg_slots x = Some (slots_of x)" by (auto elim: data_page_okE)
  moreover have "length (pg_buf x) < 2 ^ 32" using st d unfolding storable_db_def by blast
  ultimately show ?thesis using k(1) by (auto simp: page_storable_def slots_ok_def)
qed

lemma decode_records_of:
  assumes ok: "db_ok db" and st: "storable_db db" and co: "container_order db"
  shows "\<exists>q. decode_records (records_of addr db) decoded_new = Ok (loaded addr db q) \<and> same_pages (pager db) q \<and> pager_ok q"
proof -
  let ?ps = "dict_list db @ data_pages (pager db)"
  have po: "pager_ok (pager db)" using ok by (auto simp: db_ok_def pages_ok_def)
  have len: "length ?ps < 4294967296"
    using pager_ok_length [OF po] co by (simp add: container_order_def)
  have data: "map data_record (data_pages (pager db)) = map page_record (data_pages (pager db))"
    by (auto simp: page_record_def data_pages_def)
  have recs: "records_of addr db = [(0, 0, schema_encode (schema db))] @ map page_record ?ps @ index_records addr db @
     [(4, 0, fsm_encode (fsm db)), (5, 0, rowid_encode (rowids db)), (6, 0, encode_zones (zone_maps db)),
      (0xfe, 0, u64_le (next_row_id db))]"
    by (simp add: records_of_def dict_records_pages [OF ok st] data)
  let ?d0 = "decoded_new\<lparr>dc_schema := Some (schema db)\<rparr>"
  have "loads (dc_pager ?d0) []" by (simp add: decoded_new_def loads_new)
  moreover have "\<forall>y \<in> set ?ps. page_storable y" using page_records_storable [OF ok st] by blast
  ultimately obtain q where q: "decode_records (map page_record ?ps) ?d0 = Ok (?d0\<lparr>dc_pager := q\<rparr>)" "loads q ?ps"
    using decode_page_records [of ?d0 "[]" ?ps] len by auto
  have i: "unat (as_u32 ci) = ci" if "(ci, idx) \<in> set (index_items db)" for ci idx
  proof -
    have "ci < length (schema db)" using that ok by (auto simp: index_items_mem db_ok_def shape_ok_def)
    moreover have "length (schema db) < 256" using st unfolding storable_db_def schema_ok_def by blast
    ultimately show ?thesis by simp
  qed
  then have items: "map (\<lambda>(ci, body). (unat (as_u32 ci), body)) (map (\<lambda>(ci, idx). (ci, encode_index addr idx (pager db))) (index_items db)) =
      map (\<lambda>(ci, idx). (ci, encode_index addr idx (pager db))) (index_items db)"
    by auto
  have s: "schema_decode (schema_encode (schema db)) = Ok (schema db)" "fsm_decode (fsm_encode (fsm db)) = Ok (fsm db)"
    "rowid_decode (rowid_encode (rowids db)) = Ok (rowids db)" "zones_storable (zone_maps db)"
    using schema_decode_encode [of "schema db" "[]"] fsm_decode_encode [of "fsm db" "[]"]
      rowid_decode_encode [of "rowids db" "[]"] st ok by (auto simp: storable_db_def db_ok_def space_ok_def)
  have n: "read_u64 (u64_le (next_row_id db)) 0 = (Ok (next_row_id db) :: u64 result)"
    by (rule read_u64_view [of _ _ _ "[]"]) simp
  let ?d1 = "?d0\<lparr>dc_pager := q\<rparr>"
  let ?d2 = "?d1\<lparr>dc_index := map (\<lambda>(ci, idx). (ci, encode_index addr idx (pager db))) (index_items db)\<rparr>"
  have d2: "decode_records (index_records addr db) ?d1 = Ok ?d2"
    unfolding index_records_items decode_index_records items by (simp add: decoded_new_def)
  have "decode_records (records_of addr db) decoded_new = decode_records [(4, 0, fsm_encode (fsm db)),
      (5, 0, rowid_encode (rowids db)), (6, 0, encode_zones (zone_maps db)), (0xfe, 0, u64_le (next_row_id db))] ?d2"
    unfolding recs decode_records_append using s(1) q(1) d2 by (simp add: decode_record_def)
  also have "\<dots> = Ok (loaded addr db q)"
    using s n decode_zone_view [OF s(4), of "?d2\<lparr>dc_fsm := fsm db, dc_rowids := rowids db\<rparr>"]
    by (simp add: decode_record_def loaded_def decoded_new_def)
  finally show ?thesis
    using loads_same_pages [OF q(2)] co q(2) by (auto simp: container_order_def loads_def)
qed

text \<open>The database the decoder assembles, up to the caches it rebuilds.\<close>

definition restored :: "db \<Rightarrow> pager \<Rightarrow> index_cache option list \<Rightarrow> dict option list \<Rightarrow> db" where
  "restored db q xs ds = (database_new (schema db))\<lparr>pager := q, fsm := fsm db, rowids := rowids db,
     zone_maps := zone_maps db, next_row_id := next_row_id db, indexes := xs, dicts := ds\<rparr>"

definition caches_ok :: "db \<Rightarrow> pager \<Rightarrow> index_cache option list \<Rightarrow> dict option list \<Rightarrow> bool" where
  "caches_ok db q xs ds \<longleftrightarrow> length xs = length (schema db) \<and> length ds = length (schema db) \<and>
     (\<forall>ci idx. get_some (indexes db) ci = Some idx \<longrightarrow>
        (\<exists>idx'. get_some xs ci = Some idx' \<and> (\<forall>k. probe idx' q k = probe idx (pager db) k))) \<and>
     (\<forall>ci < length (schema db). dict_slot q (schema db ! ci) (map_option dict_new (dict_page (schema db ! ci))) (ds ! ci))"

lemma assemble_ok:
  assumes ok: "db_ok db" and st: "storable_db db" and sp: "same_pages (pager db) q" and qo: "pager_ok q"
  shows "\<exists>xs ds. assemble (loaded addr db q) = Ok (restored db q xs ds) \<and> caches_ok db q xs ds"
proof -
  let ?s = "schema db"
  let ?db = "(database_new ?s)\<lparr>pager := q, fsm := fsm db, rowids := rowids db, zone_maps := zone_maps db,
     next_row_id := next_row_id db\<rparr>"
  have po: "pager_ok (pager db)" and sb: "same_bufs (pager db) q"
    using ok same_pages_bufs [OF sp] by (auto simp: db_ok_def pages_ok_def)
  have shape: "length (indexes db) = length ?s" "length ?s \<le> length (zone_maps db)"
    using ok by (simp_all add: db_ok_def shape_ok_def)
  have il: "length (indexes ?db) = length ?s" "length (dicts ?db) = length ?s" by (simp_all add: database_new_def)
  let ?P = "\<lambda>idx idx'. \<forall>k. probe idx' q k = probe idx (pager db) k"
  let ?bs = "map (\<lambda>(ci, idx). (ci, encode_index addr idx (pager db))) (index_items db)"
  have "\<exists>idx'. decode_index (encode_index addr idx (pager db)) (?db\<lparr>indexes := xs\<rparr>) = Ok idx' \<and> ?P idx idx'"
    if "(ci, idx) \<in> set (index_items db)" for ci idx xs
  proof -
    have "Some idx \<in> set (indexes db)" using that nth_mem by (fastforce simp: index_items_mem)
    then have "index_live (pager db) idx" using st unfolding storable_db_def by blast
    from decode_index_encode [OF this, of "?db\<lparr>indexes := xs\<rparr>" addr] show ?thesis using sb po qo by simp
  qed
  then have "list_all2 (\<lambda>(ci, idx) (cj, body). cj = ci \<and> ci < length (indexes ?db) \<and>
      (\<forall>xs. \<exists>idx'. decode_index body (?db\<lparr>indexes := xs\<rparr>) = Ok idx' \<and> ?P idx idx')) (index_items db) ?bs"
    using shape(1) unfolding il(1) list_all2_map2 list_all2_same by (auto simp: index_items_mem)
  from build_indexes_ok [OF this index_items_distinct] obtain xs
    where xs: "build_indexes ?bs ?db = Ok (?db\<lparr>indexes := xs\<rparr>)" "length xs = length ?s"
      "\<forall>(ci, idx) \<in> set (index_items db). \<exists>idx'. xs ! ci = Some idx' \<and> ?P idx idx'"
    unfolding il(1) by blast
  let ?db1 = "?db\<lparr>indexes := xs\<rparr>"
  have "dict_cell q c" if c: "c \<in> set ?s" for c
  proof -
    obtain ci where ci: "ci < length ?s" "?s ! ci = c" using c by (auto simp: in_set_conv_nth)
    show ?thesis unfolding dict_cell_def
    proof (intro allI impI)
      fix pid assume "dict_page c = Some pid"
      then obtain d pg bs where d: "dct_page d = pid" "pager_get (pager db) pid = Some pg" "dict_rep d (pager db) bs"
        "dict_page_capacity \<le> length (pg_buf pg)" using dict_list_page [OF ok st ci(1)] ci(2) by metis
      obtain pg' where "pager_get q pid = Some pg'" "pg_buf pg' = pg_buf pg" by (rule same_bufs_get [OF sb d(2)])
      then show "\<exists>d pg bs. pager_get q pid = Some pg \<and> dct_page d = pid \<and> dict_rep d q bs \<and> dict_page_capacity \<le> length (pg_buf pg)"
        using d dict_rep_bufs [OF sb d(3)] by metis
    qed
  qed
  then obtain ds where ds: "build_dicts 0 ?s ?db1 = Ok (?db1\<lparr>dicts := ds\<rparr>)" "length ds = length ?s"
    "\<forall>j < length ?s. dict_slot q (?s ! j) (map_option dict_new (dict_page (?s ! j))) (ds ! j)"
    using build_dicts_ok [of ?s ?db1 0] by (auto simp: database_new_def)
  have s0: "schema ?db = ?s" by (simp add: database_new_def)
  have "assemble (loaded addr db q) = Ok (?db1\<lparr>dicts := ds\<rparr>)"
    using xs(1) ds(1) shape(2) s0 by (simp add: assemble_def loaded_def arity_def Let_def)
  moreover have "caches_ok db q xs ds"
    using xs ds shape(1) unfolding caches_ok_def
    by (fastforce simp: get_some_def nth_opt_def index_items_mem split: if_splits)
  ultimately show ?thesis unfolding restored_def by auto
qed

lemma dicts_ok_inj:
  "dicts_ok db \<Longrightarrow> get_some (dicts db) ci = Some d \<Longrightarrow> get_some (dicts db) cj = Some d' \<Longrightarrow>
   dct_page d = dct_page d' \<Longrightarrow> ci = cj"
  unfolding dicts_ok_def by blast

text \<open>The assembled database is well-formed and stores the same table.\<close>

lemma restored_ok:
  assumes ok: "db_ok db" and st: "storable_db db" and sp: "same_pages (pager db) q" and qo: "pager_ok q"
    and ca: "caches_ok db q xs ds"
  shows "db_ok (restored db q xs ds)" and "table (restored db q xs ds) = table db"
proof -
  let ?s = "schema db" and ?db = "restored db q xs ds"
  have f: "schema ?db = ?s" "pager ?db = q" "rowids ?db = rowids db" "fsm ?db = fsm db" "zone_maps ?db = zone_maps db"
    "dicts ?db = ds" "indexes ?db = xs" by (simp_all add: restored_def database_new_def)
  have "shape_ok ?db" using ok ca by (simp add: shape_ok_def f db_ok_def caches_ok_def)
  moreover have "pages_ok ?db"
    using qo data_page_ok_same [OF sp, of ?s] ok by (auto simp: pages_ok_def f db_ok_def)
  moreover have "rows_ok ?db" using ok by (simp add: rows_ok_def f live_slot_same [OF sp] db_ok_def)
  moreover have "space_ok ?db"
    using ok same_pages_data [OF sp, of _ "\<lambda>_ _. True"] by (simp add: space_ok_def f db_ok_def)
  moreover have "dicts_ok ?db"
  proof -
    have d: "ci < length ?s \<and> dict_page (?s ! ci) = Some (dct_page d) \<and> (\<exists>bs. dict_rep d q bs) \<and>
        (\<exists>pg. pager_get q (dct_page d) = Some pg \<and> pg_kind pg = PkDict) \<and>
        (\<exists>d0. get_some (dicts db) ci = Some d0 \<and> dct_page d0 = dct_page d)" if g: "get_some ds ci = Some d" for ci d
    proof -
      have ci: "ci < length ?s" "ds ! ci = Some d" using g ca by (auto simp: get_some_def nth_opt_def caches_ok_def split: if_splits)
      have sl: "dict_slot q (?s ! ci) (map_option dict_new (dict_page (?s ! ci))) (Some d)"
        using ca ci unfolding caches_ok_def by metis
      then obtain pid bs where pid: "dict_page (?s ! ci) = Some pid" "dct_page d = pid" "dict_rep d q bs"
        unfolding dict_slot_def by (cases "dict_page (?s ! ci)") auto
      obtain d0 pg where d0: "get_some (dicts db) ci = Some d0" "dct_page d0 = pid" "pager_get (pager db) pid = Some pg" "pg_kind pg = PkDict"
        using dict_list_page [OF ok st ci(1) pid(1)] by metis
      obtain pg' where "pager_get q pid = Some pg'" "pg_kind pg' = PkDict"
        by (rule same_bufs_get [OF same_pages_bufs [OF sp] d0(3)]) (simp add: d0(4))
      then show ?thesis using ci pid d0 by blast
    qed
    have uniq: "ci = cj" if g: "get_some ds ci = Some d" "get_some ds cj = Some d'" and e: "dct_page d = dct_page d'" for ci cj d d'
    proof -
      obtain a b where ab: "get_some (dicts db) ci = Some a" "get_some (dicts db) cj = Some b"
        "dct_page a = dct_page d" "dct_page b = dct_page d'" using d [OF g(1)] d [OF g(2)] by blast
      have "dicts_ok db" using ok by auto
      from dicts_ok_inj [OF this ab(1,2)] show ?thesis using ab(3,4) e by simp
    qed
    have "ci < length ?s \<and> dict_page (?s ! ci) = Some (dct_page d) \<and> (\<exists>bs. dict_rep d q bs) \<and>
        (\<forall>pg. pager_get q (dct_page d) = Some pg \<longrightarrow> pg_kind pg = PkDict)" if g: "get_some ds ci = Some d" for ci d
      using d [OF g] by auto
    then show ?thesis using uniq unfolding dicts_ok_def f by blast
  qed
  ultimately show "db_ok ?db" by (simp add: db_ok_def)
  show "table ?db = table db"
  proof (rule table_cong)
    show "rid_get (rowids ?db) = rid_get (rowids db)" by (simp add: f)
    fix p i
    have "rel_option same_page (pager_get (pager db) p) (pager_get q p)" using sp by (simp add: same_pages_def)
    then show "map_option (\<lambda>pg. page_row pg i) (pager_get (pager ?db) p) =
        map_option (\<lambda>pg. page_row pg i) (pager_get (pager db) p)"
      unfolding f by (cases rule: option.rel_cases) (simp_all add: same_page_def page_row_def)
  qed
qed

text \<open>Writing and reading back.\<close>

lemma checkpoint_ok:
  assumes ok: "db_ok db" and st: "storable_db db" and co: "container_order db"
    and n: "length (records_of addr db) < 2 ^ 32" "total_len (records_of addr db) < 2 ^ 32"
  shows "\<exists>data q xs ds. encode_database addr db = Ok data \<and> decode data = Ok (restored db q xs ds) \<and>
    caches_ok db q xs ds \<and> db_ok (restored db q xs ds) \<and> table (restored db q xs ds) = table db"
proof -
  obtain data where data: "layout (records_of addr db) = Ok data" "read_container data = Ok (records_of addr db)"
    using read_container_layout [OF n] by blast
  obtain q where q: "decode_records (records_of addr db) decoded_new = Ok (loaded addr db q)" "same_pages (pager db) q" "pager_ok q"
    using decode_records_of [OF ok st co] by blast
  obtain xs ds where a: "assemble (loaded addr db q) = Ok (restored db q xs ds)" "caches_ok db q xs ds"
    using assemble_ok [OF ok st q(2,3)] by blast
  have "decode data = Ok (restored db q xs ds)" using data(2) q(1) a(1) by (simp add: decode_def)
  then show ?thesis
    using data(1) a(2) restored_ok [OF ok st q(2,3) a(2)] by (auto simp: encode_database_def)
qed

end
