(* ===== verification/Wals.thy ===== *)
theory Wals
  imports Values Errors
begin

text \<open>
  The write-ahead log (\<open>src/src/wal.rs\<close>): records with their checksum, segments that rotate when a
  record does not fit, reading the log back, truncation behind a checkpoint, and the payloads of the
  row operations. The abstraction is the list of records of each segment.
\<close>

section \<open>Records\<close>

datatype rec_type = RtBegin | RtCommit | RtAbort | RtInsert | RtUpdate | RtDelete | RtCheckpoint | RtSchema

fun rec_type_as_u8 :: "rec_type \<Rightarrow> u8" where
  "rec_type_as_u8 RtBegin = 0"
| "rec_type_as_u8 RtCommit = 1"
| "rec_type_as_u8 RtAbort = 2"
| "rec_type_as_u8 RtInsert = 3"
| "rec_type_as_u8 RtUpdate = 4"
| "rec_type_as_u8 RtDelete = 5"
| "rec_type_as_u8 RtCheckpoint = 6"
| "rec_type_as_u8 RtSchema = 7"

definition rec_type_from_u8 :: "u8 \<Rightarrow> rec_type option" where
  "rec_type_from_u8 b = (if b = 0 then Some RtBegin else if b = 1 then Some RtCommit
     else if b = 2 then Some RtAbort else if b = 3 then Some RtInsert else if b = 4 then Some RtUpdate
     else if b = 5 then Some RtDelete else if b = 6 then Some RtCheckpoint else if b = 7 then Some RtSchema
     else None)"

record wal_record =
  wr_lsn :: u64
  wr_txn :: u64
  wr_type :: rec_type
  wr_payload :: "u8 list"

definition wal_checksum :: "u8 list \<Rightarrow> u32" where
  "wal_checksum = foldl (\<lambda>s b. s * 0x01000193 + ucast b) 0x811c9dc5"

definition wal_encode_record :: "u64 \<Rightarrow> u64 \<Rightarrow> rec_type \<Rightarrow> u8 list \<Rightarrow> u8 list" where
  "wal_encode_record l t k payload = [rec_type_as_u8 k] @ u64_le l @ u64_le t @ len_le (length payload) @
     u32_le (wal_checksum payload) @ payload"

definition wal_decode_record :: "u8 list \<Rightarrow> (wal_record \<times> nat) option" where
  "wal_decode_record buf =
     (if length buf < 25 then None
      else (case rec_type_from_u8 (buf ! 0) of None \<Rightarrow> None | Some k \<Rightarrow>
        let l = u64_of_le (take 8 (drop 1 buf)); t = u64_of_le (take 8 (drop 9 buf));
            len = unat (u32_of_le (take 4 (drop 17 buf))); cs = u32_of_le (take 4 (drop 21 buf)) in
        if length buf < 25 + len then None
        else let payload = take len (drop 25 buf) in
          if wal_checksum payload \<noteq> cs then None
          else Some (\<lparr>wr_lsn = l, wr_txn = t, wr_type = k, wr_payload = payload\<rparr>, 25 + len)))"

section \<open>Segments\<close>

record segment =
  sg_start :: u64
  sg_cap :: nat
  sg_buf :: "u8 list"
  sg_count :: u32

definition segment_new :: "u64 \<Rightarrow> nat \<Rightarrow> segment" where
  "segment_new start cap = \<lparr>sg_start = start, sg_cap = cap, sg_buf = [], sg_count = 0\<rparr>"

definition segment_used :: "segment \<Rightarrow> nat" where
  "segment_used s = length (sg_buf s)"

definition segment_is_empty :: "segment \<Rightarrow> bool" where
  "segment_is_empty s \<longleftrightarrow> sg_buf s = []"

definition segment_is_full :: "segment \<Rightarrow> bool" where
  "segment_is_full s \<longleftrightarrow> sg_cap s \<le> length (sg_buf s)"

definition can_fit :: "segment \<Rightarrow> nat \<Rightarrow> bool" where
  "can_fit s len \<longleftrightarrow> length (sg_buf s) + len \<le> sg_cap s"

record wal =
  wl_segments :: "segment list"
  wl_cap :: nat
  wl_next :: u64

definition wal_new :: "nat \<Rightarrow> wal" where
  "wal_new cap = (let c = max cap 256 in \<lparr>wl_segments = [segment_new 0 c], wl_cap = c, wl_next = 1\<rparr>)"

definition wal_current :: "wal \<Rightarrow> segment result" where
  "wal_current w = (if wl_segments w = [] then Panic else Ok (last (wl_segments w)))"

definition push_record :: "u8 list \<Rightarrow> segment \<Rightarrow> segment result" where
  "push_record bytes s = (if sg_count s = u32_max then Panic
     else Ok (s\<lparr>sg_buf := sg_buf s @ bytes, sg_count := sg_count s + 1\<rparr>))"

text \<open>Appending: a record goes into the current segment, or into a new one when it does not fit.\<close>

definition wal_append :: "u64 \<Rightarrow> rec_type \<Rightarrow> u8 list \<Rightarrow> wal \<Rightarrow> (u64 \<times> wal) result" where
  "wal_append t k payload w = (let l = wl_next w; bytes = wal_encode_record l t k payload in
     rbind (wal_current w) (\<lambda>cur.
       let segs = (if \<not> can_fit cur (length bytes) \<and> \<not> segment_is_empty cur
             then wl_segments w @ [segment_new l (wl_cap w)] else wl_segments w) in
       rbind (push_record bytes (last segs)) (\<lambda>s.
         if wl_next w = - 1 then Panic
         else Ok (l, w\<lparr>wl_segments := butlast segs @ [s], wl_next := wl_next w + 1\<rparr>))))"

lemma wal_decode_record_used: "wal_decode_record buf = Some (r, n) \<Longrightarrow> 25 \<le> n \<and> n \<le> length buf"
  by (auto simp: wal_decode_record_def Let_def split: if_splits option.splits)

function segment_records :: "u8 list \<Rightarrow> wal_record list" where
  "segment_records buf = (case wal_decode_record buf of None \<Rightarrow> []
     | Some (r, n) \<Rightarrow> r # segment_records (drop n buf))"
  by pat_completeness auto
termination
  by (relation "measure length") (auto dest!: wal_decode_record_used)

declare segment_records.simps [simp del]

definition wal_records :: "wal \<Rightarrow> wal_record list" where
  "wal_records w = concat (map (segment_records \<circ> sg_buf) (wl_segments w))"

definition segment_end :: "segment \<Rightarrow> nat" where
  "segment_end s = unat (sg_start s) + unat (sg_count s)"

definition truncate_before :: "u64 \<Rightarrow> wal \<Rightarrow> wal result" where
  "truncate_before l w =
     (if \<exists>s \<in> set (wl_segments w). 2 ^ 64 \<le> segment_end s then Panic
      else let segs = filter (\<lambda>s. unat l < segment_end s) (wl_segments w) in
        Ok (w\<lparr>wl_segments := if segs = [] then [segment_new (wl_next w) (wl_cap w)] else segs\<rparr>))"

definition segment_count :: "wal \<Rightarrow> nat" where
  "segment_count w = length (wl_segments w)"

definition record_count :: "wal \<Rightarrow> u32 result" where
  "record_count w = (let n = sum_list (map (unat \<circ> sg_count) (wl_segments w)) in
     if 2 ^ 32 \<le> n then Panic else Ok (word_of_nat n))"

section \<open>Payloads\<close>

fun wal_encode_value :: "val \<Rightarrow> u8 list" where
  "wal_encode_value VNull = [0]"
| "wal_encode_value (VBool b) = [1, if b then 1 else 0]"
| "wal_encode_value (VInt i) = 2 # u64_le i"
| "wal_encode_value (VReal r) = 3 # u64_le (f64_bits r)"
| "wal_encode_value (VText t) = 4 # u32_le t"

definition wal_decode_value :: "u8 list \<Rightarrow> (val \<times> nat) option" where
  "wal_decode_value buf = (case buf of [] \<Rightarrow> None | t # r \<Rightarrow>
     if t = 0 then Some (VNull, 1)
     else if t = 1 then Some (VBool ((case nth_opt buf 1 of None \<Rightarrow> 0 | Some b \<Rightarrow> b) \<noteq> 0), 2)
     else if t = 2 then (if length buf < 9 then None else Some (VInt (u64_of_le (take 8 r)), 9))
     else if t = 3 then (if length buf < 9 then None else Some (VReal (F64 (u64_of_le (take 8 r))), 9))
     else if t = 4 then (if length buf < 5 then None else Some (VText (u32_of_le (take 4 r)), 5))
     else None)"

text \<open>The arity is cut to a byte.\<close>

definition encode_insert_payload :: "u64 \<Rightarrow> val list \<Rightarrow> u8 list" where
  "encode_insert_payload r vs = u64_le r @ [word_of_nat (length vs)] @ concat (map wal_encode_value vs)"

text \<open>\<open>&buf[pos..]\<close> panics when a value announced more bytes than there were.\<close>

fun values_loop :: "nat \<Rightarrow> u8 list \<Rightarrow> nat \<Rightarrow> val list option result" where
  "values_loop 0 buf pos = Ok (Some [])"
| "values_loop (Suc n) buf pos = (if length buf < pos then Panic
     else (case wal_decode_value (drop pos buf) of None \<Rightarrow> Ok None
       | Some (v, used) \<Rightarrow> rbind (values_loop n buf (pos + used)) (\<lambda>vs. Ok (map_option ((#) v) vs))))"

definition decode_insert_payload :: "u8 list \<Rightarrow> (u64 \<times> val list) option result" where
  "decode_insert_payload buf = (if length buf < 9 then Ok None
     else rbind (values_loop (unat (buf ! 8)) buf 9) (\<lambda>vs.
       Ok (map_option (\<lambda>vs. (u64_of_le (take 8 buf), vs)) vs)))"

definition encode_delete_payload :: "u64 \<Rightarrow> u8 list" where
  "encode_delete_payload r = u64_le r"

definition decode_delete_payload :: "u8 list \<Rightarrow> u64 option" where
  "decode_delete_payload buf = (if length buf < 8 then None else Some (u64_of_le (take 8 buf)))"

definition encode_update_payload :: "u64 \<Rightarrow> nat \<Rightarrow> val \<Rightarrow> u8 list" where
  "encode_update_payload r col v = u64_le r @ [word_of_nat col] @ wal_encode_value v"

definition decode_update_payload :: "u8 list \<Rightarrow> (u64 \<times> nat \<times> val) option" where
  "decode_update_payload buf = (if length buf < 9 then None
     else map_option (\<lambda>(v, _). (u64_of_le (take 8 buf), unat (buf ! 8), v)) (wal_decode_value (drop 9 buf)))"

section \<open>Round trips\<close>

lemma rec_type_roundtrip [simp]: "rec_type_from_u8 (rec_type_as_u8 k) = Some k"
  by (cases k) (simp_all add: rec_type_from_u8_def)

definition record_bytes :: "wal_record \<Rightarrow> u8 list" where
  "record_bytes r = wal_encode_record (wr_lsn r) (wr_txn r) (wr_type r) (wr_payload r)"

lemma record_bytes_length [simp]: "length (record_bytes r) = 25 + length (wr_payload r)"
  by (simp add: record_bytes_def wal_encode_record_def)

lemma decode_encode_record:
  assumes "length (wr_payload r) < 2 ^ 32"
  shows "wal_decode_record (record_bytes r @ rest) = Some (r, length (record_bytes r))"
proof -
  let ?k = "rec_type_as_u8 (wr_type r)" and ?l = "u64_le (wr_lsn r)" and ?t = "u64_le (wr_txn r)"
    and ?n = "len_le (length (wr_payload r))" and ?c = "u32_le (wal_checksum (wr_payload r))"
  have b: "record_bytes r @ rest = ?k # ?l @ ?t @ ?n @ ?c @ wr_payload r @ rest"
    by (simp add: record_bytes_def wal_encode_record_def)
  have f: "take 8 (drop 1 (record_bytes r @ rest)) = ?l" "take 8 (drop 9 (record_bytes r @ rest)) = ?t"
    "take 4 (drop 17 (record_bytes r @ rest)) = ?n" "take 4 (drop 21 (record_bytes r @ rest)) = ?c"
    "take (length (wr_payload r)) (drop 25 (record_bytes r @ rest)) = wr_payload r"
    "(record_bytes r @ rest) ! 0 = ?k" by (simp_all add: b)
  have "drop 25 (record_bytes r) = wr_payload r" by (simp add: record_bytes_def wal_encode_record_def)
  then show ?thesis
    unfolding wal_decode_record_def f Let_def using assms by simp
qed

lemma segment_records_encode:
  "\<forall>r \<in> set rs. length (wr_payload r) < 2 ^ 32 \<Longrightarrow> segment_records (concat (map record_bytes rs)) = rs"
proof (induction rs)
  case Nil
  then show ?case by (simp add: segment_records.simps wal_decode_record_def)
next
  case (Cons r rs)
  then show ?case
    using decode_encode_record [of r "concat (map record_bytes rs)"]
    by (subst segment_records.simps) simp
qed

lemma wal_decode_encode_value: "wal_decode_value (wal_encode_value v @ post) = Some (v, length (wal_encode_value v))"
  by (cases v) (auto simp: wal_decode_value_def nth_opt_def)

lemma values_loop_encode:
  assumes "drop pos buf = concat (map wal_encode_value vs) @ post" and "pos \<le> length buf"
  shows "values_loop (length vs) buf pos = Ok (Some vs)"
  using assms
proof (induction vs arbitrary: pos)
  case (Cons v vs)
  let ?n = "length (wal_encode_value v)"
  have d: "drop pos buf = wal_encode_value v @ (concat (map wal_encode_value vs) @ post)" using Cons.prems by simp
  have "wal_encode_value v \<noteq> []" by (cases v) auto
  then have "values_loop (length vs) buf (pos + ?n) = Ok (Some vs)"
    using Cons.IH [OF drop_advance [OF d]] drop_prefix_le [OF d] by simp
  then show ?case using Cons.prems(2) d by (simp add: wal_decode_encode_value)
qed simp

lemma insert_payload_roundtrip:
  assumes "length vs < 256"
  shows "decode_insert_payload (encode_insert_payload r vs) = Ok (Some (r, vs))"
proof -
  let ?buf = "encode_insert_payload r vs"
  have b: "?buf = u64_le r @ word_of_nat (length vs) # concat (map wal_encode_value vs)"
    by (simp add: encode_insert_payload_def)
  have "drop 9 ?buf = concat (map wal_encode_value vs) @ []" by (simp add: b)
  then have "values_loop (length vs) ?buf 9 = Ok (Some vs)" by (rule values_loop_encode) (simp add: b)
  moreover have "unat (?buf ! 8) = length vs" using assms by (simp add: b nth_append unat_of_nat)
  moreover have "take 8 ?buf = u64_le r" by (simp add: b)
  ultimately show ?thesis by (simp add: decode_insert_payload_def) (simp add: b)
qed

lemma update_payload_roundtrip:
  assumes "col < 256"
  shows "decode_update_payload (encode_update_payload r col v) = Some (r, col, v)"
proof -
  let ?buf = "encode_update_payload r col v"
  have b: "?buf = u64_le r @ word_of_nat col # wal_encode_value v" by (simp add: encode_update_payload_def)
  have "drop 9 ?buf = wal_encode_value v @ []" by (simp add: b)
  moreover have "unat (?buf ! 8) = col" using assms by (simp add: b nth_append unat_of_nat)
  ultimately show ?thesis by (simp add: decode_update_payload_def wal_decode_encode_value del: append_Nil2) (simp add: b)
qed

lemma delete_payload_roundtrip: "decode_delete_payload (encode_delete_payload r) = Some r"
  by (simp add: decode_delete_payload_def encode_delete_payload_def)

section \<open>The log as a list of records\<close>

definition segment_ok :: "segment \<Rightarrow> wal_record list \<Rightarrow> bool" where
  "segment_ok s rs \<longleftrightarrow> sg_buf s = concat (map record_bytes rs) \<and> unat (sg_count s) = length rs \<and>
     (\<forall>r \<in> set rs. length (wr_payload r) < 2 ^ 32 \<and> unat (wr_lsn r) \<le> segment_end s)"

definition wal_rep :: "wal \<Rightarrow> wal_record list list \<Rightarrow> bool" where
  "wal_rep w rss \<longleftrightarrow> wl_segments w \<noteq> [] \<and> list_all2 segment_ok (wl_segments w) rss \<and>
     sorted_wrt (<) (map wr_lsn (concat rss)) \<and> (\<forall>r \<in> set (concat rss). wr_lsn r < wl_next w) \<and>
     sorted (map segment_end (wl_segments w)) \<and> segment_end (last (wl_segments w)) \<le> unat (wl_next w) \<and>
     unat (wl_next w) \<le> segment_end (last (wl_segments w)) + 1"

lemma wal_rep_new: "wal_rep (wal_new cap) [[]]"
  by (simp add: wal_rep_def wal_new_def Let_def segment_new_def segment_ok_def segment_end_def)

lemma wal_rep_records:
  assumes "wal_rep w rss"
  shows "wal_records w = concat rss"
proof -
  have "list_all2 segment_ok ss rss \<Longrightarrow> map (segment_records \<circ> sg_buf) ss = rss" for ss
    by (induction rule: list_all2_induct) (auto simp: segment_ok_def segment_records_encode)
  then show ?thesis using assms by (simp add: wal_rep_def wal_records_def)
qed

lemma u64_succ: "(x :: u64) \<noteq> - 1 \<Longrightarrow> unat (x + 1) = unat x + 1 \<and> x < x + 1"
proof -
  assume "x \<noteq> - 1"
  then have "1 + x \<noteq> 0" by (metis add.commute eq_neg_iff_add_eq_0)
  then show ?thesis using unatSuc [of x] by (simp add: word_less_nat_alt add.commute)
qed

definition new_record :: "wal \<Rightarrow> u64 \<Rightarrow> rec_type \<Rightarrow> u8 list \<Rightarrow> wal_record" where
  "new_record w t k payload = \<lparr>wr_lsn = wl_next w, wr_txn = t, wr_type = k, wr_payload = payload\<rparr>"

lemma push_record_ok:
  assumes "segment_ok s rs" and "push_record (record_bytes r) s = Ok s'"
    and "length (wr_payload r) < 2 ^ 32" and "unat (wr_lsn r) \<le> segment_end s + 1"
  shows "segment_ok s' (rs @ [r])" and "segment_end s' = segment_end s + 1"
proof -
  have ne: "sg_count s \<noteq> u32_max" and s': "s' = s\<lparr>sg_buf := sg_buf s @ record_bytes r, sg_count := sg_count s + 1\<rparr>"
    using assms(2) by (auto simp: push_record_def split: if_splits)
  have c: "unat (sg_count s') = Suc (unat (sg_count s))" using unat_u32_Suc [OF ne] by (simp add: s')
  then show e: "segment_end s' = segment_end s + 1" by (simp add: segment_end_def s')
  show "segment_ok s' (rs @ [r])" using assms(1,3,4) c e by (auto simp: segment_ok_def s')
qed

text \<open>Appending adds the new record at the end, with the next sequence number.\<close>

lemma wal_append_ok:
  assumes rep: "wal_rep w rss" and a: "wal_append t k payload w = Ok (l, w')" and len: "length payload < 2 ^ 32"
  shows "l = wl_next w \<and> (\<exists>rss'. wal_rep w' rss' \<and> concat rss' = concat rss @ [new_record w t k payload])"
proof -
  let ?r = "new_record w t k payload" and ?segs = "wl_segments w" and ?l = "wl_next w"
  have ne: "?segs \<noteq> []" and all: "list_all2 segment_ok ?segs rss" and so: "sorted_wrt (<) (map wr_lsn (concat rss))"
    and less: "\<forall>r \<in> set (concat rss). wr_lsn r < ?l" and se: "sorted (map segment_end ?segs)"
    and lo: "segment_end (last ?segs) \<le> unat ?l" and hi: "unat ?l \<le> segment_end (last ?segs) + 1"
    using rep by (simp_all add: wal_rep_def)
  have bytes: "wal_encode_record ?l t k payload = record_bytes ?r" by (simp add: record_bytes_def new_record_def)
  define segs where "segs = (if \<not> can_fit (last ?segs) (length (record_bytes ?r)) \<and> \<not> segment_is_empty (last ?segs)
             then ?segs @ [segment_new ?l (wl_cap w)] else ?segs)"
  define rss1 where "rss1 = (if \<not> can_fit (last ?segs) (length (record_bytes ?r)) \<and> \<not> segment_is_empty (last ?segs)
             then rss @ [[]] else rss)"
  obtain s where s: "push_record (record_bytes ?r) (last segs) = Ok s" "?l \<noteq> - 1" "l = ?l"
    "w' = w\<lparr>wl_segments := butlast segs @ [s], wl_next := ?l + 1\<rparr>"
    using a ne by (auto simp: wal_append_def wal_current_def Let_def res_simps bytes segs_def split: if_splits)
  have n0: "segment_ok (segment_new ?l c) []" "segment_end (segment_new ?l c) = unat ?l" for c
    by (simp_all add: segment_ok_def segment_new_def segment_end_def)
  have le: "segment_end x \<le> unat ?l" if "x \<in> set ?segs" for x
    using se lo ne that by (cases ?segs rule: rev_cases) (auto simp: sorted_append intro: le_trans)
  have segs: "segs \<noteq> []" "list_all2 segment_ok segs rss1" "concat rss1 = concat rss" "sorted (map segment_end segs)"
    "unat ?l \<le> segment_end (last segs) + 1" "segment_end (last segs) \<le> unat ?l"
    using ne all n0 se lo hi le by (auto simp: segs_def rss1_def sorted_append intro!: list_all2_appendI)
  obtain ss x where sx: "segs = ss @ [x]" using segs(1) by (cases segs rule: rev_cases) auto
  then obtain us rs where us: "rss1 = us @ [rs]" "list_all2 segment_ok ss us" "segment_ok x rs"
    using segs(2) by (auto simp: list_all2_append1 list_all2_Cons1)
  have p: "segment_ok s (rs @ [?r])" "segment_end s = segment_end x + 1"
    using push_record_ok [OF us(3) s(1) [unfolded sx last_snoc]] len segs(5) by (simp_all add: new_record_def sx)
  have up: "unat (?l + 1) = unat ?l + 1" "?l < ?l + 1" using u64_succ [OF s(2)] by auto
  have "concat (us @ [rs @ [?r]]) = concat rss @ [?r]" using segs(3) by (simp add: us(1))
  moreover have "wal_rep w' (us @ [rs @ [?r]])"
    unfolding wal_rep_def
  proof (intro conjI)
    show "list_all2 segment_ok (wl_segments w') (us @ [rs @ [?r]])" using us(2) p by (simp add: s(4) sx list_all2_appendI)
    have cc: "concat (us @ [rs @ [?r]]) = concat rss @ [?r]" using segs(3) by (simp add: us(1))
    have "sorted_wrt (<) (map wr_lsn (concat rss @ [?r]))"
      using so less by (simp add: sorted_wrt_append new_record_def)
    then show "sorted_wrt (<) (map wr_lsn (concat (us @ [rs @ [?r]])))" by (simp only: cc)
    have "\<forall>r \<in> set (concat rss @ [?r]). wr_lsn r < ?l + 1"
      using less up(2) less_trans [OF _ up(2)] by (simp add: new_record_def)
    then show "\<forall>r \<in> set (concat (us @ [rs @ [?r]])). wr_lsn r < wl_next w'" by (simp only: cc s(4)) simp
    show "sorted (map segment_end (wl_segments w'))" using segs(4) p(2) by (auto simp: s(4) sx sorted_append)
  qed (use segs(5,6) p(2) up(1) in \<open>simp_all add: s(4) sx\<close>)
  ultimately show ?thesis using s(3) by blast
qed

lemma wal_append_total:
  assumes "wal_rep w rss" and "wl_next w \<noteq> - 1" and "\<forall>s \<in> set (wl_segments w). sg_count s \<noteq> u32_max"
  shows "\<exists>l w'. wal_append t k payload w = Ok (l, w')"
proof -
  have "wl_segments w \<noteq> []" using assms(1) by (simp add: wal_rep_def)
  moreover have "sg_count (segment_new l c) \<noteq> u32_max" for l c by (simp add: segment_new_def u32_max_def)
  ultimately show ?thesis using assms(2,3) by (simp add: wal_append_def wal_current_def push_record_def Let_def res_simps)
qed
section \<open>Truncation\<close>

lemma sorted_filter_drop:
  "sorted (map f xs) \<Longrightarrow> filter (\<lambda>x. l < f x) xs = drop (length (takeWhile (\<lambda>x. f x \<le> (l :: nat)) xs)) xs"
proof (induction xs)
  case (Cons x xs)
  show ?case
  proof (cases "f x \<le> l")
    case False
    then have "filter (\<lambda>x. l < f x) xs = xs" using Cons.prems by (auto intro!: filter_True)
    then show ?thesis using False by simp
  qed (use Cons in auto)
qed simp

text \<open>Truncation only drops whole segments from the front, and no record behind the given one.\<close>

lemma truncate_ok:
  assumes rep: "wal_rep w rss" and t: "truncate_before l w = Ok w'"
  shows "\<exists>k rss'. wal_rep w' rss' \<and> concat rss' = concat (drop k rss) \<and>
    (\<forall>r \<in> set (concat (take k rss)). wr_lsn r \<le> l)"
proof -
  let ?segs = "wl_segments w" and ?next = "wl_next w"
  define k where "k = length (takeWhile (\<lambda>s. segment_end s \<le> unat l) ?segs)"
  have ne: "?segs \<noteq> []" and all: "list_all2 segment_ok ?segs rss" and so: "sorted_wrt (<) (map wr_lsn (concat rss))"
    and less: "\<forall>r \<in> set (concat rss). wr_lsn r < ?next" and se: "sorted (map segment_end ?segs)"
    and lo: "segment_end (last ?segs) \<le> unat ?next" and hi: "unat ?next \<le> segment_end (last ?segs) + 1"
    using rep by (simp_all add: wal_rep_def)
  have f: "filter (\<lambda>s. unat l < segment_end s) ?segs = drop k ?segs"
    unfolding k_def by (rule sorted_filter_drop [OF se])
  have w': "w' = w\<lparr>wl_segments := if drop k ?segs = [] then [segment_new ?next (wl_cap w)] else drop k ?segs\<rparr>"
    using t f by (auto simp: truncate_before_def Let_def split: if_splits)
  have split: "concat rss = concat (take k rss) @ concat (drop k rss)" by (metis append_take_drop_id concat_append)
  have old: "wr_lsn r \<le> l" if r: "r \<in> set (concat (take k rss))" for r
  proof -
    obtain x where "x \<in> set (take k rss)" and rx: "r \<in> set x" using r by auto
    then obtain i where "i < length (take k rss)" "take k rss ! i = x" by (metis in_set_conv_nth)
    then have i: "i < k" "i < length rss" "r \<in> set (rss ! i)" using rx by simp_all
    have len: "length rss = length ?segs" using all by (simp add: list_all2_lengthD)
    have "segment_ok (?segs ! i) (rss ! i)" using all i(2) by (simp add: list_all2_conv_all_nth)
    then have "unat (wr_lsn r) \<le> segment_end (?segs ! i)" using i(3) by (simp add: segment_ok_def)
    moreover have "segment_end (?segs ! i) \<le> unat l"
      using i(1) takeWhile_nth [of i "\<lambda>s. segment_end s \<le> unat l" ?segs] nth_mem [of i "takeWhile (\<lambda>s. segment_end s \<le> unat l) ?segs"]
      by (auto simp: k_def dest: set_takeWhileD)
    ultimately show ?thesis by (simp add: word_le_nat_alt)
  qed
  define rss' where "rss' = (if drop k ?segs = [] then [[]] else drop k rss)"
  have lenk: "drop k ?segs = [] \<longleftrightarrow> drop k rss = []" using all by (simp add: list_all2_lengthD)
  have c: "concat rss' = concat (drop k rss)" using lenk by (simp add: rss'_def)
  have "wal_rep w' rss'"
  proof (cases "drop k ?segs = []")
    case True
    then show ?thesis by (simp add: wal_rep_def w' rss'_def segment_new_def segment_ok_def segment_end_def)
  next
    case False
    have "list_all2 segment_ok (drop k ?segs) (drop k rss)" using all by (rule list_all2_dropI)
    moreover have "sorted_wrt (<) (map wr_lsn (concat (drop k rss)))" "\<forall>r \<in> set (concat (drop k rss)). wr_lsn r < ?next"
      using so less by (simp_all add: split sorted_wrt_append) 
    moreover have "sorted (map segment_end (drop k ?segs))" using se by (simp add: drop_map [symmetric] sorted_wrt_drop)
    moreover have "last (drop k ?segs) = last ?segs" using False by (simp add: last_drop)
    ultimately show ?thesis using False lo hi by (simp add: wal_rep_def w' rss'_def)
  qed
  then show ?thesis using c old by blast
qed

end
