(* ===== verification/Varints.thy ===== *)
theory Varints
  imports Prelude
begin

text \<open>
  Variable-length integers and bit streams (\<open>src/src/varint.rs\<close>): LEB128, the zig-zag map, and the
  most-significant-bit-first writer and reader, with their round trips.
\<close>

unbundle bit_operations_syntax

datatype varint_error = VTruncated | VOverlong

section \<open>LEB128\<close>

lemma unat_drop7: "unat (drop_bit 7 v) = unat (v :: u64) div 128"
  using unat_drop_bit_eq [of 7 v] drop_bit_eq_div [of 7 "unat v"] by simp

lemma drop7_less: "drop_bit 7 v \<noteq> 0 \<Longrightarrow> unat (drop_bit 7 v) < unat (v :: u64)"
proof -
  assume "drop_bit 7 v \<noteq> 0"
  then have "0 < unat v div 128" by (metis unat_drop7 unat_gt_0 word_neq_0_conv)
  then show ?thesis unfolding unat_drop7 by (metis div_less_dividend div_0 less_numeral_extra(3) numeral_less_iff
      one_less_numeral_iff semiring_norm(76) zero_less_iff_neq_zero)
qed

text \<open>The bytes \<open>write_uvarint\<close> appends.\<close>

function write_uvarint :: "u64 \<Rightarrow> u8 list" where
  "write_uvarint v = (let byte = ucast (v AND 0x7F); v' = drop_bit 7 v in
     if v' \<noteq> 0 then (byte OR 0x80) # write_uvarint v' else [byte])"
  by pat_completeness auto
termination
  by (relation "measure unat") (auto simp: drop7_less)

declare write_uvarint.simps [simp del]

fun read_uvarint_loop :: "nat \<Rightarrow> u64 \<Rightarrow> u8 list \<Rightarrow> (varint_error, u64 \<times> nat) res" where
  "read_uvarint_loop i acc [] = Err VTruncated"
| "read_uvarint_loop i acc (b # bs) =
     (if 10 \<le> i then Err VOverlong
      else let acc = acc OR push_bit (7 * i) (ucast (b AND 0x7F)) in
        if b AND 0x80 = 0 then Ok (acc, i + 1) else read_uvarint_loop (i + 1) acc bs)"

definition read_uvarint :: "u8 list \<Rightarrow> (varint_error, u64 \<times> nat) res" where
  "read_uvarint buf = read_uvarint_loop 0 0 buf"

function uvarint_len :: "u64 \<Rightarrow> nat" where
  "uvarint_len v = (if 0x80 \<le> v then uvarint_len (drop_bit 7 v) + 1 else 1)"
  by pat_completeness auto

lemma drop7_zero: "drop_bit 7 v = 0 \<longleftrightarrow> (v :: u64) < 0x80"
proof -
  have "drop_bit 7 v = 0 \<longleftrightarrow> unat v div 128 = 0"
    using unat_drop7 [of v] by (simp add: word_unat_eq_iff)
  also have "\<dots> \<longleftrightarrow> unat v < 128" by auto
  finally show ?thesis by (simp add: word_less_nat_alt)
qed

termination uvarint_len
proof (relation "measure unat")
  fix v :: u64 assume "0x80 \<le> v"
  then have "drop_bit 7 v \<noteq> 0" using drop7_zero [of v] by auto
  then show "(drop_bit 7 v, v) \<in> measure unat" using drop7_less by simp
qed simp

declare uvarint_len.simps [simp del]

section \<open>Zig-zag\<close>

definition zigzag_encode :: "i64 \<Rightarrow> u64" where
  "zigzag_encode v = push_bit 1 v XOR signed_drop_bit 63 v"

definition zigzag_decode :: "u64 \<Rightarrow> i64" where
  "zigzag_decode u = drop_bit 1 u XOR - (u AND 1)"

definition write_ivarint :: "i64 \<Rightarrow> u8 list" where
  "write_ivarint v = write_uvarint (zigzag_encode v)"

definition read_ivarint :: "u8 list \<Rightarrow> (varint_error, i64 \<times> nat) res" where
  "read_ivarint buf = rbind (read_uvarint buf) (\<lambda>(u, n). Ok (zigzag_decode u, n))"

section \<open>Round trips\<close>

lemma low7: "v AND 0x7F = take_bit 7 (v :: 'a::len word)"
  by (simp add: take_bit_eq_mask mask_eq_exp_minus_1)

lemma bit128: "bit (0x80 :: u8) n \<longleftrightarrow> n = 7" "bit (0x80 :: u64) n \<longleftrightarrow> n = 7"
  using bit_exp_iff [where 'a = u8, of 7 n] bit_exp_iff [where 'a = u64, of 7 n] by (auto simp: numeral_eq_Suc)

lemma byte_low: "ucast ((ucast (v AND 0x7F) OR 0x80 :: u8) AND 0x7F) = (v AND 0x7F :: u64)"
  "ucast ((ucast (v AND 0x7F) :: u8) AND 0x7F) = (v AND 0x7F :: u64)"
proof -
  show "ucast ((ucast (v AND 0x7F) OR 0x80 :: u8) AND 0x7F) = (v AND 0x7F :: u64)"
    by (rule bit_word_eqI, simp add: low7 bit_simps, auto)
  show "ucast ((ucast (v AND 0x7F) :: u8) AND 0x7F) = (v AND 0x7F :: u64)"
    by (rule bit_word_eqI) (auto simp: low7 bit_simps)
qed

lemma byte_high: "(ucast (v AND 0x7F :: u64) OR 0x80 :: u8) AND 0x80 \<noteq> 0"
  "(ucast (v AND 0x7F :: u64) :: u8) AND 0x80 = 0"
proof -
  have "bit ((ucast (v AND 0x7F) OR 0x80 :: u8) AND 0x80) 7" by (simp add: bit_simps bit128)
  then show "(ucast (v AND 0x7F) OR 0x80 :: u8) AND 0x80 \<noteq> 0" by auto
  have "\<not> bit ((ucast (v AND 0x7F) :: u8) AND 0x80) n" for n
    using bit128(1) [of n] by (simp only: bit_and_iff low7 bit_unsigned_iff bit_take_bit_iff) auto
  then show "(ucast (v AND 0x7F) :: u8) AND 0x80 = 0" using bit_word_eqI [of "(ucast (v AND 0x7F) :: u8) AND 0x80" 0] by simp
qed

lemma split7: "push_bit k (v AND 0x7F) OR push_bit (k + 7) (drop_bit 7 v) = push_bit k (v :: u64)"
proof (rule bit_word_eqI)
  fix n assume "n < LENGTH(64)"
  then show "bit (push_bit k (v AND 0x7F) OR push_bit (k + 7) (drop_bit 7 v)) n = bit (push_bit k v) n"
  proof (cases "k + 7 \<le> n")
    case True
    then have "7 + (n - (k + 7)) = n - k" by simp
    then show ?thesis using True \<open>n < LENGTH(64)\<close> by (auto simp: low7 bit_simps)
  qed (auto simp: low7 bit_simps)
qed

lemma read_write_loop:
  assumes "i \<le> 9" and "unat v * 2 ^ (7 * i) < 2 ^ 64"
  shows "read_uvarint_loop i acc (write_uvarint v @ rest) =
    Ok (acc OR push_bit (7 * i) v, i + length (write_uvarint v))"
  using assms
proof (induction v arbitrary: i acc rule: write_uvarint.induct)
  case (1 v)
  show ?case
  proof (cases "drop_bit 7 v = 0")
    case True
    have w: "write_uvarint v = [ucast (v AND 0x7F)]" using True by (subst write_uvarint.simps) (simp add: Let_def)
    have "v AND 0x7F = v" using split7 [of 0 v] True by simp
    then show ?thesis using 1(2) byte_low(2) [of v] byte_high(2) [of v] by (simp add: w Let_def)
  next
    case False
    have w: "write_uvarint v = (ucast (v AND 0x7F) OR 0x80) # write_uvarint (drop_bit 7 v)"
      using False by (subst write_uvarint.simps) (simp add: Let_def)
    have ge: "128 \<le> unat v" using False drop7_zero [of v] by (simp add: word_less_nat_alt)
    have "i \<le> 8"
    proof (rule ccontr)
      assume "\<not> i \<le> 8"
      then have "i = 9" using 1(2) by simp
      then show False using ge 1(3) by simp
    qed
    moreover have "unat (drop_bit 7 v) * 2 ^ (7 * (i + 1)) < 2 ^ 64"
    proof -
      have "unat (drop_bit 7 v) * 2 ^ (7 * (i + 1)) = (unat v div 128) * 128 * 2 ^ (7 * i)"
        by (simp add: unat_drop7 power_add)
      also have "\<dots> \<le> unat v * 2 ^ (7 * i)" by (intro mult_right_mono) auto
      finally show ?thesis using 1(3) by simp
    qed
    ultimately have IH: "read_uvarint_loop (i + 1) acc' (write_uvarint (drop_bit 7 v) @ rest) =
        Ok (acc' OR push_bit (7 * (i + 1)) (drop_bit 7 v), i + 1 + length (write_uvarint (drop_bit 7 v)))" for acc'
      using 1(1) [OF refl refl False, of "i + 1"] by simp
    have "(acc OR push_bit (7 * i) (v AND 0x7F)) OR push_bit (7 * (i + 1)) (drop_bit 7 v) = acc OR push_bit (7 * i) v"
    proof -
      have e: "7 * (i + 1) = 7 * i + 7" by simp
      show ?thesis unfolding e or.assoc split7 ..
    qed
    then show ?thesis using 1(2) IH by (simp add: w byte_low byte_high Let_def)
  qed
qed

lemma uvarint_roundtrip: "read_uvarint (write_uvarint v @ rest) = Ok (v, length (write_uvarint v))"
  using read_write_loop [of 0 v 0 rest] unat_bounds(3) [of v] by (simp add: read_uvarint_def)

lemma uvarint_len_length: "uvarint_len v = length (write_uvarint v)"
proof (induction v rule: write_uvarint.induct)
  case (1 v)
  show ?case using 1 drop7_zero [of v] by (subst uvarint_len.simps, subst write_uvarint.simps) (auto simp: Let_def not_le)
qed

lemma uvarint_len_bound: "unat v < 2 ^ (7 * n) \<Longrightarrow> 0 < n \<Longrightarrow> uvarint_len v \<le> n"
proof (induction n arbitrary: v)
  case (Suc n)
  show ?case
  proof (cases "0x80 \<le> v")
    case True
    then have ge: "128 \<le> unat v" by (simp add: word_le_nat_alt)
    then have "n \<noteq> 0" using Suc.prems by (cases n) auto
    moreover have "unat (drop_bit 7 v) < 2 ^ (7 * n)"
      using Suc.prems(1) by (simp add: unat_drop7 power_add less_mult_imp_div_less mult.commute)
    ultimately show ?thesis using Suc.IH [of "drop_bit 7 v"] True by (subst uvarint_len.simps) simp
  qed (subst uvarint_len.simps, simp)
qed simp

lemma write_uvarint_length: "length (write_uvarint v) \<le> 10" "write_uvarint v \<noteq> []"
proof -
  have "unat v < 2 ^ (7 * 10)" using unat_bounds(3) [of v] by simp
  then show "length (write_uvarint v) \<le> 10" using uvarint_len_bound [of v 10] by (simp add: uvarint_len_length)
  show "write_uvarint v \<noteq> []" by (subst write_uvarint.simps) (simp add: Let_def)
qed

lemma sign_fill: "signed_drop_bit 63 (v :: i64) = (if sint v < 0 then - 1 else 0)"
proof (rule bit_word_eqI)
  fix n assume n: "n < LENGTH(64)"
  have "(63 :: nat) + n = 63 \<or> 64 \<le> 63 + n" by auto
  then show "bit (signed_drop_bit 63 v) n = bit (if sint v < 0 then - 1 else 0 :: u64) n"
    using bit_last_iff [of v] n by (cases n) (auto simp: bit_simps bit_minus_1_iff)
qed

lemma zigzag_value:
  "int (unat (zigzag_encode v)) = (if sint v < 0 then - 2 * sint v - 1 else 2 * sint v)"
proof -
  have r: "- (2 ^ 63) \<le> sint v" "sint v < 2 ^ 63" using sint_range_size [of v] by (simp_all add: word_size)
  have u: "uint v = sint v mod 2 ^ 64" by (simp add: uint_sint take_bit_eq_mod)
  have w: "int (unat (word_of_int k :: u64)) = k mod 2 ^ 64" for k by (simp add: uint_word_of_int)
  show ?thesis
  proof (cases "sint v < 0")
    case True
    have "zigzag_encode v = NOT (push_bit 1 v)" by (simp add: zigzag_encode_def sign_fill True)
    also have "\<dots> = word_of_int (- 2 * sint v - 1)" by (simp add: push_bit_eq_mult not_eq_complement)
    finally have "int (unat (zigzag_encode v)) = (- 2 * sint v - 1) mod 2 ^ 64" by (simp only: w)
    also have "\<dots> = - 2 * sint v - 1" using True r by (intro mod_pos_pos_trivial) simp_all
    finally show ?thesis using True by simp
  next
    case False
    have "zigzag_encode v = word_of_int (2 * sint v)" by (simp add: zigzag_encode_def sign_fill False push_bit_eq_mult)
    then have "int (unat (zigzag_encode v)) = (2 * sint v) mod 2 ^ 64" by (simp only: w)
    also have "\<dots> = 2 * sint v" using False r by (intro mod_pos_pos_trivial) simp_all
    finally show ?thesis using False by simp
  qed
qed

lemma zigzag_roundtrip: "zigzag_decode (zigzag_encode v) = v"
proof -
  let ?u = "zigzag_encode v"
  have r: "- (2 ^ 63) \<le> sint v" "sint v < 2 ^ 63" using sint_range_size [of v] by (simp_all add: word_size)
  have h: "int (unat (drop_bit 1 ?u)) = int (unat ?u) div 2"
    using unat_drop_bit_eq [of 1 ?u] drop_bit_eq_div [of 1 "unat ?u"] by (simp add: zdiv_int)
  have o: "- (?u AND 1) = (if odd (int (unat ?u)) then - 1 else 0)"
  proof -
    have "odd ?u \<longleftrightarrow> odd (unat ?u)" by (simp add: even_iff_mod_2_eq_zero unat_eq_zero [symmetric] unat_mod)
    moreover have "odd (int (unat ?u)) \<longleftrightarrow> odd (unat ?u)" by (simp only: even_of_nat)
    ultimately show ?thesis by (simp only: and_one_eq mod_2_eq_odd) simp
  qed
  have b: "drop_bit 1 ?u = word_of_int (int (unat (drop_bit 1 ?u)))" by simp
  show ?thesis
  proof (cases "sint v < 0")
    case True
    then have z: "int (unat ?u) = 2 * (- sint v - 1) + 1" using zigzag_value [of v] by simp
    then have "odd (int (unat ?u))" "int (unat (drop_bit 1 ?u)) = - sint v - 1" unfolding h by simp_all
    then have "zigzag_decode ?u = NOT (word_of_int (- sint v - 1))" using o b by (simp add: zigzag_decode_def)
    also have "\<dots> = v" by (simp add: not_eq_complement)
    finally show ?thesis .
  next
    case False
    then have z: "int (unat ?u) = 2 * sint v" using zigzag_value [of v] by simp
    then have "even (int (unat ?u))" "int (unat (drop_bit 1 ?u)) = sint v" unfolding h by simp_all
    then show ?thesis using o b by (simp add: zigzag_decode_def)
  qed
qed

lemma ivarint_roundtrip: "read_ivarint (write_ivarint v @ rest) = Ok (v, length (write_ivarint v))"
  by (simp add: read_ivarint_def write_ivarint_def uvarint_roundtrip zigzag_roundtrip)

section \<open>Bit streams\<close>

record bit_writer =
  bw_bytes :: "u8 list"
  bw_cur :: u8
  bw_nbits :: nat

definition bit_writer_new :: bit_writer where
  "bit_writer_new = \<lparr>bw_bytes = [], bw_cur = 0, bw_nbits = 0\<rparr>"

definition write_one :: "bit_writer \<Rightarrow> bool \<Rightarrow> bit_writer" where
  "write_one w b = (let cur = push_bit 1 (bw_cur w) OR of_bool b; n = bw_nbits w + 1 in
     if n = 8 then \<lparr>bw_bytes = bw_bytes w @ [cur], bw_cur = 0, bw_nbits = 0\<rparr>
     else w\<lparr>bw_cur := cur, bw_nbits := n\<rparr>)"

text \<open>A shift by 32 or more panics.\<close>

definition write_bits :: "u32 \<Rightarrow> nat \<Rightarrow> bit_writer \<Rightarrow> (varint_error, bit_writer) res" where
  "write_bits v count w = (if 32 < count then Panic
     else Ok (foldl write_one w (map (bit v) (rev [0..<count]))))"

definition bit_length :: "bit_writer \<Rightarrow> nat" where
  "bit_length w = length (bw_bytes w) * 8 + bw_nbits w"

definition finish :: "bit_writer \<Rightarrow> u8 list" where
  "finish w = (if 0 < bw_nbits w then bw_bytes w @ [push_bit (8 - bw_nbits w) (bw_cur w)] else bw_bytes w)"

record bit_reader =
  br_bytes :: "u8 list"
  br_byte :: nat
  br_bit :: nat

definition bit_reader_new :: "u8 list \<Rightarrow> bit_reader" where
  "bit_reader_new bytes = \<lparr>br_bytes = bytes, br_byte = 0, br_bit = 0\<rparr>"

fun read_bits_loop :: "nat \<Rightarrow> u32 \<Rightarrow> (bit_reader, varint_error, u32) op" where
  "read_bits_loop 0 acc r = (Ok acc, r)"
| "read_bits_loop (Suc n) acc r =
     (if length (br_bytes r) \<le> br_byte r then (Err VTruncated, r)
      else let b = bit (br_bytes r ! br_byte r) (7 - br_bit r);
               r = (if br_bit r + 1 = 8 then r\<lparr>br_bit := 0, br_byte := br_byte r + 1\<rparr>
                    else r\<lparr>br_bit := br_bit r + 1\<rparr>) in
        read_bits_loop n (push_bit 1 acc OR of_bool b) r)"

definition read_bits :: "nat \<Rightarrow> (bit_reader, varint_error, u32) op" where
  "read_bits count = read_bits_loop count 0"

definition remaining_bits :: "bit_reader \<Rightarrow> nat" where
  "remaining_bits r = (length (br_bytes r) - br_byte r) * 8 - br_bit r"

text \<open>The streams as lists of bits, the most significant first.\<close>

definition byte_bits :: "u8 \<Rightarrow> bool list" where
  "byte_bits b = map (bit b) (rev [0..<8])"

definition stream :: "u8 list \<Rightarrow> bool list" where
  "stream bytes = concat (map byte_bits bytes)"

definition writer_bits :: "bit_writer \<Rightarrow> bool list" where
  "writer_bits w = stream (bw_bytes w) @ map (bit (bw_cur w)) (rev [0..<bw_nbits w])"

lemma byte_bits_length [simp]: "length (byte_bits b) = 8"
  by (simp add: byte_bits_def)

lemma stream_length [simp]: "length (stream bytes) = 8 * length bytes"
  by (induction bytes) (simp_all add: stream_def)

lemma stream_snoc [simp]: "stream (bytes @ [b]) = stream bytes @ byte_bits b"
  by (simp add: stream_def)

lemma rev_upt_shift: "rev [0..<Suc n] = map Suc (rev [0..<n]) @ [0]"
  by (simp add: rev_map [symmetric] map_Suc_upt upt_conv_Cons del: upt_Suc)

lemma shifted_bits:
  assumes "n < 8"
  shows "map (bit (push_bit 1 c OR of_bool b :: u8)) (rev [0..<Suc n]) = map (bit c) (rev [0..<n]) @ [b]"
proof -
  have "bit (push_bit 1 c OR of_bool b :: u8) (Suc i) = bit c i" if "i < n" for i
    using that assms by (simp only: bit_or_iff bit_push_bit_iff bit_of_bool_iff) (auto simp: bit_simps)
  moreover have "bit (push_bit 1 c OR of_bool b :: u8) 0 = b"
    by (simp only: bit_or_iff bit_push_bit_iff bit_of_bool_iff) auto
  ultimately show ?thesis by (simp add: rev_upt_shift del: upt_Suc)
qed

lemma write_one_bits:
  assumes "bw_nbits w < 8"
  shows "writer_bits (write_one w b) = writer_bits w @ [b] \<and> bw_nbits (write_one w b) < 8"
proof (cases "bw_nbits w = 7")
  case True
  then have "byte_bits (push_bit 1 (bw_cur w) OR of_bool b) = map (bit (bw_cur w)) (rev [0..<7]) @ [b]"
    using shifted_bits [of 7 "bw_cur w" b] by (simp only: byte_bits_def) (simp add: eval_nat_numeral)
  then show ?thesis using True by (simp add: write_one_def writer_bits_def)
next
  case False
  then show ?thesis using assms shifted_bits [OF assms, of "bw_cur w" b]
    by (simp add: write_one_def writer_bits_def del: upt_Suc)
qed

lemma write_list_bits:
  "bw_nbits w < 8 \<Longrightarrow> writer_bits (foldl write_one w bs) = writer_bits w @ bs \<and> bw_nbits (foldl write_one w bs) < 8"
  by (induction bs arbitrary: w) (simp_all add: write_one_bits)

lemma finish_bits:
  assumes "bw_nbits w < 8"
  shows "\<exists>pad. stream (finish w) = writer_bits w @ pad"
proof (cases "bw_nbits w = 0")
  case True
  then show ?thesis by (simp add: finish_def writer_bits_def)
next
  case False
  let ?n = "bw_nbits w" and ?c = "bw_cur w"
  have u: "[0..<8] = [0..<8 - ?n] @ [8 - ?n..<8]" using assms upt_add_eq_append [of 0 "8 - ?n" ?n] by simp
  have "[8 - ?n..<8] = map (\<lambda>i. i + (8 - ?n)) [0..<?n]" using assms map_add_upt [of "8 - ?n" ?n] by simp
  then have "map (bit (push_bit (8 - ?n) ?c)) (rev [8 - ?n..<8]) = map (bit ?c) (rev [0..<?n])"
    using assms by (simp add: rev_map [symmetric] bit_simps) (auto simp: bit_simps)
  then have "byte_bits (push_bit (8 - ?n) ?c) = map (bit ?c) (rev [0..<?n]) @ map (bit (push_bit (8 - ?n) ?c)) (rev [0..<8 - ?n])"
    by (simp add: byte_bits_def u)
  then show ?thesis using False by (auto simp: finish_def writer_bits_def)
qed

definition reader_rest :: "bit_reader \<Rightarrow> bool list" where
  "reader_rest r = drop (8 * br_byte r + br_bit r) (stream (br_bytes r))"

lemma stream_nth: "p < length bytes \<Longrightarrow> q < 8 \<Longrightarrow> stream bytes ! (8 * p + q) = bit (bytes ! p) (7 - q)"
proof (induction bytes arbitrary: p)
  case (Cons b bytes)
  have b: "byte_bits b ! q = bit b (7 - q)" using Cons.prems(2) by (simp add: byte_bits_def rev_nth)
  show ?case
  proof (cases p)
    case 0
    then show ?thesis using Cons.prems b by (simp add: stream_def nth_append)
  next
    case (Suc p')
    then show ?thesis using Cons.IH [of p'] Cons.prems by (simp add: stream_def nth_append)
  qed
qed simp

definition of_bits :: "u32 \<Rightarrow> bool list \<Rightarrow> u32" where
  "of_bits acc bs = foldl (\<lambda>acc b. push_bit 1 acc OR of_bool b) acc bs"

lemma read_bits_stream:
  assumes "br_bit r < 8" and "n \<le> length (reader_rest r)"
  shows "\<exists>r'. read_bits_loop n acc r = (Ok (of_bits acc (take n (reader_rest r))), r') \<and>
    reader_rest r' = drop n (reader_rest r) \<and> br_bit r' < 8"
  using assms
proof (induction n arbitrary: r acc)
  case (Suc n)
  let ?k = "8 * br_byte r + br_bit r" and ?b = "bit (br_bytes r ! br_byte r) (7 - br_bit r)"
  let ?r = "if br_bit r + 1 = 8 then r\<lparr>br_bit := 0, br_byte := br_byte r + 1\<rparr> else r\<lparr>br_bit := br_bit r + 1\<rparr>"
  have k: "?k < 8 * length (br_bytes r)" using Suc.prems(2) by (simp add: reader_rest_def)
  then have p: "br_byte r < length (br_bytes r)" by simp
  have rest: "reader_rest r = ?b # reader_rest ?r"
  proof -
    have "reader_rest r = stream (br_bytes r) ! ?k # drop (Suc ?k) (stream (br_bytes r))"
      using k by (simp add: reader_rest_def Cons_nth_drop_Suc)
    moreover have "8 * br_byte ?r + br_bit ?r = Suc ?k" "br_bytes ?r = br_bytes r" by auto
    ultimately show ?thesis using stream_nth [OF p Suc.prems(1)] by (simp add: reader_rest_def)
  qed
  have "br_bit ?r < 8" using Suc.prems(1) by simp
  moreover have "n \<le> length (reader_rest ?r)" using Suc.prems(2) rest by simp
  ultimately obtain r' where r': "read_bits_loop n (push_bit 1 acc OR of_bool ?b) ?r =
      (Ok (of_bits (push_bit 1 acc OR of_bool ?b) (take n (reader_rest ?r))), r')"
    "reader_rest r' = drop n (reader_rest ?r)" "br_bit r' < 8"
    using Suc.IH [of ?r "push_bit 1 acc OR of_bool ?b"] by blast
  have "read_bits_loop (Suc n) acc r = read_bits_loop n (push_bit 1 acc OR of_bool ?b) ?r"
    using p by (simp only: read_bits_loop.simps Let_def) simp
  then show ?case using r' rest by (simp add: of_bits_def)
qed (simp add: of_bits_def)

lemma of_bits_value: "n \<le> 32 \<Longrightarrow> of_bits acc (map (bit v) (rev [0..<n])) = push_bit n acc OR take_bit n v"
proof (induction n arbitrary: acc)
  case 0
  then show ?case by (simp add: of_bits_def)
next
  case (Suc n)
  have "of_bits acc (map (bit v) (rev [0..<Suc n])) = of_bits (push_bit 1 acc OR of_bool (bit v n)) (map (bit v) (rev [0..<n]))"
    by (simp add: of_bits_def)
  also have "\<dots> = push_bit n (push_bit 1 acc OR of_bool (bit v n)) OR take_bit n v"
    by (rule Suc.IH) (use Suc.prems in simp)
  also have "\<dots> = push_bit (Suc n) acc OR take_bit (Suc n) v"
  proof (rule bit_word_eqI)
    fix i assume "i < LENGTH(32)"
    then show "bit (push_bit n (push_bit 1 acc OR of_bool (bit v n)) OR take_bit n v) i = bit (push_bit (Suc n) acc OR take_bit (Suc n) v) i"
      by (cases "i < n"; cases "i = n") (auto simp: bit_simps)
  qed
  finally show ?case .
qed

text \<open>Fields written one after the other are read back, each cut to its width.\<close>

fun write_fields :: "(u32 \<times> nat) list \<Rightarrow> bit_writer \<Rightarrow> (varint_error, bit_writer) res" where
  "write_fields [] w = Ok w"
| "write_fields ((v, n) # fs) w = rbind (write_bits v n w) (write_fields fs)"

fun read_fields :: "nat list \<Rightarrow> bit_reader \<Rightarrow> (varint_error, u32 list) res" where
  "read_fields [] r = Ok []"
| "read_fields (n # ns) r = (case read_bits n r of (res, r) \<Rightarrow>
     rbind res (\<lambda>v. rbind (read_fields ns r) (\<lambda>vs. Ok (v # vs))))"

definition field_bits :: "(u32 \<times> nat) list \<Rightarrow> bool list" where
  "field_bits fs = concat (map (\<lambda>(v, n). map (bit v) (rev [0..<n])) fs)"

lemma write_fields_bits:
  assumes "\<forall>(v, n) \<in> set fs. n \<le> 32" and "bw_nbits w < 8"
  shows "\<exists>w'. write_fields fs w = Ok w' \<and> writer_bits w' = writer_bits w @ field_bits fs \<and> bw_nbits w' < 8"
  using assms
proof (induction fs arbitrary: w)
  case (Cons f fs)
  obtain v n where f: "f = (v, n)" by (cases f)
  let ?w = "foldl write_one w (map (bit v) (rev [0..<n]))"
  have "write_bits v n w = Ok ?w" using Cons.prems(1) f by (simp add: write_bits_def)
  moreover have "writer_bits ?w = writer_bits w @ map (bit v) (rev [0..<n])" "bw_nbits ?w < 8"
    using write_list_bits [OF Cons.prems(2)] by auto
  ultimately show ?case using Cons.IH [of ?w] Cons.prems(1) f by (auto simp: field_bits_def)
qed (simp add: field_bits_def)

lemma read_fields_bits:
  assumes "\<forall>(v, n) \<in> set fs. n \<le> 32" and "br_bit r < 8" and "reader_rest r = field_bits fs @ pad"
  shows "read_fields (map snd fs) r = Ok (map (\<lambda>(v, n). take_bit n v) fs)"
  using assms
proof (induction fs arbitrary: r)
  case (Cons f fs)
  obtain v n where f: "f = (v, n)" by (cases f)
  have rest: "reader_rest r = map (bit v) (rev [0..<n]) @ field_bits fs @ pad"
    using Cons.prems(3) f by (simp add: field_bits_def)
  have "n \<le> length (reader_rest r)" using rest by simp
  then obtain r' where r': "read_bits_loop n 0 r = (Ok (of_bits 0 (take n (reader_rest r))), r')"
    "reader_rest r' = drop n (reader_rest r)" "br_bit r' < 8"
    using read_bits_stream [OF Cons.prems(2), of n 0] by blast
  have "of_bits 0 (take n (reader_rest r)) = take_bit n v"
    using Cons.prems(1) f of_bits_value [of n 0 v] rest by simp
  moreover have "read_fields (map snd fs) r' = Ok (map (\<lambda>(v, n). take_bit n v) fs)"
    using Cons.IH [of r'] Cons.prems(1) r' rest by simp
  ultimately show ?case using r'(1) f by (simp add: read_bits_def)
qed simp

lemma bit_stream_roundtrip:
  assumes "\<forall>(v, n) \<in> set fs. n \<le> 32"
  shows "\<exists>w. write_fields fs bit_writer_new = Ok w \<and> bit_length w = sum_list (map snd fs) \<and>
    read_fields (map snd fs) (bit_reader_new (finish w)) = Ok (map (\<lambda>(v, n). take_bit n v) fs)"
proof -
  obtain w where w: "write_fields fs bit_writer_new = Ok w" "writer_bits w = field_bits fs" "bw_nbits w < 8"
    using write_fields_bits [OF assms, of bit_writer_new] by (auto simp: bit_writer_new_def writer_bits_def stream_def)
  obtain pad where "stream (finish w) = field_bits fs @ pad" using finish_bits [OF w(3)] w(2) by auto
  then have "reader_rest (bit_reader_new (finish w)) = field_bits fs @ pad"
    by (simp add: reader_rest_def bit_reader_new_def)
  moreover have "br_bit (bit_reader_new (finish w)) < 8" by (simp add: bit_reader_new_def)
  moreover have "length (writer_bits w) = bit_length w" by (simp add: writer_bits_def bit_length_def)
  moreover have "length (field_bits fs) = sum_list (map snd fs)" by (induction fs) (auto simp: field_bits_def)
  ultimately show ?thesis using w read_fields_bits [OF assms] by auto
qed

end
