(* ===== verification/Samples.thy ===== *)
theory Samples
  imports ScriptRuns ScriptText Checkpoints Wals Varints
begin

text \<open>
  Concrete databases, dictionaries and indexes for the instances of the properties, with the facts
  that make the properties' hypotheses hold there.
\<close>

section \<open>Samples\<close>

text \<open>A small schema and databases over it, for the concrete instances below.\<close>

definition sample_schema :: schema where
  "sample_schema = [column_row_id, column_new (str ''name'') KText Dictionary, column_new (str ''qty'') KInt Rle]"

definition sample_db :: db where
  "sample_db = database_new sample_schema"

definition sample_row :: "val list" where
  "sample_row = [VInt 7, VText 3, VInt 5]"

lemma sample_fields [simp]:
  "schema sample_db = sample_schema" "rowids sample_db = []" "zone_maps sample_db = map (\<lambda>_. []) sample_schema"
  "pager sample_db = pager_new" "next_row_id sample_db = 1"
  by (simp_all add: sample_db_def database_new_def)

lemma sample_ok [simp]: "db_ok sample_db" "db_room sample_db"
proof -
  show "db_ok sample_db" unfolding sample_db_def
    by (rule db_ok_new) (simp_all add: sample_schema_def column_row_id_def column_new_def)
  show "db_room sample_db"
    by (simp add: db_room_def zones_room_def pager_new_def pager_get_def zm_get_def sample_schema_def)
qed

lemma sample_insert_facts:
  "length sample_row = length sample_schema" "choose_row_id sample_row sample_db = 7"
  "row_storable sample_schema (sample_row[0 := VInt 7])" "stored_row sample_schema (sample_row[0 := VInt 7]) = sample_row"
proof -
  show "length sample_row = length sample_schema" by (simp add: sample_row_def sample_schema_def)
  have "0 < sint (7 :: i64)" by simp
  then show "choose_row_id sample_row sample_db = 7" by (simp add: choose_row_id_def sample_row_def)
  show "row_storable sample_schema (sample_row[0 := VInt 7])"
    by (simp add: row_storable_def sample_schema_def sample_row_def storable_in_def column_row_id_def column_new_def)
  show "stored_row sample_schema (sample_row[0 := VInt 7]) = sample_row"
    by (simp add: stored_row_def sample_schema_def sample_row_def stored_in_def column_row_id_def column_new_def)
qed

text \<open>A computable sufficient condition for the room hypothesis.\<close>

definition room_check :: "db \<Rightarrow> bool" where
  "room_check db \<longleftrightarrow> length (schema db) < 2 ^ 32 \<and> length (pages (pager db)) < 4294967295 \<and>
     (\<forall>pg \<in> set (pager_iter (pager db)). pg_kind pg = PkData \<longrightarrow> page_room pg) \<and>
     (\<forall>zm \<in> set (zone_maps db). \<forall>(p, z) \<in> set zm. z_live z \<noteq> u32_max)"

lemma room_check_sound:
  assumes "db_ok db" and "room_check db"
  shows "db_room db"
proof -
  have "pager_ok (pager db)" using assms(1) by (simp add: db_ok_def pages_ok_def)
  then have "page_room pg" if "pager_get (pager db) p = Some pg" "pg_kind pg = PkData" for p pg
    using assms(2) that pager_iter_mem unfolding room_check_def by blast
  moreover have "z_live z \<noteq> u32_max" if "zm \<in> set (zone_maps db)" "zm_get zm p = Some z" for zm p z
    using assms(2) that map_of_SomeD [of zm p z] by (auto simp: room_check_def zm_get_def bm_get_def)
  ultimately show ?thesis using assms(2) by (simp add: db_room_def zones_room_def room_check_def)
qed

definition sample_db7 :: db where
  "sample_db7 = snd (insert sample_row sample_db)"

lemma sample_insert7: "insert sample_row sample_db = (Ok 7, sample_db7)" "db_ok sample_db7" "schema sample_db7 = sample_schema"
  "table sample_db7 = [7 \<mapsto> sample_row]"
proof -
  obtain db' where i: "insert sample_row sample_db = (Ok 7, db')" "db_ok db'" "schema db' = schema sample_db"
    "table db' = (table sample_db)(7 \<mapsto> stored_row (schema sample_db) (sample_row[0 := VInt 7]))"
    by (rule insert_ok [of sample_db sample_row 7]) (simp_all add: sample_insert_facts rid_get_def)
  then have d: "sample_db7 = db'" by (simp add: sample_db7_def)
  then show "insert sample_row sample_db = (Ok 7, sample_db7)" using i(1) by simp
  have "table sample_db = Map.empty" by (simp add: sample_db_def table_new)
  then show "db_ok sample_db7" "schema sample_db7 = sample_schema" "table sample_db7 = [7 \<mapsto> sample_row]"
    using i d by (simp_all add: sample_insert_facts)
qed

lemmas sample_db7_ok [simp] = sample_insert7(2-4)

lemma sample_db7_room [simp]: "db_room sample_db7"
  by (rule room_check_sound) (simp, code_simp)

lemma sample_matching: "matching sample_db7 2 OpEq (VInt 5) = {7}"
  by (auto simp: matching_def sample_row_def cmp_apply_def split: if_splits)

lemma sample_path: "index_path sample_db7 2 OpEq (VInt 5) = None"
  by (simp add: index_path_def sample_schema_def nth_opt_def column_new_def)

text \<open>A dictionary with its freshly allocated page.\<close>

definition sample_pager :: pager where
  "sample_pager = snd (dict_allocate pager_new)"

lemma sample_dict: "dict_rep (dict_new 0) sample_pager []" "pager_ok sample_pager"
proof -
  have a: "dict_allocate pager_new = (Ok 0, sample_pager)"
    by (simp add: sample_pager_def dict_allocate_def pager_alloc_def pager_new_def u32_max_def)
  show "dict_rep (dict_new 0) sample_pager []" by (rule dict_allocate_rep [OF pager_ok_new a])
  show "pager_ok sample_pager" using pager_ok_alloc [OF pager_ok_new, of PkDict _ 0 sample_pager] a
    by (simp add: dict_allocate_def)
qed

definition sample_dict1 :: "dict \<times> pager" where
  "sample_dict1 = snd (dict_intern [65, 66] (dict_new 0, sample_pager))"

lemma sample_dict1_rep: "dict_rep (fst sample_dict1) (snd sample_dict1) [[65, 66]]"
proof -
  have f: "dict_fits (dict_new 0, sample_pager) [65, 66]" by code_simp
  show ?thesis using dict_intern_new [OF sample_dict(1) _ f] by (auto simp: sample_dict1_def)
qed

definition sample_index :: index_cache where
  "sample_index = add_or_append 0 (Ptr 0 12) 0 42 (index_with_dict (str ''name'') 0)"

lemma sample_index_bound: "index_bound (fst sample_dict1) (snd sample_dict1) sample_index"
proof -
  have "(case pager_get (snd sample_dict1) (dct_page (fst sample_dict1)) of None \<Rightarrow> False | Some pg \<Rightarrow>
      location_of (fst sample_dict1) 0 = Some (12, 2) \<and> pg_alloc pg = 0)" by code_simp
  then show ?thesis
    by (auto simp: index_bound_def sample_index_def add_or_append_def index_with_dict_def entry_bound_def
        split: option.splits)
qed

lemma sample_dict1_ok: "pager_ok (snd sample_dict1)"
proof -
  have c: "dict_size ([] @ [[65, 66]]) \<le> capacity (dict_new 0)" "dict_size ([] @ [[65 :: u8, 66]]) < 2 ^ 32"
    by (simp_all add: dict_new_def dict_page_capacity_def dict_size_def)
  obtain i d' p' where i: "intern_append [65, 66] (dict_size []) (dict_new 0, sample_pager) = (Ok i, (d', p'))"
    using intern_append_rep [OF sample_dict(1) _ c] by (metis empty_iff empty_set)
  have "dict_intern [65, 66] (dict_new 0, sample_pager) = (Ok i, (d', p'))"
    using dict_intern_in_place [OF sample_dict(1) _ c] i by simp
  then show ?thesis using intern_append_pager(1) [OF sample_dict _ c i] by (simp add: sample_dict1_def)
qed

section \<open>A page of five rows\<close>

text \<open>A region filled with values of its kind holds them.\<close>

definition col_region :: "column \<Rightarrow> val list \<Rightarrow> region" where
  "col_region c vs = foldl append_cell (region_new (ckind c) (cencoding c)) vs"

lemma col_region_holds:
  assumes "\<forall>v \<in> set vs. storable_in c v \<and> kind v = col_kind_name (ckind c)" and "length vs < 2 ^ 32"
  shows "region_for (length vs) c (col_region c vs) \<and> cells (col_region c vs) = vs \<and>
    length (rg_data (col_region c vs)) \<le> 12 * length vs"
  using assms
proof (induction vs rule: rev_induct)
  case Nil
  then show ?case
    by (cases "cencoding c") (auto simp: col_region_def region_for_def region_new_def region_ok_def cells_def
        region_runs_def runs_or_default_def decode_runs_def materialize_def run_total_def plain_cells_def)
next
  case (snoc v vs)
  let ?r = "col_region c vs"
  have IH: "region_for (length vs) c ?r" "cells ?r = vs" "length (rg_data ?r) \<le> 12 * length vs"
    using snoc by auto
  have v: "storable_in c v" "kind v = col_kind_name (ckind c)" using snoc.prems(1) by auto
  have sh: "rg_kind ?r = ckind c" "rg_encoding ?r = cencoding c" "region_ok ?r" using IH(1) by (simp_all add: region_for_def)
  have st: "storable ?r v" using v(1) sh by (simp add: storable_def storable_in_def)
  have hold: "stored ?r v = v"
    using stored_in_same_kind [OF v(2)] sh by (cases "cencoding c = Rle") (simp_all add: stored_def stored_in_def)
  have "col_region c (vs @ [v]) = append_cell ?r v" by (simp add: col_region_def)
  moreover have "region_ok (append_cell ?r v) \<and> cells (append_cell ?r v) = vs @ [v]"
    using append_cell_cells [OF sh(3) st] IH(2) snoc.prems(2) hold by simp
  ultimately show ?case using sh append_cell_length [OF st] IH(3) by (simp add: region_for_def)
qed

definition sample_cols :: "val list list" where
  "sample_cols = [map VInt [1, 2, 3, 4, 5], map VText [3, 1, 2, 1, 0], map VInt [5, 5, 6, 7, 7]]"

definition sample_body :: body where
  "sample_body = \<lparr>num_rows = 5, regions = map2 col_region sample_schema sample_cols\<rparr>"

definition sample_slots :: "slot_entry list" where
  "sample_slots = map (\<lambda>i. slot_new (of_nat i + 1) (as_u32 i) 20) [0..<5]"

definition sample_page :: page where
  "sample_page = filled_page sample_body sample_slots 0 (page_new 0 PkData [] 0)"

definition sample_db5 :: db where
  "sample_db5 = sample_db\<lparr>pager := \<lparr>pages = [Some sample_page], free_ids = [], high_water = 1, next_alloc = 1\<rparr>,
     fsm := set_space 0 156 fsm_new, rowids := map (\<lambda>i. (of_nat i + 1, 0, i)) [0..<5], next_row_id := 6\<rparr>"

lemma sample_region:
  assumes "i < 3"
  shows "region_for 5 (sample_schema ! i) (regions sample_body ! i) \<and> cells (regions sample_body ! i) = sample_cols ! i \<and>
    length (rg_data (regions sample_body ! i)) \<le> 60"
proof -
  have l: "length sample_schema = 3" "length sample_cols = 3" by (simp_all add: sample_schema_def sample_cols_def)
  have "\<forall>j < 3. length (sample_cols ! j) = 5 \<and> (\<forall>v \<in> set (sample_cols ! j).
      storable_in (sample_schema ! j) v \<and> kind v = col_kind_name (ckind (sample_schema ! j)))"
    by (auto simp: sample_cols_def sample_schema_def storable_in_def column_row_id_def column_new_def less_Suc_eq numeral_eq_Suc)
  then have "length (sample_cols ! i) = 5" "\<forall>v \<in> set (sample_cols ! i).
      storable_in (sample_schema ! i) v \<and> kind v = col_kind_name (ckind (sample_schema ! i))" using assms by blast+
  then show ?thesis using col_region_holds [of "sample_cols ! i" "sample_schema ! i"] assms l
    by (simp add: sample_body_def)
qed

lemma sample_body_facts:
  "body_for sample_schema 5 sample_body" "body_fits sample_body" "length (regions sample_body) = 3"
  "\<forall>r \<in> set (regions sample_body). length (rg_data r) \<le> 60"
proof -
  have l: "length sample_schema = 3" by (simp add: sample_schema_def)
  show n: "length (regions sample_body) = 3" by (simp add: sample_body_def sample_schema_def sample_cols_def)
  show "body_for sample_schema 5 sample_body"
    using sample_region n l by (simp add: body_for_def list_all2_conv_all_nth)
  show d: "\<forall>r \<in> set (regions sample_body). length (rg_data r) \<le> 60"
    using sample_region n by (metis in_set_conv_nth)
  then show "body_fits sample_body" using n by (auto simp: body_fits_def region_fits_def)
qed

lemma sample_slots_facts:
  "length sample_slots = 5" "slots_ok sample_slots"
  "\<forall>i < 5. slot_row (sample_slots ! i) = of_nat i + 1 \<and> slot_live (sample_slots ! i)"
  by (simp_all add: sample_slots_def slots_ok_def slot_new_def)

lemma sample_pager5:
  "pager_get (pager sample_db5) i = (if i = 0 then Some sample_page else None)"
  "pg_kind sample_page = PkData" "slots_of sample_page = sample_slots" "slot_count sample_page = 5"
  "pg_id sample_page = 0" "pg_alloc sample_page = 0" "pg_buf sample_page = encode_body sample_body"
  "rowids sample_db5 = map (\<lambda>i. (of_nat i + 1, 0, i)) [0..<5]" "schema sample_db5 = sample_schema"
proof -
  have "unat i < 1 \<longleftrightarrow> i = 0" by (simp add: unat_eq_zero)
  then show "pager_get (pager sample_db5) i = (if i = 0 then Some sample_page else None)"
    by (auto simp: sample_db5_def pager_get_def)
qed (simp_all add: sample_page_def page_new_def sample_slots_facts sample_db5_def)

lemma sample_page_facts:
  "data_page_ok sample_schema sample_page" "page_row sample_page i = Some (body_row sample_body i)"
  using filled_page_ok [of sample_schema sample_slots sample_body] sample_body_facts sample_slots_facts
  by (simp_all add: sample_page_def sample_body_def as_u32_def)

lemma sample_map: "rid_get (rowids sample_db5) r = (if 1 \<le> r \<and> r \<le> 5 then Some (0, unat r - 1) else None)"
proof (cases "1 \<le> r \<and> r \<le> 5")
  case True
  then have "unat r \<in> {1, 2, 3, 4, 5}" by (auto simp: word_le_nat_alt)
  then have "r \<in> {1, 2, 3, 4, 5}" by (auto simp: word_unat_eq_iff)
  then show ?thesis using True by (auto simp: sample_pager5(8) rid_get_def bm_get_def upt_conv_Cons)
next
  case False
  then have "r \<notin> {1, 2, 3, 4, 5}" by auto
  then show ?thesis using False by (auto simp: sample_pager5(8) rid_get_def bm_get_def upt_conv_Cons)
qed

lemma sample_db5_ok [simp]: "db_ok sample_db5"
proof -
  have sh: "shape_ok sample_db5" using sample_ok(1) by (auto simp: db_ok_def shape_ok_def sample_db5_def)
  have po: "pager_ok (pager sample_db5)"
    unfolding pager_ok_def
  proof
    have "unat i < 1 \<longleftrightarrow> i = 0" for i :: u32 by (simp add: unat_eq_zero)
    then show "ids_ok (pager sample_db5)"
      by (simp add: sample_db5_def ids_ok_def sample_pager5(5))
    show "own_ok (pager sample_db5)"
      using sample_pager5 by (simp add: own_ok_def) (simp add: sample_db5_def)
  qed
  have pg: "pages_ok sample_db5" using po sample_page_facts sample_pager5(1,9) by (simp add: pages_ok_def)
  have ls: "live_slot (pager sample_db5) r (p, i) \<longleftrightarrow> p = 0 \<and> i < 5 \<and> r = of_nat i + 1" for r p i
    using sample_slots_facts sample_pager5 by (auto simp: live_slot_def)
  have "1 \<le> r \<and> r \<le> 5 \<and> i = unat r - 1 \<longleftrightarrow> i < 5 \<and> r = of_nat i + 1" for r :: u64 and i
  proof
    assume a: "1 \<le> r \<and> r \<le> 5 \<and> i = unat r - 1"
    then have "unat r \<in> {1, 2, 3, 4, 5}" by (auto simp: word_le_nat_alt)
    then show "i < 5 \<and> r = of_nat i + 1" using a by (auto simp: word_unat_eq_iff)
  next
    assume a: "i < 5 \<and> r = of_nat i + 1"
    then have "i \<in> {0, 1, 2, 3, 4}" by auto
    then show "1 \<le> r \<and> r \<le> 5 \<and> i = unat r - 1" using a by auto
  qed
  then have "rid_get (rowids sample_db5) r = Some (p, i) \<longleftrightarrow> live_slot (pager sample_db5) r (p, i)" for r p i
    unfolding ls sample_map by (smt (verit) option.inject option.distinct(1) prod.inject)
  then have "rid_get (rowids sample_db5) r = Some at \<longleftrightarrow> live_slot (pager sample_db5) r at" for r at
    by (cases at) blast
  moreover have "bm_ok (rowids sample_db5)" by (simp add: sample_pager5(8) bm_ok_def upt_conv_Cons)
  ultimately have ro: "rows_ok sample_db5" by (simp add: rows_ok_def)
  have so: "space_ok sample_db5"
    using sample_pager5(1,2) by (auto simp: space_ok_def sample_db5_def set_space_def fsm_new_def fsm_ok_def bm_ok_def bs_ok_def bm_get_def split: if_splits)
  have "dicts sample_db5 = dicts sample_db" by (simp add: sample_db5_def)
  then have "get_some (dicts sample_db5) ci = None" for ci
    by (auto simp: sample_db_def database_new_def sample_schema_def column_row_id_def column_new_def get_some_def nth_opt_def
        less_Suc_eq numeral_eq_Suc)
  then have "dicts_ok sample_db5" by (simp add: dicts_ok_def)
  then show ?thesis using sh pg ro so by (simp add: db_ok_def)
qed

lemma sample_page_small: "page_small sample_db5 sample_page" "length (pages (pager sample_db5)) < 4294967295"
  "data_pages (pager sample_db5) = [sample_page]"
proof -
  show "page_small sample_db5 sample_page" by (simp add: page_small_def sample_pager5 sample_schema_def)
  show "length (pages (pager sample_db5)) < 4294967295" by (simp add: sample_db5_def)
  show "data_pages (pager sample_db5) = [sample_page]"
    using sample_pager5(2) by (simp add: sample_db5_def data_pages_def pager_iter_def List.map_filter_def)
qed

lemma sample_table5:
  "1 \<le> r \<Longrightarrow> r \<le> 5 \<Longrightarrow> table sample_db5 r = Some (map (\<lambda>vs. vs ! (unat r - 1)) sample_cols)"
proof -
  assume r: "1 \<le> r" "r \<le> 5"
  then have i: "unat r - 1 < 5" by (auto simp: word_le_nat_alt)
  have "body_row sample_body i = map (\<lambda>vs. vs ! i) sample_cols" if "i < 5" for i
  proof (rule nth_equalityI)
    show "length (body_row sample_body i) = length (map (\<lambda>vs. vs ! i) sample_cols)"
      using sample_body_facts(3) by (simp add: body_row_def sample_cols_def)
    fix j assume "j < length (body_row sample_body i)"
    then have j: "j < 3" using sample_body_facts(3) by (simp add: body_row_def)
    then have "length (sample_cols ! j) = 5" "length sample_cols = 3"
      by (auto simp: sample_cols_def less_Suc_eq numeral_eq_Suc)
    then show "body_row sample_body i ! j = map (\<lambda>vs. vs ! i) sample_cols ! j"
      using that j sample_region [OF j] sample_body_facts(3) by (simp add: body_row_def read_cell_cells nth_or_null_nth)
  qed
  then show ?thesis using r i by (simp add: table_def sample_map sample_pager5(1) sample_page_facts(2))
qed

section \<open>Reachable samples\<close>

lemma sample_sound [simp]: "sound sample_db" "sound sample_db5"
proof -
  have "table sample_db = Map.empty" by (simp add: sample_db_def table_new)
  then show "sound sample_db" by (simp add: sound_def ids_below_def)
  have "r < 6" if "r \<in> dom (table sample_db5)" for r
  proof -
    have "rid_get (rowids sample_db5) r \<noteq> None" using that by (auto simp: table_def split: option.splits)
    then have "r \<le> 5" by (simp add: sample_map split: if_splits)
    then show ?thesis by (auto simp: word_le_nat_alt word_less_nat_alt)
  qed
  moreover have "next_row_id sample_db5 = 6" by (simp add: sample_db5_def)
  ultimately show "sound sample_db5" by (simp add: sound_def ids_below_def)
qed

lemma sample_step: "db_step (DoInsert sample_row) sample_db sample_db7"
proof (rule step_insert)
  show "db_room sample_db" by simp
  show "rid_get (rowids sample_db) (choose_row_id sample_row sample_db) = None"
    by (simp add: sample_insert_facts rid_get_def)
  show "row_storable (schema sample_db) (sample_row[0 := VInt (choose_row_id sample_row sample_db)])"
    by (simp add: sample_insert_facts)
  show "insert sample_row sample_db = (Ok 7, sample_db7)" by (rule sample_insert7)
qed

section \<open>A page with a tombstone\<close>

definition sample_dead :: db where
  "sample_dead = snd (delete_row 1 sample_db5)"

lemma sample_dead_ok [simp]: "db_ok sample_dead" "sound sample_dead"
proof -
  show ok: "db_ok sample_dead" unfolding sample_dead_def by (rule delete_row_ok(1)) simp
  have "next_row_id sample_dead = next_row_id sample_db5"
    by (simp add: sample_dead_def delete_row_def split: prod.split option.split)
  moreover have "dom (table sample_dead) \<subseteq> dom (table sample_db5)"
    by (auto simp: sample_dead_def delete_row_ok(2))
  ultimately have "ids_below sample_dead" using ids_below_table sample_sound(2) unfolding sound_def by blast
  then show "sound sample_dead" using ok by (simp add: sound_def)
qed

lemma sample_dead_page:
  "pager_get (pager sample_dead) 0 = Some (kill_slot 0 sample_page)" "schema sample_dead = sample_schema"
  "rid_get (rowids sample_dead) r = (if r = 1 then None else rid_get (rowids sample_db5) r)"
  "page_small sample_dead (kill_slot 0 sample_page)" "live_count (kill_slot 0 sample_page) = 4"
proof -
  have bm: "bm_ok (rowids sample_db5)" by (simp add: sample_pager5(8) bm_ok_def upt_conv_Cons)
  have "rid_get (rowids sample_db5) 1 = Some (0, 0)" by (simp add: sample_map)
  then obtain m where m: "rid_remove 1 (rowids sample_db5) = (Some (0, 0), m)" "rid_get m = (rid_get (rowids sample_db5))(1 := None)"
    using rid_get_remove [OF bm, of 1] by (auto simp: rid_remove_def rid_get_def)
  have d: "rowids sample_dead = m" "pager sample_dead = pager_modify 0 (kill_slot 0) (pager sample_db5)"
    by (simp_all add: sample_dead_def delete_row_def m(1))
  show s: "schema sample_dead = sample_schema"
    using delete_row_ok(4) [OF sample_db5_ok, of 1] by (simp add: sample_dead_def sample_pager5)
  show "pager_get (pager sample_dead) 0 = Some (kill_slot 0 sample_page)"
    by (simp add: d pager_get_modify sample_pager5(1))
  show "rid_get (rowids sample_dead) r = (if r = 1 then None else rid_get (rowids sample_db5) r)"
    by (simp add: d m(2))
  show "page_small sample_dead (kill_slot 0 sample_page)"
    by (simp add: page_small_def s sample_pager5(4)) (simp add: sample_schema_def)
  have "pg_slots sample_page = Some sample_slots" by (simp add: sample_page_def)
  then show "live_count (kill_slot 0 sample_page) = 4"
    by (simp add: kill_slot_def live_count_def sample_slots_facts(1)) (simp add: sample_slots_def slot_new_def upt_conv_Cons)
qed

section \<open>A database to write out\<close>

lemma encode_body_length:
  assumes "\<forall>r \<in> set (regions b). length (rg_data r) \<le> 60"
  shows "length (encode_body b) \<le> 8 + 66 * length (regions b)"
proof -
  have "length (concat (map encode_region rs)) \<le> 66 * length rs" if "\<forall>r \<in> set rs. length (rg_data r) \<le> 60" for rs
    using that by (induction rs) (auto simp: encode_region_def)
  then show ?thesis using assms by (simp add: encode_body_def)
qed

lemma sample_db5_storable: "storable_db sample_db5" "container_order sample_db5"
  "zones_live sample_db5" "gens_fresh sample_db5" "dict_pages_exist sample_db5"
proof -
  have n: "dict_page c = None" "c \<in> set (schema sample_db5) \<Longrightarrow> index_page c = None" if "c \<in> set sample_schema" for c
    using that by (auto simp: sample_schema_def column_row_id_def column_new_def sample_pager5)
  have nd: "dict_list sample_db5 = []"
    using n(1) by (auto simp: dict_list_def sample_pager5 List.map_filter_def)
  have dp: "data_pages (pager sample_db5) = [sample_page]" by (rule sample_page_small(3))
  show "container_order sample_db5" by (simp add: container_order_def nd dp) (simp add: sample_db5_def)
  have z: "zone_maps sample_db5 = [[], [], []]" "indexes sample_db5 = [None, None, None]"
    by (simp_all add: sample_db5_def sample_db_def database_new_def sample_schema_def column_row_id_def column_new_def)
  show "zones_live sample_db5" "gens_fresh sample_db5" by (simp_all add: zones_live_def gens_fresh_def z zm_iter_def)
  show "dict_pages_exist sample_db5" using n(1) by (simp add: dict_pages_exist_def sample_pager5)
  have "schema_ok sample_schema" 
    by (simp add: schema_ok_def column_ok_def sample_schema_def column_row_id_def column_new_def) code_simp
  moreover have "rowid_map_ok (rowids sample_db5)"
    by (simp add: rowid_map_ok_def sample_pager5(8) bm_ok_def upt_conv_Cons row_entry_ok_def)
  moreover have "zones_storable (zone_maps sample_db5)"
    by (simp add: zones_storable_def z zone_map_ok_def zonemap_encode_def)
  moreover have "length (pg_buf sample_page) < 2 ^ 32"
  proof -
    have "length (encode_body sample_body) \<le> 8 + 66 * length (regions sample_body)"
      using sample_body_facts(4) by (rule encode_body_length)
    then have "length (encode_body sample_body) < 2 ^ 32" using sample_body_facts(3) by simp
    then show ?thesis by (simp add: sample_pager5)
  qed
  moreover have "length (free_pages (fsm sample_db5)) < 2 ^ 32" "length (space (fsm sample_db5)) < 2 ^ 32"
    by (simp_all add: sample_db5_def set_space_def fsm_new_def)
  ultimately show "storable_db sample_db5"
    using n(1) by (auto simp: storable_db_def nd dp z sample_pager5)
qed

lemma sample_db5_records: "length (records_of (\<lambda>_. 0) sample_db5) < 2 ^ 32" "total_len (records_of (\<lambda>_. 0) sample_db5) < 2 ^ 32"
proof -
  have "length (records_of (\<lambda>_. 0) sample_db5) < 2 ^ 32 \<and> total_len (records_of (\<lambda>_. 0) sample_db5) < 2 ^ 32"
    by code_simp
  then show "length (records_of (\<lambda>_. 0) sample_db5) < 2 ^ 32" "total_len (records_of (\<lambda>_. 0) sample_db5) < 2 ^ 32"
    by auto
qed

lemma sample_db5_room [simp]: "db_room sample_db5"
proof (rule room_check_sound)
  show "room_check sample_db5" by code_simp
qed simp

lemma sample_page0: "pager_get (pager sample_db5) 0 = Some sample_page"
  by (simp add: sample_pager5)

lemma sample_page_live: "live_count sample_page = 5"
  by (simp add: live_count_def sample_page_def) (simp add: sample_slots_def slot_new_def upt_conv_Cons)

section \<open>A database whose data page comes before its dictionary page\<close>

definition reordered_db :: db where
  "reordered_db = (let (_, db) = insert [VNull, VText 0, VInt 5] sample_db in snd (intern_text 1 [65] db))"

lemma reordered_row: "read_row_cell reordered_db 1 2 = Some (VInt 5)"
  by code_simp

lemma reordered_records: "length (records_of (\<lambda>_. 0) reordered_db) < 2 ^ 32 \<and> total_len (records_of (\<lambda>_. 0) reordered_db) < 2 ^ 32"
  by code_simp

lemma reordered_decoded:
  "case rbind (decode_records (records_of (\<lambda>_. 0) reordered_db) decoded_new) assemble of
     Ok db \<Rightarrow> read_row_cell db 1 2 = None | _ \<Rightarrow> False"
  by code_simp

end
