(* ===== verification/Txns.thy ===== *)
theory Txns
  imports SortedMap Wals
begin

text \<open>
  The multi-version transaction manager (\<open>src/src/txn.rs\<close>): versions, read views, the undo log,
  savepoints, the lock table with its wait-for graph, commit, rollback, garbage collection and
  recovery from the log. A \<open>HashSet\<close> is a strictly sorted list and a \<open>HashMap\<close> a sorted association
  list: their iteration order, which the standard library leaves open, is taken to be the key order.
  The diagnostic counters wrap; the clock and the id counter panic on overflow.
\<close>

section \<open>Timestamps, versions and read views\<close>

type_synonym timestamp = u64
type_synonym txn_id = u64

definition ts_inf :: timestamp where
  "ts_inf = 0xFFFFFFFFFFFFFFFF"

definition ts_zero :: timestamp where
  "ts_zero = 0"

definition ts_is_inf :: "timestamp \<Rightarrow> bool" where
  "ts_is_inf t \<longleftrightarrow> t = ts_inf"

definition ts_saturating_add :: "timestamp \<Rightarrow> u64 \<Rightarrow> timestamp" where
  "ts_saturating_add t n = (if unat t + unat n < 2 ^ 64 then t + n else ts_inf)"

datatype txn_state = TsActive | TsPrepared | TsCommitted | TsAborted

fun state_live :: "txn_state \<Rightarrow> bool" where
  "state_live TsActive = True"
| "state_live TsPrepared = True"
| "state_live _ = False"

fun state_name :: "txn_state \<Rightarrow> rstr" where
  "state_name TsActive = str ''active''"
| "state_name TsPrepared = str ''prepared''"
| "state_name TsCommitted = str ''committed''"
| "state_name TsAborted = str ''aborted''"

datatype isolation = ReadUncommitted | ReadCommitted | RepeatableRead | Serializable

fun isolation_name :: "isolation \<Rightarrow> rstr" where
  "isolation_name ReadUncommitted = str ''read-uncommitted''"
| "isolation_name ReadCommitted = str ''read-committed''"
| "isolation_name RepeatableRead = str ''repeatable-read''"
| "isolation_name Serializable = str ''serializable''"

record row_version =
  v_value :: val
  v_deleted :: bool
  v_begin :: timestamp
  v_end :: timestamp
  v_writer :: txn_id
  v_committed :: bool

definition committed_current :: "val \<Rightarrow> timestamp \<Rightarrow> txn_id \<Rightarrow> row_version" where
  "committed_current v t w = \<lparr>v_value = v, v_deleted = False, v_begin = t, v_end = ts_inf, v_writer = w, v_committed = True\<rparr>"

definition write_intent :: "val \<Rightarrow> timestamp \<Rightarrow> txn_id \<Rightarrow> row_version" where
  "write_intent v t w = \<lparr>v_value = v, v_deleted = False, v_begin = t, v_end = ts_inf, v_writer = w, v_committed = False\<rparr>"

definition delete_intent :: "timestamp \<Rightarrow> txn_id \<Rightarrow> row_version" where
  "delete_intent t w = \<lparr>v_value = VNull, v_deleted = True, v_begin = t, v_end = ts_inf, v_writer = w, v_committed = False\<rparr>"

definition is_dead :: "row_version \<Rightarrow> bool" where
  "is_dead v \<longleftrightarrow> v_committed v \<and> v_end v \<noteq> ts_inf"

record version_chain =
  vc_row :: u64
  vc_versions :: "row_version list"

definition chain_empty :: "u64 \<Rightarrow> version_chain" where
  "chain_empty r = \<lparr>vc_row = r, vc_versions = []\<rparr>"

definition push_head :: "row_version \<Rightarrow> version_chain \<Rightarrow> version_chain" where
  "push_head v c = c\<lparr>vc_versions := v # vc_versions c\<rparr>"

definition pop_head :: "version_chain \<Rightarrow> row_version option \<times> version_chain" where
  "pop_head c = (case vc_versions c of [] \<Rightarrow> (None, c) | v # vs \<Rightarrow> (Some v, c\<lparr>vc_versions := vs\<rparr>))"

definition chain_head :: "version_chain \<Rightarrow> row_version option" where
  "chain_head c = (case vc_versions c of [] \<Rightarrow> None | v # _ \<Rightarrow> Some v)"

definition is_current :: "row_version \<Rightarrow> bool" where
  "is_current v \<longleftrightarrow> v_committed v \<and> v_end v = ts_inf"

definition current_committed :: "version_chain \<Rightarrow> row_version option" where
  "current_committed c = find is_current (vc_versions c)"

record read_view =
  rv_reader :: txn_id
  rv_snapshot :: timestamp
  rv_active :: "txn_id list"
  rv_isolation :: isolation

definition is_visible :: "read_view \<Rightarrow> row_version \<Rightarrow> bool" where
  "is_visible rv v \<longleftrightarrow>
     (if v_writer v = rv_reader rv \<and> \<not> v_committed v then True
      else if \<not> v_committed v then rv_isolation rv = ReadUncommitted
      else if v_writer v \<in> set (rv_active rv) then False
      else if rv_snapshot rv < v_begin v then False
      else if v_end v \<le> rv_snapshot rv then False
      else True)"

definition sees_commit :: "read_view \<Rightarrow> timestamp \<Rightarrow> bool" where
  "sees_commit rv t \<longleftrightarrow> t \<le> rv_snapshot rv"

definition visible_for :: "read_view \<Rightarrow> version_chain \<Rightarrow> row_version option" where
  "visible_for rv c = find (is_visible rv) (vc_versions c)"

section \<open>The undo log, savepoints and transactions\<close>

datatype undo_record = UndoInsert u64 | UndoUpdate u64 | UndoDelete u64

fun undo_row :: "undo_record \<Rightarrow> u64" where
  "undo_row (UndoInsert r) = r"
| "undo_row (UndoUpdate r) = r"
| "undo_row (UndoDelete r) = r"

fun undo_rec_type :: "undo_record \<Rightarrow> rec_type" where
  "undo_rec_type (UndoInsert r) = RtInsert"
| "undo_rec_type (UndoUpdate r) = RtUpdate"
| "undo_rec_type (UndoDelete r) = RtDelete"

text \<open>The records behind the given length, newest first, and the log cut to it.\<close>

definition undo_truncate_to :: "nat \<Rightarrow> undo_record list \<Rightarrow> undo_record list \<times> undo_record list" where
  "undo_truncate_to n us = (rev (drop n us), take n us)"

record save_point =
  sp_name :: rstr
  sp_undo_len :: nat
  sp_writes :: "u64 list"
  sp_reads :: "u64 list"

record predicate_lock =
  pl_txn :: txn_id
  pl_rows :: "u64 list"

record transaction =
  tx_id :: txn_id
  tx_begin :: timestamp
  tx_commit :: "timestamp option"
  tx_state :: txn_state
  tx_isolation :: isolation
  tx_view :: read_view
  tx_reads :: "u64 list"
  tx_writes :: "u64 list"
  tx_preds :: "u64 list"
  tx_undo :: "undo_record list"
  tx_savepoints :: "save_point list"
  tx_lsn :: u64

definition transaction_new :: "txn_id \<Rightarrow> timestamp \<Rightarrow> txn_id list \<Rightarrow> isolation \<Rightarrow> transaction" where
  "transaction_new i b act lv = \<lparr>tx_id = i, tx_begin = b, tx_commit = None, tx_state = TsActive, tx_isolation = lv,
     tx_view = \<lparr>rv_reader = i, rv_snapshot = b, rv_active = act, rv_isolation = lv\<rparr>, tx_reads = [], tx_writes = [],
     tx_preds = [], tx_undo = [], tx_savepoints = [], tx_lsn = 0\<rparr>"

definition tx_live :: "transaction \<Rightarrow> bool" where
  "tx_live t \<longleftrightarrow> state_live (tx_state t)"

record lock_entry =
  lk_shared :: "txn_id list"
  lk_exclusive :: "txn_id option"

definition lock_default :: lock_entry where
  "lock_default = \<lparr>lk_shared = [], lk_exclusive = None\<rparr>"

definition lock_is_empty :: "lock_entry \<Rightarrow> bool" where
  "lock_is_empty e \<longleftrightarrow> lk_shared e = [] \<and> lk_exclusive e = None"

definition lock_holders :: "lock_entry \<Rightarrow> txn_id list" where
  "lock_holders e = lk_shared e @ (case lk_exclusive e of None \<Rightarrow> [] | Some x \<Rightarrow> [x])"

record txn_stats =
  ct_begun :: u64
  ct_committed :: u64
  ct_aborted :: u64
  ct_prepared :: u64
  ct_gc_runs :: u64
  ct_gc_removed :: u64
  ct_checkpoints :: u64
  ct_deadlocks :: u64
  ct_lock_conflicts :: u64

definition txn_stats_new :: txn_stats where
  "txn_stats_new = \<lparr>ct_begun = 0, ct_committed = 0, ct_aborted = 0, ct_prepared = 0, ct_gc_runs = 0, ct_gc_removed = 0,
     ct_checkpoints = 0, ct_deadlocks = 0, ct_lock_conflicts = 0\<rparr>"

record txn_manager =
  tm_next_id :: u64
  tm_next_ts :: u64
  tm_registry :: "(txn_id, transaction) bmap"
  tm_active :: "txn_id list"
  tm_chains :: "(u64, version_chain) bmap"
  tm_locks :: "(u64, lock_entry) bmap"
  tm_wait :: "(txn_id, txn_id list) bmap"
  tm_preds :: "predicate_lock list"
  tm_wal :: wal
  tm_stats :: txn_stats

definition manager_with_wal :: "wal \<Rightarrow> txn_manager" where
  "manager_with_wal w = \<lparr>tm_next_id = 1, tm_next_ts = 1, tm_registry = [], tm_active = [], tm_chains = [], tm_locks = [],
     tm_wait = [], tm_preds = [], tm_wal = w, tm_stats = txn_stats_new\<rparr>"

definition manager_new :: txn_manager where
  "manager_new = manager_with_wal (wal_new 4096)"

type_synonym 'a txn_op = "(txn_manager, error, 'a) op"

section \<open>Clock and registry\<close>

definition txn_now :: "txn_manager \<Rightarrow> timestamp" where
  "txn_now tm = tm_next_ts tm"

definition tick :: "timestamp txn_op" where
  "tick tm = (if tm_next_ts tm = - 1 then (Panic, tm) else (Ok (tm_next_ts tm), tm\<lparr>tm_next_ts := tm_next_ts tm + 1\<rparr>))"

definition last_timestamp :: "txn_manager \<Rightarrow> timestamp" where
  "last_timestamp tm = (if tm_next_ts tm = 0 then ts_zero else tm_next_ts tm - 1)"

definition txn_of :: "txn_manager \<Rightarrow> txn_id \<Rightarrow> transaction option" where
  "txn_of tm i = bm_get (tm_registry tm) i"

definition txn_contains :: "txn_manager \<Rightarrow> txn_id \<Rightarrow> bool" where
  "txn_contains tm i \<longleftrightarrow> txn_of tm i \<noteq> None"

definition state_of :: "txn_manager \<Rightarrow> txn_id \<Rightarrow> txn_state option" where
  "state_of tm i = map_option tx_state (txn_of tm i)"

definition active_count :: "txn_manager \<Rightarrow> nat" where
  "active_count tm = length (tm_active tm)"

definition chain_count :: "txn_manager \<Rightarrow> nat" where
  "chain_count tm = length (tm_chains tm)"

definition version_count :: "txn_manager \<Rightarrow> nat" where
  "version_count tm = sum_list (map (\<lambda>(_, c). length (vc_versions c)) (tm_chains tm))"

definition chain_snapshot :: "txn_manager \<Rightarrow> u64 \<Rightarrow> row_version list option" where
  "chain_snapshot tm r = map_option vc_versions (bm_get (tm_chains tm) r)"

definition chain_length :: "txn_manager \<Rightarrow> u64 \<Rightarrow> nat" where
  "chain_length tm r = (case bm_get (tm_chains tm) r of None \<Rightarrow> 0 | Some c \<Rightarrow> length (vc_versions c))"

record txn_info =
  ti_id :: txn_id
  ti_begin :: timestamp
  ti_commit :: "timestamp option"
  ti_state :: txn_state
  ti_isolation :: isolation
  ti_snapshot :: timestamp
  ti_reads :: nat
  ti_writes :: nat
  ti_preds :: nat
  ti_savepoints :: nat
  ti_undo :: nat
  ti_lsn :: u64

definition txn_info_of :: "txn_manager \<Rightarrow> txn_id \<Rightarrow> txn_info option" where
  "txn_info_of tm i = map_option (\<lambda>t. \<lparr>ti_id = tx_id t, ti_begin = tx_begin t, ti_commit = tx_commit t, ti_state = tx_state t,
     ti_isolation = tx_isolation t, ti_snapshot = rv_snapshot (tx_view t), ti_reads = length (tx_reads t),
     ti_writes = length (tx_writes t), ti_preds = length (tx_preds t), ti_savepoints = length (tx_savepoints t),
     ti_undo = length (tx_undo t), ti_lsn = tx_lsn t\<rparr>) (txn_of tm i)"

text \<open>\<open>registry.get_mut(&id).unwrap()\<close> with a change to the transaction.\<close>

definition modify_txn :: "txn_id \<Rightarrow> (transaction \<Rightarrow> transaction) \<Rightarrow> unit txn_op" where
  "modify_txn i f tm = (case txn_of tm i of None \<Rightarrow> (Panic, tm)
     | Some t \<Rightarrow> (Ok (), tm\<lparr>tm_registry := bm_insert i (f t) (tm_registry tm)\<rparr>))"

text \<open>Appending a record for a transaction, which remembers its number.\<close>

definition txn_log :: "txn_id \<Rightarrow> rec_type \<Rightarrow> u8 list \<Rightarrow> unit txn_op" where
  "txn_log i k payload tm = (case wal_append i k payload (tm_wal tm) of
       Ok (l, w) \<Rightarrow> modify_txn i (\<lambda>t. t\<lparr>tx_lsn := l\<rparr>) (tm\<lparr>tm_wal := w\<rparr>)
     | Err e \<Rightarrow> (Err e, tm) | Panic \<Rightarrow> (Panic, tm) | Undef \<Rightarrow> (Undef, tm))"

definition show_txn :: "txn_id \<Rightarrow> rstr" where
  "show_txn i = str ''txn'' @ show_nat (unat i)"

definition unknown_txn :: "txn_id \<Rightarrow> error" where
  "unknown_txn i = Internal (str ''unknown transaction '' @ show_txn i)"

definition require_live :: "txn_id \<Rightarrow> unit txn_op" where
  "require_live i tm = (case txn_of tm i of
       None \<Rightarrow> (Err (unknown_txn i), tm)
     | Some t \<Rightarrow> if \<not> tx_live t
         then (Err (Internal (str ''transaction '' @ show_txn i @ str '' is not live (state: '' @ state_name (tx_state t) @ str '')'')), tm)
         else (Ok (), tm))"

section \<open>Begin and prepare\<close>

definition txn_begin :: "isolation \<Rightarrow> txn_id txn_op" where
  "txn_begin lv tm = (let i = tm_next_id tm in
     if i = - 1 then (Panic, tm)
     else sbind tick (\<lambda>b tm.
       case wal_append i RtBegin [] (tm_wal tm) of
         Ok (l, w) \<Rightarrow> (Ok i, tm\<lparr>tm_wal := w,
            tm_registry := bm_insert i ((transaction_new i b (tm_active tm) lv)\<lparr>tx_lsn := l\<rparr>) (tm_registry tm),
            tm_active := bs_insert i (tm_active tm),
            tm_stats := (tm_stats tm)\<lparr>ct_begun := ct_begun (tm_stats tm) + 1\<rparr>\<rparr>)
       | Err e \<Rightarrow> (Err e, tm) | Panic \<Rightarrow> (Panic, tm) | Undef \<Rightarrow> (Undef, tm))
       (tm\<lparr>tm_next_id := i + 1\<rparr>))"

definition txn_prepare :: "txn_id \<Rightarrow> unit txn_op" where
  "txn_prepare i = sbind (require_live i) (\<lambda>_ tm.
     if state_of tm i = Some TsPrepared then (Ok (), tm)
     else sbind (modify_txn i (\<lambda>t. t\<lparr>tx_state := TsPrepared\<rparr>)) (\<lambda>_ tm.
       (Ok (), tm\<lparr>tm_stats := (tm_stats tm)\<lparr>ct_prepared := ct_prepared (tm_stats tm) + 1\<rparr>\<rparr>)) tm)"

section \<open>Locks\<close>

definition wait_remove :: "txn_id \<Rightarrow> txn_manager \<Rightarrow> txn_manager" where
  "wait_remove i tm = tm\<lparr>tm_wait := bm_remove i (tm_wait tm)\<rparr>"

definition wait_edges :: "txn_manager \<Rightarrow> txn_id \<Rightarrow> txn_id list" where
  "wait_edges tm i = (case bm_get (tm_wait tm) i of None \<Rightarrow> [] | Some hs \<Rightarrow> hs)"

definition wait_add :: "txn_id \<Rightarrow> txn_id list \<Rightarrow> txn_manager \<Rightarrow> txn_manager" where
  "wait_add i hs tm = tm\<lparr>tm_wait := bm_insert i (fold bs_insert hs (wait_edges tm i)) (tm_wait tm)\<rparr>"

definition lock_of :: "txn_manager \<Rightarrow> u64 \<Rightarrow> lock_entry" where
  "lock_of tm r = (case bm_get (tm_locks tm) r of None \<Rightarrow> lock_default | Some e \<Rightarrow> e)"

definition set_lock :: "u64 \<Rightarrow> lock_entry \<Rightarrow> txn_manager \<Rightarrow> txn_manager" where
  "set_lock r e tm = tm\<lparr>tm_locks := bm_insert r e (tm_locks tm)\<rparr>"

definition lock_conflict :: "u64 \<Rightarrow> txn_manager \<Rightarrow> (error, unit) res \<times> txn_manager" where
  "lock_conflict r tm = (Err (Internal (str ''lock conflict on row '' @ show_nat (unat r))),
     tm\<lparr>tm_stats := (tm_stats tm)\<lparr>ct_lock_conflicts := ct_lock_conflicts (tm_stats tm) + 1\<rparr>\<rparr>)"

definition acquire_exclusive :: "txn_id \<Rightarrow> u64 \<Rightarrow> unit txn_op" where
  "acquire_exclusive i r tm = (let e = lock_of tm r; tm = set_lock r e tm in
     if lk_exclusive e = Some i then (Ok (), wait_remove i tm)
     else if lk_exclusive e = None \<and> (lk_shared e = [] \<or> length (lk_shared e) = 1 \<and> i \<in> set (lk_shared e))
       then (Ok (), wait_remove i (set_lock r \<lparr>lk_shared = bs_remove i (lk_shared e), lk_exclusive = Some i\<rparr> tm))
     else lock_conflict r (wait_add i (filter (\<lambda>h. h \<noteq> i) (lock_holders e)) tm))"

definition acquire_shared :: "txn_id \<Rightarrow> u64 \<Rightarrow> unit txn_op" where
  "acquire_shared i r tm = (let e = lock_of tm r; tm = set_lock r e tm in
     if lk_exclusive e = Some i then (Ok (), wait_remove i tm)
     else (case lk_exclusive e of
       None \<Rightarrow> (Ok (), wait_remove i (set_lock r (e\<lparr>lk_shared := bs_insert i (lk_shared e)\<rparr>) tm))
     | Some h \<Rightarrow> lock_conflict r (wait_add i [h] tm)))"

definition lock_without :: "txn_id \<Rightarrow> lock_entry \<Rightarrow> lock_entry" where
  "lock_without i e = \<lparr>lk_shared = bs_remove i (lk_shared e),
     lk_exclusive = (if lk_exclusive e = Some i then None else lk_exclusive e)\<rparr>"

definition clear_wait_for :: "txn_id \<Rightarrow> txn_manager \<Rightarrow> txn_manager" where
  "clear_wait_for i tm = tm\<lparr>tm_wait := map (\<lambda>(w, hs). (w, bs_remove i hs)) (bm_remove i (tm_wait tm))\<rparr>"

definition release_locks :: "txn_id \<Rightarrow> txn_manager \<Rightarrow> txn_manager" where
  "release_locks i tm = clear_wait_for i (tm\<lparr>tm_locks :=
     filter (\<lambda>(r, e). \<not> lock_is_empty e) (map (\<lambda>(r, e). (r, lock_without i e)) (tm_locks tm))\<rparr>)"

definition release_one_lock :: "txn_id \<Rightarrow> u64 \<Rightarrow> txn_manager \<Rightarrow> txn_manager" where
  "release_one_lock i r tm = (let tm = (case bm_get (tm_locks tm) r of None \<Rightarrow> tm
       | Some e \<Rightarrow> (let e' = lock_without i e; locks = bm_remove r (tm_locks tm) in
           tm\<lparr>tm_locks := if lock_is_empty e' then locks else bm_insert r e' locks\<rparr>)) in
     (case bm_get (tm_wait tm) i of None \<Rightarrow> tm | Some _ \<Rightarrow> tm\<lparr>tm_wait := bm_insert i [] (tm_wait tm)\<rparr>))"

definition acquire_lock :: "txn_id \<Rightarrow> u64 \<Rightarrow> bool \<Rightarrow> unit txn_op" where
  "acquire_lock i r exclusive = sbind (require_live i) (\<lambda>_.
     if exclusive then acquire_exclusive i r else acquire_shared i r)"

definition holds_lock :: "txn_manager \<Rightarrow> txn_id \<Rightarrow> u64 \<Rightarrow> bool" where
  "holds_lock tm i r \<longleftrightarrow> (case bm_get (tm_locks tm) r of None \<Rightarrow> False
     | Some e \<Rightarrow> lk_exclusive e = Some i \<or> i \<in> set (lk_shared e))"

definition add_wait_for :: "txn_id \<Rightarrow> txn_id \<Rightarrow> txn_manager \<Rightarrow> txn_manager" where
  "add_wait_for w h = wait_add w [h]"

section \<open>Reading\<close>

definition refresh_read_view :: "txn_id \<Rightarrow> unit txn_op" where
  "refresh_read_view i tm = modify_txn i (\<lambda>t. t\<lparr>tx_view :=
     (tx_view t)\<lparr>rv_snapshot := txn_now tm, rv_active := tm_active tm\<rparr>\<rparr>) tm"

text \<open>What a view sees of a row.\<close>

definition view_row :: "read_view \<Rightarrow> (u64, version_chain) bmap \<Rightarrow> u64 \<Rightarrow> val option" where
  "view_row rv cs r = (case bm_get cs r of None \<Rightarrow> None
     | Some c \<Rightarrow> (case visible_for rv c of None \<Rightarrow> None
       | Some v \<Rightarrow> if v_deleted v then None else Some (v_value v)))"

definition txn_read :: "txn_id \<Rightarrow> u64 \<Rightarrow> val option txn_op" where
  "txn_read i r = sbind (require_live i) (\<lambda>_ tm.
     sbind (if map_option tx_isolation (txn_of tm i) = Some ReadCommitted then refresh_read_view i else sret ()) (\<lambda>_ tm.
       case txn_of tm i of None \<Rightarrow> (Panic, tm)
       | Some t \<Rightarrow> sbind (modify_txn i (\<lambda>t. t\<lparr>tx_reads := bs_insert r (tx_reads t)\<rparr>)) (\<lambda>_ tm.
           (Ok (view_row (tx_view t) (tm_chains tm) r), tm)) tm) tm)"

section \<open>Writing\<close>

definition chain_of :: "u64 \<Rightarrow> (u64, version_chain) bmap \<Rightarrow> version_chain" where
  "chain_of r cs = (case bm_get cs r of None \<Rightarrow> chain_empty r | Some c \<Rightarrow> c)"

text \<open>
  The common tail of the writes: the intent goes to the head of its chain, the transaction remembers
  the row and the undo record, and the write is journaled.
\<close>

definition push_intent :: "txn_id \<Rightarrow> u64 \<Rightarrow> (timestamp \<Rightarrow> row_version) \<Rightarrow> undo_record \<Rightarrow> rec_type \<Rightarrow> u8 list \<Rightarrow> unit txn_op" where
  "push_intent i r mk u k payload tm = (case txn_of tm i of None \<Rightarrow> (Panic, tm)
     | Some t \<Rightarrow> (let v = mk (tx_begin t);
         tm = tm\<lparr>tm_chains := bm_insert r (push_head v (chain_of r (tm_chains tm))) (tm_chains tm)\<rparr> in
       sbind (modify_txn i (\<lambda>t. t\<lparr>tx_undo := tx_undo t @ [u], tx_writes := bs_insert r (tx_writes t)\<rparr>)) (\<lambda>_.
         txn_log i k payload) tm))"

definition row_label :: "u64 \<Rightarrow> rstr" where
  "row_label r = str ''row '' @ show_nat (unat r)"

definition txn_insert :: "txn_id \<Rightarrow> u64 \<Rightarrow> val \<Rightarrow> unit txn_op" where
  "txn_insert i r v = sbind (require_live i) (\<lambda>_. sbind (acquire_exclusive i r) (\<lambda>_.
     sbind (txn_read i r) (\<lambda>seen tm.
       if seen \<noteq> None then (Err (Internal (row_label r @ str '' already exists'')), tm)
       else push_intent i r (\<lambda>b. write_intent v b i) (UndoInsert r) RtInsert (encode_insert_payload r [v]) tm)))"

definition txn_update :: "txn_id \<Rightarrow> u64 \<Rightarrow> val \<Rightarrow> unit txn_op" where
  "txn_update i r v = sbind (require_live i) (\<lambda>_. sbind (acquire_exclusive i r) (\<lambda>_.
     sbind (txn_read i r) (\<lambda>seen tm.
       if seen = None then (Err (NotFound (row_label r)), release_one_lock i r tm)
       else push_intent i r (\<lambda>b. write_intent v b i) (UndoUpdate r) RtUpdate (encode_update_payload r 0 v) tm)))"

definition txn_delete :: "txn_id \<Rightarrow> u64 \<Rightarrow> unit txn_op" where
  "txn_delete i r = sbind (require_live i) (\<lambda>_. sbind (acquire_exclusive i r) (\<lambda>_.
     sbind (txn_read i r) (\<lambda>seen tm.
       if seen = None then (Err (NotFound (row_label r)), release_one_lock i r tm)
       else push_intent i r (\<lambda>b. delete_intent b i) (UndoDelete r) RtDelete (encode_delete_payload r) tm)))"

section \<open>Commit and rollback\<close>

definition own_intent :: "txn_id \<Rightarrow> row_version \<Rightarrow> bool" where
  "own_intent i v \<longleftrightarrow> v_writer v = i \<and> \<not> v_committed v"

text \<open>The first element that satisfies the condition, changed.\<close>

fun update_first :: "('a \<Rightarrow> bool) \<Rightarrow> ('a \<Rightarrow> 'a) \<Rightarrow> 'a list \<Rightarrow> 'a list" where
  "update_first p f [] = []"
| "update_first p f (x # xs) = (if p x then f x # xs else x # update_first p f xs)"

definition stamp :: "timestamp \<Rightarrow> row_version \<Rightarrow> row_version" where
  "stamp ts v = v\<lparr>v_committed := True, v_begin := ts, v_end := ts_inf\<rparr>"

definition close_current :: "timestamp \<Rightarrow> row_version list \<Rightarrow> row_version list" where
  "close_current ts = update_first is_current (\<lambda>v. v\<lparr>v_end := ts\<rparr>)"

definition finalize_versions :: "txn_id \<Rightarrow> timestamp \<Rightarrow> row_version list \<Rightarrow> row_version list" where
  "finalize_versions i ts vs = (if \<exists>v \<in> set vs. own_intent i v
     then update_first (own_intent i) (stamp ts) (close_current ts vs) else vs)"

definition finalize_write :: "txn_id \<Rightarrow> timestamp \<Rightarrow> u64 \<Rightarrow> (u64, version_chain) bmap \<Rightarrow> (u64, version_chain) bmap" where
  "finalize_write i ts r cs = (case bm_get cs r of None \<Rightarrow> cs
     | Some c \<Rightarrow> bm_insert r (c\<lparr>vc_versions := finalize_versions i ts (vc_versions c)\<rparr>) cs)"

definition strip_writer_versions :: "txn_id \<Rightarrow> u64 \<Rightarrow> (u64, version_chain) bmap \<Rightarrow> (u64, version_chain) bmap" where
  "strip_writer_versions i r cs = (case bm_get cs r of None \<Rightarrow> cs
     | Some c \<Rightarrow> (let vs = filter (\<lambda>v. \<not> own_intent i v) (vc_versions c) in
         if vs = [] then bm_remove r cs else bm_insert r (c\<lparr>vc_versions := vs\<rparr>) cs))"

definition conflicts_with :: "txn_id \<Rightarrow> timestamp \<Rightarrow> row_version \<Rightarrow> bool" where
  "conflicts_with i b v \<longleftrightarrow> v_committed v \<and> v_writer v \<noteq> i \<and> b < v_begin v \<and> v_begin v \<noteq> ts_inf"

definition serializable_conflict :: "txn_manager \<Rightarrow> txn_id \<Rightarrow> u64 option" where
  "serializable_conflict tm i = (case txn_of tm i of None \<Rightarrow> None
     | Some t \<Rightarrow> if tx_isolation t \<noteq> Serializable then None
         else find (\<lambda>r. case bm_get (tm_chains tm) r of None \<Rightarrow> False
            | Some c \<Rightarrow> \<exists>v \<in> set (vc_versions c). conflicts_with i (tx_begin t) v)
           (fold bs_insert (tx_preds t) (tx_reads t)))"

definition txn_rollback :: "txn_id \<Rightarrow> unit txn_op" where
  "txn_rollback i tm = (case txn_of tm i of None \<Rightarrow> (Err (unknown_txn i), tm)
     | Some t \<Rightarrow> (let tm = tm\<lparr>tm_chains := fold (strip_writer_versions i) (tx_writes t) (tm_chains tm)\<rparr> in
       sbind (modify_txn i (\<lambda>t. t\<lparr>tx_state := TsAborted, tx_undo := []\<rparr>)) (\<lambda>_.
       sbind (txn_log i RtAbort []) (\<lambda>_ tm.
         (Ok (), (release_locks i (tm\<lparr>tm_active := bs_remove i (tm_active tm)\<rparr>))
            \<lparr>tm_stats := (tm_stats tm)\<lparr>ct_aborted := ct_aborted (tm_stats tm) + 1\<rparr>\<rparr>))) tm))"

definition commit_writes :: "txn_id \<Rightarrow> timestamp txn_op" where
  "commit_writes i = sbind tick (\<lambda>ts tm. case txn_of tm i of None \<Rightarrow> (Panic, tm)
     | Some t \<Rightarrow> (let tm = tm\<lparr>tm_chains := fold (finalize_write i ts) (tx_writes t) (tm_chains tm)\<rparr> in
       sbind (modify_txn i (\<lambda>t. t\<lparr>tx_state := TsCommitted, tx_commit := Some ts\<rparr>)) (\<lambda>_.
       sbind (txn_log i RtCommit []) (\<lambda>_ tm.
         (Ok ts, (release_locks i (tm\<lparr>tm_active := bs_remove i (tm_active tm)\<rparr>))
            \<lparr>tm_stats := (tm_stats tm)\<lparr>ct_committed := ct_committed (tm_stats tm) + 1\<rparr>\<rparr>))) tm))"

definition txn_commit :: "txn_id \<Rightarrow> timestamp txn_op" where
  "txn_commit i = sbind (require_live i) (\<lambda>_ tm. case serializable_conflict tm i of
       Some r \<Rightarrow> sbind (txn_rollback i) (\<lambda>_ tm.
         (Err (Internal (str ''serialization conflict on row '' @ show_nat (unat r))), tm)) tm
     | None \<Rightarrow> commit_writes i tm)"

section \<open>Savepoints\<close>

text \<open>Undoing one write takes the newest intent of the transaction off the row and drops its lock.\<close>

fun remove_first :: "('a \<Rightarrow> bool) \<Rightarrow> 'a list \<Rightarrow> 'a list" where
  "remove_first p [] = []"
| "remove_first p (x # xs) = (if p x then xs else x # remove_first p xs)"

definition undo_one :: "txn_id \<Rightarrow> undo_record \<Rightarrow> txn_manager \<Rightarrow> txn_manager" where
  "undo_one i u tm = (let r = undo_row u in case bm_get (tm_chains tm) r of None \<Rightarrow> tm
     | Some c \<Rightarrow> (let vs = remove_first (own_intent i) (vc_versions c);
         tm = tm\<lparr>tm_chains := if vs = [] then bm_remove r (tm_chains tm) else bm_insert r (c\<lparr>vc_versions := vs\<rparr>) (tm_chains tm)\<rparr> in
       (case bm_get (tm_locks tm) r of None \<Rightarrow> tm
        | Some e \<Rightarrow> (let e' = (if lk_exclusive e = Some i then e\<lparr>lk_exclusive := None\<rparr> else e) in
            tm\<lparr>tm_locks := if lock_is_empty e' then bm_remove r (tm_locks tm) else bm_insert r e' (tm_locks tm)\<rparr>))))"

definition savepoint_of :: "transaction \<Rightarrow> rstr \<Rightarrow> save_point option" where
  "savepoint_of t n = find (\<lambda>s. sp_name s = n) (tx_savepoints t)"

definition txn_savepoint :: "txn_id \<Rightarrow> rstr \<Rightarrow> unit txn_op" where
  "txn_savepoint i n = sbind (require_live i) (\<lambda>_ tm. case txn_of tm i of None \<Rightarrow> (Panic, tm)
     | Some t \<Rightarrow> if savepoint_of t n \<noteq> None
         then (Err (Internal (str ''savepoint '' @ n @ str '' already exists'')), tm)
         else modify_txn i (\<lambda>t. t\<lparr>tx_savepoints := tx_savepoints t @
           [\<lparr>sp_name = n, sp_undo_len = length (tx_undo t), sp_writes = tx_writes t, sp_reads = tx_reads t\<rparr>]\<rparr>) tm)"

definition unknown_savepoint :: "rstr \<Rightarrow> error" where
  "unknown_savepoint n = Internal (str ''unknown savepoint '' @ n)"

definition rollback_to_savepoint :: "txn_id \<Rightarrow> rstr \<Rightarrow> unit txn_op" where
  "rollback_to_savepoint i n = sbind (require_live i) (\<lambda>_ tm. case txn_of tm i of None \<Rightarrow> (Panic, tm)
     | Some t \<Rightarrow> (case savepoint_of t n of None \<Rightarrow> (Err (unknown_savepoint n), tm)
       | Some sp \<Rightarrow> (let (removed, kept) = undo_truncate_to (sp_undo_len sp) (tx_undo t) in
           sbind (modify_txn i (\<lambda>t. t\<lparr>tx_savepoints := filter (\<lambda>s. sp_undo_len s \<le> sp_undo_len sp) (tx_savepoints t),
             tx_undo := kept\<rparr>)) (\<lambda>_ tm.
           modify_txn i (\<lambda>t. t\<lparr>tx_writes := sp_writes sp, tx_reads := sp_reads sp\<rparr>) (fold (undo_one i) removed tm)) tm)))"

definition release_savepoint :: "txn_id \<Rightarrow> rstr \<Rightarrow> unit txn_op" where
  "release_savepoint i n = sbind (require_live i) (\<lambda>_ tm. case txn_of tm i of None \<Rightarrow> (Panic, tm)
     | Some t \<Rightarrow> (let left = filter (\<lambda>s. sp_name s \<noteq> n) (tx_savepoints t) in
         sbind (modify_txn i (\<lambda>t. t\<lparr>tx_savepoints := left\<rparr>)) (\<lambda>_ tm.
           if length left = length (tx_savepoints t) then (Err (unknown_savepoint n), tm) else (Ok (), tm)) tm))"

definition savepoint_names :: "txn_manager \<Rightarrow> txn_id \<Rightarrow> rstr list option" where
  "savepoint_names tm i = map_option (\<lambda>t. map sp_name (tx_savepoints t)) (txn_of tm i)"

section \<open>Predicate locks\<close>

definition add_rows :: "u64 list \<Rightarrow> predicate_lock \<Rightarrow> predicate_lock" where
  "add_rows rows l = l\<lparr>pl_rows := fold bs_insert rows (pl_rows l)\<rparr>"

definition covers :: "predicate_lock \<Rightarrow> u64 \<Rightarrow> bool" where
  "covers l r \<longleftrightarrow> r \<in> set (pl_rows l)"

definition add_predicate_lock :: "txn_id \<Rightarrow> u64 list \<Rightarrow> unit txn_op" where
  "add_predicate_lock i rows = sbind (require_live i) (\<lambda>_.
     sbind (modify_txn i (\<lambda>t. t\<lparr>tx_preds := fold bs_insert rows (tx_preds t), tx_reads := fold bs_insert rows (tx_reads t)\<rparr>)) (\<lambda>_ tm.
       (Ok (), tm\<lparr>tm_preds := if \<exists>l \<in> set (tm_preds tm). pl_txn l = i
          then update_first (\<lambda>l. pl_txn l = i) (add_rows rows) (tm_preds tm)
          else tm_preds tm @ [add_rows rows \<lparr>pl_txn = i, pl_rows = []\<rparr>]\<rparr>)))"

section \<open>Deadlock detection\<close>

text \<open>
  The depth-first search with its shared set of visited nodes. The fuel bounds the depth: a stack has
  no repetition, so it never holds more nodes than the graph. The set \<open>on_stack\<close> of the code always
  holds the nodes of the stack.
\<close>

type_synonym search = "txn_id list \<Rightarrow> txn_id list \<Rightarrow> (txn_id list option \<times> txn_id list) option"

fun search_each :: "(txn_id \<Rightarrow> search) \<Rightarrow> txn_id list \<Rightarrow> search" where
  "search_each f [] stack vis = Some (None, vis)"
| "search_each f (n # ns) stack vis = (case f n stack vis of None \<Rightarrow> None
     | Some (Some c, vis) \<Rightarrow> Some (Some c, vis)
     | Some (None, vis) \<Rightarrow> search_each f ns stack vis)"

fun dfs :: "nat \<Rightarrow> (txn_id \<Rightarrow> txn_id list) \<Rightarrow> txn_id \<Rightarrow> search" where
  "dfs 0 g node stack vis = None"
| "dfs (Suc k) g node stack vis =
     (if node \<in> set stack then Some (Some (dropWhile (\<lambda>n. n \<noteq> node) stack), vis)
      else if node \<in> set vis then Some (None, vis)
      else search_each (dfs k g) (g node) (stack @ [node]) (node # vis))"

definition wait_nodes :: "txn_manager \<Rightarrow> txn_id list" where
  "wait_nodes tm = map fst (tm_wait tm) @ concat (map snd (tm_wait tm))"

definition detect_deadlock :: "txn_manager \<Rightarrow> txn_id list option option" where
  "detect_deadlock tm = map_option fst
     (search_each (dfs (length (wait_nodes tm) + 1) (wait_edges tm)) (bm_keys (tm_wait tm)) [] [])"

section \<open>Garbage collection and checkpoints\<close>

definition oldest_active_snapshot :: "txn_manager \<Rightarrow> timestamp" where
  "oldest_active_snapshot tm = foldl (\<lambda>oldest i. case txn_of tm i of None \<Rightarrow> oldest
     | Some t \<Rightarrow> if rv_snapshot (tx_view t) < oldest then rv_snapshot (tx_view t) else oldest) ts_inf (tm_active tm)"

definition gc_keeps :: "timestamp \<Rightarrow> row_version \<Rightarrow> bool" where
  "gc_keeps oldest v \<longleftrightarrow> \<not> v_committed v \<or> v_end v = ts_inf \<or> oldest \<le> v_end v"

definition garbage_collect :: "txn_manager \<Rightarrow> nat \<times> txn_manager" where
  "garbage_collect tm = (let oldest = oldest_active_snapshot tm;
     kept = map (\<lambda>(r, c). (r, c\<lparr>vc_versions := filter (gc_keeps oldest) (vc_versions c)\<rparr>)) (tm_chains tm);
     removed = sum_list (map (\<lambda>(r, c). length (vc_versions c) - length (filter (gc_keeps oldest) (vc_versions c))) (tm_chains tm)) in
     (removed, tm\<lparr>tm_chains := filter (\<lambda>(r, c). vc_versions c \<noteq> []) kept,
        tm_preds := filter (\<lambda>l. pl_txn l \<in> set (tm_active tm)) (tm_preds tm),
        tm_stats := (tm_stats tm)\<lparr>ct_gc_runs := ct_gc_runs (tm_stats tm) + 1,
          ct_gc_removed := ct_gc_removed (tm_stats tm) + of_nat removed\<rparr>\<rparr>))"

definition txn_checkpoint :: "nat txn_op" where
  "txn_checkpoint tm = (case wal_append 0 RtCheckpoint [] (tm_wal tm) of
       Ok (l, w) \<Rightarrow> (case (if 1 < l then truncate_before (l - 1) w else Ok w) of
           Ok w \<Rightarrow> (let (n, tm) = garbage_collect (tm\<lparr>tm_wal := w,
               tm_stats := (tm_stats tm)\<lparr>ct_checkpoints := ct_checkpoints (tm_stats tm) + 1\<rparr>\<rparr>) in (Ok n, tm))
         | Err e \<Rightarrow> (Err e, tm) | Panic \<Rightarrow> (Panic, tm) | Undef \<Rightarrow> (Undef, tm))
     | Err e \<Rightarrow> (Err e, tm) | Panic \<Rightarrow> (Panic, tm) | Undef \<Rightarrow> (Undef, tm))"

section \<open>Recovery\<close>

text \<open>One record of the first pass: the pending operations, the outcomes and the highest numbers seen.\<close>

record recovery =
  rc_begun :: "(txn_id, (rec_type \<times> u8 list) list) bmap"
  rc_committed :: "txn_id list"
  rc_aborted :: "txn_id list"
  rc_max_id :: u64
  rc_max_lsn :: u64

definition recovery_new :: recovery where
  "recovery_new = \<lparr>rc_begun = [], rc_committed = [], rc_aborted = [], rc_max_id = 0, rc_max_lsn = 0\<rparr>"

definition recover_record :: "wal_record \<Rightarrow> recovery \<Rightarrow> recovery" where
  "recover_record w rc = (let rc = rc\<lparr>rc_max_lsn := max (rc_max_lsn rc) (wr_lsn w), rc_max_id := max (rc_max_id rc) (wr_txn w)\<rparr> in
     case wr_type w of
       RtBegin \<Rightarrow> rc\<lparr>rc_begun := bm_insert (wr_txn w) [] (rc_begun rc)\<rparr>
     | RtCommit \<Rightarrow> rc\<lparr>rc_committed := bs_insert (wr_txn w) (rc_committed rc)\<rparr>
     | RtAbort \<Rightarrow> rc\<lparr>rc_aborted := bs_insert (wr_txn w) (rc_aborted rc)\<rparr>
     | RtCheckpoint \<Rightarrow> rc | RtSchema \<Rightarrow> rc
     | k \<Rightarrow> (case bm_get (rc_begun rc) (wr_txn w) of None \<Rightarrow> rc
         | Some ops \<Rightarrow> rc\<lparr>rc_begun := bm_insert (wr_txn w) (ops @ [(k, wr_payload w)]) (rc_begun rc)\<rparr>))"

definition install :: "timestamp \<Rightarrow> u64 \<Rightarrow> row_version \<Rightarrow> (u64, version_chain) bmap \<Rightarrow> (u64, version_chain) bmap" where
  "install ts r v cs = (let c = chain_of r cs in
     bm_insert r (push_head v (c\<lparr>vc_versions := close_current ts (vc_versions c)\<rparr>)) cs)"

definition replay_one :: "txn_id \<Rightarrow> timestamp \<Rightarrow> rec_type \<times> u8 list \<Rightarrow> (u64, version_chain) bmap \<Rightarrow> (u64, version_chain) bmap result" where
  "replay_one i ts op cs = (case op of (k, payload) \<Rightarrow>
     (if k = RtInsert then rbind (decode_insert_payload payload) (\<lambda>d. Ok (case d of None \<Rightarrow> cs
          | Some (r, vs) \<Rightarrow> install ts r (committed_current (case vs of [] \<Rightarrow> VNull | v # _ \<Rightarrow> v) ts i) cs))
      else if k = RtUpdate then Ok (case decode_update_payload payload of None \<Rightarrow> cs
          | Some (r, _, v) \<Rightarrow> install ts r (committed_current v ts i) cs)
      else if k = RtDelete then Ok (case decode_delete_payload payload of None \<Rightarrow> cs
          | Some r \<Rightarrow> install ts r ((committed_current VNull ts i)\<lparr>v_deleted := True\<rparr>) cs)
      else Ok cs))"

fun replay_ops :: "txn_id \<Rightarrow> timestamp \<Rightarrow> (rec_type \<times> u8 list) list \<Rightarrow> (u64, version_chain) bmap \<Rightarrow> (u64, version_chain) bmap result" where
  "replay_ops i ts [] cs = Ok cs"
| "replay_ops i ts (op # ops) cs = rbind (replay_one i ts op cs) (replay_ops i ts ops)"

fun replay_txns :: "recovery \<Rightarrow> (txn_id \<times> (rec_type \<times> u8 list) list) list \<Rightarrow> unit txn_op" where
  "replay_txns rc [] = sret ()"
| "replay_txns rc ((i, ops) # rest) =
     (if i \<in> set (rc_aborted rc) \<or> i \<notin> set (rc_committed rc) then replay_txns rc rest
      else sbind tick (\<lambda>ts. sbind (\<lambda>tm. case replay_ops i ts ops (tm_chains tm) of
          Ok cs \<Rightarrow> (Ok (), tm\<lparr>tm_chains := cs\<rparr>)
        | Err e \<Rightarrow> (Err e, tm) | Panic \<Rightarrow> (Panic, tm) | Undef \<Rightarrow> (Undef, tm)) (\<lambda>_. replay_txns rc rest)))"

definition txn_recover :: "unit txn_op" where
  "txn_recover tm = (let rc = fold recover_record (wal_records (tm_wal tm)) recovery_new in
     sbind (replay_txns rc (rc_begun rc)) (\<lambda>_ tm.
       if rc_max_id rc = - 1 \<or> rc_max_lsn rc = - 1 then (Panic, tm)
       else (Ok (), tm\<lparr>tm_next_id := max (tm_next_id tm) (rc_max_id rc + 1),
          tm_next_ts := max (tm_next_ts tm) (rc_max_lsn rc + 1)\<rparr>)) tm)"

end
