(* ===== verification/Visibility.thy ===== *)
theory Visibility
  imports Txns
begin

text \<open>
  What a read view sees of a chain, and what the changes of the transaction manager do to it. The
  committed versions of a chain hold disjoint intervals of time, so that a snapshot sees at most one
  of them whatever their order; closing a version, stamping an intent, and dropping an intent or a dead
  version are invisible to the snapshots they may not disturb.
\<close>

section \<open>Chains by row\<close>

lemma bm_get_map_values: "bm_get (map (\<lambda>(k, v). (k, f v)) m) k = map_option f (bm_get m k)"
  by (induction m) (auto simp: bm_get_def)

lemma bm_ok_map_values [simp]: "bm_ok (map (\<lambda>(k, v). (k, f v)) m) = bm_ok m"
proof -
  have "map fst (map (\<lambda>(k, v). (k, f v)) m) = map fst m" by (induction m) auto
  then show ?thesis by (simp only: bm_ok_def)
qed

lemma bm_ok_filter [simp]: "bm_ok m \<Longrightarrow> bm_ok (filter P m)"
  by (simp add: bm_ok_def sorted_wrt_map sorted_wrt_filter)

lemma bm_get_filter:
  assumes "bm_ok m"
  shows "bm_get (filter (\<lambda>(k, v). P v) m) k = (case bm_get m k of None \<Rightarrow> None | Some v \<Rightarrow> if P v then Some v else None)"
proof (cases "bm_get m k")
  case None
  then have "k \<notin> fst ` set (filter (\<lambda>(k, v). P v) m)" by (auto simp: bm_get_None_iff)
  then have "bm_get (filter (\<lambda>(k, v). P v) m) k = None" by (simp only: bm_get_None_iff not_False_eq_True)
  then show ?thesis using None by simp
next
  case (Some v)
  have "bm_get (filter (\<lambda>(k, v). P v) m) k = Some w \<longleftrightarrow> w = v \<and> P v" for w
    using Some assms by (auto simp: bm_get_Some_iff [OF bm_ok_filter [OF assms]] bm_get_Some_iff [OF assms, symmetric])
  then show ?thesis using Some by (cases "bm_get (filter (\<lambda>(k, v). P v) m) k") auto
qed

definition versions_at :: "(u64, version_chain) bmap \<Rightarrow> u64 \<Rightarrow> row_version list" where
  "versions_at cs r = (case bm_get cs r of None \<Rightarrow> [] | Some c \<Rightarrow> vc_versions c)"

lemma versions_at_insert [simp]: "versions_at (bm_insert r c cs) x = (if x = r then vc_versions c else versions_at cs x)"
  by (simp add: versions_at_def)

lemma versions_at_remove [simp]: "bm_ok cs \<Longrightarrow> versions_at (bm_remove r cs) x = (if x = r then [] else versions_at cs x)"
  by (simp add: versions_at_def)

lemma versions_at_chain_of [simp]: "vc_versions (chain_of r cs) = versions_at cs r"
  by (simp add: versions_at_def chain_of_def chain_empty_def split: option.split)

definition seen_in :: "read_view \<Rightarrow> row_version list \<Rightarrow> val option" where
  "seen_in rv vs = (case find (is_visible rv) vs of None \<Rightarrow> None | Some v \<Rightarrow> if v_deleted v then None else Some (v_value v))"

lemma view_row_seen: "view_row rv cs r = seen_in rv (versions_at cs r)"
  by (simp add: view_row_def seen_in_def versions_at_def visible_for_def split: option.split)

lemma chain_ops_at [simp]:
  "versions_at (finalize_write i ts r cs) x = (if x = r then finalize_versions i ts (versions_at cs r) else versions_at cs x)"
  "bm_ok cs \<Longrightarrow> versions_at (strip_writer_versions i r cs) x =
     (if x = r then filter (\<lambda>v. \<not> own_intent i v) (versions_at cs r) else versions_at cs x)"
  by (auto simp: finalize_write_def strip_writer_versions_def versions_at_def finalize_versions_def Let_def split: option.split)

lemma chain_ops_ok [simp]:
  "bm_ok cs \<Longrightarrow> bm_ok (finalize_write i ts r cs)" "bm_ok cs \<Longrightarrow> bm_ok (strip_writer_versions i r cs)"
  by (auto simp: finalize_write_def strip_writer_versions_def Let_def split: option.split)

text \<open>Committing or stripping a list of rows touches each of them once.\<close>

lemma finalize_all_at:
  "distinct rs \<Longrightarrow> versions_at (fold (finalize_write i ts) rs cs) x =
     (if x \<in> set rs then finalize_versions i ts (versions_at cs x) else versions_at cs x)"
  by (induction rs arbitrary: cs) auto

lemma strip_all_at:
  "bm_ok cs \<Longrightarrow> versions_at (fold (strip_writer_versions i) rs cs) x =
     (if x \<in> set rs then filter (\<lambda>v. \<not> own_intent i v) (versions_at cs x) else versions_at cs x)"
proof (induction rs arbitrary: cs)
  case (Cons r rs)
  then show ?case by (auto simp: filter_filter)
qed simp

lemma fold_chains_ok [simp]:
  "bm_ok cs \<Longrightarrow> bm_ok (fold (finalize_write i ts) rs cs)" "bm_ok cs \<Longrightarrow> bm_ok (fold (strip_writer_versions i) rs cs)"
  by (induction rs arbitrary: cs) auto

section \<open>Changes a view does not see\<close>

lemma update_first_find:
  assumes "\<And>x. x \<in> set xs \<Longrightarrow> q x \<Longrightarrow> (p (f x) \<longleftrightarrow> p x) \<and> (p x \<longrightarrow> g (f x) = g x)"
  shows "map_option g (find p (update_first q f xs)) = map_option g (find p xs)"
  using assms by (induction xs) auto

lemma find_remove_first:
  assumes "\<And>x. x \<in> set xs \<Longrightarrow> q x \<Longrightarrow> \<not> p x"
  shows "find p (remove_first q xs) = find p xs"
  using assms by (induction xs) auto

lemma find_filter:
  assumes "\<And>x. x \<in> set xs \<Longrightarrow> p x \<Longrightarrow> q x"
  shows "find p (filter q xs) = find p xs"
  using assms by (induction xs) auto

text \<open>The part of a version a reader is given.\<close>

definition given :: "row_version \<Rightarrow> val option" where
  "given v = (if v_deleted v then None else Some (v_value v))"

lemma seen_in_given: "seen_in rv vs = Option.bind (find (is_visible rv) vs) given"
  by (simp add: seen_in_def given_def split: option.split)

lemma seen_in_map: "map_option given (find (is_visible rv) xs) = map_option given (find (is_visible rv) ys) \<Longrightarrow> seen_in rv xs = seen_in rv ys"
  by (cases "find (is_visible rv) xs"; cases "find (is_visible rv) ys") (auto simp: seen_in_given)

text \<open>A view that is not dirty and belongs to someone else does not see an intent.\<close>

definition snapshot_view :: "read_view \<Rightarrow> bool" where
  "snapshot_view rv \<longleftrightarrow> rv_isolation rv \<noteq> ReadUncommitted"

lemma foreign_intent_hidden:
  "snapshot_view rv \<Longrightarrow> rv_reader rv \<noteq> i \<Longrightarrow> own_intent i v \<Longrightarrow> \<not> is_visible rv v"
  by (auto simp: is_visible_def own_intent_def snapshot_view_def)

lemma seen_push:
  assumes "snapshot_view rv" and "rv_reader rv \<noteq> i" and "own_intent i v"
  shows "seen_in rv (v # vs) = seen_in rv vs"
  using foreign_intent_hidden [OF assms] by (simp add: seen_in_def)

lemma seen_strip:
  assumes "snapshot_view rv" and "rv_reader rv \<noteq> i"
  shows "seen_in rv (filter (\<lambda>v. \<not> own_intent i v) vs) = seen_in rv vs"
proof -
  have "find (is_visible rv) (filter (\<lambda>v. \<not> own_intent i v) vs) = find (is_visible rv) vs"
    by (rule find_filter) (use foreign_intent_hidden [OF assms] in blast)
  then show ?thesis by (simp add: seen_in_def)
qed

lemma seen_undo:
  assumes "snapshot_view rv" and "rv_reader rv \<noteq> i"
  shows "seen_in rv (remove_first (own_intent i) vs) = seen_in rv vs"
proof -
  have "find (is_visible rv) (remove_first (own_intent i) vs) = find (is_visible rv) vs"
    by (rule find_remove_first) (use foreign_intent_hidden [OF assms] in blast)
  then show ?thesis by (simp add: seen_in_def)
qed

text \<open>A commit later than the snapshot changes nothing for it.\<close>

lemma seen_finalize:
  assumes "snapshot_view rv" and "rv_reader rv \<noteq> i" and late: "rv_snapshot rv < ts" and fin: "ts < ts_inf"
  shows "seen_in rv (finalize_versions i ts vs) = seen_in rv vs"
proof (rule seen_in_map)
  have close: "map_option given (find (is_visible rv) (close_current ts vs)) = map_option given (find (is_visible rv) vs)"
    unfolding close_current_def
    by (rule update_first_find) (use late fin in \<open>auto simp: is_current_def is_visible_def given_def\<close>)
  have stamped: "map_option given (find (is_visible rv) (update_first (own_intent i) (stamp ts) ws)) = map_option given (find (is_visible rv) ws)" for ws
    by (rule update_first_find) (use late foreign_intent_hidden [OF assms(1,2)] in \<open>auto simp: is_visible_def stamp_def\<close>)
  show "map_option given (find (is_visible rv) (finalize_versions i ts vs)) = map_option given (find (is_visible rv) vs)"
    using close stamped by (simp add: finalize_versions_def)
qed

text \<open>Collecting what died before the snapshot changes nothing for it.\<close>

lemma seen_collect:
  assumes "oldest \<le> rv_snapshot rv"
  shows "seen_in rv (filter (gc_keeps oldest) vs) = seen_in rv vs"
proof -
  have "find (is_visible rv) (filter (gc_keeps oldest) vs) = find (is_visible rv) vs"
    by (rule find_filter) (use assms in \<open>auto simp: is_visible_def gc_keeps_def split: if_splits\<close>)
  then show ?thesis by (simp add: seen_in_def)
qed

section \<open>Disjoint intervals\<close>

definition apart :: "row_version \<Rightarrow> row_version \<Rightarrow> bool" where
  "apart a b \<longleftrightarrow> v_end a \<le> v_begin b \<or> v_end b \<le> v_begin a"

definition version_ok :: "timestamp \<Rightarrow> txn_id \<Rightarrow> row_version \<Rightarrow> bool" where
  "version_ok now next v \<longleftrightarrow> v_writer v < next \<and>
     (v_committed v \<longrightarrow> v_begin v \<le> v_end v \<and> v_begin v < now \<and> (v_end v = ts_inf \<or> v_end v < now))"

definition versions_ok :: "timestamp \<Rightarrow> txn_id \<Rightarrow> row_version list \<Rightarrow> bool" where
  "versions_ok now next vs \<longleftrightarrow> (\<forall>v \<in> set vs. version_ok now next v) \<and> sorted_wrt apart (filter v_committed vs)"

lemma versions_ok_Nil [simp]: "versions_ok now next []"
  by (simp add: versions_ok_def)

lemma versions_ok_later: "versions_ok now next vs \<Longrightarrow> now \<le> now' \<Longrightarrow> next \<le> next' \<Longrightarrow> versions_ok now' next' vs"
  unfolding versions_ok_def version_ok_def by (meson order_less_le_trans)

lemma versions_ok_push: "versions_ok now next vs \<Longrightarrow> own_intent i v \<Longrightarrow> i < next \<Longrightarrow> versions_ok now next (v # vs)"
  by (auto simp: versions_ok_def version_ok_def own_intent_def)

lemma versions_ok_filter: "versions_ok now next vs \<Longrightarrow> versions_ok now next (filter q vs)"
proof -
  assume "versions_ok now next vs"
  then show ?thesis
    using sorted_wrt_filter [of apart "filter v_committed vs" q]
    by (auto simp: versions_ok_def filter_filter conj_commute)
qed

lemma remove_first_set: "set (remove_first q xs) \<subseteq> set xs"
  by (induction xs) auto

lemma remove_first_committed: "filter v_committed (remove_first (own_intent i) vs) = filter v_committed vs"
  by (induction vs) (auto simp: own_intent_def)

lemma versions_ok_undo: "versions_ok now next vs \<Longrightarrow> versions_ok now next (remove_first (own_intent i) vs)"
  using remove_first_set [of "own_intent i" vs] by (auto simp: versions_ok_def remove_first_committed)


section \<open>The chain after a commit\<close>

lemma apart_sym: "apart a b \<longleftrightarrow> apart b a"
  by (auto simp: apart_def)

lemma ts_step: "now < ts_inf \<Longrightarrow> now < now + 1 \<and> (x \<le> now \<longleftrightarrow> x < now + 1)" for now :: u64
proof -
  assume "now < ts_inf"
  then have "now \<noteq> - 1" by (auto simp: ts_inf_def)
  then show ?thesis using u64_succ [of now] by (auto simp: word_le_nat_alt word_less_nat_alt)
qed

lemma version_ok_end: "version_ok now next v \<Longrightarrow> v_committed v \<Longrightarrow> \<not> is_current v \<Longrightarrow> v_end v < now"
  by (auto simp: version_ok_def is_current_def)

text \<open>There is at most one current version, so that closing the first one closes all.\<close>

lemma one_current:
  assumes "versions_ok now next (v # vs)" and "is_current v" and "now \<le> ts_inf" and "w \<in> set vs"
  shows "\<not> is_current w"
proof
  assume w: "is_current w"
  then have "w \<in> set (filter v_committed vs)" using assms(4) by (simp add: is_current_def)
  moreover have "v_committed v" using assms(2) by (simp add: is_current_def)
  ultimately have "apart v w" using assms(1) by (auto simp: versions_ok_def)
  moreover have "v_begin v < now" "v_begin w < now"
    using assms(1,2,4) w by (auto simp: versions_ok_def version_ok_def is_current_def)
  ultimately show False using assms(2,3) w by (auto simp: apart_def is_current_def)
qed

lemma versions_ok_tl: "versions_ok now next (v # vs) \<Longrightarrow> versions_ok now next vs"
  by (auto simp: versions_ok_def split: if_splits)

definition closed :: "timestamp \<Rightarrow> row_version \<Rightarrow> row_version" where
  "closed ts v = (if is_current v then v\<lparr>v_end := ts\<rparr> else v)"

lemma close_current_map:
  assumes "versions_ok now next vs" and "now \<le> ts_inf"
  shows "close_current ts vs = map (closed ts) vs"
  using assms(1)
proof (induction vs)
  case (Cons v vs)
  show ?case
  proof (cases "is_current v")
    case True
    then have "map (closed ts) vs = vs"
      using one_current [OF Cons.prems True assms(2)] by (auto simp: closed_def intro: map_idI)
    then show ?thesis using True by (simp add: close_current_def) (simp add: closed_def)
  next
    case False
    then show ?thesis using Cons.IH versions_ok_tl [OF Cons.prems] by (simp add: close_current_def closed_def)
  qed
qed (simp add: close_current_def)

lemma closed_fields [simp]:
  "v_committed (closed ts v) = v_committed v" "v_begin (closed ts v) = v_begin v" "v_writer (closed ts v) = v_writer v"
  "v_value (closed ts v) = v_value v" "v_deleted (closed ts v) = v_deleted v" "own_intent i (closed ts v) = own_intent i v"
  by (simp_all add: closed_def own_intent_def)

lemma closed_end: "version_ok now next v \<Longrightarrow> v_committed v \<Longrightarrow> now \<le> ts_inf \<Longrightarrow> v_end (closed now v) \<le> now \<and> v_end (closed now v) \<le> v_end v"
  by (auto simp: closed_def is_current_def version_ok_def)

lemma closed_ok:
  assumes "versions_ok now next vs" and "now < ts_inf"
  shows "\<forall>v \<in> set (map (closed now) vs). version_ok (now + 1) next v \<and> (v_committed v \<longrightarrow> v_end v \<le> now)"
    and "sorted_wrt apart (filter v_committed (map (closed now) vs))"
proof -
  have ok: "version_ok now next v" if "v \<in> set vs" for v using assms(1) that by (simp add: versions_ok_def)
  show "\<forall>v \<in> set (map (closed now) vs). version_ok (now + 1) next v \<and> (v_committed v \<longrightarrow> v_end v \<le> now)"
  proof
    fix w assume "w \<in> set (map (closed now) vs)"
    then obtain v where v: "w = closed now v" "version_ok now next v" using ok by auto
    moreover have "x < now + 1" if "x < now" for x using that ts_step [OF assms(2)] by (meson less_trans)
    ultimately show "version_ok (now + 1) next w \<and> (v_committed w \<longrightarrow> v_end w \<le> now)"
      using assms(2) ts_step [OF assms(2)] by (auto simp: version_ok_def closed_def is_current_def less_imp_le)
  qed
  have "filter v_committed (map (closed now) vs) = map (closed now) (filter v_committed vs)"
    by (simp add: filter_map comp_def)
  moreover have "apart (closed now a) (closed now b)" if "a \<in> set (filter v_committed vs)" "b \<in> set (filter v_committed vs)" "apart a b" for a b
  proof -
    have "v_end (closed now a) \<le> v_end a" "v_end (closed now b) \<le> v_end b"
      using that closed_end [OF ok] assms(2) by auto
    then show ?thesis using that(3) unfolding apart_def closed_fields by (meson order_trans)
  qed
  moreover have "sorted_wrt apart (filter v_committed vs)" using assms(1) by (simp add: versions_ok_def)
  ultimately show "sorted_wrt apart (filter v_committed (map (closed now) vs))"
    by (simp only: sorted_wrt_map) (rule sorted_wrt_mono_rel)
qed

lemma update_first_set: "set (update_first q f xs) \<subseteq> set xs \<union> f ` {x \<in> set xs. q x}"
  by (induction xs) auto

lemma stamp_sorted:
  assumes "\<forall>v \<in> set vs. v_committed v \<longrightarrow> v_end v \<le> now" and "sorted_wrt apart (filter v_committed vs)"
  shows "sorted_wrt apart (filter v_committed (update_first (own_intent i) (stamp now) vs))"
  using assms
proof (induction vs)
  case (Cons v vs)
  have new: "apart a (stamp now b)" if "v_end a \<le> now" for a b using that by (simp add: apart_def stamp_def)
  show ?case
  proof (cases "own_intent i v")
    case True
    then show ?thesis using Cons.prems new apart_sym by (auto simp: own_intent_def stamp_def apart_def)
  next
    case False
    have "apart v w" if "v_committed v" "v_committed w" "w \<in> set (update_first (own_intent i) (stamp now) vs)" for w
      using that update_first_set [of "own_intent i" "stamp now" vs] Cons.prems new by auto
    moreover have "sorted_wrt apart (filter v_committed (update_first (own_intent i) (stamp now) vs))"
      using Cons by (simp split: if_splits)
    ultimately show ?thesis using False by auto
  qed
qed simp

lemma versions_ok_finalize:
  assumes ok: "versions_ok now next vs" and fin: "now < ts_inf"
  shows "versions_ok (now + 1) next (finalize_versions i now vs)"
proof (cases "\<exists>v \<in> set vs. own_intent i v")
  case True
  let ?ws = "map (closed now) vs"
  have cl: "close_current now vs = ?ws" using close_current_map [OF ok] fin by simp
  note ws = closed_ok [OF ok fin]
  have "version_ok (now + 1) next v" if "v \<in> set (update_first (own_intent i) (stamp now) ?ws)" for v
    using that update_first_set [of "own_intent i" "stamp now" ?ws] ws(1) ts_step [OF fin] fin
    by (auto simp: version_ok_def stamp_def less_imp_le)
  then show ?thesis using True stamp_sorted [OF _ ws(2), of now i] ws(1) by (simp add: finalize_versions_def cl versions_ok_def)
next
  case False
  then show ?thesis using versions_ok_later [OF ok, of "now + 1"] ts_step [OF fin] by (simp add: finalize_versions_def less_imp_le)
qed

text \<open>After a commit the current version of a written row is the stamped newest intent.\<close>

lemma find_update_first:
  assumes "find q xs = Some x" and "p (f x)" and "\<And>y. y \<in> set xs \<Longrightarrow> \<not> p y"
  shows "find p (update_first q f xs) = Some (f x)"
  using assms by (induction xs) (auto split: if_splits)

lemma finalize_current:
  assumes ok: "versions_ok now next vs" and fin: "now < ts_inf" and v: "find (own_intent i) vs = Some v"
  shows "find is_current (finalize_versions i now vs) = Some (stamp now v)"
proof -
  let ?ws = "map (closed now) vs"
  have cl: "close_current now vs = ?ws" using close_current_map [OF ok] fin by simp
  have "find (own_intent i) ?ws = map_option (closed now) (find (own_intent i) vs)"
    by (induction vs) auto
  moreover have "closed now v = v"
    using v by (auto simp: find_Some_iff own_intent_def closed_def is_current_def)
  ultimately have w: "find (own_intent i) ?ws = Some v" using v by simp
  have "is_current (stamp now v)" by (simp add: is_current_def stamp_def)
  moreover have "\<not> is_current y" if "y \<in> set ?ws" for y
    using closed_ok(1) [OF ok fin] that fin by (auto simp: is_current_def)
  ultimately have "find is_current (update_first (own_intent i) (stamp now) ?ws) = Some (stamp now v)"
    using find_update_first [OF w] by blast
  moreover have "\<exists>x \<in> set vs. own_intent i x" using v by (auto simp: find_Some_iff)
  ultimately show ?thesis by (simp add: finalize_versions_def cl)
qed

text \<open>A fresh view sees the current version and no other committed one.\<close>

lemma seen_current:
  assumes ok: "versions_ok now next vs" and rv: "snapshot_view rv" "now \<le> rv_snapshot rv" "rv_snapshot rv < ts_inf"
    and none: "\<forall>v \<in> set vs. \<not> own_intent (rv_reader rv) v" "\<forall>v \<in> set vs. v_committed v \<longrightarrow> v_writer v \<notin> set (rv_active rv)"
  shows "seen_in rv vs = Option.bind (find is_current vs) given"
proof -
  have "is_visible rv v \<longleftrightarrow> is_current v" if "v \<in> set vs" for v
  proof -
    have o: "version_ok now next v" using ok that by (simp add: versions_ok_def)
    have n: "\<not> (v_writer v = rv_reader rv \<and> \<not> v_committed v)" "v_committed v \<longrightarrow> v_writer v \<notin> set (rv_active rv)"
      using none that by (auto simp: own_intent_def)
    show ?thesis
    proof (cases "v_committed v")
      case True
      then have "v_begin v < now" "v_end v = ts_inf \<or> v_end v < now" using o by (auto simp: version_ok_def)
      then show ?thesis using True n rv by (auto simp: is_visible_def is_current_def)
    next
      case False
      then show ?thesis using n rv(1) by (auto simp: is_visible_def is_current_def snapshot_view_def)
    qed
  qed
  then have "find (is_visible rv) vs = find is_current vs" by (rule find_cong [OF refl])
  then show ?thesis by (simp add: seen_in_given)
qed

end
