(* ===== verification/TxnRuns.thy ===== *)
theory TxnRuns
  imports Visibility
begin

text \<open>
  The transaction manager as a state machine over its calls, and the invariant every call keeps, also
  when it returns an error. The invariant can carry snapshots: what live transactions at
  repeatable-read or serializable isolation see of every row. Calls for other transactions keep them,
  which is snapshot isolation. The proofs use triples over the stateful operations.
\<close>

section \<open>Triples\<close>

definition triple :: "('s \<Rightarrow> bool) \<Rightarrow> ('s, 'e, 'a) op \<Rightarrow> ('a \<Rightarrow> 's \<Rightarrow> bool) \<Rightarrow> ('s \<Rightarrow> bool) \<Rightarrow> bool" where
  "triple P m Q E \<longleftrightarrow> (\<forall>s. P s \<longrightarrow> (case m s of (Ok a, s') \<Rightarrow> Q a s' | (Err e, s') \<Rightarrow> E s' | _ \<Rightarrow> True))"

lemma tripleI: "(\<And>s. P s \<Longrightarrow> case m s of (Ok a, s') \<Rightarrow> Q a s' | (Err e, s') \<Rightarrow> E s' | _ \<Rightarrow> True) \<Longrightarrow> triple P m Q E"
  by (simp add: triple_def)

lemma tripleD: "triple P m Q E \<Longrightarrow> P s \<Longrightarrow> case m s of (Ok a, s') \<Rightarrow> Q a s' | (Err e, s') \<Rightarrow> E s' | _ \<Rightarrow> True"
  by (simp add: triple_def)

lemma triple_Ok: "triple P m Q E \<Longrightarrow> P s \<Longrightarrow> m s = (Ok a, s') \<Longrightarrow> Q a s'"
  using tripleD [of P m Q E s] by simp

lemma triple_Err: "triple P m Q E \<Longrightarrow> P s \<Longrightarrow> m s = (Err e, s') \<Longrightarrow> E s'"
  using tripleD [of P m Q E s] by simp

lemma triple_bind:
  assumes "triple P m Q E" and "\<And>a. triple (Q a) (f a) R E"
  shows "triple P (sbind m f) R E"
proof (rule tripleI)
  fix s assume "P s"
  obtain r s' where m: "m s = (r, s')" by (cases "m s")
  show "case sbind m f s of (Ok a, s') \<Rightarrow> R a s' | (Err e, s') \<Rightarrow> E s' | _ \<Rightarrow> True"
  proof (cases r)
    case (Ok a)
    then have "Q a s'" using triple_Ok [OF assms(1) \<open>P s\<close>] m by blast
    then show ?thesis using tripleD [OF assms(2)] by (simp add: sbind_def m Ok)
  next
    case (Err e)
    then have "E s'" using triple_Err [OF assms(1) \<open>P s\<close>] m by blast
    then show ?thesis by (simp add: sbind_def m Err)
  qed (simp_all add: sbind_def m)
qed

lemma triple_weaken:
  "triple P m Q E \<Longrightarrow> (\<And>s. P' s \<Longrightarrow> P s) \<Longrightarrow> (\<And>a s. Q a s \<Longrightarrow> Q' a s) \<Longrightarrow> (\<And>s. E s \<Longrightarrow> E' s) \<Longrightarrow> triple P' m Q' E'"
  unfolding triple_def by (force split: prod.split res.split)

lemma triple_ret: "(\<And>s. P s \<Longrightarrow> Q (g s) (h s)) \<Longrightarrow> triple P (\<lambda>s. (Ok (g s), h s)) Q E"
  by (simp add: triple_def)

lemma triple_sret: "(\<And>s. P s \<Longrightarrow> Q a s) \<Longrightarrow> triple P (sret a) Q E"
  by (simp add: triple_def)

lemma triple_err: "(\<And>s. P s \<Longrightarrow> E (h s)) \<Longrightarrow> triple P (\<lambda>s. (Err e, h s)) Q E"
  by (simp add: triple_def)

section \<open>The invariant\<close>

definition writes_ok :: "transaction \<Rightarrow> bool" where
  "writes_ok t \<longleftrightarrow> bs_ok (tx_writes t) \<and> (\<forall>s \<in> set (tx_savepoints t). bs_ok (sp_writes s))"

definition txn_wf :: "txn_manager \<Rightarrow> txn_id \<Rightarrow> transaction \<Rightarrow> bool" where
  "txn_wf tm i t \<longleftrightarrow> rv_reader (tx_view t) = i \<and> rv_isolation (tx_view t) = tx_isolation t \<and>
     tx_begin t < tm_next_ts tm \<and> (tx_isolation t \<noteq> ReadCommitted \<longrightarrow> rv_snapshot (tx_view t) = tx_begin t) \<and>
     i < tm_next_id tm \<and> (tx_live t \<longrightarrow> i \<in> set (tm_active tm)) \<and> writes_ok t"

text \<open>Whoever was active when a fixed view was taken has committed, if at all, after its snapshot.\<close>

definition hides :: "(u64, version_chain) bmap \<Rightarrow> transaction \<Rightarrow> bool" where
  "hides cs t \<longleftrightarrow> (tx_isolation t \<noteq> ReadCommitted \<longrightarrow> (\<forall>r. \<forall>v \<in> set (versions_at cs r).
     v_committed v \<and> v_writer v \<in> set (rv_active (tx_view t)) \<longrightarrow> rv_snapshot (tx_view t) < v_begin v))"

definition txns_ok :: "txn_manager \<Rightarrow> bool" where
  "txns_ok tm \<longleftrightarrow> bm_ok (tm_registry tm) \<and> (\<forall>i t. txn_of tm i = Some t \<longrightarrow> txn_wf tm i t \<and> hides (tm_chains tm) t)"

definition chains_ok :: "txn_manager \<Rightarrow> bool" where
  "chains_ok tm \<longleftrightarrow> bm_ok (tm_chains tm) \<and>
     (\<forall>r. versions_ok (tm_next_ts tm) (tm_next_id tm) (versions_at (tm_chains tm) r))"

text \<open>No active transaction has a committed version; during a commit that holds of the others.\<close>

definition active_ok :: "txn_id set \<Rightarrow> txn_manager \<Rightarrow> bool" where
  "active_ok X tm \<longleftrightarrow> bs_ok (tm_active tm) \<and>
     (\<forall>r. \<forall>v \<in> set (versions_at (tm_chains tm) r). v_committed v \<longrightarrow> v_writer v \<notin> set (tm_active tm) - X)"

definition lock_ok :: "lock_entry \<Rightarrow> bool" where
  "lock_ok e \<longleftrightarrow> bs_ok (lk_shared e) \<and> (lk_exclusive e \<noteq> None \<longrightarrow> lk_shared e = [])"

definition locks_ok :: "txn_manager \<Rightarrow> bool" where
  "locks_ok tm \<longleftrightarrow> bm_ok (tm_locks tm) \<and> (\<forall>r e. bm_get (tm_locks tm) r = Some e \<longrightarrow> lock_ok e) \<and> bm_ok (tm_wait tm)"

definition tm_ok :: "txn_id set \<Rightarrow> txn_manager \<Rightarrow> bool" where
  "tm_ok X tm \<longleftrightarrow> txns_ok tm \<and> chains_ok tm \<and> active_ok X tm \<and> locks_ok tm"

text \<open>A snapshot: a live transaction of fixed view, and what it sees of every row.\<close>

type_synonym snapshot = "txn_id \<times> transaction \<times> (u64 \<Rightarrow> val option)"

definition fixed_view :: "transaction \<Rightarrow> bool" where
  "fixed_view t \<longleftrightarrow> tx_isolation t = RepeatableRead \<or> tx_isolation t = Serializable"

definition snap :: "snapshot \<Rightarrow> txn_manager \<Rightarrow> bool" where
  "snap x tm \<longleftrightarrow> (case x of (i, t, g) \<Rightarrow> txn_of tm i = Some t \<and> tx_live t \<and> fixed_view t \<and>
     (\<forall>r. view_row (tx_view t) (tm_chains tm) r = g r))"

definition good :: "txn_id set \<Rightarrow> snapshot set \<Rightarrow> txn_manager \<Rightarrow> bool" where
  "good X S tm \<longleftrightarrow> tm_ok X tm \<and> (\<forall>x \<in> S. snap x tm)"

definition foreign :: "txn_id \<Rightarrow> snapshot set \<Rightarrow> bool" where
  "foreign j S \<longleftrightarrow> (\<forall>(i, t, g) \<in> S. i \<noteq> j)"

definition known :: "(transaction \<Rightarrow> bool) \<Rightarrow> txn_manager \<Rightarrow> txn_id \<Rightarrow> bool" where
  "known P tm i \<longleftrightarrow> (\<exists>t. txn_of tm i = Some t \<and> P t)"

lemma good_new: "good {} {} (manager_with_wal w)"
  by (simp add: good_def tm_ok_def manager_with_wal_def txns_ok_def txn_of_def chains_ok_def versions_at_def
      active_ok_def bs_ok_def locks_ok_def)

text \<open>Fields the invariant does not read, and changes of the locks.\<close>

definition same_core :: "txn_manager \<Rightarrow> txn_manager \<Rightarrow> bool" where
  "same_core tm tm' \<longleftrightarrow> tm_registry tm' = tm_registry tm \<and> tm_active tm' = tm_active tm \<and>
     tm_chains tm' = tm_chains tm \<and> tm_next_ts tm' = tm_next_ts tm \<and> tm_next_id tm' = tm_next_id tm"

lemma same_core_simps [simp]:
  "same_core tm tm" "same_core tm (tm'\<lparr>tm_wal := w\<rparr>) = same_core tm tm'" "same_core tm (tm'\<lparr>tm_stats := x\<rparr>) = same_core tm tm'"
  "same_core tm (tm'\<lparr>tm_preds := ps\<rparr>) = same_core tm tm'" "same_core tm (tm'\<lparr>tm_locks := ls\<rparr>) = same_core tm tm'"
  "same_core tm (tm'\<lparr>tm_wait := ws\<rparr>) = same_core tm tm'"
  by (simp_all add: same_core_def)

lemma same_core_txn: "same_core tm tm' \<Longrightarrow> txn_of tm' = txn_of tm"
  by (simp add: same_core_def txn_of_def fun_eq_iff)

lemma same_core_trans: "same_core tm tm' \<Longrightarrow> same_core tm' tm'' \<Longrightarrow> same_core tm tm''"
  by (simp add: same_core_def)

lemma good_same_core:
  assumes g: "good X S tm" and c: "same_core tm tm'" and l: "locks_ok tm'"
  shows "good X S tm'"
proof -
  have "txn_wf tm' i t = txn_wf tm i t" for i t using c by (simp add: txn_wf_def same_core_def)
  then show ?thesis
    using g c l same_core_txn [OF c]
    unfolding good_def tm_ok_def txns_ok_def chains_ok_def active_ok_def snap_def same_core_def by simp
qed

lemma known_same_core: "same_core tm tm' \<Longrightarrow> known P tm' i = known P tm i"
  by (simp add: known_def same_core_txn)

lemma good_locks: "good X S tm \<Longrightarrow> locks_ok tm"
  by (simp add: good_def tm_ok_def)

section \<open>Changing one transaction\<close>

definition keeps :: "transaction \<Rightarrow> transaction \<Rightarrow> bool" where
  "keeps t t' \<longleftrightarrow> tx_view t' = tx_view t \<and> tx_isolation t' = tx_isolation t \<and> tx_begin t' = tx_begin t \<and>
     (tx_live t' \<longrightarrow> tx_live t) \<and> (writes_ok t \<longrightarrow> writes_ok t')"

lemma txn_of_upd [simp]:
  "txn_of (tm\<lparr>tm_registry := bm_insert j t (tm_registry tm)\<rparr>) = (txn_of tm)(j \<mapsto> t)"
  by (simp add: txn_of_def fun_eq_iff)

lemma good_update:
  assumes g: "good X S tm" and f: "foreign j S" and t': "txn_wf tm j t'" "hides (tm_chains tm) t'"
  shows "good X S (tm\<lparr>tm_registry := bm_insert j t' (tm_registry tm)\<rparr>)"
proof -
  let ?tm = "tm\<lparr>tm_registry := bm_insert j t' (tm_registry tm)\<rparr>"
  have wf: "txn_wf ?tm i t = txn_wf tm i t" for i t by (simp add: txn_wf_def)
  have "txns_ok ?tm" using g t' by (simp add: txns_ok_def good_def tm_ok_def wf)
  moreover have "chains_ok ?tm" "active_ok X ?tm" "locks_ok ?tm"
    using g by (simp_all add: good_def tm_ok_def chains_ok_def active_ok_def locks_ok_def)
  moreover have "snap x ?tm" if x: "x \<in> S" for x
  proof -
    obtain i t v where e: "x = (i, t, v)" by (cases x)
    then have "i \<noteq> j" using f x by (auto simp: foreign_def)
    then show ?thesis using g x by (auto simp: e good_def snap_def)
  qed
  ultimately show ?thesis by (simp add: good_def tm_ok_def)
qed

lemma good_wf: "good X S tm \<Longrightarrow> txn_of tm i = Some t \<Longrightarrow> txn_wf tm i t \<and> hides (tm_chains tm) t"
  by (simp add: good_def tm_ok_def txns_ok_def)

lemma keeps_wf: "keeps t t' \<Longrightarrow> txn_wf tm i t \<Longrightarrow> txn_wf tm i t'"
  by (auto simp: keeps_def txn_wf_def)

lemma keeps_hides: "keeps t t' \<Longrightarrow> hides cs t' = hides cs t"
  by (simp add: keeps_def hides_def)

lemma t_modify:
  assumes "foreign j S" and "\<And>t. P t \<Longrightarrow> keeps t (f t) \<and> Q (f t)"
  shows "triple (\<lambda>tm. good X S tm \<and> known P tm j) (modify_txn j f) (\<lambda>_ tm. good X S tm \<and> known Q tm j) E"
proof (rule tripleI)
  fix tm assume a: "good X S tm \<and> known P tm j"
  then obtain t where t: "txn_of tm j = Some t" "P t" by (auto simp: known_def)
  have k: "keeps t (f t)" "Q (f t)" using assms(2) [OF t(2)] by auto
  have "txn_wf tm j (f t)" "hides (tm_chains tm) (f t)"
    using good_wf [of X S tm j t] a t(1) keeps_wf [OF k(1)] keeps_hides [OF k(1)] by auto
  then have "good X S (tm\<lparr>tm_registry := bm_insert j (f t) (tm_registry tm)\<rparr>)" using good_update [OF _ assms(1)] a by blast
  then show "case modify_txn j f tm of (Ok x, tm) \<Rightarrow> good X S tm \<and> known Q tm j | (Err e, tm) \<Rightarrow> E tm | _ \<Rightarrow> True"
    using t k by (simp add: modify_txn_def known_def)
qed

lemma t_log:
  assumes "foreign j S" and "\<And>t l. P t \<Longrightarrow> P (t\<lparr>tx_lsn := l\<rparr>)"
  shows "triple (\<lambda>tm. good X S tm \<and> known P tm j) (txn_log j k p) (\<lambda>_ tm. good X S tm \<and> known P tm j) (good X S)"
proof (rule tripleI)
  fix tm assume a: "good X S tm \<and> known P tm j"
  have keep: "keeps t (t\<lparr>tx_lsn := l\<rparr>)" for t l by (simp add: keeps_def writes_ok_def tx_live_def)
  have m: "triple (\<lambda>tm. good X S tm \<and> known P tm j) (modify_txn j (\<lambda>t. t\<lparr>tx_lsn := l\<rparr>)) (\<lambda>_ tm. good X S tm \<and> known P tm j) (good X S)" for l
    by (rule t_modify [OF assms(1)]) (simp add: keep assms(2))
  show "case txn_log j k p tm of (Ok x, tm) \<Rightarrow> good X S tm \<and> known P tm j | (Err e, tm) \<Rightarrow> good X S tm | _ \<Rightarrow> True"
  proof (cases "wal_append j k p (tm_wal tm)")
    case (Ok lw)
    obtain l w where lw: "lw = (l, w)" by (cases lw)
    have c: "same_core tm (tm\<lparr>tm_wal := w\<rparr>)" by simp
    have "locks_ok (tm\<lparr>tm_wal := w\<rparr>)" using good_locks [of X S tm] a by (simp add: locks_ok_def)
    then have "good X S (tm\<lparr>tm_wal := w\<rparr>) \<and> known P (tm\<lparr>tm_wal := w\<rparr>) j"
      using good_same_core [OF _ c] known_same_core [OF c] a by blast
    then show ?thesis using tripleD [OF m [of l]] by (simp add: txn_log_def Ok lw)
  qed (use a in \<open>simp_all add: txn_log_def\<close>)
qed

lemma t_require:
  "triple (good X S) (require_live j) (\<lambda>_ tm. good X S tm \<and> known tx_live tm j) (good X S)"
  by (rule tripleI) (auto simp: require_live_def known_def split: option.split)

section \<open>Locks\<close>

lemma bs_insert_all [simp]: "bs_ok xs \<Longrightarrow> bs_ok (fold bs_insert ys xs)" "set (fold bs_insert ys xs) = set xs \<union> set ys"
  by (induction ys arbitrary: xs) auto

lemma lock_default_ok [simp]: "lock_ok lock_default"
  by (simp add: lock_ok_def lock_default_def bs_ok_def)

lemma lock_of_ok: "locks_ok tm \<Longrightarrow> lock_ok (lock_of tm r)"
  by (auto simp: locks_ok_def lock_of_def split: option.split)

lemma locks_ok_ops [simp]:
  "locks_ok tm \<Longrightarrow> lock_ok e \<Longrightarrow> locks_ok (set_lock r e tm)" "locks_ok tm \<Longrightarrow> locks_ok (wait_remove i tm)"
  "locks_ok tm \<Longrightarrow> locks_ok (wait_add i hs tm)" "locks_ok (tm\<lparr>tm_stats := x\<rparr>) = locks_ok tm"
  "locks_ok tm \<Longrightarrow> locks_ok (tm\<lparr>tm_locks := bm_remove r (tm_locks tm)\<rparr>)"
  "locks_ok tm \<Longrightarrow> lock_ok e \<Longrightarrow> locks_ok (tm\<lparr>tm_locks := bm_insert r e (bm_remove r (tm_locks tm))\<rparr>)"
  "locks_ok tm \<Longrightarrow> lock_ok e \<Longrightarrow> locks_ok (tm\<lparr>tm_locks := bm_insert r e (tm_locks tm)\<rparr>)"
  "locks_ok tm \<Longrightarrow> locks_ok (tm\<lparr>tm_wait := bm_insert w hs (tm_wait tm)\<rparr>)"
  by (auto simp: locks_ok_def set_lock_def wait_remove_def wait_add_def split: if_splits)

lemma same_core_locks [simp]:
  "same_core tm (set_lock r e tm') = same_core tm tm'" "same_core tm (wait_remove i tm') = same_core tm tm'"
  "same_core tm (wait_add i hs tm') = same_core tm tm'"
  by (simp_all add: same_core_def set_lock_def wait_remove_def wait_add_def)

lemma lock_without_ok [simp]: "lock_ok e \<Longrightarrow> lock_ok (lock_without i e)"
  using bs_remove_subset [of i "lk_shared e"] by (auto simp: lock_ok_def lock_without_def)

text \<open>What the acquisitions do to the locks; the rest of the state they leave.\<close>

lemma acquire_core:
  assumes "locks_ok tm"
  shows "same_core tm (snd (acquire_exclusive i r tm)) \<and> locks_ok (snd (acquire_exclusive i r tm))"
    and "same_core tm (snd (acquire_shared i r tm)) \<and> locks_ok (snd (acquire_shared i r tm))"
proof -
  note e = lock_of_ok [OF assms, of r]
  have excl: "lock_ok \<lparr>lk_shared = bs_remove i (lk_shared (lock_of tm r)), lk_exclusive = Some i\<rparr>"
    if "lk_shared (lock_of tm r) = [] \<or> length (lk_shared (lock_of tm r)) = 1 \<and> i \<in> set (lk_shared (lock_of tm r))"
    using that by (cases "lk_shared (lock_of tm r)") (auto simp: lock_ok_def bs_ok_def)
  have shared: "lock_ok ((lock_of tm r)\<lparr>lk_shared := bs_insert i (lk_shared (lock_of tm r))\<rparr>)" if "lk_exclusive (lock_of tm r) = None"
    using that e by (simp add: lock_ok_def)
  show "same_core tm (snd (acquire_exclusive i r tm)) \<and> locks_ok (snd (acquire_exclusive i r tm))"
    using assms e excl
    by (auto simp: acquire_exclusive_def Let_def lock_conflict_def)
  show "same_core tm (snd (acquire_shared i r tm)) \<and> locks_ok (snd (acquire_shared i r tm))"
    using assms e shared
    by (auto simp: acquire_shared_def Let_def lock_conflict_def split: option.split)
qed

lemma release_core:
  assumes "locks_ok tm"
  shows "same_core tm (release_locks i tm) \<and> locks_ok (release_locks i tm)"
    and "same_core tm (release_one_lock i r tm) \<and> locks_ok (release_one_lock i r tm)"
proof -
  have bm: "bm_ok (tm_locks tm)" "bm_ok (tm_wait tm)" and ok: "\<And>r e. bm_get (tm_locks tm) r = Some e \<Longrightarrow> lock_ok e"
    using assms by (auto simp: locks_ok_def)
  let ?ls = "filter (\<lambda>(r, e). \<not> lock_is_empty e) (map (\<lambda>(r, e). (r, lock_without i e)) (tm_locks tm))"
  have "lock_ok e" if "bm_get ?ls r = Some e" for r e
  proof -
    have "bm_get ?ls r = (case bm_get (map (\<lambda>(r, e). (r, lock_without i e)) (tm_locks tm)) r of None \<Rightarrow> None
        | Some v \<Rightarrow> if \<not> lock_is_empty v then Some v else None)"
      by (rule bm_get_filter) (simp add: bm)
    then show ?thesis using that ok by (auto simp: bm_get_map_values split: option.splits if_splits)
  qed
  then show "same_core tm (release_locks i tm) \<and> locks_ok (release_locks i tm)"
    using bm by (simp add: release_locks_def clear_wait_for_def locks_ok_def same_core_def)
  show "same_core tm (release_one_lock i r tm) \<and> locks_ok (release_one_lock i r tm)"
    using assms ok by (auto simp: release_one_lock_def Let_def same_core_def split: option.split)
qed

lemma good_acquire:
  assumes "good X S tm"
  shows "good X S (snd (acquire_exclusive i r tm))" "good X S (snd (acquire_shared i r tm))"
    "good X S (release_locks i tm)" "good X S (release_one_lock i r tm)"
  using good_same_core [OF assms] acquire_core [OF good_locks [OF assms]] release_core [OF good_locks [OF assms]] by blast+

lemma t_acquire:
  "triple (\<lambda>tm. good X S tm \<and> known P tm j) (acquire_exclusive j r) (\<lambda>_ tm. good X S tm \<and> known P tm j) (good X S)"
  "triple (\<lambda>tm. good X S tm \<and> known P tm j) (acquire_shared j r) (\<lambda>_ tm. good X S tm \<and> known P tm j) (good X S)"
proof -
  have k: "known P (snd (acquire_exclusive j r tm)) j" "known P (snd (acquire_shared j r tm)) j" if "good X S tm" "known P tm j" for tm
    using that acquire_core [OF good_locks] known_same_core by blast+
  show "triple (\<lambda>tm. good X S tm \<and> known P tm j) (acquire_exclusive j r) (\<lambda>_ tm. good X S tm \<and> known P tm j) (good X S)"
    "triple (\<lambda>tm. good X S tm \<and> known P tm j) (acquire_shared j r) (\<lambda>_ tm. good X S tm \<and> known P tm j) (good X S)"
    using good_acquire k by (auto simp: triple_def split: prod.split res.split) (metis snd_conv)+
qed

section \<open>Chains\<close>

lemma good_chains:
  assumes g: "good X S tm" and f: "foreign j S" and cs: "bm_ok cs"
    and ok: "\<And>r. versions_ok (tm_next_ts tm) (tm_next_id tm) (versions_at cs r)"
    and sub: "\<And>r v. v \<in> set (versions_at cs r) \<Longrightarrow> v_committed v \<Longrightarrow> v \<in> set (versions_at (tm_chains tm) r)"
    and seen: "\<And>rv r. snapshot_view rv \<Longrightarrow> rv_reader rv \<noteq> j \<Longrightarrow>
      seen_in rv (versions_at cs r) = seen_in rv (versions_at (tm_chains tm) r)"
  shows "good X S (tm\<lparr>tm_chains := cs\<rparr>)"
proof -
  let ?tm = "tm\<lparr>tm_chains := cs\<rparr>"
  have wf: "txn_wf ?tm i t = txn_wf tm i t" "txn_of ?tm i = txn_of tm i" for i t by (simp_all add: txn_wf_def txn_of_def)
  have "hides cs t" if "hides (tm_chains tm) t" for t using that sub unfolding hides_def by blast
  then have "txns_ok ?tm" using g by (simp add: txns_ok_def good_def tm_ok_def wf)
  moreover have "chains_ok ?tm" using cs ok by (simp add: chains_ok_def)
  moreover have "active_ok X ?tm" using g sub unfolding good_def tm_ok_def active_ok_def by (simp add: Ball_def) blast
  moreover have "locks_ok ?tm" using good_locks [OF g] by (simp add: locks_ok_def)
  moreover have "snap x ?tm" if x: "x \<in> S" for x
  proof -
    obtain i t v where e: "x = (i, t, v)" by (cases x)
    have sn: "snap (i, t, v) tm" using g x e by (simp add: good_def)
    then have t: "txn_of tm i = Some t" "fixed_view t" by (simp_all add: snap_def)
    have "rv_reader (tx_view t) = i" "rv_isolation (tx_view t) = tx_isolation t"
      using good_wf [OF g t(1)] by (simp_all add: txn_wf_def)
    moreover have "i \<noteq> j" using f x by (auto simp: foreign_def e)
    ultimately have "seen_in (tx_view t) (versions_at cs r) = seen_in (tx_view t) (versions_at (tm_chains tm) r)" for r
      using seen [of "tx_view t" r] t(2) by (auto simp: snapshot_view_def fixed_view_def)
    then show ?thesis using sn by (simp add: e snap_def wf view_row_seen)
  qed
  ultimately show ?thesis by (simp add: good_def tm_ok_def)
qed

lemma good_chain_facts:
  assumes "good X S tm"
  shows "bm_ok (tm_chains tm)" "versions_ok (tm_next_ts tm) (tm_next_id tm) (versions_at (tm_chains tm) r)"
  using assms by (simp_all add: good_def tm_ok_def chains_ok_def)

lemma good_push:
  assumes g: "good X S tm" and "foreign j S" and v: "own_intent j v" and j: "j < tm_next_id tm"
  shows "good X S (tm\<lparr>tm_chains := bm_insert r (push_head v (chain_of r (tm_chains tm))) (tm_chains tm)\<rparr>)"
proof (rule good_chains [OF g assms(2)])
  let ?cs = "bm_insert r (push_head v (chain_of r (tm_chains tm))) (tm_chains tm)"
  note c = good_chain_facts [OF g]
  have at: "versions_at ?cs x = (if x = r then v # versions_at (tm_chains tm) r else versions_at (tm_chains tm) x)" for x
    by (simp add: push_head_def)
  show "bm_ok ?cs" using c by simp
  show "versions_ok (tm_next_ts tm) (tm_next_id tm) (versions_at ?cs x)" for x
    using c versions_ok_push [OF c(2) v j] unfolding at by auto
  show "w \<in> set (versions_at (tm_chains tm) x)" if "w \<in> set (versions_at ?cs x)" "v_committed w" for x w
    using that v unfolding at by (auto simp: own_intent_def split: if_splits)
  show "seen_in rv (versions_at ?cs x) = seen_in rv (versions_at (tm_chains tm) x)"
    if "snapshot_view rv" "rv_reader rv \<noteq> j" for rv x
    using seen_push [OF that v] unfolding at by simp
qed

lemma good_strip:
  assumes g: "good X S tm" and "foreign j S"
  shows "good X S (tm\<lparr>tm_chains := fold (strip_writer_versions j) rs (tm_chains tm)\<rparr>)"
proof (rule good_chains [OF assms])
  note c = good_chain_facts [OF g]
  note at = strip_all_at [OF c(1), of j rs]
  show "bm_ok (fold (strip_writer_versions j) rs (tm_chains tm))" using c by simp
  show "versions_ok (tm_next_ts tm) (tm_next_id tm) (versions_at (fold (strip_writer_versions j) rs (tm_chains tm)) x)" for x
    using c versions_ok_filter [OF c(2)] by (simp add: at)
  show "w \<in> set (versions_at (tm_chains tm) x)"
    if "w \<in> set (versions_at (fold (strip_writer_versions j) rs (tm_chains tm)) x)" for x w
    using that by (auto simp: at split: if_splits)
  show "seen_in rv (versions_at (fold (strip_writer_versions j) rs (tm_chains tm)) x) = seen_in rv (versions_at (tm_chains tm) x)"
    if "snapshot_view rv" "rv_reader rv \<noteq> j" for rv x
    using seen_strip [OF that] by (simp add: at)
qed

lemma good_undo:
  assumes g: "good X S tm" and f: "foreign j S"
  shows "good X S (undo_one j u tm)"
proof (cases "bm_get (tm_chains tm) (undo_row u)")
  case (Some c)
  let ?r = "undo_row u"
  let ?vs = "remove_first (own_intent j) (vc_versions c)"
  let ?cs = "if ?vs = [] then bm_remove ?r (tm_chains tm) else bm_insert ?r (c\<lparr>vc_versions := ?vs\<rparr>) (tm_chains tm)"
  note cf = good_chain_facts [OF g]
  have c: "vc_versions c = versions_at (tm_chains tm) ?r" by (simp add: versions_at_def Some)
  have at: "versions_at ?cs x = (if x = ?r then ?vs else versions_at (tm_chains tm) x)" for x
    using cf(1) by auto
  have g1: "good X S (tm\<lparr>tm_chains := ?cs\<rparr>)"
  proof (rule good_chains [OF g f])
    show "bm_ok ?cs" using cf by simp
    show "versions_ok (tm_next_ts tm) (tm_next_id tm) (versions_at ?cs x)" for x
      using cf versions_ok_undo [OF cf(2)] unfolding at by (auto simp: c)
    show "w \<in> set (versions_at (tm_chains tm) x)" if "w \<in> set (versions_at ?cs x)" for x w
      using that remove_first_set [of "own_intent j" "vc_versions c"] unfolding at by (auto simp: c split: if_splits)
    show "seen_in rv (versions_at ?cs x) = seen_in rv (versions_at (tm_chains tm) x)"
      if "snapshot_view rv" "rv_reader rv \<noteq> j" for rv x
      using seen_undo [OF that] unfolding at by (simp add: c)
  qed
  have l: "locks_ok (tm\<lparr>tm_chains := ?cs\<rparr>)" by (rule good_locks [OF g1])
  show ?thesis
  proof (cases "bm_get (tm_locks tm) ?r")
    case None
    then show ?thesis using g1 Some by (simp add: undo_one_def Let_def)
  next
    case e: (Some e)
    let ?e = "if lk_exclusive e = Some j then e\<lparr>lk_exclusive := None\<rparr> else e"
    have "lock_ok e" using good_locks [OF g] e by (auto simp: locks_ok_def)
    then have "lock_ok ?e" by (auto simp: lock_ok_def)
    then have "locks_ok (tm\<lparr>tm_chains := ?cs, tm_locks := if lock_is_empty ?e then bm_remove ?r (tm_locks tm) else bm_insert ?r ?e (tm_locks tm)\<rparr>)"
      using locks_ok_ops(5,7) [OF l] by (simp del: locks_ok_ops)
    moreover have "undo_one j u tm = tm\<lparr>tm_chains := ?cs,
        tm_locks := if lock_is_empty ?e then bm_remove ?r (tm_locks tm) else bm_insert ?r ?e (tm_locks tm)\<rparr>"
      by (simp add: undo_one_def Let_def Some e)
    ultimately show ?thesis using good_same_core [OF g1] by (simp add: same_core_def)
  qed
qed (simp add: undo_one_def g)

section \<open>Beginning and ending transactions\<close>

lemma good_deactivate:
  assumes g: "good X S tm" and f: "foreign j S" and dead: "known (\<lambda>t. \<not> tx_live t) tm j" and x: "X \<subseteq> {j}"
  shows "good {} S (tm\<lparr>tm_active := bs_remove j (tm_active tm)\<rparr>)"
proof -
  let ?tm = "tm\<lparr>tm_active := bs_remove j (tm_active tm)\<rparr>"
  have a: "bs_ok (tm_active tm)" using g by (simp add: good_def tm_ok_def active_ok_def)
  have wf: "txn_wf ?tm i t" if t: "txn_of tm i = Some t" for i t
  proof -
    have "txn_wf tm i t" using good_wf [OF g t] by simp
    moreover have "i = j \<Longrightarrow> \<not> tx_live t" using dead t by (auto simp: known_def)
    ultimately show ?thesis using a by (auto simp: txn_wf_def)
  qed
  have "txns_ok ?tm" using g wf by (auto simp: txns_ok_def good_def tm_ok_def txn_of_def)
  moreover have "active_ok {} ?tm" using g x a unfolding good_def tm_ok_def active_ok_def by auto
  moreover have "chains_ok ?tm" "locks_ok ?tm" using g by (simp_all add: good_def tm_ok_def chains_ok_def locks_ok_def)
  moreover have "snap y ?tm" if "y \<in> S" for y using g that by (simp add: good_def snap_def txn_of_def)
  ultimately show ?thesis by (simp add: good_def tm_ok_def)
qed

lemma good_stats: "good X S tm \<Longrightarrow> good X S (tm\<lparr>tm_stats := x\<rparr>)"
  by (rule good_same_core) (auto dest: good_locks)

lemma not_max_less: "x \<noteq> - 1 \<longleftrightarrow> x < ts_inf"
proof -
  have "ts_inf = - 1" by (simp add: ts_inf_def)
  then show ?thesis using word_order.not_eq_extremum [of x] by simp
qed

text \<open>The clock.\<close>

lemma good_tick:
  assumes g: "good X S tm" and n: "tm_next_ts tm \<noteq> - 1"
  shows "good X S (tm\<lparr>tm_next_ts := tm_next_ts tm + 1\<rparr>)"
proof -
  let ?tm = "tm\<lparr>tm_next_ts := tm_next_ts tm + 1\<rparr>"
  have up: "tm_next_ts tm < tm_next_ts tm + 1" using ts_step n not_max_less by blast
  have wf: "txn_wf ?tm i t" if "txn_wf tm i t" for i t using that up by (auto simp: txn_wf_def)
  have "txns_ok ?tm" using g wf by (auto simp: txns_ok_def good_def tm_ok_def txn_of_def)
  moreover have "chains_ok ?tm"
    using g versions_ok_later [OF _ less_imp_le [OF up] order_refl] by (simp add: good_def tm_ok_def chains_ok_def)
  moreover have "active_ok X ?tm" "locks_ok ?tm" using g by (simp_all add: good_def tm_ok_def active_ok_def locks_ok_def)
  moreover have "snap y ?tm" if "y \<in> S" for y using g that by (simp add: good_def snap_def txn_of_def)
  ultimately show ?thesis by (simp add: good_def tm_ok_def)
qed

text \<open>Stamping the intents of a commit.\<close>

lemma good_finalize:
  assumes g: "good {} S tm" and f: "foreign j S" and n: "tm_next_ts tm \<noteq> - 1" and d: "distinct rs" and j: "j < tm_next_id tm"
  shows "good {j} S (tm\<lparr>tm_next_ts := tm_next_ts tm + 1,
    tm_chains := fold (finalize_write j (tm_next_ts tm)) rs (tm_chains tm)\<rparr>)"
proof -
  let ?now = "tm_next_ts tm"
  let ?cs = "fold (finalize_write j ?now) rs (tm_chains tm)"
  let ?tm = "tm\<lparr>tm_next_ts := ?now + 1, tm_chains := ?cs\<rparr>"
  have fin: "?now < ts_inf" using n not_max_less by blast
  have up: "?now < ?now + 1" using ts_step [OF fin] by blast
  note c = good_chain_facts [OF g]
  note at = finalize_all_at [OF d, of j ?now "tm_chains tm"]
  have old: "(v_writer v = j \<and> v_begin v = ?now) \<or>
      (\<exists>w \<in> set (versions_at (tm_chains tm) r). v_committed w \<and> v_writer w = v_writer v \<and> v_begin w = v_begin v)"
    if v: "v \<in> set (versions_at ?cs r)" "v_committed v" for v r
  proof (cases "r \<in> set rs")
    case True
    then have "v \<in> set (finalize_versions j ?now (versions_at (tm_chains tm) r))" using v(1) by (simp add: at)
    then have v1: "v \<in> set (finalize_versions j ?now (versions_at (tm_chains tm) r))" .
    let ?vs = "versions_at (tm_chains tm) r"
    have "v \<in> set ?vs \<or> v \<in> closed ?now ` set ?vs \<or> (\<exists>w. own_intent j w \<and> v = stamp ?now w)"
      using v1 close_current_map [OF c(2) less_imp_le [OF fin]]
        update_first_set [of "own_intent j" "stamp ?now" "map (closed ?now) ?vs"]
      by (auto simp: finalize_versions_def split: if_splits)
    then show ?thesis
    proof (elim disjE exE)
      assume "v \<in> set ?vs"
      then show ?thesis using v(2) by blast
    next
      assume "v \<in> closed ?now ` set ?vs"
      then obtain w where "w \<in> set ?vs" "v = closed ?now w" by blast
      then show ?thesis using v(2) by auto
    next
      fix w assume "own_intent j w \<and> v = stamp ?now w"
      then show ?thesis by (simp add: own_intent_def stamp_def)
    qed
  next
    case False
    then show ?thesis using v by (auto simp: at)
  qed
  have wf: "txn_wf ?tm i t" "hides ?cs t" if t: "txn_of tm i = Some t" for i t
  proof -
    have w: "txn_wf tm i t" "hides (tm_chains tm) t" using good_wf [OF g t] by auto
    show "txn_wf ?tm i t" using w(1) up by (auto simp: txn_wf_def)
    have "rv_snapshot (tx_view t) < ?now" if "tx_isolation t \<noteq> ReadCommitted" using w(1) that by (simp add: txn_wf_def)
    then show "hides ?cs t" using w(2) old unfolding hides_def by metis
  qed
  then have "txns_ok ?tm" using g by (auto simp: txns_ok_def good_def tm_ok_def txn_of_def)
  moreover have "chains_ok ?tm"
    using c versions_ok_finalize [OF c(2) fin] versions_ok_later [OF c(2) less_imp_le [OF up] order_refl]
    by (simp add: chains_ok_def at)
  moreover have "active_ok {j} ?tm"
    using g old unfolding good_def tm_ok_def active_ok_def by simp (metis)
  moreover have "locks_ok ?tm" using good_locks [OF g] by (simp add: locks_ok_def)
  moreover have "snap x ?tm" if x: "x \<in> S" for x
  proof -
    obtain i t v where e: "x = (i, t, v)" by (cases x)
    have sn: "snap (i, t, v) tm" using g x e by (simp add: good_def)
    then have t: "txn_of tm i = Some t" "fixed_view t" by (simp_all add: snap_def)
    have w: "rv_reader (tx_view t) = i" "rv_isolation (tx_view t) = tx_isolation t" "rv_snapshot (tx_view t) < ?now"
      using good_wf [OF g t(1)] t(2) by (auto simp: txn_wf_def fixed_view_def)
    moreover have "i \<noteq> j" using f x by (auto simp: foreign_def e)
    ultimately have "seen_in (tx_view t) (versions_at ?cs r) = seen_in (tx_view t) (versions_at (tm_chains tm) r)" for r
      using seen_finalize [of "tx_view t" j ?now] fin t(2) by (auto simp: at snapshot_view_def fixed_view_def)
    then show ?thesis using sn by (simp add: e snap_def view_row_seen txn_of_def)
  qed
  ultimately show ?thesis by (simp add: good_def tm_ok_def)
qed

definition dead :: "transaction \<Rightarrow> bool" where
  "dead t \<longleftrightarrow> \<not> tx_live t"

lemma t_finish:
  assumes f: "foreign j S" and X: "X \<subseteq> {j}"
  shows "triple (\<lambda>tm. good X S tm \<and> known dead tm j)
    (\<lambda>tm. (Ok x, (release_locks j (tm\<lparr>tm_active := bs_remove j (tm_active tm)\<rparr>))\<lparr>tm_stats := g tm\<rparr>))
    (\<lambda>_. good {} S) (good {} S)"
proof (rule tripleI)
  fix tm assume a: "good X S tm \<and> known dead tm j"
  then have "good {} S (tm\<lparr>tm_active := bs_remove j (tm_active tm)\<rparr>)"
    using good_deactivate [OF _ f _ X, of tm] by (simp add: known_def dead_def)
  then have "good {} S ((release_locks j (tm\<lparr>tm_active := bs_remove j (tm_active tm)\<rparr>))\<lparr>tm_stats := g tm\<rparr>)"
    using good_acquire(3) good_stats by blast
  then show "case (Ok x, (release_locks j (tm\<lparr>tm_active := bs_remove j (tm_active tm)\<rparr>))\<lparr>tm_stats := g tm\<rparr>) of
    (Ok a, s') \<Rightarrow> good {} S s' | (Err e, s') \<Rightarrow> good {} S s' | _ \<Rightarrow> True" by simp
qed

text \<open>The log never returns an error value.\<close>

lemma wal_append_no_err: "wal_append t k p w \<noteq> Err e"
  by (auto simp: wal_append_def wal_current_def push_record_def Let_def split: if_splits elim: rbind.elims)

lemma modify_no_err: "fst (modify_txn j f tm) \<noteq> Err e"
  by (simp add: modify_txn_def split: option.split)

lemma txn_log_no_err: "fst (txn_log j k p tm) \<noteq> Err e"
  using wal_append_no_err modify_no_err by (auto simp: txn_log_def split: res.split prod.split)

lemma triple_no_err:
  assumes "triple P m Q E" and "\<And>s e. fst (m s) \<noteq> Err e"
  shows "triple P m Q E'"
proof (rule tripleI)
  fix s assume "P s"
  then show "case m s of (Ok a, s') \<Rightarrow> Q a s' | (Err e, s') \<Rightarrow> E' s' | _ \<Rightarrow> True"
    using tripleD [OF assms(1), of s] assms(2) [of s] by (cases "m s"; cases "fst (m s)") auto
qed

lemma t_log': "foreign j S \<Longrightarrow> (\<And>t l. P t \<Longrightarrow> P (t\<lparr>tx_lsn := l\<rparr>)) \<Longrightarrow>
    triple (\<lambda>tm. good X S tm \<and> known P tm j) (txn_log j k p) (\<lambda>_ tm. good X S tm \<and> known P tm j) E"
  using triple_no_err [OF t_log] txn_log_no_err by blast

lemma dead_lsn [simp]: "dead (t\<lparr>tx_lsn := l\<rparr>) = dead t" "tx_live (t\<lparr>tx_lsn := l\<rparr>) = tx_live t"
  by (simp_all add: dead_def tx_live_def)

lemma t_rollback:
  assumes f: "foreign j S"
  shows "triple (good {} S) (txn_rollback j) (\<lambda>_. good {} S) (good {} S)"
proof (rule tripleI)
  fix tm assume g: "good {} S tm"
  let ?f = "\<lambda>t. t\<lparr>tx_state := TsAborted, tx_undo := []\<rparr>"
  have m: "triple (\<lambda>tm. good {} S tm \<and> known (\<lambda>_. True) tm j) (modify_txn j ?f) (\<lambda>_ tm. good {} S tm \<and> known dead tm j) (good {} S)"
    by (rule t_modify [OF f]) (simp add: keeps_def tx_live_def dead_def writes_ok_def)
  note run = triple_bind [OF m triple_bind [OF t_log' [OF f] t_finish [OF f]]]
  show "case txn_rollback j tm of (Ok a, s') \<Rightarrow> good {} S s' | (Err e, s') \<Rightarrow> good {} S s' | _ \<Rightarrow> True"
  proof (cases "txn_of tm j")
    case (Some t)
    let ?tm = "tm\<lparr>tm_chains := fold (strip_writer_versions j) (tx_writes t) (tm_chains tm)\<rparr>"
    have "good {} S ?tm \<and> known (\<lambda>_. True) ?tm j" using good_strip [OF g f] Some by (simp add: known_def txn_of_def)
    then show ?thesis unfolding txn_rollback_def Some Let_def option.case
      by (intro tripleD [OF run]) simp_all
  qed (simp add: txn_rollback_def g)
qed

lemma t_commit_writes:
  assumes f: "foreign j S"
  shows "triple (\<lambda>tm. good {} S tm \<and> known tx_live tm j) (commit_writes j) (\<lambda>_. good {} S) (good {} S)"
proof (rule tripleI)
  fix tm assume a: "good {} S tm \<and> known tx_live tm j"
  then obtain t where t: "txn_of tm j = Some t" by (auto simp: known_def)
  have w: "txn_wf tm j t" using good_wf a t by blast
  let ?now = "tm_next_ts tm"
  let ?f = "\<lambda>t. t\<lparr>tx_state := TsCommitted, tx_commit := Some ?now\<rparr>"
  have m: "triple (\<lambda>tm. good {j} S tm \<and> known (\<lambda>_. True) tm j) (modify_txn j ?f) (\<lambda>_ tm. good {j} S tm \<and> known dead tm j) (good {} S)"
    by (rule t_modify [OF f]) (simp add: keeps_def tx_live_def dead_def writes_ok_def)
  note run = triple_bind [OF m triple_bind [OF t_log' [OF f] t_finish [OF f]]]
  show "case commit_writes j tm of (Ok a, s') \<Rightarrow> good {} S s' | (Err e, s') \<Rightarrow> good {} S s' | _ \<Rightarrow> True"
  proof (cases "?now = - 1")
    case False
    let ?tm = "tm\<lparr>tm_next_ts := ?now + 1, tm_chains := fold (finalize_write j ?now) (tx_writes t) (tm_chains tm)\<rparr>"
    have "distinct (tx_writes t)" using w by (simp add: txn_wf_def writes_ok_def bs_ok_def strict_sorted_iff)
    then have "good {j} S ?tm" using good_finalize [OF _ f False] a w by (simp add: txn_wf_def)
    moreover have "known (\<lambda>_. True) ?tm j" using t by (simp add: known_def txn_of_def)
    moreover have "txn_of (tm\<lparr>tm_next_ts := ?now + 1\<rparr>) j = Some t" using t by (simp add: txn_of_def)
    ultimately show ?thesis unfolding commit_writes_def sbind_def [of tick] tick_def
      by (simp add: False) (intro tripleD [OF run], simp_all)
  qed (simp add: commit_writes_def sbind_def tick_def)
qed

lemma t_commit:
  assumes f: "foreign j S"
  shows "triple (good {} S) (txn_commit j) (\<lambda>_. good {} S) (good {} S)"
  unfolding txn_commit_def
proof (rule triple_bind [OF t_require], rule tripleI)
  fix tm assume a: "good {} S tm \<and> known tx_live tm j"
  have err: "triple (good {} S) (sbind (txn_rollback j) (\<lambda>_ tm. (Err e, tm))) (\<lambda>_. good {} S) (good {} S)" for e
    by (rule triple_bind [OF t_rollback [OF f]]) (rule triple_err)
  show "case (case serializable_conflict tm j of Some r \<Rightarrow> sbind (txn_rollback j) (\<lambda>_ tm.
         (Err (Internal (str ''serialization conflict on row '' @ show_nat (unat r))), tm)) tm
     | None \<Rightarrow> commit_writes j tm) of (Ok a, s') \<Rightarrow> good {} S s' | (Err e, s') \<Rightarrow> good {} S s' | _ \<Rightarrow> True"
    using tripleD [OF err, of tm] tripleD [OF t_commit_writes [OF f], of tm] a
    by (cases "serializable_conflict tm j") simp_all
qed

text \<open>A new transaction: its id is fresh, and its view is taken of the active transactions.\<close>

lemma good_begin:
  assumes g: "good {} S tm" and i: "tm_next_id tm \<noteq> - 1" and n: "tm_next_ts tm \<noteq> - 1"
  shows "good {} S (tm\<lparr>tm_next_id := tm_next_id tm + 1, tm_next_ts := tm_next_ts tm + 1,
    tm_registry := bm_insert (tm_next_id tm) ((transaction_new (tm_next_id tm) (tm_next_ts tm) (tm_active tm) lv)\<lparr>tx_lsn := l\<rparr>) (tm_registry tm),
    tm_active := bs_insert (tm_next_id tm) (tm_active tm)\<rparr>)"
proof -
  let ?i = "tm_next_id tm" and ?now = "tm_next_ts tm"
  let ?t = "(transaction_new ?i ?now (tm_active tm) lv)\<lparr>tx_lsn := l\<rparr>"
  let ?tm = "tm\<lparr>tm_next_id := ?i + 1, tm_next_ts := ?now + 1, tm_registry := bm_insert ?i ?t (tm_registry tm),
    tm_active := bs_insert ?i (tm_active tm)\<rparr>"
  have up: "?i < ?i + 1" "?now < ?now + 1" using ts_step i n not_max_less by blast+
  have reg: "txn_of ?tm = (txn_of tm)(?i \<mapsto> ?t)" by (simp add: txn_of_def fun_eq_iff)
  have act: "\<forall>r. \<forall>v \<in> set (versions_at (tm_chains tm) r). v_committed v \<longrightarrow> v_writer v \<notin> set (tm_active tm)"
    and bs: "bs_ok (tm_active tm)" using g by (simp_all add: good_def tm_ok_def active_ok_def)
  have new: "txn_wf ?tm ?i ?t" "hides (tm_chains tm) ?t"
    using up act by (auto simp: txn_wf_def transaction_new_def writes_ok_def bs_ok_def hides_def)
  have old: "txn_wf ?tm k t \<and> hides (tm_chains tm) t \<and> k \<noteq> ?i" if t: "txn_of tm k = Some t" for k t
    using good_wf [OF g t] up less_trans by (fastforce simp: txn_wf_def)
  have "txns_ok ?tm" using g new old unfolding txns_ok_def reg by (auto simp: good_def tm_ok_def txns_ok_def)
  moreover have "chains_ok ?tm"
    using good_chain_facts(1) [OF g] versions_ok_later [OF good_chain_facts(2) [OF g] less_imp_le [OF up(2)] less_imp_le [OF up(1)]]
    by (simp add: chains_ok_def)
  moreover have "active_ok {} ?tm"
  proof -
    have "v_writer v < ?i" if "v \<in> set (versions_at (tm_chains tm) r)" for v r
      using good_chain_facts(2) [OF g, of r] that by (simp add: versions_ok_def version_ok_def)
    then show ?thesis using act bs by (fastforce simp: active_ok_def)
  qed
  moreover have "locks_ok ?tm" using good_locks [OF g] by (simp add: locks_ok_def)
  moreover have "snap x ?tm" if x: "x \<in> S" for x
  proof -
    obtain k t v where e: "x = (k, t, v)" by (cases x)
    have sn: "snap (k, t, v) tm" using g x e by (simp add: good_def)
    then have "txn_of tm k = Some t" by (simp add: snap_def)
    then show ?thesis using sn old by (auto simp: e snap_def reg)
  qed
  ultimately show ?thesis by (simp add: good_def tm_ok_def)
qed

lemma good_fields [simp]:
  "good X S (tm\<lparr>tm_wal := w\<rparr>) = good X S tm" "good X S (tm\<lparr>tm_stats := x\<rparr>) = good X S tm" "good X S (tm\<lparr>tm_preds := ps\<rparr>) = good X S tm"
proof -
  have *: "good X S tm' \<longleftrightarrow> good X S tm" if "same_core tm tm'" "same_core tm' tm" "locks_ok tm' = locks_ok tm" for tm'
    using good_same_core that good_locks by metis
  have c: "same_core (tm\<lparr>tm_wal := w\<rparr>) tm" "same_core (tm\<lparr>tm_stats := x\<rparr>) tm" "same_core (tm\<lparr>tm_preds := ps\<rparr>) tm"
    by (simp_all add: same_core_def)
  show "good X S (tm\<lparr>tm_wal := w\<rparr>) = good X S tm" "good X S (tm\<lparr>tm_stats := x\<rparr>) = good X S tm" "good X S (tm\<lparr>tm_preds := ps\<rparr>) = good X S tm"
    by (rule *; simp add: c locks_ok_def)+
qed

lemma t_begin: "triple (good {} S) (txn_begin lv) (\<lambda>_. good {} S) (good {} S)"
proof (rule tripleI)
  fix tm assume g: "good {} S tm"
  let ?i = "tm_next_id tm"
  show "case txn_begin lv tm of (Ok a, s') \<Rightarrow> good {} S s' | (Err e, s') \<Rightarrow> good {} S s' | _ \<Rightarrow> True"
  proof (cases "?i = - 1 \<or> tm_next_ts tm = - 1")
    case True
    then show ?thesis by (auto simp: txn_begin_def Let_def sbind_def tick_def)
  next
    case False
    define B where "B l = tm\<lparr>tm_next_id := ?i + 1, tm_next_ts := tm_next_ts tm + 1,
        tm_registry := bm_insert ?i ((transaction_new ?i (tm_next_ts tm) (tm_active tm) lv)\<lparr>tx_lsn := l\<rparr>) (tm_registry tm),
        tm_active := bs_insert ?i (tm_active tm)\<rparr>" for l
    have B: "good {} S (B l)" for l using good_begin [OF g] False by (simp add: B_def)
    show ?thesis
    proof (cases "wal_append ?i RtBegin [] (tm_wal tm)")
      case (Ok lw)
      obtain l w where lw: "lw = (l, w)" by (cases lw)
      have "txn_begin lv tm = (Ok ?i, (B l)\<lparr>tm_wal := w, tm_stats := (tm_stats tm)\<lparr>ct_begun := ct_begun (tm_stats tm) + 1\<rparr>\<rparr>)"
        using False by (simp add: txn_begin_def Let_def sbind_def tick_def Ok lw B_def)
      then show ?thesis by (simp only: prod.case res.case good_fields B)
    qed (use False wal_append_no_err in \<open>auto simp: txn_begin_def Let_def sbind_def tick_def\<close>)
  qed
qed

section \<open>Reading and writing\<close>

lemma keeps_reads: "keeps t (t\<lparr>tx_reads := x\<rparr>)" "tx_live (t\<lparr>tx_reads := x\<rparr>) = tx_live t"
  by (simp_all add: keeps_def writes_ok_def tx_live_def)

definition rc_live :: "transaction \<Rightarrow> bool" where
  "rc_live t \<longleftrightarrow> tx_live t \<and> tx_isolation t = ReadCommitted"

lemma t_refresh:
  assumes f: "foreign j S"
  shows "triple (\<lambda>tm. good X S tm \<and> known rc_live tm j) (refresh_read_view j) (\<lambda>_ tm. good X S tm \<and> known tx_live tm j) E"
proof (rule tripleI)
  fix tm assume a: "good X S tm \<and> known rc_live tm j"
  then obtain t where t: "txn_of tm j = Some t" "tx_live t" "tx_isolation t = ReadCommitted" by (auto simp: known_def rc_live_def)
  let ?t = "t\<lparr>tx_view := (tx_view t)\<lparr>rv_snapshot := txn_now tm, rv_active := tm_active tm\<rparr>\<rparr>"
  have "txn_wf tm j ?t" "hides (tm_chains tm) ?t"
    using good_wf [of X S tm j t] a t by (simp_all add: txn_wf_def hides_def tx_live_def writes_ok_def)
  then have "good X S (tm\<lparr>tm_registry := bm_insert j ?t (tm_registry tm)\<rparr>)" using good_update [OF _ f] a by blast
  then show "case refresh_read_view j tm of (Ok a, s') \<Rightarrow> good X S s' \<and> known tx_live s' j | (Err e, s') \<Rightarrow> E s' | _ \<Rightarrow> True"
    using t(1,2) by (simp add: refresh_read_view_def modify_txn_def known_def tx_live_def)
qed

lemma t_record_read:
  assumes f: "foreign j S"
  shows "triple (\<lambda>tm. good X S tm \<and> known tx_live tm j)
    (\<lambda>tm. case txn_of tm j of None \<Rightarrow> (Panic, tm)
       | Some t \<Rightarrow> sbind (modify_txn j (\<lambda>t. t\<lparr>tx_reads := bs_insert r (tx_reads t)\<rparr>)) (\<lambda>_ tm.
           (Ok (view_row (tx_view t) (tm_chains tm) r), tm)) tm)
    (\<lambda>_ tm. good X S tm \<and> known tx_live tm j) (good X S)"
proof (rule tripleI)
  fix tm assume a: "good X S tm \<and> known tx_live tm j"
  then obtain t where t: "txn_of tm j = Some t" by (auto simp: known_def)
  have m: "triple (\<lambda>tm. good X S tm \<and> known tx_live tm j) (modify_txn j (\<lambda>t. t\<lparr>tx_reads := bs_insert r (tx_reads t)\<rparr>))
      (\<lambda>_ tm. good X S tm \<and> known tx_live tm j) (good X S)"
    by (rule t_modify [OF f]) (simp add: keeps_reads)
  have "triple (\<lambda>tm. good X S tm \<and> known tx_live tm j) (sbind (modify_txn j (\<lambda>t. t\<lparr>tx_reads := bs_insert r (tx_reads t)\<rparr>)) (\<lambda>_ tm.
           (Ok (view_row (tx_view t) (tm_chains tm) r), tm))) (\<lambda>_ tm. good X S tm \<and> known tx_live tm j) (good X S)"
    by (rule triple_bind [OF m]) (rule triple_ret)
  from tripleD [OF this a] t show "case (case txn_of tm j of None \<Rightarrow> (Panic, tm)
       | Some t \<Rightarrow> sbind (modify_txn j (\<lambda>t. t\<lparr>tx_reads := bs_insert r (tx_reads t)\<rparr>)) (\<lambda>_ tm.
           (Ok (view_row (tx_view t) (tm_chains tm) r), tm)) tm) of
      (Ok a, s') \<Rightarrow> good X S s' \<and> known tx_live s' j | (Err e, s') \<Rightarrow> good X S s' | _ \<Rightarrow> True" by simp
qed

lemma t_read:
  assumes f: "foreign j S"
  shows "triple (good X S) (txn_read j r) (\<lambda>_ tm. good X S tm \<and> known tx_live tm j) (good X S)"
  unfolding txn_read_def
proof (rule triple_bind [OF t_require], rule tripleI)
  fix tm assume a: "good X S tm \<and> known tx_live tm j"
  let ?rest = "\<lambda>_ tm. case txn_of tm j of None \<Rightarrow> (Panic, tm)
       | Some t \<Rightarrow> sbind (modify_txn j (\<lambda>t. t\<lparr>tx_reads := bs_insert r (tx_reads t)\<rparr>)) (\<lambda>_ tm.
           (Ok (view_row (tx_view t) (tm_chains tm) r), tm)) tm"
  let ?m = "if map_option tx_isolation (txn_of tm j) = Some ReadCommitted then refresh_read_view j else sret ()"
  have "case sbind ?m ?rest tm of (Ok a, s') \<Rightarrow> good X S s' \<and> known tx_live s' j | (Err e, s') \<Rightarrow> good X S s' | _ \<Rightarrow> True"
  proof (cases "map_option tx_isolation (txn_of tm j) = Some ReadCommitted")
    case True
    then have "known rc_live tm j" using a by (auto simp: known_def rc_live_def)
    then show ?thesis using True a tripleD [OF triple_bind [OF t_refresh [OF f] t_record_read [OF f]]] by auto
  next
    case False
    have "sbind (sret ()) ?rest tm = ?rest () tm" by (simp add: sbind_def sret_def)
    then show ?thesis using tripleD [OF t_record_read [OF f] a] by (simp only: if_not_P [OF False])
  qed
  then show "case sbind ?m ?rest tm of (Ok a, s') \<Rightarrow> good X S s' \<and> known tx_live s' j | (Err e, s') \<Rightarrow> good X S s' | _ \<Rightarrow> True" .
qed

lemma t_push_intent:
  assumes f: "foreign j S" and mk: "\<And>b. own_intent j (mk b)"
  shows "triple (\<lambda>tm. good X S tm \<and> known tx_live tm j) (push_intent j r mk u k p) (\<lambda>_. good X S) (good X S)"
proof (rule tripleI)
  fix tm assume a: "good X S tm \<and> known tx_live tm j"
  then obtain t where t: "txn_of tm j = Some t" "tx_live t" by (auto simp: known_def)
  let ?f = "\<lambda>t. t\<lparr>tx_undo := tx_undo t @ [u], tx_writes := bs_insert r (tx_writes t)\<rparr>"
  have "triple (\<lambda>tm. good X S tm \<and> known tx_live tm j) (modify_txn j ?f) (\<lambda>_ tm. good X S tm \<and> known tx_live tm j) (good X S)"
    by (rule t_modify [OF f]) (simp add: keeps_def tx_live_def writes_ok_def)
  then have run: "triple (\<lambda>tm. good X S tm \<and> known tx_live tm j) (sbind (modify_txn j ?f) (\<lambda>_. txn_log j k p)) (\<lambda>_. good X S) (good X S)"
    by (rule triple_bind) (rule triple_weaken [OF t_log [OF f, where P = tx_live]], simp_all)
  have "j < tm_next_id tm" using good_wf [of X S tm j t] a t by (simp add: txn_wf_def)
  then have "good X S (tm\<lparr>tm_chains := bm_insert r (push_head (mk (tx_begin t)) (chain_of r (tm_chains tm))) (tm_chains tm)\<rparr>)"
    using good_push [OF _ f mk] a by blast
  moreover have "known tx_live (tm\<lparr>tm_chains := bm_insert r (push_head (mk (tx_begin t)) (chain_of r (tm_chains tm))) (tm_chains tm)\<rparr>) j"
    using t by (simp add: known_def txn_of_def)
  ultimately show "case push_intent j r mk u k p tm of (Ok a, s') \<Rightarrow> good X S s' | (Err e, s') \<Rightarrow> good X S s' | _ \<Rightarrow> True"
    using tripleD [OF run] by (simp add: push_intent_def t(1))
qed

text \<open>The writes differ in their test, in their intent, and in what they do when the test fails.\<close>

lemma t_write:
  assumes f: "foreign j S" and rest: "\<And>seen. triple (\<lambda>tm. good X S tm \<and> known tx_live tm j) (k seen) (\<lambda>_. good X S) (good X S)"
  shows "triple (good X S) (sbind (require_live j) (\<lambda>_. sbind (acquire_exclusive j r) (\<lambda>_. sbind (txn_read j r) k))) (\<lambda>_. good X S) (good X S)"
proof -
  have "triple (\<lambda>tm. good X S tm \<and> known tx_live tm j) (txn_read j r) (\<lambda>_ tm. good X S tm \<and> known tx_live tm j) (good X S)"
    by (rule triple_weaken [OF t_read [OF f]]) simp_all
  then show ?thesis by (intro triple_bind [OF t_require] triple_bind [OF t_acquire(1)] triple_bind [OF _ rest])
qed

lemma intents [simp]: "own_intent j (write_intent v b j)" "own_intent j (delete_intent b j)"
  by (simp_all add: own_intent_def write_intent_def delete_intent_def)

lemma triple_if:
  "(c \<Longrightarrow> triple P m Q E) \<Longrightarrow> (\<not> c \<Longrightarrow> triple P n Q E) \<Longrightarrow> triple P (\<lambda>s. if c then m s else n s) Q E"
  by (cases c) simp_all

lemma t_writes:
  assumes f: "foreign j S"
  shows "triple (good X S) (txn_insert j r v) (\<lambda>_. good X S) (good X S)"
    "triple (good X S) (txn_update j r v) (\<lambda>_. good X S) (good X S)"
    "triple (good X S) (txn_delete j r) (\<lambda>_. good X S) (good X S)"
proof -
  have err: "triple (\<lambda>tm. good X S tm \<and> known tx_live tm j) (\<lambda>tm. (Err e, tm)) (\<lambda>_. good X S) (good X S)"
    "triple (\<lambda>tm. good X S tm \<and> known tx_live tm j) (\<lambda>tm. (Err e, release_one_lock j r tm)) (\<lambda>_. good X S) (good X S)" for e
    by (rule triple_err; simp add: good_acquire)+
  show "triple (good X S) (txn_insert j r v) (\<lambda>_. good X S) (good X S)"
    "triple (good X S) (txn_update j r v) (\<lambda>_. good X S) (good X S)"
    "triple (good X S) (txn_delete j r) (\<lambda>_. good X S) (good X S)"
    unfolding txn_insert_def txn_update_def txn_delete_def
    by (rule t_write [OF f], rule triple_if; (rule err | rule t_push_intent [OF f], simp))+
qed

end
