(* ===== verification/Recoveries.thy ===== *)
theory Recoveries
  imports TxnRuns
begin

text \<open>
  Recovery from the log: replaying committed transactions into an empty manager yields a state that
  satisfies the invariant of the running manager.
\<close>

section \<open>Replaying\<close>

lemma install_at [simp]:
  "versions_at (install ts r v cs) x = (if x = r then v # close_current ts (versions_at cs r) else versions_at cs x)"
  by (simp add: install_def Let_def push_head_def)

lemma install_ok [simp]: "bm_ok cs \<Longrightarrow> bm_ok (install ts r v cs)"
  by (simp add: install_def Let_def)

definition installable :: "timestamp \<Rightarrow> txn_id \<Rightarrow> row_version \<Rightarrow> bool" where
  "installable ts n v \<longleftrightarrow> v_committed v \<and> v_writer v < n \<and> v_begin v = ts \<and> v_end v = ts_inf"

lemma install_versions_ok:
  assumes ok: "versions_ok (ts + 1) n vs" and v: "installable ts n v" and ts: "ts < ts_inf"
  shows "versions_ok (ts + 1) n (v # close_current ts vs)"
proof -
  note step = ts_step [OF ts]
  have "ts_inf = - 1" by (simp add: ts_inf_def)
  then have inf: "x \<le> ts_inf" for x by (metis word_order.extremum)
  have c: "close_current ts vs = map (closed ts) vs" by (rule close_current_map [OF ok inf])
  have old: "version_ok (ts + 1) n w" if "w \<in> set vs" for w using ok that by (simp add: versions_ok_def)
  have closed: "version_ok (ts + 1) n (closed ts w) \<and> (v_committed w \<longrightarrow> v_end (closed ts w) \<le> ts \<and> v_end (closed ts w) \<le> v_end w)" if "w \<in> set vs" for w
    using old [OF that] step inf by (auto simp: version_ok_def closed_def is_current_def)
  have "filter v_committed (map (closed ts) vs) = map (closed ts) (filter v_committed vs)" by (simp add: filter_map comp_def)
  moreover have "sorted_wrt apart (map (closed ts) (filter v_committed vs))"
  proof -
    have "apart (closed ts a) (closed ts b)" if "a \<in> set (filter v_committed vs)" "b \<in> set (filter v_committed vs)" "apart a b" for a b
    proof -
      have "v_end (closed ts a) \<le> v_end a" "v_end (closed ts b) \<le> v_end b" using that closed by auto
      then show ?thesis using that(3) unfolding apart_def closed_fields by (meson order_trans)
    qed
    moreover have "sorted_wrt apart (filter v_committed vs)" using ok by (simp add: versions_ok_def)
    ultimately show ?thesis by (simp only: sorted_wrt_map) (rule sorted_wrt_mono_rel)
  qed
  moreover have "version_ok (ts + 1) n v" using v step inf by (auto simp: installable_def version_ok_def)
  ultimately show ?thesis using closed v by (auto simp: versions_ok_def c installable_def apart_def)
qed

definition replaying :: "timestamp \<Rightarrow> txn_id \<Rightarrow> (u64, version_chain) bmap \<Rightarrow> bool" where
  "replaying now n cs \<longleftrightarrow> bm_ok cs \<and> (\<forall>r. versions_ok now n (versions_at cs r) \<and> (\<forall>v \<in> set (versions_at cs r). v_committed v))"

lemma close_current_committed: "\<forall>v \<in> set vs. v_committed v \<Longrightarrow> \<forall>v \<in> set (close_current ts vs). v_committed v"
  by (induction vs) (auto simp: close_current_def is_current_def)

lemma replaying_install:
  assumes "replaying (ts + 1) n cs" and "installable ts n v" and "ts < ts_inf"
  shows "replaying (ts + 1) n (install ts r v cs)"
  using assms install_versions_ok [OF _ assms(2,3)] close_current_committed
  unfolding replaying_def installable_def by (metis install_at install_ok set_ConsD)

lemma replay_one_keeps:
  assumes "replaying (ts + 1) n cs" and "replay_one i ts op cs = Ok cs'" and "i < n" and ts: "ts < ts_inf"
  shows "replaying (ts + 1) n cs'"
proof -
  have v: "installable ts n (committed_current x ts i)" "installable ts n ((committed_current x ts i)\<lparr>v_deleted := True\<rparr>)" for x
    using assms(3) by (simp_all add: installable_def committed_current_def)
  note inst = replaying_install [OF assms(1) v(1) ts] replaying_install [OF assms(1) v(2) ts]
  obtain k p where op: "op = (k, p)" by (cases op)
  show ?thesis
    using assms(1,2) inst unfolding replay_one_def op
    by (auto simp: rbind_eq_Ok split: if_splits option.splits prod.splits)
qed

lemma replay_ops_keeps:
  "replaying (ts + 1) n cs \<Longrightarrow> replay_ops i ts ops cs = Ok cs' \<Longrightarrow> i < n \<Longrightarrow> ts < ts_inf \<Longrightarrow> replaying (ts + 1) n cs'"
  by (induction ops arbitrary: cs) (auto simp: rbind_eq_Ok intro: replay_one_keeps)

lemma replay_txns_keeps:
  "replay_txns rc xs tm = (Ok u, tm') \<Longrightarrow> replaying (tm_next_ts tm) n (tm_chains tm) \<Longrightarrow> \<forall>(i, ops) \<in> set xs. i < n \<Longrightarrow>
     replaying (tm_next_ts tm') n (tm_chains tm') \<and> (\<exists>cs ts. tm' = tm\<lparr>tm_chains := cs, tm_next_ts := ts\<rparr>)"
proof (induction xs arbitrary: tm)
  case Nil
  then show ?case by (auto simp: sret_def intro!: exI [of _ "tm_chains tm'"] exI [of _ "tm_next_ts tm'"])
next
  case (Cons x xs)
  obtain i ops where x: "x = (i, ops)" by (cases x)
  show ?case
  proof (cases "i \<in> set (rc_aborted rc) \<or> i \<notin> set (rc_committed rc)")
    case True
    then show ?thesis using Cons x by simp
  next
    case False
    let ?ts = "tm_next_ts tm"
    obtain cs where n: "?ts \<noteq> - 1" and cs: "replay_ops i ?ts ops (tm_chains tm) = Ok cs"
      and rest: "replay_txns rc xs (tm\<lparr>tm_next_ts := ?ts + 1, tm_chains := cs\<rparr>) = (Ok u, tm')"
      using Cons.prems(1) False x
      by (auto simp: sbind_def tick_def split: if_splits res.splits)
    have fin: "?ts < ts_inf" using n not_max_less by blast
    have "replaying (?ts + 1) n (tm_chains tm)"
      using Cons.prems(2) versions_ok_later ts_step [OF fin] unfolding replaying_def by (meson less_imp_le order_refl)
    then have "replaying (?ts + 1) n cs" using replay_ops_keeps [OF _ cs _ fin] Cons.prems(3) x by auto
    then show ?thesis using Cons.IH [OF rest] Cons.prems(3) by auto
  qed
qed

text \<open>The first pass: no transaction has a number above the highest one seen.\<close>

lemma recover_record_bound:
  assumes "\<forall>i \<in> set (bm_keys (rc_begun rc)). i \<le> rc_max_id rc"
  shows "\<forall>i \<in> set (bm_keys (rc_begun (recover_record w rc))). i \<le> rc_max_id (recover_record w rc)"
proof -
  have keys: "set (bm_keys (bm_insert k v m)) = insert k (set (bm_keys m))" for k :: txn_id and v :: "(rec_type \<times> u8 list) list" and m
    by (simp add: bm_keys_def bm_insert_keys)
  have "set (bm_keys (rc_begun (recover_record w rc))) \<subseteq> insert (wr_txn w) (set (bm_keys (rc_begun rc)))"
    by (auto simp: recover_record_def Let_def keys split: rec_type.split option.split)
  moreover have m: "rc_max_id (recover_record w rc) = max (rc_max_id rc) (wr_txn w)"
    by (simp add: recover_record_def Let_def split: rec_type.split option.split)
  moreover have "i \<le> max (rc_max_id rc) (wr_txn w)" if "i \<in> insert (wr_txn w) (set (bm_keys (rc_begun rc)))" for i
    using that assms by (auto simp: le_max_iff_disj)
  ultimately show ?thesis unfolding m by blast
qed

lemma recover_records_bound:
  "\<forall>i \<in> set (bm_keys (rc_begun rc)). i \<le> rc_max_id rc \<Longrightarrow>
     \<forall>i \<in> set (bm_keys (rc_begun (fold recover_record ws rc))). i \<le> rc_max_id (fold recover_record ws rc)"
  by (induction ws arbitrary: rc) (simp_all add: recover_record_bound)

lemma recovered_good:
  assumes r: "txn_recover (manager_with_wal w) = (Ok u, tm)"
  shows "good {} {} tm"
proof -
  let ?m = "manager_with_wal w"
  let ?rc = "fold recover_record (wal_records w) recovery_new"
  let ?n = "rc_max_id ?rc + 1"
  obtain tm1 where run: "replay_txns ?rc (rc_begun ?rc) ?m = (Ok (), tm1)" and top: "rc_max_id ?rc \<noteq> - 1"
    and tm: "tm = tm1\<lparr>tm_next_id := max (tm_next_id tm1) ?n, tm_next_ts := max (tm_next_ts tm1) (rc_max_lsn ?rc + 1)\<rparr>"
    using r by (auto simp: txn_recover_def Let_def sbind_eq_Ok manager_with_wal_def split: if_splits)
  have keys: "\<forall>i \<in> set (bm_keys (rc_begun ?rc)). i \<le> rc_max_id ?rc"
    by (rule recover_records_bound) (simp add: recovery_new_def bm_keys_def)
  have up: "rc_max_id ?rc < ?n" "i \<le> rc_max_id ?rc \<longleftrightarrow> i < ?n" for i using ts_step top not_max_less by blast+
  have "\<forall>(i, ops) \<in> set (rc_begun ?rc). i < ?n" using keys up(2) by (force simp: bm_keys_def)
  moreover have "replaying (tm_next_ts ?m) ?n (tm_chains ?m)" by (simp add: manager_with_wal_def replaying_def versions_at_def)
  ultimately have k: "replaying (tm_next_ts tm1) ?n (tm_chains tm1)" and e: "\<exists>cs ts. tm1 = ?m\<lparr>tm_chains := cs, tm_next_ts := ts\<rparr>"
    using replay_txns_keeps [OF run] by blast+
  have f: "tm_registry tm = []" "tm_active tm = []" "tm_locks tm = []" "tm_wait tm = []" "tm_chains tm = tm_chains tm1"
    "tm_next_id tm = max (tm_next_id tm1) ?n" "tm_next_ts tm = max (tm_next_ts tm1) (rc_max_lsn ?rc + 1)"
    using e by (auto simp: tm manager_with_wal_def)
  have "versions_ok (tm_next_ts tm) (tm_next_id tm) (versions_at (tm_chains tm) r)" for r
    using k versions_ok_later [of "tm_next_ts tm1" ?n _ "tm_next_ts tm" "tm_next_id tm"] by (simp add: replaying_def f)
  then show ?thesis using k
    by (simp add: good_def tm_ok_def txns_ok_def chains_ok_def active_ok_def locks_ok_def replaying_def f txn_of_def bs_ok_def)
qed

end
