(* ===== verification/TxnCalls.thy ===== *)
theory TxnCalls
  imports Recoveries
begin

text \<open>
  The remaining operations of the transaction manager: prepare, savepoints, predicate locks, garbage
  collection and checkpoints keep the invariant and the snapshots of the other transactions. All
  public calls then form one datatype, and the states they reach from an empty or a recovered manager
  an inductive set.
\<close>

section \<open>Rules\<close>

lemma triple_ite:
  "triple P m Q E \<Longrightarrow> triple P n Q E \<Longrightarrow> triple P (\<lambda>s. if c s then m s else n s) Q E"
  by (simp add: triple_def)

lemma triple_txn:
  assumes "\<And>t. triple (\<lambda>tm. P tm \<and> txn_of tm i = Some t) (f t) Q E"
  shows "triple P (\<lambda>tm. case txn_of tm i of None \<Rightarrow> (Panic, tm) | Some t \<Rightarrow> f t tm) Q E"
proof (rule tripleI)
  fix tm assume "P tm"
  then show "case (case txn_of tm i of None \<Rightarrow> (Panic, tm) | Some t \<Rightarrow> f t tm) of (Ok a, s') \<Rightarrow> Q a s' | (Err e, s') \<Rightarrow> E s' | _ \<Rightarrow> True"
    using tripleD [OF assms, of tm] by (cases "txn_of tm i") simp_all
qed

lemma triple_pre: "triple P' m Q E \<Longrightarrow> (\<And>s. P s \<Longrightarrow> P' (h s)) \<Longrightarrow> triple P (\<lambda>s. m (h s)) Q E"
  by (simp add: triple_def)

section \<open>Prepare and savepoints\<close>

lemma t_prepare:
  assumes f: "foreign j S"
  shows "triple (good X S) (txn_prepare j) (\<lambda>_. good X S) (good X S)"
  unfolding txn_prepare_def
proof (rule triple_bind [OF t_require], rule triple_ite)
  show "triple (\<lambda>tm. good X S tm \<and> known tx_live tm j) (\<lambda>tm. (Ok (), tm)) (\<lambda>_. good X S) (good X S)"
    by (rule triple_ret) simp
  have "triple (\<lambda>tm. good X S tm \<and> known tx_live tm j) (modify_txn j (\<lambda>t. t\<lparr>tx_state := TsPrepared\<rparr>))
      (\<lambda>_ tm. good X S tm \<and> known (\<lambda>_. True) tm j) (good X S)"
    by (rule t_modify [OF f]) (simp add: keeps_def writes_ok_def)
  then show "triple (\<lambda>tm. good X S tm \<and> known tx_live tm j) (sbind (modify_txn j (\<lambda>t. t\<lparr>tx_state := TsPrepared\<rparr>)) (\<lambda>_ tm.
       (Ok (), tm\<lparr>tm_stats := (tm_stats tm)\<lparr>ct_prepared := ct_prepared (tm_stats tm) + 1\<rparr>\<rparr>))) (\<lambda>_. good X S) (good X S)"
    by (rule triple_bind) (rule triple_ret, simp)
qed

lemma t_savepoint:
  assumes f: "foreign j S"
  shows "triple (good X S) (txn_savepoint j n) (\<lambda>_. good X S) (good X S)"
  unfolding txn_savepoint_def
proof (rule triple_bind [OF t_require], rule triple_txn, rule triple_if)
  fix t
  show "triple (\<lambda>tm. (good X S tm \<and> known tx_live tm j) \<and> txn_of tm j = Some t)
     (\<lambda>tm. (Err (Internal (str ''savepoint '' @ n @ str '' already exists'')), tm)) (\<lambda>_. good X S) (good X S)"
    by (rule triple_err) simp
  have "triple (\<lambda>tm. good X S tm \<and> known tx_live tm j)
     (modify_txn j (\<lambda>t. t\<lparr>tx_savepoints := tx_savepoints t @
           [\<lparr>sp_name = n, sp_undo_len = length (tx_undo t), sp_writes = tx_writes t, sp_reads = tx_reads t\<rparr>]\<rparr>))
     (\<lambda>_ tm. good X S tm \<and> known tx_live tm j) (good X S)"
    by (rule t_modify [OF f]) (auto simp: keeps_def writes_ok_def tx_live_def)
  then show "triple (\<lambda>tm. (good X S tm \<and> known tx_live tm j) \<and> txn_of tm j = Some t)
     (modify_txn j (\<lambda>t. t\<lparr>tx_savepoints := tx_savepoints t @
           [\<lparr>sp_name = n, sp_undo_len = length (tx_undo t), sp_writes = tx_writes t, sp_reads = tx_reads t\<rparr>]\<rparr>)) (\<lambda>_. good X S) (good X S)"
    by (rule triple_weaken) auto
qed

lemma undo_txn [simp]: "txn_of (fold (undo_one i) us tm) = txn_of tm"
proof (induction us arbitrary: tm)
  case (Cons u us)
  have "txn_of (undo_one i u tm) = txn_of tm"
    by (auto simp: undo_one_def txn_of_def Let_def fun_eq_iff split: option.split)
  then show ?case using Cons by simp
qed simp

lemma good_undo_all: "good X S tm \<Longrightarrow> foreign j S \<Longrightarrow> good X S (fold (undo_one j) us tm)"
  by (induction us arbitrary: tm) (simp_all add: good_undo)

lemma t_rollback_to:
  assumes f: "foreign j S"
  shows "triple (good X S) (rollback_to_savepoint j n) (\<lambda>_. good X S) (good X S)"
  unfolding rollback_to_savepoint_def
proof (rule triple_bind [OF t_require], rule triple_txn)
  fix t
  show "triple (\<lambda>tm. (good X S tm \<and> known tx_live tm j) \<and> txn_of tm j = Some t)
    (\<lambda>tm. case savepoint_of t n of None \<Rightarrow> (Err (unknown_savepoint n), tm)
       | Some sp \<Rightarrow> (let (removed, kept) = undo_truncate_to (sp_undo_len sp) (tx_undo t) in
           sbind (modify_txn j (\<lambda>t. t\<lparr>tx_savepoints := filter (\<lambda>s. sp_undo_len s \<le> sp_undo_len sp) (tx_savepoints t),
             tx_undo := kept\<rparr>)) (\<lambda>_ tm.
           modify_txn j (\<lambda>t. t\<lparr>tx_writes := sp_writes sp, tx_reads := sp_reads sp\<rparr>) (fold (undo_one j) removed tm)) tm))
    (\<lambda>_. good X S) (good X S)"
  proof (cases "savepoint_of t n")
    case None
    then show ?thesis by (simp add: triple_def)
  next
    case (Some sp)
    then have sp: "sp \<in> set (tx_savepoints t)" by (auto simp: savepoint_of_def find_Some_iff)
    let ?removed = "rev (drop (sp_undo_len sp) (tx_undo t))" and ?kept = "take (sp_undo_len sp) (tx_undo t)"
    let ?f = "\<lambda>t. t\<lparr>tx_savepoints := filter (\<lambda>s. sp_undo_len s \<le> sp_undo_len sp) (tx_savepoints t), tx_undo := ?kept\<rparr>"
    let ?g = "\<lambda>t. t\<lparr>tx_writes := sp_writes sp, tx_reads := sp_reads sp\<rparr>"
    have *: "triple (\<lambda>tm. good X S tm \<and> known tx_live tm j)
        (sbind (modify_txn j ?f) (\<lambda>_ tm. modify_txn j ?g (fold (undo_one j) ?removed tm))) (\<lambda>_. good X S) (good X S)"
      if bs: "bs_ok (sp_writes sp)"
    proof (rule triple_bind)
      show "triple (\<lambda>tm. good X S tm \<and> known tx_live tm j) (modify_txn j ?f) (\<lambda>_ tm. good X S tm \<and> known tx_live tm j) (good X S)"
        by (rule t_modify [OF f]) (auto simp: keeps_def writes_ok_def tx_live_def)
      have "triple (\<lambda>tm. good X S tm \<and> known tx_live tm j) (modify_txn j ?g) (\<lambda>_ tm. good X S tm \<and> known tx_live tm j) (good X S)"
        by (rule t_modify [OF f]) (auto simp: keeps_def writes_ok_def tx_live_def bs)
      then have "triple (\<lambda>tm. good X S tm \<and> known tx_live tm j) (modify_txn j ?g) (\<lambda>_. good X S) (good X S)"
        by (rule triple_weaken) simp_all
      then show "triple (\<lambda>tm. good X S tm \<and> known tx_live tm j) (\<lambda>tm. modify_txn j ?g (fold (undo_one j) ?removed tm)) (\<lambda>_. good X S) (good X S)"
        by (rule triple_pre) (simp add: good_undo_all f known_def)
    qed
    show ?thesis
    proof (rule tripleI)
      fix tm assume a: "(good X S tm \<and> known tx_live tm j) \<and> txn_of tm j = Some t"
      then have "bs_ok (sp_writes sp)" using good_wf [of X S tm j t] sp by (auto simp: txn_wf_def writes_ok_def)
      from tripleD [OF * [OF this], of tm] a Some
      show "case (case savepoint_of t n of None \<Rightarrow> (Err (unknown_savepoint n), tm)
       | Some sp \<Rightarrow> (let (removed, kept) = undo_truncate_to (sp_undo_len sp) (tx_undo t) in
           sbind (modify_txn j (\<lambda>t. t\<lparr>tx_savepoints := filter (\<lambda>s. sp_undo_len s \<le> sp_undo_len sp) (tx_savepoints t),
             tx_undo := kept\<rparr>)) (\<lambda>_ tm.
           modify_txn j (\<lambda>t. t\<lparr>tx_writes := sp_writes sp, tx_reads := sp_reads sp\<rparr>) (fold (undo_one j) removed tm)) tm)) of
          (Ok a, s') \<Rightarrow> good X S s' | (Err e, s') \<Rightarrow> good X S s' | _ \<Rightarrow> True"
        by (simp add: undo_truncate_to_def)
    qed
  qed
qed

lemma t_release:
  assumes f: "foreign j S"
  shows "triple (good X S) (release_savepoint j n) (\<lambda>_. good X S) (good X S)"
  unfolding release_savepoint_def Let_def
proof (rule triple_bind [OF t_require], rule triple_txn, rule triple_bind)
  fix t
  have "triple (\<lambda>tm. good X S tm \<and> known (\<lambda>u. tx_live u \<and> u = t) tm j)
      (modify_txn j (\<lambda>u. u\<lparr>tx_savepoints := filter (\<lambda>s. sp_name s \<noteq> n) (tx_savepoints t)\<rparr>))
      (\<lambda>_ tm. good X S tm \<and> known tx_live tm j) (good X S)"
    by (rule t_modify [OF f]) (auto simp: keeps_def writes_ok_def tx_live_def)
  then show "triple (\<lambda>tm. (good X S tm \<and> known tx_live tm j) \<and> txn_of tm j = Some t)
      (modify_txn j (\<lambda>u. u\<lparr>tx_savepoints := filter (\<lambda>s. sp_name s \<noteq> n) (tx_savepoints t)\<rparr>))
      (\<lambda>_ tm. good X S tm \<and> known tx_live tm j) (good X S)"
    by (rule triple_weaken) (auto simp: known_def)
  show "triple (\<lambda>tm. good X S tm \<and> known tx_live tm j)
      (\<lambda>tm. if length (filter (\<lambda>s. sp_name s \<noteq> n) (tx_savepoints t)) = length (tx_savepoints t)
         then (Err (unknown_savepoint n), tm) else (Ok (), tm)) (\<lambda>_. good X S) (good X S)"
    by (simp add: triple_def)
qed

lemma t_predicate:
  assumes f: "foreign j S"
  shows "triple (good X S) (add_predicate_lock j rows) (\<lambda>_. good X S) (good X S)"
  unfolding add_predicate_lock_def
proof (rule triple_bind [OF t_require], rule triple_bind)
  show "triple (\<lambda>tm. good X S tm \<and> known tx_live tm j)
    (modify_txn j (\<lambda>t. t\<lparr>tx_preds := fold bs_insert rows (tx_preds t), tx_reads := fold bs_insert rows (tx_reads t)\<rparr>))
    (\<lambda>_ tm. good X S tm \<and> known tx_live tm j) (good X S)"
    by (rule t_modify [OF f]) (simp add: keeps_def writes_ok_def tx_live_def)
qed (rule triple_ret, simp)

lemma t_lock:
  "triple (good X S) (acquire_lock j r x) (\<lambda>_. good X S) (good X S)"
  unfolding acquire_lock_def
proof (rule triple_bind [OF t_require])
  show "triple (\<lambda>tm. good X S tm \<and> known tx_live tm j) (if x then acquire_exclusive j r else acquire_shared j r) (\<lambda>_. good X S) (good X S)"
    using triple_weaken [OF t_acquire(1) [of X S tx_live j r]] triple_weaken [OF t_acquire(2) [of X S tx_live j r]] by (cases x) simp_all
qed

section \<open>Garbage collection and checkpoints\<close>

lemma oldest_fold_le:
  "foldl (\<lambda>oldest i. case txn_of tm i of None \<Rightarrow> oldest
     | Some t \<Rightarrow> if rv_snapshot (tx_view t) < oldest then rv_snapshot (tx_view t) else oldest) x is \<le> x \<and>
   (\<forall>i \<in> set is. \<forall>t. txn_of tm i = Some t \<longrightarrow> foldl (\<lambda>oldest i. case txn_of tm i of None \<Rightarrow> oldest
     | Some t \<Rightarrow> if rv_snapshot (tx_view t) < oldest then rv_snapshot (tx_view t) else oldest) x is \<le> rv_snapshot (tx_view t))"
proof (induction "is" arbitrary: x)
  case (Cons i "is")
  show ?case
  proof (cases "txn_of tm i")
    case None
    then show ?thesis using Cons [of x] by simp
  next
    case (Some t)
    then show ?thesis using Cons [of "if rv_snapshot (tx_view t) < x then rv_snapshot (tx_view t) else x"]
      by (auto split: if_splits intro: order_trans less_imp_le)
  qed
qed simp

lemma oldest_le: "i \<in> set (tm_active tm) \<Longrightarrow> txn_of tm i = Some t \<Longrightarrow> oldest_active_snapshot tm \<le> rv_snapshot (tx_view t)"
  using oldest_fold_le unfolding oldest_active_snapshot_def by blast

definition gc_chains :: "timestamp \<Rightarrow> (u64, version_chain) bmap \<Rightarrow> (u64, version_chain) bmap" where
  "gc_chains oldest cs = filter (\<lambda>(r, c). vc_versions c \<noteq> [])
     (map (\<lambda>(r, c). (r, c\<lparr>vc_versions := filter (gc_keeps oldest) (vc_versions c)\<rparr>)) cs)"

lemma gc_chains_ok [simp]: "bm_ok cs \<Longrightarrow> bm_ok (gc_chains oldest cs)"
  by (simp add: gc_chains_def)

lemma gc_chains_at [simp]:
  assumes "bm_ok cs"
  shows "versions_at (gc_chains oldest cs) r = filter (gc_keeps oldest) (versions_at cs r)"
proof -
  have "bm_get (gc_chains oldest cs) r = (case bm_get (map (\<lambda>(r, c). (r, c\<lparr>vc_versions := filter (gc_keeps oldest) (vc_versions c)\<rparr>)) cs) r of
      None \<Rightarrow> None | Some v \<Rightarrow> if vc_versions v \<noteq> [] then Some v else None)"
    unfolding gc_chains_def by (rule bm_get_filter) (simp add: assms)
  then show ?thesis by (simp add: versions_at_def bm_get_map_values split: option.split)
qed

lemma gc_state: "snd (garbage_collect tm) = tm\<lparr>tm_chains := gc_chains (oldest_active_snapshot tm) (tm_chains tm),
    tm_preds := filter (\<lambda>l. pl_txn l \<in> set (tm_active tm)) (tm_preds tm),
    tm_stats := (tm_stats tm)\<lparr>ct_gc_runs := ct_gc_runs (tm_stats tm) + 1,
      ct_gc_removed := ct_gc_removed (tm_stats tm) + of_nat (fst (garbage_collect tm))\<rparr>\<rparr>"
  by (simp add: garbage_collect_def Let_def gc_chains_def)

lemma good_gc:
  assumes g: "good X S tm"
  shows "good X S (snd (garbage_collect tm))"
proof -
  let ?cs = "gc_chains (oldest_active_snapshot tm) (tm_chains tm)"
  let ?tm = "tm\<lparr>tm_chains := ?cs\<rparr>"
  note c = good_chain_facts [OF g]
  note at = gc_chains_at [OF c(1)]
  have wf: "txn_wf ?tm i t = txn_wf tm i t" "txn_of ?tm i = txn_of tm i" for i t by (simp_all add: txn_wf_def txn_of_def)
  have "hides ?cs t" if "hides (tm_chains tm) t" for t using that by (auto simp: hides_def at)
  then have "txns_ok ?tm" using g by (simp add: txns_ok_def good_def tm_ok_def wf)
  moreover have "chains_ok ?tm" using c versions_ok_filter [OF c(2)] by (simp add: chains_ok_def at)
  moreover have "active_ok X ?tm" using g unfolding good_def tm_ok_def active_ok_def by (auto simp: at c)
  moreover have "locks_ok ?tm" using good_locks [OF g] by (simp add: locks_ok_def)
  moreover have "snap x ?tm" if x: "x \<in> S" for x
  proof -
    obtain i t v where e: "x = (i, t, v)" by (cases x)
    have sn: "snap (i, t, v) tm" using g x e by (simp add: good_def)
    then have t: "txn_of tm i = Some t" "tx_live t" by (simp_all add: snap_def)
    then have "i \<in> set (tm_active tm)" using good_wf [OF g t(1)] by (simp add: txn_wf_def)
    then have "seen_in (tx_view t) (versions_at ?cs r) = seen_in (tx_view t) (versions_at (tm_chains tm) r)" for r
      using seen_collect [OF oldest_le] t(1) by (simp add: at)
    then show ?thesis using sn by (simp add: e snap_def wf view_row_seen)
  qed
  ultimately have "good X S ?tm" by (simp add: good_def tm_ok_def)
  then show ?thesis unfolding gc_state by simp
qed

lemma t_checkpoint: "triple (good X S) txn_checkpoint (\<lambda>_. good X S) (good X S)"
proof (rule tripleI)
  fix tm assume g: "good X S tm"
  have gc: "good X S (snd (garbage_collect (tm\<lparr>tm_wal := w, tm_stats := x\<rparr>)))" for w x
    by (rule good_gc) (simp add: g)
  show "case txn_checkpoint tm of (Ok a, s') \<Rightarrow> good X S s' | (Err e, s') \<Rightarrow> good X S s' | _ \<Rightarrow> True"
    unfolding txn_checkpoint_def using gc g
    by (auto simp: case_prod_beta split: res.split prod.split)
qed

section \<open>Calls\<close>

text \<open>The public operations that change the manager.\<close>

datatype txn_call =
    CallBegin isolation
  | CallPrepare txn_id
  | CallCommit txn_id
  | CallRollback txn_id
  | CallRead txn_id u64
  | CallInsert txn_id u64 val
  | CallUpdate txn_id u64 val
  | CallDelete txn_id u64
  | CallLock txn_id u64 bool
  | CallSavepoint txn_id rstr
  | CallRollbackTo txn_id rstr
  | CallRelease txn_id rstr
  | CallPredicate txn_id "u64 list"
  | CallAddWait txn_id txn_id
  | CallClearWait txn_id
  | CallCollect
  | CallCheckpoint

text \<open>The transaction a call acts for.\<close>

fun call_txn :: "txn_call \<Rightarrow> txn_id option" where
  "call_txn (CallPrepare i) = Some i"
| "call_txn (CallCommit i) = Some i"
| "call_txn (CallRollback i) = Some i"
| "call_txn (CallRead i r) = Some i"
| "call_txn (CallInsert i r v) = Some i"
| "call_txn (CallUpdate i r v) = Some i"
| "call_txn (CallDelete i r) = Some i"
| "call_txn (CallLock i r x) = Some i"
| "call_txn (CallSavepoint i n) = Some i"
| "call_txn (CallRollbackTo i n) = Some i"
| "call_txn (CallRelease i n) = Some i"
| "call_txn (CallPredicate i rows) = Some i"
| "call_txn _ = None"

text \<open>A call with its result forgotten; an error value leaves its state behind, a panic ends the run.\<close>

definition run_op :: "'a txn_op \<Rightarrow> txn_manager \<Rightarrow> txn_manager option" where
  "run_op m tm = (case m tm of (Ok _, tm) \<Rightarrow> Some tm | (Err _, tm) \<Rightarrow> Some tm | _ \<Rightarrow> None)"

fun run_call :: "txn_call \<Rightarrow> txn_manager \<Rightarrow> txn_manager option" where
  "run_call (CallBegin lv) = run_op (txn_begin lv)"
| "run_call (CallPrepare i) = run_op (txn_prepare i)"
| "run_call (CallCommit i) = run_op (txn_commit i)"
| "run_call (CallRollback i) = run_op (txn_rollback i)"
| "run_call (CallRead i r) = run_op (txn_read i r)"
| "run_call (CallInsert i r v) = run_op (txn_insert i r v)"
| "run_call (CallUpdate i r v) = run_op (txn_update i r v)"
| "run_call (CallDelete i r) = run_op (txn_delete i r)"
| "run_call (CallLock i r x) = run_op (acquire_lock i r x)"
| "run_call (CallSavepoint i n) = run_op (txn_savepoint i n)"
| "run_call (CallRollbackTo i n) = run_op (rollback_to_savepoint i n)"
| "run_call (CallRelease i n) = run_op (release_savepoint i n)"
| "run_call (CallPredicate i rows) = run_op (add_predicate_lock i rows)"
| "run_call (CallAddWait w h) = (\<lambda>tm. Some (add_wait_for w h tm))"
| "run_call (CallClearWait i) = (\<lambda>tm. Some (clear_wait_for i tm))"
| "run_call CallCollect = (\<lambda>tm. Some (snd (garbage_collect tm)))"
| "run_call CallCheckpoint = run_op txn_checkpoint"

fun run_calls :: "txn_call list \<Rightarrow> txn_manager \<Rightarrow> txn_manager option" where
  "run_calls [] tm = Some tm"
| "run_calls (c # cs) tm = (case run_call c tm of None \<Rightarrow> None | Some tm \<Rightarrow> run_calls cs tm)"

inductive tm_reach :: "txn_manager \<Rightarrow> bool" where
  start: "tm_reach (manager_with_wal w)"
| recovered: "txn_recover (manager_with_wal w) = (Ok u, tm) \<Longrightarrow> tm_reach tm"
| step: "tm_reach tm \<Longrightarrow> run_call c tm = Some tm' \<Longrightarrow> tm_reach tm'"

inductive_cases tm_reach_cases: "tm_reach tm"

lemma run_op_good: "triple P m (\<lambda>_. Q) Q \<Longrightarrow> P tm \<Longrightarrow> run_op m tm = Some tm' \<Longrightarrow> Q tm'"
  using tripleD [of P m "\<lambda>_. Q" Q tm] by (auto simp: run_op_def split: prod.splits res.splits)

lemma good_wait: "good X S tm \<Longrightarrow> good X S (add_wait_for w h tm)" "good X S tm \<Longrightarrow> good X S (clear_wait_for i tm)"
proof -
  assume g: "good X S tm"
  note l = good_locks [OF g]
  show "good X S (add_wait_for w h tm)"
    by (rule good_same_core [OF g]) (simp_all add: add_wait_for_def l)
  show "good X S (clear_wait_for i tm)"
    by (rule good_same_core [OF g]) (use l in \<open>simp_all add: clear_wait_for_def locks_ok_def\<close>)
qed

lemma run_call_good:
  assumes g: "good {} S tm" and r: "run_call c tm = Some tm'" and f: "\<And>j. call_txn c = Some j \<Longrightarrow> foreign j S"
  shows "good {} S tm'"
proof -
  have weak: "triple (good {} S) m (\<lambda>_ tm. good {} S tm \<and> P tm) (good {} S) \<Longrightarrow> triple (good {} S) m (\<lambda>_. good {} S) (good {} S)" for m P
    by (erule triple_weaken) simp_all
  note ts = t_prepare t_commit t_rollback t_writes weak [OF t_read] t_savepoint t_rollback_to t_release t_predicate
  show ?thesis
    using r g f by (cases c) (auto simp: good_wait good_gc elim!: run_op_good [rotated 2] intro!: ts t_begin t_checkpoint t_lock)
qed

lemma run_calls_good:
  "good {} S tm \<Longrightarrow> run_calls cs tm = Some tm' \<Longrightarrow> (\<And>c j. c \<in> set cs \<Longrightarrow> call_txn c = Some j \<Longrightarrow> foreign j S) \<Longrightarrow> good {} S tm'"
proof (induction cs arbitrary: tm)
  case (Cons c cs)
  then obtain tm1 where "run_call c tm = Some tm1" "run_calls cs tm1 = Some tm'" by (auto split: option.splits)
  moreover have "good {} S tm1" by (rule run_call_good [OF Cons.prems(1) calculation(1)]) (use Cons.prems(3) in auto)
  ultimately show ?case using Cons by auto
qed simp

lemma reach_good: "tm_reach tm \<Longrightarrow> good {} {} tm"
  by (induction rule: tm_reach.induct) (auto simp: good_new foreign_def intro: run_call_good recovered_good)

lemma reach_calls: "tm_reach tm \<Longrightarrow> run_calls cs tm = Some tm' \<Longrightarrow> tm_reach tm'"
  by (induction cs arbitrary: tm) (auto split: option.splits intro: tm_reach.step)

end
