(* ===== verification/TxnFacts.thy ===== *)
theory TxnFacts
  imports TxnCalls
begin

text \<open>
  What the transaction manager promises its callers: snapshot isolation, publication by commit,
  invisibility of garbage collection, exclusion by row locks and validation of serializable
  transactions.
\<close>

section \<open>What a successful commit did\<close>

lemma modify_Ok: "modify_txn i f tm = (Ok x, tm') \<longleftrightarrow>
    (\<exists>t. txn_of tm i = Some t \<and> tm' = tm\<lparr>tm_registry := bm_insert i (f t) (tm_registry tm)\<rparr>)"
  by (auto simp: modify_txn_def split: option.split)

lemma txn_log_Ok:
  assumes "txn_log i k p tm = (Ok x, tm')"
  shows "\<exists>t l w. txn_of tm i = Some t \<and> tm' = tm\<lparr>tm_wal := w, tm_registry := bm_insert i (t\<lparr>tx_lsn := l\<rparr>) (tm_registry tm)\<rparr>"
  using assms by (auto simp: txn_log_def modify_Ok txn_of_def split: res.splits prod.splits)

lemma require_Ok: "require_live i tm = (Ok x, tm') \<longleftrightarrow> tm' = tm \<and> known tx_live tm i"
  by (auto simp: require_live_def known_def split: option.split)

lemma release_locks_other [simp]: "same_core tm (release_locks i tm)"
  by (simp add: release_locks_def clear_wait_for_def same_core_def)

lemma release_locks_holds:
  assumes "locks_ok tm"
  shows "\<not> holds_lock (release_locks i tm) i r"
proof -
  let ?ls = "filter (\<lambda>(r, e). \<not> lock_is_empty e) (map (\<lambda>(r, e). (r, lock_without i e)) (tm_locks tm))"
  have bm: "bm_ok (tm_locks tm)" and ok: "bm_get (tm_locks tm) r = Some e \<Longrightarrow> bs_ok (lk_shared e)" for e
    using assms by (auto simp: locks_ok_def lock_ok_def)
  have "bm_get ?ls r = (case bm_get (map (\<lambda>(r, e). (r, lock_without i e)) (tm_locks tm)) r of None \<Rightarrow> None
        | Some v \<Rightarrow> if \<not> lock_is_empty v then Some v else None)"
    by (rule bm_get_filter) (simp add: bm)
  then show ?thesis
    using ok by (auto simp: holds_lock_def release_locks_def clear_wait_for_def bm_get_map_values lock_without_def
        split: option.splits if_splits)
qed

lemma commit_writes_Ok:
  assumes r: "commit_writes i tm = (Ok ts, tm')" and l: "locks_ok tm"
  shows "\<exists>t t'. txn_of tm i = Some t \<and> ts = tm_next_ts tm \<and> tm_next_ts tm \<noteq> - 1 \<and> tm_next_ts tm' = tm_next_ts tm + 1 \<and>
    tm_chains tm' = fold (finalize_write i ts) (tx_writes t) (tm_chains tm) \<and>
    txn_of tm' i = Some t' \<and> tx_state t' = TsCommitted \<and> tx_commit t' = Some ts \<and>
    tm_active tm' = bs_remove i (tm_active tm) \<and> (\<forall>r. \<not> holds_lock tm' i r)"
proof -
  have n: "tm_next_ts tm \<noteq> - 1" using r by (auto simp: commit_writes_def sbind_def tick_def)
  let ?tm1 = "tm\<lparr>tm_next_ts := tm_next_ts tm + 1\<rparr>"
  obtain t where t: "txn_of tm i = Some t" and ts: "ts = tm_next_ts tm" and
    r2: "sbind (modify_txn i (\<lambda>t. t\<lparr>tx_state := TsCommitted, tx_commit := Some ts\<rparr>)) (\<lambda>_.
       sbind (txn_log i RtCommit []) (\<lambda>_ tm.
         (Ok ts, (release_locks i (tm\<lparr>tm_active := bs_remove i (tm_active tm)\<rparr>))
            \<lparr>tm_stats := (tm_stats tm)\<lparr>ct_committed := ct_committed (tm_stats tm) + 1\<rparr>\<rparr>)))
       (?tm1\<lparr>tm_chains := fold (finalize_write i ts) (tx_writes t) (tm_chains tm)\<rparr>) = (Ok ts, tm')"
    using r n unfolding commit_writes_def sbind_eq_Ok by (auto simp: tick_def txn_of_def sbind_eq_Ok Let_def split: option.splits)
  let ?u = "t\<lparr>tx_state := TsCommitted, tx_commit := Some ts\<rparr>"
  obtain l2 w where tm': "tm' = (release_locks i (?tm1\<lparr>tm_chains := fold (finalize_write i ts) (tx_writes t) (tm_chains tm), tm_wal := w,
        tm_registry := bm_insert i (?u\<lparr>tx_lsn := l2\<rparr>) (bm_insert i ?u (tm_registry tm)),
        tm_active := bs_remove i (tm_active tm)\<rparr>))\<lparr>tm_stats := (tm_stats tm)\<lparr>ct_committed := ct_committed (tm_stats tm) + 1\<rparr>\<rparr>"
    using t r2 by (auto simp: sbind_eq_Ok modify_Ok txn_of_def release_locks_def clear_wait_for_def dest!: txn_log_Ok)
  define M where "M = ?tm1\<lparr>tm_chains := fold (finalize_write i ts) (tx_writes t) (tm_chains tm), tm_wal := w,
        tm_registry := bm_insert i (?u\<lparr>tx_lsn := l2\<rparr>) (bm_insert i ?u (tm_registry tm)),
        tm_active := bs_remove i (tm_active tm)\<rparr>"
  have eq: "tm' = (release_locks i M)\<lparr>tm_stats := (tm_stats tm)\<lparr>ct_committed := ct_committed (tm_stats tm) + 1\<rparr>\<rparr>"
    using tm' by (simp only: M_def)
  have c: "same_core M tm'" unfolding eq by simp
  have "locks_ok M" using l by (simp add: M_def locks_ok_def)
  then have "\<not> holds_lock tm' i r" for r using release_locks_holds [of M i r] by (simp add: eq holds_lock_def)
  moreover have "tm_chains tm' = tm_chains M" "tm_active tm' = tm_active M" "tm_next_ts tm' = tm_next_ts M" "txn_of tm' i = txn_of M i"
    using c same_core_txn [OF c] by (simp_all add: same_core_def)
  ultimately show ?thesis using t ts n by (simp add: M_def txn_of_def)
qed

lemma commit_Ok:
  assumes r: "txn_commit i tm = (Ok ts, tm')" and l: "locks_ok tm"
  shows "serializable_conflict tm i = None \<and> known tx_live tm i \<and> commit_writes i tm = (Ok ts, tm')"
  using r by (auto simp: txn_commit_def sbind_eq_Ok require_Ok split: option.splits)

text \<open>Beginning a transaction touches no chain.\<close>

lemma begin_Ok:
  assumes "txn_begin lv tm = (Ok k, tm')"
  shows "k = tm_next_id tm \<and> tm_next_ts tm \<noteq> - 1 \<and> tm_chains tm' = tm_chains tm \<and>
    (\<exists>l. txn_of tm' k = Some ((transaction_new k (tm_next_ts tm) (tm_active tm) lv)\<lparr>tx_lsn := l\<rparr>))"
  using assms by (auto simp: txn_begin_def Let_def sbind_eq_Ok tick_def txn_of_def split: if_splits res.splits prod.splits)

section \<open>The invariant\<close>

section \<open>Snapshot isolation\<close>

lemma txn_read_fixed:
  assumes t: "txn_of tm i = Some t" "tx_live t" "fixed_view t"
  shows "fst (txn_read i r tm) = Ok (view_row (tx_view t) (tm_chains tm) r)"
  using t by (auto simp: txn_read_def sbind_def require_live_def fixed_view_def sret_def modify_txn_def)

section \<open>Publication\<close>

lemma begin_view:
  assumes g: "good {} {} tm" and b: "txn_begin lv tm = (Ok k, tm')" and lv: "lv \<noteq> ReadUncommitted"
  shows "\<exists>t. txn_of tm' k = Some t \<and> view_row (tx_view t) (tm_chains tm') r = Option.bind (find is_current (versions_at (tm_chains tm) r)) given"
proof -
  let ?now = "tm_next_ts tm" and ?vs = "versions_at (tm_chains tm) r"
  obtain l where k: "k = tm_next_id tm" "?now \<noteq> - 1" "tm_chains tm' = tm_chains tm"
    "txn_of tm' k = Some ((transaction_new k ?now (tm_active tm) lv)\<lparr>tx_lsn := l\<rparr>)"
    using begin_Ok [OF b] by blast
  let ?rv = "tx_view (transaction_new k ?now (tm_active tm) lv)"
  have ok: "versions_ok ?now k ?vs" using good_chain_facts(2) [OF g] k(1) by simp
  have "v_writer v < k" if "v \<in> set ?vs" for v using ok that by (simp add: versions_ok_def version_ok_def)
  moreover have "\<forall>v \<in> set ?vs. v_committed v \<longrightarrow> v_writer v \<notin> set (tm_active tm)"
    using g by (simp add: good_def tm_ok_def active_ok_def)
  ultimately have "seen_in ?rv ?vs = Option.bind (find is_current ?vs) given"
    using lv k(2) not_max_less by (intro seen_current [OF ok]) (auto simp: transaction_new_def snapshot_view_def own_intent_def)
  then show ?thesis using k(3,4) by (simp add: view_row_seen)
qed

section \<open>Locks\<close>

lemma lock_state: "bm_get (tm_locks tm) r = Some e \<Longrightarrow> lock_of tm r = e"
  by (simp add: lock_of_def)

lemma holds_lock_of: "holds_lock tm i r \<longleftrightarrow> lk_exclusive (lock_of tm r) = Some i \<or> i \<in> set (lk_shared (lock_of tm r))"
  by (simp add: holds_lock_def lock_of_def lock_default_def split: option.split)

lemma acquire_blocked:
  assumes "lk_exclusive (lock_of tm r) = Some i" and "j \<noteq> i"
  shows "\<exists>e. fst (acquire_exclusive j r tm) = Err e" and "\<exists>e. fst (acquire_shared j r tm) = Err e"
  using assms by (simp_all add: acquire_exclusive_def acquire_shared_def Let_def lock_conflict_def)

text \<open>
  The state while \<open>i\<close> has row \<open>r\<close> locked: the lock stays, and no intent of another transaction appears
  on the row.
\<close>

definition quiet :: "txn_id \<Rightarrow> u64 \<Rightarrow> row_version set \<Rightarrow> txn_manager \<Rightarrow> bool" where
  "quiet i r I tm \<longleftrightarrow> locks_ok tm \<and> bm_ok (tm_chains tm) \<and> lk_exclusive (lock_of tm r) = Some i \<and>
     (\<forall>v \<in> set (versions_at (tm_chains tm) r). \<not> v_committed v \<and> v_writer v \<noteq> i \<longrightarrow> v \<in> I)"

text \<open>Operations that keep a condition in every outcome.\<close>

definition always :: "(txn_manager \<Rightarrow> bool) \<Rightarrow> 'a txn_op \<Rightarrow> bool" where
  "always P m \<longleftrightarrow> triple P m (\<lambda>_. P) P"

named_theorems always_rules

lemma always_bind [always_rules]: "always P m \<Longrightarrow> (\<And>a. always P (f a)) \<Longrightarrow> always P (sbind m f)"
  unfolding always_def by (rule triple_bind)

lemma always_simple [always_rules]:
  "always P (sret a)" "always P (\<lambda>s. (Ok (h s), s))" "always P (\<lambda>s. (Err e, s))" "always P (\<lambda>s. (Panic, s))"
  by (simp_all add: always_def triple_def sret_def)

lemma always_ite [always_rules]: "always P m \<Longrightarrow> always P n \<Longrightarrow> always P (\<lambda>s. if c s then m s else n s)"
  unfolding always_def by (rule triple_ite)

lemma always_if [always_rules]: "always P m \<Longrightarrow> always P n \<Longrightarrow> always P (if c then m else n)"
  by (cases c) simp_all

lemma always_option [always_rules]: "always P m \<Longrightarrow> (\<And>x. always P (n x)) \<Longrightarrow> always P (\<lambda>s. case f s of None \<Rightarrow> m s | Some x \<Rightarrow> n x s)"
  by (auto simp: always_def triple_def split: option.split)

lemma always_pre: "always P m \<Longrightarrow> (\<And>s. P s \<Longrightarrow> P (h s)) \<Longrightarrow> always P (\<lambda>s. m (h s))"
  by (simp add: always_def triple_def)

lemma always_out: "(\<And>s. P s \<Longrightarrow> P (h s)) \<Longrightarrow> always P (\<lambda>s. (x s, h s))"
  by (auto simp: always_def triple_def split: res.split)

lemma always_run_op: "always P m \<Longrightarrow> P tm \<Longrightarrow> run_op m tm = Some tm' \<Longrightarrow> P tm'"
  unfolding always_def by (rule run_op_good)

text \<open>The parts that leave locks and chains alone.\<close>

lemma quiet_fields [simp]:
  "quiet i r I (tm\<lparr>tm_registry := a\<rparr>) = quiet i r I tm" "quiet i r I (tm\<lparr>tm_wal := b\<rparr>) = quiet i r I tm"
  "quiet i r I (tm\<lparr>tm_stats := c\<rparr>) = quiet i r I tm" "quiet i r I (tm\<lparr>tm_preds := d\<rparr>) = quiet i r I tm"
  "quiet i r I (tm\<lparr>tm_active := e\<rparr>) = quiet i r I tm" "quiet i r I (tm\<lparr>tm_next_ts := f\<rparr>) = quiet i r I tm"
  "quiet i r I (tm\<lparr>tm_next_id := g\<rparr>) = quiet i r I tm"
  by (simp_all add: quiet_def locks_ok_def lock_of_def)

lemma quiet_wait: "bm_ok ws \<Longrightarrow> quiet i r I tm \<Longrightarrow> quiet i r I (tm\<lparr>tm_wait := ws\<rparr>)"
  by (simp add: quiet_def locks_ok_def lock_of_def)

lemma quiet_base [always_rules]:
  "always (quiet i r I) (modify_txn k f)" "always (quiet i r I) (require_live k)" "always (quiet i r I) tick"
proof -
  show m: "always (quiet i r I) (modify_txn k f)" for f
    by (simp add: always_def triple_def modify_txn_def split: option.split)
  show "always (quiet i r I) (require_live k)" "always (quiet i r I) tick"
    by (simp_all add: always_def triple_def require_live_def tick_def split: option.split)
qed

lemma quiet_log [always_rules]: "always (quiet i r I) (txn_log k ty p)"
proof (unfold always_def, rule tripleI)
  fix tm assume q: "quiet i r I tm"
  then show "case txn_log k ty p tm of (Ok a, s') \<Rightarrow> quiet i r I s' | (Err e, s') \<Rightarrow> quiet i r I s' | _ \<Rightarrow> True"
    by (cases "wal_append k ty p (tm_wal tm)") (auto simp: txn_log_def modify_txn_def split: prod.split option.split)
qed

lemma quiet_acquire [always_rules]:
  assumes j: "j \<noteq> i"
  shows "always (quiet i r I) (acquire_exclusive j x)" "always (quiet i r I) (acquire_shared j x)"
proof -
  have l: "lock_of (set_lock a e tm) b = (if a = b then e else lock_of tm b)" for a b e tm by (simp add: lock_of_def set_lock_def)
  have l2: "lock_of (wait_remove a tm) b = lock_of tm b" "lock_of (wait_add a hs tm) b = lock_of tm b"
    "lock_of (tm\<lparr>tm_stats := z\<rparr>) b = lock_of tm b" for a b hs tm z
    by (simp_all add: lock_of_def wait_remove_def wait_add_def)
  have lk: "lk_exclusive (lock_of (snd (acquire_exclusive j x tm)) r) = Some i \<and> lk_exclusive (lock_of (snd (acquire_shared j x tm)) r) = Some i"
    if "lk_exclusive (lock_of tm r) = Some i" for tm
    using that j by (auto simp: acquire_exclusive_def acquire_shared_def Let_def l l2 lock_conflict_def split: option.split)
  have q: "quiet i r I (snd (acquire_exclusive j x tm)) \<and> quiet i r I (snd (acquire_shared j x tm))" if "quiet i r I tm" for tm
  proof -
    have h: "locks_ok tm" "lk_exclusive (lock_of tm r) = Some i" using that by (simp_all add: quiet_def)
    show ?thesis using that lk [OF h(2)] acquire_core [OF h(1), of j x] by (simp add: quiet_def same_core_def)
  qed
  show "always (quiet i r I) (acquire_exclusive j x)" "always (quiet i r I) (acquire_shared j x)"
    using q by (force simp: always_def triple_def split: prod.split res.split)+
qed

lemma quiet_release:
  assumes j: "j \<noteq> i" and q: "quiet i r I tm"
  shows "quiet i r I (release_locks j tm)" "quiet i r I (release_one_lock j x tm)"
proof -
  have h: "locks_ok tm" "lk_exclusive (lock_of tm r) = Some i" using q by (simp_all add: quiet_def)
  then obtain e where e: "bm_get (tm_locks tm) r = Some e" "lk_exclusive e = Some i"
    by (auto simp: lock_of_def lock_default_def split: option.splits)
  have bm: "bm_ok (tm_locks tm)" using h(1) by (simp add: locks_ok_def)
  let ?ls = "filter (\<lambda>(r, e). \<not> lock_is_empty e) (map (\<lambda>(r, e). (r, lock_without j e)) (tm_locks tm))"
  have "bm_get ?ls r = (case bm_get (map (\<lambda>(r, e). (r, lock_without j e)) (tm_locks tm)) r of None \<Rightarrow> None
        | Some v \<Rightarrow> if \<not> lock_is_empty v then Some v else None)"
    by (rule bm_get_filter) (simp add: bm)
  then have "bm_get ?ls r = Some (lock_without j e)"
    using e j by (simp add: bm_get_map_values lock_is_empty_def lock_without_def)
  then have "lk_exclusive (lock_of (release_locks j tm) r) = Some i"
    using e j by (simp add: lock_of_def release_locks_def clear_wait_for_def lock_without_def)
  then show "quiet i r I (release_locks j tm)"
    using q release_core(1) [OF h(1), of j] by (simp add: quiet_def same_core_def)
  have "lk_exclusive (lock_of (release_one_lock j x tm) r) = Some i"
    using e j bm by (auto simp: lock_of_def release_one_lock_def Let_def lock_without_def lock_is_empty_def split: option.split)
  then show "quiet i r I (release_one_lock j x tm)"
    using q release_core(2) [OF h(1), of j x] by (simp add: quiet_def same_core_def)
qed


text \<open>Changes of the chains.\<close>

lemma quiet_chains:
  assumes "quiet i r I tm" and "bm_ok cs"
    and "\<And>v. v \<in> set (versions_at cs r) \<Longrightarrow> \<not> v_committed v \<Longrightarrow> v_writer v \<noteq> i \<Longrightarrow> v \<in> set (versions_at (tm_chains tm) r)"
  shows "quiet i r I (tm\<lparr>tm_chains := cs\<rparr>)"
  using assms by (auto simp: quiet_def locks_ok_def lock_of_def)

lemma quiet_strip: "quiet i r I tm \<Longrightarrow> quiet i r I (tm\<lparr>tm_chains := fold (strip_writer_versions j) rs (tm_chains tm)\<rparr>)"
  by (rule quiet_chains) (auto simp: quiet_def strip_all_at split: if_splits)

lemma close_current_intents: "v \<in> set (close_current ts vs) \<Longrightarrow> \<not> v_committed v \<Longrightarrow> v \<in> set vs"
  by (induction vs) (auto simp: close_current_def is_current_def split: if_splits)

lemma finalize_intents: "v \<in> set (finalize_versions j ts vs) \<Longrightarrow> \<not> v_committed v \<Longrightarrow> v \<in> set vs"
  using update_first_set [of "own_intent j" "stamp ts" "close_current ts vs"] close_current_intents
  by (fastforce simp: finalize_versions_def stamp_def split: if_splits)

lemma finalize_all_intents: "v \<in> set (versions_at (fold (finalize_write j ts) rs cs) r) \<Longrightarrow> \<not> v_committed v \<Longrightarrow> v \<in> set (versions_at cs r)"
proof (induction rs arbitrary: cs)
  case (Cons x rs)
  then have "v \<in> set (versions_at (finalize_write j ts x cs) r)" by (simp del: chain_ops_at)
  then show ?case using finalize_intents Cons.prems(2) by (auto split: if_splits)
qed simp

lemma quiet_finalize: "quiet i r I tm \<Longrightarrow> quiet i r I (tm\<lparr>tm_chains := fold (finalize_write j ts) rs (tm_chains tm)\<rparr>)"
  by (rule quiet_chains) (auto simp: quiet_def dest: finalize_all_intents)

lemma quiet_undo:
  assumes j: "j \<noteq> i" and q: "quiet i r I tm"
  shows "quiet i r I (fold (undo_one j) us tm)"
  using q
proof (induction us arbitrary: tm)
  case (Cons u us)
  let ?x = "undo_row u"
  have one: "quiet i r I (undo_one j u tm)"
  proof (cases "bm_get (tm_chains tm) ?x")
    case (Some c)
    let ?vs = "remove_first (own_intent j) (vc_versions c)"
    let ?cs = "if ?vs = [] then bm_remove ?x (tm_chains tm) else bm_insert ?x (c\<lparr>vc_versions := ?vs\<rparr>) (tm_chains tm)"
    have bm: "bm_ok (tm_chains tm)" using Cons.prems by (simp add: quiet_def)
    have at: "versions_at ?cs y = (if y = ?x then ?vs else versions_at (tm_chains tm) y)" for y using bm by auto
    have "set ?vs \<subseteq> set (versions_at (tm_chains tm) ?x)" using remove_first_set by (simp add: versions_at_def Some)
    then have q1: "quiet i r I (tm\<lparr>tm_chains := ?cs\<rparr>)"
      using bm by (intro quiet_chains [OF Cons.prems]) (auto simp: at split: if_splits)
    show ?thesis
    proof (cases "bm_get (tm_locks tm) ?x")
      case None
      then show ?thesis using q1 by (simp add: undo_one_def Let_def Some)
    next
      case e: (Some e)
      let ?e = "if lk_exclusive e = Some j then e\<lparr>lk_exclusive := None\<rparr> else e"
      let ?ls = "if lock_is_empty ?e then bm_remove ?x (tm_locks tm) else bm_insert ?x ?e (tm_locks tm)"
      have l: "locks_ok tm" "lk_exclusive (lock_of tm r) = Some i" using Cons.prems by (simp_all add: quiet_def)
      have "lock_ok e" using l(1) e by (auto simp: locks_ok_def)
      then have "lock_ok ?e" by (auto simp: lock_ok_def)
      then have "locks_ok (tm\<lparr>tm_chains := ?cs, tm_locks := ?ls\<rparr>)"
        using l(1) by (auto simp: locks_ok_def)
      moreover have "bm_ok (tm_locks tm)" using l(1) by (simp add: locks_ok_def)
      then have "lk_exclusive (lock_of (tm\<lparr>tm_chains := ?cs, tm_locks := ?ls\<rparr>) r) = Some i"
        using l(2) e j by (auto simp: lock_of_def lock_is_empty_def split: option.splits)
      ultimately have "quiet i r I (tm\<lparr>tm_chains := ?cs, tm_locks := ?ls\<rparr>)" using q1 by (simp add: quiet_def)
      moreover have "undo_one j u tm = tm\<lparr>tm_chains := ?cs, tm_locks := ?ls\<rparr>"
        by (simp add: undo_one_def Let_def Some e)
      ultimately show ?thesis by simp
    qed
  qed (simp add: undo_one_def Cons.prems)
  then show ?case using Cons.IH by simp
qed simp

lemma quiet_gc: "quiet i r I tm \<Longrightarrow> quiet i r I (snd (garbage_collect tm))"
proof -
  assume q: "quiet i r I tm"
  then have "quiet i r I (tm\<lparr>tm_chains := gc_chains (oldest_active_snapshot tm) (tm_chains tm)\<rparr>)"
    by (intro quiet_chains) (auto simp: quiet_def)
  then show ?thesis unfolding gc_state by simp
qed

lemma quiet_push:
  assumes "x \<noteq> r"
  shows "always (quiet i r I) (push_intent j x mk u k p)"
proof -
  have c: "quiet i r I (tm\<lparr>tm_chains := bm_insert x v (tm_chains tm)\<rparr>)" if "quiet i r I tm" for tm v
    using that assms by (intro quiet_chains) (auto simp: quiet_def)
  have m: "always (quiet i r I) (sbind (modify_txn j f) (\<lambda>_. txn_log j k p))" for f by (intro always_rules)
  show ?thesis unfolding push_intent_def [abs_def] Let_def by (intro always_rules always_pre [OF m] c)
qed

lemma always_self: "(\<And>t. always P (m t)) \<Longrightarrow> always P (\<lambda>s. m s s)"
  by (simp add: always_def triple_def)

lemma quiet_view_read [always_rules]: "always (quiet i r I) (txn_read j x)"
proof -
  have refresh: "always (quiet i r I) (refresh_read_view j)"
    unfolding refresh_read_view_def [abs_def] by (rule always_self) (rule always_rules)
  show ?thesis
    unfolding txn_read_def
    by (intro always_bind quiet_base) (rule always_self, intro always_rules refresh)
qed

lemma quiet_write:
  assumes j: "j \<noteq> i" and rest: "\<And>seen. x \<noteq> r \<Longrightarrow> always (quiet i r I) (k seen)"
  shows "always (quiet i r I) (sbind (require_live j) (\<lambda>_. sbind (acquire_exclusive j x) (\<lambda>_. sbind (txn_read j x) k)))"
proof (cases "x = r")
  case True
  have "\<exists>e. fst (acquire_exclusive j r tm) = Err e" if "quiet i r I tm" for tm
    using acquire_blocked(1) [of tm r i j] that j by (simp add: quiet_def)
  then have "always (quiet i r I) (sbind (acquire_exclusive j x) (\<lambda>_. sbind (txn_read j x) k))"
    using quiet_acquire(1) [OF j, of r I x] unfolding always_def triple_def sbind_def True by (force split: prod.split res.split)
  then show ?thesis by (rule always_bind [OF quiet_base(2)])
next
  case False
  then show ?thesis by (intro always_rules rest j)
qed

lemma quiet_ops [always_rules]:
  assumes j: "j \<noteq> i"
  shows "always (quiet i r I) (txn_insert j x v)" "always (quiet i r I) (txn_update j x v)" "always (quiet i r I) (txn_delete j x)"
proof -
  have e: "always (quiet i r I) (\<lambda>tm. (Err er, release_one_lock j x tm))" for er :: error
    by (rule always_out) (rule quiet_release [OF j])
  show "always (quiet i r I) (txn_insert j x v)" "always (quiet i r I) (txn_update j x v)" "always (quiet i r I) (txn_delete j x)"
    unfolding txn_insert_def txn_update_def txn_delete_def
    by (rule quiet_write [OF j], intro always_rules e quiet_push, assumption)+
qed

lemma quiet_ends [always_rules]:
  assumes j: "j \<noteq> i"
  shows "always (quiet i r I) (txn_rollback j)" "always (quiet i r I) (txn_commit j)"
proof -
  have out: "always (quiet i r I) (\<lambda>tm. (z, release_locks j (tm\<lparr>tm_active := bs_remove j (tm_active tm)\<rparr>)\<lparr>tm_stats := g tm\<rparr>))" for z :: "'b result" and g
    by (rule always_out) (simp add: quiet_release [OF j])
  show rb: "always (quiet i r I) (txn_rollback j)"
    unfolding txn_rollback_def [abs_def] Let_def
    by (intro always_rules) (rule always_pre, intro always_rules out, rule quiet_strip)
  have "always (quiet i r I) (commit_writes j)"
    unfolding commit_writes_def Let_def
    by (intro always_rules) (rule always_pre, intro always_rules out, rule quiet_finalize)
  then show "always (quiet i r I) (txn_commit j)"
    unfolding txn_commit_def by (intro always_rules rb)
qed


lemma quiet_others:
  shows "always (quiet i r I) (txn_prepare j)" "always (quiet i r I) (txn_savepoint j n)" "always (quiet i r I) (release_savepoint j n)"
    "always (quiet i r I) (add_predicate_lock j rows)" "always (quiet i r I) (txn_begin lv)" "always (quiet i r I) txn_checkpoint"
proof -
  show "always (quiet i r I) (txn_prepare j)"
    unfolding txn_prepare_def by (intro always_rules always_out) simp
  show "always (quiet i r I) (txn_savepoint j n)"
    unfolding txn_savepoint_def by (intro always_rules)
  show "always (quiet i r I) (release_savepoint j n)"
    unfolding release_savepoint_def Let_def by (intro always_rules)
  show "always (quiet i r I) (add_predicate_lock j rows)"
    unfolding add_predicate_lock_def by (intro always_rules always_out) simp
  show "always (quiet i r I) (txn_begin lv)"
    by (auto simp: always_def triple_def txn_begin_def Let_def sbind_def tick_def split: res.split prod.split)
  have gc: "quiet i r I (snd (garbage_collect (tm\<lparr>tm_wal := w, tm_stats := x\<rparr>)))" if "quiet i r I tm" for tm w x
    by (rule quiet_gc) (simp add: that)
  show "always (quiet i r I) txn_checkpoint"
    unfolding always_def triple_def txn_checkpoint_def
    using gc by (auto simp: case_prod_beta split: res.split prod.split)
qed

lemma quiet_calls:
  assumes q: "quiet i r I tm" and c: "call_txn c \<noteq> Some i" and run: "run_call c tm = Some tm'"
  shows "quiet i r I tm'"
proof -
  have lock: "always (quiet i r I) (acquire_lock j x e)" if "j \<noteq> i" for j x e
    unfolding acquire_lock_def by (intro always_rules that)
  have undo: "always (quiet i r I) (rollback_to_savepoint j n)" if j: "j \<noteq> i" for j n
    unfolding rollback_to_savepoint_def Let_def undo_truncate_to_def prod.case
    by (intro always_rules) (rule always_pre, rule always_rules, rule quiet_undo [OF j])
  have wait: "quiet i r I (add_wait_for a b tm)" "quiet i r I (clear_wait_for a tm)" for a b
    using q by (simp_all add: add_wait_for_def wait_add_def clear_wait_for_def quiet_wait quiet_def locks_ok_def lock_of_def)
  show ?thesis
    using run c q wait quiet_gc [OF q]
    by (cases c) (auto elim!: always_run_op [rotated 2] intro!: lock undo quiet_others quiet_ops quiet_ends quiet_view_read)
qed

lemma quiet_run:
  "quiet i r I tm \<Longrightarrow> \<forall>c \<in> set cs. call_txn c \<noteq> Some i \<Longrightarrow> run_calls cs tm = Some tm' \<Longrightarrow> quiet i r I tm'"
  by (induction cs arbitrary: tm) (auto split: option.splits dest: quiet_calls)

end
