(* ===== verification/TxnEnds.thy ===== *)
theory TxnEnds
  imports TxnFacts
begin

text \<open>
  Reading one's own writes, the validation of serializable transactions, and rollback.
\<close>

section \<open>Own writes\<close>

lemma own_head_read:
  assumes t: "txn_of tm i = Some t" "tx_live t" "rv_reader (tx_view t) = i"
    and v: "versions_at (tm_chains tm) r = v # vs" "own_intent i v"
  shows "fst (txn_read i r tm) = Ok (given v)"
proof -
  have "view_row rv (tm_chains tm) r = given v" if "rv_reader rv = i" for rv
    using v that by (simp add: view_row_seen seen_in_def is_visible_def own_intent_def given_def)
  then show ?thesis
    using t by (simp add: txn_read_def sbind_def require_live_def sret_def modify_txn_def refresh_read_view_def)
qed

lemma push_Ok:
  assumes "push_intent i r mk u k p tm = (Ok (), tm')"
  shows "\<exists>t t'. txn_of tm i = Some t \<and> txn_of tm' i = Some t' \<and> tx_live t' = tx_live t \<and> tx_view t' = tx_view t \<and>
    tm_chains tm' = bm_insert r (push_head (mk (tx_begin t)) (chain_of r (tm_chains tm))) (tm_chains tm)"
  using assms by (auto simp: push_intent_def sbind_eq_Ok modify_Ok txn_of_def tx_live_def split: option.splits dest!: txn_log_Ok)

lemma write_reads_back:
  assumes reach: "tm_reach tm"
    and w: "sbind (require_live i) (\<lambda>_. sbind (acquire_exclusive i r) (\<lambda>_. sbind (txn_read i r) (\<lambda>seen tm.
       if c seen then (Err e, f tm) else push_intent i r mk u k p tm))) tm = (Ok (), tm')"
    and mk: "\<And>b. own_intent i (mk b)" "\<And>b. given (mk b) = x"
  shows "fst (txn_read i r tm') = Ok x"
proof -
  let ?P = "\<lambda>tm. good {} {} tm \<and> known tx_live tm i"
  obtain tm1 a1 tm2 a2 tm3 where 1: "require_live i tm = (Ok a1, tm1)" "acquire_exclusive i r tm1 = (Ok a2, tm2)"
    and 3: "\<exists>seen. txn_read i r tm2 = (Ok seen, tm3) \<and> push_intent i r mk u k p tm3 = (Ok (), tm')"
    using w by (auto simp: sbind_eq_Ok split: if_splits)
  have f: "foreign i {}" by (simp add: foreign_def)
  have "?P tm1" using triple_Ok [OF t_require _ 1(1)] reach_good [OF reach] by blast
  then have "?P tm2" using triple_Ok [OF t_acquire(1) _ 1(2)] by blast
  then have p3: "?P tm3" using 3 triple_Ok [OF t_read [OF f]] by blast
  obtain t t' where t: "txn_of tm3 i = Some t" "txn_of tm' i = Some t'" "tx_live t' = tx_live t" "tx_view t' = tx_view t"
    "tm_chains tm' = bm_insert r (push_head (mk (tx_begin t)) (chain_of r (tm_chains tm3))) (tm_chains tm3)"
    using 3 push_Ok by blast
  have "rv_reader (tx_view t) = i" "tx_live t" using p3 good_wf t(1) by (auto simp: known_def txn_wf_def)
  then show ?thesis
    using own_head_read [OF t(2), of r "mk (tx_begin t)"] t mk by (simp add: push_head_def)
qed

section \<open>Serializable validation\<close>

section \<open>Rollback\<close>

end
