(* ===== verification/TxnSamples.thy ===== *)
theory TxnSamples
  imports TxnEnds Deadlocks
begin

text \<open>
  Concrete runs of the transaction manager: the instances that show the hypotheses of its properties
  to be satisfiable, and histories in which it does something other than its documentation says.
\<close>

section \<open>Runs\<close>

definition after :: "txn_call list \<Rightarrow> txn_manager" where
  "after cs = (case run_calls cs manager_new of Some tm \<Rightarrow> tm | None \<Rightarrow> manager_new)"

lemma reach_after: "tm_reach (after cs)"
proof -
  have "tm_reach manager_new" unfolding manager_new_def by (rule tm_reach.start)
  then show ?thesis using reach_calls [of manager_new cs] by (simp add: after_def split: option.split)
qed

text \<open>Two transactions have begun, and the first has inserted row 5.\<close>

definition h_written :: "txn_call list" where
  "h_written = [CallBegin RepeatableRead, CallBegin Serializable, CallInsert 1 5 (VInt 10)]"

fun is_ok :: "('e, 'a) res \<times> 's \<Rightarrow> bool" where
  "is_ok (Ok a, s) = True"
| "is_ok _ = False"

definition written_facts :: "txn_manager \<Rightarrow> bool" where
  "written_facts tm \<longleftrightarrow>
     (case (txn_of tm 1, txn_of tm 2) of
        (Some a, Some b) \<Rightarrow> tx_live a \<and> tx_writes a = [5] \<and> tx_live b \<and> tx_isolation b = Serializable
      | _ \<Rightarrow> False) \<and>
     find (own_intent 1) (versions_at (tm_chains tm) 5) = Some (write_intent (VInt 10) 1 1) \<and>
     bm_get (tm_locks tm) 5 = Some \<lparr>lk_shared = [], lk_exclusive = Some 1\<rparr>"

definition next_facts :: "txn_manager \<Rightarrow> bool" where
  "next_facts tm \<longleftrightarrow> is_ok (txn_commit 1 tm) \<and> is_ok (txn_begin RepeatableRead (snd (txn_commit 1 tm)))"

definition other_facts :: "txn_manager \<Rightarrow> bool" where
  "other_facts tm \<longleftrightarrow> is_ok (txn_rollback 1 tm) \<and> is_ok (txn_insert 1 6 (VInt 3) tm) \<and> run_call (CallUpdate 2 5 (VInt 12)) tm \<noteq> None"

lemma written_facts: "written_facts (after h_written)"
  by code_simp

lemma next_facts: "next_facts (after h_written)"
  by code_simp

lemma other_facts: "other_facts (after h_written)"
  by code_simp

section \<open>Instances\<close>

lemma written_txns:
  obtains a b where "txn_of (after h_written) 1 = Some a" "tx_live a" "5 \<in> set (tx_writes a)"
    "txn_of (after h_written) 2 = Some b" "tx_live b" "tx_isolation b = Serializable"
    "find (own_intent 1) (versions_at (tm_chains (after h_written)) 5) = Some (write_intent (VInt 10) 1 1)"
    "bm_get (tm_locks (after h_written)) 5 = Some \<lparr>lk_shared = [], lk_exclusive = Some 1\<rparr>"
  using written_facts by (auto simp: written_facts_def split: option.splits)

lemma is_ok_split: "is_ok x \<longleftrightarrow> (\<exists>a s. x = (Ok a, s))"
  by (cases x; cases "fst x") auto

lemma written_commit: "\<exists>ts tm k tm'. txn_commit 1 (after h_written) = (Ok ts, tm) \<and> txn_begin RepeatableRead tm = (Ok k, tm')"
  using next_facts by (auto simp: next_facts_def is_ok_split)

text \<open>A serializable transaction that read what another had committed before it began.\<close>

definition h_read :: "txn_call list" where
  "h_read = [CallBegin RepeatableRead, CallInsert 1 5 (VInt 10), CallCommit 1, CallBegin Serializable, CallRead 2 5]"

definition read_facts :: "txn_manager \<Rightarrow> bool" where
  "read_facts tm \<longleftrightarrow> (case txn_of tm 2 of Some t \<Rightarrow> tx_isolation t = Serializable \<and> 5 \<in> set (tx_reads t) | None \<Rightarrow> False) \<and>
     is_ok (txn_commit 2 tm) \<and> (\<exists>v \<in> set (versions_at (tm_chains tm) 5). v_committed v \<and> v_writer v \<noteq> 2)"

lemma read_facts: "read_facts (after h_read)"
  by code_simp

section \<open>Histories worth knowing\<close>

definition lost_update_check :: "txn_manager \<Rightarrow> bool" where
  "lost_update_check tm \<longleftrightarrow> map_option v_value (current_committed (chain_of 5 (tm_chains tm))) = Some (VInt 20) \<and>
     state_of tm 1 = Some TsCommitted \<and> state_of tm 2 = Some TsCommitted \<and>
     map_option rv_snapshot (map_option tx_view (txn_of tm 2)) = Some 2 \<and> map_option tx_commit (txn_of tm 1) = Some (Some 3)"

lemma lost_update:
  "lost_update_check (after [CallBegin RepeatableRead, CallBegin RepeatableRead, CallInsert 1 5 (VInt 10), CallCommit 1,
     CallInsert 2 5 (VInt 20), CallCommit 2])"
  by code_simp

definition stranded_check :: "txn_manager \<Rightarrow> bool" where
  "stranded_check tm \<longleftrightarrow> state_of tm 1 = Some TsCommitted \<and>
     (\<exists>v \<in> set (versions_at (tm_chains tm) 5). own_intent 1 v)"

lemma commit_strands_intent:
  "stranded_check (after [CallBegin RepeatableRead, CallInsert 1 5 (VInt 10), CallUpdate 1 5 (VInt 11), CallCommit 1])"
  by code_simp

definition unlocked_check :: "txn_manager \<Rightarrow> bool" where
  "unlocked_check tm \<longleftrightarrow> \<not> holds_lock tm 1 5 \<and> (\<exists>v \<in> set (versions_at (tm_chains tm) 5). own_intent 1 v)"

lemma savepoint_rollback_unlocks:
  "unlocked_check (after [CallBegin RepeatableRead, CallInsert 1 5 (VInt 10), CallSavepoint 1 [],
     CallUpdate 1 5 (VInt 11), CallRollbackTo 1 []])"
  by code_simp

text \<open>
  Recovery replays the committed transactions in the order of their numbers. In this log transaction 2
  commits the value 20 before transaction 1 commits the value 10; the recovered row is 20.
\<close>

definition log_entry :: "u64 \<Rightarrow> rec_type \<Rightarrow> u64 \<Rightarrow> u8 list \<Rightarrow> wal_record" where
  "log_entry l k t p = \<lparr>wr_lsn = l, wr_txn = t, wr_type = k, wr_payload = p\<rparr>"

definition swapped_log :: "wal_record list" where
  "swapped_log = [log_entry 1 RtBegin 1 [], log_entry 2 RtBegin 2 [], log_entry 3 RtInsert 2 (encode_insert_payload 5 [VInt 20]),
     log_entry 4 RtCommit 2 [], log_entry 5 RtInsert 1 (encode_insert_payload 5 [VInt 10]), log_entry 6 RtCommit 1 []]"

definition replayed :: "wal_record list \<Rightarrow> (u64, version_chain) bmap" where
  "replayed ws = tm_chains (snd (replay_txns (fold recover_record ws recovery_new) (rc_begun (fold recover_record ws recovery_new)) manager_new))"

lemma replayed_value: "map_option v_value (current_committed (chain_of 5 (replayed swapped_log))) = Some (VInt 20)"
  by code_simp

end
