(* ===== verification/SqlSyntax.thy ===== *)
theory SqlSyntax
  imports Values
begin

text \<open>
  The syntax trees of the SQL front end (\<open>src/src/sql.rs\<close>): expressions, statements and their parts.
\<close>

datatype unary_op = Neg | Not

datatype bin_op = Add | Sub | Mul | Div | Mod | Eq | NotEq | Lt | LtEq | Gt | GtEq | And | Or

fun precedence :: "bin_op \<Rightarrow> nat" where
  "precedence Or = 1"
| "precedence And = 2"
| "precedence Eq = 3"
| "precedence NotEq = 3"
| "precedence Lt = 3"
| "precedence LtEq = 3"
| "precedence Gt = 3"
| "precedence GtEq = 3"
| "precedence Add = 4"
| "precedence Sub = 4"
| "precedence Mul = 5"
| "precedence Div = 5"
| "precedence Mod = 5"

datatype agg_func = AggCount | AggSum | AggAvg | AggMin | AggMax

datatype expr =
    Column rstr
  | Qualified rstr rstr
  | LitInt i64
  | LitReal f64
  | LitStr rstr
  | LitBool bool
  | NullLit
  | Star
  | Unary unary_op expr
  | Binary bin_op expr expr
  | IsNull expr bool
  | Like expr expr
  | Between expr expr expr
  | InList expr "expr list"
  | Aggregate agg_func bool expr

record select_item =
  si_expr :: expr
  si_alias :: "rstr option"

datatype join_kind = InnerJoin | LeftJoin

record join_clause =
  jn_kind :: join_kind
  jn_table :: rstr
  jn_alias :: "rstr option"
  jn_on :: expr

record order_item =
  oi_expr :: expr
  oi_asc :: bool

record select_stmt =
  sl_distinct :: bool
  sl_items :: "select_item list"
  sl_from :: "rstr option"
  sl_from_alias :: "rstr option"
  sl_joins :: "join_clause list"
  sl_filter :: "expr option"
  sl_group_by :: "expr list"
  sl_having :: "expr option"
  sl_order_by :: "order_item list"
  sl_limit :: "i64 option"
  sl_offset :: "i64 option"

record insert_stmt =
  in_table :: rstr
  in_columns :: "rstr list"
  in_rows :: "expr list list"

record update_stmt =
  up_table :: rstr
  up_assignments :: "(rstr \<times> expr) list"
  up_filter :: "expr option"

record delete_stmt =
  dl_table :: rstr
  dl_filter :: "expr option"

text \<open>The four type keywords a column can be declared with.\<close>

datatype type_keyword = TyInt | TyReal | TyText | TyBool

record column_spec =
  cs_name :: rstr
  cs_kind :: type_keyword
  cs_not_null :: bool
  cs_primary_key :: bool

record create_table_stmt =
  ct_name :: rstr
  ct_columns :: "column_spec list"

datatype sql_statement =
    Select select_stmt
  | Insert insert_stmt
  | Update update_stmt
  | Delete delete_stmt
  | CreateTable create_table_stmt
  | DropTable rstr

end
