(* ===== verification/F64Arith.thy ===== *)
theory F64Arith
  imports Numerals
begin

text \<open>
  Arithmetic on \<open>f64\<close>: the exact rational result, correctly rounded. A result that is not a number is
  the quiet NaN with an empty payload; Rust leaves its sign and payload open.
\<close>

definition f64_pack :: "bool \<Rightarrow> nat \<Rightarrow> f64" where
  "f64_pack neg bits = F64 (word_of_nat (if neg then 2 ^ 63 + bits else bits))"

definition f64_nan :: f64 where
  "f64_nan = f64_pack False (2047 * 2 ^ 52 + 2 ^ 51)"

definition f64_is_inf :: "f64 \<Rightarrow> bool" where
  "f64_is_inf x \<longleftrightarrow> f64_mag x = 2047 * 2 ^ 52"

definition f64_is_zero :: "f64 \<Rightarrow> bool" where
  "f64_is_zero x \<longleftrightarrow> f64_mag x = 0"

definition f64_negate :: "f64 \<Rightarrow> f64" where
  "f64_negate x = f64_pack (\<not> f64_neg x) (f64_mag x)"

text \<open>A finite float is \<open>\<plusminus> sig * 2 ^ exp\<close>.\<close>

definition f64_sig :: "f64 \<Rightarrow> nat" where
  "f64_sig x = (if f64_mag x div 2 ^ 52 = 0 then f64_mag x else f64_mag x mod 2 ^ 52 + 2 ^ 52)"

definition f64_exp :: "f64 \<Rightarrow> int" where
  "f64_exp x = (if f64_mag x div 2 ^ 52 = 0 then - 1074 else int (f64_mag x div 2 ^ 52) - 1075)"

definition f64_signed :: "f64 \<Rightarrow> int" where
  "f64_signed x = (if f64_neg x then - int (f64_sig x) else int (f64_sig x))"

text \<open>The float nearest to \<open>n / d * 2 ^ e\<close>.\<close>

definition f64_round :: "bool \<Rightarrow> nat \<Rightarrow> nat \<Rightarrow> int \<Rightarrow> f64" where
  "f64_round neg n d e = f64_pack neg (if n = 0 then 0
     else if 0 \<le> e then ratio_bits (n * 2 ^ nat e) d else ratio_bits n (d * 2 ^ nat (- e)))"

definition f64_add :: "f64 \<Rightarrow> f64 \<Rightarrow> f64" where
  "f64_add x y =
     (if f64_is_nan x \<or> f64_is_nan y then f64_nan
      else if f64_is_inf x then (if f64_is_inf y \<and> f64_neg x \<noteq> f64_neg y then f64_nan else x)
      else if f64_is_inf y then y
      else let e = min (f64_exp x) (f64_exp y);
               s = f64_signed x * 2 ^ nat (f64_exp x - e) + f64_signed y * 2 ^ nat (f64_exp y - e) in
        if s = 0 then f64_pack (f64_neg x \<and> f64_neg y) 0 else f64_round (s < 0) (nat \<bar>s\<bar>) 1 e)"

definition f64_sub :: "f64 \<Rightarrow> f64 \<Rightarrow> f64" where
  "f64_sub x y = f64_add x (f64_negate y)"

definition f64_mul :: "f64 \<Rightarrow> f64 \<Rightarrow> f64" where
  "f64_mul x y = (let neg = (f64_neg x \<noteq> f64_neg y) in
     if f64_is_nan x \<or> f64_is_nan y then f64_nan
     else if f64_is_inf x \<or> f64_is_inf y
       then (if f64_is_zero x \<or> f64_is_zero y then f64_nan else f64_pack neg (2047 * 2 ^ 52))
     else f64_round neg (f64_sig x * f64_sig y) 1 (f64_exp x + f64_exp y))"

definition f64_div :: "f64 \<Rightarrow> f64 \<Rightarrow> f64" where
  "f64_div x y = (let neg = (f64_neg x \<noteq> f64_neg y) in
     if f64_is_nan x \<or> f64_is_nan y then f64_nan
     else if f64_is_inf x then (if f64_is_inf y then f64_nan else f64_pack neg (2047 * 2 ^ 52))
     else if f64_is_inf y then f64_pack neg 0
     else if f64_is_zero y then (if f64_is_zero x then f64_nan else f64_pack neg (2047 * 2 ^ 52))
     else f64_round neg (f64_sig x) (f64_sig y) (f64_exp x - f64_exp y))"

text \<open>The remainder of the truncated quotient, which is exact and has the sign of the dividend.\<close>

definition f64_rem :: "f64 \<Rightarrow> f64 \<Rightarrow> f64" where
  "f64_rem x y =
     (if f64_is_nan x \<or> f64_is_nan y \<or> f64_is_inf x \<or> f64_is_zero y then f64_nan
      else if f64_is_inf y then x
      else let e = min (f64_exp x) (f64_exp y);
               a = f64_sig x * 2 ^ nat (f64_exp x - e); b = f64_sig y * 2 ^ nat (f64_exp y - e) in
        f64_round (f64_neg x) (a mod b) 1 e)"

end
