(* ===== verification/ExprVm.thy ===== *)
theory ExprVm
  imports SqlSyntax F64Arith "HOL-Library.Signed_Division"
begin

text \<open>
  The bytecode compiler and stack machine for scalar expressions (\<open>src/src/exprvm.rs\<close>), and a direct
  evaluator of the tree to compare them with. Negating the least integer and dividing it by \<open>-1\<close>
  panic. The map of column names is a partial function.
\<close>

section \<open>Programs\<close>

datatype vm_op =
    PushConst val
  | PushColumn nat
  | VmBinary bin_op
  | VmUnary unary_op
  | VmIsNull bool
  | VmBetween
  | VmInList nat

type_synonym program = "vm_op list"

datatype compile_error = UnknownColumn rstr | Unsupported rstr

section \<open>The compiler\<close>

definition column_index :: "(rstr \<Rightarrow> nat option) \<Rightarrow> rstr \<Rightarrow> (compile_error, nat) res" where
  "column_index cols c = ok_or (cols c) (UnknownColumn c)"

fun emit :: "(rstr \<Rightarrow> nat option) \<Rightarrow> expr \<Rightarrow> program \<Rightarrow> (compile_error, program) res"
  and emit_all :: "(rstr \<Rightarrow> nat option) \<Rightarrow> expr list \<Rightarrow> program \<Rightarrow> (compile_error, program) res" where
  "emit cols (LitInt i) p = Ok (p @ [PushConst (VInt i)])"
| "emit cols (LitReal r) p = Ok (p @ [PushConst (VReal r)])"
| "emit cols (LitBool b) p = Ok (p @ [PushConst (VBool b)])"
| "emit cols (LitStr s) p = Err (Unsupported (str ''string literal without dictionary''))"
| "emit cols NullLit p = Ok (p @ [PushConst VNull])"
| "emit cols (Column c) p = rbind (column_index cols c) (\<lambda>i. Ok (p @ [PushColumn i]))"
| "emit cols (Qualified q c) p = rbind (column_index cols c) (\<lambda>i. Ok (p @ [PushColumn i]))"
| "emit cols (Unary op e) p = rbind (emit cols e p) (\<lambda>p. Ok (p @ [VmUnary op]))"
| "emit cols (Binary op a b) p = rbind (emit cols a p) (\<lambda>p. rbind (emit cols b p) (\<lambda>p. Ok (p @ [VmBinary op])))"
| "emit cols (IsNull e neg) p = rbind (emit cols e p) (\<lambda>p. Ok (p @ [VmIsNull neg]))"
| "emit cols (Between v lo hi) p = rbind (emit cols v p) (\<lambda>p. rbind (emit cols lo p) (\<lambda>p.
     rbind (emit cols hi p) (\<lambda>p. Ok (p @ [VmBetween]))))"
| "emit cols (InList e es) p = rbind (emit cols e p) (\<lambda>p. rbind (emit_all cols es p) (\<lambda>p. Ok (p @ [VmInList (length es)])))"
| "emit cols (Like a b) p = Err (Unsupported (str ''LIKE''))"
| "emit cols (Aggregate f d e) p = Err (Unsupported (str ''aggregate''))"
| "emit cols Star p = Err (Unsupported (str ''*''))"
| "emit_all cols [] p = Ok p"
| "emit_all cols (e # es) p = rbind (emit cols e p) (emit_all cols es)"

definition compile :: "(rstr \<Rightarrow> nat option) \<Rightarrow> expr \<Rightarrow> (compile_error, program) res" where
  "compile cols e = emit cols e []"

section \<open>The operators\<close>

definition vm_bool :: "val \<Rightarrow> bool option" where
  "vm_bool v = (case v of VBool b \<Rightarrow> Some b | VInt i \<Rightarrow> Some (i \<noteq> 0) | _ \<Rightarrow> None)"

definition apply_unary :: "unary_op \<Rightarrow> val \<Rightarrow> ('e, val) res" where
  "apply_unary op v = (if is_null v then Ok VNull else (case op of
       Neg \<Rightarrow> (case v of VInt i \<Rightarrow> if sint i = - (2 ^ 63) then Panic else Ok (VInt (- i))
         | VReal r \<Rightarrow> Ok (VReal (f64_negate r)) | _ \<Rightarrow> Ok VNull)
     | Not \<Rightarrow> (case v of VBool b \<Rightarrow> Ok (VBool (\<not> b)) | VInt i \<Rightarrow> Ok (VBool (i = 0)) | _ \<Rightarrow> Ok VNull)))"

text \<open>\<open>x / y\<close> and \<open>x % y\<close> on \<open>i64\<close>, for a divisor that is not zero.\<close>

definition i64_div :: "i64 \<Rightarrow> i64 \<Rightarrow> ('e, i64) res" where
  "i64_div x y = (if sint x = - (2 ^ 63) \<and> sint y = - 1 then Panic else Ok (word_of_int (sint x sdiv sint y)))"

definition i64_rem :: "i64 \<Rightarrow> i64 \<Rightarrow> ('e, i64) res" where
  "i64_rem x y = (if sint x = - (2 ^ 63) \<and> sint y = - 1 then Panic else Ok (word_of_int (sint x smod sint y)))"

definition int_arith :: "bin_op \<Rightarrow> i64 \<Rightarrow> i64 \<Rightarrow> ('e, val) res" where
  "int_arith op x y = (case op of
       Add \<Rightarrow> Ok (VInt (x + y)) | Sub \<Rightarrow> Ok (VInt (x - y)) | Mul \<Rightarrow> Ok (VInt (x * y))
     | Div \<Rightarrow> if y = 0 then Ok VNull else rbind (i64_div x y) (\<lambda>z. Ok (VInt z))
     | Mod \<Rightarrow> if y = 0 then Ok VNull else rbind (i64_rem x y) (\<lambda>z. Ok (VInt z))
     | _ \<Rightarrow> Ok VNull)"

definition real_arith :: "bin_op \<Rightarrow> f64 \<Rightarrow> f64 \<Rightarrow> val" where
  "real_arith op x y = (case op of
       Add \<Rightarrow> VReal (f64_add x y) | Sub \<Rightarrow> VReal (f64_sub x y) | Mul \<Rightarrow> VReal (f64_mul x y)
     | Div \<Rightarrow> if f64_is_zero y then VNull else VReal (f64_div x y)
     | Mod \<Rightarrow> if f64_is_zero y then VNull else VReal (f64_rem x y)
     | _ \<Rightarrow> VNull)"

definition arith :: "bin_op \<Rightarrow> val \<Rightarrow> val \<Rightarrow> ('e, val) res" where
  "arith op a b = (case (a, b) of
       (VInt x, VInt y) \<Rightarrow> int_arith op x y
     | _ \<Rightarrow> (case (as_real a, as_real b) of
         (Some x, Some y) \<Rightarrow> Ok (real_arith op x y)
       | _ \<Rightarrow> Ok VNull))"

definition logic_and :: "bool option \<Rightarrow> bool option \<Rightarrow> val" where
  "logic_and a b = (if a = Some False \<or> b = Some False then VBool False
     else if a = Some True \<and> b = Some True then VBool True else VNull)"

definition logic_or :: "bool option \<Rightarrow> bool option \<Rightarrow> val" where
  "logic_or a b = (if a = Some True \<or> b = Some True then VBool True
     else if a = Some False \<and> b = Some False then VBool False else VNull)"

definition apply_binary :: "bin_op \<Rightarrow> val \<Rightarrow> val \<Rightarrow> ('e, val) res" where
  "apply_binary op a b =
     (if op = And then Ok (logic_and (vm_bool a) (vm_bool b))
      else if op = Or then Ok (logic_or (vm_bool a) (vm_bool b))
      else if is_null a \<or> is_null b then Ok VNull
      else (case op of
          Eq \<Rightarrow> Ok (VBool (total_cmp a b = Equal))
        | NotEq \<Rightarrow> Ok (VBool (total_cmp a b \<noteq> Equal))
        | Lt \<Rightarrow> Ok (VBool (total_cmp a b = Less))
        | LtEq \<Rightarrow> Ok (VBool (total_cmp a b \<noteq> Greater))
        | Gt \<Rightarrow> Ok (VBool (total_cmp a b = Greater))
        | GtEq \<Rightarrow> Ok (VBool (total_cmp a b \<noteq> Less))
        | _ \<Rightarrow> arith op a b))"

definition between :: "val \<Rightarrow> val \<Rightarrow> val \<Rightarrow> val" where
  "between v lo hi = (if is_null v \<or> is_null lo \<or> is_null hi then VNull
     else VBool (total_cmp v lo \<noteq> Less \<and> total_cmp v hi \<noteq> Greater))"

text \<open>The loop over the list items: it stops at a hit and remembers a null.\<close>

fun in_items :: "val \<Rightarrow> bool \<Rightarrow> val list \<Rightarrow> val" where
  "in_items probe saw_null [] = (if saw_null then VNull else VBool False)"
| "in_items probe saw_null (x # xs) =
     (if is_null x then in_items probe True xs
      else if total_cmp probe x = Equal then VBool True
      else in_items probe saw_null xs)"

section \<open>The machine\<close>

text \<open>The stack, its top first; popping the empty stack yields a null.\<close>

fun pop :: "val list \<Rightarrow> val \<times> val list" where
  "pop [] = (VNull, [])"
| "pop (v # st) = (v, st)"

fun pop_n :: "nat \<Rightarrow> val list \<Rightarrow> val list \<times> val list" where
  "pop_n 0 st = ([], st)"
| "pop_n (Suc n) st = (let (v, st) = pop st; (vs, st) = pop_n n st in (v # vs, st))"

fun vm_step :: "val list \<Rightarrow> vm_op \<Rightarrow> val list \<Rightarrow> ('e, val list) res" where
  "vm_step row (PushConst v) st = Ok (v # st)"
| "vm_step row (PushColumn i) st = Ok ((case nth_opt row i of None \<Rightarrow> VNull | Some v \<Rightarrow> v) # st)"
| "vm_step row (VmUnary op) st = (let (v, st) = pop st in rbind (apply_unary op v) (\<lambda>w. Ok (w # st)))"
| "vm_step row (VmBinary op) st = (let (b, st) = pop st; (a, st) = pop st in rbind (apply_binary op a b) (\<lambda>w. Ok (w # st)))"
| "vm_step row (VmIsNull neg) st = (let (v, st) = pop st in Ok (VBool (is_null v \<noteq> neg) # st))"
| "vm_step row VmBetween st = (let (hi, st) = pop st; (lo, st) = pop st; (v, st) = pop st in Ok (between v lo hi # st))"
| "vm_step row (VmInList n) st = (let (items, st) = pop_n n st; (probe, st) = pop st in
     Ok ((if is_null probe then VNull else in_items probe False items) # st))"

fun vm_run :: "val list \<Rightarrow> program \<Rightarrow> val list \<Rightarrow> ('e, val list) res" where
  "vm_run row [] st = Ok st"
| "vm_run row (op # p) st = rbind (vm_step row op st) (vm_run row p)"

definition vm_eval :: "program \<Rightarrow> val list \<Rightarrow> ('e, val) res" where
  "vm_eval p row = rbind (vm_run row p []) (\<lambda>st. Ok (fst (pop st)))"

section \<open>The direct evaluator\<close>

text \<open>
  The meaning of an expression over a row, by recursion on the tree: membership in a list is stated
  without a loop.
\<close>

definition member :: "val \<Rightarrow> val list \<Rightarrow> val" where
  "member probe items = (if is_null probe then VNull
     else if \<exists>x \<in> set items. \<not> is_null x \<and> total_cmp probe x = Equal then VBool True
     else if \<exists>x \<in> set items. is_null x then VNull else VBool False)"

fun cell :: "(rstr \<Rightarrow> nat option) \<Rightarrow> val list \<Rightarrow> rstr \<Rightarrow> val" where
  "cell cols row c = (case cols c of None \<Rightarrow> VNull | Some i \<Rightarrow> (case nth_opt row i of None \<Rightarrow> VNull | Some v \<Rightarrow> v))"

fun meaning :: "(rstr \<Rightarrow> nat option) \<Rightarrow> val list \<Rightarrow> expr \<Rightarrow> ('e, val) res"
  and meanings :: "(rstr \<Rightarrow> nat option) \<Rightarrow> val list \<Rightarrow> expr list \<Rightarrow> ('e, val list) res" where
  "meaning cols row (LitInt i) = Ok (VInt i)"
| "meaning cols row (LitReal r) = Ok (VReal r)"
| "meaning cols row (LitBool b) = Ok (VBool b)"
| "meaning cols row NullLit = Ok VNull"
| "meaning cols row (Column c) = Ok (cell cols row c)"
| "meaning cols row (Qualified q c) = Ok (cell cols row c)"
| "meaning cols row (Unary op e) = rbind (meaning cols row e) (apply_unary op)"
| "meaning cols row (Binary op a b) = rbind (meaning cols row a) (\<lambda>v. rbind (meaning cols row b) (apply_binary op v))"
| "meaning cols row (IsNull e neg) = rbind (meaning cols row e) (\<lambda>v. Ok (VBool (is_null v \<noteq> neg)))"
| "meaning cols row (Between v lo hi) = rbind (meaning cols row v) (\<lambda>x. rbind (meaning cols row lo) (\<lambda>y.
     rbind (meaning cols row hi) (\<lambda>z. Ok (between x y z))))"
| "meaning cols row (InList e es) = rbind (meaning cols row e) (\<lambda>v. rbind (meanings cols row es) (\<lambda>vs. Ok (member v vs)))"
| "meaning cols row e = Ok VNull"
| "meanings cols row [] = Ok []"
| "meanings cols row (e # es) = rbind (meaning cols row e) (\<lambda>v. rbind (meanings cols row es) (\<lambda>vs. Ok (v # vs)))"

text \<open>The expressions the compiler accepts.\<close>

fun supported :: "(rstr \<Rightarrow> nat option) \<Rightarrow> expr \<Rightarrow> bool" where
  "supported cols (LitInt i) = True"
| "supported cols (LitReal r) = True"
| "supported cols (LitBool b) = True"
| "supported cols NullLit = True"
| "supported cols (Column c) = (cols c \<noteq> None)"
| "supported cols (Qualified q c) = (cols c \<noteq> None)"
| "supported cols (Unary op e) = supported cols e"
| "supported cols (Binary op a b) = (supported cols a \<and> supported cols b)"
| "supported cols (IsNull e neg) = supported cols e"
| "supported cols (Between v lo hi) = (supported cols v \<and> supported cols lo \<and> supported cols hi)"
| "supported cols (InList e es) = (supported cols e \<and> (\<forall>x \<in> set es. supported cols x))"
| "supported cols e = False"

section \<open>Compilation\<close>

lemma vm_run_Nil: "vm_run row [] = Ok"
  by (rule ext) simp

lemma vm_run_single:
  "vm_run row [PushConst v] = (\<lambda>st. Ok (v # st))"
  "vm_run row [PushColumn i] = (\<lambda>st. Ok ((case nth_opt row i of None \<Rightarrow> VNull | Some v \<Rightarrow> v) # st))"
  "vm_run row [VmUnary u] = (\<lambda>st. let (v, st) = pop st in rbind (apply_unary u v) (\<lambda>w. Ok (w # st)))"
  "vm_run row [VmBinary op] = (\<lambda>st. let (b, st) = pop st; (a, st) = pop st in rbind (apply_binary op a b) (\<lambda>w. Ok (w # st)))"
  "vm_run row [VmIsNull neg] = (\<lambda>st. let (v, st) = pop st in Ok (VBool (is_null v \<noteq> neg) # st))"
  "vm_run row [VmBetween] = (\<lambda>st. let (hi, st) = pop st; (lo, st) = pop st; (v, st) = pop st in Ok (between v lo hi # st))"
  by (rule ext, simp add: vm_run_Nil)+

lemma vm_run_append: "vm_run row (p @ q) st = (rbind (vm_run row p st) (vm_run row q) :: ('e, val list) res)"
proof (induction p arbitrary: st)
  case (Cons op p)
  then show ?case by (cases "vm_step row op st :: ('e, val list) res") simp_all
qed simp

lemma in_items_loop:
  "\<not> is_null probe \<Longrightarrow> in_items probe saw items = (if \<exists>x \<in> set items. \<not> is_null x \<and> total_cmp probe x = Equal then VBool True
     else if saw \<or> (\<exists>x \<in> set items. is_null x) then VNull else VBool False)"
  by (induction items arbitrary: saw) auto

lemma pop_n_append: "length vs = n \<Longrightarrow> pop_n n (vs @ st) = (vs, st)"
  by (induction vs arbitrary: n) (auto simp: Let_def)

lemma meanings_length: "meanings cols row es = Ok vs \<Longrightarrow> length vs = length es"
  by (induction es arbitrary: vs) (auto simp: rbind_eq_Ok)

lemma step_member: "length vs = n \<Longrightarrow> vm_step row (VmInList n) (rev vs @ v # st) = Ok (member v vs # st)"
  using pop_n_append [of "rev vs" n "v # st"] by (auto simp: member_def in_items_loop)

lemma emit_run:
  "emit cols e p = Ok p' \<Longrightarrow> (vm_run row p' st :: ('e, val list) res) = rbind (vm_run row p st) (\<lambda>st. rbind (meaning cols row e) (\<lambda>v. Ok (v # st)))"
  "emit_all cols es p = Ok p' \<Longrightarrow> (vm_run row p' st :: ('e, val list) res) = rbind (vm_run row p st) (\<lambda>st. rbind (meanings cols row es) (\<lambda>vs. Ok (rev vs @ st)))"
proof (induction cols e p and cols es p arbitrary: p' st and p' st rule: emit_emit_all.induct)
  case (12 cols e es p)
  then obtain p1 p2 where e: "emit cols e p = Ok p1" "emit_all cols es p1 = Ok p2" "p' = p2 @ [VmInList (length es)]"
    by (auto simp: rbind_eq_Ok)
  have "(vm_run row p' st :: ('e, val list) res) = rbind (vm_run row p st) (\<lambda>st. rbind (meaning cols row e) (\<lambda>v. rbind (meanings cols row es)
      (\<lambda>vs. vm_step row (VmInList (length es)) (rev vs @ v # st))))"
    using 12(1) [OF e(1)] 12(2) [OF e(2)] e(3) by (simp add: vm_run_append rbind_assoc vm_run_Nil del: vm_step.simps)
  also have "\<dots> = rbind (vm_run row p st) (\<lambda>st. rbind (meaning cols row e) (\<lambda>v. rbind (meanings cols row es)
      (\<lambda>vs. Ok (member v vs # st))))"
  proof -
    have "rbind (meanings cols row es) (\<lambda>vs. vm_step row (VmInList (length es)) (rev vs @ v # st)) =
        (rbind (meanings cols row es) (\<lambda>vs. Ok (member v vs # st)) :: ('e, val list) res)" for v st
    proof (cases "meanings cols row es :: ('e, val list) res")
      case (Ok vs)
      then show ?thesis using step_member [OF meanings_length [OF Ok]] by (simp del: vm_step.simps)
    qed simp_all
    then show ?thesis by simp
  qed
  finally show ?case by (simp add: rbind_assoc)
qed (auto simp: vm_run_append vm_run_single rbind_assoc rbind_eq_Ok column_index_def ok_or_def Let_def split: option.splits)

lemma compile_meaning: "compile cols e = Ok p \<Longrightarrow> vm_eval p row = (meaning cols row e :: ('e, val) res)"
  by (cases "meaning cols row e :: ('e, val) res") (simp_all add: compile_def vm_eval_def emit_run(1) [of cols e "[]" p])

definition succeeds :: "('e, 'a) res \<Rightarrow> bool" where
  "succeeds r \<longleftrightarrow> (\<exists>a. r = Ok a)"

lemma succeeds_simps [simp]:
  "succeeds (Ok a)" "\<not> succeeds (Err x)" "succeeds (rbind r f) \<longleftrightarrow> (\<exists>a. r = Ok a \<and> succeeds (f a))"
  by (auto simp: succeeds_def rbind_eq_Ok)

lemma emit_succeeds:
  "succeeds (emit cols e p) \<longleftrightarrow> supported cols e"
  "succeeds (emit_all cols es p) \<longleftrightarrow> (\<forall>x \<in> set es. supported cols x)"
proof (induction cols e p and cols es p rule: emit_emit_all.induct)
  case (6 cols c p)
  then show ?case by (simp add: column_index_def ok_or_def split: option.split)
next
  case (7 cols q c p)
  then show ?case by (simp add: column_index_def ok_or_def split: option.split)
qed (simp_all, auto simp: succeeds_def)

lemma emit_no_fault:
  "emit cols e p \<noteq> Panic \<and> emit cols e p \<noteq> Undef" "emit_all cols es p \<noteq> Panic \<and> emit_all cols es p \<noteq> Undef"
  by (induction cols e p and cols es p rule: emit_emit_all.induct)
    (auto simp: rbind_eq_Panic rbind_eq_Undef column_index_def)

lemma compile_total: "case compile cols e of Ok p \<Rightarrow> supported cols e | Err x \<Rightarrow> \<not> supported cols e | _ \<Rightarrow> False"
  using emit_succeeds(1) [of cols e "[]"] emit_no_fault(1) [of cols e "[]"]
  by (cases "emit cols e []") (auto simp: compile_def succeeds_def)

end
