(* ===== verification/Physicals.thy ===== *)
theory Physicals
  imports ExprVm
begin

text \<open>
  The pull-based operators (\<open>src/src/physical.rs\<close>). The trait \<open>Operator\<close> is a function from the
  operator's state to its next row; it can panic, and it need not return (\<open>None\<close>), since a filter
  pulls until a row passes. Operators are generic in their child, as in the code: each is defined over
  the child's \<open>next\<close>. What an operator yields is a list of rows and whether it panics after them.
\<close>

type_synonym value_row = "val list"
type_synonym 's pull = "'s \<Rightarrow> ((unit, value_row option) res \<times> 's) option"

section \<open>Streams\<close>

datatype row_stream = Stream (st_rows: "value_row list") (st_panics: bool)

fun st_cons :: "value_row \<Rightarrow> row_stream \<Rightarrow> row_stream" where
  "st_cons r (Stream rs p) = Stream (r # rs) p"

inductive yields :: "'s pull \<Rightarrow> 's \<Rightarrow> row_stream \<Rightarrow> bool" for nxt where
  finish: "nxt s = Some (Ok None, s') \<Longrightarrow> yields nxt s (Stream [] False)"
| panic: "nxt s = Some (Panic, s') \<Longrightarrow> yields nxt s (Stream [] True)"
| more: "nxt s = Some (Ok (Some r), s') \<Longrightarrow> yields nxt s' st \<Longrightarrow> yields nxt s (st_cons r st)"

text \<open>\<open>collect_rows\<close>\<close>

partial_function (option) collect_rows :: "'s pull \<Rightarrow> 's \<Rightarrow> ((unit, value_row list) res \<times> 's) option" where
  "collect_rows nxt s = (case nxt s of None \<Rightarrow> None
     | Some (Ok None, s') \<Rightarrow> Some (Ok [], s')
     | Some (Ok (Some r), s') \<Rightarrow> Option.bind (collect_rows nxt s') (\<lambda>(x, s'). Some (rbind x (\<lambda>rs. Ok (r # rs)), s'))
     | Some (Err e, s') \<Rightarrow> Some (Err e, s') | Some (Panic, s') \<Rightarrow> Some (Panic, s') | Some (Undef, s') \<Rightarrow> Some (Undef, s'))"

definition collected :: "row_stream \<Rightarrow> (unit, value_row list) res" where
  "collected st = (if st_panics st then Panic else Ok (st_rows st))"

lemma collect_yields: "yields nxt s st \<Longrightarrow> \<exists>s'. collect_rows nxt s = Some (collected st, s')"
proof (induction rule: yields.induct)
  case (finish s s')
  then show ?case by (subst collect_rows.simps) (simp add: collected_def)
next
  case (panic s s')
  then show ?case by (subst collect_rows.simps) (simp add: collected_def)
next
  case (more s r s' st)
  then show ?case by (subst collect_rows.simps) (cases st; auto simp: collected_def)
qed

section \<open>Scan\<close>

type_synonym scan = "value_row list"

definition scan_next :: "scan pull" where
  "scan_next s = Some (case s of [] \<Rightarrow> (Ok None, []) | r # rs \<Rightarrow> (Ok (Some r), rs))"

section \<open>Filter\<close>

record 's filter_op =
  fl_child :: 's
  fl_predicate :: program

partial_function (option) filter_next :: "'s pull \<Rightarrow> 's filter_op \<Rightarrow> ((unit, value_row option) res \<times> 's filter_op) option" where
  "filter_next nxt f = (case nxt (fl_child f) of None \<Rightarrow> None
     | Some (Ok None, s) \<Rightarrow> Some (Ok None, f\<lparr>fl_child := s\<rparr>)
     | Some (Ok (Some r), s) \<Rightarrow> (case vm_eval (fl_predicate f) r of
         Ok v \<Rightarrow> if v = VBool True then Some (Ok (Some r), f\<lparr>fl_child := s\<rparr>) else filter_next nxt (f\<lparr>fl_child := s\<rparr>)
       | Err e \<Rightarrow> Some (Err e, f\<lparr>fl_child := s\<rparr>) | Panic \<Rightarrow> Some (Panic, f\<lparr>fl_child := s\<rparr>) | Undef \<Rightarrow> Some (Undef, f\<lparr>fl_child := s\<rparr>))
     | Some (Err e, s) \<Rightarrow> Some (Err e, f\<lparr>fl_child := s\<rparr>) | Some (Panic, s) \<Rightarrow> Some (Panic, f\<lparr>fl_child := s\<rparr>)
     | Some (Undef, s) \<Rightarrow> Some (Undef, f\<lparr>fl_child := s\<rparr>))"

section \<open>Project\<close>

record 's project_op =
  pj_child :: 's
  pj_exprs :: "program list"

fun project_row :: "program list \<Rightarrow> value_row \<Rightarrow> (unit, value_row) res" where
  "project_row [] r = Ok []"
| "project_row (p # ps) r = rbind (vm_eval p r) (\<lambda>v. rbind (project_row ps r) (\<lambda>vs. Ok (v # vs)))"

definition project_next :: "'s pull \<Rightarrow> 's project_op \<Rightarrow> ((unit, value_row option) res \<times> 's project_op) option" where
  "project_next nxt p = map_option (\<lambda>(x, s). (rbind x (\<lambda>r. case r of None \<Rightarrow> Ok None
       | Some r \<Rightarrow> rbind (project_row (pj_exprs p) r) (\<lambda>r. Ok (Some r))), p\<lparr>pj_child := s\<rparr>)) (nxt (pj_child p))"

section \<open>Limit\<close>

record 's limit_op =
  lm_child :: 's
  lm_remaining :: nat
  lm_skip :: nat

text \<open>The skipping loop: whether rows are left, the number still to skip, and the child.\<close>

fun skip_loop :: "'s pull \<Rightarrow> nat \<Rightarrow> 's \<Rightarrow> ((unit, bool) res \<times> nat \<times> 's) option" where
  "skip_loop nxt 0 s = Some (Ok True, 0, s)"
| "skip_loop nxt (Suc k) s = (case nxt s of None \<Rightarrow> None
     | Some (Ok None, s') \<Rightarrow> Some (Ok False, Suc k, s')
     | Some (Ok (Some r), s') \<Rightarrow> skip_loop nxt k s'
     | Some (Err e, s') \<Rightarrow> Some (Err e, Suc k, s') | Some (Panic, s') \<Rightarrow> Some (Panic, Suc k, s') | Some (Undef, s') \<Rightarrow> Some (Undef, Suc k, s'))"

definition limit_next :: "'s pull \<Rightarrow> 's limit_op \<Rightarrow> ((unit, value_row option) res \<times> 's limit_op) option" where
  "limit_next nxt l = (case skip_loop nxt (lm_skip l) (lm_child l) of None \<Rightarrow> None
     | Some (x, k, s) \<Rightarrow> (let l = l\<lparr>lm_skip := k, lm_child := s\<rparr> in case x of
         Ok False \<Rightarrow> Some (Ok None, l)
       | Ok True \<Rightarrow> if lm_remaining l = 0 then Some (Ok None, l)
           else (case nxt (lm_child l) of None \<Rightarrow> None
             | Some (Ok (Some r), s) \<Rightarrow> Some (Ok (Some r), l\<lparr>lm_child := s, lm_remaining := lm_remaining l - 1\<rparr>)
             | Some (y, s) \<Rightarrow> Some (y, l\<lparr>lm_child := s\<rparr>))
       | Err e \<Rightarrow> Some (Err e, l) | Panic \<Rightarrow> Some (Panic, l) | Undef \<Rightarrow> Some (Undef, l)))"

section \<open>Sort\<close>

record 's sort_op =
  so_child :: "'s option"
  so_keys :: "(nat \<times> bool) list"
  so_buffer :: "value_row list"
  so_pos :: nat

definition row_cell :: "value_row \<Rightarrow> nat \<Rightarrow> val" where
  "row_cell r i = (case nth_opt r i of None \<Rightarrow> VNull | Some v \<Rightarrow> v)"

fun row_cmp :: "(nat \<times> bool) list \<Rightarrow> value_row \<Rightarrow> value_row \<Rightarrow> ordering" where
  "row_cmp [] a b = Equal"
| "row_cmp ((c, asc) # ks) a b = (let o1 = total_cmp (row_cell a c) (row_cell b c); o2 = (if asc then o1 else flip_ord o1) in
     if o2 \<noteq> Equal then o2 else row_cmp ks a b)"

text \<open>
  \<open>sort_by\<close>, the stable sort of the library, as insertion behind the elements that are not greater. The
  library leaves the order open when the comparison is not a total order.
\<close>

fun insert_by :: "('a \<Rightarrow> 'a \<Rightarrow> ordering) \<Rightarrow> 'a \<Rightarrow> 'a list \<Rightarrow> 'a list" where
  "insert_by f x [] = [x]"
| "insert_by f x (y # ys) = (if f x y = Greater then y # insert_by f x ys else x # y # ys)"

definition sort_by :: "('a \<Rightarrow> 'a \<Rightarrow> ordering) \<Rightarrow> 'a list \<Rightarrow> 'a list" where
  "sort_by f xs = foldr (insert_by f) xs []"

definition sort_materialize :: "'s pull \<Rightarrow> 's sort_op \<Rightarrow> ((unit, unit) res \<times> 's sort_op) option" where
  "sort_materialize nxt o1 = (case so_child o1 of None \<Rightarrow> Some (Ok (), o1)
     | Some c \<Rightarrow> map_option (\<lambda>(x, _). (rbind x (\<lambda>_. Ok ()),
         o1\<lparr>so_child := None, so_buffer := (case x of Ok rs \<Rightarrow> sort_by (row_cmp (so_keys o1)) rs | _ \<Rightarrow> so_buffer o1)\<rparr>))
         (collect_rows nxt c))"

text \<open>\<open>mem::take\<close> leaves an empty row in the buffer.\<close>

definition sort_emit :: "'s sort_op \<Rightarrow> (unit, value_row option) res \<times> 's sort_op" where
  "sort_emit o1 = (if so_pos o1 < length (so_buffer o1)
     then (Ok (Some (so_buffer o1 ! so_pos o1)), o1\<lparr>so_buffer := (so_buffer o1)[so_pos o1 := []], so_pos := so_pos o1 + 1\<rparr>)
     else (Ok None, o1))"

definition sort_next :: "'s pull \<Rightarrow> 's sort_op \<Rightarrow> ((unit, value_row option) res \<times> 's sort_op) option" where
  "sort_next nxt o1 = map_option (\<lambda>(x, o1). case x of Ok _ \<Rightarrow> sort_emit o1
       | Err e \<Rightarrow> (Err e, o1) | Panic \<Rightarrow> (Panic, o1) | Undef \<Rightarrow> (Undef, o1)) (sort_materialize nxt o1)"

section \<open>Grouping\<close>

datatype agg_kind = GCount | GSum | GMin | GMax

record agg_spec =
  gs_kind :: agg_kind
  gs_column :: nat

record agg_state =
  ag_count :: i64
  ag_sum :: i64
  ag_min :: i64
  ag_max :: i64
  ag_seen :: bool

definition group_agg_new :: agg_state where
  "group_agg_new = \<lparr>ag_count = 0, ag_sum = 0, ag_min = 0x7FFFFFFFFFFFFFFF, ag_max = 0x8000000000000000, ag_seen = False\<rparr>"

definition agg_update :: "val \<Rightarrow> agg_state \<Rightarrow> agg_state" where
  "agg_update v a = (let a = a\<lparr>ag_count := ag_count a + 1\<rparr> in case as_int v of None \<Rightarrow> a
     | Some i \<Rightarrow> a\<lparr>ag_sum := ag_sum a + i, ag_min := (if sint i < sint (ag_min a) then i else ag_min a),
         ag_max := (if sint (ag_max a) < sint i then i else ag_max a), ag_seen := True\<rparr>)"

definition agg_finalize :: "agg_kind \<Rightarrow> agg_state \<Rightarrow> val" where
  "agg_finalize k a = (case k of GCount \<Rightarrow> VInt (ag_count a) | GSum \<Rightarrow> VInt (ag_sum a)
     | GMin \<Rightarrow> if ag_seen a then VInt (ag_min a) else VNull
     | GMax \<Rightarrow> if ag_seen a then VInt (ag_max a) else VNull)"

record 's hash_aggregate =
  ha_child :: "'s option"
  ha_group_cols :: "nat list"
  ha_aggs :: "agg_spec list"
  ha_output :: "value_row list"

definition group_key :: "nat list \<Rightarrow> value_row \<Rightarrow> i64 list" where
  "group_key cols r = map (\<lambda>c. case Option.bind (nth_opt r c) as_int of None \<Rightarrow> 0x8000000000000000 | Some i \<Rightarrow> i) cols"

text \<open>The groups seen so far, a partial function, and their keys in the order of appearance.\<close>

type_synonym groups = "(i64 list \<Rightarrow> agg_state list option) \<times> i64 list list"

definition update_all :: "agg_spec list \<Rightarrow> value_row \<Rightarrow> agg_state list \<Rightarrow> agg_state list" where
  "update_all specs r as = map (\<lambda>(s, a). agg_update (row_cell r (gs_column s)) a) (zip specs as)"

definition group_row :: "nat list \<Rightarrow> agg_spec list \<Rightarrow> value_row \<Rightarrow> groups \<Rightarrow> groups" where
  "group_row cols specs r g = (let k = group_key cols r in case fst g k of
       Some as \<Rightarrow> ((fst g)(k \<mapsto> update_all specs r as), snd g)
     | None \<Rightarrow> ((fst g)(k \<mapsto> update_all specs r (replicate (length specs) group_agg_new)), snd g @ [k]))"

definition group_output :: "agg_spec list \<Rightarrow> groups \<Rightarrow> value_row list" where
  "group_output specs g = map (\<lambda>k. map VInt k @ (case fst g k of None \<Rightarrow> []
     | Some as \<Rightarrow> map (\<lambda>(s, a). agg_finalize (gs_kind s) a) (zip specs as))) (snd g)"

definition aggregate_run :: "'s pull \<Rightarrow> 's hash_aggregate \<Rightarrow> ((unit, unit) res \<times> 's hash_aggregate) option" where
  "aggregate_run nxt h = (case ha_child h of None \<Rightarrow> Some (Ok (), h)
     | Some c \<Rightarrow> map_option (\<lambda>(x, _). (rbind x (\<lambda>_. Ok ()), h\<lparr>ha_child := None, ha_output := (case x of
           Ok rs \<Rightarrow> group_output (ha_aggs h) (fold (group_row (ha_group_cols h) (ha_aggs h)) rs (Map.empty, []))
         | _ \<Rightarrow> ha_output h)\<rparr>)) (collect_rows nxt c))"

definition aggregate_next :: "'s pull \<Rightarrow> 's hash_aggregate \<Rightarrow> ((unit, value_row option) res \<times> 's hash_aggregate) option" where
  "aggregate_next nxt h = map_option (\<lambda>(x, h). case x of
       Ok _ \<Rightarrow> (case ha_output h of [] \<Rightarrow> (Ok None, h) | r # rs \<Rightarrow> (Ok (Some r), h\<lparr>ha_output := rs\<rparr>))
     | Err e \<Rightarrow> (Err e, h) | Panic \<Rightarrow> (Panic, h) | Undef \<Rightarrow> (Undef, h)) (aggregate_run nxt h)"

section \<open>What the operators yield\<close>

text \<open>The interface: an operator whose state stands for a row_stream.\<close>

locale operator =
  fixes nxt :: "'s pull" and stream_of :: "'s \<Rightarrow> row_stream"
  assumes yields: "yields nxt s (stream_of s)"
begin

lemma collect: "\<exists>s'. collect_rows nxt s = Some (collected (stream_of s), s')"
  by (rule collect_yields [OF yields])

end

fun filter_rows :: "program \<Rightarrow> value_row list \<Rightarrow> bool \<Rightarrow> row_stream" where
  "filter_rows p [] b = Stream [] b"
| "filter_rows p (r # rs) b = (case vm_eval p r :: (unit, val) res of
     Ok v \<Rightarrow> if v = VBool True then st_cons r (filter_rows p rs b) else filter_rows p rs b
   | _ \<Rightarrow> Stream [] True)"

fun project_rows :: "program list \<Rightarrow> value_row list \<Rightarrow> bool \<Rightarrow> row_stream" where
  "project_rows ps [] b = Stream [] b"
| "project_rows ps (r # rs) b = (case project_row ps r :: (unit, value_row) res of
     Ok v \<Rightarrow> st_cons v (project_rows ps rs b)
   | _ \<Rightarrow> Stream [] True)"

definition limit_rows :: "nat \<Rightarrow> nat \<Rightarrow> row_stream \<Rightarrow> row_stream" where
  "limit_rows n k st = Stream (take n (drop k (st_rows st))) (st_panics st \<and> length (st_rows st) < k + n)"

lemma scan_yields: "yields scan_next s (Stream s False)"
proof (induction s)
  case Nil
  show ?case by (rule yields.finish [where s' = "[]"]) (simp add: scan_next_def)
next
  case (Cons r rs)
  have "scan_next (r # rs) = Some (Ok (Some r), rs)" by (simp add: scan_next_def)
  from yields.more [OF this Cons] show ?case by simp
qed

text \<open>What a state yields depends on its next row only.\<close>

lemma yields_cong: "yields nxt s' st \<Longrightarrow> nxt s = nxt s' \<Longrightarrow> yields nxt s st"
  by (erule yields.cases) (auto intro: yields.intros)

text \<open>Evaluation returns or panics.\<close>

fun no_err :: "('e, 'a) res \<Rightarrow> bool" where
  "no_err (Ok x) = True"
| "no_err (Err e) = False"
| "no_err Panic = True"
| "no_err Undef = False"

lemma no_err_cases: "no_err x \<Longrightarrow> (\<And>y. x = Ok y \<Longrightarrow> P) \<Longrightarrow> (x = Panic \<Longrightarrow> P) \<Longrightarrow> P"
  by (cases x) auto

lemma no_err_rbind: "no_err x \<Longrightarrow> (\<And>y. x = Ok y \<Longrightarrow> no_err (f y)) \<Longrightarrow> no_err (rbind x f)"
  by (cases x) auto

lemma arith_no_err: "no_err (arith op a b)"
proof -
  have i: "no_err (int_arith op x y)" for x y
    by (cases op) (simp_all add: int_arith_def i64_div_def i64_rem_def)
  show ?thesis
    using i by (cases a; cases b; simp add: arith_def split: option.split)
qed

lemma vm_step_no_err: "no_err (vm_step row op st)"
proof -
  have u: "no_err (apply_unary u v)" for u v
    by (auto simp: apply_unary_def split: val.split unary_op.split)
  have b: "no_err (apply_binary u v w)" for u v w
    using arith_no_err by (auto simp: apply_binary_def split: bin_op.split)
  show ?thesis by (cases op) (auto simp: u b Let_def intro!: no_err_rbind split: prod.split)
qed

lemma vm_run_no_err: "no_err (vm_run row p st)"
proof (induction p arbitrary: st)
  case (Cons op p)
  then show ?case by (auto intro!: no_err_rbind vm_step_no_err)
qed simp

lemma vm_eval_no_err: "no_err (vm_eval p r)"
  by (auto simp: vm_eval_def intro!: no_err_rbind vm_run_no_err split: list.split)

lemma project_row_no_err: "no_err (project_row ps r)"
proof (induction ps)
  case (Cons p ps)
  then show ?case by (auto intro!: no_err_rbind vm_eval_no_err)
qed simp

lemma filter_yields:
  assumes "yields nxt s st"
  shows "yields (filter_next nxt) \<lparr>fl_child = s, fl_predicate = p\<rparr> (filter_rows p (st_rows st) (st_panics st))"
  using assms
proof (induction rule: yields.induct)
  case (finish s s')
  show ?case by (simp, rule yields.finish, subst filter_next.simps) (simp add: finish)
next
  case (panic s s')
  show ?case by (simp, rule yields.panic, subst filter_next.simps) (simp add: panic)
next
  case (more s r s' st)
  let ?f = "\<lparr>fl_child = s, fl_predicate = p\<rparr>" and ?f' = "\<lparr>fl_child = s', fl_predicate = p\<rparr>"
  have rows: "st_rows (st_cons r st) = r # st_rows st" "st_panics (st_cons r st) = st_panics st" by (cases st; simp)+
  show ?case
  proof (cases "vm_eval p r :: (unit, val) res")
    case (Ok v)
    show ?thesis
    proof (cases "v = VBool True")
      case True
      have "filter_next nxt ?f = Some (Ok (Some r), ?f')" by (subst filter_next.simps) (simp add: more Ok True)
      from yields.more [OF this more.IH] show ?thesis by (simp add: rows Ok True)
    next
      case False
      have "filter_next nxt ?f = filter_next nxt ?f'" by (subst filter_next.simps) (simp add: more Ok False)
      from yields_cong [OF more.IH this] show ?thesis by (simp add: rows Ok False)
    qed
  next
    case Panic
    have "filter_next nxt ?f = Some (Panic, ?f')" by (subst filter_next.simps) (simp add: more Panic)
    from yields.panic [of "filter_next nxt", OF this] show ?thesis by (simp add: rows Panic)
  next
    case (Err e)
    then show ?thesis using no_err.simps(2) [of e] vm_eval_no_err [of p r] by metis
  next
    case Undef
    then show ?thesis using no_err.simps(4) vm_eval_no_err [of p r] by metis
  qed
qed

lemma project_yields:
  assumes "yields nxt s st"
  shows "yields (project_next nxt) \<lparr>pj_child = s, pj_exprs = ps\<rparr> (project_rows ps (st_rows st) (st_panics st))"
  using assms
proof (induction rule: yields.induct)
  case (finish s s')
  show ?case by (simp, rule yields.finish) (simp add: finish project_next_def)
next
  case (panic s s')
  show ?case by (simp, rule yields.panic) (simp add: panic project_next_def)
next
  case (more s r s' st)
  have rows: "st_rows (st_cons r st) = r # st_rows st" "st_panics (st_cons r st) = st_panics st" by (cases st; simp)+
  show ?case
  proof (cases "project_row ps r :: (unit, value_row) res")
    case (Ok v)
    have "project_next nxt \<lparr>pj_child = s, pj_exprs = ps\<rparr> = Some (Ok (Some v), \<lparr>pj_child = s', pj_exprs = ps\<rparr>)"
      by (simp add: project_next_def more Ok)
    from yields.more [OF this more.IH] show ?thesis by (simp add: rows Ok)
  next
    case Panic
    have "project_next nxt \<lparr>pj_child = s, pj_exprs = ps\<rparr> = Some (Panic, \<lparr>pj_child = s', pj_exprs = ps\<rparr>)"
      by (simp add: project_next_def more Panic)
    from yields.panic [of "project_next nxt", OF this] show ?thesis by (simp add: rows Panic)
  next
    case (Err e)
    then show ?thesis using no_err.simps(2) [of e] project_row_no_err [of ps r] by metis
  next
    case Undef
    then show ?thesis using no_err.simps(4) project_row_no_err [of ps r] by metis
  qed
qed

text \<open>A limit counts down while its child goes on, so that the child is not pulled further than needed.\<close>

lemma skip_yields:
  assumes "yields nxt s st"
  shows "(k < length (st_rows st) \<or> k = length (st_rows st) \<longrightarrow>
      (\<exists>s'. skip_loop nxt k s = Some (Ok True, 0, s') \<and> yields nxt s' (Stream (drop k (st_rows st)) (st_panics st)))) \<and>
    (length (st_rows st) < k \<longrightarrow> (\<exists>k' s'. skip_loop nxt k s = Some (if st_panics st then Panic else Ok False, k', s')))"
  using assms
proof (induction arbitrary: k rule: yields.induct)
  case (finish s s')
  show ?case by (cases k) (auto simp: finish intro: yields.finish)
next
  case (panic s s')
  show ?case by (cases k) (auto simp: panic intro: yields.panic)
next
  case (more s r s' st)
  have rows: "st_rows (st_cons r st) = r # st_rows st" "st_panics (st_cons r st) = st_panics st" by (cases st; simp)+
  show ?case
  proof (cases k)
    case 0
    have "yields nxt s (st_cons r st)" by (rule yields.more [OF more(1,2)])
    then show ?thesis using 0 by (cases st) simp
  next
    case (Suc n)
    then show ?thesis using more.IH [of n] more(1) by (simp add: rows)
  qed
qed

lemma limit_yields_now:
  "yields nxt s st \<Longrightarrow> yields (limit_next nxt) \<lparr>lm_child = s, lm_remaining = n, lm_skip = 0\<rparr> (limit_rows n 0 st)"
proof (induction n arbitrary: s st)
  case 0
  show ?case by (simp add: limit_rows_def, rule yields.finish) (simp add: limit_next_def)
next
  case (Suc n)
  from Suc.prems show ?case
  proof cases
    case (finish s')
    show ?thesis unfolding finish limit_rows_def by (simp, rule yields.finish) (simp add: limit_next_def finish)
  next
    case (panic s')
    show ?thesis unfolding panic limit_rows_def by (simp, rule yields.panic) (simp add: limit_next_def panic)
  next
    case (more r s' st1)
    have "limit_next nxt \<lparr>lm_child = s, lm_remaining = Suc n, lm_skip = 0\<rparr> = Some (Ok (Some r), \<lparr>lm_child = s', lm_remaining = n, lm_skip = 0\<rparr>)"
      by (simp add: limit_next_def more)
    from yields.more [OF this Suc.IH [OF more(3)]] show ?thesis unfolding more(1) limit_rows_def by (cases st1) simp
  qed
qed

lemma limit_next_skip:
  assumes "skip_loop nxt k s = Some (Ok True, 0, s')"
  shows "limit_next nxt \<lparr>lm_child = s, lm_remaining = n, lm_skip = k\<rparr> = limit_next nxt \<lparr>lm_child = s', lm_remaining = n, lm_skip = 0\<rparr>"
  by (simp add: limit_next_def assms)

lemma limit_yields:
  assumes y: "yields nxt s st"
  shows "yields (limit_next nxt) \<lparr>lm_child = s, lm_remaining = n, lm_skip = k\<rparr> (limit_rows n k st)"
proof (cases "k \<le> length (st_rows st)")
  case True
  then obtain s' where s': "skip_loop nxt k s = Some (Ok True, 0, s')" "yields nxt s' (Stream (drop k (st_rows st)) (st_panics st))"
    using skip_yields [OF y, of k] by auto
  have e: "limit_rows n 0 (Stream (drop k (st_rows st)) (st_panics st)) = limit_rows n k st" using True by (auto simp: limit_rows_def)
  show ?thesis using yields_cong [OF limit_yields_now [OF s'(2), of n] limit_next_skip [OF s'(1)]] by (simp only: e)
next
  case False
  then obtain k' s' where s': "skip_loop nxt k s = Some (if st_panics st then Panic else Ok False, k', s')"
    using skip_yields [OF y, of k] by auto
  have l: "limit_rows n k st = Stream [] (st_panics st)" using False by (simp add: limit_rows_def)
  show ?thesis
  proof (cases "st_panics st")
    case True
    show ?thesis unfolding l using True by (simp, intro yields.panic) (simp add: limit_next_def s')
  next
    case nopanic: False
    show ?thesis unfolding l using nopanic by (simp, intro yields.finish) (simp add: limit_next_def s')
  qed
qed

end
