(* ===== verification/RowSorts.thy ===== *)
theory RowSorts
  imports Physicals "HOL-Library.Multiset"
begin

text \<open>
  The sort behind \<open>ORDER BY\<close>. A comparison that is consistent on the rows at hand makes \<open>sort_by\<close> the one
  stable sorted arrangement of its input; \<open>row_cmp\<close> is consistent on rows whose key columns each hold
  nulls and values of one kind.
\<close>

definition consistent :: "('a \<Rightarrow> 'a \<Rightarrow> ordering) \<Rightarrow> 'a set \<Rightarrow> bool" where
  "consistent f S \<longleftrightarrow> (\<forall>a \<in> S. \<forall>b \<in> S. f b a = flip_ord (f a b)) \<and>
    (\<forall>a \<in> S. \<forall>b \<in> S. \<forall>c \<in> S. f a b \<noteq> Greater \<longrightarrow> f b c \<noteq> Greater \<longrightarrow> f a c \<noteq> Greater)"

abbreviation in_order :: "('a \<Rightarrow> 'a \<Rightarrow> ordering) \<Rightarrow> 'a list \<Rightarrow> bool" where
  "in_order f \<equiv> sorted_wrt (\<lambda>a b. f a b \<noteq> Greater)"

lemma flip_ord_eq [simp]: "flip_ord x = Less \<longleftrightarrow> x = Greater" "flip_ord x = Equal \<longleftrightarrow> x = Equal"
  "flip_ord x = Greater \<longleftrightarrow> x = Less"
  by (cases x; simp)+

lemma consistent_flip: "consistent f S \<Longrightarrow> a \<in> S \<Longrightarrow> b \<in> S \<Longrightarrow> f b a = flip_ord (f a b)"
  unfolding consistent_def by blast

lemma consistent_trans:
  "consistent f S \<Longrightarrow> a \<in> S \<Longrightarrow> b \<in> S \<Longrightarrow> c \<in> S \<Longrightarrow> f a b \<noteq> Greater \<Longrightarrow> f b c \<noteq> Greater \<Longrightarrow> f a c \<noteq> Greater"
  unfolding consistent_def by blast

lemma consistent_subset: "consistent f S \<Longrightarrow> T \<subseteq> S \<Longrightarrow> consistent f T"
  unfolding consistent_def by blast

lemma consistent_refl: "consistent f S \<Longrightarrow> a \<in> S \<Longrightarrow> f a a = Equal"
  using consistent_flip [of f S a a] by (cases "f a a") auto

text \<open>Elements that compare equal compare alike with every other.\<close>

lemma consistent_Equal:
  assumes c: "consistent f S" and S: "a \<in> S" "b \<in> S" "x \<in> S" and e: "f a b = Equal"
  shows "f x a = f x b"
proof -
  have ba: "f b a = Equal" using consistent_flip [OF c S(1,2)] e by simp
  have le: "f x a \<noteq> Greater \<longleftrightarrow> f x b \<noteq> Greater"
    using consistent_trans [OF c S(3,1,2)] consistent_trans [OF c S(3,2,1)] e ba by auto
  have ge: "f a x \<noteq> Greater \<longleftrightarrow> f b x \<noteq> Greater"
    using consistent_trans [OF c S(1,2,3)] consistent_trans [OF c S(2,1,3)] e ba by auto
  have "f x a \<noteq> Less \<longleftrightarrow> f x b \<noteq> Less"
    using ge consistent_flip [OF c S(3,1)] consistent_flip [OF c S(3,2)] by simp
  with le show ?thesis by (cases "f x a"; cases "f x b") auto
qed

section \<open>The sort\<close>

lemma insert_by_set [simp]: "set (insert_by f x ys) = insert x (set ys)"
  by (induction ys) auto

lemma insert_by_mset [simp]: "mset (insert_by f x ys) = add_mset x (mset ys)"
  by (induction ys) auto

lemma sort_by_mset [simp]: "mset (sort_by f xs) = mset xs"
  by (induction xs) (simp_all add: sort_by_def)

lemma sort_by_set [simp]: "set (sort_by f xs) = set xs"
  using sort_by_mset [of f xs] by (metis mset_eq_setD)

lemma sort_by_length [simp]: "length (sort_by f xs) = length xs"
  using sort_by_mset [of f xs] by (metis size_mset)

lemma sort_by_Nil [simp]: "sort_by f [] = []"
  by (simp add: sort_by_def)

lemma sort_by_Cons: "sort_by f (x # xs) = insert_by f x (sort_by f xs)"
  by (simp add: sort_by_def)

lemma insert_by_in_order:
  assumes "consistent f S" "x \<in> S" "set ys \<subseteq> S" "in_order f ys"
  shows "in_order f (insert_by f x ys)"
  using assms(3,4)
proof (induction ys)
  case (Cons y ys)
  note c = assms(1)
  from Cons.prems have S: "y \<in> S" "set ys \<subseteq> S" by auto
  show ?case
  proof (cases "f x y = Greater")
    case True
    then have "f y x \<noteq> Greater" using consistent_flip [OF c assms(2) S(1)] by simp
    then show ?thesis using True Cons by auto
  next
    case False
    have "f x z \<noteq> Greater" if "z \<in> set ys" for z
      using consistent_trans [OF c assms(2) S(1) _ False] that Cons.prems by auto
    then show ?thesis using False Cons.prems by auto
  qed
qed simp

lemma sort_by_in_order: "consistent f S \<Longrightarrow> set xs \<subseteq> S \<Longrightarrow> in_order f (sort_by f xs)"
  by (induction xs) (auto simp: sort_by_Cons intro!: insert_by_in_order)

text \<open>Stability: elements that compare equal keep their order.\<close>

lemma insert_by_stable:
  assumes c: "consistent f S" and S: "x \<in> S" "a \<in> S" "set ys \<subseteq> S"
  shows "filter (\<lambda>y. f a y = Equal) (insert_by f x ys) = filter (\<lambda>y. f a y = Equal) (x # ys)"
  using S(3)
proof (induction ys)
  case (Cons y ys)
  then have y: "y \<in> S" by simp
  show ?case
  proof (cases "f x y = Greater")
    case True
    have "\<not> (f a x = Equal \<and> f a y = Equal)"
      using consistent_Equal [OF c S(2,1) y] consistent_flip [OF c y S(1)] consistent_flip [OF c y S(2)] True by auto
    then show ?thesis using Cons True by auto
  qed simp
qed simp

lemma sort_by_stable:
  assumes "consistent f S" "a \<in> S" "set xs \<subseteq> S"
  shows "filter (\<lambda>y. f a y = Equal) (sort_by f xs) = filter (\<lambda>y. f a y = Equal) xs"
  using assms(3)
proof (induction xs)
  case (Cons x xs)
  then show ?case using insert_by_stable [OF assms(1) _ assms(2), of x "sort_by f xs"] by (simp add: sort_by_Cons)
qed simp

text \<open>
  These facts determine the result: the algorithm of the library does not matter.
\<close>

lemma stable_order_unique:
  assumes c: "consistent f S"
  shows "\<lbrakk>in_order f ys; in_order f zs; set ys \<subseteq> S; set zs \<subseteq> S;
    \<And>a. a \<in> S \<Longrightarrow> filter (\<lambda>y. f a y = Equal) ys = filter (\<lambda>y. f a y = Equal) zs\<rbrakk> \<Longrightarrow> ys = zs"
proof (induction ys arbitrary: zs)
  case Nil
  show ?case
  proof (cases zs)
    case (Cons z zs')
    then have "z \<in> S" using Nil by simp
    then show ?thesis using Nil.prems(5) [of z] consistent_refl [OF c] Cons by simp
  qed simp
next
  case (Cons y ys)
  have y: "y \<in> S" using Cons.prems by simp
  have fy: "filter (\<lambda>w. f y w = Equal) zs = y # filter (\<lambda>w. f y w = Equal) ys"
    using Cons.prems(5) [OF y] consistent_refl [OF c y] by simp
  then have yz: "y \<in> set zs" by (metis filter_eq_ConsD in_set_conv_decomp)
  then obtain z zs' where zs: "zs = z # zs'" by (cases zs) auto
  have z: "z \<in> S" using Cons.prems zs by simp
  have zy: "f z y \<noteq> Greater" using yz zs Cons.prems(2) consistent_refl [OF c y] by auto
  have "filter (\<lambda>w. f z w = Equal) (y # ys) = z # filter (\<lambda>w. f z w = Equal) zs'"
    using Cons.prems(5) [OF z] consistent_refl [OF c z] zs by simp
  then have "z \<in> set (y # ys)" by (metis filter_eq_ConsD in_set_conv_decomp)
  then have "f y z \<noteq> Greater" using Cons.prems(1) consistent_refl [OF c y] by auto
  then have "f y z = Equal" using zy consistent_flip [OF c y z] by (cases "f y z") auto
  then have e: "y = z" using fy zs by simp
  have "ys = zs'"
  proof (rule Cons.IH)
    fix a assume a: "a \<in> S"
    show "filter (\<lambda>w. f a w = Equal) ys = filter (\<lambda>w. f a w = Equal) zs'"
      using Cons.prems(5) [OF a] zs e by (simp split: if_splits)
  qed (use Cons.prems zs in auto)
  then show ?case using e zs by simp
qed

section \<open>Comparing rows\<close>

text \<open>Each key column holds nulls and values of one kind, as the columns of a table do.\<close>

definition homogeneous :: "(nat \<times> bool) list \<Rightarrow> value_row set \<Rightarrow> bool" where
  "homogeneous ks S \<longleftrightarrow> (\<forall>(c, asc) \<in> set ks. \<forall>a \<in> S. \<forall>b \<in> S. same_kind (row_cell a c) (row_cell b c))"

lemma same_kind_trans:
  assumes "same_kind u v" "same_kind v w" "same_kind u w" "total_cmp u v \<noteq> Greater" "total_cmp v w \<noteq> Greater"
  shows "total_cmp u w \<noteq> Greater"
  using assms total_cmp_trans [of u v w] by (cases u; cases v; cases w) (auto simp: same_kind_def)

lemma cell_consistent:
  assumes "\<forall>a \<in> S. \<forall>b \<in> S. same_kind (row_cell a c) (row_cell b c)"
  shows "consistent (\<lambda>a b. if asc then total_cmp (row_cell a c) (row_cell b c) else flip_ord (total_cmp (row_cell a c) (row_cell b c))) S"
proof -
  have f: "total_cmp (row_cell b c) (row_cell a c) = flip_ord (total_cmp (row_cell a c) (row_cell b c))" for a b
    by (rule total_cmp_flip)
  have t: "total_cmp (row_cell a c) (row_cell b c) \<noteq> Greater \<Longrightarrow> total_cmp (row_cell b c) (row_cell d c) \<noteq> Greater \<Longrightarrow>
      total_cmp (row_cell a c) (row_cell d c) \<noteq> Greater" if "a \<in> S" "b \<in> S" "d \<in> S" for a b d
    using same_kind_trans that assms by blast
  show ?thesis
  proof (cases asc)
    case True
    show ?thesis unfolding consistent_def if_P [OF True] using f t by blast
  next
    case False
    then show ?thesis unfolding consistent_def if_not_P [OF False] f [symmetric] using f t by blast
  qed
qed

text \<open>Comparing by one function and then, among equals, by another.\<close>

lemma consistent_lex:
  assumes f: "consistent f S" and g: "consistent g S"
  shows "consistent (\<lambda>a b. if f a b \<noteq> Equal then f a b else g a b) S"
  unfolding consistent_def
proof (intro conjI ballI impI)
  fix a b assume S: "a \<in> S" "b \<in> S"
  show "(if f b a \<noteq> Equal then f b a else g b a) = flip_ord (if f a b \<noteq> Equal then f a b else g a b)"
    unfolding consistent_flip [OF f S] consistent_flip [OF g S] by simp
next
  fix a b c assume S: "a \<in> S" "b \<in> S" "c \<in> S"
    and ab: "(if f a b \<noteq> Equal then f a b else g a b) \<noteq> Greater" and bc: "(if f b c \<noteq> Equal then f b c else g b c) \<noteq> Greater"
  have l: "f a b \<noteq> Greater" "f b c \<noteq> Greater" using ab bc by (auto split: if_splits)
  have ac: "f a c \<noteq> Greater" using consistent_trans [OF f S l] .
  show "(if f a c \<noteq> Equal then f a c else g a c) \<noteq> Greater"
  proof (cases "f a c = Equal")
    case True
    have ca: "f c a = Equal" using consistent_flip [OF f S(1,3)] True by simp
    have "f b a \<noteq> Greater" using consistent_trans [OF f S(2,3,1) l(2)] ca by simp
    then have "f a b = Equal" using consistent_flip [OF f S(1,2)] l by (cases "f a b") auto
    moreover have "f c b \<noteq> Greater" using consistent_trans [OF f S(3,1,2)] ca l by simp
    then have "f b c = Equal" using consistent_flip [OF f S(2,3)] l by (cases "f b c") auto
    ultimately show ?thesis using True ab bc consistent_trans [OF g S] by simp
  qed (use ac in simp)
qed

lemma row_cmp_consistent: "homogeneous ks S \<Longrightarrow> consistent (row_cmp ks) S"
proof (induction ks)
  case Nil
  show ?case by (simp add: consistent_def)
next
  case (Cons k ks)
  obtain c asc where k: "k = (c, asc)" by (cases k)
  have h: "homogeneous ks S" "\<forall>a \<in> S. \<forall>b \<in> S. same_kind (row_cell a c) (row_cell b c)"
    using Cons.prems by (auto simp: homogeneous_def k)
  have "row_cmp (k # ks) = (\<lambda>a b. if (if asc then total_cmp (row_cell a c) (row_cell b c) else flip_ord (total_cmp (row_cell a c) (row_cell b c))) \<noteq> Equal
      then (if asc then total_cmp (row_cell a c) (row_cell b c) else flip_ord (total_cmp (row_cell a c) (row_cell b c))) else row_cmp ks a b)"
    by (simp add: k fun_eq_iff Let_def)
  then show ?case using consistent_lex [OF cell_consistent [OF h(2), of asc] Cons.IH [OF h(1)]] by simp
qed

section \<open>What the sort yields\<close>

text \<open>The rows a sort still has to give, before it has drained its child or after.\<close>

definition sort_stream :: "('s \<Rightarrow> row_stream) \<Rightarrow> 's sort_op \<Rightarrow> row_stream" where
  "sort_stream stream_of o1 = (case so_child o1 of
     None \<Rightarrow> Stream (drop (so_pos o1) (so_buffer o1)) False
   | Some c \<Rightarrow> if st_panics (stream_of c) then Stream [] True
       else Stream (drop (so_pos o1) (sort_by (row_cmp (so_keys o1)) (st_rows (stream_of c)))) False)"

lemma sort_next_filled: "so_child o1 = None \<Longrightarrow> sort_next nxt o1 = Some (sort_emit o1)"
  by (simp add: sort_next_def sort_materialize_def)

lemma sort_emit_yields:
  "so_child o1 = None \<Longrightarrow> yields (sort_next nxt) o1 (Stream (drop (so_pos o1) (so_buffer o1)) False)"
proof (induction "length (so_buffer o1) - so_pos o1" arbitrary: o1)
  case 0
  then have "sort_next nxt o1 = Some (Ok None, o1)" by (simp add: sort_next_filled sort_emit_def)
  from yields.finish [of "sort_next nxt", OF this] show ?case using 0 by simp
next
  case (Suc n)
  then have l: "so_pos o1 < length (so_buffer o1)" by simp
  let ?o = "o1\<lparr>so_buffer := (so_buffer o1)[so_pos o1 := []], so_pos := so_pos o1 + 1\<rparr>"
  have e: "sort_next nxt o1 = Some (Ok (Some (so_buffer o1 ! so_pos o1)), ?o)" using Suc.prems l by (simp add: sort_next_filled sort_emit_def)
  have "yields (sort_next nxt) ?o (Stream (drop (so_pos ?o) (so_buffer ?o)) False)"
    by (rule Suc.hyps(1)) (use Suc in simp_all)
  then have "yields (sort_next nxt) ?o (Stream (drop (Suc (so_pos o1)) (so_buffer o1)) False)" by simp
  from yields.more [of "sort_next nxt", OF e this] show ?case using l by (simp add: Cons_nth_drop_Suc)
qed

context operator
begin

lemma sort_operator: "operator (sort_next nxt) (sort_stream stream_of)"
proof
  fix o1
  show "yields (sort_next nxt) o1 (sort_stream stream_of o1)"
  proof (cases "so_child o1")
    case None
    then show ?thesis using sort_emit_yields [OF None, of nxt] by (simp add: sort_stream_def)
  next
    case (Some c)
    obtain c' where c': "collect_rows nxt c = Some (collected (stream_of c), c')" using collect by blast
    show ?thesis
    proof (cases "st_panics (stream_of c)")
      case True
      have "sort_next nxt o1 = Some (Panic, o1\<lparr>so_child := None\<rparr>)"
        using True Some c' by (cases o1) (simp add: sort_next_def sort_materialize_def collected_def)
      from yields.panic [of "sort_next nxt", OF this] show ?thesis using Some True by (simp add: sort_stream_def)
    next
      case False
      let ?o = "o1\<lparr>so_child := None, so_buffer := sort_by (row_cmp (so_keys o1)) (st_rows (stream_of c))\<rparr>"
      have "sort_next nxt o1 = sort_next nxt ?o"
        using False Some c' by (simp add: sort_next_def sort_materialize_def collected_def)
      from yields_cong [OF sort_emit_yields this] show ?thesis using Some False by (simp add: sort_stream_def)
    qed
  qed
qed

lemma filter_operator: "operator (filter_next nxt) (\<lambda>f. filter_rows (fl_predicate f) (st_rows (stream_of (fl_child f))) (st_panics (stream_of (fl_child f))))"
proof
  fix f :: "'s filter_op"
  show "yields (filter_next nxt) f (filter_rows (fl_predicate f) (st_rows (stream_of (fl_child f))) (st_panics (stream_of (fl_child f))))"
    using filter_yields [OF yields, of "fl_child f" "fl_predicate f"] by (cases f) simp
qed

lemma project_operator: "operator (project_next nxt) (\<lambda>p. project_rows (pj_exprs p) (st_rows (stream_of (pj_child p))) (st_panics (stream_of (pj_child p))))"
proof
  fix p :: "'s project_op"
  show "yields (project_next nxt) p (project_rows (pj_exprs p) (st_rows (stream_of (pj_child p))) (st_panics (stream_of (pj_child p))))"
    using project_yields [OF yields, of "pj_child p" "pj_exprs p"] by (cases p) simp
qed

lemma limit_operator: "operator (limit_next nxt) (\<lambda>l. limit_rows (lm_remaining l) (lm_skip l) (stream_of (lm_child l)))"
proof
  fix l :: "'s limit_op"
  show "yields (limit_next nxt) l (limit_rows (lm_remaining l) (lm_skip l) (stream_of (lm_child l)))"
    using limit_yields [OF yields, of "lm_child l" "lm_remaining l" "lm_skip l"] by (cases l) simp
qed

end

interpretation scanned: operator scan_next "\<lambda>s. Stream s False"
  by unfold_locales (rule scan_yields)

section \<open>The order ORDER BY asks for\<close>

text \<open>
  Said without the comparison of the code: a null comes before every value, integers are ordered as
  signed numbers, false comes before true, texts are ordered by their dictionary ids and reals by the
  total order of IEEE 754. A row precedes another when they agree on some first keys and the next key
  puts it first, ascending or descending.
\<close>

fun val_less :: "val \<Rightarrow> val \<Rightarrow> bool" where
  "val_less VNull w \<longleftrightarrow> w \<noteq> VNull"
| "val_less (VBool a) (VBool b) \<longleftrightarrow> \<not> a \<and> b"
| "val_less (VInt a) (VInt b) \<longleftrightarrow> sint a < sint b"
| "val_less (VReal a) (VReal b) \<longleftrightarrow> a < b"
| "val_less (VText a) (VText b) \<longleftrightarrow> unat a < unat b"
| "val_less v w \<longleftrightarrow> False"

definition same_keys :: "(nat \<times> bool) list \<Rightarrow> value_row \<Rightarrow> value_row \<Rightarrow> bool" where
  "same_keys ks a b \<longleftrightarrow> (\<forall>(c, asc) \<in> set ks. row_cell a c = row_cell b c)"

definition precedes :: "(nat \<times> bool) list \<Rightarrow> value_row \<Rightarrow> value_row \<Rightarrow> bool" where
  "precedes ks a b \<longleftrightarrow> (\<exists>i < length ks. same_keys (take i ks) a b \<and>
     (if snd (ks ! i) then val_less (row_cell a (fst (ks ! i))) (row_cell b (fst (ks ! i)))
      else val_less (row_cell b (fst (ks ! i))) (row_cell a (fst (ks ! i)))))"

lemma total_cmp_val_less:
  assumes "same_kind u v"
  shows "total_cmp u v = Less \<longleftrightarrow> val_less u v" "total_cmp u v = Equal \<longleftrightarrow> u = v"
  by (use assms in \<open>cases u; cases v; simp add: same_kind_def word_less_nat_alt sint_eq_iff\<close>)+

lemma same_keys_simps [simp]:
  "same_keys [] a b" "same_keys ((c, asc) # ks) a b \<longleftrightarrow> row_cell a c = row_cell b c \<and> same_keys ks a b"
  by (auto simp: same_keys_def)

lemma precedes_simps [simp]:
  "\<not> precedes [] a b"
  "precedes ((c, asc) # ks) a b \<longleftrightarrow> (if asc then val_less (row_cell a c) (row_cell b c) else val_less (row_cell b c) (row_cell a c)) \<or>
     row_cell a c = row_cell b c \<and> precedes ks a b"
  by (auto simp: precedes_def Ex_less_Suc2)

lemma row_cmp_precedes:
  assumes "homogeneous ks S" and S: "a \<in> S" "b \<in> S"
  shows "(row_cmp ks a b = Less \<longleftrightarrow> precedes ks a b) \<and> (row_cmp ks a b = Equal \<longleftrightarrow> same_keys ks a b)"
  using assms(1)
proof (induction ks)
  case (Cons k ks)
  obtain c asc where k: "k = (c, asc)" by (cases k)
  have h: "homogeneous ks S" "same_kind (row_cell a c) (row_cell b c)" "same_kind (row_cell b c) (row_cell a c)"
    using Cons.prems S by (auto simp: homogeneous_def k)
  have f: "total_cmp (row_cell b c) (row_cell a c) = flip_ord (total_cmp (row_cell a c) (row_cell b c))" by (rule total_cmp_flip)
  note IH = Cons.IH [OF h(1)] and less = total_cmp_val_less(1) [OF h(2)] total_cmp_val_less(1) [OF h(3)]
    and eq = total_cmp_val_less(2) [OF h(2)]
  show ?case
  proof (cases "total_cmp (row_cell a c) (row_cell b c)")
    case Equal
    then have "row_cell a c = row_cell b c" "\<not> val_less (row_cell a c) (row_cell b c)" "\<not> val_less (row_cell b c) (row_cell a c)"
      using eq less f by simp_all
    then show ?thesis using IH Equal by (simp add: k Let_def)
  next
    case Less
    then have "row_cell a c \<noteq> row_cell b c" "val_less (row_cell a c) (row_cell b c)" "\<not> val_less (row_cell b c) (row_cell a c)"
      using eq less f by auto
    then show ?thesis using Less by (simp add: k Let_def)
  next
    case Greater
    then have "row_cell a c \<noteq> row_cell b c" "\<not> val_less (row_cell a c) (row_cell b c)" "val_less (row_cell b c) (row_cell a c)"
      using eq less f by auto
    then show ?thesis using Greater by (simp add: k Let_def)
  qed
qed simp

lemma row_cmp_order:
  assumes h: "homogeneous ks S" and z: "set zs \<subseteq> S"
  shows "in_order (row_cmp ks) zs \<longleftrightarrow> sorted_wrt (\<lambda>a b. \<not> precedes ks b a) zs"
proof -
  have "row_cmp ks a b \<noteq> Greater \<longleftrightarrow> \<not> precedes ks b a" if "a \<in> set zs" "b \<in> set zs" for a b
    using row_cmp_precedes [OF h, of b a] consistent_flip [OF row_cmp_consistent [OF h], of a b] that z by auto
  then show ?thesis by (auto intro: sorted_wrt_mono_rel [rotated])
qed

lemma row_cmp_same:
  assumes "homogeneous ks S" and "a \<in> S" and "set zs \<subseteq> S"
  shows "[b \<leftarrow> zs. row_cmp ks a b = Equal] = [b \<leftarrow> zs. same_keys ks a b]"
  using row_cmp_precedes [OF assms(1,2)] assms(3) by (intro filter_cong) auto

text \<open>The sort of the code yields the one arrangement that is in order and keeps rows with the same keys in place.\<close>

lemma sort_by_arrangement:
  assumes h: "homogeneous ks (set rows)"
  shows "zs = sort_by (row_cmp ks) rows \<longleftrightarrow> mset zs = mset rows \<and> sorted_wrt (\<lambda>a b. \<not> precedes ks b a) zs \<and>
    (\<forall>a \<in> set rows. [b \<leftarrow> zs. same_keys ks a b] = [b \<leftarrow> rows. same_keys ks a b])"
proof -
  let ?s = "sort_by (row_cmp ks) rows"
  note c = row_cmp_consistent [OF h]
  have s: "in_order (row_cmp ks) ?s" by (rule sort_by_in_order [OF c]) simp
  have st: "[b \<leftarrow> ?s. row_cmp ks a b = Equal] = [b \<leftarrow> rows. row_cmp ks a b = Equal]" if "a \<in> set rows" for a
    using sort_by_stable [OF c that] by simp
  have same: "[b \<leftarrow> xs. row_cmp ks a b = Equal] = [b \<leftarrow> xs. same_keys ks a b]" if "a \<in> set rows" "mset xs = mset rows" for a xs
    using row_cmp_same [OF h that(1), of xs] mset_eq_setD [OF that(2)] by simp
  have ord: "in_order (row_cmp ks) xs \<longleftrightarrow> sorted_wrt (\<lambda>a b. \<not> precedes ks b a) xs" if "mset xs = mset rows" for xs
    using row_cmp_order [OF h, of xs] mset_eq_setD [OF that] by simp
  show ?thesis
  proof
    assume z: "zs = ?s"
    show "mset zs = mset rows \<and> sorted_wrt (\<lambda>a b. \<not> precedes ks b a) zs \<and>
        (\<forall>a \<in> set rows. [b \<leftarrow> zs. same_keys ks a b] = [b \<leftarrow> rows. same_keys ks a b])"
      using s st same [of _ ?s] same [of _ rows] ord [of ?s] by (simp add: z)
  next
    assume z: "mset zs = mset rows \<and> sorted_wrt (\<lambda>a b. \<not> precedes ks b a) zs \<and>
        (\<forall>a \<in> set rows. [b \<leftarrow> zs. same_keys ks a b] = [b \<leftarrow> rows. same_keys ks a b])"
    show "zs = ?s"
    proof (rule stable_order_unique [OF c _ s])
      show "in_order (row_cmp ks) zs" using ord [of zs] z by simp
      show "set zs \<subseteq> set rows" using mset_eq_setD [of zs rows] z by simp
      show "[b \<leftarrow> zs. row_cmp ks a b = Equal] = [b \<leftarrow> ?s. row_cmp ks a b = Equal]" if "a \<in> set rows" for a
        using st [OF that] same [OF that, of zs] same [OF that, of rows] z that by simp
    qed simp
  qed
qed

end
