(* ===== verification/Pipelines.thy ===== *)
theory Pipelines
  imports RowSorts
begin

text \<open>
  The grouping operator against its specification, one row per group in the order in which the groups
  first appear, and pipelines of operators: what a query of scan, filter, grouping, sort, projection and
  limit yields, as a function on row lists.
\<close>

section \<open>Grouping\<close>

text \<open>Keys in the order of first appearance.\<close>

definition in_first_order :: "'a list \<Rightarrow> 'a list" where
  "in_first_order xs = rev (remdups (rev xs))"

lemma in_first_order_snoc: "in_first_order (xs @ [x]) = (if x \<in> set xs then in_first_order xs else in_first_order xs @ [x])"
  by (simp add: in_first_order_def)

lemma set_in_first_order [simp]: "set (in_first_order xs) = set xs"
  by (simp add: in_first_order_def)

lemma distinct_in_first_order [simp]: "distinct (in_first_order xs)"
  by (simp add: in_first_order_def)

text \<open>The values one aggregate sees in one group, and what it makes of them.\<close>

definition ints :: "val list \<Rightarrow> i64 list" where
  "ints vs = List.map_filter as_int vs"

fun least :: "i64 list \<Rightarrow> i64" where
  "least [] = 0x7FFFFFFFFFFFFFFF"
| "least (i # is') = (let m = least is' in if sint i < sint m then i else m)"

fun greatest :: "i64 list \<Rightarrow> i64" where
  "greatest [] = 0x8000000000000000"
| "greatest (i # is') = (let m = greatest is' in if sint m < sint i then i else m)"

definition agg_value :: "agg_kind \<Rightarrow> val list \<Rightarrow> val" where
  "agg_value k vs = (case k of GCount \<Rightarrow> VInt (of_nat (length vs)) | GSum \<Rightarrow> VInt (sum_list (ints vs))
     | GMin \<Rightarrow> if ints vs = [] then VNull else VInt (least (ints vs))
     | GMax \<Rightarrow> if ints vs = [] then VNull else VInt (greatest (ints vs)))"

lemma ints_snoc: "ints (vs @ [v]) = ints vs @ (case as_int v of None \<Rightarrow> [] | Some i \<Rightarrow> [i])"
  by (simp add: ints_def List.map_filter_def split: option.split)

lemma least_bound: "i \<in> set is' \<Longrightarrow> sint (least is') \<le> sint i"
  by (induction is') (auto simp: Let_def)

lemma sint_le_max: "sint (i :: i64) \<le> sint (0x7FFFFFFFFFFFFFFF :: i64)"
  using sint_lt [of i] by simp

lemma min_le_sint: "sint (0x8000000000000000 :: i64) \<le> sint (i :: i64)"
  using sint_ge [of i] by simp

lemma least_snoc: "least (is' @ [i]) = (if sint i < sint (least is') then i else least is')"
proof (induction is')
  case Nil
  have "\<not> sint i < sint (0x7FFFFFFFFFFFFFFF :: i64) \<Longrightarrow> i = 0x7FFFFFFFFFFFFFFF"
    using sint_le_max [of i] by (metis antisym_conv2 sint_eq_iff)
  then show ?case by (simp add: Let_def del: sint_numeral)
qed (auto simp: Let_def sint_eq_iff)

lemma greatest_snoc: "greatest (is' @ [i]) = (if sint (greatest is') < sint i then i else greatest is')"
proof (induction is')
  case Nil
  have "\<not> sint (0x8000000000000000 :: i64) < sint i \<Longrightarrow> i = 0x8000000000000000"
    using min_le_sint [of i] by (metis antisym_conv2 sint_eq_iff)
  then show ?case by (simp add: Let_def del: sint_numeral)
qed (auto simp: Let_def sint_eq_iff)

definition agg_fold :: "val list \<Rightarrow> agg_state" where
  "agg_fold vs = fold agg_update vs group_agg_new"

lemma agg_fold_snoc: "agg_fold (vs @ [v]) = agg_update v (agg_fold vs)"
  by (simp add: agg_fold_def)

lemma agg_fold_fields:
  "ag_count (agg_fold vs) = of_nat (length vs) \<and> ag_sum (agg_fold vs) = sum_list (ints vs) \<and>
   ag_min (agg_fold vs) = least (ints vs) \<and> ag_max (agg_fold vs) = greatest (ints vs) \<and>
   ag_seen (agg_fold vs) = (ints vs \<noteq> [])"
proof (induction vs rule: rev_induct)
  case Nil
  show ?case by (simp add: agg_fold_def group_agg_new_def ints_def List.map_filter_def)
next
  case (snoc v vs)
  then show ?case
    by (cases "as_int v") (simp_all add: agg_fold_snoc agg_update_def ints_snoc Let_def least_snoc greatest_snoc)
qed

lemma agg_fold_finalize: "agg_finalize k (agg_fold vs) = agg_value k vs"
  using agg_fold_fields [of vs] by (simp add: agg_finalize_def agg_value_def split: agg_kind.split)

text \<open>The groups after a list of rows.\<close>

definition group_members :: "nat list \<Rightarrow> value_row list \<Rightarrow> i64 list \<Rightarrow> value_row list" where
  "group_members cols rs k = [r \<leftarrow> rs. group_key cols r = k]"

definition group_states :: "nat list \<Rightarrow> agg_spec list \<Rightarrow> value_row list \<Rightarrow> i64 list \<Rightarrow> agg_state list" where
  "group_states cols specs rs k = map (\<lambda>s. agg_fold (map (\<lambda>r. row_cell r (gs_column s)) (group_members cols rs k))) specs"

lemma update_all_map: "update_all specs r (map f specs) = map (\<lambda>s. agg_update (row_cell r (gs_column s)) (f s)) specs"
  by (induction specs) (simp_all add: update_all_def)

lemma update_all_states:
  "group_key cols r = k \<Longrightarrow> update_all specs r (group_states cols specs rs k) = group_states cols specs (rs @ [r]) k"
  by (simp add: group_states_def update_all_map group_members_def agg_fold_snoc)

lemma fold_groups:
  "fold (group_row cols specs) rs (Map.empty, []) =
    ((\<lambda>k. if k \<in> set (map (group_key cols) rs) then Some (group_states cols specs rs k) else None), in_first_order (map (group_key cols) rs))"
proof (induction rs rule: rev_induct)
  case Nil
  show ?case by (simp add: in_first_order_def)
next
  case (snoc r rs)
  let ?k = "group_key cols r"
  have other: "group_states cols specs (rs @ [r]) k = group_states cols specs rs k" if "k \<noteq> ?k" for k
    using that by (simp add: group_states_def group_members_def)
  show ?case
  proof (cases "?k \<in> set (map (group_key cols) rs)")
    case True
    have f: "fold (group_row cols specs) (rs @ [r]) (Map.empty, []) = group_row cols specs r
        ((\<lambda>k. if k \<in> set (map (group_key cols) rs) then Some (group_states cols specs rs k) else None), in_first_order (map (group_key cols) rs))"
      using snoc by simp
    show ?thesis unfolding f using True other
      by (auto simp: group_row_def in_first_order_snoc update_all_states fun_eq_iff Let_def)
  next
    case False
    have f: "fold (group_row cols specs) (rs @ [r]) (Map.empty, []) = group_row cols specs r
        ((\<lambda>k. if k \<in> set (map (group_key cols) rs) then Some (group_states cols specs rs k) else None), in_first_order (map (group_key cols) rs))"
      using snoc by simp
    have e: "group_members cols rs ?k = []" using False by (auto simp: group_members_def filter_empty_conv) (metis image_eqI)
    have "replicate (length specs) group_agg_new = group_states cols specs rs ?k"
      by (simp add: group_states_def e agg_fold_def map_replicate_const)
    then show ?thesis unfolding f using False other
      by (auto simp: group_row_def in_first_order_snoc update_all_states fun_eq_iff Let_def)
  qed
qed

definition grouped :: "nat list \<Rightarrow> agg_spec list \<Rightarrow> value_row list \<Rightarrow> value_row list" where
  "grouped cols specs rs = map (\<lambda>k. map VInt k @ map (\<lambda>s. agg_value (gs_kind s) (map (\<lambda>r. row_cell r (gs_column s)) (group_members cols rs k))) specs)
     (in_first_order (map (group_key cols) rs))"

lemma group_output_grouped: "group_output specs (fold (group_row cols specs) rs (Map.empty, [])) = grouped cols specs rs"
proof -
  have "map (\<lambda>(s, a). agg_finalize (gs_kind s) a) (zip specs (group_states cols specs rs k)) =
      map (\<lambda>s. agg_value (gs_kind s) (map (\<lambda>r. row_cell r (gs_column s)) (group_members cols rs k))) specs" for k
    by (simp add: group_states_def zip_map2 zip_same_conv_map agg_fold_finalize)
  then show ?thesis by (auto simp: fold_groups group_output_def grouped_def)
qed

definition aggregate_stream :: "('s \<Rightarrow> row_stream) \<Rightarrow> 's hash_aggregate \<Rightarrow> row_stream" where
  "aggregate_stream stream_of h = (case ha_child h of
     None \<Rightarrow> Stream (ha_output h) False
   | Some c \<Rightarrow> if st_panics (stream_of c) then Stream [] True
       else Stream (grouped (ha_group_cols h) (ha_aggs h) (st_rows (stream_of c))) False)"

lemma aggregate_emit_yields: "ha_child h = None \<Longrightarrow> yields (aggregate_next nxt) h (Stream (ha_output h) False)"
proof (induction "ha_output h" arbitrary: h)
  case Nil
  then have "aggregate_next nxt h = Some (Ok None, h)" by (simp add: aggregate_next_def aggregate_run_def Nil(1)[symmetric])
  from yields.finish [of "aggregate_next nxt", OF this] show ?case using Nil by simp
next
  case (Cons r rs)
  have e: "aggregate_next nxt h = Some (Ok (Some r), h\<lparr>ha_output := rs\<rparr>)"
    using Cons.prems by (simp add: aggregate_next_def aggregate_run_def Cons.hyps(2)[symmetric])
  have "yields (aggregate_next nxt) (h\<lparr>ha_output := rs\<rparr>) (Stream rs False)"
    using Cons.hyps(1) [of "h\<lparr>ha_output := rs\<rparr>"] Cons.prems by simp
  from yields.more [of "aggregate_next nxt", OF e this] show ?case by (simp add: Cons.hyps(2)[symmetric])
qed

context operator
begin

lemma aggregate_operator: "operator (aggregate_next nxt) (aggregate_stream stream_of)"
proof
  fix h
  show "yields (aggregate_next nxt) h (aggregate_stream stream_of h)"
  proof (cases "ha_child h")
    case None
    then show ?thesis using aggregate_emit_yields [OF None, of nxt] by (simp add: aggregate_stream_def)
  next
    case (Some c)
    obtain c' where c': "collect_rows nxt c = Some (collected (stream_of c), c')" using collect by blast
    show ?thesis
    proof (cases "st_panics (stream_of c)")
      case True
      have "aggregate_next nxt h = Some (Panic, h\<lparr>ha_child := None\<rparr>)"
        using True Some c' by (cases h) (simp add: aggregate_next_def aggregate_run_def collected_def)
      from yields.panic [of "aggregate_next nxt", OF this] show ?thesis using Some True by (simp add: aggregate_stream_def)
    next
      case False
      let ?h = "h\<lparr>ha_child := None, ha_output := grouped (ha_group_cols h) (ha_aggs h) (st_rows (stream_of c))\<rparr>"
      have "aggregate_next nxt h = aggregate_next nxt ?h"
        using False Some c' by (simp add: aggregate_next_def aggregate_run_def collected_def group_output_grouped)
      from yields_cong [OF aggregate_emit_yields this] show ?thesis using Some False by (simp add: aggregate_stream_def)
    qed
  qed
qed

end
section \<open>Pipelines\<close>

text \<open>
  The tower an ordered query is run by: \<open>Limit(Project(Sort(Filter(Scan))))\<close>, each layer over the
  operator below, and the tower of a grouped one, \<open>Sort(HashAggregate(Filter(Scan)))\<close>.
\<close>

interpretation filtered: operator "filter_next scan_next" "\<lambda>f. filter_rows (fl_predicate f) (fl_child f) False"
  using scanned.filter_operator by simp

interpretation filtered_sorted: operator "sort_next (filter_next scan_next)" "sort_stream (\<lambda>f. filter_rows (fl_predicate f) (fl_child f) False)"
  by (rule filtered.sort_operator)

interpretation filtered_grouped: operator "aggregate_next (filter_next scan_next)" "aggregate_stream (\<lambda>f. filter_rows (fl_predicate f) (fl_child f) False)"
  by (rule filtered.aggregate_operator)

lemmas ordered_operator = operator.limit_operator [OF filtered_sorted.project_operator]

interpretation ordered: operator "limit_next (project_next (sort_next (filter_next scan_next)))"
  "\<lambda>l. limit_rows (lm_remaining l) (lm_skip l)
     (project_rows (pj_exprs (lm_child l)) (st_rows (sort_stream (\<lambda>f. filter_rows (fl_predicate f) (fl_child f) False) (pj_child (lm_child l))))
       (st_panics (sort_stream (\<lambda>f. filter_rows (fl_predicate f) (fl_child f) False) (pj_child (lm_child l)))))"
  by (rule ordered_operator)

definition ordered_query :: "value_row list \<Rightarrow> program \<Rightarrow> (nat \<times> bool) list \<Rightarrow> program list \<Rightarrow> nat \<Rightarrow> nat \<Rightarrow>
    scan filter_op sort_op project_op limit_op" where
  "ordered_query rows p ks ps n k = \<lparr>lm_child = \<lparr>pj_child = \<lparr>so_child = Some \<lparr>fl_child = rows, fl_predicate = p\<rparr>,
     so_keys = ks, so_buffer = [], so_pos = 0\<rparr>, pj_exprs = ps\<rparr>, lm_remaining = n, lm_skip = k\<rparr>"

definition grouped_query :: "value_row list \<Rightarrow> program \<Rightarrow> nat list \<Rightarrow> agg_spec list \<Rightarrow> scan filter_op hash_aggregate" where
  "grouped_query rows p cols specs = \<lparr>ha_child = Some \<lparr>fl_child = rows, fl_predicate = p\<rparr>, ha_group_cols = cols, ha_aggs = specs, ha_output = []\<rparr>"

text \<open>On rows where evaluation succeeds the streams are list functions.\<close>

lemma filter_rows_ok:
  "(\<And>r. r \<in> set rs \<Longrightarrow> vm_eval p r = (Ok (f r) :: (unit, val) res)) \<Longrightarrow> filter_rows p rs b = Stream [r \<leftarrow> rs. f r = VBool True] b"
  by (induction rs) auto

lemma project_row_ok:
  "(\<And>p. p \<in> set ps \<Longrightarrow> vm_eval p r = (Ok (f p) :: (unit, val) res)) \<Longrightarrow> project_row ps r = (Ok (map f ps) :: (unit, value_row) res)"
  by (induction ps) auto

lemma project_rows_ok:
  "(\<And>r. r \<in> set rs \<Longrightarrow> project_row ps r = (Ok (f r) :: (unit, value_row) res)) \<Longrightarrow> project_rows ps rs b = Stream (map f rs) b"
  by (induction rs) auto

end
