(* ===== verification/Logicals.thy ===== *)
theory Logicals
  imports ExprVm
begin

text \<open>
  Logical plans and the rule-based optimizer (\<open>src/src/logical.rs\<close>): lowering a \<open>SELECT\<close>, folding
  constants, splitting conjunctions and rewriting to a fixpoint of at most eight passes. Folding
  negates with \<open>-i\<close> and divides with \<open>/\<close>, which panic on the least integer. Equality of plans is the
  derived one, under which the two zeros are equal and a NaN differs from itself.
\<close>

section \<open>Plans\<close>

datatype logical_plan =
    LpScan rstr "rstr option"
  | LpFilter expr logical_plan
  | LpProject "(expr \<times> rstr option) list" logical_plan
  | LpJoin join_kind expr logical_plan logical_plan
  | LpAggregate "expr list" "(expr \<times> rstr option) list" logical_plan
  | LpSort "(expr \<times> bool) list" logical_plan
  | LpLimit "i64 option" "i64 option" logical_plan
  | LpDistinct logical_plan
  | LpEmpty

fun contains_aggregate :: "expr \<Rightarrow> bool" where
  "contains_aggregate (Aggregate f d e) = True"
| "contains_aggregate (Unary op e) = contains_aggregate e"
| "contains_aggregate (IsNull e neg) = contains_aggregate e"
| "contains_aggregate (Binary op a b) = (contains_aggregate a \<or> contains_aggregate b)"
| "contains_aggregate (Like a b) = (contains_aggregate a \<or> contains_aggregate b)"
| "contains_aggregate (Between a b c) = (contains_aggregate a \<or> contains_aggregate b \<or> contains_aggregate c)"
| "contains_aggregate (InList a es) = (contains_aggregate a \<or> list_ex contains_aggregate es)"
| "contains_aggregate e = False"

definition scan_of :: "select_stmt \<Rightarrow> logical_plan" where
  "scan_of s = (case sl_from s of None \<Rightarrow> LpEmpty | Some t \<Rightarrow> LpScan t (sl_from_alias s))"

definition join_onto :: "join_clause \<Rightarrow> logical_plan \<Rightarrow> logical_plan" where
  "join_onto j p = LpJoin (jn_kind j) (jn_on j) p (LpScan (jn_table j) (jn_alias j))"

definition with_filter :: "expr option \<Rightarrow> logical_plan \<Rightarrow> logical_plan" where
  "with_filter f p = (case f of None \<Rightarrow> p | Some e \<Rightarrow> LpFilter e p)"

definition has_aggregate :: "select_stmt \<Rightarrow> bool" where
  "has_aggregate s \<longleftrightarrow> sl_group_by s \<noteq> [] \<or> list_ex (\<lambda>i. contains_aggregate (si_expr i)) (sl_items s)"

definition item_pairs :: "select_stmt \<Rightarrow> (expr \<times> rstr option) list" where
  "item_pairs s = map (\<lambda>i. (si_expr i, si_alias i)) (sl_items s)"

definition from_select :: "select_stmt \<Rightarrow> logical_plan" where
  "from_select s = (let
     p = with_filter (sl_filter s) (fold join_onto (sl_joins s) (scan_of s));
     p = (if has_aggregate s then with_filter (sl_having s) (LpAggregate (sl_group_by s) (item_pairs s) p)
          else LpProject (item_pairs s) p);
     p = (if sl_distinct s then LpDistinct p else p);
     p = (if sl_order_by s \<noteq> [] then LpSort (map (\<lambda>i. (oi_expr i, oi_asc i)) (sl_order_by s)) p else p)
   in if sl_limit s \<noteq> None \<or> sl_offset s \<noteq> None then LpLimit (sl_limit s) (sl_offset s) p else p)"

fun children :: "logical_plan \<Rightarrow> logical_plan list" where
  "children (LpFilter e p) = [p]"
| "children (LpProject es p) = [p]"
| "children (LpAggregate g es p) = [p]"
| "children (LpSort ks p) = [p]"
| "children (LpLimit l f p) = [p]"
| "children (LpDistinct p) = [p]"
| "children (LpJoin k e l r) = [l, r]"
| "children p = []"

lemma children_size: "c \<in> set (children p) \<Longrightarrow> size c < size p"
  by (cases p) auto

function node_count :: "logical_plan \<Rightarrow> nat" where
  "node_count p = 1 + sum_list (map node_count (children p))"
  by auto
termination by (relation "measure size") (auto simp: children_size)

declare node_count.simps [simp del]

section \<open>Constant folding\<close>

definition fold_neg :: "expr \<Rightarrow> ('e, expr) res" where
  "fold_neg e = (case e of LitInt i \<Rightarrow> if sint i = - (2 ^ 63) then Panic else Ok (LitInt (- i))
     | LitReal r \<Rightarrow> Ok (LitReal (f64_negate r)) | _ \<Rightarrow> Ok (Unary Neg e))"

definition fold_not :: "expr \<Rightarrow> expr" where
  "fold_not e = (case e of LitBool b \<Rightarrow> LitBool (\<not> b) | _ \<Rightarrow> Unary Not e)"

definition fold_int :: "bin_op \<Rightarrow> i64 \<Rightarrow> i64 \<Rightarrow> ('e, expr option) res" where
  "fold_int op x y = (case op of
       Add \<Rightarrow> Ok (Some (LitInt (x + y))) | Sub \<Rightarrow> Ok (Some (LitInt (x - y))) | Mul \<Rightarrow> Ok (Some (LitInt (x * y)))
     | Div \<Rightarrow> if y = 0 then Ok None else rbind (i64_div x y) (\<lambda>z. Ok (Some (LitInt z)))
     | Mod \<Rightarrow> if y = 0 then Ok None else rbind (i64_rem x y) (\<lambda>z. Ok (Some (LitInt z)))
     | Eq \<Rightarrow> Ok (Some (LitBool (x = y))) | NotEq \<Rightarrow> Ok (Some (LitBool (x \<noteq> y)))
     | Lt \<Rightarrow> Ok (Some (LitBool (sint x < sint y))) | LtEq \<Rightarrow> Ok (Some (LitBool (sint x \<le> sint y)))
     | Gt \<Rightarrow> Ok (Some (LitBool (sint y < sint x))) | GtEq \<Rightarrow> Ok (Some (LitBool (sint y \<le> sint x)))
     | _ \<Rightarrow> Ok None)"

text \<open>The folding of two Boolean literals and the short-circuit identities, in the order of the code.\<close>

definition fold_logic :: "bin_op \<Rightarrow> expr \<Rightarrow> expr \<Rightarrow> expr" where
  "fold_logic op a b =
     (if op = And \<and> a \<in> {LitBool True, LitBool False} \<and> b \<in> {LitBool True, LitBool False} then LitBool (a = LitBool True \<and> b = LitBool True)
      else if op = Or \<and> a \<in> {LitBool True, LitBool False} \<and> b \<in> {LitBool True, LitBool False} then LitBool (a = LitBool True \<or> b = LitBool True)
      else if op = And \<and> (a = LitBool False \<or> b = LitBool False) then LitBool False
      else if op = Or \<and> (a = LitBool True \<or> b = LitBool True) then LitBool True
      else if op = And \<and> a = LitBool True then b
      else if op = And \<and> b = LitBool True then a
      else Binary op a b)"

definition fold_binary :: "bin_op \<Rightarrow> expr \<Rightarrow> expr \<Rightarrow> ('e, expr) res" where
  "fold_binary op a b = rbind (case (a, b) of (LitInt x, LitInt y) \<Rightarrow> fold_int op x y | _ \<Rightarrow> Ok None)
     (\<lambda>v. Ok (case v of Some e \<Rightarrow> e | None \<Rightarrow> fold_logic op a b))"

fun fold_constants :: "expr \<Rightarrow> ('e, expr) res" where
  "fold_constants (Unary Neg e) = rbind (fold_constants e) fold_neg"
| "fold_constants (Unary Not e) = rbind (fold_constants e) (\<lambda>e. Ok (fold_not e))"
| "fold_constants (Binary op a b) = rbind (fold_constants a) (\<lambda>a. rbind (fold_constants b) (fold_binary op a))"
| "fold_constants e = Ok e"

section \<open>Conjunctions\<close>

fun split_conjuncts :: "expr \<Rightarrow> expr list" where
  "split_conjuncts (Binary And a b) = split_conjuncts a @ split_conjuncts b"
| "split_conjuncts e = [e]"

fun combine_conjuncts :: "expr list \<Rightarrow> expr option" where
  "combine_conjuncts [] = None"
| "combine_conjuncts (e # es) = Some (fold (\<lambda>e acc. Binary And acc e) es e)"

section \<open>Equality of plans\<close>

fun expr_eq :: "expr \<Rightarrow> expr \<Rightarrow> bool" and exprs_eq :: "expr list \<Rightarrow> expr list \<Rightarrow> bool" where
  "expr_eq (LitReal x) r = (case r of LitReal y \<Rightarrow> f64_eq x y | _ \<Rightarrow> False)"
| "expr_eq (Unary u e) r = (case r of Unary u' e' \<Rightarrow> u = u' \<and> expr_eq e e' | _ \<Rightarrow> False)"
| "expr_eq (Binary u a b) r = (case r of Binary u' a' b' \<Rightarrow> u = u' \<and> expr_eq a a' \<and> expr_eq b b' | _ \<Rightarrow> False)"
| "expr_eq (IsNull e n) r = (case r of IsNull e' n' \<Rightarrow> expr_eq e e' \<and> n = n' | _ \<Rightarrow> False)"
| "expr_eq (Like a b) r = (case r of Like a' b' \<Rightarrow> expr_eq a a' \<and> expr_eq b b' | _ \<Rightarrow> False)"
| "expr_eq (Between a b c) r = (case r of Between a' b' c' \<Rightarrow> expr_eq a a' \<and> expr_eq b b' \<and> expr_eq c c' | _ \<Rightarrow> False)"
| "expr_eq (InList e es) r = (case r of InList e' es' \<Rightarrow> expr_eq e e' \<and> exprs_eq es es' | _ \<Rightarrow> False)"
| "expr_eq (Aggregate f d e) r = (case r of Aggregate f' d' e' \<Rightarrow> f = f' \<and> d = d' \<and> expr_eq e e' | _ \<Rightarrow> False)"
| "expr_eq (LitInt i) r = (r = LitInt i)"
| "expr_eq (LitStr t) r = (r = LitStr t)"
| "expr_eq (LitBool b) r = (r = LitBool b)"
| "expr_eq (Column c) r = (r = Column c)"
| "expr_eq (Qualified q c) r = (r = Qualified q c)"
| "expr_eq NullLit r = (r = NullLit)"
| "expr_eq Star r = (r = Star)"
| "exprs_eq [] r = (r = [])"
| "exprs_eq (e # es) r = (case r of e' # es' \<Rightarrow> expr_eq e e' \<and> exprs_eq es es' | [] \<Rightarrow> False)"

definition pairs_eq :: "(expr \<times> 'a) list \<Rightarrow> (expr \<times> 'a) list \<Rightarrow> bool" where
  "pairs_eq ps qs \<longleftrightarrow> exprs_eq (map fst ps) (map fst qs) \<and> map snd ps = map snd qs"

fun plan_eq :: "logical_plan \<Rightarrow> logical_plan \<Rightarrow> bool" where
  "plan_eq (LpFilter e p) q = (case q of LpFilter e' p' \<Rightarrow> expr_eq e e' \<and> plan_eq p p' | _ \<Rightarrow> False)"
| "plan_eq (LpProject es p) q = (case q of LpProject es' p' \<Rightarrow> pairs_eq es es' \<and> plan_eq p p' | _ \<Rightarrow> False)"
| "plan_eq (LpJoin k e l r) q = (case q of LpJoin k' e' l' r' \<Rightarrow> k = k' \<and> expr_eq e e' \<and> plan_eq l l' \<and> plan_eq r r' | _ \<Rightarrow> False)"
| "plan_eq (LpAggregate g es p) q = (case q of LpAggregate g' es' p' \<Rightarrow> exprs_eq g g' \<and> pairs_eq es es' \<and> plan_eq p p' | _ \<Rightarrow> False)"
| "plan_eq (LpSort ks p) q = (case q of LpSort ks' p' \<Rightarrow> pairs_eq ks ks' \<and> plan_eq p p' | _ \<Rightarrow> False)"
| "plan_eq (LpLimit l f p) q = (case q of LpLimit l' f' p' \<Rightarrow> l = l' \<and> f = f' \<and> plan_eq p p' | _ \<Rightarrow> False)"
| "plan_eq (LpDistinct p) q = (case q of LpDistinct p' \<Rightarrow> plan_eq p p' | _ \<Rightarrow> False)"
| "plan_eq (LpScan t a) q = (q = LpScan t a)"
| "plan_eq LpEmpty q = (q = LpEmpty)"

section \<open>The optimizer\<close>

definition rewrite_filter :: "expr \<Rightarrow> logical_plan \<Rightarrow> ('e, logical_plan) res" where
  "rewrite_filter e i = rbind (fold_constants e) (\<lambda>e.
     if e = LitBool True then Ok i
     else (case i of
         LpFilter f j \<Rightarrow> rbind (fold_constants (Binary And e f)) (\<lambda>g. Ok (LpFilter g j))
       | LpProject es j \<Rightarrow> Ok (LpProject es (LpFilter e j))
       | _ \<Rightarrow> Ok (LpFilter e i)))"

fun rewrite :: "logical_plan \<Rightarrow> ('e, logical_plan) res" where
  "rewrite (LpFilter e p) = rbind (rewrite p) (rewrite_filter e)"
| "rewrite (LpProject es p) = rbind (rewrite p) (\<lambda>p. Ok (LpProject es p))"
| "rewrite (LpAggregate g es p) = rbind (rewrite p) (\<lambda>p. Ok (LpAggregate g es p))"
| "rewrite (LpSort ks p) = rbind (rewrite p) (\<lambda>p. Ok (LpSort ks p))"
| "rewrite (LpLimit l f p) = rbind (rewrite p) (\<lambda>p. Ok (LpLimit l f p))"
| "rewrite (LpDistinct p) = rbind (rewrite p) (\<lambda>p. Ok (LpDistinct p))"
| "rewrite (LpJoin k e l r) = rbind (rewrite l) (\<lambda>l. rbind (rewrite r) (\<lambda>r. Ok (LpJoin k e l r)))"
| "rewrite p = Ok p"

fun passes :: "nat \<Rightarrow> logical_plan \<Rightarrow> ('e, logical_plan) res" where
  "passes 0 p = Ok p"
| "passes (Suc n) p = rbind (rewrite p) (\<lambda>q. if plan_eq q p then Ok p else passes n q)"

definition optimize :: "logical_plan \<Rightarrow> ('e, logical_plan) res" where
  "optimize p = passes 8 p"

section \<open>Folding keeps the meaning\<close>

text \<open>
  A conjunct that is not Boolean is taken for its truth by the machine but kept as it is by folding,
  so the operands of \<open>AND\<close> have to be Boolean or null on the row.
\<close>

definition is_logical :: "(unit, val) res \<Rightarrow> bool" where
  "is_logical x = (case x of Ok (VBool b) \<Rightarrow> True | Ok VNull \<Rightarrow> True | Ok v \<Rightarrow> False | _ \<Rightarrow> True)"

fun logical_operands :: "(rstr \<Rightarrow> nat option) \<Rightarrow> val list \<Rightarrow> expr \<Rightarrow> bool" where
  "logical_operands cols row (Unary op e) = logical_operands cols row e"
| "logical_operands cols row (Binary op a b) = (logical_operands cols row a \<and> logical_operands cols row b \<and>
     (op = And \<longrightarrow> is_logical (meaning cols row a) \<and> is_logical (meaning cols row b)))"
| "logical_operands cols row e = True"

definition folds_to :: "(rstr \<Rightarrow> nat option) \<Rightarrow> val list \<Rightarrow> expr \<Rightarrow> val \<Rightarrow> bool" where
  "folds_to cols row e v \<longleftrightarrow> (\<exists>e'. fold_constants e = (Ok e' :: (unit, expr) res) \<and> meaning cols row e' = (Ok v :: (unit, val) res))"

lemma fold_neg_meaning:
  assumes "meaning cols row e = (Ok v :: (unit, val) res)" "apply_unary Neg v = (Ok w :: (unit, val) res)"
  shows "\<exists>e'. fold_neg e = (Ok e' :: (unit, expr) res) \<and> meaning cols row e' = (Ok w :: (unit, val) res)"
  using assms by (cases e) (auto simp: fold_neg_def apply_unary_def split: if_splits)

lemma fold_not_meaning:
  assumes "meaning cols row e = (Ok v :: (unit, val) res)" "apply_unary Not v = (Ok w :: (unit, val) res)"
  shows "meaning cols row (fold_not e) = (Ok w :: (unit, val) res)"
  using assms by (cases e) (auto simp: fold_not_def apply_unary_def)

lemma fold_int_meaning:
  assumes "apply_binary op (VInt x) (VInt y) = (Ok w :: (unit, val) res)"
  shows "\<exists>r. fold_int op x y = (Ok r :: (unit, expr option) res) \<and>
    (case r of None \<Rightarrow> True | Some e \<Rightarrow> meaning cols row e = (Ok w :: (unit, val) res))"
  using assms by (cases op) (auto simp: fold_int_def apply_binary_def arith_def int_arith_def rbind_eq_Ok sint_eq_iff split: if_splits)

text \<open>The rules by operator.\<close>

lemma fold_logic_cases:
  "fold_logic And a b = (if a = LitBool False \<or> b = LitBool False then LitBool False
     else if a = LitBool True then b else if b = LitBool True then a else Binary And a b)"
  "fold_logic Or a b = (if a = LitBool True \<or> b = LitBool True then LitBool True
     else if a = LitBool False \<and> b = LitBool False then LitBool False else Binary Or a b)"
  "op \<noteq> And \<Longrightarrow> op \<noteq> Or \<Longrightarrow> fold_logic op a b = Binary op a b"
  by (auto simp: fold_logic_def)

lemma logic_and_True: "is_logical (Ok v) \<Longrightarrow> logic_and (Some True) (vm_bool v) = v"
  by (cases v) (auto simp: is_logical_def logic_and_def vm_bool_def)

lemma logic_and_sym: "logic_and a b = logic_and b a"
  by (auto simp: logic_and_def)

lemma fold_logic_meaning:
  assumes a: "meaning cols row a = (Ok v :: (unit, val) res)" and b: "meaning cols row b = (Ok w :: (unit, val) res)"
    and l: "op = And \<Longrightarrow> is_logical (Ok v) \<and> is_logical (Ok w)" and r: "apply_binary op v w = (Ok u :: (unit, val) res)"
  shows "meaning cols row (fold_logic op a b) = (Ok u :: (unit, val) res)"
proof -
  have v: "a = LitBool c \<Longrightarrow> v = VBool c" for c using a by simp
  have w: "b = LitBool c \<Longrightarrow> w = VBool c" for c using b by simp
  have bin: "meaning cols row (Binary op a b) = (Ok u :: (unit, val) res)" using a b r by simp
  have vb: "vm_bool (VBool c) = Some c" for c by (simp add: vm_bool_def)
  consider "op = And" | "op = Or" | "op \<noteq> And" "op \<noteq> Or" by blast
  then show ?thesis
  proof cases
    case 1
    have u: "u = logic_and (vm_bool v) (vm_bool w)" using r 1 by (simp add: apply_binary_def)
    have lv: "is_logical (Ok v)" "is_logical (Ok w)" using l 1 by auto
    consider "a = LitBool False \<or> b = LitBool False" | "a \<noteq> LitBool False" "b \<noteq> LitBool False" "a = LitBool True"
      | "a \<noteq> LitBool False" "b \<noteq> LitBool False" "a \<noteq> LitBool True" "b = LitBool True"
      | "a \<noteq> LitBool False" "b \<noteq> LitBool False" "a \<noteq> LitBool True" "b \<noteq> LitBool True" by blast
    then show ?thesis
    proof cases
      case f: 1
      then have "vm_bool v = Some False \<or> vm_bool w = Some False" using v w vb by metis
      then have "u = VBool False" by (simp add: u logic_and_def)
      then show ?thesis using f 1 by (auto simp: fold_logic_cases)
    next
      case 2
      then have "u = w" using u v vb logic_and_True [OF lv(2)] by simp
      then show ?thesis using 2 1 b by (simp add: fold_logic_cases)
    next
      case 3
      then have "u = v" using u w vb logic_and_True [OF lv(1)] logic_and_sym by metis
      then show ?thesis using 3 1 a by (simp add: fold_logic_cases)
    next
      case 4
      then show ?thesis using 1 bin by (simp add: fold_logic_cases)
    qed
  next
    case 2
    have u: "u = logic_or (vm_bool v) (vm_bool w)" using r 2 by (simp add: apply_binary_def)
    show ?thesis using u v w vb bin by (auto simp: fold_logic_cases 2 logic_or_def)
  next
    case 3
    then show ?thesis using bin by (simp add: fold_logic_cases)
  qed
qed

lemma fold_binary_meaning:
  assumes a: "meaning cols row a = (Ok v :: (unit, val) res)" and b: "meaning cols row b = (Ok w :: (unit, val) res)"
    and l: "op = And \<Longrightarrow> is_logical (Ok v) \<and> is_logical (Ok w)" and r: "apply_binary op v w = (Ok u :: (unit, val) res)"
  shows "\<exists>e'. fold_binary op a b = (Ok e' :: (unit, expr) res) \<and> meaning cols row e' = (Ok u :: (unit, val) res)"
proof (cases "\<exists>x y. a = LitInt x \<and> b = LitInt y")
  case True
  then obtain x y where xy: "a = LitInt x" "b = LitInt y" by blast
  then obtain q where q: "fold_int op x y = (Ok q :: (unit, expr option) res)"
    "case q of None \<Rightarrow> True | Some e \<Rightarrow> meaning cols row e = (Ok u :: (unit, val) res)"
    using fold_int_meaning [of op x y u cols row] a b r by auto
  show ?thesis using q fold_logic_meaning [OF a b l r] by (cases q) (auto simp: fold_binary_def xy)
next
  case False
  then have "fold_binary op a b = (Ok (fold_logic op a b) :: (unit, expr) res)"
    by (cases a; cases b) (auto simp: fold_binary_def)
  then show ?thesis using fold_logic_meaning [OF a b l r] by auto
qed

lemma fold_constants_meaning:
  "logical_operands cols row e \<Longrightarrow> meaning cols row e = (Ok v :: (unit, val) res) \<Longrightarrow> folds_to cols row e v"
proof (induction e arbitrary: v rule: fold_constants.induct)
  case (1 e)
  then obtain w where w: "meaning cols row e = (Ok w :: (unit, val) res)" "apply_unary Neg w = (Ok v :: (unit, val) res)"
    by (auto simp: rbind_eq_Ok)
  then obtain e1 where e1: "fold_constants e = (Ok e1 :: (unit, expr) res)" "meaning cols row e1 = (Ok w :: (unit, val) res)"
    using 1 by (auto simp: folds_to_def)
  from fold_neg_meaning [OF e1(2) w(2)] show ?case using e1(1) by (auto simp: folds_to_def)
next
  case (2 e)
  then obtain w where w: "meaning cols row e = (Ok w :: (unit, val) res)" "apply_unary Not w = (Ok v :: (unit, val) res)"
    by (auto simp: rbind_eq_Ok)
  then obtain e1 where e1: "fold_constants e = (Ok e1 :: (unit, expr) res)" "meaning cols row e1 = (Ok w :: (unit, val) res)"
    using 2 by (auto simp: folds_to_def)
  from fold_not_meaning [OF e1(2) w(2)] show ?case using e1(1) by (auto simp: folds_to_def)
next
  case (3 op a b)
  then obtain x y where xy: "meaning cols row a = (Ok x :: (unit, val) res)" "meaning cols row b = (Ok y :: (unit, val) res)"
    "apply_binary op x y = (Ok v :: (unit, val) res)" by (auto simp: rbind_eq_Ok)
  have lo: "logical_operands cols row a" "logical_operands cols row b" using 3 by auto
  obtain a1 where a1: "fold_constants a = (Ok a1 :: (unit, expr) res)" "meaning cols row a1 = (Ok x :: (unit, val) res)"
    using "3.IH"(1) [OF lo(1) xy(1)] by (auto simp: folds_to_def)
  obtain b1 where b1: "fold_constants b = (Ok b1 :: (unit, expr) res)" "meaning cols row b1 = (Ok y :: (unit, val) res)"
    using "3.IH"(2) [OF lo(2) xy(2)] by (auto simp: folds_to_def)
  have "op = And \<Longrightarrow> is_logical (Ok x) \<and> is_logical (Ok y)" using 3 xy by auto
  from fold_binary_meaning [OF a1(2) b1(2) this xy(3)] show ?case using a1(1) b1(1) by (auto simp: folds_to_def)
qed (auto simp: folds_to_def)

section \<open>Folding is idempotent\<close>

lemma fold_neg_fixed: "fold_neg e = (Ok e' :: ('e, expr) res) \<Longrightarrow> fold_constants e = (Ok e :: ('e, expr) res) \<Longrightarrow> fold_constants e' = (Ok e' :: ('e, expr) res)"
  by (cases e) (auto simp: fold_neg_def split: if_splits)

lemma fold_not_fixed: "fold_constants e = (Ok e :: ('e, expr) res) \<Longrightarrow> fold_constants (fold_not e) = (Ok (fold_not e) :: ('e, expr) res)"
  by (cases e) (auto simp: fold_not_def)

lemma fold_int_literal: "fold_int op x y = (Ok (Some e) :: ('e, expr option) res) \<Longrightarrow> fold_constants e = (Ok e :: ('e, expr) res)"
  by (cases op) (auto simp: fold_int_def rbind_eq_Ok split: if_splits)

lemma fold_logic_fixed:
  assumes "fold_constants a = (Ok a :: ('e, expr) res)" "fold_constants b = (Ok b :: ('e, expr) res)"
    "fold_binary op a b = (Ok (fold_logic op a b) :: ('e, expr) res)"
  shows "fold_constants (fold_logic op a b) = (Ok (fold_logic op a b) :: ('e, expr) res)"
proof (cases "fold_logic op a b = Binary op a b")
  case True
  then show ?thesis using assms by simp
next
  case False
  then have "fold_logic op a b \<in> {a, b, LitBool True, LitBool False}" by (auto simp: fold_logic_def split: if_splits)
  then show ?thesis using assms by auto
qed

lemma fold_binary_fixed:
  assumes "fold_constants a = (Ok a :: ('e, expr) res)" "fold_constants b = (Ok b :: ('e, expr) res)"
    "fold_binary op a b = (Ok e :: ('e, expr) res)"
  shows "fold_constants e = (Ok e :: ('e, expr) res)"
proof (cases "e = fold_logic op a b")
  case True
  then show ?thesis using fold_logic_fixed assms by metis
next
  case False
  then obtain x y where "a = LitInt x" "b = LitInt y" "fold_int op x y = (Ok (Some e) :: ('e, expr option) res)"
    using assms(3) by (cases a; cases b) (auto simp: fold_binary_def rbind_eq_Ok split: option.splits)
  then show ?thesis using fold_int_literal by blast
qed

lemma fold_constants_fixed: "fold_constants e = (Ok e' :: ('e, expr) res) \<Longrightarrow> fold_constants e' = (Ok e' :: ('e, expr) res)"
proof (induction e arbitrary: e' rule: fold_constants.induct)
  case (1 e)
  from "1.prems" obtain e1 where e1: "fold_constants e = (Ok e1 :: ('e, expr) res)" "fold_neg e1 = (Ok e' :: ('e, expr) res)" by (auto simp: rbind_eq_Ok)
  show ?case using fold_neg_fixed [OF e1(2) "1.IH" [OF e1(1)]] .
next
  case (2 e)
  from "2.prems" obtain e1 where e1: "fold_constants e = (Ok e1 :: ('e, expr) res)" "e' = fold_not e1" by (auto simp: rbind_eq_Ok)
  show ?case using fold_not_fixed [OF "2.IH" [OF e1(1)]] e1(2) by simp
next
  case (3 op a b)
  from "3.prems" obtain a1 b1 where ab: "fold_constants a = (Ok a1 :: ('e, expr) res)" "fold_constants b = (Ok b1 :: ('e, expr) res)"
    "fold_binary op a1 b1 = (Ok e' :: ('e, expr) res)" by (auto simp: rbind_eq_Ok)
  show ?case using fold_binary_fixed [OF "3.IH"(1) [OF ab(1)] "3.IH"(2) [OF ab(2)] ab(3)] .
qed auto

text \<open>Folding changes an expression only by making it smaller; equal expressions have one size.\<close>

lemma fold_neg_size: "fold_neg e = (Ok e' :: ('e, expr) res) \<Longrightarrow> e' = Unary Neg e \<or> size e' < size (Unary Neg e)"
  by (cases e) (auto simp: fold_neg_def split: if_splits)

lemma fold_not_size: "fold_not e = Unary Not e \<or> size (fold_not e) < size (Unary Not e)"
  by (cases e) (auto simp: fold_not_def)

lemma fold_int_size: "fold_int op x y = (Ok (Some e) :: ('e, expr option) res) \<Longrightarrow> size e = 0"
  by (cases op) (auto simp: fold_int_def rbind_eq_Ok split: if_splits)

lemma fold_logic_size: "fold_logic op a b = Binary op a b \<or> size (fold_logic op a b) < size (Binary op a b)"
  by (auto simp: fold_logic_def)

lemma fold_binary_size:
  assumes "fold_binary op a b = (Ok e' :: ('e, expr) res)"
  shows "e' = Binary op a b \<or> size e' < size (Binary op a b)"
proof (cases "e' = fold_logic op a b")
  case True
  then show ?thesis using fold_logic_size by simp
next
  case False
  then obtain x y where "fold_int op x y = (Ok (Some e') :: ('e, expr option) res)"
    using assms by (cases a; cases b) (auto simp: fold_binary_def rbind_eq_Ok split: option.splits)
  then show ?thesis using fold_int_size by fastforce
qed

lemma fold_constants_size: "fold_constants e = (Ok e' :: ('e, expr) res) \<Longrightarrow> e' = e \<or> size e' < size e"
proof (induction e arbitrary: e' rule: fold_constants.induct)
  case (1 e)
  from "1.prems" obtain e1 where e1: "fold_constants e = (Ok e1 :: ('e, expr) res)" "fold_neg e1 = (Ok e' :: ('e, expr) res)" by (auto simp: rbind_eq_Ok)
  show ?case using "1.IH" [OF e1(1)] fold_neg_size [OF e1(2)] by auto
next
  case (2 e)
  from "2.prems" obtain e1 where e1: "fold_constants e = (Ok e1 :: ('e, expr) res)" "e' = fold_not e1" by (auto simp: rbind_eq_Ok)
  show ?case using "2.IH" [OF e1(1)] fold_not_size [of e1] e1(2) by auto
next
  case (3 op a b)
  from "3.prems" obtain a1 b1 where ab: "fold_constants a = (Ok a1 :: ('e, expr) res)" "fold_constants b = (Ok b1 :: ('e, expr) res)"
    "fold_binary op a1 b1 = (Ok e' :: ('e, expr) res)" by (auto simp: rbind_eq_Ok)
  show ?case using "3.IH"(1) [OF ab(1)] "3.IH"(2) [OF ab(2)] fold_binary_size [OF ab(3)] by auto
qed auto

lemma expr_eq_iff:
  "expr_eq (LitReal x) r \<longleftrightarrow> (\<exists>y. r = LitReal y \<and> f64_eq x y)"
  "expr_eq (Unary u e) r \<longleftrightarrow> (\<exists>e'. r = Unary u e' \<and> expr_eq e e')"
  "expr_eq (Binary op a b) r \<longleftrightarrow> (\<exists>a' b'. r = Binary op a' b' \<and> expr_eq a a' \<and> expr_eq b b')"
  "expr_eq (IsNull e n) r \<longleftrightarrow> (\<exists>e'. r = IsNull e' n \<and> expr_eq e e')"
  "expr_eq (Like a b) r \<longleftrightarrow> (\<exists>a' b'. r = Like a' b' \<and> expr_eq a a' \<and> expr_eq b b')"
  "expr_eq (Between a b c) r \<longleftrightarrow> (\<exists>a' b' c'. r = Between a' b' c' \<and> expr_eq a a' \<and> expr_eq b b' \<and> expr_eq c c')"
  "expr_eq (InList e es) r \<longleftrightarrow> (\<exists>e' es'. r = InList e' es' \<and> expr_eq e e' \<and> exprs_eq es es')"
  "expr_eq (Aggregate f d e) r \<longleftrightarrow> (\<exists>e'. r = Aggregate f d e' \<and> expr_eq e e')"
  "exprs_eq (e # es) rs \<longleftrightarrow> (\<exists>e' es'. rs = e' # es' \<and> expr_eq e e' \<and> exprs_eq es es')"
  by (cases r; auto; fail)+ (cases rs; auto)

lemma expr_exprs_induct:
  assumes "\<And>c. P (Column c)" "\<And>q c. P (Qualified q c)" "\<And>i. P (LitInt i)" "\<And>x. P (LitReal x)" "\<And>t. P (LitStr t)"
    "\<And>b. P (LitBool b)" "P NullLit" "P Star" "\<And>u e. P e \<Longrightarrow> P (Unary u e)" "\<And>op a b. P a \<Longrightarrow> P b \<Longrightarrow> P (Binary op a b)"
    "\<And>e n. P e \<Longrightarrow> P (IsNull e n)" "\<And>a b. P a \<Longrightarrow> P b \<Longrightarrow> P (Like a b)" "\<And>a b c. P a \<Longrightarrow> P b \<Longrightarrow> P c \<Longrightarrow> P (Between a b c)"
    "\<And>e es. P e \<Longrightarrow> Q es \<Longrightarrow> P (InList e es)" "\<And>f d e. P e \<Longrightarrow> P (Aggregate f d e)" "Q []" "\<And>e es. P e \<Longrightarrow> Q es \<Longrightarrow> Q (e # es)"
  shows "P e" "Q es"
proof -
  have q: "(\<And>x. x \<in> set es \<Longrightarrow> P x) \<Longrightarrow> Q es" for es by (induction es) (auto intro: assms)
  show p: "P e" for e by (induction e) (auto intro: assms q)
  show "Q es" using q p by blast
qed

lemma expr_eq_size: "expr_eq e r \<Longrightarrow> size e = size r" "exprs_eq es rs \<Longrightarrow> size_list size es = size_list size rs"
proof (induction e and es arbitrary: r and rs rule: expr_exprs_induct)
qed (auto simp del: expr_eq.simps(1-8) exprs_eq.simps(2) simp add: expr_eq_iff)

section \<open>What the optimizer does to a lowered statement\<close>

text \<open>
  A lowered statement has its filters over joins and over the aggregation, so the rules for nested
  filters and for projections never apply: optimizing folds the two conditions of the statement and
  drops those that fold to \<open>TRUE\<close>.
\<close>

definition fold_filter :: "expr option \<Rightarrow> ('e, expr option) res" where
  "fold_filter f = (case f of None \<Rightarrow> Ok None
     | Some e \<Rightarrow> rbind (fold_constants e) (\<lambda>e. Ok (if e = LitBool True then None else Some e)))"

definition simplified :: "select_stmt \<Rightarrow> ('e, select_stmt) res" where
  "simplified s = rbind (fold_filter (sl_filter s)) (\<lambda>f.
     rbind (if has_aggregate s then fold_filter (sl_having s) else Ok (sl_having s)) (\<lambda>h. Ok (s\<lparr>sl_filter := f, sl_having := h\<rparr>)))"

fun plain :: "logical_plan \<Rightarrow> bool" where
  "plain (LpFilter e p) = False"
| "plain (LpProject es p) = False"
| "plain p = True"

lemma rewrite_with_filter:
  assumes "plain p"
  shows "rbind (case f of None \<Rightarrow> Ok p | Some e \<Rightarrow> rewrite_filter e p) k = (rbind (fold_filter f) (\<lambda>f. k (with_filter f p)) :: ('e, 'b) res)"
proof (cases f)
  case (Some e)
  have "rewrite_filter e p = (rbind (fold_constants e) (\<lambda>e. Ok (if e = LitBool True then p else LpFilter e p)) :: ('e, logical_plan) res)"
    using assms unfolding rewrite_filter_def by (cases p) (auto intro!: arg_cong2 [where f = rbind])
  then show ?thesis by (cases "fold_constants e :: ('e, expr) res") (simp_all add: Some fold_filter_def with_filter_def)
qed (simp add: fold_filter_def with_filter_def)

lemma rewrite_filter_node: "rewrite (with_filter f p) = rbind (rewrite p) (\<lambda>p. case f of None \<Rightarrow> Ok p | Some e \<Rightarrow> rewrite_filter e p)"
  by (cases f) (simp_all add: with_filter_def)

lemma joined: "rewrite p = (Ok p :: ('e, logical_plan) res) \<Longrightarrow> plain p \<Longrightarrow>
    rewrite (fold join_onto js p) = (Ok (fold join_onto js p) :: ('e, logical_plan) res) \<and> plain (fold join_onto js p)"
proof (induction js arbitrary: p)
  case (Cons j js)
  have "rewrite (join_onto j p) = (Ok (join_onto j p) :: ('e, logical_plan) res)" "plain (join_onto j p)"
    by (simp_all add: join_onto_def Cons.prems(1))
  from Cons.IH [OF this] show ?case by (simp only: fold.simps comp_apply)
qed simp

lemma scan_joined:
  "rewrite (fold join_onto js (scan_of s)) = (Ok (fold join_onto js (scan_of s)) :: ('e, logical_plan) res)"
  "plain (fold join_onto js (scan_of s))"
proof -
  have "rewrite (scan_of s) = (Ok (scan_of s) :: ('e, logical_plan) res)" "plain (scan_of s)"
    by (cases "sl_from s"; simp add: scan_of_def)+
  from joined [OF this] show "rewrite (fold join_onto js (scan_of s)) = (Ok (fold join_onto js (scan_of s)) :: ('e, logical_plan) res)"
    "plain (fold join_onto js (scan_of s))" by blast+
qed

definition above :: "select_stmt \<Rightarrow> logical_plan \<Rightarrow> logical_plan" where
  "above s p = (let p = (if sl_distinct s then LpDistinct p else p);
     p = (if sl_order_by s \<noteq> [] then LpSort (map (\<lambda>i. (oi_expr i, oi_asc i)) (sl_order_by s)) p else p)
   in if sl_limit s \<noteq> None \<or> sl_offset s \<noteq> None then LpLimit (sl_limit s) (sl_offset s) p else p)"

lemma rewrite_above: "rewrite (above s p) = (rbind (rewrite p) (\<lambda>p. Ok (above s p)) :: ('e, logical_plan) res)"
  by (cases "rewrite p :: ('e, logical_plan) res") (simp_all add: above_def Let_def)

lemma from_select_above: "from_select s = above s (if has_aggregate s
    then with_filter (sl_having s) (LpAggregate (sl_group_by s) (item_pairs s) (with_filter (sl_filter s) (fold join_onto (sl_joins s) (scan_of s))))
    else LpProject (item_pairs s) (with_filter (sl_filter s) (fold join_onto (sl_joins s) (scan_of s))))"
  by (simp add: from_select_def above_def Let_def)

lemma upd_parts [simp]:
  "has_aggregate (s\<lparr>sl_filter := f, sl_having := h\<rparr>) = has_aggregate s"
  "item_pairs (s\<lparr>sl_filter := f, sl_having := h\<rparr>) = item_pairs s"
  "scan_of (s\<lparr>sl_filter := f, sl_having := h\<rparr>) = scan_of s"
  "above (s\<lparr>sl_filter := f, sl_having := h\<rparr>) = above s"
  "has_aggregate (s\<lparr>sl_filter := f\<rparr>) = has_aggregate s"
  "item_pairs (s\<lparr>sl_filter := f\<rparr>) = item_pairs s"
  "scan_of (s\<lparr>sl_filter := f\<rparr>) = scan_of s"
  "above (s\<lparr>sl_filter := f\<rparr>) = above s"
  by (auto simp: has_aggregate_def item_pairs_def scan_of_def above_def fun_eq_iff split: option.split)

lemma rewrite_from_select: "rewrite (from_select s) = (rbind (simplified s) (\<lambda>s. Ok (from_select s)) :: ('e, logical_plan) res)"
proof -
  let ?j = "fold join_onto (sl_joins s) (scan_of s)"
  have f: "rbind (rewrite (with_filter (sl_filter s) ?j)) k = rbind (fold_filter (sl_filter s)) (\<lambda>f. k (with_filter f ?j))" for k :: "logical_plan \<Rightarrow> ('e, 'b) res"
    by (simp add: rewrite_filter_node scan_joined(1) rewrite_with_filter [OF scan_joined(2)])
  have g: "rbind (case sl_having s of None \<Rightarrow> Ok p | Some e \<Rightarrow> rewrite_filter e p) k = rbind (fold_filter (sl_having s)) (\<lambda>f. k (with_filter f p))"
    if "plain p" for p and k :: "logical_plan \<Rightarrow> ('e, 'b) res" by (rule rewrite_with_filter [OF that])
  show ?thesis
  proof (cases "has_aggregate s")
    case True
    then show ?thesis
      by (simp add: from_select_above rewrite_above simplified_def rewrite_filter_node [of "sl_having s"] rbind_assoc f g)
  next
    case False
    then show ?thesis by (simp add: from_select_above rewrite_above simplified_def rbind_assoc f)
  qed
qed

lemma fold_filter_fixed: "fold_filter f = (Ok g :: ('e, expr option) res) \<Longrightarrow> fold_filter g = (Ok g :: ('e, expr option) res)"
  by (cases f) (auto simp: fold_filter_def rbind_eq_Ok dest: fold_constants_fixed split: if_splits)

lemma simplified_fixed: "simplified s = (Ok s' :: ('e, select_stmt) res) \<Longrightarrow> simplified s' = (Ok s' :: ('e, select_stmt) res)"
  by (auto simp: simplified_def rbind_eq_Ok fold_filter_fixed split: if_splits)

lemma passes_fixed: "rewrite q = (Ok q :: ('e, logical_plan) res) \<Longrightarrow> passes n q = (Ok q :: ('e, logical_plan) res)"
  by (induction n) simp_all

text \<open>The size of the conditions of a plan, which folding lowers, tells plans apart that are not equal.\<close>

fun weight :: "logical_plan \<Rightarrow> nat" where
  "weight (LpFilter e p) = Suc (size e) + weight p"
| "weight (LpProject es p) = weight p"
| "weight (LpAggregate g es p) = weight p"
| "weight (LpSort ks p) = weight p"
| "weight (LpLimit l f p) = weight p"
| "weight (LpDistinct p) = weight p"
| "weight (LpJoin k e l r) = weight l + weight r"
| "weight p = 0"

lemma plan_eq_weight: "plan_eq q p \<Longrightarrow> weight q = weight p"
  by (induction q arbitrary: p) (auto dest: expr_eq_size(1) split: logical_plan.splits)

definition cond_weight :: "expr option \<Rightarrow> nat" where
  "cond_weight f = (case f of None \<Rightarrow> 0 | Some e \<Rightarrow> Suc (size e))"

lemma weight_with_filter: "weight (with_filter f p) = cond_weight f + weight p"
  by (cases f) (simp_all add: with_filter_def cond_weight_def)

lemma weight_above: "weight (above s p) = weight p"
  by (simp add: above_def Let_def)

lemma weight_from_select:
  "weight (from_select s) = cond_weight (sl_filter s) + (if has_aggregate s then cond_weight (sl_having s) else 0) + weight (fold join_onto (sl_joins s) (scan_of s))"
  by (simp add: from_select_above weight_above weight_with_filter)

lemma fold_filter_weight: "fold_filter f = (Ok g :: ('e, expr option) res) \<Longrightarrow> g = f \<or> cond_weight g < cond_weight f"
  by (cases f) (auto simp: fold_filter_def rbind_eq_Ok cond_weight_def dest: fold_constants_size split: if_splits)

lemma simplified_weight: "simplified s = (Ok s' :: ('e, select_stmt) res) \<Longrightarrow> s' = s \<or> weight (from_select s') < weight (from_select s)"
proof -
  assume "simplified s = (Ok s' :: ('e, select_stmt) res)"
  then obtain f h where f: "fold_filter (sl_filter s) = (Ok f :: ('e, expr option) res)" and s': "s' = s\<lparr>sl_filter := f, sl_having := h\<rparr>"
    and h: "if has_aggregate s then fold_filter (sl_having s) = (Ok h :: ('e, expr option) res) else h = sl_having s"
    by (auto simp: simplified_def rbind_eq_Ok split: if_splits)
  have hw: "h = sl_having s \<or> has_aggregate s \<and> cond_weight h < cond_weight (sl_having s)"
    using h fold_filter_weight by (auto split: if_splits)
  have w: "weight (from_select s') = cond_weight f + (if has_aggregate s then cond_weight h else 0) + weight (fold join_onto (sl_joins s) (scan_of s))"
    unfolding s' weight_from_select by simp
  show ?thesis using fold_filter_weight [OF f] hw unfolding w weight_from_select [of s] by (auto simp: s')
qed

lemma optimize_lowered: "optimize (from_select s) = (rbind (simplified s) (\<lambda>s. Ok (from_select s)) :: ('e, logical_plan) res)"
proof (cases "simplified s :: ('e, select_stmt) res")
  case (Ok s')
  have fx: "rewrite (from_select s') = (Ok (from_select s') :: ('e, logical_plan) res)"
    by (simp add: rewrite_from_select simplified_fixed [OF Ok])
  have "plan_eq (from_select s') (from_select s) \<Longrightarrow> from_select s = from_select s'"
    using simplified_weight [OF Ok] plan_eq_weight by fastforce
  then show ?thesis unfolding optimize_def
    by (simp add: eval_nat_numeral rewrite_from_select Ok passes_fixed [OF fx] del: passes.simps(2) add: passes.simps(2) [of _ "from_select s"])
qed (simp_all add: optimize_def eval_nat_numeral rewrite_from_select)

section \<open>Conjuncts\<close>

lemma logic_and_assoc:
  "logic_and (vm_bool (logic_and a b)) c = logic_and a (vm_bool (logic_and b c))"
  by (auto simp: logic_and_def vm_bool_def)

lemma logic_and_valued: "logic_and a b \<in> {VBool True, VBool False, VNull}"
  by (auto simp: logic_and_def)

text \<open>Regrouping a conjunction keeps its meaning, since the machine evaluates all operands in order.\<close>

lemma conjunction_assoc:
  "meaning cols row (Binary And (Binary And a b) c) = (meaning cols row (Binary And a (Binary And b c)) :: ('e, val) res)"
  by (cases "meaning cols row a :: ('e, val) res"; cases "meaning cols row b :: ('e, val) res"; cases "meaning cols row c :: ('e, val) res")
    (simp_all add: apply_binary_def logic_and_assoc)

lemma conjunction_cong:
  "meaning cols row a = (meaning cols row a' :: ('e, val) res) \<Longrightarrow> meaning cols row b = (meaning cols row b' :: ('e, val) res) \<Longrightarrow>
    meaning cols row (Binary And a b) = (meaning cols row (Binary And a' b') :: ('e, val) res)"
  by simp

lemma fold_conjunction:
  "meaning cols row (fold (\<lambda>e acc. Binary And acc e) es (Binary And a b)) =
    (meaning cols row (Binary And a (fold (\<lambda>e acc. Binary And acc e) es b)) :: ('e, val) res)"
proof (induction es arbitrary: b)
  case (Cons e es)
  have "meaning cols row (fold (\<lambda>e acc. Binary And acc e) es x) = (meaning cols row (fold (\<lambda>e acc. Binary And acc e) es y) :: ('e, val) res)"
    if "meaning cols row x = (meaning cols row y :: ('e, val) res)" for x y
    using that by (induction es arbitrary: x y) simp_all
  from this [OF conjunction_assoc [of cols row a b e]] show ?case using Cons.IH [of "Binary And b e"] by (simp del: meaning.simps)
qed simp

lemma split_not_Nil: "split_conjuncts e \<noteq> []"
  by (induction e rule: split_conjuncts.induct) auto

lemma combine_append:
  "xs \<noteq> [] \<Longrightarrow> ys \<noteq> [] \<Longrightarrow> meaning cols row (the (combine_conjuncts (xs @ ys))) =
    (meaning cols row (Binary And (the (combine_conjuncts xs)) (the (combine_conjuncts ys))) :: ('e, val) res)"
  by (cases xs; cases ys) (simp_all add: fold_conjunction del: meaning.simps)

lemma combine_split: "meaning cols row (the (combine_conjuncts (split_conjuncts e))) = (meaning cols row e :: ('e, val) res)"
proof (induction e rule: split_conjuncts.induct)
  case (1 a b)
  have "meaning cols row (the (combine_conjuncts (split_conjuncts a @ split_conjuncts b))) =
      (meaning cols row (Binary And (the (combine_conjuncts (split_conjuncts a))) (the (combine_conjuncts (split_conjuncts b)))) :: ('e, val) res)"
    by (rule combine_append [OF split_not_Nil split_not_Nil])
  then show ?case using 1 by simp
qed simp_all

lemma combine_Some: "es \<noteq> [] \<Longrightarrow> combine_conjuncts es \<noteq> None"
  by (cases es) auto

section \<open>What the optimizer does to any plan\<close>

text \<open>It keeps the scans, in their order, and never adds a node.\<close>

fun scans :: "logical_plan \<Rightarrow> (rstr \<times> rstr option) list" where
  "scans (LpScan t a) = [(t, a)]"
| "scans (LpFilter e p) = scans p"
| "scans (LpProject es p) = scans p"
| "scans (LpAggregate g es p) = scans p"
| "scans (LpSort ks p) = scans p"
| "scans (LpLimit l f p) = scans p"
| "scans (LpDistinct p) = scans p"
| "scans (LpJoin k e l r) = scans l @ scans r"
| "scans LpEmpty = []"

lemma node_count_simps [simp]:
  "node_count (LpScan t a) = 1" "node_count LpEmpty = 1" "node_count (LpFilter e p) = Suc (node_count p)"
  "node_count (LpProject es p) = Suc (node_count p)" "node_count (LpAggregate g es p) = Suc (node_count p)"
  "node_count (LpSort ks p) = Suc (node_count p)" "node_count (LpLimit m f p) = Suc (node_count p)"
  "node_count (LpDistinct p) = Suc (node_count p)" "node_count (LpJoin k e l r) = Suc (node_count l + node_count r)"
  by (subst node_count.simps, simp)+

lemma rewrite_filter_scans: "rewrite_filter e p = (Ok q :: ('e, logical_plan) res) \<Longrightarrow> scans q = scans p \<and> node_count q \<le> Suc (node_count p)"
  by (cases p) (auto simp: rewrite_filter_def rbind_eq_Ok split: if_splits)

lemma rewrite_scans: "rewrite p = (Ok q :: ('e, logical_plan) res) \<Longrightarrow> scans q = scans p \<and> node_count q \<le> node_count p"
proof (induction p arbitrary: q)
  case (LpFilter e p)
  then obtain p1 where p1: "rewrite p = (Ok p1 :: ('e, logical_plan) res)" "rewrite_filter e p1 = (Ok q :: ('e, logical_plan) res)"
    by (auto simp: rbind_eq_Ok)
  show ?case using LpFilter.IH [OF p1(1)] rewrite_filter_scans [OF p1(2)] by simp
next
  case (LpJoin k e l r)
  then show ?case by (fastforce simp: rbind_eq_Ok)
qed (fastforce simp: rbind_eq_Ok)+

lemma passes_scans: "passes n p = (Ok q :: ('e, logical_plan) res) \<Longrightarrow> scans q = scans p \<and> node_count q \<le> node_count p"
proof (induction n arbitrary: p)
  case (Suc n)
  then obtain p1 where p1: "rewrite p = (Ok p1 :: ('e, logical_plan) res)" "(if plan_eq p1 p then Ok p else passes n p1) = (Ok q :: ('e, logical_plan) res)"
    by (auto simp: rbind_eq_Ok)
  show ?case using p1(2) rewrite_scans [OF p1(1)] Suc.IH [of p1] by (auto split: if_splits)
qed simp

end
