(* ===== verification/SqlLexers.thy ===== *)
theory SqlLexers
  imports SqlSyntax Numerals Lexers
begin

text \<open>
  The lexer of the SQL front end (\<open>src/src/sql.rs\<close>): tokens with their offsets. The lexer's position
  in a source of \<open>n\<close> bytes is \<open>n\<close> less the length of the bytes that are left, so its functions carry
  those bytes. A string literal takes each byte as a character of its own (\<open>b as char\<close>).
\<close>

unbundle bit_operations_syntax

section \<open>Tokens\<close>

datatype keyword = KwSelect | KwFrom | KwWhere | KwGroup | KwBy | KwHaving | KwOrder | KwAsc | KwDesc | KwLimit
  | KwOffset | KwInsert | KwInto | KwValues | KwUpdate | KwSet | KwDelete | KwCreate | KwTable | KwDrop | KwJoin
  | KwInner | KwLeft | KwOn | KwAs | KwAnd | KwOr | KwNot | KwNull | KwIs | KwIn | KwLike | KwBetween | KwTrue | KwFalse
  | KwDistinct | KwCount | KwSum | KwAvg | KwMin | KwMax | KwInt | KwReal | KwText | KwBool

datatype token = TIdent rstr | TKeyword keyword | TInt i64 | TReal f64 | TStr rstr
  | TLParen | TRParen | TComma | TStar | TDot | TSemicolon | TPlus | TMinus | TSlash | TPercent
  | TEq | TNotEq | TLt | TLtEq | TGt | TGtEq | TEof

definition to_upper :: "u8 \<Rightarrow> u8" where
  "to_upper b = (if 97 \<le> b \<and> b \<le> 122 then b - 32 else b)"

text \<open>The words of \<open>Keyword::from_word\<close>, the aliases of the four types included.\<close>

definition keyword_words :: "(string \<times> keyword) list" where
  "keyword_words = [(''SELECT'', KwSelect), (''FROM'', KwFrom), (''WHERE'', KwWhere), (''GROUP'', KwGroup), (''BY'', KwBy),
     (''HAVING'', KwHaving), (''ORDER'', KwOrder), (''ASC'', KwAsc), (''DESC'', KwDesc), (''LIMIT'', KwLimit),
     (''OFFSET'', KwOffset), (''INSERT'', KwInsert), (''INTO'', KwInto), (''VALUES'', KwValues), (''UPDATE'', KwUpdate),
     (''SET'', KwSet), (''DELETE'', KwDelete), (''CREATE'', KwCreate), (''TABLE'', KwTable), (''DROP'', KwDrop),
     (''JOIN'', KwJoin), (''INNER'', KwInner), (''LEFT'', KwLeft), (''ON'', KwOn), (''AS'', KwAs), (''AND'', KwAnd),
     (''OR'', KwOr), (''NOT'', KwNot), (''NULL'', KwNull), (''IS'', KwIs), (''IN'', KwIn), (''LIKE'', KwLike),
     (''BETWEEN'', KwBetween), (''TRUE'', KwTrue), (''FALSE'', KwFalse), (''DISTINCT'', KwDistinct), (''COUNT'', KwCount),
     (''SUM'', KwSum), (''AVG'', KwAvg), (''MIN'', KwMin), (''MAX'', KwMax),
     (''INT'', KwInt), (''INTEGER'', KwInt), (''BIGINT'', KwInt), (''REAL'', KwReal), (''FLOAT'', KwReal), (''DOUBLE'', KwReal),
     (''TEXT'', KwText), (''VARCHAR'', KwText), (''STRING'', KwText), (''BOOL'', KwBool), (''BOOLEAN'', KwBool)]"

definition from_word :: "u8 list \<Rightarrow> keyword option" where
  "from_word w = map_of (map (\<lambda>(s, k). (str s, k)) keyword_words) (map to_upper w)"

record sql_error =
  se_message :: rstr
  se_pos :: nat

section \<open>Skipping\<close>

fun skip_comment :: "u8 list \<Rightarrow> u8 list" where
  "skip_comment [] = []"
| "skip_comment (b # bs) = (if b = 10 then bs else skip_comment bs)"

lemma skip_comment_length: "length (skip_comment bs) \<le> length bs"
  by (induction bs) auto

function skip_ws_and_comments :: "u8 list \<Rightarrow> u8 list" where
  "skip_ws_and_comments bs = (case bs of [] \<Rightarrow> []
     | b # r \<Rightarrow> if ascii_ws b then skip_ws_and_comments r
         else if b = 45 \<and> take 1 r = [45] then skip_ws_and_comments (skip_comment r)
         else bs)"
  by auto
termination
  by (relation "measure length") (auto simp: less_Suc_eq_le skip_comment_length)

declare skip_ws_and_comments.simps [simp del]

section \<open>Tokens from bytes\<close>

definition lex_err :: "nat \<Rightarrow> u8 list \<Rightarrow> rstr \<Rightarrow> (sql_error, 'a) res" where
  "lex_err n rest msg = Err \<lparr>se_message = msg, se_pos = n - length rest\<rparr>"

text \<open>\<open>b as char\<close> pushed onto a string: the code point, in UTF-8.\<close>

definition push_char :: "u8 \<Rightarrow> u8 list" where
  "push_char b = (if b < 128 then [b] else [0xC0 OR (drop_bit 6 b), 0x80 OR (b AND 0x3F)])"

fun string_body :: "nat \<Rightarrow> u8 list \<Rightarrow> (sql_error, rstr \<times> u8 list) res" where
  "string_body n [] = lex_err n [] (str ''unterminated string'')"
| "string_body n (b # bs) =
     (if b = 39 then (case bs of
          c # cs \<Rightarrow> if c = 39 then rbind (string_body n cs) (\<lambda>(s, r). Ok (39 # s, r)) else Ok ([], bs)
        | [] \<Rightarrow> Ok ([], []))
      else rbind (string_body n bs) (\<lambda>(s, r). Ok (push_char b @ s, r)))"

fun quoted_body :: "nat \<Rightarrow> u8 list \<Rightarrow> (sql_error, rstr \<times> u8 list) res" where
  "quoted_body n [] = lex_err n [] (str ''unterminated identifier'')"
| "quoted_body n (b # bs) =
     (if b = 34 then Ok ([], bs) else rbind (quoted_body n bs) (\<lambda>(s, r). Ok (push_char b @ s, r)))"

text \<open>The bytes of a number, whether it is a real, and the bytes behind it.\<close>

fun number_span :: "bool \<Rightarrow> u8 list \<Rightarrow> u8 list \<times> bool \<times> u8 list" where
  "number_span real [] = ([], real, [])"
| "number_span real (b # bs) =
     (if is_digit b then (let (t, q, r) = number_span real bs in (b # t, q, r))
      else if b = 46 \<and> \<not> real then (let (t, q, r) = number_span True bs in (b # t, q, r))
      else if b = 101 \<or> b = 69 then (case bs of
          c # cs \<Rightarrow> if c = 43 \<or> c = 45 then (let (t, q, r) = number_span True cs in (b # c # t, q, r))
                    else (let (t, q, r) = number_span True bs in (b # t, q, r))
        | [] \<Rightarrow> ([b], True, []))
      else ([], real, b # bs))"

definition lex_number :: "nat \<Rightarrow> u8 list \<Rightarrow> (sql_error, token \<times> u8 list) res" where
  "lex_number n bs = (let (t, real, r) = number_span False bs in
     if real then (case parse_f64 t of Some x \<Rightarrow> Ok (TReal x, r) | None \<Rightarrow> lex_err n r (str ''invalid number''))
     else (case parse_i64 t of Some i \<Rightarrow> Ok (TInt i, r) | None \<Rightarrow> lex_err n r (str ''integer overflow'')))"

definition is_alpha :: "u8 \<Rightarrow> bool" where
  "is_alpha b \<longleftrightarrow> 65 \<le> b \<and> b \<le> 90 \<or> 97 \<le> b \<and> b \<le> 122"

definition word_char :: "u8 \<Rightarrow> bool" where
  "word_char b \<longleftrightarrow> b = 95 \<or> is_alpha b \<or> is_digit b"

definition lex_word :: "u8 list \<Rightarrow> token \<times> u8 list" where
  "lex_word bs = (let t = takeWhile word_char bs in
     (case from_word t of Some k \<Rightarrow> TKeyword k | None \<Rightarrow> TIdent t, dropWhile word_char bs))"

definition single_tokens :: "(u8 \<times> token) list" where
  "single_tokens = [(40, TLParen), (41, TRParen), (44, TComma), (42, TStar), (46, TDot), (59, TSemicolon),
     (43, TPlus), (45, TMinus), (47, TSlash), (37, TPercent), (61, TEq)]"

definition sql_next_token :: "nat \<Rightarrow> u8 list \<Rightarrow> (sql_error, token \<times> u8 list) res" where
  "sql_next_token n bs = (case bs of [] \<Rightarrow> Ok (TEof, [])
     | b # r \<Rightarrow> (case map_of single_tokens b of Some t \<Rightarrow> Ok (t, r)
       | None \<Rightarrow>
           if b = 60 then Ok (case r of c # r' \<Rightarrow> if c = 61 then (TLtEq, r') else if c = 62 then (TNotEq, r') else (TLt, r) | [] \<Rightarrow> (TLt, r))
           else if b = 62 then Ok (case r of c # r' \<Rightarrow> if c = 61 then (TGtEq, r') else (TGt, r) | [] \<Rightarrow> (TGt, r))
           else if b = 33 then (case r of c # r' \<Rightarrow> if c = 61 then Ok (TNotEq, r') else lex_err n r (str ''unexpected '' @ [39, 33, 39])
             | [] \<Rightarrow> lex_err n r (str ''unexpected '' @ [39, 33, 39]))
           else if b = 39 then rbind (string_body n r) (\<lambda>(s, r). Ok (TStr s, r))
           else if b = 34 then rbind (quoted_body n r) (\<lambda>(s, r). Ok (TIdent s, r))
           else if is_digit b then lex_number n bs
           else if b = 95 \<or> is_alpha b then Ok (lex_word bs)
           else lex_err n bs (str ''unexpected character'')))"

section \<open>Every token takes a byte\<close>

lemma string_body_length: "string_body n bs = Ok (s, r) \<Longrightarrow> length r < length bs"
  by (induction n bs arbitrary: s r rule: string_body.induct)
    (fastforce simp: lex_err_def rbind_eq_Ok split: if_splits list.splits)+

lemma quoted_body_length: "quoted_body n bs = Ok (s, r) \<Longrightarrow> length r < length bs"
  by (induction n bs arbitrary: s r rule: quoted_body.induct)
    (fastforce simp: lex_err_def rbind_eq_Ok split: if_splits)+

lemma number_span_parts: "fst (number_span real bs) @ snd (snd (number_span real bs)) = bs"
  by (induction real bs rule: number_span.induct) (simp_all add: case_prod_beta Let_def split: list.split)

lemma number_span_append: "number_span real bs = (t, q, r) \<Longrightarrow> bs = t @ r"
  using number_span_parts [of real bs] by simp

lemma number_span_digit: "is_digit b \<Longrightarrow> number_span real (b # bs) = (t, q, r) \<Longrightarrow> t \<noteq> []"
  by (auto simp: Let_def split: prod.splits)

lemma lex_number_length: "is_digit b \<Longrightarrow> lex_number n (b # bs) = Ok (t, r) \<Longrightarrow> length r < length (b # bs)"
  using number_span_append [of False "b # bs"] number_span_digit [of b False bs]
  by (auto simp: lex_number_def lex_err_def split: prod.splits option.splits if_splits)

lemma lex_word_length: "word_char b \<Longrightarrow> lex_word (b # bs) = (t, r) \<Longrightarrow> length r < length (b # bs)"
  by (auto simp: lex_word_def Let_def less_Suc_eq_le length_dropWhile_le)

lemma next_token_length: "sql_next_token n bs = Ok (t, r) \<Longrightarrow> t \<noteq> TEof \<Longrightarrow> length r < length bs"
  by (cases bs)
    (auto simp: sql_next_token_def rbind_eq_Ok lex_err_def word_char_def less_Suc_eq_le split: option.splits if_splits list.splits
      dest!: string_body_length quoted_body_length lex_number_length dest: lex_word_length [rotated])

lemma skip_ws_length: "length (skip_ws_and_comments bs) \<le> length bs"
proof (induction bs rule: skip_ws_and_comments.induct)
  case (1 bs)
  show ?case
  proof (cases bs)
    case (Cons b r)
    show ?thesis using 1 [OF Cons] skip_comment_length [of r] by (subst skip_ws_and_comments.simps) (auto simp: Cons)
  qed (simp add: skip_ws_and_comments.simps)
qed

section \<open>The token list\<close>

text \<open>\<open>tokenize\<close>: the tokens with their offsets, the last one \<open>Eof\<close>.\<close>

function tokens_from :: "nat \<Rightarrow> u8 list \<Rightarrow> (sql_error, (token \<times> nat) list) res" where
  "tokens_from n bs = (let bs = skip_ws_and_comments bs in case sql_next_token n bs of
       Ok (t, r) \<Rightarrow> if t = TEof then Ok [(t, n - length bs)]
         else rbind (tokens_from n r) (\<lambda>ts. Ok ((t, n - length bs) # ts))
     | Err e \<Rightarrow> Err e | Panic \<Rightarrow> Panic | Undef \<Rightarrow> Undef)"
  by auto
termination
proof (relation "measure (length \<circ> snd)")
  fix n bs bs' t r p
  assume "bs' = skip_ws_and_comments bs" "sql_next_token n bs' = Ok p" "(t, r) = p" "t \<noteq> TEof"
  then have "length r < length (skip_ws_and_comments bs)" using next_token_length [of n bs' t r] by simp
  then show "((n, r), (n, bs)) \<in> measure (length \<circ> snd)" using skip_ws_length [of bs] by simp
qed simp

declare tokens_from.simps [simp del]

definition tokenize :: "u8 list \<Rightarrow> (sql_error, (token \<times> nat) list) res" where
  "tokenize src = tokens_from (length src) src"

end
