(* ===== verification/SqlParsers.thy ===== *)
theory SqlParsers
  imports SqlLexers
begin

text \<open>
  The parser of the SQL front end (\<open>src/src/sql.rs\<close>): the precedence-climbing expression parser and the
  statements, on the tokens that are left. Past the last token \<open>peek\<close> is \<open>Eof\<close> and the position of an
  error is zero. The recursion of the expression parser carries fuel, and running out of it is
  \<open>Undef\<close>; three units for every token are always enough.
\<close>

type_synonym tokens = "(token \<times> nat) list"
type_synonym 'a parsed = "(sql_error, 'a \<times> tokens) res"

section \<open>Looking at the tokens\<close>

fun peek :: "tokens \<Rightarrow> token" where
  "peek [] = TEof"
| "peek ((t, p) # ts) = t"

definition advance :: "tokens \<Rightarrow> token \<times> tokens" where
  "advance ts = (peek ts, tl ts)"

fun cur_pos :: "tokens \<Rightarrow> nat" where
  "cur_pos [] = 0"
| "cur_pos ((t, p) # ts) = p"

definition parse_err :: "tokens \<Rightarrow> rstr \<Rightarrow> (sql_error, 'a) res" where
  "parse_err ts msg = Err \<lparr>se_message = msg, se_pos = cur_pos ts\<rparr>"

definition expect_token :: "token \<Rightarrow> rstr \<Rightarrow> tokens \<Rightarrow> (sql_error, tokens) res" where
  "expect_token t msg ts = (if peek ts = t then Ok (tl ts) else parse_err ts msg)"

text \<open>\<open>{kw:?}\<close>, the name of the variant.\<close>

definition keyword_name :: "keyword \<Rightarrow> rstr" where
  "keyword_name k = str (case k of KwSelect \<Rightarrow> ''Select'' | KwFrom \<Rightarrow> ''From'' | KwWhere \<Rightarrow> ''Where'' | KwGroup \<Rightarrow> ''Group''
     | KwBy \<Rightarrow> ''By'' | KwHaving \<Rightarrow> ''Having'' | KwOrder \<Rightarrow> ''Order'' | KwAsc \<Rightarrow> ''Asc'' | KwDesc \<Rightarrow> ''Desc'' | KwLimit \<Rightarrow> ''Limit''
     | KwOffset \<Rightarrow> ''Offset'' | KwInsert \<Rightarrow> ''Insert'' | KwInto \<Rightarrow> ''Into'' | KwValues \<Rightarrow> ''Values'' | KwUpdate \<Rightarrow> ''Update''
     | KwSet \<Rightarrow> ''Set'' | KwDelete \<Rightarrow> ''Delete'' | KwCreate \<Rightarrow> ''Create'' | KwTable \<Rightarrow> ''Table'' | KwDrop \<Rightarrow> ''Drop''
     | KwJoin \<Rightarrow> ''Join'' | KwInner \<Rightarrow> ''Inner'' | KwLeft \<Rightarrow> ''Left'' | KwOn \<Rightarrow> ''On'' | KwAs \<Rightarrow> ''As'' | KwAnd \<Rightarrow> ''And''
     | KwOr \<Rightarrow> ''Or'' | KwNot \<Rightarrow> ''Not'' | KwNull \<Rightarrow> ''Null'' | KwIs \<Rightarrow> ''Is'' | KwIn \<Rightarrow> ''In'' | KwLike \<Rightarrow> ''Like''
     | KwBetween \<Rightarrow> ''Between'' | KwTrue \<Rightarrow> ''True'' | KwFalse \<Rightarrow> ''False'' | KwDistinct \<Rightarrow> ''Distinct'' | KwCount \<Rightarrow> ''Count''
     | KwSum \<Rightarrow> ''Sum'' | KwAvg \<Rightarrow> ''Avg'' | KwMin \<Rightarrow> ''Min'' | KwMax \<Rightarrow> ''Max'' | KwInt \<Rightarrow> ''Int'' | KwReal \<Rightarrow> ''Real''
     | KwText \<Rightarrow> ''Text'' | KwBool \<Rightarrow> ''Bool'')"

definition expect_keyword :: "keyword \<Rightarrow> tokens \<Rightarrow> (sql_error, tokens) res" where
  "expect_keyword k ts = (if peek ts = TKeyword k then Ok (tl ts) else parse_err ts (str ''expected keyword '' @ keyword_name k))"

text \<open>\<open>parse_ident\<close> advances before it complains, so its errors point behind the token.\<close>

definition parse_ident :: "tokens \<Rightarrow> rstr parsed" where
  "parse_ident ts = (case advance ts of (TIdent s, ts) \<Rightarrow> Ok (s, ts) | (_, ts) \<Rightarrow> parse_err ts (str ''expected an identifier''))"

definition parse_int_literal :: "tokens \<Rightarrow> i64 parsed" where
  "parse_int_literal ts = (case advance ts of (TInt i, ts) \<Rightarrow> Ok (i, ts) | (_, ts) \<Rightarrow> parse_err ts (str ''expected an integer literal''))"

text \<open>The comma or closing parenthesis behind an item: whether the list goes on.\<close>

definition comma_or_close :: "tokens \<Rightarrow> bool parsed" where
  "comma_or_close ts = (case advance ts of (TComma, ts) \<Rightarrow> Ok (True, ts) | (TRParen, ts) \<Rightarrow> Ok (False, ts)
     | (_, ts) \<Rightarrow> parse_err ts (str ''expected '' @ [39, 44, 39] @ str '' or '' @ [39, 41, 39]))"

definition expect_open :: "string \<Rightarrow> tokens \<Rightarrow> (sql_error, tokens) res" where
  "expect_open what ts = expect_token TLParen (str ''expected '' @ [39, 40, 39] @ str what) ts"

definition expect_close :: "tokens \<Rightarrow> (sql_error, tokens) res" where
  "expect_close ts = expect_token TRParen (str ''expected '' @ [39, 41, 39]) ts"

definition peek_binop :: "tokens \<Rightarrow> bin_op option" where
  "peek_binop ts = (case peek ts of TPlus \<Rightarrow> Some Add | TMinus \<Rightarrow> Some Sub | TStar \<Rightarrow> Some Mul | TSlash \<Rightarrow> Some Div
     | TPercent \<Rightarrow> Some Mod | TEq \<Rightarrow> Some Eq | TNotEq \<Rightarrow> Some NotEq | TLt \<Rightarrow> Some Lt | TLtEq \<Rightarrow> Some LtEq
     | TGt \<Rightarrow> Some Gt | TGtEq \<Rightarrow> Some GtEq | TKeyword KwAnd \<Rightarrow> Some And | TKeyword KwOr \<Rightarrow> Some Or | _ \<Rightarrow> None)"

definition agg_keyword :: "keyword \<Rightarrow> agg_func option" where
  "agg_keyword k = (case k of KwCount \<Rightarrow> Some AggCount | KwSum \<Rightarrow> Some AggSum | KwAvg \<Rightarrow> Some AggAvg
     | KwMin \<Rightarrow> Some AggMin | KwMax \<Rightarrow> Some AggMax | _ \<Rightarrow> None)"

text \<open>Skipping an optional keyword.\<close>

definition accept :: "keyword \<Rightarrow> tokens \<Rightarrow> bool \<times> tokens" where
  "accept k ts = (if peek ts = TKeyword k then (True, tl ts) else (False, ts))"

definition parse_column :: "tokens \<Rightarrow> expr parsed" where
  "parse_column ts = rbind (parse_ident ts) (\<lambda>(name, ts).
     if peek ts = TDot then
       (if peek (tl ts) = TStar then Ok (Qualified name (str ''*''), tl (tl ts))
        else rbind (parse_ident (tl ts)) (\<lambda>(c, ts). Ok (Qualified name c, ts)))
     else Ok (Column name, ts))"

section \<open>Expressions\<close>

function (sequential) parse_expr :: "nat \<Rightarrow> nat \<Rightarrow> tokens \<Rightarrow> expr parsed"
  and expr_loop :: "nat \<Rightarrow> nat \<Rightarrow> expr \<Rightarrow> tokens \<Rightarrow> expr parsed"
  and parse_prefix :: "nat \<Rightarrow> tokens \<Rightarrow> expr parsed"
  and parse_aggregate :: "nat \<Rightarrow> agg_func \<Rightarrow> tokens \<Rightarrow> expr parsed"
  and parse_items :: "nat \<Rightarrow> tokens \<Rightarrow> expr list parsed" where
  "parse_expr 0 m ts = Undef"
| "parse_expr (Suc n) m ts = rbind (parse_prefix n ts) (\<lambda>(l, ts). expr_loop n m l ts)"
| "expr_loop 0 m l ts = Undef"
| "expr_loop (Suc n) m l ts = (
     if peek ts = TKeyword KwIs then (let (neg, ts) = accept KwNot (tl ts) in
       rbind (expect_keyword KwNull ts) (\<lambda>ts. expr_loop n m (IsNull l neg) ts))
     else if peek ts = TKeyword KwLike then
       rbind (parse_prefix n (tl ts)) (\<lambda>(r, ts). expr_loop n m (Like l r) ts)
     else if peek ts = TKeyword KwBetween then
       rbind (parse_expr n 3 (tl ts)) (\<lambda>(lo, ts). rbind (expect_keyword KwAnd ts) (\<lambda>ts.
         rbind (parse_expr n 3 ts) (\<lambda>(hi, ts). expr_loop n m (Between l lo hi) ts)))
     else if peek ts = TKeyword KwIn then
       rbind (expect_open '' after IN'' (tl ts)) (\<lambda>ts.
         rbind (parse_items n ts) (\<lambda>(es, ts). expr_loop n m (InList l es) ts))
     else (case peek_binop ts of None \<Rightarrow> Ok (l, ts)
       | Some op \<Rightarrow> if precedence op < m then Ok (l, ts)
           else rbind (parse_expr n (precedence op + 1) (tl ts)) (\<lambda>(r, ts). expr_loop n m (Binary op l r) ts)))"
| "parse_prefix 0 ts = Undef"
| "parse_prefix (Suc n) ts = (case peek ts of
       TMinus \<Rightarrow> rbind (parse_prefix n (tl ts)) (\<lambda>(e, ts). Ok (Unary Neg e, ts))
     | TLParen \<Rightarrow> rbind (parse_expr n 0 (tl ts)) (\<lambda>(e, ts). rbind (expect_close ts) (\<lambda>ts. Ok (e, ts)))
     | TInt i \<Rightarrow> Ok (LitInt i, tl ts)
     | TReal r \<Rightarrow> Ok (LitReal r, tl ts)
     | TStr s \<Rightarrow> Ok (LitStr s, tl ts)
     | TIdent s \<Rightarrow> parse_column ts
     | TKeyword k \<Rightarrow>
         if k = KwNot then rbind (parse_expr n 2 (tl ts)) (\<lambda>(e, ts). Ok (Unary Not e, ts))
         else if k = KwTrue then Ok (LitBool True, tl ts)
         else if k = KwFalse then Ok (LitBool False, tl ts)
         else if k = KwNull then Ok (NullLit, tl ts)
         else (case agg_keyword k of Some f \<Rightarrow> parse_aggregate n f (tl ts)
           | None \<Rightarrow> parse_err ts (str ''expected an expression''))
     | _ \<Rightarrow> parse_err ts (str ''expected an expression''))"
| "parse_aggregate 0 f ts = Undef"
| "parse_aggregate (Suc n) f ts = rbind (expect_open '' after aggregate'' ts) (\<lambda>ts.
     let (d, ts) = accept KwDistinct ts in
     rbind (if peek ts = TStar then Ok (Star, tl ts) else parse_expr n 0 ts) (\<lambda>(e, ts).
       rbind (expect_close ts) (\<lambda>ts. Ok (Aggregate f d e, ts))))"
| "parse_items 0 ts = Undef"
| "parse_items (Suc n) ts = rbind (parse_expr n 0 ts) (\<lambda>(e, ts). rbind (comma_or_close ts) (\<lambda>(more, ts).
     if more then rbind (parse_items n ts) (\<lambda>(es, ts). Ok (e # es, ts)) else Ok ([e], ts)))"
  by pat_completeness auto
termination
  by (relation "measure (case_sum (case_sum (\<lambda>(n, m, ts). n) (\<lambda>(n, m, l, ts). n)) (case_sum (\<lambda>(n, ts). n) (case_sum (\<lambda>(n, f, ts). n) (\<lambda>(n, ts). n))))") auto

text \<open>\<open>parse_expr(0)\<close> with enough fuel.\<close>

definition sql_expr :: "tokens \<Rightarrow> expr parsed" where
  "sql_expr ts = parse_expr (4 * length ts + 4) 0 ts"

section \<open>Statements\<close>

text \<open>
  A list of items separated by commas: the loop ends with the tokens, since every item takes one.
\<close>

fun comma_list :: "nat \<Rightarrow> (tokens \<Rightarrow> 'a parsed) \<Rightarrow> tokens \<Rightarrow> 'a list parsed" where
  "comma_list 0 item ts = Undef"
| "comma_list (Suc n) item ts = rbind (item ts) (\<lambda>(x, ts).
     if peek ts = TComma then rbind (comma_list n item (tl ts)) (\<lambda>(xs, ts). Ok (x # xs, ts)) else Ok ([x], ts))"

text \<open>The same up to a closing parenthesis.\<close>

fun closed_list :: "nat \<Rightarrow> (tokens \<Rightarrow> 'a parsed) \<Rightarrow> tokens \<Rightarrow> 'a list parsed" where
  "closed_list 0 item ts = Undef"
| "closed_list (Suc n) item ts = rbind (item ts) (\<lambda>(x, ts). rbind (comma_or_close ts) (\<lambda>(more, ts).
     if more then rbind (closed_list n item ts) (\<lambda>(xs, ts). Ok (x # xs, ts)) else Ok ([x], ts)))"

definition comma_separated :: "(tokens \<Rightarrow> 'a parsed) \<Rightarrow> tokens \<Rightarrow> 'a list parsed" where
  "comma_separated item ts = comma_list (length ts + 1) item ts"

definition until_close :: "(tokens \<Rightarrow> 'a parsed) \<Rightarrow> tokens \<Rightarrow> 'a list parsed" where
  "until_close item ts = closed_list (length ts + 1) item ts"

text \<open>A clause behind its keyword, when it is there.\<close>

definition optional_clause :: "keyword \<Rightarrow> (tokens \<Rightarrow> 'a parsed) \<Rightarrow> tokens \<Rightarrow> 'a option parsed" where
  "optional_clause k p ts = (if peek ts = TKeyword k then rbind (p (tl ts)) (\<lambda>(x, ts). Ok (Some x, ts)) else Ok (None, ts))"

definition parse_optional_alias :: "tokens \<Rightarrow> rstr option parsed" where
  "parse_optional_alias ts = (case peek ts of
       TKeyword k \<Rightarrow> if k = KwAs then rbind (parse_ident (tl ts)) (\<lambda>(s, ts). Ok (Some s, ts)) else Ok (None, ts)
     | TIdent s \<Rightarrow> rbind (parse_ident ts) (\<lambda>(s, ts). Ok (Some s, ts))
     | _ \<Rightarrow> Ok (None, ts))"

definition parse_select_item :: "tokens \<Rightarrow> select_item parsed" where
  "parse_select_item ts = (if peek ts = TStar then Ok (\<lparr>si_expr = Star, si_alias = None\<rparr>, tl ts)
     else rbind (sql_expr ts) (\<lambda>(e, ts). rbind (parse_optional_alias ts) (\<lambda>(a, ts). Ok (\<lparr>si_expr = e, si_alias = a\<rparr>, ts))))"

definition parse_join_kind :: "tokens \<Rightarrow> join_kind parsed" where
  "parse_join_kind ts = (let (t, ts) = advance ts in
     if t = TKeyword KwInner then rbind (expect_keyword KwJoin ts) (\<lambda>ts. Ok (InnerJoin, ts))
     else if t = TKeyword KwLeft then rbind (expect_keyword KwJoin ts) (\<lambda>ts. Ok (LeftJoin, ts))
     else if t = TKeyword KwJoin then Ok (InnerJoin, ts)
     else parse_err ts (str ''expected JOIN''))"

definition parse_join :: "tokens \<Rightarrow> join_clause parsed" where
  "parse_join ts = rbind (parse_join_kind ts) (\<lambda>(k, ts). rbind (parse_ident ts) (\<lambda>(t, ts).
     rbind (parse_optional_alias ts) (\<lambda>(a, ts). rbind (expect_keyword KwOn ts) (\<lambda>ts.
       rbind (sql_expr ts) (\<lambda>(e, ts). Ok (\<lparr>jn_kind = k, jn_table = t, jn_alias = a, jn_on = e\<rparr>, ts))))))"

fun parse_joins :: "nat \<Rightarrow> tokens \<Rightarrow> join_clause list parsed" where
  "parse_joins 0 ts = Undef"
| "parse_joins (Suc n) ts = (if peek ts \<in> {TKeyword KwJoin, TKeyword KwInner, TKeyword KwLeft}
     then rbind (parse_join ts) (\<lambda>(j, ts). rbind (parse_joins n ts) (\<lambda>(js, ts). Ok (j # js, ts))) else Ok ([], ts))"

definition parse_from :: "tokens \<Rightarrow> (rstr option \<times> rstr option \<times> join_clause list) parsed" where
  "parse_from ts = (if peek ts = TKeyword KwFrom then rbind (parse_ident (tl ts)) (\<lambda>(t, ts).
       rbind (parse_optional_alias ts) (\<lambda>(a, ts). rbind (parse_joins (length ts + 1) ts) (\<lambda>(js, ts). Ok ((Some t, a, js), ts))))
     else Ok ((None, None, []), ts))"

definition parse_group_by :: "tokens \<Rightarrow> expr list parsed" where
  "parse_group_by ts = (if peek ts = TKeyword KwGroup
     then rbind (expect_keyword KwBy (tl ts)) (\<lambda>ts. comma_separated sql_expr ts) else Ok ([], ts))"

definition parse_order_item :: "tokens \<Rightarrow> order_item parsed" where
  "parse_order_item ts = rbind (sql_expr ts) (\<lambda>(e, ts).
     if peek ts = TKeyword KwAsc then Ok (\<lparr>oi_expr = e, oi_asc = True\<rparr>, tl ts)
     else if peek ts = TKeyword KwDesc then Ok (\<lparr>oi_expr = e, oi_asc = False\<rparr>, tl ts)
     else Ok (\<lparr>oi_expr = e, oi_asc = True\<rparr>, ts))"

definition parse_order_by :: "tokens \<Rightarrow> order_item list parsed" where
  "parse_order_by ts = (if peek ts = TKeyword KwOrder
     then rbind (expect_keyword KwBy (tl ts)) (\<lambda>ts. comma_separated parse_order_item ts) else Ok ([], ts))"

definition parse_select :: "tokens \<Rightarrow> select_stmt parsed" where
  "parse_select ts = rbind (expect_keyword KwSelect ts) (\<lambda>ts. let (d, ts) = accept KwDistinct ts in
     rbind (comma_separated parse_select_item ts) (\<lambda>(items, ts).
     rbind (parse_from ts) (\<lambda>((t, a, js), ts).
     rbind (optional_clause KwWhere sql_expr ts) (\<lambda>(w, ts).
     rbind (parse_group_by ts) (\<lambda>(g, ts).
     rbind (optional_clause KwHaving sql_expr ts) (\<lambda>(h, ts).
     rbind (parse_order_by ts) (\<lambda>(ob, ts).
     rbind (optional_clause KwLimit parse_int_literal ts) (\<lambda>(l, ts).
     rbind (optional_clause KwOffset parse_int_literal ts) (\<lambda>(f, ts).
       Ok (\<lparr>sl_distinct = d, sl_items = items, sl_from = t, sl_from_alias = a, sl_joins = js, sl_filter = w,
            sl_group_by = g, sl_having = h, sl_order_by = ob, sl_limit = l, sl_offset = f\<rparr>, ts))))))))))"

definition parse_row :: "tokens \<Rightarrow> expr list parsed" where
  "parse_row ts = rbind (expect_open '''' ts) (\<lambda>ts. until_close sql_expr ts)"

definition parse_insert_stmt :: "tokens \<Rightarrow> insert_stmt parsed" where
  "parse_insert_stmt ts = rbind (expect_keyword KwInsert ts) (\<lambda>ts. rbind (expect_keyword KwInto ts) (\<lambda>ts.
     rbind (parse_ident ts) (\<lambda>(t, ts).
     rbind (if peek ts = TLParen then until_close parse_ident (tl ts) else Ok ([], ts)) (\<lambda>(cs, ts).
     rbind (expect_keyword KwValues ts) (\<lambda>ts.
     rbind (comma_separated parse_row ts) (\<lambda>(rows, ts). Ok (\<lparr>in_table = t, in_columns = cs, in_rows = rows\<rparr>, ts)))))))"

definition parse_assignment :: "tokens \<Rightarrow> (rstr \<times> expr) parsed" where
  "parse_assignment ts = rbind (parse_ident ts) (\<lambda>(c, ts).
     rbind (expect_token TEq (str ''expected '' @ [39, 61, 39]) ts) (\<lambda>ts. rbind (sql_expr ts) (\<lambda>(e, ts). Ok ((c, e), ts))))"

definition parse_update_stmt :: "tokens \<Rightarrow> update_stmt parsed" where
  "parse_update_stmt ts = rbind (expect_keyword KwUpdate ts) (\<lambda>ts. rbind (parse_ident ts) (\<lambda>(t, ts).
     rbind (expect_keyword KwSet ts) (\<lambda>ts. rbind (comma_separated parse_assignment ts) (\<lambda>(as, ts).
       rbind (optional_clause KwWhere sql_expr ts) (\<lambda>(w, ts). Ok (\<lparr>up_table = t, up_assignments = as, up_filter = w\<rparr>, ts))))))"

definition parse_delete_stmt :: "tokens \<Rightarrow> delete_stmt parsed" where
  "parse_delete_stmt ts = rbind (expect_keyword KwDelete ts) (\<lambda>ts. rbind (expect_keyword KwFrom ts) (\<lambda>ts.
     rbind (parse_ident ts) (\<lambda>(t, ts). rbind (optional_clause KwWhere sql_expr ts) (\<lambda>(w, ts). Ok (\<lparr>dl_table = t, dl_filter = w\<rparr>, ts)))))"

definition ignore_case_eq :: "rstr \<Rightarrow> string \<Rightarrow> bool" where
  "ignore_case_eq s t \<longleftrightarrow> map to_lower s = map to_lower (str t)"

text \<open>The options behind a column type: not null, and primary key.\<close>

fun column_options :: "nat \<Rightarrow> bool \<Rightarrow> bool \<Rightarrow> tokens \<Rightarrow> (bool \<times> bool) parsed" where
  "column_options 0 nn pk ts = Undef"
| "column_options (Suc n) nn pk ts = (case peek ts of
       TKeyword k \<Rightarrow> if k = KwNot then rbind (expect_keyword KwNull (tl ts)) (\<lambda>ts. column_options n True pk ts) else Ok ((nn, pk), ts)
     | TIdent s \<Rightarrow> if ignore_case_eq s ''primary'' then
           column_options n True True (case peek (tl ts) of
             TIdent w \<Rightarrow> if ignore_case_eq w ''key'' then tl (tl ts) else tl ts | _ \<Rightarrow> tl ts)
         else Ok ((nn, pk), ts)
     | _ \<Rightarrow> Ok ((nn, pk), ts))"

definition parse_column_type :: "tokens \<Rightarrow> type_keyword parsed" where
  "parse_column_type ts = (let (t, ts) = advance ts in
     if t = TKeyword KwInt then Ok (TyInt, ts) else if t = TKeyword KwReal then Ok (TyReal, ts)
     else if t = TKeyword KwText then Ok (TyText, ts) else if t = TKeyword KwBool then Ok (TyBool, ts)
     else parse_err ts (str ''expected a column type''))"

definition parse_column_spec :: "tokens \<Rightarrow> column_spec parsed" where
  "parse_column_spec ts = rbind (parse_ident ts) (\<lambda>(c, ts). rbind (parse_column_type ts) (\<lambda>(k, ts).
     rbind (column_options (length ts + 1) False False ts) (\<lambda>((nn, pk), ts).
       Ok (\<lparr>cs_name = c, cs_kind = k, cs_not_null = nn, cs_primary_key = pk\<rparr>, ts))))"

definition parse_create :: "tokens \<Rightarrow> create_table_stmt parsed" where
  "parse_create ts = rbind (expect_keyword KwCreate ts) (\<lambda>ts. rbind (expect_keyword KwTable ts) (\<lambda>ts.
     rbind (parse_ident ts) (\<lambda>(t, ts). rbind (expect_open '''' ts) (\<lambda>ts.
       rbind (until_close parse_column_spec ts) (\<lambda>(cs, ts). Ok (\<lparr>ct_name = t, ct_columns = cs\<rparr>, ts))))))"

definition parse_drop :: "tokens \<Rightarrow> rstr parsed" where
  "parse_drop ts = rbind (expect_keyword KwDrop ts) (\<lambda>ts. rbind (expect_keyword KwTable ts) (\<lambda>ts. parse_ident ts))"

definition as_statement :: "('a \<Rightarrow> sql_statement) \<Rightarrow> 'a parsed \<Rightarrow> sql_statement parsed" where
  "as_statement f p = rbind p (\<lambda>(x, ts). Ok (f x, ts))"

definition parse_sql :: "tokens \<Rightarrow> sql_statement parsed" where
  "parse_sql ts = rbind
     (if peek ts = TKeyword KwSelect then as_statement Select (parse_select ts)
      else if peek ts = TKeyword KwInsert then as_statement Insert (parse_insert_stmt ts)
      else if peek ts = TKeyword KwUpdate then as_statement Update (parse_update_stmt ts)
      else if peek ts = TKeyword KwDelete then as_statement Delete (parse_delete_stmt ts)
      else if peek ts = TKeyword KwCreate then as_statement CreateTable (parse_create ts)
      else if peek ts = TKeyword KwDrop then as_statement DropTable (parse_drop ts)
      else parse_err ts (str ''expected a statement''))
     (\<lambda>(s, ts). Ok (s, if peek ts = TSemicolon then tl ts else ts))"

fun script_loop :: "nat \<Rightarrow> tokens \<Rightarrow> (sql_error, sql_statement list) res" where
  "script_loop 0 ts = Undef"
| "script_loop (Suc n) ts = (if peek ts = TEof then Ok []
     else rbind (parse_sql ts) (\<lambda>(s, ts). rbind (script_loop n ts) (\<lambda>ss. Ok (s # ss))))"

definition parse_script :: "u8 list \<Rightarrow> (sql_error, sql_statement list) res" where
  "parse_script src = rbind (tokenize src) (\<lambda>ts. script_loop (length ts + 1) ts)"

end
