(* ===== verification/SqlFuel.thy ===== *)
theory SqlFuel
  imports SqlParsers
begin

text \<open>
  The parser always answers: the fuel of the expression parser and the bounds of its loops never run
  out, whatever the tokens, and nothing in it panics. Every item a loop parses takes a token.
\<close>

lemma peek_is: "peek ts = t \<Longrightarrow> t \<noteq> TEof \<Longrightarrow> length ts - Suc 0 < length ts"
  by (cases ts) auto

section \<open>Answers that leave fewer tokens\<close>

definition answers :: "('e, 'a) res \<Rightarrow> bool" where
  "answers x \<longleftrightarrow> x \<noteq> Undef \<and> x \<noteq> Panic"

definition within :: "nat \<Rightarrow> 'a parsed \<Rightarrow> bool" where
  "within k x \<longleftrightarrow> answers x \<and> (\<forall>y r. x = Ok (y, r) \<longrightarrow> length r < k)"

definition leaves :: "nat \<Rightarrow> (sql_error, tokens) res \<Rightarrow> bool" where
  "leaves k x \<longleftrightarrow> answers x \<and> (\<forall>r. x = Ok r \<longrightarrow> length r < k)"

lemma answers_simps [simp]: "answers (Ok a)" "answers (Err e)" "\<not> answers Panic" "\<not> answers Undef"
  by (simp_all add: answers_def)

lemma within_simps [simp]: "within k (Ok (y, r)) \<longleftrightarrow> length r < k" "within k (Err e)" "within k (parse_err ts m)"
  by (auto simp: within_def parse_err_def)

lemma leaves_simps [simp]: "leaves k (Ok r) \<longleftrightarrow> length r < k" "leaves k (Err e)" "leaves k (parse_err ts m)"
  by (auto simp: leaves_def parse_err_def)

lemma within_bind:
  assumes "within j x" "\<And>y r. length r < j \<Longrightarrow> within k (f (y, r))"
  shows "within k (rbind x f)"
  using assms by (cases x) (auto simp: within_def answers_def)

lemma leaves_bind:
  assumes "leaves j x" "\<And>r. length r < j \<Longrightarrow> within k (f r)"
  shows "within k (rbind x f)"
  using assms by (cases x) (auto simp: within_def leaves_def answers_def)

lemma leaves_leaves:
  assumes "leaves j x" "\<And>r. length r < j \<Longrightarrow> leaves k (f r)"
  shows "leaves k (rbind x f)"
  using assms by (cases x) (auto simp: leaves_def answers_def)

lemma within_mono: "within j x \<Longrightarrow> j \<le> k \<Longrightarrow> within k x"
  by (fastforce simp: within_def)

lemma within_answers: "within k x \<Longrightarrow> answers x"
  by (simp add: within_def)

lemma expect_leaves [simp]: "t \<noteq> TEof \<Longrightarrow> leaves (length ts) (expect_token t m ts)"
  by (auto simp: expect_token_def peek_is)

lemma expect_open_leaves [simp]: "leaves (length ts) (expect_open w ts)"
  by (simp add: expect_open_def)

lemma expect_close_leaves [simp]: "leaves (length ts) (expect_close ts)"
  by (simp add: expect_close_def)

lemma expect_keyword_leaves [simp]: "leaves (length ts) (expect_keyword k ts)"
  by (auto simp: expect_keyword_def peek_is)

lemma accept_length: "length (snd (accept k ts)) \<le> length ts"
  by (auto simp: accept_def)

lemma parse_ident_within [simp]: "within (length ts) (parse_ident ts)"
  by (cases ts) (auto simp: parse_ident_def advance_def split: token.splits)

lemma parse_int_literal_within [simp]: "within (length ts) (parse_int_literal ts)"
  by (cases ts) (auto simp: parse_int_literal_def advance_def split: token.splits)

lemma comma_or_close_within [simp]: "within (length ts) (comma_or_close ts)"
  by (cases ts) (auto simp: comma_or_close_def advance_def split: token.splits)

lemma parse_column_within [simp]: "within (length ts) (parse_column ts)"
  unfolding parse_column_def
proof (rule within_bind [OF parse_ident_within])
  fix s and r :: tokens assume r: "length r < length ts"
  have "within (length ts) (rbind (parse_ident (tl r)) (\<lambda>(c, ts). Ok (Qualified s c, ts)))"
    by (rule within_bind [OF parse_ident_within]) (use r in simp)
  then show "within (length ts) (case (s, r) of (name, ts) \<Rightarrow> if peek ts = TDot then
      (if peek (tl ts) = TStar then Ok (Qualified name (str ''*''), tl (tl ts))
       else rbind (parse_ident (tl ts)) (\<lambda>(c, ts). Ok (Qualified name c, ts)))
    else Ok (Column name, ts))" using r by (simp add: less_imp_diff_less)
qed

section \<open>Expressions\<close>

definition enough :: "nat \<Rightarrow> bool" where
  "enough n \<longleftrightarrow> (\<forall>m ts. 4 * length ts + 2 \<le> n \<longrightarrow> within (length ts) (parse_expr n m ts)) \<and>
    (\<forall>m l ts. 4 * length ts + 1 \<le> n \<longrightarrow> within (Suc (length ts)) (expr_loop n m l ts)) \<and>
    (\<forall>ts. 4 * length ts + 1 \<le> n \<longrightarrow> within (length ts) (parse_prefix n ts)) \<and>
    (\<forall>f ts. 4 * length ts + 1 \<le> n \<longrightarrow> within (length ts) (parse_aggregate n f ts)) \<and>
    (\<forall>ts. 4 * length ts + 3 \<le> n \<longrightarrow> within (length ts) (parse_items n ts))"

lemma enoughD:
  "enough n \<Longrightarrow> 4 * length ts + 2 \<le> n \<Longrightarrow> within (length ts) (parse_expr n m ts)"
  "enough n \<Longrightarrow> 4 * length ts + 1 \<le> n \<Longrightarrow> within (Suc (length ts)) (expr_loop n m l ts)"
  "enough n \<Longrightarrow> 4 * length ts + 1 \<le> n \<Longrightarrow> within (length ts) (parse_prefix n ts)"
  "enough n \<Longrightarrow> 4 * length ts + 1 \<le> n \<Longrightarrow> within (length ts) (parse_aggregate n f ts)"
  "enough n \<Longrightarrow> 4 * length ts + 3 \<le> n \<Longrightarrow> within (length ts) (parse_items n ts)"
  by (simp_all add: enough_def)

lemma enough_expr: "enough n \<Longrightarrow> 4 * length ts + 2 \<le> Suc n \<Longrightarrow> within (length ts) (parse_expr (Suc n) m ts)"
  by (auto intro!: within_bind [OF enoughD(3)] within_mono [OF enoughD(2)])

lemma enough_items: "enough n \<Longrightarrow> 4 * length ts + 3 \<le> Suc n \<Longrightarrow> within (length ts) (parse_items (Suc n) ts)"
  by (auto intro!: within_bind [OF enoughD(1)] within_bind [OF comma_or_close_within] within_bind [OF enoughD(5)])

lemma enough_aggregate:
  assumes "enough n" "4 * length ts + 1 \<le> Suc n"
  shows "within (length ts) (parse_aggregate (Suc n) f ts)"
  unfolding parse_expr.simps parse_aggregate.simps
proof (rule leaves_bind [OF expect_open_leaves])
  fix r :: tokens assume r: "length r < length ts"
  obtain d t where t: "accept KwDistinct r = (d, t)" by (cases "accept KwDistinct r")
  have lt: "length t < length ts" using accept_length [of KwDistinct r] r t by simp
  have "within (length ts) (if peek t = TStar then Ok (Star, tl t) else parse_expr n 0 t)"
    using lt enoughD(1) [OF assms(1), of t 0] assms(2) by (auto intro: within_mono)
  then show "within (length ts) (let (d, ts) = accept KwDistinct r in
     rbind (if peek ts = TStar then Ok (Star, tl ts) else parse_expr n 0 ts) (\<lambda>(e, ts).
       rbind (expect_close ts) (\<lambda>ts. Ok (Aggregate f d e, ts))))"
    by (auto simp: t intro!: within_bind leaves_bind [OF expect_close_leaves])
qed

lemma enough_prefix:
  assumes "enough n" "4 * length ts + 1 \<le> Suc n"
  shows "within (length ts) (parse_prefix (Suc n) ts)"
proof (cases ts)
  case (Cons tp r)
  obtain t p where tp: "tp = (t, p)" by (cases tp)
  have e: "within (length r) (parse_expr n m r)" "within (length r) (parse_prefix n r)" "within (length r) (parse_aggregate n f r)" for m f
    using enoughD(1,3,4) [OF assms(1), of r] assms(2) Cons by auto
  have p: "within (Suc (length r)) (parse_column ((TIdent s, p) # r))" for s by (metis parse_column_within length_Cons)
  show ?thesis
    by (cases t) (auto simp: Cons tp p split: option.split
        intro!: within_bind [OF e(1)] within_bind [OF e(2)] leaves_bind [OF expect_close_leaves] within_mono [OF e(3)])
qed simp

lemma enough_loop:
  assumes "enough n" "4 * length ts + 1 \<le> Suc n"
  shows "within (Suc (length ts)) (expr_loop (Suc n) m l ts)"
proof (cases ts)
  case Nil
  then show ?thesis by (simp add: peek_binop_def)
next
  case (Cons tp r)
  obtain t p where tp: "tp = (t, p)" by (cases tp)
  have e: "length u \<le> length r \<Longrightarrow> within (length u) (parse_expr n k u)" "length u \<le> length r \<Longrightarrow> within (length u) (parse_prefix n u)"
    "length u \<le> length r \<Longrightarrow> within (length u) (parse_items n u)" for k u
    using enoughD(1,3,5) [OF assms(1), of u] assms(2) Cons by auto
  have lp: "length u \<le> length r \<Longrightarrow> within (Suc (Suc (length r))) (expr_loop n m k u)" for k u
    using enoughD(2) [OF assms(1), of u m k] assms(2) Cons by (auto intro: within_mono)
  have acc: "length (snd (accept KwNot r)) \<le> length r" by (rule accept_length)
  have k: "within (Suc (Suc (length r))) (rbind (expect_keyword KwNull (snd (accept KwNot r))) (\<lambda>ts. expr_loop n m x ts))" for x
    by (rule leaves_bind [OF expect_keyword_leaves], rule lp) (use acc in simp)
  have o: "within (Suc (Suc (length r))) (rbind (parse_expr n j r) (\<lambda>(x, ts). expr_loop n m (g x) ts))" for j g
    by (rule within_bind [OF e(1)], simp) (auto intro!: lp)
  have lk: "within (Suc (Suc (length r))) (rbind (parse_prefix n r) (\<lambda>(x, ts). expr_loop n m (Like l x) ts))"
    by (rule within_bind [OF e(2)], simp) (auto intro!: lp)
  have i: "within (Suc (Suc (length r))) (rbind (expect_open w r) (\<lambda>ts. rbind (parse_items n ts) (\<lambda>(es, ts). expr_loop n m (InList l es) ts)))" for w
    by (rule leaves_bind [OF expect_open_leaves], rule within_bind [OF e(3)]) (auto intro!: lp)
  have b: "within (Suc (Suc (length r))) (rbind (parse_expr n 3 r) (\<lambda>(lo, ts). rbind (expect_keyword KwAnd ts) (\<lambda>ts.
         rbind (parse_expr n 3 ts) (\<lambda>(hi, ts). expr_loop n m (Between l lo hi) ts))))"
    by (rule within_bind [OF e(1)], simp, simp, rule leaves_bind [OF expect_keyword_leaves], rule within_bind [OF e(1)]) (auto intro!: lp)
  show ?thesis
    using k o lk i b by (auto simp: Cons tp case_prod_beta' Let_def split: option.split)
qed

lemma enough: "enough n"
proof (induction n)
  case (Suc n)
  then show ?case unfolding enough_def [of "Suc n"]
    using enough_expr [OF Suc] enough_loop [OF Suc] enough_prefix [OF Suc] enough_aggregate [OF Suc] enough_items [OF Suc] by blast
qed (simp add: enough_def)

section \<open>Statements\<close>

lemma sql_expr_within [simp]: "within (length ts) (sql_expr ts)"
  unfolding sql_expr_def by (rule enoughD(1) [OF enough]) simp

text \<open>Lists of items that each take a token.\<close>

lemma comma_list_within:
  assumes "\<And>ts. within (length ts) (item ts)"
  shows "length ts < n \<Longrightarrow> within (length ts) (comma_list n item ts)"
proof (induction n arbitrary: ts)
  case (Suc n)
  show ?case unfolding comma_list.simps
  proof (rule within_bind [OF assms])
    fix x and r :: tokens assume r: "length r < length ts"
    have "peek r = TComma \<Longrightarrow> length (tl r) < length r" by (cases r) auto
    then have "peek r = TComma \<Longrightarrow> within (length ts) (rbind (comma_list n item (tl r)) (\<lambda>(xs, ts). Ok (x # xs, ts)))"
      using r Suc.prems by (intro within_bind [OF Suc.IH]) auto
    then show "within (length ts) (case (x, r) of (x, ts) \<Rightarrow>
        if peek ts = TComma then rbind (comma_list n item (tl ts)) (\<lambda>(xs, ts). Ok (x # xs, ts)) else Ok ([x], ts))"
      using r by simp
  qed
qed simp

lemma closed_list_within:
  assumes "\<And>ts. within (length ts) (item ts)"
  shows "length ts < n \<Longrightarrow> within (length ts) (closed_list n item ts)"
proof (induction n arbitrary: ts)
  case (Suc n)
  then show ?case
    by (auto intro!: within_bind [OF assms] within_bind [OF comma_or_close_within] within_bind [OF Suc.IH])
qed simp

lemma comma_separated_within: "(\<And>ts. within (length ts) (item ts)) \<Longrightarrow> within (length ts) (comma_separated item ts)"
  unfolding comma_separated_def by (rule comma_list_within) auto

lemma until_close_within: "(\<And>ts. within (length ts) (item ts)) \<Longrightarrow> within (length ts) (until_close item ts)"
  unfolding until_close_def by (rule closed_list_within) auto

lemma optional_clause_within: "(\<And>ts. within (length ts) (p ts)) \<Longrightarrow> within (Suc (length ts)) (optional_clause k p ts)"
  by (auto simp: optional_clause_def peek_is intro!: within_bind)

lemma parse_optional_alias_within [simp]: "within (Suc (length ts)) (parse_optional_alias ts)"
proof (cases ts)
  case (Cons tp r)
  obtain t p where tp: "tp = (t, p)" by (cases tp)
  have i: "within (Suc (length r)) (parse_ident ((t, p) # r))" by (metis parse_ident_within length_Cons)
  show ?thesis by (cases t) (auto simp: parse_optional_alias_def Cons tp intro!: within_bind [OF i [unfolded tp]] within_bind [OF parse_ident_within])
qed (simp add: parse_optional_alias_def)

lemma parse_select_item_within: "within (length ts) (parse_select_item ts)"
  by (auto simp: parse_select_item_def peek_is intro!: within_bind [OF sql_expr_within] within_bind [OF parse_optional_alias_within])

lemma parse_join_kind_within: "within (length ts) (parse_join_kind ts)"
  by (cases ts) (auto simp: parse_join_kind_def advance_def intro!: leaves_bind [OF expect_keyword_leaves])

lemma parse_join_within: "within (length ts) (parse_join ts)"
  unfolding parse_join_def
  by (rule within_bind [OF parse_join_kind_within])
    (auto intro!: within_bind [OF parse_ident_within] within_bind [OF parse_optional_alias_within]
      leaves_bind [OF expect_keyword_leaves] within_bind [OF sql_expr_within])

lemma parse_joins_within: "length ts < n \<Longrightarrow> within (Suc (length ts)) (parse_joins n ts)"
proof (induction n arbitrary: ts)
  case (Suc n)
  then show ?case by (auto intro!: within_bind [OF parse_join_within] within_bind [OF Suc.IH])
qed simp

lemma parse_from_within: "within (Suc (length ts)) (parse_from ts)"
  by (auto simp: parse_from_def simp del: parse_joins.simps intro!: within_bind [OF parse_ident_within] within_bind [OF parse_optional_alias_within]
      within_bind [OF parse_joins_within])

lemma parse_group_by_within: "within (Suc (length ts)) (parse_group_by ts)"
  by (auto simp: parse_group_by_def intro!: leaves_bind [OF expect_keyword_leaves] within_mono [OF comma_separated_within])

lemma parse_order_item_within: "within (length ts) (parse_order_item ts)"
  by (auto simp: parse_order_item_def intro!: within_bind [OF sql_expr_within])

lemma parse_order_by_within: "within (Suc (length ts)) (parse_order_by ts)"
  by (auto simp: parse_order_by_def intro!: leaves_bind [OF expect_keyword_leaves] within_mono [OF comma_separated_within] parse_order_item_within)

lemmas clause_rules = within_bind [OF optional_clause_within] within_bind [OF parse_group_by_within]
  within_bind [OF parse_order_by_within] within_bind [OF parse_from_within] within_bind [OF parse_ident_within]
  within_bind [OF sql_expr_within] leaves_bind [OF expect_keyword_leaves] leaves_bind [OF expect_open_leaves] leaves_bind [OF expect_leaves]

lemma parse_select_within: "within (length ts) (parse_select ts)"
  unfolding parse_select_def
proof (rule leaves_bind [OF expect_keyword_leaves])
  fix r :: tokens assume r: "length r < length ts"
  obtain d t where t: "accept KwDistinct r = (d, t)" by (cases "accept KwDistinct r")
  have "length t < length ts" using accept_length [of KwDistinct r] t r by simp
  then show "within (length ts) (let (d, ts) = accept KwDistinct r in
     rbind (comma_separated parse_select_item ts) (\<lambda>(items, ts).
     rbind (parse_from ts) (\<lambda>((t, a, js), ts).
     rbind (optional_clause KwWhere sql_expr ts) (\<lambda>(w, ts).
     rbind (parse_group_by ts) (\<lambda>(g, ts).
     rbind (optional_clause KwHaving sql_expr ts) (\<lambda>(h, ts).
     rbind (parse_order_by ts) (\<lambda>(ob, ts).
     rbind (optional_clause KwLimit parse_int_literal ts) (\<lambda>(l, ts).
     rbind (optional_clause KwOffset parse_int_literal ts) (\<lambda>(f, ts).
       Ok (\<lparr>sl_distinct = d, sl_items = items, sl_from = t, sl_from_alias = a, sl_joins = js, sl_filter = w,
            sl_group_by = g, sl_having = h, sl_order_by = ob, sl_limit = l, sl_offset = f\<rparr>, ts))))))))))"
    unfolding t Let_def prod.case
    by (intro within_bind [OF comma_separated_within [OF parse_select_item_within]]) (auto intro!: clause_rules)
qed

lemma parse_row_within: "within (length ts) (parse_row ts)"
  unfolding parse_row_def by (rule leaves_bind [OF expect_open_leaves]) (auto intro!: within_mono [OF until_close_within])

lemma parse_insert_within: "within (length ts) (parse_insert_stmt ts)"
proof -
  have c: "within (Suc (length ts)) (if peek ts = TLParen then until_close parse_ident (tl ts) else Ok ([], ts))" for ts
    by (auto intro!: within_mono [OF until_close_within])
  show ?thesis unfolding parse_insert_stmt_def
    by (intro leaves_bind [OF expect_keyword_leaves]) (auto intro!: clause_rules within_bind [OF c] within_bind [OF comma_separated_within [OF parse_row_within]])
qed

lemma parse_assignment_within: "within (length ts) (parse_assignment ts)"
  unfolding parse_assignment_def by (rule within_bind [OF parse_ident_within]) (auto intro!: clause_rules)

lemma parse_update_within: "within (length ts) (parse_update_stmt ts)"
  unfolding parse_update_stmt_def
  by (intro leaves_bind [OF expect_keyword_leaves]) (auto intro!: clause_rules within_bind [OF comma_separated_within [OF parse_assignment_within]])

lemma parse_delete_within: "within (length ts) (parse_delete_stmt ts)"
  unfolding parse_delete_stmt_def by (intro leaves_bind [OF expect_keyword_leaves]) (auto intro!: clause_rules)

lemma column_options_within: "length ts < n \<Longrightarrow> within (Suc (length ts)) (column_options n nn pk ts)"
proof (induction n arbitrary: nn pk ts)
  case (Suc n)
  show ?case
  proof (cases ts)
    case (Cons tp r)
    obtain t p where tp: "tp = (t, p)" by (cases tp)
    have o: "length u \<le> length r \<Longrightarrow> within (Suc (Suc (length r))) (column_options n a b u)" for a b u
      using Suc.IH [of u a b] Suc.prems Cons by (auto intro: within_mono)
    show ?thesis
      by (cases t) (auto simp: Cons tp intro!: leaves_bind [OF expect_keyword_leaves] o split: token.split)
  qed simp
qed simp

lemma parse_column_type_within: "within (length ts) (parse_column_type ts)"
  by (cases ts) (auto simp: parse_column_type_def advance_def)

lemma parse_column_spec_within: "within (length ts) (parse_column_spec ts)"
  unfolding parse_column_spec_def
  by (rule within_bind [OF parse_ident_within]) (auto simp del: column_options.simps intro!: within_bind [OF parse_column_type_within] within_bind [OF column_options_within])

lemma parse_create_within: "within (length ts) (parse_create ts)"
  unfolding parse_create_def
  by (intro leaves_bind [OF expect_keyword_leaves]) (auto intro!: clause_rules within_bind [OF until_close_within [OF parse_column_spec_within]])

lemma parse_drop_within: "within (length ts) (parse_drop ts)"
  unfolding parse_drop_def by (intro leaves_bind [OF expect_keyword_leaves]) (auto intro!: within_mono [OF parse_ident_within])

lemma as_statement_within: "within k p \<Longrightarrow> within k (as_statement f p)"
  unfolding as_statement_def by (rule within_bind) auto

lemma parse_statement_within: "within (length ts) (parse_sql ts)"
  unfolding parse_sql_def
  by (rule within_bind [of "length ts"])
    (auto intro!: as_statement_within parse_select_within parse_insert_within parse_update_within parse_delete_within
      parse_create_within parse_drop_within)

lemma script_loop_answers: "length ts < n \<Longrightarrow> answers (script_loop n ts)"
proof (induction n arbitrary: ts)
  case (Suc n)
  have w: "answers (rbind x f)" if "within (length ts) x" "\<And>y r. length r < length ts \<Longrightarrow> answers (f (y, r))" for x :: "sql_statement parsed" and f :: "_ \<Rightarrow> (sql_error, 'b) res"
    using that by (cases x) (auto simp: within_def)
  have b: "answers (rbind (script_loop n r) (\<lambda>ss. Ok (s # ss)))" if "length r < length ts" for r s
    using Suc.IH [of r] that Suc.prems by (cases "script_loop n r") auto
  show ?case by (auto intro!: w [OF parse_statement_within] b)
qed simp

lemma answers_bind: "answers x \<Longrightarrow> (\<And>y. x = Ok y \<Longrightarrow> answers (f y)) \<Longrightarrow> answers (rbind x f)"
  by (cases x) auto

lemma string_body_answers: "answers (string_body n bs)"
proof (induction n bs rule: string_body.induct)
  case (2 n b bs)
  have r: "answers (rbind x (\<lambda>(s, r). Ok (f s, r)))" if "answers x" for x :: "(sql_error, rstr \<times> u8 list) res" and f :: "rstr \<Rightarrow> rstr"
    using that by (auto intro!: answers_bind)
  have q: "answers (case bs of c # cs \<Rightarrow> if c = 39 then rbind (string_body n cs) (\<lambda>(s, r). Ok (39 # s, r)) else Ok ([], bs) | [] \<Rightarrow> Ok ([], []))"
    if "b = 39" using 2(1) that r by (cases bs) simp_all
  show ?case unfolding string_body.simps(2) using q r 2(2) by simp
qed (simp add: lex_err_def)

lemma quoted_body_answers: "answers (quoted_body n bs)"
  by (induction n bs rule: quoted_body.induct) (auto simp: lex_err_def intro!: answers_bind)

lemma lex_number_answers: "answers (lex_number n bs)"
  by (simp add: lex_number_def lex_err_def Let_def case_prod_beta split: option.split)

lemma next_token_answers: "answers (sql_next_token n bs)"
proof -
  have s: "answers (rbind (string_body n r) (\<lambda>(s, r). Ok (TStr s, r)))" "answers (rbind (quoted_body n r) (\<lambda>(s, r). Ok (TIdent s, r)))" for r
    by (auto intro!: answers_bind string_body_answers quoted_body_answers)
  show ?thesis
  proof (cases bs)
    case (Cons b r)
    show ?thesis unfolding sql_next_token_def Cons list.case lex_err_def
      by (cases "map_of single_tokens b"; cases r) (simp_all add: lex_number_answers s del: string_body.simps quoted_body.simps)
  qed (simp add: sql_next_token_def)
qed

lemma tokens_from_answers: "answers (tokens_from n bs)"
proof (induction n bs rule: tokens_from.induct)
  case (1 n bs)
  show ?case
  proof (cases "sql_next_token n (skip_ws_and_comments bs)")
    case (Ok p)
    obtain t r where p: "p = (t, r)" by (cases p)
    show ?thesis
    proof (cases "t = TEof")
      case True
      then show ?thesis by (subst tokens_from.simps) (simp add: Ok p)
    next
      case False
      have "answers (tokens_from n r)" by (rule "1.IH" [OF refl Ok p [symmetric] False])
      then show ?thesis by (subst tokens_from.simps) (simp add: Ok p False answers_bind)
    qed
  qed (use next_token_answers [of n "skip_ws_and_comments bs"] in \<open>subst tokens_from.simps, simp\<close>)+
qed

lemma parse_script_answers: "answers (parse_script src)"
  using tokens_from_answers [of "length src" src] script_loop_answers
  by (cases "tokenize src") (auto simp: parse_script_def tokenize_def simp del: script_loop.simps)

end
