(* ===== verification/SqlPrints.thy ===== *)
theory SqlPrints
  imports SqlFuel
begin

text \<open>
  Printing statements back to tokens, with the parentheses the parser needs and no others, and the
  round trip through the parser. A binary operation stands without parentheses where its precedence
  allows; the postfix conditions take an operand that needs no operator, as the parser reads them.
\<close>

section \<open>More fuel changes nothing\<close>

definition flat_le :: "('e, 'a) res \<Rightarrow> ('e, 'a) res \<Rightarrow> bool" where
  "flat_le x y \<longleftrightarrow> x = Undef \<or> x = y"

lemma flat_le_refl [simp]: "flat_le x x" "flat_le Undef x"
  by (simp_all add: flat_le_def)

lemma flat_le_bind: "flat_le x y \<Longrightarrow> (\<And>v. flat_le (f v) (g v)) \<Longrightarrow> flat_le (rbind x f) (rbind y g)"
  by (cases x; cases y) (auto simp: flat_le_def)

lemma flat_le_pair: "flat_le x y \<Longrightarrow> (\<And>v r. flat_le (f v r) (g v r)) \<Longrightarrow> flat_le (rbind x (\<lambda>(v, r). f v r)) (rbind y (\<lambda>(v, r). g v r))"
  by (rule flat_le_bind) auto

lemma flat_le_if: "flat_le x x' \<Longrightarrow> flat_le y y' \<Longrightarrow> flat_le (if c then x else y) (if c then x' else y')"
  by simp

lemma flat_le_let: "(\<And>v r. flat_le (f v r) (g v r)) \<Longrightarrow> flat_le (let (v, r) = p in f v r) (let (v, r) = p in g v r)"
  by (simp add: case_prod_beta)

lemma flat_le_option: "flat_le x x' \<Longrightarrow> (\<And>v. flat_le (f v) (g v)) \<Longrightarrow> flat_le (case z of None \<Rightarrow> x | Some v \<Rightarrow> f v) (case z of None \<Rightarrow> x' | Some v \<Rightarrow> g v)"
  by (cases z) auto

lemmas flat_le_rules = flat_le_refl(1) flat_le_pair flat_le_if flat_le_let flat_le_option flat_le_bind

definition more_fuel :: "nat \<Rightarrow> bool" where
  "more_fuel n \<longleftrightarrow> (\<forall>m ts. flat_le (parse_expr n m ts) (parse_expr (Suc n) m ts)) \<and>
    (\<forall>m l ts. flat_le (expr_loop n m l ts) (expr_loop (Suc n) m l ts)) \<and>
    (\<forall>ts. flat_le (parse_prefix n ts) (parse_prefix (Suc n) ts)) \<and>
    (\<forall>f ts. flat_le (parse_aggregate n f ts) (parse_aggregate (Suc n) f ts)) \<and>
    (\<forall>ts. flat_le (parse_items n ts) (parse_items (Suc n) ts))"

lemma more_fuelD:
  assumes "more_fuel n"
  shows "flat_le (parse_expr n m ts) (parse_expr (Suc n) m ts)" "flat_le (expr_loop n m l ts) (expr_loop (Suc n) m l ts)"
    "flat_le (parse_prefix n ts) (parse_prefix (Suc n) ts)" "flat_le (parse_aggregate n f ts) (parse_aggregate (Suc n) f ts)"
    "flat_le (parse_items n ts) (parse_items (Suc n) ts)"
  using assms by (simp_all add: more_fuel_def)

lemma more_fuel: "more_fuel n"
proof (induction n)
  case (Suc n)
  obtain k where k: "k = Suc n" by blast
  note d = more_fuelD [OF Suc, folded k]
  have 1: "flat_le (parse_expr (Suc n) m ts) (parse_expr (Suc k) m ts)" for m ts
    unfolding parse_expr.simps(2) by (intro d flat_le_rules)
  have 2: "flat_le (expr_loop (Suc n) m l ts) (expr_loop (Suc k) m l ts)" for m l ts
    unfolding expr_loop.simps(2) by (intro d flat_le_rules)
  have 3: "flat_le (parse_prefix (Suc n) ts) (parse_prefix (Suc k) ts)" for ts
    unfolding parse_prefix.simps(2) by (cases "peek ts"; simp only: token.case) (intro d flat_le_rules)+
  have 4: "flat_le (parse_aggregate (Suc n) f ts) (parse_aggregate (Suc k) f ts)" for f ts
    unfolding parse_aggregate.simps(2) by (intro d flat_le_rules)
  have 5: "flat_le (parse_items (Suc n) ts) (parse_items (Suc k) ts)" for ts
    unfolding parse_items.simps(2) by (intro d flat_le_rules)
  show ?case unfolding more_fuel_def using 1 2 3 4 5 unfolding k by blast
qed (simp add: more_fuel_def)

text \<open>What the parser returns from some fuel on, it returns with enough.\<close>

definition evals :: "(nat \<Rightarrow> ('e, 'a) res) \<Rightarrow> ('e, 'a) res \<Rightarrow> bool" where
  "evals f x \<longleftrightarrow> (\<exists>k. \<forall>n \<ge> k. f n = x)"

lemma evals_const [simp]: "evals (\<lambda>n. x) x"
  by (simp add: evals_def)

lemma evals_Suc: "evals (\<lambda>n. f (Suc n)) x \<Longrightarrow> evals f x"
  unfolding evals_def by (metis Suc_le_D Suc_le_mono)

lemma evals_bind: "evals f (Ok y) \<Longrightarrow> evals (\<lambda>n. g n y) x \<Longrightarrow> evals (\<lambda>n. rbind (f n) (g n)) x"
proof -
  assume "evals f (Ok y)" "evals (\<lambda>n. g n y) x"
  then obtain k j where "\<forall>n \<ge> k. f n = Ok y" "\<forall>n \<ge> j. g n y = x" unfolding evals_def by blast
  then have "\<forall>n \<ge> max k j. rbind (f n) (g n) = x" by simp
  then show ?thesis unfolding evals_def by blast
qed

lemma evals_pair: "evals f (Ok (y, r)) \<Longrightarrow> evals (\<lambda>n. g n y r) x \<Longrightarrow> evals (\<lambda>n. rbind (f n) (\<lambda>(y, r). g n y r)) x"
  by (rule evals_bind [where y = "(y, r)"]) auto

lemma flat_le_steps:
  assumes "\<And>n. flat_le (f n) (f (Suc n))" "f n \<noteq> Undef" "n \<le> j"
  shows "f j = f n"
  using assms(3)
proof (induction rule: dec_induct)
  case (step i)
  then show ?case using assms(1) [of i] assms(2) by (auto simp: flat_le_def)
qed simp

lemma evals_sql_expr: "evals (\<lambda>n. parse_expr n 0 ts) x \<Longrightarrow> sql_expr ts = x"
proof -
  assume "evals (\<lambda>n. parse_expr n 0 ts) x"
  then obtain k where k: "\<forall>n \<ge> k. parse_expr n 0 ts = x" unfolding evals_def by blast
  let ?n = "4 * length ts + 4"
  have "parse_expr ?n 0 ts \<noteq> Undef" using enoughD(1) [OF enough, of ts ?n 0] by (simp add: within_def answers_def)
  from flat_le_steps [of "\<lambda>n. parse_expr n 0 ts", OF more_fuelD(1) [OF more_fuel] this, of "max k ?n"]
  show "sql_expr ts = x" using k by (simp add: sql_expr_def)
qed

section \<open>Printing expressions\<close>

fun op_token :: "bin_op \<Rightarrow> token" where
  "op_token Add = TPlus" | "op_token Sub = TMinus" | "op_token Mul = TStar" | "op_token Div = TSlash"
| "op_token Mod = TPercent" | "op_token Eq = TEq" | "op_token NotEq = TNotEq" | "op_token Lt = TLt"
| "op_token LtEq = TLtEq" | "op_token Gt = TGt" | "op_token GtEq = TGtEq" | "op_token And = TKeyword KwAnd"
| "op_token Or = TKeyword KwOr"

fun agg_token :: "agg_func \<Rightarrow> token" where
  "agg_token AggCount = TKeyword KwCount" | "agg_token AggSum = TKeyword KwSum" | "agg_token AggAvg = TKeyword KwAvg"
| "agg_token AggMin = TKeyword KwMin" | "agg_token AggMax = TKeyword KwMax"

text \<open>How tightly an expression holds together: its precedence, 6 for the postfix conditions, 7 for a prefix.\<close>

fun lev :: "expr \<Rightarrow> nat" where
  "lev (Binary op a b) = precedence op"
| "lev (Unary Not e) = 0"
| "lev (Between e lo hi) = 0"
| "lev (IsNull e neg) = 6"
| "lev (Like a b) = 6"
| "lev (InList e es) = 6"
| "lev e = 7"

definition paren :: "nat \<Rightarrow> expr \<Rightarrow> token list \<Rightarrow> token list" where
  "paren p e xs = (if lev e < p then TLParen # xs @ [TRParen] else xs)"

fun joined_by :: "'a \<Rightarrow> 'a list list \<Rightarrow> 'a list" where
  "joined_by c [] = []"
| "joined_by c [x] = x"
| "joined_by c (x # xs) = x @ c # joined_by c xs"

fun print_expr :: "expr \<Rightarrow> token list" where
  "print_expr (Column c) = [TIdent c]"
| "print_expr (Qualified q c) = [TIdent q, TDot, TIdent c]"
| "print_expr (LitInt i) = [TInt i]"
| "print_expr (LitReal r) = [TReal r]"
| "print_expr (LitStr s) = [TStr s]"
| "print_expr (LitBool b) = [TKeyword (if b then KwTrue else KwFalse)]"
| "print_expr NullLit = [TKeyword KwNull]"
| "print_expr Star = [TStar]"
| "print_expr (Unary Neg e) = TMinus # paren 7 e (print_expr e)"
| "print_expr (Unary Not e) = TKeyword KwNot # paren 2 e (print_expr e)"
| "print_expr (Binary op a b) = paren (precedence op) a (print_expr a) @ op_token op # paren (precedence op + 1) b (print_expr b)"
| "print_expr (IsNull e neg) = paren 6 e (print_expr e) @ TKeyword KwIs # (if neg then [TKeyword KwNot] else []) @ [TKeyword KwNull]"
| "print_expr (Like a b) = paren 6 a (print_expr a) @ TKeyword KwLike # paren 7 b (print_expr b)"
| "print_expr (Between e lo hi) = paren 6 e (print_expr e) @ TKeyword KwBetween # paren 3 lo (print_expr lo) @ TKeyword KwAnd # paren 3 hi (print_expr hi)"
| "print_expr (InList e es) = paren 6 e (print_expr e) @ TKeyword KwIn # TLParen # joined_by TComma (map print_expr es) @ [TRParen]"
| "print_expr (Aggregate f d e) = agg_token f # TLParen # (if d then [TKeyword KwDistinct] else []) @ print_expr e @ [TRParen]"

text \<open>The expressions the parser can return: the star is an argument of an aggregate, and lists have items.\<close>

fun printable_expr :: "expr \<Rightarrow> bool" where
  "printable_expr Star = False"
| "printable_expr (Unary u e) = printable_expr e"
| "printable_expr (Binary op a b) = (printable_expr a \<and> printable_expr b)"
| "printable_expr (IsNull e neg) = printable_expr e"
| "printable_expr (Like a b) = (printable_expr a \<and> printable_expr b)"
| "printable_expr (Between e lo hi) = (printable_expr e \<and> printable_expr lo \<and> printable_expr hi)"
| "printable_expr (InList e es) = (printable_expr e \<and> es \<noteq> [] \<and> (\<forall>x \<in> set es. printable_expr x))"
| "printable_expr (Aggregate f d e) = (e = Star \<or> printable_expr e)"
| "printable_expr e = True"

section \<open>Rules of the parser\<close>

definition stops :: "nat \<Rightarrow> tokens \<Rightarrow> bool" where
  "stops m ts \<longleftrightarrow> peek ts \<notin> {TKeyword KwIs, TKeyword KwLike, TKeyword KwBetween, TKeyword KwIn} \<and>
    (case peek_binop ts of None \<Rightarrow> True | Some op \<Rightarrow> precedence op < m)"

lemma stops_mono: "stops k ts \<Longrightarrow> k \<le> m \<Longrightarrow> stops m ts"
  by (auto simp: stops_def split: option.splits)

abbreviation "ev_expr m ts x \<equiv> evals (\<lambda>n. parse_expr n m ts) x"
abbreviation "ev_loop m l ts x \<equiv> evals (\<lambda>n. expr_loop n m l ts) x"
abbreviation "ev_prefix ts x \<equiv> evals (\<lambda>n. parse_prefix n ts) x"
abbreviation "ev_items ts x \<equiv> evals (\<lambda>n. parse_items n ts) x"

lemma ev_expr: "ev_prefix ts (Ok (l, r)) \<Longrightarrow> ev_loop m l r x \<Longrightarrow> ev_expr m ts x"
  by (rule evals_Suc) (simp add: evals_pair)

lemma ev_loop_stops: "stops m ts \<Longrightarrow> ev_loop m l ts (Ok (l, ts))"
  by (rule evals_Suc) (cases "peek_binop ts"; auto simp: stops_def)

lemma ev_loop_binop:
  assumes "m \<le> precedence op" "ev_expr (precedence op + 1) ts (Ok (r, u))" "ev_loop m (Binary op l r) u x"
  shows "ev_loop m l ((op_token op, p) # ts) x"
proof -
  have b: "peek_binop ((op_token op, p) # ts) = Some op" "op_token op \<notin> {TKeyword KwIs, TKeyword KwLike, TKeyword KwBetween, TKeyword KwIn}"
    by (cases op; simp add: peek_binop_def)+
  show ?thesis by (rule evals_Suc) (use b assms in \<open>simp add: evals_pair\<close>)
qed

lemma ev_loop_is_null:
  "ev_loop m (IsNull l False) ts x \<Longrightarrow> ev_loop m l ((TKeyword KwIs, p) # (TKeyword KwNull, q) # ts) x"
  "ev_loop m (IsNull l True) ts x \<Longrightarrow> ev_loop m l ((TKeyword KwIs, p) # (TKeyword KwNot, o') # (TKeyword KwNull, q) # ts) x"
  by (rule evals_Suc, simp add: accept_def expect_keyword_def)+

lemma ev_loop_like: "ev_prefix ts (Ok (r, u)) \<Longrightarrow> ev_loop m (Like l r) u x \<Longrightarrow> ev_loop m l ((TKeyword KwLike, p) # ts) x"
  by (rule evals_Suc) (simp add: evals_pair)

lemma ev_loop_between:
  assumes "ev_expr 3 ts (Ok (lo, (TKeyword KwAnd, q) # u))" "ev_expr 3 u (Ok (hi, v))" "ev_loop m (Between l lo hi) v x"
  shows "ev_loop m l ((TKeyword KwBetween, p) # ts) x"
proof (rule evals_Suc)
  have "evals (\<lambda>n. rbind (parse_expr n 3 ts) (\<lambda>(lo, ts). rbind (expect_keyword KwAnd ts) (\<lambda>ts.
      rbind (parse_expr n 3 ts) (\<lambda>(hi, ts). expr_loop n m (Between l lo hi) ts)))) x"
    by (rule evals_pair [OF assms(1)]) (simp add: expect_keyword_def, rule evals_pair [OF assms(2)], rule assms(3))
  then show "evals (\<lambda>n. expr_loop (Suc n) m l ((TKeyword KwBetween, p) # ts)) x" by simp
qed

lemma ev_loop_in: "ev_items ts (Ok (es, u)) \<Longrightarrow> ev_loop m (InList l es) u x \<Longrightarrow> ev_loop m l ((TKeyword KwIn, p) # (TLParen, q) # ts) x"
  by (rule evals_Suc) (simp add: expect_open_def expect_token_def evals_pair)

lemma ev_items_last: "ev_expr 0 ts (Ok (e, (TRParen, p) # u)) \<Longrightarrow> ev_items ts (Ok ([e], u))"
  by (rule evals_Suc) (simp add: evals_pair comma_or_close_def advance_def)

lemma ev_items_more:
  assumes "ev_expr 0 ts (Ok (e, (TComma, p) # u))" "ev_items u (Ok (es, v))"
  shows "ev_items ts (Ok (e # es, v))"
proof (rule evals_Suc)
  have "evals (\<lambda>n. rbind (parse_expr n 0 ts) (\<lambda>(e, ts). rbind (comma_or_close ts) (\<lambda>(more, ts).
     if more then rbind (parse_items n ts) (\<lambda>(es, ts). Ok (e # es, ts)) else Ok ([e], ts)))) (Ok (e # es, v))"
    by (rule evals_pair [OF assms(1)]) (simp add: comma_or_close_def advance_def evals_pair [OF assms(2)])
  then show "evals (\<lambda>n. parse_items (Suc n) ts) (Ok (e # es, v))" by simp
qed

lemma ev_prefix_paren: "ev_expr 0 ts (Ok (e, (TRParen, q) # u)) \<Longrightarrow> ev_prefix ((TLParen, p) # ts) (Ok (e, u))"
  by (rule evals_Suc) (simp add: evals_pair expect_close_def expect_token_def)

lemma ev_prefix_neg: "ev_prefix ts (Ok (e, u)) \<Longrightarrow> ev_prefix ((TMinus, p) # ts) (Ok (Unary Neg e, u))"
  by (rule evals_Suc) (simp add: evals_pair)

lemma ev_prefix_not: "ev_expr 2 ts (Ok (e, u)) \<Longrightarrow> ev_prefix ((TKeyword KwNot, p) # ts) (Ok (Unary Not e, u))"
  by (rule evals_Suc) (simp add: evals_pair)

lemma ev_prefix_column:
  "peek ts \<noteq> TDot \<Longrightarrow> ev_prefix ((TIdent c, p) # ts) (Ok (Column c, ts))"
  "ev_prefix ((TIdent t, p) # (TDot, q) # (TIdent c, w) # ts) (Ok (Qualified t c, ts))"
  by (rule evals_Suc, simp add: parse_column_def parse_ident_def advance_def)+

lemma ev_prefix_literal:
  "ev_prefix ((TInt i, p) # ts) (Ok (LitInt i, ts))" "ev_prefix ((TReal r, p) # ts) (Ok (LitReal r, ts))"
  "ev_prefix ((TStr s, p) # ts) (Ok (LitStr s, ts))" "ev_prefix ((TKeyword KwTrue, p) # ts) (Ok (LitBool True, ts))"
  "ev_prefix ((TKeyword KwFalse, p) # ts) (Ok (LitBool False, ts))" "ev_prefix ((TKeyword KwNull, p) # ts) (Ok (NullLit, ts))"
  by (rule evals_Suc, simp)+

lemma ev_prefix_aggregate:
  assumes "ev_expr 0 ts (Ok (e, (TRParen, w) # u)) \<and> peek ts \<notin> {TStar, TKeyword KwDistinct} \<or> e = Star \<and> (\<exists>s. ts = (TStar, s) # (TRParen, w) # u)"
  shows "ev_prefix ((agg_token f, p) # (TLParen, q) # ts) (Ok (Aggregate f False e, u))"
    "ev_prefix ((agg_token f, p) # (TLParen, q) # (TKeyword KwDistinct, z) # ts) (Ok (Aggregate f True e, u))"
proof -
  have arg: "evals (\<lambda>n. if peek ts = TStar then Ok (Star, tl ts) else parse_expr n 0 ts) (Ok (e, (TRParen, w) # u))"
    using assms by auto
  have a: "evals (\<lambda>n. rbind (if peek ts = TStar then Ok (Star, tl ts) else parse_expr n 0 ts) (\<lambda>(e, ts).
       rbind (expect_close ts) (\<lambda>ts. Ok (Aggregate f d e, ts)))) (Ok (Aggregate f d e, u))" for d
    by (rule evals_pair [OF arg]) (simp add: expect_close_def expect_token_def)
  have d: "peek ts \<noteq> TKeyword KwDistinct" using assms by auto
  obtain k where k: "agg_token f = TKeyword k" "agg_keyword k = Some f" "k \<notin> {KwNot, KwTrue, KwFalse, KwNull}"
    by (cases f) (auto simp: agg_keyword_def)
  show "ev_prefix ((agg_token f, p) # (TLParen, q) # ts) (Ok (Aggregate f False e, u))"
  proof (rule evals_Suc)
    have "evals (\<lambda>n. parse_aggregate n f ((TLParen, q) # ts)) (Ok (Aggregate f False e, u))"
      by (rule evals_Suc) (simp add: expect_open_def expect_token_def accept_def d a)
    then show "evals (\<lambda>n. parse_prefix (Suc n) ((agg_token f, p) # (TLParen, q) # ts)) (Ok (Aggregate f False e, u))"
      using k by simp
  qed
  show "ev_prefix ((agg_token f, p) # (TLParen, q) # (TKeyword KwDistinct, z) # ts) (Ok (Aggregate f True e, u))"
  proof (rule evals_Suc)
    have "evals (\<lambda>n. parse_aggregate n f ((TLParen, q) # (TKeyword KwDistinct, z) # ts)) (Ok (Aggregate f True e, u))"
      by (rule evals_Suc) (simp add: expect_open_def expect_token_def accept_def a)
    then show "evals (\<lambda>n. parse_prefix (Suc n) ((agg_token f, p) # (TLParen, q) # (TKeyword KwDistinct, z) # ts)) (Ok (Aggregate f True e, u))"
      using k by simp
  qed
qed

section \<open>The round trip of expressions\<close>

text \<open>Tokens, whatever their positions.\<close>

abbreviation tagged :: "tokens \<Rightarrow> token list \<Rightarrow> bool" where
  "tagged ts xs \<equiv> map fst ts = xs"

lemma tagged_Cons: "tagged ts (t # xs) \<longleftrightarrow> (\<exists>p us. ts = (t, p) # us \<and> tagged us xs)"
  by auto

lemma tagged_append: "tagged ts (xs @ ys) \<longleftrightarrow> (\<exists>us vs. ts = us @ vs \<and> tagged us xs \<and> tagged vs ys)"
  by (auto simp: map_eq_append_conv)

definition reads :: "expr \<Rightarrow> tokens \<Rightarrow> bool" where
  "reads e ts \<longleftrightarrow> (\<forall>rest m x. m \<le> lev e \<longrightarrow> (lev e < 6 \<longrightarrow> stops (Suc (lev e)) rest) \<longrightarrow> peek rest \<noteq> TDot \<longrightarrow>
     ev_loop m e rest x \<longrightarrow> ev_expr m (ts @ rest) x) \<and>
    (lev e = 7 \<longrightarrow> (\<forall>rest. peek rest \<noteq> TDot \<longrightarrow> ev_prefix (ts @ rest) (Ok (e, rest))))"

text \<open>An expression printed where \<open>p\<close> is asked for.\<close>

definition reads_at :: "nat \<Rightarrow> expr \<Rightarrow> tokens \<Rightarrow> bool" where
  "reads_at p e ts \<longleftrightarrow> (\<forall>rest m x. m \<le> p \<longrightarrow> (p < 6 \<longrightarrow> stops (Suc p) rest) \<longrightarrow> peek rest \<noteq> TDot \<longrightarrow>
     ev_loop m e rest x \<longrightarrow> ev_expr m (ts @ rest) x) \<and>
    (p = 7 \<longrightarrow> (\<forall>rest. peek rest \<noteq> TDot \<longrightarrow> ev_prefix (ts @ rest) (Ok (e, rest))))"

lemma lev_le: "lev e \<le> 7"
  by (cases e rule: lev.cases; simp) (case_tac op; simp)

lemma readsD:
  "reads e ts \<Longrightarrow> m \<le> lev e \<Longrightarrow> (lev e < 6 \<Longrightarrow> stops (Suc (lev e)) rest) \<Longrightarrow> peek rest \<noteq> TDot \<Longrightarrow> ev_loop m e rest x \<Longrightarrow> ev_expr m (ts @ rest) x"
  "reads e ts \<Longrightarrow> lev e = 7 \<Longrightarrow> peek rest \<noteq> TDot \<Longrightarrow> ev_prefix (ts @ rest) (Ok (e, rest))"
  by (simp_all add: reads_def)

lemma reads_atD:
  "reads_at p e ts \<Longrightarrow> m \<le> p \<Longrightarrow> (p < 6 \<Longrightarrow> stops (Suc p) rest) \<Longrightarrow> peek rest \<noteq> TDot \<Longrightarrow> ev_loop m e rest x \<Longrightarrow> ev_expr m (ts @ rest) x"
  "reads_at 7 e ts \<Longrightarrow> peek rest \<noteq> TDot \<Longrightarrow> ev_prefix (ts @ rest) (Ok (e, rest))"
  by (simp_all add: reads_at_def)

lemma stops_close [simp]: "stops m ((TRParen, p) # ts)" "stops m ((TComma, p) # ts)"
  by (simp_all add: stops_def peek_binop_def)

lemma reads_paren:
  assumes "reads e us" "p \<le> 7" "if lev e < p then \<exists>a b. ts = (TLParen, a) # us @ [(TRParen, b)] else ts = us"
  shows "reads_at p e ts"
proof (cases "lev e < p")
  case True
  then obtain a b where ts: "ts = (TLParen, a) # us @ [(TRParen, b)]" using assms(3) by auto
  have pre: "ev_prefix (ts @ rest) (Ok (e, rest))" for rest
  proof -
    have "ev_expr 0 (us @ (TRParen, b) # rest) (Ok (e, (TRParen, b) # rest))"
      by (rule readsD(1) [OF assms(1)]) (auto intro!: ev_loop_stops)
    from ev_prefix_paren [OF this] show ?thesis by (simp add: ts)
  qed
  show ?thesis unfolding reads_at_def using pre ev_expr by blast
next
  case False
  then have ts: "ts = us" using assms(3) by auto
  have "ev_expr m (us @ rest) x" if "m \<le> p" "p < 6 \<longrightarrow> stops (Suc p) rest" "peek rest \<noteq> TDot" "ev_loop m e rest x" for rest m x
    by (rule readsD(1) [OF assms(1)]) (use that False in \<open>auto intro: stops_mono\<close>)
  moreover have "p = 7 \<Longrightarrow> lev e = 7" using False lev_le [of e] by simp
  ultimately show ?thesis unfolding reads_at_def ts using readsD(2) [OF assms(1)] by blast
qed

text \<open>What holds of the printed expression holds of it between parentheses.\<close>

definition read_back :: "expr \<Rightarrow> bool" where
  "read_back e \<longleftrightarrow> (\<forall>ts. tagged ts (print_expr e) \<longrightarrow> reads e ts)"

lemma read_back_at: "read_back e \<Longrightarrow> p \<le> 7 \<Longrightarrow> tagged ts (paren p e (print_expr e)) \<Longrightarrow> reads_at p e ts"
proof -
  assume r: "read_back e" "p \<le> 7" "tagged ts (paren p e (print_expr e))"
  show ?thesis
  proof (cases "lev e < p")
    case True
    then obtain a us b where "ts = (TLParen, a) # us @ [(TRParen, b)]" "tagged us (print_expr e)"
      using r(3) by (auto simp: paren_def tagged_Cons tagged_append)
    then show ?thesis using reads_paren [of e us p ts] r True by (auto simp: read_back_def)
  next
    case False
    then show ?thesis using r reads_paren [of e ts p ts] by (auto simp: paren_def read_back_def)
  qed
qed

text \<open>Expressions that begin with a prefix of their own.\<close>

lemma reads_prefix:
  assumes "\<And>rest. peek rest \<noteq> TDot \<Longrightarrow> ev_prefix (ts @ rest) (Ok (e, rest))"
  shows "reads e ts"
  unfolding reads_def using assms ev_expr by blast

lemma read_binary:
  assumes "read_back a" "read_back b"
  shows "read_back (Binary op a b)"
  unfolding read_back_def
proof (intro allI impI)
  fix ts assume "tagged ts (print_expr (Binary op a b))"
  then obtain ta q tb where ts: "ts = ta @ (op_token op, q) # tb" "tagged ta (paren (precedence op) a (print_expr a))"
    "tagged tb (paren (precedence op + 1) b (print_expr b))"
    unfolding print_expr.simps tagged_append tagged_Cons by blast
  have pl: "precedence op \<le> 5" "1 \<le> precedence op" by (cases op; simp)+
  have ra: "reads_at (precedence op) a ta" using read_back_at [OF assms(1) _ ts(2)] pl by simp
  have rb: "reads_at (precedence op + 1) b tb" using read_back_at [OF assms(2) _ ts(3)] pl by simp
  show "reads (Binary op a b) ts"
    unfolding reads_def
  proof (intro conjI allI impI)
    fix rest m x
    assume h: "m \<le> lev (Binary op a b)" "lev (Binary op a b) < 6 \<longrightarrow> stops (Suc (lev (Binary op a b))) rest" "peek rest \<noteq> TDot" "ev_loop m (Binary op a b) rest x"
    have st: "stops (precedence op + 1) rest" using h(2) pl by simp
    have eb: "ev_expr (precedence op + 1) (tb @ rest) (Ok (b, rest))"
      by (rule reads_atD(1) [OF rb]) (use h st in \<open>auto intro: stops_mono ev_loop_stops\<close>)
    have lp: "ev_loop m a ((op_token op, q) # tb @ rest) x"
      by (rule ev_loop_binop [OF _ eb h(4)]) (use h in simp)
    have "ev_expr m (ta @ (op_token op, q) # tb @ rest) x"
    proof (rule reads_atD(1) [OF ra _ _ _ lp])
      show "stops (Suc (precedence op)) ((op_token op, q) # tb @ rest)"
        by (cases op; simp add: stops_def peek_binop_def)
      show "peek ((op_token op, q) # tb @ rest) \<noteq> TDot" by (cases op; simp)
    qed (use h in simp)
    then show "ev_expr m (ts @ rest) x" by (simp add: ts(1))
  qed (use pl in simp)
qed

text \<open>The postfix conditions, from the rule for what stands behind the operand.\<close>

lemma read_postfix:
  assumes "read_back e" "tagged te (paren 6 e (print_expr e))" "lev f = 6"
    and tl: "\<And>rest m x. m \<le> 6 \<Longrightarrow> peek rest \<noteq> TDot \<Longrightarrow> ev_loop m f rest x \<Longrightarrow> ev_loop m e (tp @ rest) x"
    and dot: "\<And>rest. peek (tp @ rest) \<noteq> TDot"
  shows "reads f (te @ tp)"
  unfolding reads_def
proof (intro conjI allI impI)
  fix rest m x
  assume h: "m \<le> lev f" "lev f < 6 \<longrightarrow> stops (Suc (lev f)) rest" "peek rest \<noteq> TDot" "ev_loop m f rest x"
  have re: "reads_at 6 e te" using read_back_at [OF assms(1) _ assms(2)] by simp
  have "ev_expr m (te @ tp @ rest) x"
    by (rule reads_atD(1) [OF re]) (use h assms(3) tl dot in auto)
  then show "ev_expr m ((te @ tp) @ rest) x" by simp
qed (use assms(3) in simp)

lemma read_is_null:
  assumes "read_back e"
  shows "read_back (IsNull e neg)"
  unfolding read_back_def
proof (intro allI impI)
  fix ts assume t: "tagged ts (print_expr (IsNull e neg))"
  obtain te tp where ts: "ts = te @ tp" "tagged te (paren 6 e (print_expr e))"
    "tagged tp (TKeyword KwIs # (if neg then [TKeyword KwNot] else []) @ [TKeyword KwNull])"
    using iffD1 [OF tagged_append t [unfolded print_expr.simps]] by (elim exE conjE) (rule that)
  consider p q where "\<not> neg" "tp = [(TKeyword KwIs, p), (TKeyword KwNull, q)]"
    | p z q where "neg" "tp = [(TKeyword KwIs, p), (TKeyword KwNot, z), (TKeyword KwNull, q)]"
    using ts(3) by (cases neg) auto
  then show "reads (IsNull e neg) ts"
  proof cases
    case 1
    then show ?thesis unfolding ts(1) by (intro read_postfix [OF assms ts(2)]) (simp_all add: ev_loop_is_null(1))
  next
    case 2
    then show ?thesis unfolding ts(1) by (intro read_postfix [OF assms ts(2)]) (simp_all add: ev_loop_is_null(2))
  qed
qed

lemma read_like:
  assumes "read_back a" "read_back b"
  shows "read_back (Like a b)"
  unfolding read_back_def
proof (intro allI impI)
  fix ts assume t: "tagged ts (print_expr (Like a b))"
  then obtain te q tb where ts: "ts = te @ (TKeyword KwLike, q) # tb" "tagged te (paren 6 a (print_expr a))" "tagged tb (paren 7 b (print_expr b))"
    unfolding print_expr.simps tagged_append tagged_Cons by blast
  have "ev_prefix (tb @ rest) (Ok (b, rest))" if "peek rest \<noteq> TDot" for rest
    using reads_atD(2) [OF read_back_at [OF assms(2) _ ts(3)]] that by simp
  then show "reads (Like a b) ts"
    unfolding ts(1) by (intro read_postfix [OF assms(1) ts(2)]) (auto intro: ev_loop_like)
qed

lemma read_items:
  assumes "es \<noteq> []" "\<forall>e \<in> set es. read_back e"
  shows "tagged ts (joined_by TComma (map print_expr es)) \<Longrightarrow> ev_items (ts @ (TRParen, p) # rest) (Ok (es, rest))"
  using assms
proof (induction es arbitrary: ts rule: list_nonempty_induct)
  case (single e)
  then have "reads e ts" by (simp add: read_back_def)
  then show ?case by (intro ev_items_last [where p = p] readsD(1)) (auto intro: ev_loop_stops)
next
  case (cons e es)
  from cons.hyps obtain e' es' where es: "es = e' # es'" by (cases es) auto
  from cons.prems(1) obtain te q us where ts: "ts = te @ (TComma, q) # us" "tagged te (print_expr e)" "tagged us (joined_by TComma (map print_expr es))"
    unfolding es list.map joined_by.simps tagged_append tagged_Cons by blast
  have "reads e te" using cons.prems(2) ts(2) by (simp add: read_back_def)
  then have "ev_expr 0 (te @ (TComma, q) # us @ (TRParen, p) # rest) (Ok (e, (TComma, q) # us @ (TRParen, p) # rest))"
    by (intro readsD(1)) (auto intro: ev_loop_stops)
  from ev_items_more [OF this cons.IH] show ?case using ts cons.prems cons.hyps by simp
qed

lemma read_in:
  assumes "read_back e" "es \<noteq> []" "\<forall>x \<in> set es. read_back x"
  shows "read_back (InList e es)"
  unfolding read_back_def
proof (intro allI impI)
  fix ts assume t: "tagged ts (print_expr (InList e es))"
  then obtain te q w us z where ts: "ts = te @ (TKeyword KwIn, q) # (TLParen, w) # us @ [(TRParen, z)]"
    "tagged te (paren 6 e (print_expr e))" "tagged us (joined_by TComma (map print_expr es))"
    unfolding print_expr.simps tagged_append tagged_Cons by auto
  show "reads (InList e es) ts"
    unfolding ts(1) by (rule read_postfix [OF assms(1) ts(2)]) (auto intro!: ev_loop_in read_items [OF assms(2,3) ts(3)])
qed

lemma read_between:
  assumes "read_back e" "read_back lo" "read_back hi"
  shows "read_back (Between e lo hi)"
  unfolding read_back_def
proof (intro allI impI)
  fix ts assume t: "tagged ts (print_expr (Between e lo hi))"
  then obtain te q tl' w th where ts: "ts = te @ (TKeyword KwBetween, q) # tl' @ (TKeyword KwAnd, w) # th" "tagged te (paren 6 e (print_expr e))"
    "tagged tl' (paren 3 lo (print_expr lo))" "tagged th (paren 3 hi (print_expr hi))"
    unfolding print_expr.simps tagged_append tagged_Cons by blast
  have re: "reads_at 6 e te" "reads_at 3 lo tl'" "reads_at 3 hi th"
    using read_back_at [OF assms(1) _ ts(2)] read_back_at [OF assms(2) _ ts(3)] read_back_at [OF assms(3) _ ts(4)] by auto
  show "reads (Between e lo hi) ts"
    unfolding reads_def
  proof (intro conjI allI impI)
    fix rest m x
    assume h: "m \<le> lev (Between e lo hi)" "lev (Between e lo hi) < 6 \<longrightarrow> stops (Suc (lev (Between e lo hi))) rest" "peek rest \<noteq> TDot" "ev_loop m (Between e lo hi) rest x"
    have st: "stops (Suc 0) rest" using h(2) by simp
    have a: "stops k ((TKeyword KwAnd, w) # th @ rest)" if "3 \<le> k" for k using that by (simp add: stops_def peek_binop_def)
    have l: "ev_expr 3 (tl' @ (TKeyword KwAnd, w) # th @ rest) (Ok (lo, (TKeyword KwAnd, w) # th @ rest))"
      by (rule reads_atD(1) [OF re(2)]) (auto intro!: ev_loop_stops a)
    have r: "ev_expr 3 (th @ rest) (Ok (hi, rest))"
      by (rule reads_atD(1) [OF re(3)]) (use h in \<open>auto intro: stops_mono [OF st] ev_loop_stops [OF stops_mono [OF st]]\<close>)
    have "ev_expr m (te @ (TKeyword KwBetween, q) # tl' @ (TKeyword KwAnd, w) # th @ rest) x"
      by (rule reads_atD(1) [OF re(1) _ _ _ ev_loop_between [OF l r h(4)]]) (use h in auto)
    then show "ev_expr m (ts @ rest) x" by (simp add: ts(1))
  qed simp
qed

lemma read_neg:
  assumes "read_back e"
  shows "read_back (Unary Neg e)"
  unfolding read_back_def
proof (intro allI impI)
  fix ts assume "tagged ts (print_expr (Unary Neg e))"
  then obtain q te where ts: "ts = (TMinus, q) # te" "tagged te (paren 7 e (print_expr e))"
    unfolding print_expr.simps tagged_Cons by blast
  have "reads_at 7 e te" using read_back_at [OF assms _ ts(2)] by simp
  then show "reads (Unary Neg e) ts"
    unfolding ts(1) by (intro reads_prefix) (auto intro: ev_prefix_neg reads_atD(2))
qed

lemma read_not:
  assumes "read_back e"
  shows "read_back (Unary Not e)"
  unfolding read_back_def
proof (intro allI impI)
  fix ts assume "tagged ts (print_expr (Unary Not e))"
  then obtain q te where ts: "ts = (TKeyword KwNot, q) # te" "tagged te (paren 2 e (print_expr e))"
    unfolding print_expr.simps tagged_Cons by blast
  have re: "reads_at 2 e te" using read_back_at [OF assms _ ts(2)] by simp
  show "reads (Unary Not e) ts"
    unfolding reads_def
  proof (intro conjI allI impI)
    fix rest m x
    assume h: "m \<le> lev (Unary Not e)" "lev (Unary Not e) < 6 \<longrightarrow> stops (Suc (lev (Unary Not e))) rest" "peek rest \<noteq> TDot" "ev_loop m (Unary Not e) rest x"
    have st: "stops (Suc 0) rest" using h(2) by simp
    have "ev_expr 2 (te @ rest) (Ok (e, rest))"
      by (rule reads_atD(1) [OF re]) (use h in \<open>auto intro: stops_mono [OF st] ev_loop_stops [OF stops_mono [OF st]]\<close>)
    from ev_expr [OF ev_prefix_not [OF this] h(4)] show "ev_expr m (ts @ rest) x" by (simp add: ts(1))
  qed simp
qed

text \<open>No expression begins like something else.\<close>

definition ok_first :: "token list \<Rightarrow> bool" where
  "ok_first xs \<longleftrightarrow> xs \<noteq> [] \<and> hd xs \<notin> {TStar, TKeyword KwDistinct, TEof, TSemicolon}"

lemma ok_first_paren: "ok_first xs \<Longrightarrow> ok_first (paren p e xs @ ys)"
  by (auto simp: ok_first_def paren_def hd_append)

lemma ok_first_print: "printable_expr e \<Longrightarrow> ok_first (print_expr e)"
proof (induction e)
  case (Unary u e)
  then show ?case by (cases u) (auto simp: ok_first_def)
next
  case (Aggregate f d e)
  then show ?case by (cases f) (auto simp: ok_first_def)
qed (auto intro: ok_first_paren simp: ok_first_def [of "[x]" for x] ok_first_def [of "x # y # z" for x y z])

lemma not_first:
  assumes "printable_expr e" "tagged ts (print_expr e)"
  shows "peek (ts @ rest) \<notin> {TStar, TKeyword KwDistinct, TEof, TSemicolon}"
proof -
  obtain t xs where x: "print_expr e = t # xs" using ok_first_print [OF assms(1)] by (cases "print_expr e") (auto simp: ok_first_def)
  then show ?thesis using ok_first_print [OF assms(1)] assms(2) by (auto simp: ok_first_def)
qed

lemma read_aggregate:
  assumes "e = Star \<or> printable_expr e \<and> read_back e"
  shows "read_back (Aggregate f d e)"
  unfolding read_back_def
proof (intro allI impI)
  fix ts assume t: "tagged ts (print_expr (Aggregate f d e))"
  then obtain p q ds te w where ts: "ts = (agg_token f, p) # (TLParen, q) # ds @ te @ [(TRParen, w)]"
    "tagged ds (if d then [TKeyword KwDistinct] else [])" "tagged te (print_expr e)"
    unfolding print_expr.simps tagged_append tagged_Cons by auto
  show "reads (Aggregate f d e) ts"
  proof (rule reads_prefix)
    fix rest
    have arg: "ev_expr 0 (te @ (TRParen, w) # rest) (Ok (e, (TRParen, w) # rest)) \<and> peek (te @ (TRParen, w) # rest) \<notin> {TStar, TKeyword KwDistinct}
      \<or> e = Star \<and> (\<exists>s. te @ (TRParen, w) # rest = (TStar, s) # (TRParen, w) # rest)"
    proof (cases "e = Star")
      case True
      then show ?thesis using ts(3) by auto
    next
      case False
      then have e: "printable_expr e" "reads e te" using assms ts(3) by (auto simp: read_back_def)
      show ?thesis using not_first [OF e(1) ts(3)] by (auto intro!: disjI1 readsD(1) [OF e(2)] ev_loop_stops)
    qed
    show "ev_prefix (ts @ rest) (Ok (Aggregate f d e, rest))"
    proof (cases d)
      case True
      then obtain z where "ds = [(TKeyword KwDistinct, z)]" using ts(2) by auto
      then show ?thesis using ev_prefix_aggregate(2) [OF arg] True ts(1) by simp
    next
      case False
      then show ?thesis using ev_prefix_aggregate(1) [OF arg] ts by simp
    qed
  qed
qed

lemma read_atom:
  "read_back (Column c)" "read_back (Qualified q c)" "read_back (LitInt i)" "read_back (LitReal r)" "read_back (LitStr s)"
  "read_back (LitBool b)" "read_back NullLit"
  unfolding read_back_def
  by (auto intro!: reads_prefix simp: ev_prefix_column ev_prefix_literal)

lemma read_printable: "printable_expr e \<Longrightarrow> read_back e"
proof (induction e)
  case (Unary u e)
  then show ?case by (cases u) (auto intro: read_neg read_not)
qed (auto intro!: read_atom read_binary read_is_null read_like read_between read_in read_aggregate)

lemma stops_all: "stops (Suc 0) ts \<Longrightarrow> stops m ts"
proof -
  have p: "precedence op \<noteq> 0" for op by (cases op) auto
  show "stops (Suc 0) ts \<Longrightarrow> stops m ts" by (cases "peek_binop ts") (use p in \<open>simp_all add: stops_def\<close>)
qed

lemma sql_expr_print:
  assumes "printable_expr e" "tagged ts (print_expr e)" "stops (Suc 0) rest" "peek rest \<noteq> TDot"
  shows "sql_expr (ts @ rest) = Ok (e, rest)"
proof (rule evals_sql_expr, rule readsD(1))
  show "reads e ts" using read_printable [OF assms(1)] assms(2) by (simp add: read_back_def)
qed (use assms in \<open>auto intro: stops_all ev_loop_stops\<close>)

end
