(* ===== verification/SqlStatements.thy ===== *)
theory SqlStatements
  imports SqlPrints
begin

text \<open>
  Printing statements and scripts to tokens and to text, and the round trip through \<open>parse_script\<close>.
  Names are printed as quoted identifiers, so no name is taken for a keyword.
\<close>

section \<open>Printing statements\<close>

definition print_alias :: "rstr option \<Rightarrow> token list" where
  "print_alias a = (case a of None \<Rightarrow> [] | Some s \<Rightarrow> [TKeyword KwAs, TIdent s])"

definition print_item :: "select_item \<Rightarrow> token list" where
  "print_item i = print_expr (si_expr i) @ print_alias (si_alias i)"

definition print_join :: "join_clause \<Rightarrow> token list" where
  "print_join j = TKeyword (case jn_kind j of InnerJoin \<Rightarrow> KwInner | LeftJoin \<Rightarrow> KwLeft) # TKeyword KwJoin # TIdent (jn_table j) #
     print_alias (jn_alias j) @ TKeyword KwOn # print_expr (jn_on j)"

definition print_from :: "select_stmt \<Rightarrow> token list" where
  "print_from s = (case sl_from s of None \<Rightarrow> []
     | Some t \<Rightarrow> TKeyword KwFrom # TIdent t # print_alias (sl_from_alias s) @ concat (map print_join (sl_joins s)))"

definition print_clause :: "keyword \<Rightarrow> ('a \<Rightarrow> token list) \<Rightarrow> 'a option \<Rightarrow> token list" where
  "print_clause k f x = (case x of None \<Rightarrow> [] | Some y \<Rightarrow> TKeyword k # f y)"

definition print_by :: "keyword \<Rightarrow> ('a \<Rightarrow> token list) \<Rightarrow> 'a list \<Rightarrow> token list" where
  "print_by k f xs = (if xs = [] then [] else TKeyword k # TKeyword KwBy # joined_by TComma (map f xs))"

definition print_order :: "order_item \<Rightarrow> token list" where
  "print_order i = print_expr (oi_expr i) @ [TKeyword (if oi_asc i then KwAsc else KwDesc)]"

definition print_select :: "select_stmt \<Rightarrow> token list" where
  "print_select s = TKeyword KwSelect # (if sl_distinct s then [TKeyword KwDistinct] else []) @
     joined_by TComma (map print_item (sl_items s)) @ print_from s @ print_clause KwWhere print_expr (sl_filter s) @
     print_by KwGroup print_expr (sl_group_by s) @ print_clause KwHaving print_expr (sl_having s) @
     print_by KwOrder print_order (sl_order_by s) @ print_clause KwLimit (\<lambda>i. [TInt i]) (sl_limit s) @
     print_clause KwOffset (\<lambda>i. [TInt i]) (sl_offset s)"

definition print_list :: "('a \<Rightarrow> token list) \<Rightarrow> 'a list \<Rightarrow> token list" where
  "print_list f xs = TLParen # joined_by TComma (map f xs) @ [TRParen]"

definition print_insert :: "insert_stmt \<Rightarrow> token list" where
  "print_insert s = TKeyword KwInsert # TKeyword KwInto # TIdent (in_table s) #
     (if in_columns s = [] then [] else print_list (\<lambda>c. [TIdent c]) (in_columns s)) @
     TKeyword KwValues # joined_by TComma (map (print_list print_expr) (in_rows s))"

definition print_assignment :: "rstr \<times> expr \<Rightarrow> token list" where
  "print_assignment a = TIdent (fst a) # TEq # print_expr (snd a)"

definition print_update :: "update_stmt \<Rightarrow> token list" where
  "print_update s = TKeyword KwUpdate # TIdent (up_table s) # TKeyword KwSet # joined_by TComma (map print_assignment (up_assignments s)) @
     print_clause KwWhere print_expr (up_filter s)"

definition print_delete :: "delete_stmt \<Rightarrow> token list" where
  "print_delete s = TKeyword KwDelete # TKeyword KwFrom # TIdent (dl_table s) # print_clause KwWhere print_expr (dl_filter s)"

fun type_token :: "type_keyword \<Rightarrow> token" where
  "type_token TyInt = TKeyword KwInt" | "type_token TyReal = TKeyword KwReal"
| "type_token TyText = TKeyword KwText" | "type_token TyBool = TKeyword KwBool"

definition print_column :: "column_spec \<Rightarrow> token list" where
  "print_column c = TIdent (cs_name c) # type_token (cs_kind c) #
     (if cs_primary_key c then [TIdent (str ''primary''), TIdent (str ''key'')]
      else if cs_not_null c then [TKeyword KwNot, TKeyword KwNull] else [])"

definition print_create :: "create_table_stmt \<Rightarrow> token list" where
  "print_create s = TKeyword KwCreate # TKeyword KwTable # TIdent (ct_name s) # print_list print_column (ct_columns s)"

fun statement_tokens :: "sql_statement \<Rightarrow> token list" where
  "statement_tokens (Select s) = print_select s"
| "statement_tokens (Insert s) = print_insert s"
| "statement_tokens (Update s) = print_update s"
| "statement_tokens (Delete s) = print_delete s"
| "statement_tokens (CreateTable s) = print_create s"
| "statement_tokens (DropTable t) = [TKeyword KwDrop, TKeyword KwTable, TIdent t]"

text \<open>The statements the parser can return.\<close>

definition wf_item :: "select_item \<Rightarrow> bool" where
  "wf_item i \<longleftrightarrow> printable_expr (si_expr i) \<or> si_expr i = Star \<and> si_alias i = None"

definition wf_select :: "select_stmt \<Rightarrow> bool" where
  "wf_select s \<longleftrightarrow> sl_items s \<noteq> [] \<and> list_all wf_item (sl_items s) \<and>
     (sl_from s = None \<longrightarrow> sl_from_alias s = None \<and> sl_joins s = []) \<and> list_all (\<lambda>j. printable_expr (jn_on j)) (sl_joins s) \<and>
     pred_option printable_expr (sl_filter s) \<and> list_all printable_expr (sl_group_by s) \<and> pred_option printable_expr (sl_having s) \<and>
     list_all (\<lambda>i. printable_expr (oi_expr i)) (sl_order_by s)"

fun wf_statement :: "sql_statement \<Rightarrow> bool" where
  "wf_statement (Select s) = wf_select s"
| "wf_statement (Insert s) = (in_rows s \<noteq> [] \<and> list_all (\<lambda>r. r \<noteq> [] \<and> list_all printable_expr r) (in_rows s))"
| "wf_statement (Update s) = (up_assignments s \<noteq> [] \<and> list_all (\<lambda>a. printable_expr (snd a)) (up_assignments s) \<and> pred_option printable_expr (up_filter s))"
| "wf_statement (Delete s) = pred_option printable_expr (dl_filter s)"
| "wf_statement (CreateTable s) = (ct_columns s \<noteq> [] \<and> list_all (\<lambda>c. cs_primary_key c \<longrightarrow> cs_not_null c) (ct_columns s))"
| "wf_statement (DropTable t) = True"

section \<open>What can follow\<close>

text \<open>The tokens that end an expression, a name or a list.\<close>

definition closing :: "tokens \<Rightarrow> bool" where
  "closing ts \<longleftrightarrow> peek ts \<in> {TComma, TRParen, TSemicolon, TEof} \<union>
     TKeyword ` {KwFrom, KwWhere, KwGroup, KwHaving, KwOrder, KwLimit, KwOffset, KwJoin, KwInner, KwLeft, KwOn, KwAs, KwAsc, KwDesc, KwValues, KwSet}"

lemma closing_stops: "closing ts \<Longrightarrow> stops (Suc 0) ts \<and> peek ts \<noteq> TDot"
  by (auto simp: closing_def stops_def peek_binop_def)

lemma sql_expr_closing: "printable_expr e \<Longrightarrow> tagged ts (print_expr e) \<Longrightarrow> closing rest \<Longrightarrow> sql_expr (ts @ rest) = Ok (e, rest)"
  using sql_expr_print closing_stops by blast

lemma ident_read [simp]: "parse_ident ((TIdent s, p) # ts) = Ok (s, ts)"
  by (simp add: parse_ident_def advance_def)

lemma int_read [simp]: "parse_int_literal ((TInt i, p) # ts) = Ok (i, ts)"
  by (simp add: parse_int_literal_def advance_def)

lemma keyword_read [simp]: "expect_keyword k ((TKeyword k, p) # ts) = Ok ts"
  by (simp add: expect_keyword_def)

lemma open_read [simp]: "expect_open w ((TLParen, p) # ts) = Ok ts"
  by (simp add: expect_open_def expect_token_def)

section \<open>Lists\<close>

definition ends :: "tokens \<Rightarrow> bool" where
  "ends ts \<longleftrightarrow> peek ts \<in> {TComma, TRParen, TSemicolon, TEof} \<union> TKeyword ` {KwFrom, KwWhere, KwGroup, KwHaving, KwOrder, KwLimit, KwOffset}"

definition item_reads :: "(tokens \<Rightarrow> 'a parsed) \<Rightarrow> ('a \<Rightarrow> token list) \<Rightarrow> 'a \<Rightarrow> bool" where
  "item_reads item f x \<longleftrightarrow> (\<forall>ts rest. tagged ts (f x) \<longrightarrow> ends rest \<longrightarrow> item (ts @ rest) = Ok (x, rest))"

lemma item_readsI: "(\<And>ts rest. tagged ts (f x) \<Longrightarrow> ends rest \<Longrightarrow> item (ts @ rest) = Ok (x, rest)) \<Longrightarrow> item_reads item f x"
  by (simp add: item_reads_def)

lemma item_readsD: "item_reads item f x \<Longrightarrow> tagged ts (f x) \<Longrightarrow> ends rest \<Longrightarrow> item (ts @ rest) = Ok (x, rest)"
  by (simp add: item_reads_def)

lemma ends_simps [simp]: "ends ((TComma, p) # ts)" "ends ((TRParen, p) # ts)"
  by (simp_all add: ends_def)

lemma ends_closing: "ends ts \<Longrightarrow> closing ts"
  by (auto simp: ends_def closing_def)

lemma joined_length: "length xs \<le> Suc (length (joined_by c (map f xs)))"
proof (induction xs)
  case (Cons x xs)
  then show ?case by (cases xs) auto
qed simp

lemma comma_list_read:
  assumes "xs \<noteq> []" "\<forall>x \<in> set xs. item_reads item f x" "ends rest" "peek rest \<noteq> TComma"
  shows "tagged ts (joined_by TComma (map f xs)) \<Longrightarrow> length xs \<le> n \<Longrightarrow> comma_list n item (ts @ rest) = Ok (xs, rest)"
  using assms(1,2)
proof (induction xs arbitrary: ts n rule: list_nonempty_induct)
  case (single x)
  then show ?case using item_readsD [of item f x ts rest] assms(3,4) by (cases n) simp_all
next
  case (cons x xs)
  from cons.hyps obtain y ys where xs: "xs = y # ys" by (cases xs) auto
  from cons.prems(1) obtain tx q us where ts: "ts = tx @ (TComma, q) # us" "tagged tx (f x)" "tagged us (joined_by TComma (map f xs))"
    unfolding xs list.map joined_by.simps tagged_append tagged_Cons by blast
  obtain k where n: "n = Suc k" "length xs \<le> k" using cons.prems(2) by (cases n) auto
  have "item (tx @ (TComma, q) # us @ rest) = Ok (x, (TComma, q) # us @ rest)"
    using item_readsD [of item f x tx] cons.prems(3) ts(2) by simp
  then show ?case using cons.IH [OF ts(3) n(2)] cons.prems(3) by (simp add: n ts(1))
qed

lemma closed_list_read:
  assumes "xs \<noteq> []" "\<forall>x \<in> set xs. item_reads item f x"
  shows "tagged ts (joined_by TComma (map f xs)) \<Longrightarrow> length xs \<le> n \<Longrightarrow> closed_list n item (ts @ (TRParen, p) # rest) = Ok (xs, rest)"
  using assms
proof (induction xs arbitrary: ts n rule: list_nonempty_induct)
  case (single x)
  then show ?case using item_readsD [of item f x ts "(TRParen, p) # rest"] by (cases n) (simp_all add: comma_or_close_def advance_def)
next
  case (cons x xs)
  from cons.hyps obtain y ys where xs: "xs = y # ys" by (cases xs) auto
  from cons.prems(1) obtain tx q us where ts: "ts = tx @ (TComma, q) # us" "tagged tx (f x)" "tagged us (joined_by TComma (map f xs))"
    unfolding xs list.map joined_by.simps tagged_append tagged_Cons by blast
  obtain k where n: "n = Suc k" "length xs \<le> k" using cons.prems(2) by (cases n) auto
  have "item (tx @ (TComma, q) # us @ (TRParen, p) # rest) = Ok (x, (TComma, q) # us @ (TRParen, p) # rest)"
    using item_readsD [of item f x tx] cons.prems(3) ts(2) by simp
  then show ?case using cons.IH [OF ts(3) n(2)] cons.prems(3) by (simp add: n ts(1) comma_or_close_def advance_def)
qed

lemma comma_separated_read:
  assumes "xs \<noteq> []" "\<forall>x \<in> set xs. item_reads item f x" "tagged ts (joined_by TComma (map f xs))" "ends rest" "peek rest \<noteq> TComma"
  shows "comma_separated item (ts @ rest) = Ok (xs, rest)"
proof -
  have "length ts = length (joined_by TComma (map f xs))" using arg_cong [OF assms(3), of length] by simp
  then have "length xs \<le> length (ts @ rest) + 1" using joined_length [of xs TComma f] by simp
  then show ?thesis unfolding comma_separated_def by (rule comma_list_read [OF assms(1,2,4,5,3)])
qed

lemma until_close_read:
  assumes "xs \<noteq> []" "\<forall>x \<in> set xs. item_reads item f x" "tagged ts (joined_by TComma (map f xs))"
  shows "until_close item (ts @ (TRParen, p) # rest) = Ok (xs, rest)"
proof -
  have "length ts = length (joined_by TComma (map f xs))" using arg_cong [OF assms(3), of length] by simp
  then have "length xs \<le> length (ts @ (TRParen, p) # rest) + 1" using joined_length [of xs TComma f] by simp
  then show ?thesis unfolding until_close_def by (rule closed_list_read [OF assms])
qed

section \<open>The parts of statements\<close>

lemma alias_read:
  assumes "tagged ts (print_alias a)" "closing rest" "peek rest \<noteq> TKeyword KwAs"
  shows "parse_optional_alias (ts @ rest) = Ok (a, rest)"
proof (cases a)
  case None
  then show ?thesis using assms by (auto simp: print_alias_def parse_optional_alias_def closing_def)
next
  case (Some s)
  then obtain p q where "ts = [(TKeyword KwAs, p), (TIdent s, q)]" using assms(1) by (auto simp: print_alias_def)
  then show ?thesis by (simp add: parse_optional_alias_def Some)
qed

lemma alias_closing: "tagged ts (print_alias a) \<Longrightarrow> closing rest \<Longrightarrow> closing (ts @ rest)"
  by (cases a) (auto simp: print_alias_def closing_def)

lemma expr_item: "printable_expr e \<Longrightarrow> item_reads sql_expr print_expr e"
  by (rule item_readsI) (simp add: sql_expr_closing ends_closing)

lemma select_item_read:
  assumes "wf_item i"
  shows "item_reads parse_select_item print_item i"
proof (rule item_readsI)
  fix ts rest assume t: "tagged ts (print_item i)" and r: "ends rest"
  show "parse_select_item (ts @ rest) = Ok (i, rest)"
  proof (cases "si_expr i = Star")
    case True
    then obtain p where "ts = [(TStar, p)]" "si_alias i = None" using t assms by (auto simp: wf_item_def print_item_def print_alias_def)
    then show ?thesis using True by (cases i) (simp add: parse_select_item_def)
  next
    case False
    then have e: "printable_expr (si_expr i)" using assms by (simp add: wf_item_def)
    obtain te ta where ts: "ts = te @ ta" "tagged te (print_expr (si_expr i))" "tagged ta (print_alias (si_alias i))"
      using t unfolding print_item_def tagged_append by blast
    have p: "peek (te @ ta @ rest) \<noteq> TStar" using not_first [OF e ts(2)] by blast
    have a: "closing (ta @ rest)" by (rule alias_closing [OF ts(3) ends_closing [OF r]])
    have "parse_optional_alias (ta @ rest) = Ok (si_alias i, rest)"
      by (rule alias_read [OF ts(3) ends_closing [OF r]]) (use r in \<open>auto simp: ends_def\<close>)
    then show ?thesis using p sql_expr_closing [OF e ts(2) a] by (simp add: parse_select_item_def ts(1))
  qed
qed

lemma order_item_read:
  assumes "printable_expr (oi_expr i)"
  shows "item_reads parse_order_item print_order i"
proof (rule item_readsI)
  fix ts rest assume t: "tagged ts (print_order i)" and r: "ends rest"
  then obtain te p where ts: "ts = te @ [(TKeyword (if oi_asc i then KwAsc else KwDesc), p)]" "tagged te (print_expr (oi_expr i))"
    unfolding print_order_def tagged_append by auto
  have "closing ((TKeyword (if oi_asc i then KwAsc else KwDesc), p) # rest)" by (simp add: closing_def)
  from sql_expr_closing [OF assms ts(2) this] show "parse_order_item (ts @ rest) = Ok (i, rest)"
    by (simp add: parse_order_item_def ts(1))
qed

lemma row_read:
  assumes "r \<noteq> []" "list_all printable_expr r"
  shows "item_reads parse_row (print_list print_expr) r"
proof (rule item_readsI)
  fix ts rest assume "tagged ts (print_list print_expr r)"
  then obtain p us q where ts: "ts = (TLParen, p) # us @ [(TRParen, q)]" "tagged us (joined_by TComma (map print_expr r))"
    unfolding print_list_def tagged_Cons tagged_append by auto
  have "\<forall>e \<in> set r. item_reads sql_expr print_expr e" using assms(2) expr_item by (auto simp: list_all_iff)
  from until_close_read [OF assms(1) this ts(2)] show "parse_row (ts @ rest) = Ok (r, rest)"
    by (simp add: parse_row_def ts(1))
qed

lemma assignment_read:
  assumes "printable_expr (snd a)"
  shows "item_reads parse_assignment print_assignment a"
proof (rule item_readsI)
  fix ts rest assume "tagged ts (print_assignment a)" and r: "ends rest"
  then obtain p q us where ts: "ts = (TIdent (fst a), p) # (TEq, q) # us" "tagged us (print_expr (snd a))"
    unfolding print_assignment_def tagged_Cons by auto
  show "parse_assignment (ts @ rest) = Ok (a, rest)"
    using sql_expr_closing [OF assms ts(2) ends_closing [OF r]] by (simp add: parse_assignment_def ts(1) expect_token_def)
qed

lemma ident_item: "item_reads parse_ident (\<lambda>c. [TIdent c]) c"
  by (rule item_readsI) auto

lemma column_read:
  assumes "cs_primary_key c \<longrightarrow> cs_not_null c"
  shows "item_reads parse_column_spec print_column c"
proof (rule item_readsI)
  fix ts rest assume "tagged ts (print_column c)" and r: "ends rest"
  then obtain p q us where ts: "ts = (TIdent (cs_name c), p) # (type_token (cs_kind c), q) # us"
    "tagged us (if cs_primary_key c then [TIdent (str ''primary''), TIdent (str ''key'')]
      else if cs_not_null c then [TKeyword KwNot, TKeyword KwNull] else [])"
    unfolding print_column_def tagged_Cons by auto
  have ty: "parse_column_type ((type_token (cs_kind c), q) # us @ rest) = Ok (cs_kind c, us @ rest)"
    by (cases "cs_kind c") (simp_all add: parse_column_type_def advance_def)
  have stop: "column_options (Suc n) nn pk rest = Ok ((nn, pk), rest)" for n nn pk
    using r by (auto simp: ends_def)
  have op: "column_options (length (us @ rest) + 1) False False (us @ rest) = Ok ((cs_not_null c, cs_primary_key c), rest)"
  proof (cases "cs_primary_key c")
    case True
    then obtain a b where us: "us = [(TIdent (str ''primary''), a), (TIdent (str ''key''), b)]" using ts(2) by auto
    have "ignore_case_eq (str ''primary'') ''primary''" "ignore_case_eq (str ''key'') ''key''" by (simp_all add: ignore_case_eq_def)
    then show ?thesis using True assms stop by (simp add: us del: column_options.simps(2)) (simp add: column_options.simps(2) [of "Suc (Suc k)" for k] del: column_options.simps(2))
  next
    case False
    show ?thesis
    proof (cases "cs_not_null c")
      case True
      then obtain a b where us: "us = [(TKeyword KwNot, a), (TKeyword KwNull, b)]" using ts(2) False by auto
      then show ?thesis using True False stop by (simp add: us del: column_options.simps(2)) (simp add: column_options.simps(2) [of "Suc (Suc k)" for k] del: column_options.simps(2))
    next
      case nn: False
      then show ?thesis using False ts(2) stop by simp
    qed
  qed
  show "parse_column_spec (ts @ rest) = Ok (c, rest)"
    using ty op by (cases c) (simp add: parse_column_spec_def ts(1) del: column_options.simps)
qed

section \<open>Joins and clauses\<close>

lemma join_read:
  assumes "printable_expr (jn_on j)" "tagged ts (print_join j)" "closing rest"
  shows "parse_join (ts @ rest) = Ok (j, rest)"
proof -
  obtain p q w ta v te where ts: "ts = (TKeyword (case jn_kind j of InnerJoin \<Rightarrow> KwInner | LeftJoin \<Rightarrow> KwLeft), p) # (TKeyword KwJoin, q) # (TIdent (jn_table j), w) # ta @ (TKeyword KwOn, v) # te"
    "tagged ta (print_alias (jn_alias j))" "tagged te (print_expr (jn_on j))"
    using assms(2) unfolding print_join_def tagged_Cons tagged_append by auto
  have k: "parse_join_kind (ts @ rest) = Ok (jn_kind j, (TIdent (jn_table j), w) # ta @ (TKeyword KwOn, v) # te @ rest)"
    by (cases "jn_kind j") (simp_all add: ts(1) parse_join_kind_def advance_def)
  have a: "parse_optional_alias (ta @ (TKeyword KwOn, v) # te @ rest) = Ok (jn_alias j, (TKeyword KwOn, v) # te @ rest)"
    by (rule alias_read [OF ts(2)]) (simp_all add: closing_def)
  show ?thesis using k a sql_expr_closing [OF assms(1) ts(3) assms(3)] by (simp add: parse_join_def)
qed

lemma join_first: "tagged ts (print_join j) \<Longrightarrow> peek (ts @ rest) \<in> {TKeyword KwInner, TKeyword KwLeft} \<and> ts \<noteq> []"
  by (cases "jn_kind j") (auto simp: print_join_def)

lemma joins_closing: "tagged ts (concat (map print_join js)) \<Longrightarrow> ends rest \<Longrightarrow> closing (ts @ rest)"
proof (cases js)
  case (Cons j js')
  assume "tagged ts (concat (map print_join js))"
  then obtain us vs where ts: "ts = us @ vs" "tagged us (print_join j)" unfolding Cons list.map concat.simps tagged_append by blast
  have "peek (us @ vs @ rest) \<in> {TKeyword KwInner, TKeyword KwLeft}" using join_first [OF ts(2), of "vs @ rest"] by blast
  then show "closing (ts @ rest)" by (auto simp: closing_def ts(1))
qed (simp add: ends_closing)

lemma joins_read:
  "list_all (\<lambda>j. printable_expr (jn_on j)) js \<Longrightarrow> tagged ts (concat (map print_join js)) \<Longrightarrow> ends rest \<Longrightarrow> length js < n \<Longrightarrow>
    parse_joins n (ts @ rest) = Ok (js, rest)"
proof (induction js arbitrary: ts n)
  case Nil
  then show ?case by (cases n) (auto simp: ends_def)
next
  case (Cons j js)
  obtain us vs where ts: "ts = us @ vs" "tagged us (print_join j)" "tagged vs (concat (map print_join js))"
    using Cons.prems(2) unfolding list.map concat.simps tagged_append by blast
  obtain k where n: "n = Suc k" "length js < k" using Cons.prems(4) by (cases n) auto
  have c: "closing (vs @ rest)" by (rule joins_closing [OF ts(3) Cons.prems(3)])
  have pk: "peek (us @ vs @ rest) \<in> {TKeyword KwInner, TKeyword KwLeft}" using join_first [OF ts(2), of "vs @ rest"] by blast
  have j: "parse_join (us @ vs @ rest) = Ok (j, vs @ rest)" using join_read [OF _ ts(2) c] Cons.prems(1) by simp
  show ?case using pk j Cons.IH [OF _ ts(3) Cons.prems(3) n(2)] Cons.prems(1) by (auto simp: n(1) ts(1))
qed

lemma joins_length: "length js \<le> length (concat (map print_join js))"
  by (induction js) (auto simp: print_join_def)

text \<open>The order of the clauses: what a tail of the statement can begin with.\<close>

fun rank :: "token \<Rightarrow> nat" where
  "rank (TKeyword KwFrom) = 1"
| "rank (TKeyword KwWhere) = 2"
| "rank (TKeyword KwGroup) = 3"
| "rank (TKeyword KwHaving) = 4"
| "rank (TKeyword KwOrder) = 5"
| "rank (TKeyword KwLimit) = 6"
| "rank (TKeyword KwOffset) = 7"
| "rank t = 8"

definition clause_tail :: "nat \<Rightarrow> tokens \<Rightarrow> bool" where
  "clause_tail r ts \<longleftrightarrow> ends ts \<and> peek ts \<noteq> TComma \<and> r \<le> rank (peek ts)"

lemma readyD: "clause_tail r ts \<Longrightarrow> ends ts" "clause_tail r ts \<Longrightarrow> peek ts \<noteq> TComma" "clause_tail r ts \<Longrightarrow> rank (TKeyword k) < r \<Longrightarrow> peek ts \<noteq> TKeyword k"
  by (auto simp: clause_tail_def)

lemma ready_keyword: "rank (TKeyword k) = r \<Longrightarrow> r < 8 \<Longrightarrow> clause_tail r ((TKeyword k, p) # ts)"
  by (cases k) (auto simp: clause_tail_def ends_def)

lemma ready_mono: "clause_tail r ts \<Longrightarrow> q \<le> r \<Longrightarrow> clause_tail q ts"
  by (auto simp: clause_tail_def)

lemma clause_ready:
  assumes "clause_tail (Suc r) rest" "rank (TKeyword k) = r" "r < 8" "tagged ts (print_clause k f x)"
  shows "clause_tail r (ts @ rest)"
proof (cases x)
  case None
  then show ?thesis using assms ready_mono by (auto simp: print_clause_def)
next
  case (Some y)
  then obtain p us where "ts = (TKeyword k, p) # us" using assms(4) by (auto simp: print_clause_def)
  then show ?thesis using ready_keyword assms by simp
qed

lemma by_ready:
  assumes "clause_tail (Suc r) rest" "rank (TKeyword k) = r" "r < 8" "tagged ts (print_by k f xs)"
  shows "clause_tail r (ts @ rest)"
proof (cases "xs = []")
  case True
  then show ?thesis using assms ready_mono by (auto simp: print_by_def)
next
  case False
  then obtain p us where "ts = (TKeyword k, p) # us" using assms(4) by (auto simp: print_by_def)
  then show ?thesis using ready_keyword assms by simp
qed

lemma clause_read:
  assumes "tagged ts (print_clause k f x)" "\<And>y. x = Some y \<Longrightarrow> item_reads q f y" "ends rest" "peek rest \<noteq> TKeyword k"
  shows "optional_clause k q (ts @ rest) = Ok (x, rest)"
proof (cases x)
  case None
  then show ?thesis using assms by (auto simp: print_clause_def optional_clause_def)
next
  case (Some y)
  then obtain p us where ts: "ts = (TKeyword k, p) # us" "tagged us (f y)" using assms(1) by (auto simp: print_clause_def)
  then show ?thesis using item_readsD [OF assms(2) [OF Some] ts(2) assms(3)] by (simp add: optional_clause_def Some)
qed

lemma clause_read_at:
  assumes "tagged ts (print_clause k f x)" "\<And>y. x = Some y \<Longrightarrow> item_reads q f y" "clause_tail (Suc r) rest" "rank (TKeyword k) = r"
  shows "optional_clause k q (ts @ rest) = Ok (x, rest)"
  by (rule clause_read [OF assms(1,2) readyD(1) [OF assms(3)] readyD(3) [OF assms(3)]]) (simp_all add: assms(4))

lemma group_read:
  assumes "tagged ts (print_by KwGroup print_expr xs)" "list_all printable_expr xs" "clause_tail 4 rest"
  shows "parse_group_by (ts @ rest) = Ok (xs, rest)"
proof (cases "xs = []")
  case True
  have "peek rest \<noteq> TKeyword KwGroup" by (rule readyD(3) [OF assms(3)]) simp
  then show ?thesis using True assms(1) by (simp add: print_by_def parse_group_by_def)
next
  case False
  then obtain p q us where ts: "ts = (TKeyword KwGroup, p) # (TKeyword KwBy, q) # us" "tagged us (joined_by TComma (map print_expr xs))"
    using assms(1) by (auto simp: print_by_def)
  have "\<forall>x \<in> set xs. item_reads sql_expr print_expr x" using assms(2) expr_item by (auto simp: list_all_iff)
  from comma_separated_read [OF False this ts(2) readyD(1,2) [OF assms(3)]] show ?thesis by (simp add: parse_group_by_def ts(1))
qed

lemma order_read:
  assumes "tagged ts (print_by KwOrder print_order xs)" "list_all (\<lambda>i. printable_expr (oi_expr i)) xs" "clause_tail 6 rest"
  shows "parse_order_by (ts @ rest) = Ok (xs, rest)"
proof (cases "xs = []")
  case True
  have "peek rest \<noteq> TKeyword KwOrder" by (rule readyD(3) [OF assms(3)]) simp
  then show ?thesis using True assms(1) by (simp add: print_by_def parse_order_by_def)
next
  case False
  then obtain p q us where ts: "ts = (TKeyword KwOrder, p) # (TKeyword KwBy, q) # us" "tagged us (joined_by TComma (map print_order xs))"
    using assms(1) by (auto simp: print_by_def)
  have "\<forall>x \<in> set xs. item_reads parse_order_item print_order x" using assms(2) order_item_read by (auto simp: list_all_iff)
  from comma_separated_read [OF False this ts(2) readyD(1,2) [OF assms(3)]] show ?thesis by (simp add: parse_order_by_def ts(1))
qed

lemma from_read:
  assumes "tagged ts (print_from s)" "sl_from s = None \<longrightarrow> sl_from_alias s = None \<and> sl_joins s = []"
    "list_all (\<lambda>j. printable_expr (jn_on j)) (sl_joins s)" "clause_tail 2 rest"
  shows "parse_from (ts @ rest) = Ok ((sl_from s, sl_from_alias s, sl_joins s), rest)"
proof (cases "sl_from s")
  case None
  have "peek rest \<noteq> TKeyword KwFrom" by (rule readyD(3) [OF assms(4)]) simp
  then show ?thesis using None assms(1,2) by (simp add: print_from_def parse_from_def)
next
  case (Some t)
  then obtain p q ta tj where ts: "ts = (TKeyword KwFrom, p) # (TIdent t, q) # ta @ tj" "tagged ta (print_alias (sl_from_alias s))"
    "tagged tj (concat (map print_join (sl_joins s)))"
    using assms(1) unfolding print_from_def Some option.case tagged_Cons tagged_append by blast
  have e: "ends rest" by (rule readyD(1) [OF assms(4)])
  have c: "closing (tj @ rest)" by (rule joins_closing [OF ts(3) e])
  have na: "peek (tj @ rest) \<noteq> TKeyword KwAs"
  proof (cases "sl_joins s")
    case Nil
    then show ?thesis using ts(3) e by (auto simp: ends_def)
  next
    case (Cons j js)
    then obtain us vs where "tj = us @ vs" "tagged us (print_join j)" using ts(3) unfolding Cons list.map concat.simps tagged_append by blast
    then show ?thesis using join_first [of us j "vs @ rest"] by auto
  qed
  have a: "parse_optional_alias (ta @ tj @ rest) = Ok (sl_from_alias s, tj @ rest)" by (rule alias_read [OF ts(2) c na])
  have "length tj = length (concat (map print_join (sl_joins s)))" using arg_cong [OF ts(3), of length] by simp
  then have "length (sl_joins s) < length (tj @ rest) + 1" using joins_length [of "sl_joins s"] by simp
  from joins_read [OF assms(3) ts(3) e this] a show ?thesis by (simp add: parse_from_def ts(1) Some del: parse_joins.simps)
qed

lemma from_ready: "tagged ts (print_from s) \<Longrightarrow> clause_tail 2 rest \<Longrightarrow> clause_tail 1 (ts @ rest)"
proof (cases "sl_from s")
  case None
  then show "tagged ts (print_from s) \<Longrightarrow> clause_tail 2 rest \<Longrightarrow> clause_tail 1 (ts @ rest)" by (auto simp: print_from_def intro: ready_mono)
next
  case (Some t)
  assume "tagged ts (print_from s)"
  then obtain p us where "ts = (TKeyword KwFrom, p) # us" by (auto simp: print_from_def Some)
  then show "clause_tail 1 (ts @ rest)" by (simp add: ready_keyword)
qed

section \<open>The round trip of statements\<close>

lemma select_read:
  assumes wf: "wf_select s" and t: "tagged ts (print_select s)" and r: "clause_tail 8 rest"
  shows "parse_select (ts @ rest) = Ok (s, rest)"
proof -
  obtain p ds ti tf tw tg th to' tl' tk where ts: "ts = (TKeyword KwSelect, p) # ds @ ti @ tf @ tw @ tg @ th @ to' @ tl' @ tk"
    "tagged ds (if sl_distinct s then [TKeyword KwDistinct] else [])" "tagged ti (joined_by TComma (map print_item (sl_items s)))"
    "tagged tf (print_from s)" "tagged tw (print_clause KwWhere print_expr (sl_filter s))" "tagged tg (print_by KwGroup print_expr (sl_group_by s))"
    "tagged th (print_clause KwHaving print_expr (sl_having s))" "tagged to' (print_by KwOrder print_order (sl_order_by s))"
    "tagged tl' (print_clause KwLimit (\<lambda>i. [TInt i]) (sl_limit s))" "tagged tk (print_clause KwOffset (\<lambda>i. [TInt i]) (sl_offset s))"
    using t unfolding print_select_def tagged_Cons tagged_append by blast
  have r7: "clause_tail 7 (tk @ rest)" by (rule clause_ready [OF _ _ _ ts(10)]) (use r in simp_all)
  have r6: "clause_tail 6 (tl' @ tk @ rest)" by (rule clause_ready [OF _ _ _ ts(9)]) (use r7 in simp_all)
  have r5: "clause_tail 5 (to' @ tl' @ tk @ rest)" by (rule by_ready [OF _ _ _ ts(8)]) (use r6 in simp_all)
  have r4: "clause_tail 4 (th @ to' @ tl' @ tk @ rest)" by (rule clause_ready [OF _ _ _ ts(7)]) (use r5 in simp_all)
  have r3: "clause_tail 3 (tg @ th @ to' @ tl' @ tk @ rest)" by (rule by_ready [OF _ _ _ ts(6)]) (use r4 in simp_all)
  have r2: "clause_tail 2 (tw @ tg @ th @ to' @ tl' @ tk @ rest)" by (rule clause_ready [OF _ _ _ ts(5)]) (use r3 in simp_all)
  have r1: "clause_tail 1 (tf @ tw @ tg @ th @ to' @ tl' @ tk @ rest)" by (rule from_ready [OF ts(4) r2])
  have int: "item_reads parse_int_literal (\<lambda>i. [TInt i]) i" for i by (rule item_readsI) auto
  have e: "x = Some y \<Longrightarrow> item_reads sql_expr print_expr y" if "pred_option printable_expr x" for x y using that expr_item by auto
  have items: "comma_separated parse_select_item (ti @ tf @ tw @ tg @ th @ to' @ tl' @ tk @ rest) = Ok (sl_items s, tf @ tw @ tg @ th @ to' @ tl' @ tk @ rest)"
  proof (rule comma_separated_read [OF _ _ ts(3) readyD(1,2) [OF r1]])
    show "\<forall>i \<in> set (sl_items s). item_reads parse_select_item print_item i" using wf select_item_read by (auto simp: wf_select_def list_all_iff)
  qed (use wf in \<open>simp add: wf_select_def\<close>)
  have nd: "peek (ti @ tf @ tw @ tg @ th @ to' @ tl' @ tk @ rest) \<noteq> TKeyword KwDistinct"
  proof -
    obtain i is' where i: "sl_items s = i # is'" using wf by (cases "sl_items s") (auto simp: wf_select_def)
    have "\<exists>xs. joined_by TComma (map print_item (sl_items s)) = print_expr (si_expr i) @ xs" by (cases is') (auto simp: i print_item_def)
    then obtain xs where "tagged ti (print_expr (si_expr i) @ xs)" using ts(3) by metis
    then obtain te us where "ti = te @ us" "tagged te (print_expr (si_expr i))" unfolding tagged_append by blast
    moreover have "wf_item i" using wf by (simp add: wf_select_def i)
    ultimately show ?thesis using not_first [of "si_expr i" te] by (auto simp: wf_item_def)
  qed
  have d: "accept KwDistinct (ds @ ti @ tf @ tw @ tg @ th @ to' @ tl' @ tk @ rest) = (sl_distinct s, ti @ tf @ tw @ tg @ th @ to' @ tl' @ tk @ rest)"
  proof (cases "sl_distinct s")
    case True
    then obtain q where "ds = [(TKeyword KwDistinct, q)]" using ts(2) by auto
    then show ?thesis using True by (simp add: accept_def)
  next
    case False
    then show ?thesis using ts(2) nd by (simp add: accept_def)
  qed
  have w: "optional_clause KwWhere sql_expr (tw @ tg @ th @ to' @ tl' @ tk @ rest) = Ok (sl_filter s, tg @ th @ to' @ tl' @ tk @ rest)"
    by (rule clause_read_at [OF ts(5) e, where r = 2]) (use wf r3 in \<open>simp_all add: wf_select_def\<close>)
  have h: "optional_clause KwHaving sql_expr (th @ to' @ tl' @ tk @ rest) = Ok (sl_having s, to' @ tl' @ tk @ rest)"
    by (rule clause_read_at [OF ts(7) e, where r = 4]) (use wf r5 in \<open>simp_all add: wf_select_def\<close>)
  have l: "optional_clause KwLimit parse_int_literal (tl' @ tk @ rest) = Ok (sl_limit s, tk @ rest)"
    by (rule clause_read_at [OF ts(9) int, where r = 6]) (use r7 in simp_all)
  have k: "optional_clause KwOffset parse_int_literal (tk @ rest) = Ok (sl_offset s, rest)"
    by (rule clause_read_at [OF ts(10) int, where r = 7]) (use r in simp_all)
  have f: "parse_from (tf @ tw @ tg @ th @ to' @ tl' @ tk @ rest) = Ok ((sl_from s, sl_from_alias s, sl_joins s), tw @ tg @ th @ to' @ tl' @ tk @ rest)"
    by (rule from_read [OF ts(4) _ _ r2]) (use wf in \<open>simp_all add: wf_select_def\<close>)
  have g: "parse_group_by (tg @ th @ to' @ tl' @ tk @ rest) = Ok (sl_group_by s, th @ to' @ tl' @ tk @ rest)"
    by (rule group_read [OF ts(6) _ r4]) (use wf in \<open>simp add: wf_select_def\<close>)
  have ob: "parse_order_by (to' @ tl' @ tk @ rest) = Ok (sl_order_by s, tl' @ tk @ rest)"
    by (rule order_read [OF ts(8) _ r6]) (use wf in \<open>simp add: wf_select_def\<close>)
  show ?thesis unfolding parse_select_def ts(1) append_Cons append_assoc
    by (simp only: keyword_read rbind.simps d Let_def prod.case items f w g h ob l k) simp
qed

lemma final_ready: "peek rest \<in> {TSemicolon, TEof} \<Longrightarrow> clause_tail r rest" if "r \<le> 8"
  using that by (auto simp: clause_tail_def ends_def)

lemma update_read:
  assumes wf: "wf_statement (Update s)" and t: "tagged ts (print_update s)" and r: "clause_tail 8 rest"
  shows "parse_update_stmt (ts @ rest) = Ok (s, rest)"
proof -
  obtain p q w ta tw where ts: "ts = (TKeyword KwUpdate, p) # (TIdent (up_table s), q) # (TKeyword KwSet, w) # ta @ tw"
    "tagged ta (joined_by TComma (map print_assignment (up_assignments s)))" "tagged tw (print_clause KwWhere print_expr (up_filter s))"
    using t unfolding print_update_def tagged_Cons tagged_append by blast
  have r2: "clause_tail 2 (tw @ rest)" by (rule clause_ready [OF _ _ _ ts(3)]) (use r in \<open>simp_all add: ready_mono\<close>)
  have a: "comma_separated parse_assignment (ta @ tw @ rest) = Ok (up_assignments s, tw @ rest)"
  proof (rule comma_separated_read [OF _ _ ts(2) readyD(1,2) [OF r2]])
    show "\<forall>a \<in> set (up_assignments s). item_reads parse_assignment print_assignment a" using wf assignment_read by (auto simp: list_all_iff)
  qed (use wf in simp)
  have w: "optional_clause KwWhere sql_expr (tw @ rest) = Ok (up_filter s, rest)"
    by (rule clause_read_at [OF ts(3), where r = 2]) (use wf r in \<open>auto intro: expr_item ready_mono\<close>)
  show ?thesis unfolding parse_update_stmt_def ts(1) append_Cons append_assoc
    by (simp only: keyword_read ident_read rbind.simps prod.case a w) simp
qed

lemma delete_read:
  assumes wf: "wf_statement (Delete s)" and t: "tagged ts (print_delete s)" and r: "clause_tail 8 rest"
  shows "parse_delete_stmt (ts @ rest) = Ok (s, rest)"
proof -
  obtain p q w tw where ts: "ts = (TKeyword KwDelete, p) # (TKeyword KwFrom, q) # (TIdent (dl_table s), w) # tw"
    "tagged tw (print_clause KwWhere print_expr (dl_filter s))"
    using t unfolding print_delete_def tagged_Cons by blast
  have w: "optional_clause KwWhere sql_expr (tw @ rest) = Ok (dl_filter s, rest)"
    by (rule clause_read_at [OF ts(2), where r = 2]) (use wf r in \<open>auto intro: expr_item ready_mono\<close>)
  show ?thesis unfolding parse_delete_stmt_def ts(1) append_Cons append_assoc
    by (simp only: keyword_read ident_read rbind.simps prod.case w) simp
qed

lemma insert_read:
  assumes wf: "wf_statement (Insert s)" and t: "tagged ts (print_insert s)" and r: "clause_tail 8 rest"
  shows "parse_insert_stmt (ts @ rest) = Ok (s, rest)"
proof -
  obtain p q w tc v tr where ts: "ts = (TKeyword KwInsert, p) # (TKeyword KwInto, q) # (TIdent (in_table s), w) # tc @ (TKeyword KwValues, v) # tr"
    "tagged tc (if in_columns s = [] then [] else print_list (\<lambda>c. [TIdent c]) (in_columns s))"
    "tagged tr (joined_by TComma (map (print_list print_expr) (in_rows s)))"
    using t unfolding print_insert_def tagged_Cons tagged_append by blast
  let ?v = "(TKeyword KwValues, v) # tr @ rest"
  have c: "(if peek (tc @ ?v) = TLParen then until_close parse_ident (tl (tc @ ?v)) else Ok ([], tc @ ?v)) = Ok (in_columns s, ?v)"
  proof (cases "in_columns s = []")
    case True
    then show ?thesis using ts(2) by simp
  next
    case False
    then have t2: "tagged tc (print_list (\<lambda>c. [TIdent c]) (in_columns s))" using ts(2) by simp
    then obtain a us b where tc: "tc = (TLParen, a) # us @ [(TRParen, b)]" "tagged us (joined_by TComma (map (\<lambda>c. [TIdent c]) (in_columns s)))"
      using t2 unfolding print_list_def tagged_Cons tagged_append by auto
    show ?thesis using until_close_read [OF False _ tc(2)] ident_item by (simp add: tc(1))
  qed
  have rows: "comma_separated parse_row (tr @ rest) = Ok (in_rows s, rest)"
  proof (rule comma_separated_read [OF _ _ ts(3) readyD(1,2) [OF r]])
    show "\<forall>a \<in> set (in_rows s). item_reads parse_row (print_list print_expr) a" using wf row_read by (auto simp: list_all_iff)
  qed (use wf in simp)
  show ?thesis unfolding parse_insert_stmt_def ts(1) append_Cons append_assoc
    by (simp only: keyword_read ident_read rbind.simps prod.case c rows) simp
qed

lemma create_read:
  assumes wf: "wf_statement (CreateTable s)" and t: "tagged ts (print_create s)"
  shows "parse_create (ts @ rest) = Ok (s, rest)"
proof -
  obtain p q w a us b where ts: "ts = (TKeyword KwCreate, p) # (TKeyword KwTable, q) # (TIdent (ct_name s), w) # (TLParen, a) # us @ [(TRParen, b)]"
    "tagged us (joined_by TComma (map print_column (ct_columns s)))"
    using t unfolding print_create_def print_list_def tagged_Cons tagged_append by auto
  have c: "until_close parse_column_spec (us @ (TRParen, b) # rest) = Ok (ct_columns s, rest)"
  proof (rule until_close_read [OF _ _ ts(2)])
    show "\<forall>c \<in> set (ct_columns s). item_reads parse_column_spec print_column c" using wf column_read by (auto simp: list_all_iff)
  qed (use wf in simp)
  show ?thesis unfolding parse_create_def ts(1) append_Cons append_assoc append_Nil
    by (simp only: keyword_read ident_read open_read rbind.simps prod.case c) simp
qed

lemma statement_read:
  assumes wf: "wf_statement s" and t: "tagged ts (statement_tokens s)" and r: "peek rest \<in> {TSemicolon, TEof}"
  shows "parse_sql (ts @ rest) = Ok (s, if peek rest = TSemicolon then tl rest else rest)"
proof -
  have rd: "clause_tail 8 rest" using final_ready [OF _ r] by simp
  show ?thesis
  proof (cases s)
    case (Select x)
    then have "parse_select (ts @ rest) = Ok (x, rest)" using select_read [OF _ _ rd] wf t by simp
    moreover have "peek (ts @ rest) = TKeyword KwSelect" using t Select by (auto simp: print_select_def)
    ultimately show ?thesis by (simp add: parse_sql_def as_statement_def Select)
  next
    case (Insert x)
    then have "parse_insert_stmt (ts @ rest) = Ok (x, rest)" using insert_read [OF _ _ rd] wf t by simp
    moreover have "peek (ts @ rest) = TKeyword KwInsert" using t Insert by (auto simp: print_insert_def)
    ultimately show ?thesis by (simp add: parse_sql_def as_statement_def Insert)
  next
    case (Update x)
    then have "parse_update_stmt (ts @ rest) = Ok (x, rest)" using update_read [OF _ _ rd] wf t by simp
    moreover have "peek (ts @ rest) = TKeyword KwUpdate" using t Update by (auto simp: print_update_def)
    ultimately show ?thesis by (simp add: parse_sql_def as_statement_def Update)
  next
    case (Delete x)
    then have "parse_delete_stmt (ts @ rest) = Ok (x, rest)" using delete_read [OF _ _ rd] wf t by simp
    moreover have "peek (ts @ rest) = TKeyword KwDelete" using t Delete by (auto simp: print_delete_def)
    ultimately show ?thesis by (simp add: parse_sql_def as_statement_def Delete)
  next
    case (CreateTable x)
    then have "parse_create (ts @ rest) = Ok (x, rest)" using create_read wf t by simp
    moreover have "peek (ts @ rest) = TKeyword KwCreate" using t CreateTable by (auto simp: print_create_def)
    ultimately show ?thesis by (simp add: parse_sql_def as_statement_def CreateTable)
  next
    case (DropTable x)
    then obtain p q w where "ts = [(TKeyword KwDrop, p), (TKeyword KwTable, q), (TIdent x, w)]" using t by auto
    then show ?thesis by (simp add: parse_sql_def as_statement_def parse_drop_def DropTable)
  qed
qed

text \<open>A script, each statement closed by a semicolon.\<close>

definition script_tokens :: "sql_statement list \<Rightarrow> token list" where
  "script_tokens ss = concat (map (\<lambda>s. statement_tokens s @ [TSemicolon]) ss)"

lemma statement_first: "wf_statement s \<Longrightarrow> tagged ts (statement_tokens s) \<Longrightarrow> peek (ts @ rest) \<noteq> TEof"
  by (cases s) (auto simp: print_select_def print_insert_def print_update_def print_delete_def print_create_def)

lemma script_read:
  "list_all wf_statement ss \<Longrightarrow> tagged ts (script_tokens ss) \<Longrightarrow> length ss < n \<Longrightarrow> script_loop n (ts @ [(TEof, z)]) = Ok ss"
proof (induction ss arbitrary: ts n)
  case Nil
  then show ?case by (cases n) (auto simp: script_tokens_def)
next
  case (Cons s ss)
  obtain us q vs where ts: "ts = us @ (TSemicolon, q) # vs" "tagged us (statement_tokens s)" "tagged vs (script_tokens ss)"
    using Cons.prems(2) unfolding script_tokens_def list.map concat.simps append_assoc append_Cons append_Nil tagged_append tagged_Cons by blast
  obtain k where n: "n = Suc k" "length ss < k" using Cons.prems(3) by (cases n) auto
  have "parse_sql (us @ (TSemicolon, q) # vs @ [(TEof, z)]) = Ok (s, vs @ [(TEof, z)])"
    using statement_read [OF _ ts(2), of "(TSemicolon, q) # vs @ [(TEof, z)]"] Cons.prems(1) by simp
  then show ?case using statement_first [OF _ ts(2), of "(TSemicolon, q) # vs @ [(TEof, z)]"] Cons.IH [OF _ ts(3) n(2)] Cons.prems(1)
    by (simp add: n(1) ts(1))
qed

lemma script_tokens_length: "length ss \<le> length (script_tokens ss)"
  by (induction ss) (auto simp: script_tokens_def)

end
