(* ===== verification/SqlTexts.thy ===== *)
theory SqlTexts
  imports SqlStatements ScriptText
begin

text \<open>
  From tokens to text and back: every token but a real is rendered so that the lexer reads it, a space
  behind each, and a printed script parses to itself.
\<close>

definition keyword_text :: "keyword \<Rightarrow> rstr" where
  "keyword_text k = str (the (map_of (map (\<lambda>(w, k). (k, w)) keyword_words) k))"

definition escape_quotes :: "rstr \<Rightarrow> rstr" where
  "escape_quotes s = concat (map (\<lambda>b. if b = 39 then [39, 39] else [b]) s)"

fun render :: "token \<Rightarrow> u8 list" where
  "render (TIdent s) = 34 # s @ [34]"
| "render (TKeyword k) = keyword_text k"
| "render (TInt i) = show_nat (nat (sint i))"
| "render (TReal r) = []"
| "render (TStr s) = 39 # escape_quotes s @ [39]"
| "render TLParen = [40]" | "render TRParen = [41]" | "render TComma = [44]" | "render TStar = [42]"
| "render TDot = [46]" | "render TSemicolon = [59]" | "render TPlus = [43]" | "render TMinus = [45]"
| "render TSlash = [47]" | "render TPercent = [37]" | "render TEq = [61]" | "render TNotEq = [33, 61]"
| "render TLt = [60]" | "render TLtEq = [60, 61]" | "render TGt = [62]" | "render TGtEq = [62, 61]"
| "render TEof = []"

text \<open>
  Names and strings of ASCII characters: the lexer takes a string byte by byte, and changes any other.
\<close>

fun lexable :: "token \<Rightarrow> bool" where
  "lexable (TIdent s) = list_all (\<lambda>b. b < 128 \<and> b \<noteq> 34) s"
| "lexable (TStr s) = list_all (\<lambda>b. b < 128) s"
| "lexable (TInt i) = (0 \<le> sint i)"
| "lexable (TReal r) = False"
| "lexable TEof = False"
| "lexable t = True"

definition token_text :: "token list \<Rightarrow> u8 list" where
  "token_text ts = concat (map (\<lambda>t. render t @ [32]) ts)"

section \<open>One token\<close>

lemma quoted_read: "list_all (\<lambda>b. b < 128 \<and> b \<noteq> 34) s \<Longrightarrow> quoted_body n (s @ 34 # r) = Ok (s, r)"
  by (induction s) (auto simp: push_char_def)

lemma string_read: "list_all (\<lambda>b. b < 128) s \<Longrightarrow> string_body n (escape_quotes s @ 39 # 32 # r) = Ok (s, 32 # r)"
  by (induction s) (auto simp: push_char_def escape_quotes_def)

lemma single_None:
  "is_alpha b \<Longrightarrow> map_of single_tokens b = None" "is_digit b \<Longrightarrow> map_of single_tokens b = None"
  by (auto simp: single_tokens_def is_alpha_def is_digit_def word_le_nat_alt)

lemma first_alpha: "is_alpha b \<Longrightarrow> b \<noteq> 60 \<and> b \<noteq> 62 \<and> b \<noteq> 33 \<and> b \<noteq> 39 \<and> b \<noteq> 34 \<and> \<not> is_digit b"
  by (auto simp: is_alpha_def is_digit_def word_le_nat_alt)

lemma first_digit: "is_digit b \<Longrightarrow> b \<noteq> 60 \<and> b \<noteq> 62 \<and> b \<noteq> 33 \<and> b \<noteq> 39 \<and> b \<noteq> 34"
  by (auto simp: is_digit_def word_le_nat_alt)

lemma keyword_words_distinct: "distinct (map (\<lambda>p. str (fst p)) keyword_words)"
  by code_simp

lemma keyword_words_upper: "list_all (\<lambda>(w, k). map to_upper (str w) = str w \<and> list_all is_alpha (str w) \<and> str w \<noteq> []) keyword_words"
  by code_simp

lemma keyword_word: "\<exists>w. (w, k) \<in> set keyword_words \<and> keyword_text k = str w"
proof -
  have "k \<in> set (map snd keyword_words)" by (cases k; simp add: keyword_words_def)
  then have "map_of (map (\<lambda>(w, k). (k, w)) keyword_words) k \<noteq> None"
    unfolding map_of_eq_None_iff by (simp add: image_image case_prod_beta)
  then obtain w where w: "map_of (map (\<lambda>(w, k). (k, w)) keyword_words) k = Some w" by blast
  then have "(k, w) \<in> set (map (\<lambda>(w, k). (k, w)) keyword_words)" by (rule map_of_SomeD)
  then show ?thesis using w by (auto simp: keyword_text_def)
qed

lemma keyword_back: "from_word (keyword_text k) = Some k"
proof -
  obtain w where w: "(w, k) \<in> set keyword_words" "keyword_text k = str w" using keyword_word by blast
  have u: "map to_upper (str w) = str w" using keyword_words_upper w(1) by (auto simp: list_all_iff)
  have "distinct (map fst (map (\<lambda>(s, k). (str s, k)) keyword_words))" using keyword_words_distinct by (simp add: case_prod_beta comp_def)
  moreover have "(str w, k) \<in> set (map (\<lambda>(s, k). (str s, k)) keyword_words)" using w(1) by force
  ultimately show ?thesis using u by (simp add: from_word_def w(2) map_of_is_SomeI)
qed

lemma keyword_alpha: "list_all is_alpha (keyword_text k) \<and> keyword_text k \<noteq> []"
proof -
  obtain w where w: "(w, k) \<in> set keyword_words" "keyword_text k = str w" using keyword_word by blast
  then show ?thesis using keyword_words_upper by (auto simp: list_all_iff)
qed

lemma number_read: "list_all is_digit ds \<Longrightarrow> number_span False (ds @ 32 # r) = (ds, False, 32 # r)"
  by (induction ds) (auto simp: is_digit_def word_le_nat_alt)

lemma word_read: "list_all is_alpha w \<Longrightarrow> takeWhile word_char (w @ 32 # r) = w \<and> dropWhile word_char (w @ 32 # r) = 32 # r"
proof -
  assume w: "list_all is_alpha w"
  have s: "\<not> word_char 32" by (simp add: word_char_def is_alpha_def is_digit_def word_le_nat_alt)
  have a: "\<forall>b \<in> set w. word_char b" using w by (auto simp: list_all_iff word_char_def)
  show ?thesis using s a by simp
qed

lemma next_token_word: "list_all is_alpha w \<Longrightarrow> w \<noteq> [] \<Longrightarrow> sql_next_token n (w @ 32 # r) = Ok (lex_word (w @ 32 # r))"
  using single_None first_alpha by (cases w) (auto simp: sql_next_token_def)

lemma next_token_number: "list_all is_digit w \<Longrightarrow> w \<noteq> [] \<Longrightarrow> sql_next_token n (w @ 32 # r) = lex_number n (w @ 32 # r)"
  using single_None first_digit by (cases w) (auto simp: sql_next_token_def)

lemma next_token_render: "lexable t \<Longrightarrow> sql_next_token n (render t @ 32 # r) = Ok (t, 32 # r)"
proof (cases t)
  case (TKeyword k)
  show ?thesis using keyword_alpha [of k] keyword_back [of k] word_read [of "keyword_text k" r]
    by (simp add: TKeyword next_token_word lex_word_def)
next
  case (TInt i)
  assume "lexable t"
  then have i: "print_int i = show_nat (nat (sint i))" by (simp add: TInt print_int_def)
  show ?thesis using show_nat_digits [of "nat (sint i)"] number_read [of "show_nat (nat (sint i))" r] parse_i64_print [of i, unfolded i]
    by (simp add: TInt next_token_number lex_number_def)
qed (simp_all add: sql_next_token_def single_tokens_def quoted_read string_read)

section \<open>The text of a script\<close>

lemma skip_space: "skip_ws_and_comments (32 # bs) = skip_ws_and_comments bs"
  by (subst skip_ws_and_comments.simps) (simp add: ascii_ws_def)

lemma skip_Nil [simp]: "skip_ws_and_comments [] = []"
  by (subst skip_ws_and_comments.simps) simp

lemma skip_stays: "\<not> ascii_ws b \<Longrightarrow> b \<noteq> 45 \<or> take 1 r \<noteq> [45] \<Longrightarrow> skip_ws_and_comments (b # r) = b # r"
  by (subst skip_ws_and_comments.simps) auto

lemma alpha_first: "is_alpha b \<Longrightarrow> \<not> ascii_ws b \<and> b \<noteq> 45"
  by (auto simp: is_alpha_def ascii_ws_def word_le_nat_alt)

lemma digit_first: "is_digit b \<Longrightarrow> \<not> ascii_ws b \<and> b \<noteq> 45"
  by (auto simp: is_digit_def ascii_ws_def word_le_nat_alt)

lemma render_first:
  assumes "lexable t"
  obtains b r where "render t = b # r" "\<not> ascii_ws b" "b \<noteq> 45 \<or> r = []"
proof (cases t)
  case (TKeyword k)
  then show ?thesis using keyword_alpha [of k] that
    by (cases "keyword_text k") (auto simp: alpha_first)
next
  case (TInt i)
  then show ?thesis using show_nat_digits [of "nat (sint i)"] show_nat_ne [of "nat (sint i)"] that
    by (cases "show_nat (nat (sint i))") (auto simp: digit_first)
qed (use assms that in \<open>auto simp: ascii_ws_def\<close>)

lemma tokens_from_text:
  "list_all lexable xs \<Longrightarrow> \<exists>ts. tokens_from n (32 # token_text xs) = Ok ts \<and> tagged ts (xs @ [TEof])"
proof (induction xs)
  case Nil
  show ?case by (subst tokens_from.simps) (simp add: token_text_def skip_space sql_next_token_def)
next
  case (Cons x xs)
  then obtain ts where ts: "tokens_from n (32 # token_text xs) = Ok ts" "tagged ts (xs @ [TEof])" by auto
  have x: "lexable x" using Cons.prems by simp
  obtain b r where b: "render x = b # r" "\<not> ascii_ws b" "b \<noteq> 45 \<or> r = []" using render_first [OF x] by blast
  have t: "token_text (x # xs) = render x @ 32 # token_text xs" by (simp add: token_text_def)
  have s: "skip_ws_and_comments (32 # token_text (x # xs)) = render x @ 32 # token_text xs"
    unfolding skip_space t b(1) append_Cons using skip_stays [OF b(2), of "r @ 32 # token_text xs"] b(3) by auto
  have ne: "x \<noteq> TEof" using x by auto
  have "tokens_from n (32 # token_text (x # xs)) = Ok ((x, n - length (render x @ 32 # token_text xs)) # ts)"
    by (subst tokens_from.simps) (simp add: s next_token_render [OF x] ne ts(1) Let_def)
  then show ?case using ts(2) by simp
qed

lemma tokenize_text: "list_all lexable xs \<Longrightarrow> \<exists>ts. tokenize (token_text xs) = Ok ts \<and> tagged ts (xs @ [TEof])"
proof -
  assume x: "list_all lexable xs"
  let ?n = "length (token_text xs)"
  have l: "length (skip_ws_and_comments (token_text xs)) \<le> length (token_text xs)" by (rule skip_ws_length)
  have "tokens_from ?n (token_text xs) = tokens_from ?n (32 # token_text xs)"
    by (subst (1 2) tokens_from.simps) (simp add: skip_space)
  then show ?thesis using tokens_from_text [OF x, of ?n] by (simp add: tokenize_def)
qed

definition script_text :: "sql_statement list \<Rightarrow> u8 list" where
  "script_text ss = token_text (script_tokens ss)"

lemma script_text_read:
  assumes "list_all wf_statement ss" "list_all lexable (script_tokens ss)"
  shows "parse_script (script_text ss) = Ok ss"
proof -
  obtain ts where t: "tokenize (script_text ss) = Ok ts" "tagged ts (script_tokens ss @ [TEof])"
    using tokenize_text [OF assms(2)] by (auto simp: script_text_def)
  then obtain us z where ts: "ts = us @ [(TEof, z)]" "tagged us (script_tokens ss)" by (auto simp: map_eq_append_conv)
  have "length us = length (script_tokens ss)" using arg_cong [OF ts(2), of length] by simp
  then have "length ss < length ts + 1" using script_tokens_length [of ss] ts(1) by simp
  from script_read [OF assms(1) ts(2) this] show ?thesis by (simp add: parse_script_def t(1) ts(1) del: script_loop.simps)
qed

end
