(* ===== verification/Sessions.thy ===== *)
theory Sessions
  imports SqlFuel
begin

text \<open>
  Sessions (\<open>src/src/session.rs\<close>): prepared statements under handles, parameter binding and settings.
  Quotes and question marks are ASCII, so rewriting placeholders works on the bytes. The handle counter
  and the count of executions panic when they overflow.
\<close>

record prepared =
  pp_handle :: u32
  pp_sql :: rstr
  pp_statement :: sql_statement
  pp_params :: nat

datatype setting = SetBool bool | SetInt i64 | SetText rstr

datatype session_error = SessionParse sql_error | UnknownHandle u32 | ParamCountMismatch nat nat

record session =
  ss_next :: u32
  ss_prepared :: "u32 \<Rightarrow> prepared option"
  ss_settings :: "rstr \<Rightarrow> setting option"
  ss_executed :: u64

type_synonym 'a session_op = "(session, session_error, 'a) op"

definition new_session :: session where
  "new_session = \<lparr>ss_next = 0, ss_prepared = Map.empty,
     ss_settings = [str ''autocommit'' \<mapsto> SetBool True, str ''max_rows'' \<mapsto> SetInt 10000], ss_executed = 0\<rparr>"

section \<open>Placeholders\<close>

text \<open>\<open>rewrite_placeholders\<close>: the rewritten text and the number of placeholders, from inside or outside a string.\<close>

fun rewrite_placeholders :: "bool \<Rightarrow> u8 list \<Rightarrow> u8 list \<times> nat" where
  "rewrite_placeholders q [] = ([], 0)"
| "rewrite_placeholders q (c # cs) =
     (if c = 39 then (let (out, n) = rewrite_placeholders (\<not> q) cs in (c # out, n))
      else if c = 63 \<and> \<not> q then (let (out, n) = rewrite_placeholders q cs in (str ''NULL'' @ out, n + 1))
      else (let (out, n) = rewrite_placeholders q cs in (c # out, n)))"

section \<open>Operations\<close>

definition parse_one :: "u8 list \<Rightarrow> (sql_error, sql_statement) res" where
  "parse_one src = rbind (tokenize src) (\<lambda>ts. rbind (parse_sql ts) (\<lambda>(s, ts). Ok s))"

fun map_err :: "('e \<Rightarrow> 'f) \<Rightarrow> ('e, 'a) res \<Rightarrow> ('f, 'a) res" where
  "map_err f (Ok a) = Ok a"
| "map_err f (Err e) = Err (f e)"
| "map_err f Panic = Panic"
| "map_err f Undef = Undef"

definition prepare :: "rstr \<Rightarrow> u32 session_op" where
  "prepare sql s = (let (outp, n) = rewrite_placeholders False sql in case map_err SessionParse (parse_one outp) of
       Ok st \<Rightarrow> if ss_next s = 0xFFFFFFFF then (Panic, s)
         else (Ok (ss_next s), s\<lparr>ss_next := ss_next s + 1,
           ss_prepared := (ss_prepared s)(ss_next s \<mapsto> \<lparr>pp_handle = ss_next s, pp_sql = sql, pp_statement = st, pp_params = n\<rparr>)\<rparr>)
     | Err e \<Rightarrow> (Err e, s) | Panic \<Rightarrow> (Panic, s) | Undef \<Rightarrow> (Undef, s))"

definition get_prepared :: "u32 \<Rightarrow> session \<Rightarrow> prepared option" where
  "get_prepared h s = ss_prepared s h"

definition bind_params :: "u32 \<Rightarrow> val list \<Rightarrow> val list session_op" where
  "bind_params h ps s = (case ss_prepared s h of
       None \<Rightarrow> (Err (UnknownHandle h), s)
     | Some p \<Rightarrow> if length ps \<noteq> pp_params p then (Err (ParamCountMismatch (pp_params p) (length ps)), s)
         else if ss_executed s = 0xFFFFFFFFFFFFFFFF then (Panic, s)
         else (Ok ps, s\<lparr>ss_executed := ss_executed s + 1\<rparr>))"

definition deallocate :: "u32 \<Rightarrow> bool session_op" where
  "deallocate h s = (Ok (ss_prepared s h \<noteq> None), s\<lparr>ss_prepared := (ss_prepared s)(h := None)\<rparr>)"

definition set_setting :: "rstr \<Rightarrow> setting \<Rightarrow> unit session_op" where
  "set_setting n v s = (Ok (), s\<lparr>ss_settings := (ss_settings s)(n \<mapsto> v)\<rparr>)"

definition get_int :: "rstr \<Rightarrow> i64 \<Rightarrow> session \<Rightarrow> i64" where
  "get_int n d s = (case ss_settings s n of Some (SetInt i) \<Rightarrow> i | _ \<Rightarrow> d)"

section \<open>Sequences of calls\<close>

datatype session_call = CallPrepareSql rstr | CallBind u32 "val list" | CallDeallocate u32 | CallSet rstr setting

definition after_call :: "session_call \<Rightarrow> session \<Rightarrow> session" where
  "after_call c s = (case c of CallPrepareSql q \<Rightarrow> snd (prepare q s) | CallBind h ps \<Rightarrow> snd (bind_params h ps s)
     | CallDeallocate h \<Rightarrow> snd (deallocate h s) | CallSet n v \<Rightarrow> snd (set_setting n v s))"

definition after_calls :: "session_call list \<Rightarrow> session \<Rightarrow> session" where
  "after_calls cs s = fold after_call cs s"

text \<open>
  What holds of every session: handles are below the counter, a statement is stored under its own handle,
  and its statement and parameter count are those of its text.
\<close>

definition session_ok :: "session \<Rightarrow> bool" where
  "session_ok s \<longleftrightarrow> (\<forall>h p. ss_prepared s h = Some p \<longrightarrow> h < ss_next s \<and> pp_handle p = h \<and>
     parse_one (fst (rewrite_placeholders False (pp_sql p))) = Ok (pp_statement p) \<and>
     pp_params p = snd (rewrite_placeholders False (pp_sql p)))"

lemma new_session_ok: "session_ok new_session"
  by (simp add: session_ok_def new_session_def)

lemma prepare_cases:
  obtains (stored) st n outp where "rewrite_placeholders False q = (outp, n)" "parse_one outp = Ok st" "ss_next s \<noteq> 0xFFFFFFFF"
      "prepare q s = (Ok (ss_next s), s\<lparr>ss_next := ss_next s + 1,
         ss_prepared := (ss_prepared s)(ss_next s \<mapsto> \<lparr>pp_handle = ss_next s, pp_sql = q, pp_statement = st, pp_params = n\<rparr>)\<rparr>)"
    | (failed) x where "prepare q s = (x, s)" "\<And>h. x \<noteq> Ok h"
proof -
  obtain outp n where r: "rewrite_placeholders False q = (outp, n)" by (cases "rewrite_placeholders False q")
  show thesis
  proof (cases "parse_one outp")
    case (Ok st)
    show thesis
    proof (cases "ss_next s = 0xFFFFFFFF")
      case True
      then show thesis using failed [of Panic] by (simp add: prepare_def r Ok)
    next
      case False
      then show thesis using stored [OF r Ok] by (simp add: prepare_def r Ok)
    qed
  next
    case (Err e)
    then show thesis using failed [of "Err (SessionParse e)"] by (simp add: prepare_def r)
  next
    case Panic
    then show thesis using failed [of Panic] by (simp add: prepare_def r)
  next
    case Undef
    then show thesis using failed [of Undef] by (simp add: prepare_def r)
  qed
qed

lemma next_above: "x \<noteq> (0xFFFFFFFF :: u32) \<Longrightarrow> x < x + 1"
proof -
  assume x: "x \<noteq> 0xFFFFFFFF"
  have "1 + x \<noteq> 0"
  proof
    assume "1 + x = 0"
    then have "x = - 1" by (simp add: add_eq_0_iff)
    then show False using x by simp
  qed
  then have "unat (x + 1) = Suc (unat x)" using unatSuc [of x] by (simp add: add.commute)
  then show "x < x + 1" by (simp add: word_less_nat_alt)
qed

lemma prepare_ok: "session_ok s \<Longrightarrow> session_ok (snd (prepare q s))"
proof (cases rule: prepare_cases [where q = q and s = s])
  case (stored st n outp)
  assume ok: "session_ok s"
  have "\<And>h. h < ss_next s \<Longrightarrow> h < ss_next s + 1" using next_above [OF stored(3)] by (rule less_trans [rotated])
  then show ?thesis using ok stored next_above [OF stored(3)] by (auto simp: session_ok_def)
next
  case (failed x)
  then show "session_ok s \<Longrightarrow> ?thesis" by simp
qed

lemma bind_ok: "session_ok s \<Longrightarrow> session_ok (snd (bind_params h ps s))"
  by (auto simp: bind_params_def session_ok_def split: option.split)

lemma after_call_ok: "session_ok s \<Longrightarrow> session_ok (after_call c s)"
proof (cases c)
  case (CallDeallocate h)
  then show "session_ok s \<Longrightarrow> ?thesis" by (auto simp: after_call_def deallocate_def session_ok_def)
next
  case (CallSet n v)
  then show "session_ok s \<Longrightarrow> ?thesis" by (auto simp: after_call_def set_setting_def session_ok_def)
qed (simp_all add: after_call_def prepare_ok bind_ok)

lemma after_calls_ok: "session_ok s \<Longrightarrow> session_ok (after_calls cs s)"
  unfolding after_calls_def by (induction cs arbitrary: s) (auto intro: after_call_ok)

text \<open>A handle below the counter that names nothing stays so.\<close>

definition retired :: "u32 \<Rightarrow> session \<Rightarrow> bool" where
  "retired h s \<longleftrightarrow> h < ss_next s \<and> ss_prepared s h = None"

lemma prepare_retired: "retired h s \<Longrightarrow> retired h (snd (prepare q s))"
proof (cases rule: prepare_cases [where q = q and s = s])
  case (stored st n outp)
  assume r: "retired h s"
  then have "h < ss_next s + 1" using next_above [OF stored(3)] by (auto simp: retired_def intro: less_trans)
  then show ?thesis using r stored by (auto simp: retired_def)
qed simp

lemma after_call_retired: "retired h s \<Longrightarrow> retired h (after_call c s)"
  by (cases c) (auto simp: after_call_def prepare_retired deallocate_def set_setting_def, auto simp: retired_def bind_params_def split: option.split)

lemma after_calls_retired: "retired h s \<Longrightarrow> retired h (after_calls cs s)"
  unfolding after_calls_def by (induction cs arbitrary: s) (auto intro: after_call_retired)

lemma deallocate_retires: "session_ok s \<Longrightarrow> ss_prepared s h \<noteq> None \<Longrightarrow> retired h (snd (deallocate h s))"
  by (auto simp: session_ok_def deallocate_def retired_def)

lemma bind_Ok_iff:
  "fst (bind_params h ps s) = Ok qs \<longleftrightarrow> (\<exists>p. ss_prepared s h = Some p \<and> length ps = pp_params p) \<and> qs = ps \<and> ss_executed s \<noteq> 0xFFFFFFFFFFFFFFFF"
  by (auto simp: bind_params_def split: option.split)

end
