(* ===== verification/SqlSamples.thy ===== *)
theory SqlSamples
  imports Pipelines Logicals SqlTexts Sessions
begin

text \<open>
  Concrete rows, expressions and statements for the witnesses of the SQL properties, and what they
  evaluate to.
\<close>

definition sql_cols :: "rstr \<Rightarrow> nat option" where
  "sql_cols = [str ''dept'' \<mapsto> 0, str ''pay'' \<mapsto> 1]"

definition sample_rows :: "val list list" where
  "sample_rows = [[VInt 2, VInt 30], [VInt 1, VInt 10], [VInt 2, VInt 20], [VInt 1, VInt 5]]"

definition sample_pred :: expr where
  "sample_pred = Binary Gt (Column (str ''pay'')) (LitInt 5)"

definition sample_program :: program where
  "sample_program = [PushColumn 1, PushConst (VInt 5), VmBinary Gt]"

lemma sample_compile: "compile sql_cols sample_pred = Ok sample_program"
  by (simp add: compile_def column_index_def ok_or_def sql_cols_def sample_pred_def sample_program_def)

lemma sample_project_compile: "compile sql_cols (Column (str ''pay'')) = Ok [PushColumn 1]"
  by (simp add: compile_def column_index_def ok_or_def sql_cols_def)

lemma sample_values:
  "meaning sql_cols [VInt a, VInt b] sample_pred = (Ok (VBool (5 < sint b)) :: ('e, val) res)"
  "meaning sql_cols [VInt a, VInt b] (Column (str ''pay'')) = (Ok (VInt b) :: ('e, val) res)"
  by (simp_all add: sample_pred_def sql_cols_def apply_binary_def nth_opt_def)

lemma sample_homogeneous: "homogeneous [(0, True)] (set sample_rows)"
  by (auto simp: homogeneous_def sample_rows_def row_cell_def nth_opt_def same_kind_def)

text \<open>\<open>SELECT DISTINCT dept AS d FROM emp e WHERE 1 < 2 AND pay > 5\<close>, and a script of three statements.\<close>

definition sample_select :: select_stmt where
  "sample_select = \<lparr>sl_distinct = True, sl_items = [\<lparr>si_expr = Column (str ''dept''), si_alias = Some (str ''d'')\<rparr>],
     sl_from = Some (str ''emp''), sl_from_alias = Some (str ''e''), sl_joins = [],
     sl_filter = Some (Binary And (Binary Lt (LitInt 1) (LitInt 2)) sample_pred),
     sl_group_by = [], sl_having = None, sl_order_by = [], sl_limit = Some 3, sl_offset = None\<rparr>"

definition sample_script :: "sql_statement list" where
  "sample_script = [Select sample_select,
     Insert \<lparr>in_table = str ''emp'', in_columns = [str ''dept''], in_rows = [[LitStr (str ''it'')], [Unary Neg (LitInt 4)]]\<rparr>,
     Delete \<lparr>dl_table = str ''emp'', dl_filter = Some (IsNull (Binary Add (Column (str ''dept'')) (LitInt 1)) True)\<rparr>]"

lemma sample_script_wf: "list_all wf_statement sample_script"
  by (simp add: sample_script_def sample_select_def wf_select_def wf_item_def sample_pred_def)

lemma sample_script_lexable: "list_all lexable (script_tokens sample_script)"
  by code_simp

end
