(* ===== verification/Verified.thy ===== *)
theory Verified
  imports Verifier Mutations
begin

text \<open>
  What the pass of \<open>src/src/verify.rs\<close> is worth to the reader that follows it, and what it does not look
  at. An accepted database has no unchecked slot read out of range, on any row and column; it may all
  the same disagree with its schema, its zone maps, its indexes and its free-space map.
\<close>

section \<open>Reads of an accepted database\<close>

lemma verified_read_defined:
  assumes "verify db = Ok ()"
  shows "\<exists>x. read_row_cell_fast db r c = Ok x"
proof (cases "rid_get (rowids db) r")
  case (Some place)
  obtain p i where "place = (p, i)" by (cases place)
  with Some have g: "rid_get (rowids db) r = Some (p, i)" by simp
  have v: "verified db" using assms by (simp add: verify_Ok)
  then obtain pg where pg: "pager_get (pager db) p = Some pg"
    using g unfolding verified_def on_data_page_def by blast
  obtain e where "slot_at_unchecked pg i = Ok e" using verified_slot [OF v g pg] by blast
  then show ?thesis using g pg by (simp add: read_row_cell_fast_def split: res.split)
qed (simp add: read_row_cell_fast_def)

section \<open>What is not looked at\<close>

definition same_zone_pages :: "zone_map list \<Rightarrow> zone_map list \<Rightarrow> bool" where
  "same_zone_pages = list_all2 (\<lambda>z z'. map z_page (zm_iter z) = map z_page (zm_iter z'))"

definition same_index_gens :: "index_cache option list \<Rightarrow> index_cache option list \<Rightarrow> bool" where
  "same_index_gens = list_all2 (rel_option (\<lambda>x y. ic_dict x = ic_dict y \<and>
     map ie_gen (ic_entries x) = map ie_gen (ic_entries y)))"

lemma verified_blind:
  assumes v: "verified db" and s: "map dict_page s = map dict_page (schema db)"
    and f: "map fst (space f) = map fst (space (fsm db))"
    and z: "same_zone_pages zs (zone_maps db)" and x: "same_index_gens xs (indexes db)"
  shows "verified (db\<lparr>schema := s, fsm := f, zone_maps := zs, indexes := xs, next_row_id := n\<rparr>)"
proof -
  have 1: "\<exists>pg. pager_get (pager db) pid = Some pg \<and> pg_kind pg = PkDict" if "c \<in> set s" "dict_page c = Some pid" for c pid
  proof -
    have "Some pid \<in> set (map dict_page s)" using that by force
    then have "Some pid \<in> set (map dict_page (schema db))" by (simp only: s)
    then show ?thesis using v unfolding verified_def by auto
  qed
  have 2: "pager_get (pager db) p \<noteq> None" if "(p, u) \<in> set (space f)" for p u
  proof -
    have "p \<in> set (map fst (space f))" using that by force
    then have "p \<in> set (map fst (space (fsm db)))" by (simp only: f)
    then show ?thesis using v unfolding verified_def by auto
  qed
  have 3: "\<exists>pg. pager_get (pager db) (z_page y) = Some pg \<and> pg_kind pg = PkData" if "zm \<in> set zs" "y \<in> set (zm_iter zm)" for zm y
  proof -
    have m: "zm \<in> set zs" using that(1) .
    obtain k where k: "k < length zs" "zm = zs ! k" using m by (auto simp: in_set_conv_nth)
    have zk: "length zs = length (zone_maps db)" "map z_page (zm_iter zm) = map z_page (zm_iter (zone_maps db ! k))"
      using z k unfolding same_zone_pages_def by (simp_all add: list_all2_conv_all_nth)
    obtain zm' where zm': "zm' \<in> set (zone_maps db)" "map z_page (zm_iter zm) = map z_page (zm_iter zm')"
      using zk(2) nth_mem [of k "zone_maps db"] k(1) zk(1) by (intro that [of "zone_maps db ! k"]) simp_all
    have "z_page y \<in> set (map z_page (zm_iter zm))" using that(2) by simp
    then have "z_page y \<in> set (map z_page (zm_iter zm'))" by (simp only: zm'(2))
    then show ?thesis using v zm'(1) unfolding verified_def by auto
  qed
  have 4: "ie_gen e = pg_gen pg"
    if "Some idx \<in> set xs" "pager_get (pager db) (ic_dict idx) = Some pg" "e \<in> set (ic_entries idx)" for idx pg e
  proof -
    have m: "Some idx \<in> set xs" using that(1) .
    obtain y where y: "Some y \<in> set (indexes db)" "ic_dict idx = ic_dict y" "map ie_gen (ic_entries idx) = map ie_gen (ic_entries y)"
    proof -
      obtain k where k: "k < length xs" "xs ! k = Some idx" using m by (auto simp: in_set_conv_nth)
      have l: "length xs = length (indexes db)"
        and r: "rel_option (\<lambda>x y. ic_dict x = ic_dict y \<and> map ie_gen (ic_entries x) = map ie_gen (ic_entries y)) (Some idx) (indexes db ! k)"
        using x k list_all2_lengthD list_all2_nthD [of _ xs "indexes db" k] unfolding same_index_gens_def by fastforce+
      obtain y where y: "indexes db ! k = Some y" "ic_dict idx = ic_dict y"
        "map ie_gen (ic_entries idx) = map ie_gen (ic_entries y)"
        using r by (auto simp: option_rel_Some1)
      have "Some y \<in> set (indexes db)" using nth_mem [of k "indexes db"] k(1) l y(1) by simp
      then show ?thesis using y(2,3) by (rule that)
    qed
    have "ie_gen e \<in> set (map ie_gen (ic_entries idx))" using that(3) by simp
    then have "ie_gen e \<in> set (map ie_gen (ic_entries y))" by (simp only: y(3))
    then show ?thesis using v y(1,2) that(2) unfolding verified_def by auto
  qed
  have sm: "slots_mapped (db\<lparr>schema := s, fsm := f, zone_maps := zs, indexes := xs, next_row_id := n\<rparr>) = slots_mapped db"
    "on_data_page (db\<lparr>schema := s, fsm := f, zone_maps := zs, indexes := xs, next_row_id := n\<rparr>) = on_data_page db"
    by (simp_all add: fun_eq_iff slots_mapped_def on_data_page_def)
  show ?thesis using v 1 2 3 4 unfolding verified_def sm by simp blast
qed

end
