(* ===== verification/Spec2Isabelle.thy ===== *)
theory Spec2Isabelle
  imports Samples TxnSamples SqlSamples Verified
begin

text \<open>
  Verification of the schist columnar storage engine (\<open>src/src/*.rs\<close>).

  A database (\<open>Database\<close> in \<open>pager.rs\<close>, the record \<open>db\<close> of theory Databases) is a schema, a pager of
  data and dictionary pages, a free-space map, a row-id map, per-column index caches, dictionary
  mirrors and zone maps, and a counter for row ids. The engine inserts, updates and deletes rows
  (\<open>mutation.rs\<close>, Mutations), splits, merges and repacks pages (\<open>compact.rs\<close>, Compactions), answers scans,
  joins and aggregates (\<open>query.rs\<close>, Queries), runs operation scripts (\<open>script.rs\<close> and \<open>lib.rs\<close>; Lexers,
  Parsers, Scripts), writes and reads the container file (\<open>format.rs\<close>, Containers), and checks a decoded
  database (\<open>verify.rs\<close>, Verifier). Beside the engine the crate has a write-ahead log (\<open>wal.rs\<close>, Wals),
  variable-length integers with a bit stream (\<open>varint.rs\<close>, Varints), a multi-version transaction
  manager that writes to the log (\<open>txn.rs\<close>, Txns), and an SQL front end: lexer and parser (\<open>sql.rs\<close>,
  SqlLexers, SqlParsers), a compiler of expressions to a stack machine (\<open>exprvm.rs\<close>, ExprVm), pull operators
  (\<open>physical.rs\<close>, Physicals), logical plans with their optimizer (\<open>logical.rs\<close>, Logicals), and sessions with
  prepared statements (\<open>session.rs\<close>, Sessions).

  Conventions. Prelude holds the result type \<open>res\<close>: \<open>Ok\<close>, \<open>Err\<close> for an error value, \<open>Panic\<close> for a Rust
  panic (out-of-range slice, overflow of checked arithmetic, \<open>unwrap\<close>), and \<open>Undef\<close> for undefined
  behaviour of \<open>unsafe\<close> code. A stateful operation (\<open>op\<close>) returns its outcome with the state it
  leaves, after an error the partly changed one. Machine integers are words; a \<open>usize\<close> that only counts
  elements of lists is a \<open>nat\<close>. Strings are lists of bytes. Sorted maps of the standard library are
  sorted association lists (SortedMap). A raw pointer is an allocation number with an offset
  (Pagers): replacing a page's buffer gives it a new allocation, so that a stale pointer reads \<open>Undef\<close>.
  Reals are 64-bit patterns (F64) with the comparison of \<open>f64::total_cmp\<close>.

  Theories by component.
  Errors, Values, Schemas: \<open>error.rs\<close>, \<open>value.rs\<close>, \<open>schema.rs\<close> with the schema record's codec.
  Pagers, Dicts, Indexes, IndexLife: \<open>pager.rs\<close>, \<open>dict.rs\<close>, \<open>index.rs\<close>; a dictionary represents a list of
  distinct strings (\<open>dict_rep\<close>), and an index is bound while its pointers point at its values
  (\<open>index_bound\<close>); IndexLife follows both through growth and rebinding.
  RowIds, Fsms, ZoneMaps, Rles: \<open>rowid.rs\<close>, \<open>fsm.rs\<close>, \<open>zonemap.rs\<close>, \<open>rle.rs\<close> with their codecs. Records is the
  locale of codecs for fixed-size records that Bodies, RowIds, Fsms and Containers interpret.
  Bodies, Regions: the data-page chunk of \<open>format.rs\<close>, and what appending, rewriting, selecting and
  merging do to the cells of a column region in each of the three encodings.
  Databases, Tables: the invariant \<open>db_ok\<close> and the abstract table (row id to row), with the effect of
  insert, delete and update. Compacted: split, merge and repack on the table. Interning: \<open>intern_text\<close>.
  Reachable: the calls on the engine (\<open>db_call\<close>, \<open>db_step\<close>), the invariant they keep, and the abstract
  machine they refine (\<open>abs_call\<close>: a map from ids to rows with the id counter, where \<open>kept\<close> says what a
  column makes of a value). An insert under an id in use and the in-place repack are not among the calls:
  the first leaves two live slots for the id, the second breaks the invariant.
  Checkpoints: encoding followed by decoding. ScriptRuns, ScriptText: runs of scripts, and printing
  statements. Verified: what the acceptance of the verifier is worth. Samples: the concrete databases of
  the witnesses.
  Txns: versions, chains, read views, locks, and every operation of the transaction manager, with
  recovery. Visibility: what a view sees of a chain, and the changes it does not notice. TxnRuns,
  Recoveries, TxnCalls: the invariant (\<open>tm_ok\<close>: disjoint version intervals, no committed version of an
  active transaction, well-formed locks), proved for every operation by triples that also carry what
  other transactions see; the calls as a datatype and the reachable states. TxnFacts, TxnEnds: locks,
  commits, own writes. Deadlocks: the search of the wait-for graph. TxnSamples: witnesses and the
  histories behind the findings.
  SqlSyntax, SqlLexers, SqlParsers: the trees and the text of SQL. SqlFuel: parsing ends for every text.
  SqlPrints, SqlStatements, SqlTexts: printers for expressions, statements and scripts, and their reading
  back. F64Arith: rounded arithmetic on 64-bit patterns. ExprVm: compiler and machine against the
  denotation \<open>meaning\<close>. Physicals, RowSorts, Pipelines: each operator interprets the locale \<open>operator\<close> (its
  state stands for a stream of rows); sorting, grouping, and composed pipelines. Logicals: lowering, folding
  and the passes of the optimizer. Sessions: calls on a session. SqlSamples: witnesses.

  What the properties below show. Every operation of the engine keeps the invariant and changes the
  table as its name says, within stated bounds (\<open>db_room\<close>: page and counter limits below 32-bit overflow);
  reads, scans, joins and aggregates return what the table says; a checkpoint restores the table and
  the answers of the indexes, while its pages are in the order of its records; in an accepted database
  unchecked reads are in range; a script as a whole never ends with an error value. The transaction manager gives snapshot isolation,
  publishes commits, excludes writers, validates serializable transactions and finds deadlocks; hash
  iteration order is taken to be key order. Compiled SQL expressions compute their meaning, pipelines of
  operators return what the statement asks for, the sort operator yields the one stable arrangement in the order of its keys, constant folding keeps the
  value of an expression, parsing inverts printing, and sessions keep their handles apart. Some theorems
  show behaviour that is not as intended: repack strands rows, growth of a dictionary leaves the index
  dangling, a long string makes interning panic, a null erases a run-length column of Booleans or texts and
  is a zero in every other column, a checkpoint whose pages are not in record order loses rows, an index
  entry behind a string whose length is no multiple of four is read misaligned, the verifier looks at nothing but the page
  structure, and the optimizer does none of the moves its documentation names.

  Bounds. Hypotheses of the form \<open>n < 2 ^ 32\<close> are the sizes at which the code's casts to \<open>u32\<close> would
  cut; \<open>page_small\<close> bounds a page's slots so that its regions stay below them. Loops recurse on
  lists, counts or a measure. The deadlock search has fuel, one more than the number of nodes the
  graph mentions, and the theorem on it shows that this is enough; the SQL expression parser has four units
  of fuel per token and four more, \<open>Undef\<close> there means that it ran out, and SqlFuel proves that it never does.
  Loops over the rows of an operator may not end and are \<open>partial_function (option)\<close>.

  Assumed of the platform: the buffer of a page starts at a multiple of four bytes, an allocation does not
  fail (the decoders reserve room by counts they read from the file), and the native stack is deep enough
  for the recursion of the SQL parser, which has no limit. The counters of \<open>stats\<close> wrap here, where a build
  with overflow checks would panic after \<open>2 ^ 64\<close> calls.

  Not modelled: the textual Display of errors, the addresses of the allocator (a parameter of the
  encoder, since the file stores raw pointers that decoding ignores), the path of an index scan through
  a stale index (its probe is \<open>Undef\<close>), and the modules listed as not modelled in the manifest: the
  vectorised executor, the explain text of plans, and most of the stand-alone structures that the container
  does not call.
\<close>

section \<open>The table operations\<close>



text \<open>
  C2: Where no index is on the path, a delete removes exactly the rows that satisfy the predicate,
  returns their number and keeps the invariant.
\<close>

theorem delete_removes_matching:
  assumes "db_ok db" and "col < length (schema db)" and "index_path db col op t = None"
  shows "\<exists>db'. delete_where col op t db = (Ok (card (matching db col op t)), db') \<and> db_ok db' \<and>
    table db' = (table db) |` (- matching db col op t)"
  using delete_where_ok [OF assms] by metis

theorem delete_removes_matching_witness:
  "\<exists>db'. delete_where 2 OpEq (VInt 5) sample_db7 = (Ok 1, db') \<and> db_ok db' \<and> table db' = Map.empty"
proof -
  have "2 < length (schema sample_db7)" by (simp add: sample_schema_def)
  then show ?thesis
    using delete_removes_matching [of sample_db7 2 OpEq "VInt 5", OF sample_db7_ok(1) _ sample_path]
    by (simp add: sample_matching)
qed



text \<open>
  C10: In a well-formed database the unchecked fast read is defined for every row id and every
  column, and both read paths return the table's value.
\<close>

theorem fast_read_agrees:
  assumes "db_ok db"
  shows "read_row_cell_fast db r col = Ok (read_row_cell db r col) \<and>
    read_row_cell db r col = (case table db r of None \<Rightarrow> None | Some row \<Rightarrow> nth_opt row col)"
  using read_row_cell_fast_table [OF assms] read_row_cell_table [OF assms] by simp

theorem fast_read_agrees_witness:
  "read_row_cell_fast sample_db7 7 2 = Ok (Some (VInt 5)) \<and> read_row_cell_fast sample_db7 8 2 = Ok None"
  using fast_read_agrees [of sample_db7 7 2] fast_read_agrees [of sample_db7 8 2]
  by (simp add: sample_row_def nth_opt_def)






text \<open>
  C6: Appending a null to a run-length column of Booleans or texts loses the column: the run is written
  with the width of an integer, the bytes no longer divide into runs, every row of the page reads as
  null, and the value appended next is read as that of the first row.
\<close>

theorem rle_null_erases:
  assumes "rg_encoding r = Rle" and "rg_kind r = KBool \<or> rg_kind r = KText" and "kind v = col_kind_name (rg_kind r)"
  shows "read_cell (append_cell r VNull) i = VNull \<and>
    read_cell (append_cell (append_cell r VNull) v) i = (if i = 0 then v else VNull)"
  using append_null_erases [OF assms(1,2)] append_after_null [OF assms]
  by (simp add: read_cell_cells nth_or_null_def nth_opt_def)

theorem rle_null_erases_witness:
  "read_cell (append_cell (region_new KBool Rle) (VBool True)) 0 = VBool True \<and>
   read_cell (append_cell (append_cell (region_new KBool Rle) (VBool True)) VNull) 0 = VNull"
proof -
  have "read_cell (append_cell (region_new KBool Rle) (VBool True)) 0 = VBool True" by code_simp
  moreover have "rg_encoding (append_cell (region_new KBool Rle) (VBool True)) = Rle"
    "rg_kind (append_cell (region_new KBool Rle) (VBool True)) = KBool" by (simp_all add: region_new_def)
  ultimately show ?thesis
    using rle_null_erases [of "append_cell (region_new KBool Rle) (VBool True)" "VBool False" 0] by simp
qed

section \<open>Checkpoints\<close>



text \<open>
  The order is needed: after one insert and then the first interning of a text, both by the operations
  of the engine on a new database, the data page comes before the dictionary page, and the row read back
  from the checkpoint is gone.
\<close>

theorem checkpoint_reorders_pages:
  "\<exists>data db'. encode_database (\<lambda>_. 0) reordered_db = Ok data \<and> decode data = Ok db' \<and>
    read_row_cell reordered_db 1 2 = Some (VInt 5) \<and> read_row_cell db' 1 2 = None"
proof -
  let ?es = "records_of (\<lambda>_. 0) reordered_db"
  obtain data where d: "layout ?es = Ok data" "read_container data = Ok ?es"
    using read_container_layout [of ?es] reordered_records by blast
  obtain db' where "rbind (decode_records ?es decoded_new) assemble = Ok db'" "read_row_cell db' 1 2 = None"
    using reordered_decoded by (cases "rbind (decode_records ?es decoded_new) assemble") auto
  then show ?thesis using d reordered_row by (simp add: encode_database_def decode_def)
qed

section \<open>Compaction\<close>

text \<open>
   Compacting a page that is not repacked in place (it is split, merged into a neighbour, or left
  alone) completes, keeps the invariant and leaves the table as it was.
\<close>

theorem compact_page_keeps_table:
  assumes "db_ok db" and "pager_get (pager db) p = Some pg" and "pg_kind pg = PkData" and "page_small db pg"
    and "free_ids (pager db) \<noteq> [] \<or> length (pages (pager db)) < 4294967295"
    and "\<forall>npg \<in> set (data_pages (pager db)). 12 * (slot_count npg + slot_count pg + 1) < 2 ^ 32"
    and "\<not> repacks db p pg"
  shows "\<exists>n db'. compact_page p db = (Ok n, db') \<and> db_ok db' \<and> table db' = table db"
  using compact_page_ok [OF assms] by blast

theorem compact_page_keeps_table_witness:
  "\<exists>n db'. compact_page 0 sample_db5 = (Ok n, db') \<and> db_ok db' \<and> table db' = table sample_db5"
proof -
  have "\<not> repacks sample_db5 0 sample_page"
    by (simp add: repacks_def sample_pager5(4) sample_page_live)
  then show ?thesis
    using compact_page_keeps_table [OF sample_db5_ok _ _ sample_page_small(1)] sample_page_small sample_pager5
    by auto
qed

text \<open>
   Splitting a data page moves its live rows to two packed pages and keeps the invariant and the
  table.
\<close>

theorem split_keeps_table:
  assumes "db_ok db" and "pager_get (pager db) p = Some pg" and "pg_kind pg = PkData" and "page_small db pg"
    and "free_ids (pager db) \<noteq> [] \<or> length (pages (pager db)) < 4294967295"
  shows "\<exists>db'. split_page p db = (Ok (), db') \<and> db_ok db' \<and> table db' = table db \<and> schema db' = schema db"
  by (rule split_page_ok [OF assms])

theorem split_keeps_table_witness:
  "\<exists>db'. split_page 0 sample_db5 = (Ok (), db') \<and> db_ok db' \<and> table db' = table sample_db5"
  using split_keeps_table [OF sample_db5_ok sample_page0 sample_pager5(2) sample_page_small(1)] sample_page_small(2) by blast

text \<open>
   Repacking a page packs its live rows to the front in their order and with their values, but
  leaves the row-id map as it was.
\<close>

theorem repack_keeps_rows:
  assumes "db_ok db" and "pager_get (pager db) p = Some pg" and "pg_kind pg = PkData" and "page_small db pg"
    and "live_count pg \<noteq> 0"
  shows "\<exists>db' y. repack p db = (Ok (), db') \<and> pager_get (pager db') p = Some y \<and> slot_count y = live_count pg \<and>
    (\<forall>j < live_count pg. page_row y j = page_row pg (live_indices (slots_of pg) ! j)) \<and> rowids db' = rowids db"
proof -
  have n: "live_count pg = length (live_indices (slots_of pg))" by (rule live_count_indices)
  then have "live_indices (slots_of pg) \<noteq> []" using assms(5) by auto
  from repack_ok [OF assms(1-4) this] show ?thesis
    unfolding repacked_def using n by (metis filter_live_slots length_map packed_slots_length slots_of_Some)
qed

theorem repack_keeps_rows_witness:
  "\<exists>db' y. repack 0 sample_dead = (Ok (), db') \<and> pager_get (pager db') 0 = Some y \<and> slot_count y = 4"
  using repack_keeps_rows [OF sample_dead_ok(1) sample_dead_page(1) _ sample_dead_page(4)] sample_pager5(2)
  by (auto simp: sample_dead_page(5))

text \<open>
  C25: After a repack, a row whose slot number is not below the number of live rows is stranded: the
  row-id map still names the old slot, and the unchecked read of any of its cells is out of bounds.
\<close>

theorem repack_strands_rows:
  assumes "db_ok db" and "pager_get (pager db) p = Some pg" and "pg_kind pg = PkData" and "page_small db pg"
    and "rid_get (rowids db) r = Some (p, i)" and "live_count pg \<le> i"
  shows "\<exists>db'. repack p db = (Ok (), db') \<and> read_row_cell_fast db' r c = Undef"
  by (rule repack_strands [OF assms])

theorem repack_strands_rows_witness:
  "\<exists>db'. repack 0 sample_dead = (Ok (), db') \<and> read_row_cell_fast db' 5 1 = Undef"
proof -
  have "rid_get (rowids sample_dead) 5 = Some (0, 4)" by (simp add: sample_dead_page(3) sample_map)
  then show ?thesis
    using repack_strands_rows [OF sample_dead_ok(1) sample_dead_page(1) _ sample_dead_page(4)] sample_pager5(2)
    by (simp add: sample_dead_page(5))
qed

section \<open>The verifier\<close>

text \<open>
  C26: What the acceptance of the verifier is worth. In an accepted database the unchecked read of any
  cell of any row is defined. Nothing else follows for the content: the database stays accepted under
  any schema with the same dictionary pages, with any free-space values and free list over the same
  pages, any zone bounds and counts over the same pages, any index values, pointers and rows with the
  same generations, and any id counter.
\<close>

theorem verifier_guards_reads:
  assumes "verify db = Ok ()"
  shows "(\<exists>x. read_row_cell_fast db r c = Ok x) \<and>
    (map dict_page s = map dict_page (schema db) \<longrightarrow> map fst (space f) = map fst (space (fsm db)) \<longrightarrow>
     same_zone_pages zs (zone_maps db) \<longrightarrow> same_index_gens xs (indexes db) \<longrightarrow>
     verify (db\<lparr>schema := s, fsm := f, zone_maps := zs, indexes := xs, next_row_id := n\<rparr>) = Ok ())"
  using verified_read_defined [OF assms] verified_blind [of db] assms by (simp add: verify_Ok)

theorem verifier_guards_reads_witness:
  "(\<exists>x. read_row_cell_fast sample_db5 3 1 = Ok x) \<and>
   verify (sample_db5\<lparr>schema := map (\<lambda>c. c\<lparr>ckind := KReal\<rparr>) sample_schema, next_row_id := 1\<rparr>) = Ok ()"
proof -
  have "verify sample_db5 = Ok ()"
    using db_ok_verified [OF sample_db5_ok] sample_db5_storable by (simp add: verify_Ok)
  moreover have "same_zone_pages (zone_maps sample_db5) (zone_maps sample_db5)" "same_index_gens (indexes sample_db5) (indexes sample_db5)"
    by (simp_all add: same_zone_pages_def same_index_gens_def list_all2_refl option.rel_refl)
  moreover have "map dict_page (map (\<lambda>c. c\<lparr>ckind := KReal\<rparr>) sample_schema) = map dict_page (schema sample_db5)"
    by (simp add: sample_pager5)
  ultimately show ?thesis
    using verifier_guards_reads [of sample_db5 3 1 "map (\<lambda>c. c\<lparr>ckind := KReal\<rparr>) sample_schema" "fsm sample_db5"
      "zone_maps sample_db5" "indexes sample_db5" 1] by simp
qed

text \<open>
   In a database the verifier accepts, the unchecked slot read at the place the row-id map names is
  inside the page's directory.
\<close>

theorem verify_guards_slot_reads:
  assumes "verify db = Ok ()" and "rid_get (rowids db) r = Some (p, i)" and "pager_get (pager db) p = Some pg"
  shows "\<exists>e. slot_at_unchecked pg i = Ok e"
  using verified_slot [of db r p i pg] assms by (simp add: verify_Ok)

theorem verify_guards_slot_reads_witness: "\<exists>e. slot_at_unchecked sample_page 2 = Ok e"
proof -
  have "verify sample_db5 = Ok ()"
    using db_ok_verified [OF sample_db5_ok] sample_db5_storable by (simp add: verify_Ok)
  moreover have "rid_get (rowids sample_db5) 3 = Some (0, 2)" by (simp add: sample_map)
  ultimately show ?thesis using sample_page0 by (rule verify_guards_slot_reads)
qed

text \<open>
   The verifier accepts every well-formed database whose zone entries belong to live pages, whose
  index entries carry current generations and whose dictionary pages exist.
\<close>

theorem wellformed_verifies:
  assumes "db_ok db" and "zones_live db" and "gens_fresh db" and "dict_pages_exist db"
  shows "verify db = Ok ()"
  using db_ok_verified [OF assms] by (simp add: verify_Ok)

theorem wellformed_verifies_witness: "verify sample_db5 = Ok ()"
  by (rule wellformed_verifies) (simp_all add: sample_db5_storable)

section \<open>Queries\<close>

text \<open>
  C29: A full scan returns every row of the table exactly once and nothing else.
\<close>

theorem scan_all_exact:
  assumes "db_ok db"
  shows "distinct (map row_id (fst (scan_all db))) \<and>
    (x \<in> set (fst (scan_all db)) \<longleftrightarrow> table db (row_id x) = Some (row_vals x)) \<and>
    length (fst (scan_all db)) = card (dom (table db))"
  using scan_rows_distinct [OF assms] scan_rows_table [OF assms] scan_rows_card [OF assms] by (simp add: scan_all_rows)

theorem scan_all_exact_witness: "length (fst (scan_all sample_db7)) = 1"
  using scan_all_exact [of sample_db7] by simp

text \<open>
  C30: A filtered scan on a column without an index returns exactly the rows that satisfy the
  predicate, except that an equality on the row id with an integer is a point lookup, which returns
  the row with that id or nothing.
\<close>

theorem scan_where_exact:
  assumes "db_ok db" and "col < length (schema db)" and "\<not> has_index db col"
  shows "\<exists>rows. scan_where col op t db = (Ok rows, count_scan db) \<and>
    (x \<in> set rows \<longleftrightarrow> table db (row_id x) = Some (row_vals x) \<and>
       (if col = 0 \<and> op = OpEq \<and> as_int t \<noteq> None then Some (row_id x) = as_int t else cmp_apply op (row_vals x ! col) t))"
proof (cases "col = 0 \<and> op = OpEq \<and> as_int t \<noteq> None")
  case True
  then obtain r where t: "as_int t = Some r" "col = 0" "op = OpEq" by auto
  have "scan_where col op t db = (point_lookup (count_scan db) r, count_scan db)"
    using t by (simp add: scan_where_def Let_def row_id_index_def slift_def)
  moreover have "point_lookup (count_scan db) r = Ok (case table_row db r of None \<Rightarrow> [] | Some x \<Rightarrow> [x])"
    using point_lookup_table [of "count_scan db" r] assms(1) by (simp add: table_row_def)
  ultimately show ?thesis using t by (auto simp: table_row_def split: option.splits)
next
  case False
  then have "col \<noteq> 0 \<or> op \<noteq> OpEq \<or> as_int t = None" by auto
  from scan_where_scan [OF assms this] False show ?thesis by auto
qed

theorem scan_where_exact_witness:
  "\<exists>rows. scan_where 2 OpEq (VInt 5) sample_db7 = (Ok rows, count_scan sample_db7) \<and>
     \<lparr>row_id = 7, row_vals = sample_row\<rparr> \<in> set rows"
proof -
  have "2 < length (schema sample_db7)" "\<not> has_index sample_db7 2"
    by (simp_all add: has_index_def sample_schema_def nth_opt_def column_new_def)
  then show ?thesis
    using scan_where_exact [of sample_db7 2 OpEq "VInt 5" "\<lparr>row_id = 7, row_vals = sample_row\<rparr>"]
    by (auto simp: sample_row_def cmp_apply_def)
qed

text \<open>
   The merge join returns exactly the pairs of rows with neighbouring ids, no id of the table in
  between, whose first data columns are equal.
\<close>

theorem merge_join_exact:
  assumes "db_ok db"
  shows "(a, b) \<in> set (fst (merge_join db)) \<longleftrightarrow>
    table db (row_id a) = Some (row_vals a) \<and> table db (row_id b) = Some (row_vals b) \<and> row_id a < row_id b \<and>
    \<not> (\<exists>r. r \<in> dom (table db) \<and> row_id a < r \<and> r < row_id b) \<and>
    opt_val_eq (nth_opt (row_vals a) 1) (nth_opt (row_vals b) 1)"
  by (rule merge_join_pairs [OF assms])

theorem merge_join_exact_witness:
  "(\<lparr>row_id = 1, row_vals = [VInt 1, VText 3, VInt 5]\<rparr>, \<lparr>row_id = 2, row_vals = [VInt 2, VText 1, VInt 5]\<rparr>)
     \<notin> set (fst (merge_join sample_db5))"
  using merge_join_exact [OF sample_db5_ok, of "\<lparr>row_id = 1, row_vals = [VInt 1, VText 3, VInt 5]\<rparr>"
      "\<lparr>row_id = 2, row_vals = [VInt 2, VText 1, VInt 5]\<rparr>"]
  by (simp add: nth_opt_def)

text \<open>
  C31: Over a column whose values have one kind, the aggregate counts the values that are not null,
  sums the integers among them without wrapping, and its minimum and maximum are attained and bound
  every value in the order of the engine.
\<close>

theorem aggregate_summarises:
  assumes "db_ok db" and "vs = column_vals col (scan_rows db)" and "\<forall>v \<in> set vs. kind v = k"
  shows "\<exists>a. aggregate col db = (a, count_scan db) \<and> agg_count a = of_nat (length vs) \<and>
    agg_sum a = sum_list (map int_part vs) \<and>
    (case agg_min a of None \<Rightarrow> vs = [] | Some m \<Rightarrow> m \<in> set vs \<and> (\<forall>v \<in> set vs. total_cmp m v \<noteq> Greater)) \<and>
    (case agg_max a of None \<Rightarrow> vs = [] | Some m \<Rightarrow> m \<in> set vs \<and> (\<forall>v \<in> set vs. total_cmp v m \<noteq> Greater))"
  using agg_of_rows [of col "scan_rows db" k] assms(3) unfolding agg_of_def assms(2)
  by (simp add: aggregate_def scan_all_rows)

theorem aggregate_summarises_witness:
  "\<exists>a. aggregate 2 sample_db7 = (a, count_scan sample_db7) \<and> agg_sum a = sum_list (map int_part (column_vals 2 (scan_rows sample_db7)))"
proof -
  have "kind v = ''int''" if "v \<in> set (column_vals 2 (scan_rows sample_db7))" for v
    using that scan_rows_table [OF sample_db7_ok(1)]
    by (auto simp: column_vals_def sample_row_def nth_or_null_def nth_opt_def dest!: sym [of _ "row_vals _"] split: if_splits)
  then show ?thesis using aggregate_summarises [OF sample_db7_ok(1) refl, of 2 "''int''"] by auto
qed

section \<open>Scripts\<close>

text \<open>
  C32: Running a script never fails as a whole: errors of statements are counted, and in the report of
  a run that completes the executed and the failed statements add up to the number of non-blank
  pieces between semicolons.
\<close>

theorem script_report_adds_up:
  "(\<forall>e. fst (run_script addr src db) \<noteq> Err e) \<and>
   (run_script addr src db = (Ok rep, db') \<longrightarrow>
      rep_executed rep + rep_errors rep = rep_statements rep \<and> rep_statements rep = statements (split_semi src))"
  using run_statements_no_error [of addr "split_semi src" report_new db]
    run_statements_report [of addr "split_semi src" report_new db rep db']
  by (auto simp: run_script_def adds_up_def report_new_def)

theorem script_report_adds_up_witness:
  "\<exists>rep db'. run_script (\<lambda>_. 0) (str ''scan; join;'') sample_db = (Ok rep, db') \<and>
     rep_executed rep + rep_errors rep = 2"
proof -
  have n: "statements (split_semi (str ''scan; join;'')) = 2" by code_simp
  have "case fst (run_script (\<lambda>_. 0) (str ''scan; join;'') sample_db) of Ok _ \<Rightarrow> True | _ \<Rightarrow> False" by code_simp
  then obtain rep db' where r: "run_script (\<lambda>_. 0) (str ''scan; join;'') sample_db = (Ok rep, db')"
    by (cases "run_script (\<lambda>_. 0) (str ''scan; join;'') sample_db") (auto split: res.splits)
  then show ?thesis
    using script_report_adds_up [of "\<lambda>_. 0" "str ''scan; join;''" sample_db rep db'] n by auto
qed

text \<open>
   A statement that only reads (scans, joins, aggregates and checkpoints with literal operands)
  changes nothing of the database but its counters, on every path, errors included.
\<close>

theorem reading_changes_counters_only:
  assumes "reading st"
  shows "\<exists>y. snd (execute addr st db) = db\<lparr>stats := y\<rparr>"
  using reading_same [OF assms] by (simp add: same_but_stats_def)

theorem reading_changes_counters_only_witness:
  "\<exists>y. snd (execute (\<lambda>_. 0) (SScanWhere 2 OpEq (OVal (VInt 5))) sample_db7) = sample_db7\<lparr>stats := y\<rparr>"
  by (rule reading_changes_counters_only) (simp add: literal_def)

text \<open>
  C33: Executing a statement that is ready in a sound database leaves a sound database, and table and
  counter are what the abstract machine makes of them for the call of the statement: an insert puts
  the row, a delete and an update act on the rows that satisfy their predicate (or that the index
  gave), with the operands as the code resolves them, and a reading statement leaves both as they were.
  Ready are statements within the bounds of the operations: an insert of a new id with values its
  columns can store, deletes and updates on existing columns, reads with literal operands; compaction,
  which may repack, is never ready.
\<close>

theorem statement_refines_table:
  assumes "sound db" and "ready st db" and "execute addr st db = (Ok n, db')"
  shows "sound db' \<and> (table db', next_row_id db') = (case stmt_call st db of None \<Rightarrow> (table db, next_row_id db)
    | Some c \<Rightarrow> abs_call (storage (schema db)) c (table db, next_row_id db))"
  using execute_refines [OF assms(3,2,1)] unfolding abs_state_def .

theorem statement_refines_table_witness:
  "\<exists>db'. execute (\<lambda>_. 0) (SDelete 2 OpEq (OVal (VInt 5))) sample_db5 = (Ok 0, db') \<and>
     table db' 1 = None \<and> table db' 3 = Some [VInt 3, VText 2, VInt 6]"
proof -
  let ?st = "SDelete 2 OpEq (OVal (VInt 5))"
  have p: "2 < length (schema sample_db5)" "index_path sample_db5 2 OpEq (VInt 5) = None"
    by (simp_all add: sample_pager5 sample_schema_def index_path_def nth_opt_def column_new_def)
  obtain db' where d: "delete_where 2 OpEq (VInt 5) sample_db5 = (Ok (card (matching sample_db5 2 OpEq (VInt 5))), db')"
    by (rule delete_where_ok [OF sample_db5_ok p])
  have v: "resolve_operand 2 (OVal (VInt 5)) sample_db5 = (Ok (VInt 5), sample_db5)"
    by (simp add: resolve_operand_def sample_pager5 sample_schema_def nth_opt_def coerce_def column_new_def)
  have "ready ?st sample_db5" using p by (simp add: operand_fits_def v)
  moreover have x: "execute (\<lambda>_. 0) ?st sample_db5 = (Ok 0, db')"
    by (simp add: execute_def v d sbind_def sret_def)
  moreover have "stmt_call ?st sample_db5 = Some (DoDelete 2 OpEq (VInt 5) None)"
    by (simp add: v p found_def)
  ultimately have "(table db', next_row_id db') = abs_call (storage (schema sample_db5)) (DoDelete 2 OpEq (VInt 5) None) (table sample_db5, next_row_id sample_db5)"
    using statement_refines_table [OF sample_sound(2), of ?st "\<lambda>_. 0" 0 db'] by simp
  then have t: "table db' = (\<lambda>r. case table sample_db5 r of None \<Rightarrow> None | Some row \<Rightarrow> if hits 2 OpEq (VInt 5) None r row then None else Some row)"
    by simp
  have r: "table sample_db5 1 = Some [VInt 1, VText 3, VInt 5]" "table sample_db5 3 = Some [VInt 3, VText 2, VInt 6]"
    by (simp_all add: sample_table5) (simp_all add: sample_cols_def)
  show ?thesis using x by (intro exI [of _ db']) (simp add: t r hits_def cmp_apply_def)
qed

text \<open>
  C34: Every statement whose literals have a written form parses back from its printed form, under any
  schema.
\<close>

theorem statement_text_roundtrip:
  assumes "stmt_printable st"
  shows "parse_statement s (print_stmt st) = Ok st"
  by (rule parse_print [OF assms])

theorem statement_text_roundtrip_witness:
  "parse_statement sample_schema (str ''update set 2 -9 where 1 != '' @ [34, 97, 98, 34, 32]) =
     Ok (SUpdate 2 (OVal (VInt (- 9))) 1 OpNe (OStr [97, 98]))"
proof -
  let ?st = "SUpdate 2 (OVal (VInt (- 9))) 1 OpNe (OStr [97, 98])"
  have "print_stmt ?st = str ''update set 2 -9 where 1 != '' @ [34, 97, 98, 34, 32]" by code_simp
  moreover have "stmt_printable ?st" by simp
  ultimately show ?thesis using statement_text_roundtrip [of ?st sample_schema] by simp
qed

text \<open>
   Lexing and parsing end for every input with a statement or an error value, never with a panic,
  and the lexer accepts every piece of valid UTF-8.
\<close>

theorem parsing_total:
  "parse_statement s src \<noteq> Panic \<and> parse_statement s src \<noteq> Undef \<and>
   (utf8_valid src \<longrightarrow> (\<exists>ts. lex_tokens src = Ok ts \<and> lexed src ts))"
  using graceful_parse_statement [of s src] lex_tokens_lexed [of src] by (simp add: graceful_def)

theorem parsing_total_witness: "\<exists>ts. lex_tokens (str ''scan where 1 = 2'') = Ok ts"
proof -
  have "utf8_valid (str ''scan where 1 = 2'')" by code_simp
  then show ?thesis using parsing_total [of "[]" "str ''scan where 1 = 2''"] by blast
qed

section \<open>Dictionaries and the index\<close>

text \<open>
   Interning refines insertion into a list of distinct strings: while one doubling of the page
  makes room, it returns an id that resolves to the string, keeps what every other id resolves to,
  and interning the string again changes nothing.
\<close>

theorem intern_refines_insertion:
  assumes "dict_rep d p bs" and "dict_fits (d, p) b"
  shows "\<exists>i d' p'. dict_intern b (d, p) = (Ok i, (d', p')) \<and>
    dict_rep d' p' (if b \<in> set bs then bs else bs @ [b]) \<and> bytes_of d' p' i = Some b \<and>
    (\<forall>j c. bytes_of d p j = Some c \<longrightarrow> bytes_of d' p' j = Some c) \<and>
    dict_intern b (d', p') = (Ok i, (d', p'))"
proof -
  have rep: "(case (d, p) of (d, p) \<Rightarrow> dict_rep d p) bs" using assms(1) by simp
  obtain i s' where i: "dict_intern b (d, p) = (Ok i, s')"
    "(case s' of (d, p) \<Rightarrow> dict_rep d p) (dict.insert_string b bs)"
    by (rule dict.intern_total [OF rep assms(2)])
  then show ?thesis
    using dict.intern_resolve [OF rep assms(2) i(1)]
    by (cases s') (auto simp: dict.insert_string_def)
qed

theorem intern_refines_insertion_witness:
  "\<exists>i d' p'. dict_intern [65] (dict_new 0, sample_pager) = (Ok i, (d', p')) \<and> bytes_of d' p' i = Some [65]"
proof -
  have "dict_fits (dict_new 0, sample_pager) [65]" by code_simp
  then show ?thesis using intern_refines_insertion [OF sample_dict(1)] by blast
qed

text \<open>
  C35: A new string for which one doubling of the page is not enough makes interning panic: the page
  is grown once, and the slice write is out of range.
\<close>

theorem intern_long_string_panics:
  assumes "dict_rep d p bs" and "b \<notin> set bs" and "capacity d * 2 < 2 ^ 64"
    and "capacity d * 2 < dict_size (bs @ [b])"
  shows "fst (dict_intern b (d, p)) = Panic"
  using assms by (rule dict_intern_panic)

theorem intern_long_string_panics_witness:
  "fst (dict_intern (replicate 117 65) (dict_new 0, sample_pager)) = Panic"
  by (rule intern_long_string_panics [OF sample_dict(1)])
    (simp_all add: dict_new_def dict_page_capacity_def dict_size_def)

text \<open>
  C36: While every cached pointer of an index points at its value in the current buffer of the
  dictionary page, a probe returns exactly the rows of the entries whose string is the query, provided
  that before each of these strings the strings of the dictionary take a multiple of four bytes. If for
  one entry they do not, the length word in front of it is read at an address that is not aligned for
  it, and the probe is undefined behaviour. The buffer itself is taken to start at a multiple of four.
\<close>

theorem probe_exact:
  assumes "dict_rep d p bs" and "pager_ok p" and "index_bound d p idx"
  shows "probe idx p q = (if \<forall>e \<in> set (ic_entries idx). 4 dvd sum_list (map length (take (unat (ie_value e)) bs))
    then Ok (concat (map ie_rows (filter (\<lambda>e. bs ! unat (ie_value e) = q) (ic_entries idx)))) else Undef)"
  using probe_bound [OF assms] unfolding aligned_def .

theorem probe_exact_witness:
  "probe sample_index (snd sample_dict1) [65, 66] = Ok [42] \<and> probe sample_index (snd sample_dict1) [65] = Ok []"
  using probe_exact [OF sample_dict1_rep sample_dict1_ok sample_index_bound]
  by (simp add: sample_index_def add_or_append_def index_with_dict_def)

text \<open>
  C37: When interning has to grow the dictionary page, the buffer is replaced and every pointer the
  index cached into the old one dangles: any probe of a non-empty index is undefined behaviour until
  the index is rebound.
\<close>

theorem growth_dangles_index:
  assumes "dict_rep d p bs" and "pager_ok p" and "index_bound d p idx" and "ic_entries idx \<noteq> []"
    and "b \<notin> set bs" and "dict_fits (d, p) b" and "capacity d < dict_size (bs @ [b])"
  shows "\<exists>i d' p'. dict_intern b (d, p) = (Ok i, (d', p')) \<and> dict_rep d' p' (bs @ [b]) \<and>
    probe idx p' q = Undef"
  by (rule probe_after_growth [OF assms]) blast

theorem growth_dangles_index_witness:
  "\<exists>i d' p'. dict_intern (replicate 50 67) sample_dict1 = (Ok i, (d', p')) \<and> probe sample_index p' [65, 66] = Undef"
proof -
  have "dict_fits sample_dict1 (replicate 50 67) \<and>
    capacity (fst sample_dict1) < dict_size ([[65, 66]] @ [replicate 50 67])" by code_simp
  moreover have "ic_entries sample_index \<noteq> []" "replicate 50 67 \<notin> set [[65, 66 :: u8]]"
    by (simp_all add: sample_index_def add_or_append_def index_with_dict_def numeral_eq_Suc)
  ultimately show ?thesis
    using growth_dangles_index [OF sample_dict1_rep sample_dict1_ok sample_index_bound, of "replicate 50 67" "[65, 66]"]
    by (metis prod.collapse)
qed

text \<open>
   Rebinding against the mirror's own locations re-captures every pointer without changing the
  values or the postings, and a probe of the result returns exactly the rows of the matching entries
  when their length words are aligned.
\<close>

theorem rebind_makes_probe_exact:
  assumes "dict_rep d p bs" and "pager_ok p" and "ic_dict idx = dct_page d"
    and "\<forall>e \<in> set (ic_entries idx). unat (ie_value e) < length bs"
  shows "\<exists>idx'. rebind p (dict_offsets d bs) g idx = Ok idx' \<and>
    map ie_value (ic_entries idx') = map ie_value (ic_entries idx) \<and>
    map ie_rows (ic_entries idx') = map ie_rows (ic_entries idx) \<and>
    ((\<forall>e \<in> set (ic_entries idx'). aligned bs (ie_value e)) \<longrightarrow>
     probe idx' p q = Ok (concat (map ie_rows (filter (\<lambda>e. bs ! unat (ie_value e) = q) (ic_entries idx')))))"
  by (rule rebind_restores [OF assms(1-4)]) (use probe_bound [OF assms(1,2)] in auto)

theorem rebind_makes_probe_exact_witness:
  "\<exists>idx'. rebind (snd sample_dict1) (dict_offsets (fst sample_dict1) [[65, 66]]) 3
     (sample_index\<lparr>ic_entries := [\<lparr>ie_value = 0, ie_ptr = Ptr 99 0, ie_gen = 0, ie_rows = [42]\<rparr>]\<rparr>) = Ok idx' \<and>
     map ie_rows (ic_entries idx') = [[42]]"
proof -
  have "ic_dict sample_index = dct_page (fst sample_dict1)" by code_simp
  then show ?thesis
    using rebind_makes_probe_exact [OF sample_dict1_rep sample_dict1_ok, of "sample_index\<lparr>ic_entries := [\<lparr>ie_value = 0, ie_ptr = Ptr 99 0, ie_gen = 0, ie_rows = [42]\<rparr>]\<rparr>" 3 "[]"]
    by auto
qed

text \<open>
   Storing a literal string from a statement, when its page has room or can be doubled once,
  returns an id that resolves to the string and keeps the invariant, the table and the storage of
  every column.
\<close>

theorem intern_text_keeps_table:
  assumes "db_ok db" and "text_fits db col b"
  shows "\<exists>i db'. intern_text col b db = (Ok i, db') \<and> db_ok db' \<and> table db' = table db \<and>
    storage (schema db') = storage (schema db) \<and> text_stored db' col i b"
  using intern_text_ok [OF assms] by (auto simp: frame_def)

theorem intern_text_keeps_table_witness:
  "\<exists>i db'. intern_text 1 [65, 66] sample_db5 = (Ok i, db') \<and> table db' = table sample_db5 \<and> text_stored db' 1 i [65, 66]"
proof -
  have "text_fits sample_db5 1 [65, 66]"
    by (simp add: text_fits_def sample_pager5 sample_schema_def nth_opt_def column_new_def sample_page_small(2))
  then show ?thesis using intern_text_keeps_table [OF sample_db5_ok] by blast
qed

section \<open>Byte formats\<close>

text \<open>
   A container written from a list of records that fits 32-bit offsets reads back as the same
  records, checksums included.
\<close>

theorem container_layout_roundtrip:
  assumes "length es < 2 ^ 32" and "total_len es < 2 ^ 32"
  shows "\<exists>data. layout es = Ok data \<and> read_container data = Ok es"
  by (rule read_container_layout [OF assms])

theorem container_layout_roundtrip_witness:
  "\<exists>data. layout [(0, 0, [1, 2, 3]), (0xfe, 0, [])] = Ok data \<and> read_container data = Ok [(0, 0, [1, 2, 3]), (0xfe, 0, [])]"
  by (rule container_layout_roundtrip) simp_all

text \<open>
  C38: Data-page bodies whose column data fits 32-bit lengths decode to themselves with anything
  behind them, and decoding arbitrary bytes never panics.
\<close>

theorem body_roundtrip:
  assumes "body_fits b"
  shows "decode_body (encode_body b @ post) = Ok b \<and> decode_body buf \<noteq> Panic \<and> decode_body buf \<noteq> Undef"
  using decode_body_encode [OF assms] decode_body_no_fault [of buf] by simp

theorem body_roundtrip_witness: "decode_body (encode_body sample_body @ [1, 2]) = Ok sample_body"
  using body_roundtrip [OF sample_body_facts(2)] by blast

section \<open>Zone maps and free space\<close>

text \<open>
   Pruning is sound for a recomputed page summary: a page that holds a value satisfying the
  predicate, of the kind of the target and of its column, is among the candidates; for equality the
  value has to be equal in the engine's order.
\<close>

theorem pruning_keeps_matches:
  assumes "bm_ok m" and "v \<in> set values" and "\<not> is_null v"
    and "\<forall>w \<in> set values. is_null w \<or> kind w = kind v" and "length values < 2 ^ 32"
    and "kind t = kind v" and "cmp_apply op v t" and "op = OpEq \<Longrightarrow> total_cmp v t = Equal"
  shows "pg \<in> set (candidate_pages (recompute pg values m) op t)"
proof -
  obtain z where z: "zm_get (recompute pg values m) pg = Some z" "zone_covers z v"
    by (rule recompute_covers [OF assms(2-5)])
  have "zone_overlaps z op t" by (rule zone_overlaps_sound [OF z(2) assms(6-8)])
  moreover have "z_live z \<noteq> 0" using z(2) by (simp add: zone_covers_def)
  ultimately show ?thesis using z(1) candidate_pages_mem [OF recompute_bm [OF assms(1)], of pg] by blast
qed

theorem pruning_keeps_matches_witness:
  "3 \<in> set (candidate_pages (recompute 3 [VInt 5, VNull, VInt 9] []) OpGt (VInt 8))"
  by (rule pruning_keeps_matches [of _ "VInt 9"]) (simp_all add: bm_ok_def cmp_apply_def cmp_def)

text \<open>
   The page chosen for a row has the required space and no page has more, the lowest id winning a
  tie; no page is chosen exactly when none has the space.
\<close>

theorem page_with_space_best:
  assumes "fsm_ok f"
  shows "case page_with_space f need of None \<Rightarrow> \<forall>i v. bm_get (space f) i = Some v \<longrightarrow> v < need
     | Some i \<Rightarrow> \<exists>v. bm_get (space f) i = Some v \<and> need \<le> v \<and>
         (\<forall>j w. bm_get (space f) j = Some w \<longrightarrow> w < v \<or> w = v \<and> i \<le> j)"
proof (cases "page_with_space f need")
  case None
  then show ?thesis using page_with_space_None [OF assms, of need] by simp
next
  case (Some i)
  then obtain v where "bm_get (space f) i = Some v" "need \<le> v"
    "\<And>j w. bm_get (space f) j = Some w \<Longrightarrow> w < v \<or> w = v \<and> i \<le> j"
    by (rule page_with_space_Some [OF assms]) blast
  then show ?thesis using Some by auto
qed

theorem page_with_space_best_witness:
  "\<exists>i v. page_with_space (set_space 4 90 (set_space 2 90 fsm_new)) 50 = Some i \<and>
     bm_get (space (set_space 4 90 (set_space 2 90 fsm_new))) i = Some v \<and> 50 \<le> v"
proof -
  let ?f = "set_space 4 90 (set_space 2 90 fsm_new)"
  have "page_with_space ?f 50 = Some 2" by code_simp
  then show ?thesis using page_with_space_best [of ?f 50] by auto
qed

section \<open>The log and the varints\<close>

text \<open>
  C39: Appending to a log that represents a list of records succeeds while the counters have room,
  returns the next sequence number, and adds exactly the new record at the end, whether or not the
  segment rotates; the log represents the longer list.
\<close>

theorem wal_append_extends:
  assumes "wal_rep w rss" and "length payload < 2 ^ 32" and "wl_next w \<noteq> - 1"
    and "\<forall>s \<in> set (wl_segments w). sg_count s \<noteq> u32_max"
  shows "\<exists>w' rss'. wal_append t k payload w = Ok (wl_next w, w') \<and> wal_rep w' rss' \<and>
    wal_records w' = wal_records w @ [\<lparr>wr_lsn = wl_next w, wr_txn = t, wr_type = k, wr_payload = payload\<rparr>]"
proof -
  obtain l w' where a: "wal_append t k payload w = Ok (l, w')"
    using wal_append_total [OF assms(1,3,4)] by blast
  from wal_append_ok [OF assms(1) a assms(2)] obtain rss' where
    "l = wl_next w" "wal_rep w' rss'" "concat rss' = concat rss @ [new_record w t k payload]" by blast
  then show ?thesis
    using a wal_rep_records [OF assms(1)] wal_rep_records [of w' rss'] by (auto simp: new_record_def)
qed

theorem wal_append_extends_witness:
  "\<exists>w'. wal_append 7 RtInsert [1, 2] (wal_new 0) = Ok (1, w') \<and>
     wal_records w' = [\<lparr>wr_lsn = 1, wr_txn = 7, wr_type = RtInsert, wr_payload = [1, 2]\<rparr>]"
proof -
  have "wal_records (wal_new 0) = []" using wal_rep_records [OF wal_rep_new] by simp
  then show ?thesis
    using wal_append_extends [OF wal_rep_new, of "[1, 2]" 0 7 RtInsert]
    by (auto simp: wal_new_def Let_def segment_new_def u32_max_def)
qed

text \<open>
   Truncating a log drops whole segments from its front, and every record it drops has a sequence
  number at most the one given.
\<close>

theorem wal_truncate_keeps:
  assumes "wal_rep w rss" and "truncate_before l w = Ok w'"
  shows "\<exists>dropped. wal_records w = dropped @ wal_records w' \<and> (\<forall>r \<in> set dropped. wr_lsn r \<le> l)"
proof -
  obtain k rss' where k: "wal_rep w' rss'" "concat rss' = concat (drop k rss)"
    "\<forall>r \<in> set (concat (take k rss)). wr_lsn r \<le> l"
    using truncate_ok [OF assms] by blast
  have "concat rss = concat (take k rss) @ concat (drop k rss)" by (metis append_take_drop_id concat_append)
  then show ?thesis
    using k wal_rep_records [OF assms(1)] wal_rep_records [OF k(1)] by (intro exI [of _ "concat (take k rss)"]) simp
qed

theorem wal_truncate_keeps_witness:
  "\<exists>w' dropped. truncate_before 0 (wal_new 0) = Ok w' \<and> wal_records (wal_new 0) = dropped @ wal_records w'"
proof -
  obtain w' where "truncate_before 0 (wal_new 0) = Ok w'"
    by (simp add: truncate_before_def wal_new_def Let_def segment_new_def segment_end_def)
  then show ?thesis using wal_truncate_keeps [OF wal_rep_new] by blast
qed

text \<open>
  C40: Unsigned and zigzag variable-length integers read back with their length, whatever follows;
  an encoding is never empty or longer than ten bytes, the length function predicts it, and zigzag
  maps each integer to twice its magnitude, less one when negative.
\<close>

theorem varint_roundtrip:
  "read_uvarint (write_uvarint u @ rest) = Ok (u, uvarint_len u) \<and> 1 \<le> uvarint_len u \<and> uvarint_len u \<le> 10 \<and>
   read_ivarint (write_ivarint i @ rest) = Ok (i, length (write_ivarint i)) \<and>
   int (unat (zigzag_encode i)) = (if sint i < 0 then - 2 * sint i - 1 else 2 * sint i)"
  using uvarint_roundtrip [of u rest] write_uvarint_length [of u] ivarint_roundtrip [of i rest] zigzag_value [of i]
  by (simp add: uvarint_len_length Suc_le_eq)

text \<open>
   Fields of at most 32 bits written to a bit stream and flushed read back as their low bits, in
  order, and the stream counts exactly the bits written.
\<close>

theorem bit_stream_fields_roundtrip:
  assumes "\<forall>(v, n) \<in> set fs. n \<le> 32"
  shows "\<exists>w. write_fields fs bit_writer_new = Ok w \<and> bit_length w = sum_list (map snd fs) \<and>
    read_fields (map snd fs) (bit_reader_new (finish w)) = Ok (map (\<lambda>(v, n). take_bit n v) fs)"
  by (rule bit_stream_roundtrip [OF assms])

theorem bit_stream_fields_roundtrip_witness:
  "\<exists>w. write_fields [(5, 3), (300, 4)] bit_writer_new = Ok w \<and> bit_length w = 7 \<and>
     read_fields [3, 4] (bit_reader_new (finish w)) = Ok [5, 12]"
  using bit_stream_fields_roundtrip [of "[(5, 3), (300, 4)]"] by simp

section \<open>Transactions\<close>

text \<open>
  C8: In every state the transaction manager reaches from an empty or a recovered one, by any
  sequence of its calls, whatever they return: the registry, the chains and the lock table are well-
  formed, the committed versions of a row hold disjoint intervals of time, no active transaction has
  a committed version, and a live transaction of fixed view looks at the state of its beginning.
\<close>

theorem reachable_manager:
  assumes "tm_reach tm"
  shows "txns_ok tm \<and> chains_ok tm \<and> active_ok {} tm \<and> locks_ok tm"
  using reach_good [OF assms] by (simp add: good_def tm_ok_def)

theorem reachable_manager_witness: "txns_ok (after h_written) \<and> chains_ok (after h_written) \<and> active_ok {} (after h_written) \<and> locks_ok (after h_written)"
  by (rule reachable_manager [OF reach_after])

text \<open>
  C7: Snapshot isolation. Whatever calls other transactions make, commits, rollbacks, garbage
  collections and checkpoints among them, a live transaction at repeatable-read or serializable
  isolation stays as it is and reads from every row what it read before.
\<close>

theorem snapshot_isolation:
  assumes "tm_reach tm" and "txn_of tm i = Some t" and "tx_live t" and "tx_isolation t = RepeatableRead \<or> tx_isolation t = Serializable"
    and "run_calls cs tm = Some tm'" and "\<forall>c \<in> set cs. call_txn c \<noteq> Some i"
  shows "txn_of tm' i = Some t \<and> fst (txn_read i r tm') = fst (txn_read i r tm)"
proof -
  let ?S = "{(i, t, view_row (tx_view t) (tm_chains tm))}"
  have fv: "fixed_view t" using assms(4) by (simp add: fixed_view_def)
  have "good {} ?S tm" using reach_good [OF assms(1)] assms(2,3) fv by (simp add: good_def snap_def)
  moreover have "foreign j ?S" if "c \<in> set cs" "call_txn c = Some j" for c j using that assms(6) by (auto simp: foreign_def)
  ultimately have "good {} ?S tm'" using run_calls_good assms(5) by blast
  then have s: "txn_of tm' i = Some t" "\<forall>r. view_row (tx_view t) (tm_chains tm') r = view_row (tx_view t) (tm_chains tm) r"
    by (simp_all add: good_def snap_def)
  then show "txn_of tm' i = Some t \<and> fst (txn_read i r tm') = fst (txn_read i r tm)"
    using txn_read_fixed [OF s(1) assms(3) fv] txn_read_fixed [OF assms(2,3) fv] by simp
qed

theorem snapshot_isolation_witness:
  "\<exists>tm. run_calls [CallCommit 1] (after h_written) = Some tm \<and> fst (txn_read 2 5 tm) = fst (txn_read 2 5 (after h_written))"
proof (rule written_txns)
  fix a b assume b: "txn_of (after h_written) 2 = Some b" "tx_live b" "tx_isolation b = Serializable"
  obtain tm where r: "run_calls [CallCommit 1] (after h_written) = Some tm"
    using written_commit by (auto simp: run_op_def)
  then show ?thesis using snapshot_isolation [OF reach_after b(1,2) disjI2 [OF b(3)] r, of 5] by simp
qed

text \<open>
  C11: Publication. After a commit the current version of a written row is the newest intent of the
  transaction, stamped with the commit time, and a transaction that begins then reads exactly it.
\<close>

theorem commit_publishes:
  assumes "tm_reach tm" and "txn_of tm i = Some t" and "r \<in> set (tx_writes t)"
    and "find (own_intent i) (versions_at (tm_chains tm) r) = Some v"
    and "txn_commit i tm = (Ok ts, tm1)" and "txn_begin lv tm1 = (Ok k, tm2)" and "lv = RepeatableRead \<or> lv = Serializable"
  shows "find is_current (versions_at (tm_chains tm1) r) = Some (stamp ts v) \<and>
    fst (txn_read k r tm2) = Ok (if v_deleted v then None else Some (v_value v))"
proof -
  have g: "good {} {} tm" by (rule reach_good [OF assms(1)])
  have "run_call (CallCommit i) tm = Some tm1" using assms(5) by (simp add: run_op_def)
  then have g1: "good {} {} tm1" using reach_good tm_reach.step [OF assms(1)] by blast
  have c: "commit_writes i tm = (Ok ts, tm1)" using commit_Ok [OF assms(5) good_locks [OF g]] by simp
  have ts: "ts = tm_next_ts tm" "tm_next_ts tm \<noteq> - 1" and ch: "tm_chains tm1 = fold (finalize_write i ts) (tx_writes t) (tm_chains tm)"
    using commit_writes_Ok [OF c good_locks [OF g]] assms(2) by auto
  have "distinct (tx_writes t)" using good_wf [OF g assms(2)] by (simp add: txn_wf_def writes_ok_def bs_ok_def strict_sorted_iff)
  then have at: "versions_at (tm_chains tm1) r = finalize_versions i ts (versions_at (tm_chains tm) r)"
    using assms(3) by (simp add: ch finalize_all_at)
  have cur: "find is_current (versions_at (tm_chains tm1) r) = Some (stamp ts v)"
    using finalize_current [OF good_chain_facts(2) [OF g] _ assms(4)] ts not_max_less by (simp add: at)
  have lv: "lv \<noteq> ReadUncommitted" using assms(7) by auto
  obtain u where u: "txn_of tm2 k = Some u" "view_row (tx_view u) (tm_chains tm2) r = given (stamp ts v)"
    using begin_view [OF g1 assms(6) lv, of r] cur by auto
  moreover have "tx_live u" "fixed_view u"
    using begin_Ok [OF assms(6)] u(1) assms(7) by (auto simp: transaction_new_def tx_live_def fixed_view_def)
  ultimately show "find is_current (versions_at (tm_chains tm1) r) = Some (stamp ts v) \<and>
      fst (txn_read k r tm2) = Ok (if v_deleted v then None else Some (v_value v))"
    using txn_read_fixed cur by (simp add: given_def stamp_def)
qed

theorem commit_publishes_witness:
  "\<exists>ts tm k tm'. txn_commit 1 (after h_written) = (Ok ts, tm) \<and> txn_begin RepeatableRead tm = (Ok k, tm') \<and>
     fst (txn_read k 5 tm') = Ok (Some (VInt 10))"
proof (rule written_txns)
  fix a b assume a: "txn_of (after h_written) 1 = Some a" "5 \<in> set (tx_writes a)"
    and v: "find (own_intent 1) (versions_at (tm_chains (after h_written)) 5) = Some (write_intent (VInt 10) 1 1)"
  obtain ts tm k tm' where c: "txn_commit 1 (after h_written) = (Ok ts, tm)" "txn_begin RepeatableRead tm = (Ok k, tm')"
    using written_commit by blast
  then show ?thesis using commit_publishes [OF reach_after a v c] by (auto simp: write_intent_def)
qed

text \<open>
  C12: While a transaction holds a row exclusively, no call of anybody else takes the lock from it or
  leaves a new uncommitted version on the row.
\<close>

theorem no_dirty_write:
  assumes "tm_reach tm" and "bm_get (tm_locks tm) r = Some e" and "lk_exclusive e = Some i"
    and "run_calls cs tm = Some tm'" and "\<forall>c \<in> set cs. call_txn c \<noteq> Some i"
  shows "holds_lock tm' i r \<and> (\<forall>v \<in> set (versions_at (tm_chains tm') r).
    \<not> v_committed v \<and> v_writer v \<noteq> i \<longrightarrow> v \<in> set (versions_at (tm_chains tm) r))"
proof -
  have g: "good {} {} tm" by (rule reach_good [OF assms(1)])
  have "quiet i r (set (versions_at (tm_chains tm) r)) tm"
    using good_locks [OF g] good_chain_facts(1) [OF g] assms(2,3) by (simp add: quiet_def lock_of_def)
  then have "quiet i r (set (versions_at (tm_chains tm) r)) tm'" by (rule quiet_run [OF _ assms(5,4)])
  then show ?thesis unfolding quiet_def holds_lock_of by blast
qed

theorem no_dirty_write_witness: "\<exists>tm. run_calls [CallUpdate 2 5 (VInt 12)] (after h_written) = Some tm \<and> holds_lock tm 1 5"
proof (rule written_txns)
  assume l: "bm_get (tm_locks (after h_written)) 5 = Some \<lparr>lk_shared = [], lk_exclusive = Some 1\<rparr>"
  obtain tm where r: "run_calls [CallUpdate 2 5 (VInt 12)] (after h_written) = Some tm"
    using other_facts by (auto simp: other_facts_def)
  then show ?thesis using no_dirty_write [OF reach_after l _ r] by simp
qed

text \<open>
   A transaction reads back what it has just inserted, updated or deleted, at every isolation
  level.
\<close>

theorem own_writes:
  assumes "tm_reach tm"
  shows "(txn_insert i r v tm = (Ok (), tm') \<longrightarrow> fst (txn_read i r tm') = Ok (Some v)) \<and>
    (txn_update i r v tm = (Ok (), tm') \<longrightarrow> fst (txn_read i r tm') = Ok (Some v)) \<and>
    (txn_delete i r tm = (Ok (), tm') \<longrightarrow> fst (txn_read i r tm') = Ok None)"
  unfolding txn_insert_def txn_update_def txn_delete_def
  by (intro conjI impI; elim write_reads_back [OF assms]; simp add: given_def write_intent_def delete_intent_def own_intent_def)

theorem own_writes_witness:
  "\<exists>tm. txn_insert 1 6 (VInt 3) (after h_written) = (Ok (), tm) \<and> fst (txn_read 1 6 tm) = Ok (Some (VInt 3))"
proof -
  obtain tm where "txn_insert 1 6 (VInt 3) (after h_written) = (Ok (), tm)"
    using other_facts by (auto simp: other_facts_def is_ok_split)
  then show ?thesis using own_writes [OF reach_after [of h_written], of 1 6 "VInt 3" tm] by blast
qed

text \<open>
  C13: A serializable transaction commits only if nobody else committed a version of a row it read,
  or declared to read, after it began.
\<close>

theorem serializable_validated:
  assumes "tm_reach tm" and "txn_of tm i = Some t" and "tx_isolation t = Serializable" and "txn_commit i tm = (Ok ts, tm')"
    and "r \<in> set (tx_reads t) \<union> set (tx_preds t)" and "v \<in> set (versions_at (tm_chains tm) r)" and "v_committed v" and "v_writer v \<noteq> i"
  shows "v_begin v \<le> tx_begin t"
proof (rule ccontr)
  assume late: "\<not> v_begin v \<le> tx_begin t"
  have g: "good {} {} tm" by (rule reach_good [OF assms(1)])
  have "version_ok (tm_next_ts tm) (tm_next_id tm) v" using good_chain_facts(2) [OF g] assms(6) by (simp add: versions_ok_def)
  then have "v_begin v < tm_next_ts tm" using assms(7) by (simp add: version_ok_def)
  moreover have "ts_inf = - 1" by (simp add: ts_inf_def)
  ultimately have "v_begin v \<noteq> ts_inf" by (metis word_order.extremum_strict)
  then have "conflicts_with i (tx_begin t) v" using late assms(7,8) by (simp add: conflicts_with_def)
  moreover obtain c where "bm_get (tm_chains tm) r = Some c" "v \<in> set (vc_versions c)"
    using assms(6) by (cases "bm_get (tm_chains tm) r") (auto simp: versions_at_def)
  moreover have "serializable_conflict tm i = None" using commit_Ok [OF assms(4) good_locks [OF g]] by simp
  ultimately show False using assms(2,3,5) by (force simp: serializable_conflict_def find_None_iff)
qed

theorem serializable_validated_witness:
  "\<exists>t v. txn_of (after h_read) 2 = Some t \<and> v \<in> set (versions_at (tm_chains (after h_read)) 5) \<and> v_begin v \<le> tx_begin t"
proof -
  obtain t ts tm v where t: "txn_of (after h_read) 2 = Some t" "tx_isolation t = Serializable" "5 \<in> set (tx_reads t) \<union> set (tx_preds t)"
    and c: "txn_commit 2 (after h_read) = (Ok ts, tm)"
    and v: "v \<in> set (versions_at (tm_chains (after h_read)) 5)" "v_committed v" "v_writer v \<noteq> 2"
    using read_facts by (auto simp: read_facts_def is_ok_split split: option.splits)
  then show ?thesis using serializable_validated [OF reach_after t(1,2) c t(3) v] by blast
qed

text \<open>
   Rollback marks the transaction aborted, releases its locks, and takes exactly its uncommitted
  versions off the rows it wrote. It does not ask whether the transaction is still live.
\<close>

theorem rollback_removes:
  assumes "tm_reach tm" and "txn_of tm i = Some t" and "txn_rollback i tm = (Ok (), tm')"
  shows "state_of tm' i = Some TsAborted \<and> \<not> holds_lock tm' i r \<and> versions_at (tm_chains tm') r =
    (if r \<in> set (tx_writes t) then filter (\<lambda>v. \<not> own_intent i v) (versions_at (tm_chains tm) r) else versions_at (tm_chains tm) r)"
proof -
  have g: "good {} {} tm" by (rule reach_good [OF assms(1)])
  let ?cs = "fold (strip_writer_versions i) (tx_writes t) (tm_chains tm)"
  let ?u = "t\<lparr>tx_state := TsAborted, tx_undo := []\<rparr>"
  obtain l w where tm': "tm' = (release_locks i (tm\<lparr>tm_chains := ?cs, tm_wal := w,
        tm_registry := bm_insert i (?u\<lparr>tx_lsn := l\<rparr>) (bm_insert i ?u (tm_registry tm)),
        tm_active := bs_remove i (tm_active tm)\<rparr>))\<lparr>tm_stats := (tm_stats tm)\<lparr>ct_aborted := ct_aborted (tm_stats tm) + 1\<rparr>\<rparr>"
    using assms(2,3) by (auto simp: txn_rollback_def Let_def sbind_eq_Ok modify_Ok txn_of_def release_locks_def clear_wait_for_def dest!: txn_log_Ok)
  define M where "M = tm\<lparr>tm_chains := ?cs, tm_wal := w,
        tm_registry := bm_insert i (?u\<lparr>tx_lsn := l\<rparr>) (bm_insert i ?u (tm_registry tm)),
        tm_active := bs_remove i (tm_active tm)\<rparr>"
  have eq: "tm' = (release_locks i M)\<lparr>tm_stats := (tm_stats tm)\<lparr>ct_aborted := ct_aborted (tm_stats tm) + 1\<rparr>\<rparr>"
    using tm' by (simp only: M_def)
  have c: "same_core M tm'" unfolding eq by simp
  have "locks_ok M" using good_locks [OF g] by (simp add: M_def locks_ok_def)
  then have "\<not> holds_lock tm' i r" using release_locks_holds [of M i r] by (simp add: eq holds_lock_def)
  moreover have "tm_chains tm' = ?cs" "txn_of tm' i = Some (?u\<lparr>tx_lsn := l\<rparr>)"
    using c same_core_txn [OF c] by (simp_all add: same_core_def M_def txn_of_def)
  ultimately show ?thesis using good_chain_facts(1) [OF g] by (simp add: state_of_def strip_all_at)
qed

theorem rollback_removes_witness:
  "\<exists>tm. txn_rollback 1 (after h_written) = (Ok (), tm) \<and> state_of tm 1 = Some TsAborted"
proof (rule written_txns)
  fix a b assume a: "txn_of (after h_written) 1 = Some a"
  obtain tm where r: "txn_rollback 1 (after h_written) = (Ok (), tm)"
    using other_facts by (auto simp: other_facts_def is_ok_split)
  then show ?thesis using rollback_removes [OF reach_after a r] by blast
qed

text \<open>
  C28: Garbage collection changes nothing a live transaction sees, whatever its isolation level.
\<close>

theorem gc_invisible:
  assumes "tm_reach tm" and "txn_of tm i = Some t" and "tx_live t"
  shows "view_row (tx_view t) (tm_chains (snd (garbage_collect tm))) r = view_row (tx_view t) (tm_chains tm) r"
proof -
  have g: "good {} {} tm" by (rule reach_good [OF assms(1)])
  have "i \<in> set (tm_active tm)" using good_wf [OF g assms(2)] assms(3) by (simp add: txn_wf_def)
  then show ?thesis
    using seen_collect [OF oldest_le] assms(2) good_chain_facts(1) [OF g] by (simp add: gc_state view_row_seen)
qed

theorem gc_invisible_witness:
  "\<exists>t. txn_of (after h_written) 2 = Some t \<and>
     view_row (tx_view t) (tm_chains (snd (garbage_collect (after h_written)))) 5 = view_row (tx_view t) (tm_chains (after h_written)) 5"
proof (rule written_txns)
  fix a b assume b: "txn_of (after h_written) 2 = Some b" "tx_live b"
  then show ?thesis using gc_invisible [OF reach_after b] by blast
qed

text \<open>
  C27: Deadlock detection ends; a list it returns is a cycle of the wait-for graph without
  repetition, and when it returns none the graph is acyclic.
\<close>

theorem deadlock_detection:
  "case detect_deadlock tm of None \<Rightarrow> False
     | Some None \<Rightarrow> acyclic (wait_graph tm)
     | Some (Some c) \<Rightarrow> is_cycle (wait_graph tm) c"
proof -
  let ?k = "length (wait_nodes tm) + 1" and ?g = "wait_edges tm"
  have k: "set (bm_keys (tm_wait tm)) \<subseteq> set (wait_nodes tm)" by (auto simp: bm_keys_def wait_nodes_def)
  have "card (set (wait_nodes tm)) < ?k" using card_length [of "wait_nodes tm"] by simp
  then have "dfs ?k ?g n [] vis \<noteq> None" if "n \<in> set (bm_keys (tm_wait tm))" for n vis
    by (intro dfs_total [where N = "set (wait_nodes tm)"]) (use that k wait_edge_nodes in auto)
  then obtain o1 vis where s: "search_each (dfs ?k ?g) (bm_keys (tm_wait tm)) [] [] = Some (o1, vis)"
    using search_total [of "bm_keys (tm_wait tm)" ?k ?g "[]"] by auto
  show ?thesis
  proof (cases o1)
    case None
    have "finished ?g (set vis) \<and> set (bm_keys (tm_wait tm)) \<subseteq> set vis"
      using search_complete [of ?k ?g "bm_keys (tm_wait tm)" "[]" vis] s None by (simp add: finished_def)
    then have "(a, a) \<notin> (edges ?g)\<^sup>+" for a
      using wait_edge_key [of _ tm a] by (metis (mono_tags, lifting) edges_def finished_def mem_Collect_eq case_prod_conv subsetD tranclD)
    then show ?thesis using s None by (simp add: detect_deadlock_def wait_graph_def acyclic_def)
  next
    case (Some c)
    then show ?thesis using s search_sound by (simp add: detect_deadlock_def wait_graph_def)
  qed
qed

section \<open>SQL: expressions and operators\<close>

text \<open>
  C14: A program the compiler accepts computes on every row the meaning of its expression, null logic,
  coercions and panics included.
\<close>

theorem compile_correct:
  assumes "compile cols e = Ok p"
  shows "vm_eval p row = (meaning cols row e :: (unit, val) res)"
  by (rule compile_meaning [OF assms])

theorem compile_correct_witness:
  "vm_eval sample_program [VInt 1, VInt 10] = (Ok (VBool True) :: (unit, val) res)"
  using compile_correct [OF sample_compile, of "[VInt 1, VInt 10]"] by (simp add: sample_values)

text \<open>
  C15: The compiler accepts exactly the expressions over known columns without string literals, patterns
  and aggregates, and answers every other one with an error value.
\<close>

theorem compile_accepts:
  "case compile cols e of Ok p \<Rightarrow> supported cols e | Err x \<Rightarrow> \<not> supported cols e | _ \<Rightarrow> False"
  by (rule compile_total)

text \<open>
  C20: The sort operator over a scan ends and yields the one arrangement of the scanned rows in which no
  row stands behind one it precedes and rows with the same keys keep their order, when each key column
  holds nulls and values of one kind. A row precedes another when they have the same first keys and
  the next key puts it first: nulls before values, signed integers, false before true, text ids,
  reals in the total order of IEEE 754, and the other way round for a descending key.
\<close>

theorem sort_operator_exact:
  assumes "homogeneous ks (set rows)"
  shows "\<exists>s' ys. collect_rows (sort_next scan_next) \<lparr>so_child = Some rows, so_keys = ks, so_buffer = [], so_pos = 0\<rparr> = Some (Ok ys, s') \<and>
    (\<forall>zs. zs = ys \<longleftrightarrow> mset zs = mset rows \<and> sorted_wrt (\<lambda>a b. \<not> precedes ks b a) zs \<and>
      (\<forall>a \<in> set rows. [b \<leftarrow> zs. same_keys ks a b] = [b \<leftarrow> rows. same_keys ks a b]))"
proof -
  obtain s' where "collect_rows (sort_next scan_next) \<lparr>so_child = Some rows, so_keys = ks, so_buffer = [], so_pos = 0\<rparr> =
      Some (Ok (sort_by (row_cmp ks) rows), s')"
    using operator.collect [OF scanned.sort_operator, of "\<lparr>so_child = Some rows, so_keys = ks, so_buffer = [], so_pos = 0\<rparr>"]
    by (auto simp: sort_stream_def collected_def)
  then show ?thesis using sort_by_arrangement [OF assms] by blast
qed

theorem sort_operator_exact_witness:
  "\<exists>s'. collect_rows (sort_next scan_next) \<lparr>so_child = Some sample_rows, so_keys = [(0, True), (1, False)], so_buffer = [], so_pos = 0\<rparr> =
     Some (Ok [[VInt 1, VInt 10], [VInt 1, VInt 5], [VInt 2, VInt 30], [VInt 2, VInt 20]], s')"
proof -
  let ?ks = "[(0, True), (1, False)]" and ?zs = "[[VInt 1, VInt 10], [VInt 1, VInt 5], [VInt 2, VInt 30], [VInt 2, VInt 20]]"
  have h: "homogeneous ?ks (set sample_rows)"
    by (auto simp: homogeneous_def sample_rows_def row_cell_def nth_opt_def same_kind_def)
  obtain s' ys where r: "collect_rows (sort_next scan_next) \<lparr>so_child = Some sample_rows, so_keys = ?ks, so_buffer = [], so_pos = 0\<rparr> = Some (Ok ys, s')"
    "?zs = ys \<longleftrightarrow> mset ?zs = mset sample_rows \<and> sorted_wrt (\<lambda>a b. \<not> precedes ?ks b a) ?zs \<and>
      (\<forall>a \<in> set sample_rows. [b \<leftarrow> ?zs. same_keys ?ks a b] = [b \<leftarrow> sample_rows. same_keys ?ks a b])"
    using sort_operator_exact [OF h] by metis
  have "mset ?zs = mset sample_rows" "sorted_wrt (\<lambda>a b. \<not> precedes ?ks b a) ?zs"
    "\<forall>a \<in> set sample_rows. [b \<leftarrow> ?zs. same_keys ?ks a b] = [b \<leftarrow> sample_rows. same_keys ?ks a b]"
    by (simp_all add: sample_rows_def row_cell_def nth_opt_def)
  then show ?thesis using r by blast
qed

text \<open>
  C21: The pipeline of scan, filter, sort, projection and limit ends, and returns the projections of the
  rows that satisfy the predicate, in order and stably, from the offset on up to the limit, when the
  expressions evaluate on all rows.
\<close>

theorem ordered_query_exact:
  assumes "compile cols e = Ok p" and "list_all2 (\<lambda>x q. compile cols x = Ok q) es qs"
    and "\<forall>r \<in> set rows. \<forall>x \<in> set (e # es). meaning cols r x = (Ok (value r x) :: (unit, val) res)"
    and "homogeneous ks (set rows)"
  shows "\<exists>s' ys. collect_rows (limit_next (project_next (sort_next (filter_next scan_next)))) (ordered_query rows p ks qs n k) =
      Some (Ok (take n (drop k (map (\<lambda>r. map (value r) es) ys))), s') \<and>
    mset ys = mset [r \<leftarrow> rows. value r e = VBool True] \<and> in_order (row_cmp ks) ys \<and>
    (\<forall>a \<in> set ys. [b \<leftarrow> ys. row_cmp ks a b = Equal] = [b \<leftarrow> rows. value b e = VBool True \<and> row_cmp ks a b = Equal])"
proof -
  let ?fs = "[r \<leftarrow> rows. value r e = VBool True]"
  let ?ys = "sort_by (row_cmp ks) ?fs"
  have m: "vm_eval p r = (meaning cols r e :: (unit, val) res)" for r by (rule compile_meaning [OF assms(1)])
  have "vm_eval p r = (Ok (value r e) :: (unit, val) res)" if "r \<in> set rows" for r
    using assms(3) that by (simp add: m)
  then have f: "filter_rows p rows False = Stream ?fs False" by (rule filter_rows_ok)
  have pr: "project_row qs r = (Ok (map (value r) es) :: (unit, value_row) res)" if "r \<in> set ?ys" for r
  proof -
    have r: "r \<in> set rows" using that by auto
    have v: "\<forall>x \<in> set es. meaning cols r x = (Ok (value r x) :: (unit, val) res)" using assms(3) r by simp
    have q: "vm_eval q r = (meaning cols r x :: (unit, val) res)" if "compile cols x = Ok q" for x q by (rule compile_meaning [OF that])
    show ?thesis using assms(2) v by (induction rule: list_all2_induct) (simp_all add: q)
  qed
  have p: "project_rows qs ?ys False = Stream (map (\<lambda>r. map (value r) es) ?ys) False" by (rule project_rows_ok) (rule pr)
  have st: "ordered_query rows p ks qs n k = \<lparr>lm_child = \<lparr>pj_child = \<lparr>so_child = Some \<lparr>fl_child = rows, fl_predicate = p\<rparr>,
     so_keys = ks, so_buffer = [], so_pos = 0\<rparr>, pj_exprs = qs\<rparr>, lm_remaining = n, lm_skip = k\<rparr>" by (simp add: ordered_query_def)
  obtain s' where r: "collect_rows (limit_next (project_next (sort_next (filter_next scan_next)))) (ordered_query rows p ks qs n k) =
      Some (Ok (take n (drop k (map (\<lambda>r. map (value r) es) ?ys))), s')"
    using ordered.collect [of "ordered_query rows p ks qs n k"] by (auto simp: st f sort_stream_def p limit_rows_def collected_def)
  have c: "consistent (row_cmp ks) (set rows)" by (rule row_cmp_consistent [OF assms(4)])
  then have "in_order (row_cmp ks) ?ys" by (rule sort_by_in_order) auto
  moreover have "\<forall>a \<in> set ?ys. [b \<leftarrow> ?ys. row_cmp ks a b = Equal] = [b \<leftarrow> rows. value b e = VBool True \<and> row_cmp ks a b = Equal]"
    using sort_by_stable [OF c, of _ ?fs] by (auto simp: conj_commute)
  ultimately show ?thesis using r sort_by_mset by blast
qed

theorem ordered_query_exact_witness:
  "\<exists>s' ys. collect_rows (limit_next (project_next (sort_next (filter_next scan_next))))
      (ordered_query sample_rows sample_program [(0, True)] [[PushColumn 1]] 2 1) =
    Some (Ok (take 2 (drop 1 (map (\<lambda>r. map (\<lambda>x. case meaning sql_cols r x :: (unit, val) res of Ok v \<Rightarrow> v | _ \<Rightarrow> VNull) [Column (str ''pay'')]) ys))), s') \<and>
    in_order (row_cmp [(0, True)]) ys"
proof -
  let ?v = "\<lambda>r x. case meaning sql_cols r x :: (unit, val) res of Ok v \<Rightarrow> v | _ \<Rightarrow> VNull"
  have v: "\<forall>r \<in> set sample_rows. \<forall>x \<in> set [sample_pred, Column (str ''pay'')]. meaning sql_cols r x = (Ok (?v r x) :: (unit, val) res)"
    by (simp add: sample_rows_def sample_values)
  have q: "list_all2 (\<lambda>x q. compile sql_cols x = Ok q) [Column (str ''pay'')] [[PushColumn 1]]" by (simp add: sample_project_compile)
  from ordered_query_exact [OF sample_compile q v sample_homogeneous, of 2 1] show ?thesis by blast
qed

text \<open>
  C22: The pipeline of scan, filter and grouping returns one row per group in the order in which the
  groups first appear, with the aggregates of the rows of that group.
\<close>

theorem grouped_query_exact:
  assumes "compile cols e = Ok p" and "\<forall>r \<in> set rows. meaning cols r e = (Ok (value r) :: (unit, val) res)"
  shows "\<exists>s'. collect_rows (aggregate_next (filter_next scan_next)) (grouped_query rows p cs specs) =
    Some (Ok (grouped cs specs [r \<leftarrow> rows. value r = VBool True]), s')"
proof -
  have m: "vm_eval p r = (meaning cols r e :: (unit, val) res)" for r by (rule compile_meaning [OF assms(1)])
  have "vm_eval p r = (Ok (value r) :: (unit, val) res)" if "r \<in> set rows" for r
    using assms(2) that by (simp add: m)
  then have f: "filter_rows p rows False = Stream [r \<leftarrow> rows. value r = VBool True] False" by (rule filter_rows_ok)
  then show ?thesis
    using filtered_grouped.collect [of "grouped_query rows p cs specs"]
    by (simp add: grouped_query_def aggregate_stream_def collected_def)
qed

theorem grouped_query_exact_witness:
  "\<exists>s'. collect_rows (aggregate_next (filter_next scan_next)) (grouped_query sample_rows sample_program [0] [\<lparr>gs_kind = GSum, gs_column = 1\<rparr>]) =
    Some (Ok [[VInt 2, VInt 50], [VInt 1, VInt 10]], s')"
proof -
  have v: "\<forall>r \<in> set sample_rows. meaning sql_cols r sample_pred = (Ok (VBool (5 < (case r ! 1 of VInt i \<Rightarrow> sint i | _ \<Rightarrow> 0))) :: (unit, val) res)"
    by (simp add: sample_rows_def sample_values)
  have g: "grouped [0] [\<lparr>gs_kind = GSum, gs_column = 1\<rparr>] [r \<leftarrow> sample_rows. VBool (5 < (case r ! 1 of VInt i \<Rightarrow> sint i | _ \<Rightarrow> 0)) = VBool True] =
      [[VInt 2, VInt 50], [VInt 1, VInt 10]]"
    by (simp add: sample_rows_def grouped_def group_key_def group_members_def agg_value_def ints_def List.map_filter_def row_cell_def nth_opt_def in_first_order_def)
  from grouped_query_exact [OF sample_compile v, of "[0]" "[\<lparr>gs_kind = GSum, gs_column = 1\<rparr>]"] show ?thesis
    by (simp only: g)
qed

section \<open>SQL: plans\<close>

text \<open>
  C17: Folding constants keeps the value of an expression on every row where the expression has a value
  and the operands of its conjunctions are Boolean or null; in particular it does not panic there.
\<close>

theorem folding_keeps_value:
  assumes "logical_operands cols row e" and "meaning cols row e = (Ok v :: (unit, val) res)"
  shows "\<exists>e'. fold_constants e = (Ok e' :: (unit, expr) res) \<and> meaning cols row e' = (Ok v :: (unit, val) res)"
  using fold_constants_meaning [OF assms] by (simp add: folds_to_def)

theorem folding_keeps_value_witness:
  "\<exists>e'. fold_constants (Binary And (Binary Lt (LitInt 1) (LitInt 2)) sample_pred) = (Ok e' :: (unit, expr) res) \<and>
    meaning sql_cols [VInt 1, VInt 10] e' = (Ok (VBool True) :: (unit, val) res)"
  by (rule folding_keeps_value)
    (simp_all add: sample_values is_logical_def apply_binary_def logic_and_def vm_bool_def,
     simp add: sample_pred_def)

text \<open>
  C16: On a lowered \<open>SELECT\<close> the optimizer folds the two conditions of the statement, drops those that
  fold to \<open>TRUE\<close>, and changes nothing else; it panics exactly when the folding does. In particular no
  conjunct is split off, no filter moves below a join and no column is pruned: the documentation of the
  module and of the repository promises that, but none of the rules applies to the plan of a query.
\<close>

theorem optimize_exact:
  "optimize (from_select s) = (rbind (simplified s) (\<lambda>s. Ok (from_select s)) :: (unit, logical_plan) res)"
  by (rule optimize_lowered)

section \<open>SQL: text and sessions\<close>

text \<open>
  C19: Lexing and parsing a script ends with its statements or an error value, for every sequence of
  bytes: neither the fuel of the expression parser nor the bound of a loop runs out, and nothing panics.
\<close>

theorem sql_parsing_answers:
  "parse_script src \<noteq> Panic \<and> parse_script src \<noteq> Undef"
  using parse_script_answers [of src] by (simp add: answers_def)

text \<open>
  C18: A script of well-formed statements, printed with the parentheses the precedences ask for, parses
  back to itself, when its numbers are integers from zero up and its strings ASCII.
\<close>

theorem sql_script_roundtrip:
  assumes "list_all wf_statement ss" and "list_all lexable (script_tokens ss)"
  shows "parse_script (script_text ss) = Ok ss"
  by (rule script_text_read [OF assms])

theorem sql_script_roundtrip_witness:
  "parse_script (script_text sample_script) = Ok sample_script"
  by (rule sql_script_roundtrip [OF sample_script_wf sample_script_lexable])

text \<open>
  C23: After any calls on a new session every prepared statement stands under its own handle, below the
  counter, and its tree and parameter count are those of its text.
\<close>

theorem session_invariant:
  "session_ok (after_calls cs new_session)"
  by (rule after_calls_ok [OF new_session_ok])

text \<open>
  C24: A deallocated handle never names a statement again, whatever calls follow.
\<close>

theorem deallocated_handle_unknown:
  assumes "ss_prepared (after_calls cs new_session) h \<noteq> None"
  shows "fst (bind_params h ps (after_calls ds (snd (deallocate h (after_calls cs new_session))))) = Err (UnknownHandle h)"
  using after_calls_retired [OF deallocate_retires [OF after_calls_ok [OF new_session_ok] assms], of ds]
  by (simp add: retired_def bind_params_def)

theorem deallocated_handle_unknown_witness:
  "fst (bind_params 0 [] (after_calls [CallSet (str ''x'') (SetInt 1)]
    (snd (deallocate 0 (after_calls [CallPrepareSql (str ''DROP TABLE t'')] new_session))))) = Err (UnknownHandle 0)"
proof (rule deallocated_handle_unknown)
  have "ss_prepared (snd (prepare (str ''DROP TABLE t'') new_session)) 0 \<noteq> None" by code_simp
  then show "ss_prepared (after_calls [CallPrepareSql (str ''DROP TABLE t'')] new_session) 0 \<noteq> None"
    by (simp add: after_calls_def after_call_def)
qed

end
